(* ===== verification/Prelude.thy ===== *)
theory Prelude
  imports Main "HOL-Library.Word"
begin

text \<open>
  Shared vocabulary of the development: the machine types of the x86_64 build of the kernel, the
  result type of code that can panic, fault or spin for ever, and the lemmas on words, lists and
  outcomes that every component uses.
\<close>

unbundle bit_operations_syntax

section \<open>Machine types\<close>

text \<open>
  The target is x86_64: \<open>int\<close> has 32 bits, \<open>long\<close>, \<open>size_t\<close> and \<open>uintptr_t\<close> have 64. A signed type
  is the word of its width, read with \<open>sint\<close>. Words wrap; C leaves the overflow of a signed sum or
  product undefined, and the build does not ask the compiler for more. Where the input of a routine
  decides whether a signed value overflows (\<open>strtol\<close>, \<open>atoi\<close>) the model makes that a fault; elsewhere
  the ranges keep it out, or the text at the definition says that the wrapped value stands for one
  that C does not promise.
\<close>

type_synonym u8 = "8 word"
type_synonym u16 = "16 word"
type_synonym u32 = "32 word"
type_synonym u64 = "64 word"
type_synonym cint = "32 word"
type_synonym uintptr = "64 word"

text \<open>Addresses of heap objects, where the code only compares and follows them. NULL is 0.\<close>

type_synonym addr = nat

abbreviation (input) NULL :: addr where
  "NULL \<equiv> 0"

section \<open>Outcomes\<close>

text \<open>
  A kernel routine returns, panics with one of the codes of \<open>kernel/panic.h\<close>, performs an access the
  machine or the language does not define (a NULL or wild pointer, an index outside its array, memory
  nobody wrote, a signed overflow),
  or never returns because it spins on a lock that stays taken.
\<close>

datatype panic_code =
    KERNEL_BAD_ARGUMENT_ERROR
  | OUT_OF_MEMORY
  | UNSUPPORTED_FUNCTION_ERROR
  | SCHEDULER_ERROR
  | MEMORY_MANAGEMENT_ERROR
  | INITIAL_RAMDISK_CORRUPTED
  | CPU_EXCEPTION_UNHANDLED

datatype fault = BadPointer | OutOfBounds | BadShift | DivideByZero | SignedOverflow

datatype 'a outcome = Done 'a | Panic panic_code | Fault fault | Hang

primrec and_then :: "'a outcome \<Rightarrow> ('a \<Rightarrow> 'b outcome) \<Rightarrow> 'b outcome" where
  "and_then (Done x) f = f x"
| "and_then (Panic c) f = Panic c"
| "and_then (Fault e) f = Fault e"
| "and_then Hang f = Hang"

named_theorems outcome_iff \<open>inversion of outcomes that are \<open>Done\<close>\<close>

lemma and_then_cong [fundef_cong]:
  "m = m' \<Longrightarrow> (\<And>x. m' = Done x \<Longrightarrow> f x = f' x) \<Longrightarrow> and_then m f = and_then m' f'"
  by (cases m') auto

lemma and_then_Done_iff [outcome_iff]:
  "and_then m f = Done y \<longleftrightarrow> (\<exists>x. m = Done x \<and> f x = Done y)"
  by (cases m) auto

lemma and_then_assoc [simp]:
  "and_then (and_then m f) g = and_then m (\<lambda>x. and_then (f x) g)"
  by (cases m) auto

lemma and_then_Done_right [simp]: "and_then m Done = m"
  by (cases m) auto

definition is_Done :: "'a outcome \<Rightarrow> bool" where
  "is_Done m \<longleftrightarrow> (\<exists>x. m = Done x)"

lemma is_Done_simps [simp]:
  "is_Done (Done x)" "\<not> is_Done (Panic c)" "\<not> is_Done (Fault e)" "\<not> is_Done Hang"
  by (auto simp: is_Done_def)

text \<open>A read of an array: an index outside it is a fault.\<close>

definition array_get :: "'a list \<Rightarrow> nat \<Rightarrow> 'a outcome" where
  "array_get xs i = (if i < length xs then Done (xs ! i) else Fault OutOfBounds)"

definition array_set :: "'a list \<Rightarrow> nat \<Rightarrow> 'a \<Rightarrow> 'a list outcome" where
  "array_set xs i x = (if i < length xs then Done (xs[i := x]) else Fault OutOfBounds)"

lemma array_get_in [simp]: "i < length xs \<Longrightarrow> array_get xs i = Done (xs ! i)"
  by (simp add: array_get_def)

lemma array_set_in [simp]: "i < length xs \<Longrightarrow> array_set xs i x = Done (xs[i := x])"
  by (simp add: array_set_def)

lemma array_get_Done_iff [outcome_iff]:
  "array_get xs i = Done x \<longleftrightarrow> i < length xs \<and> xs ! i = x"
  by (auto simp: array_get_def)

lemma array_set_Done_iff [outcome_iff]:
  "array_set xs i x = Done ys \<longleftrightarrow> i < length xs \<and> ys = xs[i := x]"
  by (auto simp: array_set_def)

section \<open>Loops\<close>

lemma all_from_Suc:
  "i < n \<Longrightarrow> (\<forall>k. i \<le> k \<and> k < n \<longrightarrow> P k) \<longleftrightarrow> P i \<and> (\<forall>k. Suc i \<le> k \<and> k < n \<longrightarrow> P k)"
  by (metis Suc_leI le_neq_implies_less less_imp_le_nat Suc_le_lessD le_refl)

text \<open>
  \<open>search try i n\<close> is the loop \<^verbatim>\<open>for (k = i; k < i + n; k++)\<close> whose body either returns from the
  function (\<open>Some\<close>) or goes on (\<open>None\<close>).
\<close>

primrec search :: "(nat \<Rightarrow> 'a option outcome) \<Rightarrow> nat \<Rightarrow> nat \<Rightarrow> 'a option outcome" where
  "search try i 0 = Done None"
| "search try i (Suc n) =
     and_then (try i) (\<lambda>r. case r of Some x \<Rightarrow> Done (Some x) | None \<Rightarrow> search try (Suc i) n)"

lemma search_cong [fundef_cong]:
  "i = i' \<Longrightarrow> n = n' \<Longrightarrow> (\<And>k. i' \<le> k \<Longrightarrow> k < i' + n' \<Longrightarrow> try k = try' k) \<Longrightarrow>
   search try i n = search try' i' n'"
  by (induction n' arbitrary: i i' n) (auto intro!: and_then_cong split: option.splits)

lemma search_SomeD:
  "search try i n = Done (Some x) \<Longrightarrow>
   \<exists>k. i \<le> k \<and> k < i + n \<and> try k = Done (Some x) \<and> (\<forall>j. i \<le> j \<and> j < k \<longrightarrow> try j = Done None)"
proof (induction n arbitrary: i)
  case 0
  then show ?case by simp
next
  case (Suc n)
  then obtain r where r: "try i = Done r"
    and rest: "(case r of Some x \<Rightarrow> Done (Some x) | None \<Rightarrow> search try (Suc i) n) = Done (Some x)"
    by (auto simp: and_then_Done_iff)
  show ?case
  proof (cases r)
    case None
    with rest obtain k where "Suc i \<le> k" "k < Suc i + n" "try k = Done (Some x)"
      and before: "\<forall>j. Suc i \<le> j \<and> j < k \<longrightarrow> try j = Done None"
      using Suc.IH [of "Suc i"] by auto
    moreover from before r None have "\<forall>j. i \<le> j \<and> j < k \<longrightarrow> try j = Done None"
      by (metis Suc_leI le_neq_implies_less)
    ultimately show ?thesis by (intro exI [of _ k]) auto
  next
    case (Some y)
    with r rest show ?thesis by (intro exI [of _ i]) auto
  qed
qed

lemma search_None_iff:
  "search try i n = Done None \<longleftrightarrow> (\<forall>k. i \<le> k \<and> k < i + n \<longrightarrow> try k = Done None)"
proof (induction n arbitrary: i)
  case 0
  then show ?case by auto
next
  case (Suc n)
  from all_from_Suc [of i "i + Suc n" "\<lambda>k. try k = Done None"] Suc.IH [of "Suc i"] show ?case
    by (auto simp: and_then_Done_iff split: option.splits)
qed

lemma search_first:
  "(\<And>j. i \<le> j \<Longrightarrow> j < k \<Longrightarrow> try j = Done None) \<Longrightarrow> i \<le> k \<Longrightarrow> k < i + n \<Longrightarrow>
   try k \<noteq> Done None \<Longrightarrow> search try i n = try k"
proof (induction n arbitrary: i)
  case 0
  then show ?case by simp
next
  case (Suc n)
  show ?case
  proof (cases "i = k")
    case True
    with Suc.prems(4) show ?thesis by (cases "try k") (auto split: option.splits)
  next
    case False
    with Suc.prems have "search try (Suc i) n = try k" by (intro Suc.IH) auto
    with False Suc.prems(1) [of i] Suc.prems(2) show ?thesis by simp
  qed
qed

lemma search_total:
  "(\<And>k. i \<le> k \<Longrightarrow> k < i + n \<Longrightarrow> is_Done (try k)) \<Longrightarrow> is_Done (search try i n)"
proof (induction n arbitrary: i)
  case 0
  then show ?case by simp
next
  case (Suc n)
  from Suc.prems [of i] obtain r where "try i = Done r" by (auto simp: is_Done_def)
  moreover have "is_Done (search try (Suc i) n)" using Suc.prems by (intro Suc.IH) auto
  ultimately show ?case by (auto split: option.splits)
qed

section \<open>Words\<close>

lemma unat_of_nat_less [simp]:
  "n < 2 ^ LENGTH('a) \<Longrightarrow> unat (of_nat n :: 'a::len word) = n"
  by (simp add: unat_of_nat take_bit_nat_eq_self)

lemma sint_nonneg_unat:
  fixes w :: "'a::len word"
  shows "0 \<le> sint w \<Longrightarrow> nat (sint w) = unat w"
proof -
  assume "0 \<le> sint w"
  then have "\<not> bit w (LENGTH('a) - 1)"
    by (simp add: not_less [symmetric] bit_last_iff)
  then have "bit (sint w) n = bit (uint w) n" for n
    by (cases "n < LENGTH('a) - 1")
      (auto simp: bit_sint_iff bit_uint_iff min_def not_less dest: le_antisym bit_imp_le_length)
  then have "sint w = uint w" by (rule bit_eqI)
  then show ?thesis by simp
qed

lemma sint_of_nat_31: "n < 2 ^ 31 \<Longrightarrow> sint (of_nat n :: cint) = int n"
  by (simp add: signed_of_nat signed_take_bit_int_eq_self)

lemma sint_unat_31: "unat (w :: cint) < 2 ^ 31 \<Longrightarrow> sint w = int (unat w)"
  using sint_of_nat_31 [of "unat w"] by simp

lemma scast_unat_31:
  assumes "unat (w :: cint) < 2 ^ 31"
  shows "unat (scast w :: u64) = unat w"
proof -
  have eq: "(scast w :: u64) = of_nat (unat w)"
    by (simp only: scast_eq sint_unat_31 [OF assms] of_int_of_nat_eq)
  show ?thesis unfolding eq by (rule unat_of_nat_less) (use assms in simp)
qed

lemma unat_add_one:
  fixes w :: "'a::len word"
  assumes "Suc (unat w) < 2 ^ LENGTH('a)"
  shows "unat (w + 1) = Suc (unat w)"
proof -
  have "1 + w = of_nat (Suc (unat w))" by (simp only: of_nat_Suc of_nat_unat ucast_id)
  then have "unat (1 + w) = Suc (unat w)" using unat_of_nat_less [OF assms] by simp
  then show ?thesis by (simp only: add.commute)
qed

lemma ucast_of_nat_unat: "(ucast (w :: 'a::len word) :: 'b::len word) = of_nat (unat w)"
  by (simp only: ucast_eq uint_nat of_int_of_nat_eq)

lemma word_zero_bits: "(w :: 'a::len word) = 0 \<longleftrightarrow> (\<forall>n. \<not> bit w n)"
proof
  assume "\<forall>n. \<not> bit w n"
  then show "w = 0" by (intro bit_word_eqI) simp
qed simp

section \<open>The memory map\<close>

text \<open>Where user stacks start (\<open>arch/x86_64/mem.h\<close>), for the page tables and for new threads.\<close>

definition MEM_USERMODE_STACK_REGION :: u64 where
  "MEM_USERMODE_STACK_REGION = 0x0000060000000000"

end
