(* ===== verification/Frame_Bitmap.thy ===== *)
theory Frame_Bitmap
  imports Prelude
begin

text \<open>
  The contract that the bitmap allocators of the kernel share: the physical memory manager
  (\<open>mem/pmm.c\<close>) and the chunk pools (\<open>misc/pool.c\<close>); the search lemmas also serve the PID bitmap
  (\<open>task/process.c\<close>). A bitmap has
  a capacity and says of each frame below it whether it is in use; setting or clearing a frame
  changes that frame and no other. What the allocators need (runs of frames, their round trip and
  the effect on the number of frames in use) is proved once from that contract.
\<close>

text \<open>The loop \<^verbatim>\<open>for (i = 0; i < n; i++) op(frame + i)\<close> of the allocators.\<close>

primrec frame_loop :: "('s \<Rightarrow> cint \<Rightarrow> 's outcome) \<Rightarrow> 's \<Rightarrow> cint \<Rightarrow> nat \<Rightarrow> 's outcome" where
  "frame_loop f s frame 0 = Done s"
| "frame_loop f s frame (Suc n) = and_then (f s frame) (\<lambda>s'. frame_loop f s' (frame + 1) n)"

locale frame_bitmap =
  fixes capacity :: "'s \<Rightarrow> nat"
    and in_use :: "'s \<Rightarrow> nat \<Rightarrow> bool"
    and set_frame :: "'s \<Rightarrow> cint \<Rightarrow> 's outcome"
    and clear_frame :: "'s \<Rightarrow> cint \<Rightarrow> 's outcome"
  assumes set_frame: "f < capacity s \<Longrightarrow> f < 2 ^ 31 \<Longrightarrow>
      \<exists>s'. set_frame s (of_nat f) = Done s' \<and> capacity s' = capacity s \<and>
           (\<forall>g. in_use s' g \<longleftrightarrow> g = f \<or> in_use s g)"
    and clear_frame: "f < capacity s \<Longrightarrow> f < 2 ^ 31 \<Longrightarrow>
      \<exists>s'. clear_frame s (of_nat f) = Done s' \<and> capacity s' = capacity s \<and>
           (\<forall>g. in_use s' g \<longleftrightarrow> g \<noteq> f \<and> in_use s g)"
begin

lemma set_run:
  "f + n \<le> capacity s \<Longrightarrow> f + n \<le> 2 ^ 31 \<Longrightarrow>
   \<exists>s'. frame_loop set_frame s (of_nat f) n = Done s' \<and> capacity s' = capacity s \<and>
        (\<forall>g. in_use s' g \<longleftrightarrow> f \<le> g \<and> g < f + n \<or> in_use s g)"
proof (induction n arbitrary: s f)
  case 0
  then show ?case by auto
next
  case (Suc n)
  from set_frame [of f s] Suc.prems obtain s1 where s1: "set_frame s (of_nat f) = Done s1"
    "capacity s1 = capacity s" "\<forall>g. in_use s1 g \<longleftrightarrow> g = f \<or> in_use s g" by auto
  with Suc.IH [of "Suc f" s1] Suc.prems obtain s2 where
    s2: "frame_loop set_frame s1 (of_nat (Suc f)) n = Done s2" "capacity s2 = capacity s"
    "\<forall>g. in_use s2 g \<longleftrightarrow> Suc f \<le> g \<and> g < Suc f + n \<or> in_use s1 g" by auto
  have "in_use s2 g \<longleftrightarrow> f \<le> g \<and> g < f + Suc n \<or> in_use s g" for g
    using spec [OF s1(3), of g] spec [OF s2(3), of g] by (cases "g = f") auto
  with s1 s2 show ?case by (simp add: add.commute)
qed

lemma clear_run:
  "f + n \<le> capacity s \<Longrightarrow> f + n \<le> 2 ^ 31 \<Longrightarrow>
   \<exists>s'. frame_loop clear_frame s (of_nat f) n = Done s' \<and> capacity s' = capacity s \<and>
        (\<forall>g. in_use s' g \<longleftrightarrow> \<not> (f \<le> g \<and> g < f + n) \<and> in_use s g)"
proof (induction n arbitrary: s f)
  case 0
  then show ?case by auto
next
  case (Suc n)
  from clear_frame [of f s] Suc.prems obtain s1 where s1: "clear_frame s (of_nat f) = Done s1"
    "capacity s1 = capacity s" "\<forall>g. in_use s1 g \<longleftrightarrow> g \<noteq> f \<and> in_use s g" by auto
  with Suc.IH [of "Suc f" s1] Suc.prems obtain s2 where
    s2: "frame_loop clear_frame s1 (of_nat (Suc f)) n = Done s2" "capacity s2 = capacity s"
    "\<forall>g. in_use s2 g \<longleftrightarrow> \<not> (Suc f \<le> g \<and> g < Suc f + n) \<and> in_use s1 g" by auto
  have "in_use s2 g \<longleftrightarrow> \<not> (f \<le> g \<and> g < f + Suc n) \<and> in_use s g" for g
    using spec [OF s1(3), of g] spec [OF s2(3), of g] by (cases "g = f") auto
  with s1 s2 show ?case by (simp add: add.commute)
qed

text \<open>Taking a free run and giving it back leaves the same frames in use.\<close>

lemma run_round_trip:
  assumes "f + n \<le> capacity s" "f + n \<le> 2 ^ 31" "\<And>g. f \<le> g \<Longrightarrow> g < f + n \<Longrightarrow> \<not> in_use s g"
  shows "\<exists>s' s''. frame_loop set_frame s (of_nat f) n = Done s' \<and>
           frame_loop clear_frame s' (of_nat f) n = Done s'' \<and> in_use s'' = in_use s"
proof -
  from set_run [OF assms(1,2)] obtain s' where s': "frame_loop set_frame s (of_nat f) n = Done s'"
    "capacity s' = capacity s" "\<forall>g. in_use s' g \<longleftrightarrow> f \<le> g \<and> g < f + n \<or> in_use s g" by blast
  moreover from clear_run [of f n s'] s' assms obtain s'' where
    "frame_loop clear_frame s' (of_nat f) n = Done s''"
    "\<forall>g. in_use s'' g \<longleftrightarrow> \<not> (f \<le> g \<and> g < f + n) \<and> in_use s' g" by auto
  ultimately show ?thesis using assms(3) by (fastforce simp: fun_eq_iff)
qed

end

text \<open>The number of frames in use below a bound, and how runs change it.\<close>

definition use_count :: "(nat \<Rightarrow> bool) \<Rightarrow> nat \<Rightarrow> nat" where
  "use_count P m = card {g. g < m \<and> P g}"

text \<open>Marking or clearing a run of \<open>n\<close> frames, some of which may have been marked before.\<close>

lemma use_count_unmark_run:
  assumes "f + n \<le> m" "\<And>g. Q g \<longleftrightarrow> \<not> (f \<le> g \<and> g < f + n) \<and> P g"
  shows "use_count Q m + card {g. f \<le> g \<and> g < f + n \<and> P g} = use_count P m"
proof -
  let ?Q = "{g. g < m \<and> Q g}" and ?R = "{g. f \<le> g \<and> g < f + n \<and> P g}"
  have fin: "finite ?Q" "finite ?R" by (rule finite_subset [of _ "{..<m}"]; use assms(1) in force)+
  have "card {g. g < m \<and> P g} = card (?Q \<union> ?R)" using assms by (intro arg_cong [where f = card]) force
  also have "\<dots> = card ?Q + card ?R" using assms(2) by (intro card_Un_disjoint fin) blast
  finally show ?thesis by (simp only: use_count_def)
qed

lemma use_count_mark_run:
  assumes "f + n \<le> m" "\<And>g. Q g \<longleftrightarrow> f \<le> g \<and> g < f + n \<or> P g"
  shows "use_count Q m + card {g. f \<le> g \<and> g < f + n \<and> P g} = use_count P m + n"
proof -
  have run: "{g. f \<le> g \<and> g < f + n \<and> Q g} = {f ..< f + n}"
    unfolding assms(2) atLeastLessThan_def atLeast_def lessThan_def by blast
  have "(\<not> (f \<le> g \<and> g < f + n) \<and> P g) \<longleftrightarrow> \<not> (f \<le> g \<and> g < f + n) \<and> Q g" for g
    using assms(2) [of g] by blast
  from use_count_unmark_run [OF assms(1) this]
  have "use_count (\<lambda>g. \<not> (f \<le> g \<and> g < f + n) \<and> P g) m + n = use_count Q m"
    by (simp only: run card_atLeastLessThan diff_add_inverse)
  moreover have "use_count (\<lambda>g. \<not> (f \<le> g \<and> g < f + n) \<and> P g) m +
      card {g. f \<le> g \<and> g < f + n \<and> P g} = use_count P m"
    by (rule use_count_unmark_run [OF assms(1)]) (rule refl)
  ultimately show ?thesis by simp
qed

lemma use_count_le: "use_count P m \<le> m"
proof -
  have "card {g. g < m \<and> P g} \<le> card {..<m}" by (rule card_mono) auto
  then show ?thesis by (simp add: use_count_def)
qed

section \<open>First-fit search over 32-bit groups\<close>

text \<open>
  The allocators look for a frame in two nested loops: over the elements of the bitmap and over the
  32 bits of an element. Flattened, that is one search over frame numbers.
\<close>

lemma search_group:
  assumes "\<And>i. i < n \<Longrightarrow> t i = search (\<lambda>b. h (32 * i + b)) 0 32"
  shows "search t 0 n = search h 0 (32 * n)"
proof -
  have split: "search h i (a + b) =
      and_then (search h i a) (\<lambda>r. case r of Some x \<Rightarrow> Done (Some x) | None \<Rightarrow> search h (i + a) b)"
    for h :: "nat \<Rightarrow> 'a option outcome" and i a b
    by (induction a arbitrary: i) (auto intro!: and_then_cong split: option.splits)
  have shift: "search (\<lambda>b. h (k + b)) i m = search h (k + i) m" for k i m
    by (induction m arbitrary: i) (auto intro!: and_then_cong split: option.splits)
  have "j + m \<le> n \<Longrightarrow> search t j m = search h (32 * j) (32 * m)" for j m
  proof (induction m arbitrary: j)
    case 0
    then show ?case by simp
  next
    case (Suc m)
    have "t j = search h (32 * j) 32"
      using assms [of j] Suc.prems shift [of "32 * j" 0 32] by simp
    moreover have "search t (Suc j) m = search h (32 * j + 32) (32 * m)"
      using Suc.IH [of "Suc j"] Suc.prems by (simp add: add.commute)
    ultimately show ?case
      using split [of h "32 * j" 32 "32 * m"] by (simp cong: option.case_cong)
  qed
  from this [of 0 n] show ?thesis by simp
qed

lemma search_least:
  assumes "\<And>f. f < m \<Longrightarrow> h f = Done (if P f then Some (g f) else None)"
  shows "search h 0 m = Done (if \<exists>f<m. P f then Some (g (LEAST f. P f)) else None)"
proof -
  have "is_Done (search h 0 m)" using assms by (intro search_total) auto
  then obtain r where r: "search h 0 m = Done r" by (auto simp: is_Done_def)
  show ?thesis
  proof (cases r)
    case None
    with r have "\<forall>f<m. \<not> P f" using assms by (auto simp: search_None_iff split: if_splits)
    with r None show ?thesis by simp
  next
    case (Some x)
    with r obtain k where k: "k < m" "h k = Done (Some x)" "\<forall>j<k. h j = Done None"
      using search_SomeD [of h 0 m x] by auto
    then have "P k" "x = g k" using assms [of k] by (auto split: if_splits)
    moreover have "\<forall>j<k. \<not> P j" using k assms by (auto split: if_splits)
    ultimately have "(LEAST f. P f) = k" by (metis Least_equality not_le)
    with r Some k \<open>P k\<close> \<open>x = g k\<close> show ?thesis by auto
  qed
qed


lemma least_free_below:
  fixes m :: nat
  assumes "\<exists>f<m. \<not> P f"
  shows "(LEAST f. \<not> P f) < m" "\<not> P (LEAST f. \<not> P f)"
proof -
  from assms obtain f where "f < m" "\<not> P f" by blast
  then show "(LEAST f. \<not> P f) < m" by (meson Least_le le_less_trans)
  from \<open>\<not> P f\<close> show "\<not> P (LEAST f. \<not> P f)" by (rule LeastI)
qed

section \<open>Runs of free frames\<close>

text \<open>
  The loop over \<open>check\<close> of both \<open>findFirstFrames\<close>: it counts the free ones of the \<open>n\<close> frames from
  \<open>starting_bit\<close> and says whether the count reached \<open>n\<close>.
\<close>

primrec check_run :: "(cint \<Rightarrow> cint outcome) \<Rightarrow> cint \<Rightarrow> nat \<Rightarrow> nat \<Rightarrow> nat \<Rightarrow> nat \<Rightarrow> bool outcome" where
  "check_run test starting_bit n check free_bits 0 = Done False"
| "check_run test starting_bit n check free_bits (Suc left) =
     and_then (test (starting_bit + of_nat check)) (\<lambda>t.
       let free_bits' = (if t = 0 then free_bits + 1 else free_bits) in
       if free_bits' = n then Done True
       else check_run test starting_bit n (check + 1) free_bits' left)"

definition free_run :: "(nat \<Rightarrow> bool) \<Rightarrow> nat \<Rightarrow> nat \<Rightarrow> bool" where
  "free_run P f n \<longleftrightarrow> (\<forall>k<n. \<not> P (f + k))"

definition run_search :: "(nat \<Rightarrow> bool) \<Rightarrow> (cint \<Rightarrow> cint outcome) \<Rightarrow> nat \<Rightarrow> nat \<Rightarrow> cint option outcome" where
  "run_search P test n m = search (\<lambda>f. if P f then Done None
      else and_then (check_run test (of_nat f) n 0 0 n)
             (\<lambda>enough. Done (if enough then Some (of_nat f) else None))) 0 m"

locale frame_search = frame_bitmap +
  fixes test_frame :: "'a \<Rightarrow> cint \<Rightarrow> cint outcome"
  assumes test_frame: "f < capacity s \<Longrightarrow> f < 2 ^ 31 \<Longrightarrow>
      \<exists>t. test_frame s (of_nat f) = Done t \<and> (t = 0 \<longleftrightarrow> \<not> in_use s f)"
    and test_beyond: "capacity s \<le> 2 ^ 31 \<Longrightarrow> \<exists>e. test_frame s (of_nat (capacity s)) = Fault e"
begin

lemma check_run_spec:
  "f + n \<le> capacity s \<Longrightarrow> capacity s \<le> 2 ^ 31 \<Longrightarrow> check + left = n \<Longrightarrow> free \<le> check \<Longrightarrow>
   check_run (test_frame s) (of_nat f) n check free left =
     Done (0 < left \<and> free = check \<and> (\<forall>k. check \<le> k \<and> k < n \<longrightarrow> \<not> in_use s (f + k)))"
proof (induction left arbitrary: check free)
  case 0
  then show ?case by simp
next
  case (Suc left)
  from test_frame [of "f + check" s] Suc.prems obtain t where
    t: "test_frame s (of_nat f + of_nat check) = Done t" "t = 0 \<longleftrightarrow> \<not> in_use s (f + check)"
    by auto
  let ?free' = "if t = 0 then free + 1 else free"
  have tail: "(\<forall>k. check \<le> k \<and> k < n \<longrightarrow> \<not> in_use s (f + k)) \<longleftrightarrow>
      t = 0 \<and> (\<forall>k. Suc check \<le> k \<and> k < n \<longrightarrow> \<not> in_use s (f + k))"
    using t(2) Suc.prems(3) all_from_Suc [of check n "\<lambda>k. \<not> in_use s (f + k)"] by simp
  show ?case
  proof (cases "?free' = n")
    case True
    then have "t = 0" "free = check" "left = 0" using Suc.prems by (auto split: if_splits)
    moreover from \<open>left = 0\<close> Suc.prems(3)
    have "\<forall>k. Suc check \<le> k \<and> k < n \<longrightarrow> \<not> in_use s (f + k)" by auto
    ultimately show ?thesis using True t(1) tail by (simp add: Let_def)
  next
    case False
    have "check_run (test_frame s) (of_nat f) n (Suc check) ?free' left =
        Done (0 < left \<and> ?free' = Suc check \<and>
              (\<forall>k. Suc check \<le> k \<and> k < n \<longrightarrow> \<not> in_use s (f + k)))"
      using Suc.prems by (intro Suc.IH) auto
    moreover have "(0 < left \<and> ?free' = Suc check) \<longleftrightarrow> t = 0 \<and> free = check"
      using False Suc.prems by auto
    ultimately show ?thesis using False t(1) tail by (auto simp: Let_def)
  qed
qed

text \<open>A run that leaves the bitmap is read to its end, outside the array.\<close>

lemma check_run_beyond:
  "capacity s < f + n \<Longrightarrow> f + check \<le> capacity s \<Longrightarrow> capacity s \<le> 2 ^ 31 \<Longrightarrow>
   check + left = n \<Longrightarrow> free \<le> check \<Longrightarrow>
   \<exists>e. check_run (test_frame s) (of_nat f) n check free left = Fault e"
proof (induction left arbitrary: check free)
  case 0
  then show ?case by simp
next
  case (Suc left)
  show ?case
  proof (cases "f + check = capacity s")
    case True
    with test_beyond [OF Suc.prems(3)]
    obtain e where "test_frame s (of_nat f + of_nat check) = Fault e" by (metis of_nat_add)
    then show ?thesis by simp
  next
    case False
    with test_frame [of "f + check" s] Suc.prems obtain t where
      "test_frame s (of_nat f + of_nat check) = Done t" by auto
    moreover have "(if t = 0 then free + 1 else free) \<noteq> n" using False Suc.prems by auto
    moreover have "\<exists>e. check_run (test_frame s) (of_nat f) n (check + 1)
        (if t = 0 then free + 1 else free) left = Fault e"
      using False Suc.prems by (intro Suc.IH) auto
    ultimately show ?thesis by (simp add: Let_def)
  qed
qed

lemma check_run_free:
  "f + n \<le> capacity s \<Longrightarrow> capacity s \<le> 2 ^ 31 \<Longrightarrow> 0 < n \<Longrightarrow>
   check_run (test_frame s) (of_nat f) n 0 0 n = Done (free_run (in_use s) f n)"
  using check_run_spec [of f n s 0 n 0] by (simp add: free_run_def)

lemma run_search_found:
  assumes "m \<le> capacity s" "capacity s \<le> 2 ^ 31" "0 < n" "f < m" "f + n \<le> capacity s"
    and run: "free_run (in_use s) f n" and first: "\<And>g. g < f \<Longrightarrow> \<not> free_run (in_use s) g n"
  shows "run_search (in_use s) (test_frame s) n m = Done (Some (of_nat f))"
proof -
  let ?h = "\<lambda>f. if in_use s f then Done None
      else and_then (check_run (test_frame s) (of_nat f) n 0 0 n)
             (\<lambda>enough. Done (if enough then Some (of_nat f :: cint) else None))"
  have "\<not> in_use s f" using run assms(3) by (auto simp: free_run_def dest: spec [of _ 0])
  then have "?h f = Done (Some (of_nat f))" using check_run_free [of f n s] assms by simp
  moreover have "?h g = Done None" if "g < f" for g
    using check_run_free [of g n s] first [OF that] that assms by simp
  ultimately have "search ?h 0 m = Done (Some (of_nat f))"
    using assms(4) by (subst search_first [of 0 f]) auto
  then show ?thesis by (simp add: run_search_def)
qed

lemma run_search_Some:
  assumes "m \<le> capacity s" "capacity s \<le> 2 ^ 31" "0 < n"
    and "run_search (in_use s) (test_frame s) n m = Done (Some r)"
  shows "\<exists>f<m. r = of_nat f \<and> f + n \<le> capacity s \<and> free_run (in_use s) f n \<and>
           (\<forall>g<f. \<not> free_run (in_use s) g n)"
proof -
  let ?h = "\<lambda>f. if in_use s f then Done None
      else and_then (check_run (test_frame s) (of_nat f) n 0 0 n)
             (\<lambda>enough. Done (if enough then Some (of_nat f :: cint) else None))"
  from assms(4) have "search ?h 0 m = Done (Some r)" by (simp add: run_search_def)
  from search_SomeD [OF this] obtain f where f: "f < m" "?h f = Done (Some r)"
    "\<forall>j<f. ?h j = Done None" by auto
  from f(2) have run: "r = of_nat f" "check_run (test_frame s) (of_nat f) n 0 0 n = Done True"
    by (auto simp: outcome_iff split: if_splits)
  have cap: "f + n \<le> capacity s"
    using check_run_beyond [of s f n 0 n 0] run(2) f(1) assms by fastforce
  have "\<not> free_run (in_use s) g n" if "g < f" for g
    using spec [OF f(3), of g] that check_run_free [of g n s] cap assms
    by (auto simp: free_run_def intro!: exI [of _ 0] split: if_splits)
  with f(1) run cap check_run_free [of f n s] assms show ?thesis by auto
qed

end

end
