(* ===== verification/Spinlock.thy ===== *)
theory Spinlock
  imports Prelude
begin

text \<open>
  \<open>hexahedron/misc/spinlock.c\<close>: the spinlock structure and its operations as one CPU sees them, and
  the same operations as atomic steps of any number of CPUs that share one lock. The components of
  the development carry only the flag of their lock and use \<open>lock_acquire\<close> and \<open>lock_release\<close>.
\<close>

section \<open>The lock structure\<close>

record spinlock_t =
  sl_cpu :: int
  sl_name :: string
  sl_lock :: bool

definition spinlock_create :: "string \<Rightarrow> spinlock_t" where
  "spinlock_create name = \<lparr>sl_cpu = 0, sl_name = name, sl_lock = False\<rparr>"

text \<open>
  The loop on \<open>atomic_flag_test_and_set\<close> leaves only when it finds the flag clear. With no other CPU
  that clears it, a taken lock is never obtained: \<open>Hang\<close>.
\<close>

definition spinlock_acquire :: "int \<Rightarrow> spinlock_t \<Rightarrow> spinlock_t outcome" where
  "spinlock_acquire cpu l =
     (if sl_lock l then Hang else Done (l\<lparr>sl_lock := True, sl_cpu := cpu\<rparr>))"

definition spinlock_release :: "spinlock_t \<Rightarrow> spinlock_t" where
  "spinlock_release l = l\<lparr>sl_cpu := -1, sl_lock := False\<rparr>"

text \<open>The flag alone, for components whose lock has no other observable field.\<close>

definition lock_acquire :: "bool \<Rightarrow> bool outcome" where
  "lock_acquire held = (if held then Hang else Done True)"

definition lock_release :: "bool \<Rightarrow> bool" where
  "lock_release held = False"

lemma lock_simps [simp]:
  "lock_acquire False = Done True" "lock_acquire True = Hang" "lock_release held = False"
  by (simp_all add: lock_acquire_def lock_release_def)

lemma lock_acquire_Done_iff [outcome_iff]:
  "lock_acquire held = Done l \<longleftrightarrow> \<not> held \<and> l"
  by (auto simp: lock_acquire_def)

lemma lock_acquire_is_flag:
  "and_then (spinlock_acquire cpu l) (\<lambda>l'. Done (sl_lock l')) = lock_acquire (sl_lock l)"
  "sl_lock (spinlock_release l) = lock_release (sl_lock l)"
  by (auto simp: spinlock_acquire_def spinlock_release_def)

section \<open>Several CPUs on one lock\<close>

text \<open>
  Where a CPU stands in \<open>spinlock_acquire\<close> or \<open>spinlock_release\<close>. Each of the shared accesses (the
  atomic test-and-set, the store to \<open>cpu\<close>, the atomic clear) is one step.
\<close>

datatype lock_pc = Outside | Spinning | Owning | Critical | Leaving

record lock_sys =
  ls_lock :: spinlock_t
  ls_pc :: "nat \<Rightarrow> lock_pc"

definition lock_sys_init :: "string \<Rightarrow> lock_sys" where
  "lock_sys_init name = \<lparr>ls_lock = spinlock_create name, ls_pc = (\<lambda>_. Outside)\<rparr>"

inductive lock_step :: "lock_sys \<Rightarrow> lock_sys \<Rightarrow> bool" where
  call_acquire: "ls_pc s c = Outside \<Longrightarrow>
     lock_step s (s\<lparr>ls_pc := (ls_pc s)(c := Spinning)\<rparr>)"
| test_and_set_taken: "ls_pc s c = Spinning \<Longrightarrow> sl_lock (ls_lock s) \<Longrightarrow> lock_step s s"
| test_and_set_free: "ls_pc s c = Spinning \<Longrightarrow> \<not> sl_lock (ls_lock s) \<Longrightarrow>
     lock_step s (s\<lparr>ls_lock := (ls_lock s)\<lparr>sl_lock := True\<rparr>, ls_pc := (ls_pc s)(c := Owning)\<rparr>)"
| store_cpu: "ls_pc s c = Owning \<Longrightarrow>
     lock_step s (s\<lparr>ls_lock := (ls_lock s)\<lparr>sl_cpu := int c\<rparr>, ls_pc := (ls_pc s)(c := Critical)\<rparr>)"
| call_release: "ls_pc s c = Critical \<Longrightarrow>
     lock_step s (s\<lparr>ls_lock := (ls_lock s)\<lparr>sl_cpu := -1\<rparr>, ls_pc := (ls_pc s)(c := Leaving)\<rparr>)"
| clear_flag: "ls_pc s c = Leaving \<Longrightarrow>
     lock_step s (s\<lparr>ls_lock := (ls_lock s)\<lparr>sl_lock := False\<rparr>, ls_pc := (ls_pc s)(c := Outside)\<rparr>)"

inductive lock_reachable :: "string \<Rightarrow> lock_sys \<Rightarrow> bool" for name where
  start: "lock_reachable name (lock_sys_init name)"
| more: "lock_reachable name s \<Longrightarrow> lock_step s t \<Longrightarrow> lock_reachable name t"

definition inside :: "lock_pc \<Rightarrow> bool" where
  "inside p \<longleftrightarrow> p \<in> {Owning, Critical, Leaving}"

text \<open>
  The flag is set exactly while some CPU is inside, at most one CPU is inside, and while a CPU runs
  its critical section the \<open>cpu\<close> field names it. \<open>holder_is h s\<close> says so with the holder given.
\<close>

definition holder_is :: "nat option \<Rightarrow> lock_sys \<Rightarrow> bool" where
  "holder_is h s \<longleftrightarrow>
     (\<forall>c. inside (ls_pc s c) \<longleftrightarrow> h = Some c) \<and> (sl_lock (ls_lock s) \<longleftrightarrow> h \<noteq> None) \<and>
     (\<forall>c. ls_pc s c = Critical \<longrightarrow> sl_cpu (ls_lock s) = int c)"

definition lock_sys_inv :: "lock_sys \<Rightarrow> bool" where
  "lock_sys_inv s \<longleftrightarrow> (\<exists>h. holder_is h s)"

lemma inside_simps [simp]:
  "\<not> inside Outside" "\<not> inside Spinning" "inside Owning" "inside Critical" "inside Leaving"
  by (simp_all add: inside_def)

lemma holder_isD:
  "holder_is h s \<Longrightarrow> inside (ls_pc s c) \<Longrightarrow> h = Some c"
  "holder_is h s \<Longrightarrow> ls_pc s c = Outside \<Longrightarrow> h \<noteq> Some c"
  "holder_is h s \<Longrightarrow> ls_pc s c = Spinning \<Longrightarrow> h \<noteq> Some c"
  by (metis holder_is_def inside_simps)+

lemma lock_sys_inv_step:
  assumes "lock_step s t" and "lock_sys_inv s"
  shows "lock_sys_inv t"
proof -
  from assms(2) obtain h where h: "holder_is h s" by (auto simp: lock_sys_inv_def)
  from assms(1) show ?thesis
  proof cases
    case (call_acquire c)
    with h have "holder_is h t"
      using holder_isD(2) [OF h, of c] by (auto simp: holder_is_def)
    then show ?thesis by (auto simp: lock_sys_inv_def)
  next
    case (test_and_set_taken c)
    with assms(2) show ?thesis by simp
  next
    case (test_and_set_free c)
    with h have "holder_is (Some c) t" by (auto simp: holder_is_def)
    then show ?thesis by (auto simp: lock_sys_inv_def)
  next
    case (store_cpu c)
    with h have "h = Some c" using holder_isD(1) [OF h, of c] by simp
    with h store_cpu have "holder_is h t" by (auto simp: holder_is_def inside_def)
    then show ?thesis by (auto simp: lock_sys_inv_def)
  next
    case (call_release c)
    with h have "h = Some c" using holder_isD(1) [OF h, of c] by simp
    with h call_release have "holder_is h t" by (auto simp: holder_is_def inside_def)
    then show ?thesis by (auto simp: lock_sys_inv_def)
  next
    case (clear_flag c)
    with h have "h = Some c" using holder_isD(1) [OF h, of c] by simp
    with h clear_flag have "holder_is None t" by (auto simp: holder_is_def inside_def)
    then show ?thesis by (auto simp: lock_sys_inv_def)
  qed
qed

lemma lock_reachable_inv: "lock_reachable name s \<Longrightarrow> lock_sys_inv s"
proof (induction rule: lock_reachable.induct)
  case start
  have "holder_is None (lock_sys_init name)"
    by (simp add: holder_is_def lock_sys_init_def spinlock_create_def)
  then show ?case by (auto simp: lock_sys_inv_def)
next
  case (more s t)
  then show ?case by (blast intro: lock_sys_inv_step)
qed


section \<open>Properties\<close>

text \<open>
  C8: Mutual exclusion: in every state that any number of CPUs reach by acquiring and releasing a
  lock made by \<open>spinlock_create\<close>, at most one CPU is between its successful test-and-set and its
  clear, the flag is set while one is, and the \<open>cpu\<close> field names the CPU in its critical section.
\<close>

theorem spinlock_mutual_exclusion:
  assumes "lock_reachable name s"
  shows "(inside (ls_pc s c) \<and> inside (ls_pc s d) \<longrightarrow> c = d) \<and>
         (inside (ls_pc s c) \<longrightarrow> sl_lock (ls_lock s)) \<and>
         (ls_pc s c = Critical \<longrightarrow> sl_cpu (ls_lock s) = int c)"
proof -
  from lock_reachable_inv [OF assms] obtain h where "holder_is h s" by (auto simp: lock_sys_inv_def)
  then show ?thesis by (auto simp: holder_is_def)
qed

theorem spinlock_mutual_exclusion_witness:
  "\<exists>s. lock_reachable ''frames'' s \<and> ls_pc s 1 = Critical \<and> sl_cpu (ls_lock s) = 1"
proof -
  let ?s0 = "lock_sys_init ''frames''"
  let ?s1 = "?s0\<lparr>ls_pc := (ls_pc ?s0)(1 := Spinning)\<rparr>"
  let ?s2 = "?s1\<lparr>ls_lock := (ls_lock ?s1)\<lparr>sl_lock := True\<rparr>, ls_pc := (ls_pc ?s1)(1 := Owning)\<rparr>"
  let ?s3 = "?s2\<lparr>ls_lock := (ls_lock ?s2)\<lparr>sl_cpu := int 1\<rparr>, ls_pc := (ls_pc ?s2)(1 := Critical)\<rparr>"
  have s1: "lock_step ?s0 ?s1" by (rule call_acquire) (simp add: lock_sys_init_def)
  have s2: "lock_step ?s1 ?s2"
    by (rule test_and_set_free) (simp_all add: lock_sys_init_def spinlock_create_def)
  have s3: "lock_step ?s2 ?s3" by (rule store_cpu) simp
  have reach: "lock_reachable ''frames'' ?s3"
    by (rule lock_reachable.more [OF lock_reachable.more [OF lock_reachable.more [OF lock_reachable.start s1] s2] s3])
  moreover have "ls_pc ?s3 1 = Critical" by simp
  ultimately show ?thesis using spinlock_mutual_exclusion [OF reach, of 1 1] by (intro exI [of _ ?s3]) simp
qed

end
