(* ===== verification/Pmm.thy ===== *)
theory Pmm
  imports Frame_Bitmap Spinlock
begin

text \<open>
  \<open>hexahedron/mem/pmm.c\<close>: the physical memory manager, a bitmap of 4 KiB frames. The record holds the
  file's global variables. \<open>frames\<close> is an array of \<open>uintptr_t\<close>, so each element has 64 bits, of which
  the code uses the low 32: the masks \<^verbatim>\<open>1 << bit\<close> are ints, sign-extended when they meet an element.
\<close>

section \<open>State and bit operations\<close>

record pmm_t =
  pmm_frames :: "u64 list"
  pmm_nframes :: u64
  pmm_memorySize :: u64
  pmm_usedBlocks :: u64
  pmm_maxBlocks :: u64
  pmm_frame_lock :: bool

definition PMM_BLOCK_SIZE :: u64 where
  "PMM_BLOCK_SIZE = 4096"

definition ENOMEM :: cint where
  "ENOMEM = 12"

definition pmm_mask :: "nat \<Rightarrow> u64" where
  "pmm_mask b = scast (push_bit b (1 :: cint))"

text \<open>\<open>frames[PMM_INDEX_BIT(frame)]\<close> for an int \<open>frame\<close>; a negative one is no index (and no shift).\<close>

definition frame_index :: "cint \<Rightarrow> nat outcome" where
  "frame_index frame = (if sint frame < 0 then Fault BadShift else Done (unat frame div 32))"

definition pmm_setFrame :: "pmm_t \<Rightarrow> cint \<Rightarrow> pmm_t outcome" where
  "pmm_setFrame st frame =
     and_then (frame_index frame) (\<lambda>i.
     and_then (array_get (pmm_frames st) i) (\<lambda>w.
     and_then (array_set (pmm_frames st) i (w OR pmm_mask (unat frame mod 32))) (\<lambda>fs.
     Done (st\<lparr>pmm_frames := fs\<rparr>))))"

definition pmm_clearFrame :: "pmm_t \<Rightarrow> cint \<Rightarrow> pmm_t outcome" where
  "pmm_clearFrame st frame =
     and_then (frame_index frame) (\<lambda>i.
     and_then (array_get (pmm_frames st) i) (\<lambda>w.
     and_then (array_set (pmm_frames st) i (w AND NOT (pmm_mask (unat frame mod 32)))) (\<lambda>fs.
     Done (st\<lparr>pmm_frames := fs\<rparr>))))"

text \<open>The result is an int: the 64-bit conjunction is truncated.\<close>

definition pmm_testFrame :: "pmm_t \<Rightarrow> cint \<Rightarrow> cint outcome" where
  "pmm_testFrame st frame =
     and_then (frame_index frame) (\<lambda>i.
     and_then (array_get (pmm_frames st) i) (\<lambda>w.
     Done (ucast (w AND pmm_mask (unat frame mod 32)))))"

section \<open>Searching\<close>

definition pmm_findFirstFrame :: "pmm_t \<Rightarrow> u32 outcome" where
  "pmm_findFirstFrame st =
     and_then
       (search (\<lambda>i. and_then (array_get (pmm_frames st) i) (\<lambda>w.
          if w \<noteq> 0xFFFFFFFF then
            search (\<lambda>b. if w AND pmm_mask b = 0
                        then Done (Some (of_nat i * 4 * 8 + of_nat b :: u32))
                        else Done None) 0 32
          else Done None)) 0 (unat (pmm_nframes st) div 32))
       (\<lambda>r. Done (case r of Some f \<Rightarrow> f | None \<Rightarrow> - ENOMEM))"

definition pmm_findFirstFrames :: "pmm_t \<Rightarrow> u64 \<Rightarrow> cint outcome" where
  "pmm_findFirstFrames st n =
     (if n = 0 then Done 0
      else if n = 1 then pmm_findFirstFrame st
      else
        and_then
          (search (\<lambda>i. and_then (array_get (pmm_frames st) i) (\<lambda>w.
             if w \<noteq> 0xFFFFFFFF then
               search (\<lambda>b.
                 if w AND pmm_mask b = 0 then
                   and_then (check_run (pmm_testFrame st) (of_nat i * 32 + of_nat b) (unat n) 0 0 (unat n))
                     (\<lambda>enough. Done (if enough then Some (of_nat i * 4 * 8 + of_nat b :: u32)
                                     else None))
                 else Done None) 0 32
             else Done None)) 0 (unat (pmm_nframes st) div 32))
          (\<lambda>r. Done (case r of Some f \<Rightarrow> f | None \<Rightarrow> - ENOMEM)))"

section \<open>Initialisation\<close>

text \<open>
  \<open>memset\<close> of the first \<open>k\<close> bytes of the array with one byte value: element \<open>j\<close> has \<open>k - 8 j\<close> of its
  bytes overwritten, at most 8, the lowest first.
\<close>

definition memset_word :: "u8 \<Rightarrow> nat \<Rightarrow> u64 \<Rightarrow> u64" where
  "memset_word v m w =
     ((ucast v * 0x0101010101010101) AND mask (8 * min m 8)) OR (w AND NOT (mask (8 * min m 8)))"

definition memset_words :: "u8 \<Rightarrow> nat \<Rightarrow> u64 list \<Rightarrow> u64 list outcome" where
  "memset_words v k ws =
     (if k \<le> 8 * length ws
      then Done (map (\<lambda>j. memset_word v (k - 8 * j) (ws ! j)) [0..<length ws])
      else Fault OutOfBounds)"

definition pmm_init :: "u64 \<Rightarrow> u64 list option \<Rightarrow> pmm_t \<Rightarrow> pmm_t outcome" where
  "pmm_init memsize frames_bitmap st =
     (case frames_bitmap of
        None \<Rightarrow> Panic KERNEL_BAD_ARGUMENT_ERROR
      | Some bitmap \<Rightarrow>
          if memsize = 0 then Panic KERNEL_BAD_ARGUMENT_ERROR
          else
            let maxBlocks = memsize div PMM_BLOCK_SIZE in
            and_then (memset_words 0xF (unat (maxBlocks div 8)) bitmap) (\<lambda>fs.
            Done (st\<lparr>pmm_memorySize := memsize, pmm_maxBlocks := maxBlocks,
                     pmm_usedBlocks := maxBlocks, pmm_nframes := maxBlocks, pmm_frames := fs\<rparr>)))"

definition pmm_initializeRegion :: "u64 \<Rightarrow> u64 \<Rightarrow> pmm_t \<Rightarrow> pmm_t outcome" where
  "pmm_initializeRegion base sz st =
     (if sz = 0 then Done st
      else
        and_then (lock_acquire (pmm_frame_lock st)) (\<lambda>l.
        let align = (if base = 0 then 0 else ucast (base div PMM_BLOCK_SIZE) :: cint);
            blocks = (ucast (sz div PMM_BLOCK_SIZE) :: cint) in
        and_then (frame_loop (\<lambda>s f. and_then (pmm_clearFrame s f)
                     (\<lambda>s'. Done (s'\<lparr>pmm_usedBlocks := pmm_usedBlocks s' - 1\<rparr>)))
                   (st\<lparr>pmm_frame_lock := l\<rparr>) align (nat (sint blocks))) (\<lambda>st'.
        Done (st'\<lparr>pmm_frame_lock := lock_release (pmm_frame_lock st')\<rparr>))))"

definition pmm_deinitializeRegion :: "u64 \<Rightarrow> u64 \<Rightarrow> pmm_t \<Rightarrow> pmm_t outcome" where
  "pmm_deinitializeRegion base sz st =
     (if sz = 0 then Done st
      else
        and_then (lock_acquire (pmm_frame_lock st)) (\<lambda>l.
        let align = (if base = 0 then 0 else ucast (base div PMM_BLOCK_SIZE) :: cint);
            blocks = (ucast (sz div PMM_BLOCK_SIZE) :: cint) in
        and_then (frame_loop (\<lambda>s f. and_then (pmm_setFrame s f)
                     (\<lambda>s'. Done (s'\<lparr>pmm_usedBlocks := pmm_usedBlocks s' + 1\<rparr>)))
                   (st\<lparr>pmm_frame_lock := l\<rparr>) align (nat (sint blocks))) (\<lambda>st'.
        Done (st'\<lparr>pmm_frame_lock := lock_release (pmm_frame_lock st')\<rparr>))))"

section \<open>Allocation\<close>

text \<open>
  \<open>(uintptr_t)(frame * PMM_BLOCK_SIZE)\<close>: the product is an int, then sign-extended. From frame \<open>2\<^sup>1\<^sup>9\<close>
  on the product overflows; the wrapped value stands for it there, which C does not promise.
\<close>

definition frame_address :: "cint \<Rightarrow> u64" where
  "frame_address frame = scast (frame * 4096)"

definition pmm_allocateBlock :: "pmm_t \<Rightarrow> (u64 \<times> pmm_t) outcome" where
  "pmm_allocateBlock st =
     (if pmm_maxBlocks st - pmm_usedBlocks st \<le> 0 then Panic OUT_OF_MEMORY
      else
        and_then (lock_acquire (pmm_frame_lock st)) (\<lambda>l.
        and_then (pmm_findFirstFrame st) (\<lambda>frame.
        if frame = - ENOMEM then Panic OUT_OF_MEMORY
        else
          and_then (pmm_setFrame (st\<lparr>pmm_frame_lock := l\<rparr>) frame) (\<lambda>st'.
          Done (frame_address frame,
                st'\<lparr>pmm_usedBlocks := pmm_usedBlocks st' + 1,
                    pmm_frame_lock := lock_release (pmm_frame_lock st')\<rparr>)))))"

definition pmm_freeBlock :: "u64 \<Rightarrow> pmm_t \<Rightarrow> pmm_t outcome" where
  "pmm_freeBlock block st =
     (if block mod PMM_BLOCK_SIZE \<noteq> 0 then Done st
      else
        and_then (lock_acquire (pmm_frame_lock st)) (\<lambda>l.
        let frame = (if block = 0 then 0 else ucast (block div PMM_BLOCK_SIZE) :: cint) in
        and_then (pmm_clearFrame (st\<lparr>pmm_frame_lock := l\<rparr>) frame) (\<lambda>st'.
        Done (st'\<lparr>pmm_usedBlocks := pmm_usedBlocks st' - 1,
                  pmm_frame_lock := lock_release (pmm_frame_lock st')\<rparr>))))"

definition pmm_allocateBlocks :: "u64 \<Rightarrow> pmm_t \<Rightarrow> (u64 \<times> pmm_t) outcome" where
  "pmm_allocateBlocks blocks st =
     (if blocks = 0 then Panic KERNEL_BAD_ARGUMENT_ERROR
      else if pmm_maxBlocks st - pmm_usedBlocks st \<le> blocks then Panic OUT_OF_MEMORY
      else
        and_then (lock_acquire (pmm_frame_lock st)) (\<lambda>l.
        and_then (pmm_findFirstFrames st blocks) (\<lambda>frame.
        if frame = - ENOMEM then Panic OUT_OF_MEMORY
        else
          and_then (frame_loop pmm_setFrame (st\<lparr>pmm_frame_lock := l\<rparr>) frame (unat blocks)) (\<lambda>st'.
          Done (frame_address frame,
                st'\<lparr>pmm_usedBlocks := pmm_usedBlocks st' + blocks,
                    pmm_frame_lock := lock_release (pmm_frame_lock st')\<rparr>)))))"

definition pmm_freeBlocks :: "u64 \<Rightarrow> u64 \<Rightarrow> pmm_t \<Rightarrow> pmm_t outcome" where
  "pmm_freeBlocks base blocks st =
     (if blocks = 0 then Done st
      else
        and_then (lock_acquire (pmm_frame_lock st)) (\<lambda>l.
        let frame = (if base = 0 then 0 else ucast (base div PMM_BLOCK_SIZE) :: cint) in
        and_then (frame_loop pmm_clearFrame (st\<lparr>pmm_frame_lock := l\<rparr>) frame (unat blocks)) (\<lambda>st'.
        Done (st'\<lparr>pmm_usedBlocks := pmm_usedBlocks st' - blocks,
                  pmm_frame_lock := lock_release (pmm_frame_lock st')\<rparr>))))"

definition pmm_getPhysicalMemorySize :: "pmm_t \<Rightarrow> u64" where
  "pmm_getPhysicalMemorySize st = pmm_memorySize st"

definition pmm_getMaximumBlocks :: "pmm_t \<Rightarrow> u64" where
  "pmm_getMaximumBlocks st = pmm_maxBlocks st"

definition pmm_getUsedBlocks :: "pmm_t \<Rightarrow> u64" where
  "pmm_getUsedBlocks st = pmm_usedBlocks st"

definition pmm_getFreeBlocks :: "pmm_t \<Rightarrow> u64" where
  "pmm_getFreeBlocks st = pmm_maxBlocks st - pmm_usedBlocks st"

section \<open>The bitmap contract\<close>

definition pmm_capacity :: "pmm_t \<Rightarrow> nat" where
  "pmm_capacity st = 32 * length (pmm_frames st)"

definition pmm_in_use :: "pmm_t \<Rightarrow> nat \<Rightarrow> bool" where
  "pmm_in_use st f \<longleftrightarrow> f < pmm_capacity st \<and> bit (pmm_frames st ! (f div 32)) (f mod 32)"

lemma bit_pmm_mask:
  "b < 32 \<Longrightarrow> bit (pmm_mask b) n \<longleftrightarrow> (if b = 31 then 31 \<le> n \<and> n < 64 else n = b)"
  by (auto simp: pmm_mask_def bit_simps min_def)

lemma bit_pmm_mask_low: "b < 32 \<Longrightarrow> n < 32 \<Longrightarrow> bit (pmm_mask b) n \<longleftrightarrow> n = b"
  by (auto simp: bit_pmm_mask)

lemma frame_index_of_nat [simp]:
  assumes "f < 2 ^ 31"
  shows "frame_index (of_nat f) = Done (f div 32)"
proof -
  have "0 \<le> sint (of_nat f :: cint)"
    using assms by (simp add: signed_of_nat signed_take_bit_int_eq_self)
  with assms show ?thesis by (simp add: frame_index_def)
qed

lemma pmm_capacity_div: "f < pmm_capacity st \<longleftrightarrow> f div 32 < length (pmm_frames st)"
  by (auto simp: pmm_capacity_def)

lemma frame_div_mod_eq: "g div 32 = f div 32 \<Longrightarrow> g mod 32 = f mod 32 \<longleftrightarrow> g = (f :: nat)"
  by (metis div_mult_mod_eq)

text \<open>
  The low 32 bits are the frames of a group; bits 32 to 63 follow bit 31, because its mask is sign
  extended. A group is well formed when a clear bit 31 has no set bit above it.
\<close>

definition frame_word_ok :: "u64 \<Rightarrow> bool" where
  "frame_word_ok w \<longleftrightarrow> bit w 31 \<or> drop_bit 31 w = 0"

lemma drop_bit_31_zero: "drop_bit 31 (w :: u64) = 0 \<longleftrightarrow> (\<forall>n. 31 \<le> n \<longrightarrow> \<not> bit w n)"
  by (auto simp: word_zero_bits bit_simps) (metis le_add_diff_inverse)

lemma mask_clear_iff:
  assumes "b < 32"
  shows "w AND pmm_mask b = 0 \<longleftrightarrow> (if b = 31 then drop_bit 31 w = 0 else \<not> bit w b)"
proof -
  have "w AND pmm_mask b = 0 \<longleftrightarrow> (\<forall>n. bit (pmm_mask b) n \<longrightarrow> \<not> bit w n)"
    by (auto simp: word_zero_bits bit_and_iff)
  then show ?thesis
    using assms bit_imp_le_length [of w] by (auto simp: bit_pmm_mask drop_bit_31_zero)
qed

lemma mask_clear_iff_ok:
  "b < 32 \<Longrightarrow> frame_word_ok w \<Longrightarrow> w AND pmm_mask b = 0 \<longleftrightarrow> \<not> bit w b"
  by (auto simp: mask_clear_iff frame_word_ok_def drop_bit_31_zero)

lemma frame_word_ok_iff: "frame_word_ok w \<longleftrightarrow> bit w 31 \<or> (\<forall>n. 31 \<le> n \<longrightarrow> \<not> bit w n)"
  by (simp add: frame_word_ok_def drop_bit_31_zero)

lemma frame_word_ok_set: "b < 32 \<Longrightarrow> frame_word_ok w \<Longrightarrow> frame_word_ok (w OR pmm_mask b)"
  by (auto simp: frame_word_ok_iff bit_or_iff bit_pmm_mask)

lemma frame_word_ok_clear: "b < 32 \<Longrightarrow> frame_word_ok w \<Longrightarrow> frame_word_ok (w AND NOT (pmm_mask b))"
  using bit_imp_le_length [of w]
  by (auto simp: frame_word_ok_iff bit_and_iff bit_not_iff bit_pmm_mask)

lemma pmm_setFrame_Done:
  assumes "f < pmm_capacity st" "f < 2 ^ 31"
  shows "pmm_setFrame st (of_nat f) = Done (st\<lparr>pmm_frames := (pmm_frames st)
           [f div 32 := pmm_frames st ! (f div 32) OR pmm_mask (f mod 32)]\<rparr>)"
  using assms by (simp add: pmm_setFrame_def pmm_capacity_div)

lemma pmm_clearFrame_Done:
  assumes "f < pmm_capacity st" "f < 2 ^ 31"
  shows "pmm_clearFrame st (of_nat f) = Done (st\<lparr>pmm_frames := (pmm_frames st)
           [f div 32 := pmm_frames st ! (f div 32) AND NOT (pmm_mask (f mod 32))]\<rparr>)"
  using assms by (simp add: pmm_clearFrame_def pmm_capacity_div)

lemma pmm_in_use_set:
  assumes "f < pmm_capacity st"
  shows "pmm_in_use (st\<lparr>pmm_frames := (pmm_frames st)
            [f div 32 := pmm_frames st ! (f div 32) OR pmm_mask (f mod 32)]\<rparr>) g
         \<longleftrightarrow> g = f \<or> pmm_in_use st g"
proof (cases "g div 32 = f div 32")
  case True
  with assms show ?thesis
    using frame_div_mod_eq [OF True]
    by (auto simp: pmm_in_use_def pmm_capacity_def pmm_capacity_div bit_simps bit_pmm_mask
        div_less_iff_less_mult)
next
  case False
  then show ?thesis by (auto simp: pmm_in_use_def pmm_capacity_def)
qed

lemma pmm_in_use_clear:
  assumes "f < pmm_capacity st"
  shows "pmm_in_use (st\<lparr>pmm_frames := (pmm_frames st)
            [f div 32 := pmm_frames st ! (f div 32) AND NOT (pmm_mask (f mod 32))]\<rparr>) g
         \<longleftrightarrow> g \<noteq> f \<and> pmm_in_use st g"
proof (cases "g div 32 = f div 32")
  case True
  with assms show ?thesis
    using frame_div_mod_eq [OF True]
    by (auto simp: pmm_in_use_def pmm_capacity_def pmm_capacity_div bit_simps bit_pmm_mask
        div_less_iff_less_mult)
next
  case False
  then show ?thesis by (auto simp: pmm_in_use_def pmm_capacity_def)
qed

interpretation pmm: frame_bitmap pmm_capacity pmm_in_use pmm_setFrame pmm_clearFrame
proof (unfold_locales, goal_cases)
  case (1 f s)
  then show ?case
    by (simp add: pmm_setFrame_Done pmm_in_use_set) (simp add: pmm_capacity_def)
next
  case (2 f s)
  then show ?case
    by (simp add: pmm_clearFrame_Done pmm_in_use_clear) (simp add: pmm_capacity_def)
qed

section \<open>What the searches find\<close>

text \<open>
  The states the allocator works on: the lock is free, the array has an element for every group the
  search visits, frame numbers fit an int, and every group is well formed.
\<close>

definition pmm_wf :: "pmm_t \<Rightarrow> bool" where
  "pmm_wf st \<longleftrightarrow> \<not> pmm_frame_lock st \<and> unat (pmm_nframes st) div 32 \<le> length (pmm_frames st) \<and>
     length (pmm_frames st) \<le> 2 ^ 26 \<and> list_all frame_word_ok (pmm_frames st)"

text \<open>The frames the search visits: those of whole groups.\<close>

definition pmm_limit :: "pmm_t \<Rightarrow> nat" where
  "pmm_limit st = 32 * (unat (pmm_nframes st) div 32)"

lemma pmm_wf_limits:
  assumes "pmm_wf st"
  shows "pmm_limit st \<le> pmm_capacity st" "pmm_capacity st \<le> 2 ^ 31"
    "pmm_limit st \<le> unat (pmm_nframes st)"
  using assms by (auto simp: pmm_wf_def pmm_limit_def pmm_capacity_def)

lemma pmm_word_ok: "pmm_wf st \<Longrightarrow> f < pmm_capacity st \<Longrightarrow> frame_word_ok (pmm_frames st ! (f div 32))"
  by (auto simp: pmm_wf_def pmm_capacity_div list_all_length)

lemma pmm_bit_free_iff:
  assumes "pmm_wf st" "i < length (pmm_frames st)" "b < 32"
  shows "pmm_frames st ! i AND pmm_mask b = 0 \<longleftrightarrow> \<not> pmm_in_use st (32 * i + b)"
proof -
  from assms have "frame_word_ok (pmm_frames st ! i)"
    by (auto simp: pmm_wf_def list_all_length)
  with assms show ?thesis by (simp add: mask_clear_iff_ok pmm_in_use_def pmm_capacity_def)
qed

lemma of_nat_frame: "of_nat i * 4 * 8 + of_nat b = (of_nat (32 * i + b) :: cint)"
  by simp

lemma of_nat_not_ENOMEM:
  assumes "f < 2 ^ 31"
  shows "(of_nat f :: cint) \<noteq> - ENOMEM"
proof
  assume "(of_nat f :: cint) = - ENOMEM"
  then have "unat (of_nat f :: cint) = unat (- ENOMEM)" by simp
  with assms show False by (simp add: ENOMEM_def)
qed

lemma all_ones_group:
  assumes "b < 32"
  shows "bit (0xFFFFFFFF :: u64) b"
proof -
  have "bit (mask 32 :: u64) b" using assms by (simp only: bit_mask_iff) simp
  moreover have "mask 32 = (0xFFFFFFFF :: u64)" by (simp add: mask_eq_exp_minus_1)
  ultimately show ?thesis by metis
qed

text \<open>Both searches visit the frames of an element unless all its 32 frames are taken.\<close>

lemma pmm_group_search:
  assumes "pmm_wf st" "i < length (pmm_frames st)"
    and skip: "\<And>f. pmm_in_use st f \<Longrightarrow> h f = Done None"
    and body: "\<And>b. b < 32 \<Longrightarrow> \<not> pmm_in_use st (32 * i + b) \<Longrightarrow> body b = h (32 * i + b)"
  shows "and_then (array_get (pmm_frames st) i) (\<lambda>w. if w \<noteq> 0xFFFFFFFF
           then search (\<lambda>b. if w AND pmm_mask b = 0 then body b else Done None) 0 32
           else Done None) = search (\<lambda>b. h (32 * i + b)) 0 32"
proof (cases "pmm_frames st ! i = 0xFFFFFFFF")
  case True
  then have "pmm_in_use st (32 * i + b)" if "b < 32" for b
    using that assms(2) all_ones_group [of b] by (simp add: pmm_in_use_def pmm_capacity_def)
  then have "search (\<lambda>b. h (32 * i + b)) 0 32 = Done None"
    using skip by (subst search_None_iff) simp
  with True assms(2) show ?thesis by simp
next
  case False
  have "search (\<lambda>b. if pmm_frames st ! i AND pmm_mask b = 0 then body b else Done None) 0 32 =
        search (\<lambda>b. h (32 * i + b)) 0 32"
    using assms(1,2) skip body by (intro search_cong) (auto simp: pmm_bit_free_iff)
  with False assms(2) show ?thesis by simp
qed

lemma pmm_findFirstFrame_spec:
  assumes "pmm_wf st"
  shows "pmm_findFirstFrame st =
           Done (if \<exists>f<pmm_limit st. \<not> pmm_in_use st f
                 then of_nat (LEAST f. \<not> pmm_in_use st f) else - ENOMEM)"
proof -
  let ?h = "\<lambda>f. Done (if \<not> pmm_in_use st f then Some (of_nat f :: cint) else None)"
  have group: "and_then (array_get (pmm_frames st) i) (\<lambda>w. if w \<noteq> 0xFFFFFFFF
      then search (\<lambda>b. if w AND pmm_mask b = 0
                       then Done (Some (of_nat i * 4 * 8 + of_nat b :: u32)) else Done None) 0 32
      else Done None) = search (\<lambda>b. ?h (32 * i + b)) 0 32"
    if "i < unat (pmm_nframes st) div 32" for i
    using that assms by (intro pmm_group_search) (auto simp: pmm_wf_def)
  have "search ?h 0 (pmm_limit st) =
      Done (if \<exists>f<pmm_limit st. \<not> pmm_in_use st f
            then Some (of_nat (LEAST f. \<not> pmm_in_use st f)) else None)"
    by (rule search_least) simp
  with search_group [OF group] show ?thesis
    unfolding pmm_findFirstFrame_def by (auto simp: pmm_limit_def)
qed

lemma pmm_testFrame_spec:
  assumes "f < pmm_capacity st" "f < 2 ^ 31"
  shows "\<exists>t. pmm_testFrame st (of_nat f) = Done t \<and> (t = 0 \<longleftrightarrow> \<not> pmm_in_use st f)"
proof -
  have "(ucast (w AND pmm_mask b) :: cint) = 0 \<longleftrightarrow> \<not> bit w b" if "b < 32" for w b
    using that by (auto simp: word_zero_bits bit_simps bit_pmm_mask_low)
  with assms show ?thesis
    by (simp add: pmm_testFrame_def pmm_capacity_div pmm_in_use_def)
qed

lemma pmm_testFrame_beyond:
  assumes "pmm_capacity st \<le> 2 ^ 31"
  shows "\<exists>e. pmm_testFrame st (of_nat (pmm_capacity st)) = Fault e"
proof (cases "pmm_capacity st = 2 ^ 31")
  case True
  have "sint (of_nat (2 ^ 31) :: cint) < 0" by simp
  with True show ?thesis
    unfolding pmm_testFrame_def frame_index_def by (simp del: of_nat_power of_nat_numeral)
next
  case False
  with assms have "pmm_capacity st < 2 ^ 31" by simp
  moreover have "\<not> pmm_capacity st div 32 < length (pmm_frames st)" by (simp add: pmm_capacity_def)
  ultimately show ?thesis by (simp add: pmm_testFrame_def array_get_def)
qed

interpretation pmm_search: frame_search pmm_capacity pmm_in_use pmm_setFrame pmm_clearFrame pmm_testFrame
  by unfold_locales (fact pmm_testFrame_spec, fact pmm_testFrame_beyond)

section \<open>What the bit operations leave alone\<close>

definition pmm_only_frames :: "pmm_t \<Rightarrow> pmm_t \<Rightarrow> bool" where
  "pmm_only_frames st st' \<longleftrightarrow> (\<exists>fs. st' = st\<lparr>pmm_frames := fs\<rparr> \<and> length fs = length (pmm_frames st) \<and>
     (list_all frame_word_ok (pmm_frames st) \<longrightarrow> list_all frame_word_ok fs))"

lemma pmm_only_frames_update:
  assumes "i < length (pmm_frames st)" "frame_word_ok (pmm_frames st ! i) \<longrightarrow> frame_word_ok w"
  shows "pmm_only_frames st (st\<lparr>pmm_frames := (pmm_frames st)[i := w]\<rparr>)"
  using assms by (auto simp: pmm_only_frames_def list_all_length nth_list_update)

lemma pmm_only_frames_refl: "pmm_only_frames st st"
  by (auto simp: pmm_only_frames_def intro: exI [of _ "pmm_frames st"])

lemma pmm_only_frames_trans: "pmm_only_frames a b \<Longrightarrow> pmm_only_frames b c \<Longrightarrow> pmm_only_frames a c"
  by (fastforce simp: pmm_only_frames_def)

lemma pmm_setFrame_only: "pmm_setFrame st f = Done st' \<Longrightarrow> pmm_only_frames st st'"
  by (auto simp: pmm_setFrame_def outcome_iff frame_word_ok_set intro!: pmm_only_frames_update)

lemma pmm_clearFrame_only: "pmm_clearFrame st f = Done st' \<Longrightarrow> pmm_only_frames st st'"
  by (auto simp: pmm_clearFrame_def outcome_iff frame_word_ok_clear intro!: pmm_only_frames_update)

lemma frame_loop_only:
  "frame_loop op st f n = Done st' \<Longrightarrow>
   (\<And>s g s'. op s g = Done s' \<Longrightarrow> pmm_only_frames s s') \<Longrightarrow> pmm_only_frames st st'"
proof (induction n arbitrary: st f)
  case 0
  then show ?case by (simp add: pmm_only_frames_refl)
next
  case (Suc n)
  from Suc.prems(1) obtain s1 where "op st f = Done s1" "frame_loop op s1 (f + 1) n = Done st'"
    by (auto simp: outcome_iff)
  with Suc.IH [of s1 "f + 1"] Suc.prems(2) show ?case by (blast intro: pmm_only_frames_trans)
qed

lemma pmm_only_frames_fields:
  assumes "pmm_only_frames st st'"
  shows "pmm_nframes st' = pmm_nframes st" "pmm_usedBlocks st' = pmm_usedBlocks st"
    "pmm_maxBlocks st' = pmm_maxBlocks st" "pmm_memorySize st' = pmm_memorySize st"
    "pmm_frame_lock st' = pmm_frame_lock st" "pmm_capacity st' = pmm_capacity st"
  using assms by (auto simp: pmm_only_frames_def pmm_capacity_def)

lemma pmm_only_frames_wf:
  "pmm_only_frames (st\<lparr>pmm_frame_lock := l\<rparr>) st' \<Longrightarrow> pmm_wf st \<Longrightarrow>
   pmm_wf (st'\<lparr>pmm_usedBlocks := u, pmm_frame_lock := False\<rparr>)"
  by (auto simp: pmm_only_frames_def pmm_wf_def)

lemma pmm_view_update [simp]:
  "pmm_in_use (st\<lparr>pmm_frame_lock := l\<rparr>) = pmm_in_use st"
  "pmm_in_use (st\<lparr>pmm_usedBlocks := u\<rparr>) = pmm_in_use st"
  "pmm_capacity (st\<lparr>pmm_frame_lock := l\<rparr>) = pmm_capacity st"
  "pmm_capacity (st\<lparr>pmm_usedBlocks := u\<rparr>) = pmm_capacity st"
  by (auto simp: fun_eq_iff pmm_in_use_def pmm_capacity_def)

text \<open>The search for a run of at least two frames is the contract's search over the whole groups.\<close>

lemma pmm_findFirstFrames_search:
  assumes "pmm_wf st" "2 \<le> unat n"
  shows "pmm_findFirstFrames st n =
      and_then (run_search (pmm_in_use st) (pmm_testFrame st) (unat n) (pmm_limit st))
        (\<lambda>r. Done (case r of Some f \<Rightarrow> f | None \<Rightarrow> - ENOMEM))"
proof -
  let ?h = "\<lambda>f. if pmm_in_use st f then Done None
      else and_then (check_run (pmm_testFrame st) (of_nat f) (unat n) 0 0 (unat n))
             (\<lambda>enough. Done (if enough then Some (of_nat f :: cint) else None))"
  have group: "and_then (array_get (pmm_frames st) i) (\<lambda>w. if w \<noteq> 0xFFFFFFFF
      then search (\<lambda>b. if w AND pmm_mask b = 0
          then and_then (check_run (pmm_testFrame st) (of_nat i * 32 + of_nat b) (unat n) 0 0 (unat n))
                 (\<lambda>enough. Done (if enough then Some (of_nat i * 4 * 8 + of_nat b :: u32) else None))
          else Done None) 0 32
      else Done None) = search (\<lambda>b. ?h (32 * i + b)) 0 32"
    if "i < unat (pmm_nframes st) div 32" for i
    using that assms(1) by (intro pmm_group_search) (auto simp: pmm_wf_def mult.commute cong: if_cong)
  have "n \<noteq> 0" "n \<noteq> 1" using assms(2) by auto
  with search_group [OF group] show ?thesis
    unfolding pmm_findFirstFrames_def by (simp add: pmm_limit_def run_search_def)
qed

section \<open>Allocating and freeing\<close>

lemma pmm_allocateBlock_spec:
  assumes wf: "pmm_wf st" and avail: "pmm_usedBlocks st \<noteq> pmm_maxBlocks st"
    and free: "\<exists>f<pmm_limit st. \<not> pmm_in_use st f"
  shows "\<exists>st'. pmm_allocateBlock st = Done (frame_address (of_nat (LEAST f. \<not> pmm_in_use st f)), st') \<and>
           (\<forall>g. pmm_in_use st' g \<longleftrightarrow> g = (LEAST f. \<not> pmm_in_use st f) \<or> pmm_in_use st g) \<and>
           pmm_usedBlocks st' = pmm_usedBlocks st + 1 \<and> pmm_maxBlocks st' = pmm_maxBlocks st \<and>
           pmm_nframes st' = pmm_nframes st \<and> pmm_capacity st' = pmm_capacity st \<and> pmm_wf st'"
proof -
  let ?f = "LEAST f. \<not> pmm_in_use st f"
  note lim = pmm_wf_limits [OF wf] and least = least_free_below [OF free]
  have f: "?f < pmm_capacity st" "?f < 2 ^ 31" using lim least by auto
  then obtain s1 where s1: "pmm_setFrame (st\<lparr>pmm_frame_lock := True\<rparr>) (of_nat ?f) = Done s1"
    "\<forall>g. pmm_in_use s1 g \<longleftrightarrow> g = ?f \<or> pmm_in_use st g"
    using pmm.set_frame [of ?f "st\<lparr>pmm_frame_lock := True\<rparr>"] by auto
  note only = pmm_setFrame_only [OF s1(1)]
  have "pmm_findFirstFrame st = Done (of_nat ?f)" using pmm_findFirstFrame_spec [OF wf] free by simp
  moreover have "pmm_maxBlocks st - pmm_usedBlocks st \<noteq> 0" using avail by simp
  moreover have "\<not> pmm_frame_lock st" using wf by (simp add: pmm_wf_def)
  ultimately have "pmm_allocateBlock st = Done (frame_address (of_nat ?f),
      s1\<lparr>pmm_usedBlocks := pmm_usedBlocks s1 + 1, pmm_frame_lock := False\<rparr>)"
    using s1(1) of_nat_not_ENOMEM [OF f(2)] by (simp add: pmm_allocateBlock_def)
  with s1(2) pmm_only_frames_fields [OF only] pmm_only_frames_wf [OF only wf] show ?thesis by simp
qed

lemma block_frame:
  assumes "f < 2 ^ 31"
  shows "of_nat f * 4096 mod PMM_BLOCK_SIZE = 0"
    "(ucast (of_nat f * 4096 div PMM_BLOCK_SIZE) :: cint) = of_nat f"
proof -
  have n: "unat (of_nat f * 4096 :: u64) = f * 4096"
    using assms unat_of_nat_less [of "f * 4096", where 'a=64] by simp
  have "unat (of_nat f * 4096 mod PMM_BLOCK_SIZE) = 0"
    by (simp only: unat_mod n) (simp add: PMM_BLOCK_SIZE_def)
  then show "of_nat f * 4096 mod PMM_BLOCK_SIZE = 0" by (simp only: unat_eq_zero)
  have "unat (of_nat f * 4096 div PMM_BLOCK_SIZE) = f"
    by (simp only: unat_div n) (simp add: PMM_BLOCK_SIZE_def)
  then show "(ucast (of_nat f * 4096 div PMM_BLOCK_SIZE) :: cint) = of_nat f"
    by (simp only: ucast_of_nat_unat)
qed

lemma pmm_freeBlock_spec:
  assumes wf: "pmm_wf st" and f: "f < pmm_capacity st"
  shows "\<exists>st'. pmm_freeBlock (of_nat f * 4096) st = Done st' \<and>
           (\<forall>g. pmm_in_use st' g \<longleftrightarrow> g \<noteq> f \<and> pmm_in_use st g) \<and>
           pmm_usedBlocks st' = pmm_usedBlocks st - 1 \<and> pmm_maxBlocks st' = pmm_maxBlocks st \<and>
           pmm_nframes st' = pmm_nframes st \<and> pmm_capacity st' = pmm_capacity st \<and> pmm_wf st'"
proof -
  have f31: "f < 2 ^ 31" using f pmm_wf_limits [OF wf] by simp
  then obtain s1 where s1: "pmm_clearFrame (st\<lparr>pmm_frame_lock := True\<rparr>) (of_nat f) = Done s1"
    "\<forall>g. pmm_in_use s1 g \<longleftrightarrow> g \<noteq> f \<and> pmm_in_use st g"
    using pmm.clear_frame [of f "st\<lparr>pmm_frame_lock := True\<rparr>"] f by auto
  note only = pmm_clearFrame_only [OF s1(1)]
  have "(if of_nat f * 4096 = (0 :: u64) then 0
         else ucast (of_nat f * 4096 div PMM_BLOCK_SIZE)) = (of_nat f :: cint)"
    using block_frame(2) [OF f31] by (auto simp: PMM_BLOCK_SIZE_def)
  moreover have "\<not> pmm_frame_lock st" using wf by (simp add: pmm_wf_def)
  ultimately have "pmm_freeBlock (of_nat f * 4096) st =
      Done (s1\<lparr>pmm_usedBlocks := pmm_usedBlocks s1 - 1, pmm_frame_lock := False\<rparr>)"
    using s1(1) block_frame(1) [OF f31] unfolding pmm_freeBlock_def by (simp add: Let_def)
  with s1(2) pmm_only_frames_fields [OF only] pmm_only_frames_wf [OF only wf] show ?thesis by simp
qed

text \<open>Below 2 GiB the address of a frame is its number times 4096; from there on it is not.\<close>

lemma frame_address_low:
  assumes "f < 2 ^ 19"
  shows "frame_address (of_nat f) = of_nat f * 4096"
proof -
  have "(of_nat f * 4096 :: cint) = of_nat (f * 4096)" by simp
  moreover have "(scast (of_nat (f * 4096) :: cint) :: u64) = of_nat (f * 4096)"
    using assms by (simp add: scast_eq signed_of_nat signed_take_bit_int_eq_self
        del: of_nat_mult of_nat_numeral)
  ultimately show ?thesis unfolding frame_address_def by simp
qed

lemma pmm_findFirstFrames_first:
  assumes wf: "pmm_wf st" and n: "n \<noteq> 0" and f: "f < pmm_limit st" "f + unat n \<le> pmm_capacity st"
    and run: "free_run (pmm_in_use st) f (unat n)" and first: "\<And>g. g < f \<Longrightarrow> \<not> free_run (pmm_in_use st) g (unat n)"
  shows "pmm_findFirstFrames st n = Done (of_nat f)"
proof (cases "n = 1")
  case True
  have "\<not> pmm_in_use st f" "\<And>g. g < f \<Longrightarrow> pmm_in_use st g"
    using run first by (auto simp: True free_run_def)
  then have "(LEAST f. \<not> pmm_in_use st f) = f" by (metis Least_equality not_le)
  with True f(1) \<open>\<not> pmm_in_use st f\<close> pmm_findFirstFrame_spec [OF wf] show ?thesis
    by (auto simp: pmm_findFirstFrames_def)
next
  case False
  have "unat n \<noteq> unat (0 :: u64)" "unat n \<noteq> unat (1 :: u64)"
    using n False by (simp_all only: word_unat_eq_iff not_False_eq_True)
  then have "unat n \<noteq> 0" "unat n \<noteq> 1" by simp_all
  then have n2: "2 \<le> unat n" by linarith
  show ?thesis
    using pmm_search.run_search_found [OF pmm_wf_limits(1,2) [OF wf] _ f run first] n2
    by (simp add: pmm_findFirstFrames_search [OF wf n2])
qed

lemma pmm_allocateBlocks_spec:
  assumes wf: "pmm_wf st" and n: "n \<noteq> 0" and enough: "n < pmm_maxBlocks st - pmm_usedBlocks st"
    and f: "f < pmm_limit st" "f + unat n \<le> pmm_capacity st"
    and run: "free_run (pmm_in_use st) f (unat n)" and first: "\<And>g. g < f \<Longrightarrow> \<not> free_run (pmm_in_use st) g (unat n)"
  shows "\<exists>st'. pmm_allocateBlocks n st = Done (frame_address (of_nat f), st') \<and>
           (\<forall>g. pmm_in_use st' g \<longleftrightarrow> f \<le> g \<and> g < f + unat n \<or> pmm_in_use st g) \<and>
           pmm_usedBlocks st' = pmm_usedBlocks st + n \<and> pmm_maxBlocks st' = pmm_maxBlocks st \<and>
           pmm_nframes st' = pmm_nframes st \<and> pmm_capacity st' = pmm_capacity st \<and> pmm_wf st'"
proof -
  note lim = pmm_wf_limits [OF wf]
  have "f < 2 ^ 31" using f lim by auto
  obtain s1 where s1: "frame_loop pmm_setFrame (st\<lparr>pmm_frame_lock := True\<rparr>) (of_nat f) (unat n) = Done s1"
    "\<forall>g. pmm_in_use s1 g \<longleftrightarrow> f \<le> g \<and> g < f + unat n \<or> pmm_in_use st g"
    using pmm.set_run [of f "unat n" "st\<lparr>pmm_frame_lock := True\<rparr>"] f lim by auto
  have only: "pmm_only_frames (st\<lparr>pmm_frame_lock := True\<rparr>) s1"
    using frame_loop_only [OF s1(1)] pmm_setFrame_only by blast
  have "\<not> pmm_frame_lock st" using wf by (simp add: pmm_wf_def)
  then have "pmm_allocateBlocks n st = Done (frame_address (of_nat f),
      s1\<lparr>pmm_usedBlocks := pmm_usedBlocks s1 + n, pmm_frame_lock := False\<rparr>)"
    using s1(1) n enough of_nat_not_ENOMEM [OF \<open>f < 2 ^ 31\<close>]
      pmm_findFirstFrames_first [OF wf n f run first]
    by (simp add: pmm_allocateBlocks_def not_le [symmetric])
  with s1(2) pmm_only_frames_fields [OF only] pmm_only_frames_wf [OF only wf] show ?thesis by simp
qed

lemma pmm_freeBlocks_spec:
  assumes wf: "pmm_wf st" and n: "n \<noteq> 0" and f: "f + unat n \<le> pmm_capacity st"
  shows "\<exists>st'. pmm_freeBlocks (of_nat f * 4096) n st = Done st' \<and>
           (\<forall>g. pmm_in_use st' g \<longleftrightarrow> \<not> (f \<le> g \<and> g < f + unat n) \<and> pmm_in_use st g) \<and>
           pmm_usedBlocks st' = pmm_usedBlocks st - n \<and> pmm_maxBlocks st' = pmm_maxBlocks st \<and>
           pmm_nframes st' = pmm_nframes st \<and> pmm_capacity st' = pmm_capacity st \<and> pmm_wf st'"
proof -
  note lim = pmm_wf_limits [OF wf]
  have "0 < unat n" using n by (metis neq0_conv unat_eq_zero)
  then have f31: "f < 2 ^ 31" using f lim by auto
  obtain s1 where s1: "frame_loop pmm_clearFrame (st\<lparr>pmm_frame_lock := True\<rparr>) (of_nat f) (unat n) = Done s1"
    "\<forall>g. pmm_in_use s1 g \<longleftrightarrow> \<not> (f \<le> g \<and> g < f + unat n) \<and> pmm_in_use st g"
    using pmm.clear_run [of f "unat n" "st\<lparr>pmm_frame_lock := True\<rparr>"] f lim by auto
  have only: "pmm_only_frames (st\<lparr>pmm_frame_lock := True\<rparr>) s1"
    using frame_loop_only [OF s1(1)] pmm_clearFrame_only by blast
  have "(if of_nat f * 4096 = (0 :: u64) then 0
         else ucast (of_nat f * 4096 div PMM_BLOCK_SIZE)) = (of_nat f :: cint)"
    using block_frame(2) [OF f31] by (auto simp: PMM_BLOCK_SIZE_def)
  moreover have "\<not> pmm_frame_lock st" using wf by (simp add: pmm_wf_def)
  ultimately have "pmm_freeBlocks (of_nat f * 4096) n st =
      Done (s1\<lparr>pmm_usedBlocks := pmm_usedBlocks s1 - n, pmm_frame_lock := False\<rparr>)"
    using s1(1) n unfolding pmm_freeBlocks_def by (simp add: Let_def)
  with s1(2) pmm_only_frames_fields [OF only] pmm_only_frames_wf [OF only wf] show ?thesis by simp
qed

text \<open>Conversely, a search that returns a frame returned the first free run.\<close>

lemma pmm_findFirstFrames_Done:
  assumes wf: "pmm_wf st" and n: "n \<noteq> 0" and r: "pmm_findFirstFrames st n = Done r" "r \<noteq> - ENOMEM"
  shows "\<exists>f<pmm_limit st. r = of_nat f \<and> f + unat n \<le> pmm_capacity st \<and>
           free_run (pmm_in_use st) f (unat n) \<and> (\<forall>g<f. \<not> free_run (pmm_in_use st) g (unat n))"
proof (cases "n = 1")
  case True
  obtain f where f: "f = (LEAST f. \<not> pmm_in_use st f)" by simp
  from True r pmm_findFirstFrame_spec [OF wf]
  have free: "\<exists>f<pmm_limit st. \<not> pmm_in_use st f" and "r = of_nat f"
    unfolding f by (auto simp: pmm_findFirstFrames_def split: if_splits)
  moreover have "\<forall>g<f. pmm_in_use st g" unfolding f by (metis not_less_Least)
  moreover note least_free_below [OF free, folded f] pmm_wf_limits(1) [OF wf]
  ultimately show ?thesis by (intro exI [of _ f]) (simp add: True free_run_def)
next
  case False
  have "unat n \<noteq> unat (0 :: u64)" "unat n \<noteq> unat (1 :: u64)"
    using n False by (simp_all only: word_unat_eq_iff not_False_eq_True)
  then have n2: "2 \<le> unat n" by simp
  from r have "run_search (pmm_in_use st) (pmm_testFrame st) (unat n) (pmm_limit st) = Done (Some r)"
    by (auto simp: pmm_findFirstFrames_search [OF wf n2] outcome_iff split: option.splits)
  with pmm_search.run_search_Some [OF pmm_wf_limits(1,2) [OF wf]] n2 show ?thesis by auto
qed

section \<open>Regions\<close>

lemma frame_loop_count:
  assumes "\<And>s g u. op (s\<lparr>pmm_usedBlocks := u\<rparr>) g =
             and_then (op s g) (\<lambda>s'. Done (s'\<lparr>pmm_usedBlocks := u\<rparr>))"
    and "\<And>s g s'. op s g = Done s' \<Longrightarrow> pmm_only_frames s s'"
  shows "frame_loop (\<lambda>s f. and_then (op s f) (\<lambda>s'. Done (s'\<lparr>pmm_usedBlocks := pmm_usedBlocks s' + d\<rparr>))) st f n =
         and_then (frame_loop op st f n) (\<lambda>s'. Done (s'\<lparr>pmm_usedBlocks := pmm_usedBlocks st + of_nat n * d\<rparr>))"
proof (induction n arbitrary: st f)
  case 0
  then show ?case by simp
next
  case (Suc n)
  have shift: "frame_loop op (s\<lparr>pmm_usedBlocks := u\<rparr>) g m =
      and_then (frame_loop op s g m) (\<lambda>s'. Done (s'\<lparr>pmm_usedBlocks := u\<rparr>))" for s u g m
    by (induction m arbitrary: s g) (auto simp: assms(1) intro!: and_then_cong)
  show ?case
  proof (cases "op st f")
    case (Done s1)
    from pmm_only_frames_fields(2) [OF assms(2) [OF Done]] Done show ?thesis
      by (simp add: Suc.IH shift distrib_right add.assoc)
  qed simp_all
qed

lemma setFrame_used: "pmm_setFrame (s\<lparr>pmm_usedBlocks := u\<rparr>) g =
    and_then (pmm_setFrame s g) (\<lambda>s'. Done (s'\<lparr>pmm_usedBlocks := u\<rparr>))"
  by (cases s) (simp add: pmm_setFrame_def)

lemma clearFrame_used: "pmm_clearFrame (s\<lparr>pmm_usedBlocks := u\<rparr>) g =
    and_then (pmm_clearFrame s g) (\<lambda>s'. Done (s'\<lparr>pmm_usedBlocks := u\<rparr>))"
  by (cases s) (simp add: pmm_clearFrame_def)

lemmas region_loops =
  frame_loop_count [where op = pmm_setFrame and d = 1, OF setFrame_used pmm_setFrame_only]
  frame_loop_count [where op = pmm_clearFrame and d = "- 1", OF clearFrame_used pmm_clearFrame_only, simplified]

lemma region_blocks:
  assumes "n < 2 ^ 31" "r < 4096"
  shows "nat (sint (ucast (of_nat (n * 4096 + r) div PMM_BLOCK_SIZE) :: cint)) = n"
proof -
  have "unat (of_nat (n * 4096 + r) :: u64) = n * 4096 + r"
    using assms by (intro unat_of_nat_less) simp
  then have "unat (of_nat (n * 4096 + r) div PMM_BLOCK_SIZE) = n"
    using assms(2) by (simp only: unat_div) (simp add: PMM_BLOCK_SIZE_def)
  then have "(ucast (of_nat (n * 4096 + r) div PMM_BLOCK_SIZE) :: cint) = of_nat n"
    by (simp only: ucast_of_nat_unat)
  with assms(1) show ?thesis by (simp add: signed_of_nat signed_take_bit_int_eq_self)
qed

lemma region_align:
  "f < 2 ^ 31 \<Longrightarrow> (if of_nat f * 4096 = (0 :: u64) then 0
      else ucast (of_nat f * 4096 div PMM_BLOCK_SIZE)) = (of_nat f :: cint)"
  using block_frame(2) [of f] by (auto simp: PMM_BLOCK_SIZE_def)

text \<open>
  A region that starts at frame \<open>f\<close> and holds \<open>n\<close> whole blocks and \<open>r\<close> bytes: exactly its whole
  blocks become free, or in use.
\<close>

lemma pmm_initializeRegion_spec:
  assumes wf: "pmm_wf st" and f: "f + n \<le> pmm_capacity st" "f < 2 ^ 31" "n < 2 ^ 31" and r: "r < 4096"
    and sz: "of_nat (n * 4096 + r) \<noteq> (0 :: u64)"
  shows "\<exists>st'. pmm_initializeRegion (of_nat f * 4096) (of_nat (n * 4096 + r)) st = Done st' \<and>
           (\<forall>g. pmm_in_use st' g \<longleftrightarrow> \<not> (f \<le> g \<and> g < f + n) \<and> pmm_in_use st g) \<and>
           pmm_usedBlocks st' = pmm_usedBlocks st - of_nat n \<and> pmm_maxBlocks st' = pmm_maxBlocks st \<and>
           pmm_nframes st' = pmm_nframes st \<and> pmm_capacity st' = pmm_capacity st \<and> pmm_wf st'"
proof -
  obtain s1 where s1: "frame_loop pmm_clearFrame (st\<lparr>pmm_frame_lock := True\<rparr>) (of_nat f) n = Done s1"
    "\<forall>g. pmm_in_use s1 g \<longleftrightarrow> \<not> (f \<le> g \<and> g < f + n) \<and> pmm_in_use st g"
    using pmm.clear_run [of f n "st\<lparr>pmm_frame_lock := True\<rparr>"] f pmm_wf_limits [OF wf] by auto
  have only: "pmm_only_frames (st\<lparr>pmm_frame_lock := True\<rparr>) s1"
    using frame_loop_only [OF s1(1)] pmm_clearFrame_only by blast
  have "\<not> pmm_frame_lock st" using wf by (simp add: pmm_wf_def)
  then have "pmm_initializeRegion (of_nat f * 4096) (of_nat (n * 4096 + r)) st =
      Done (s1\<lparr>pmm_usedBlocks := pmm_usedBlocks st - of_nat n, pmm_frame_lock := False\<rparr>)"
    using s1(1) sz unfolding pmm_initializeRegion_def Let_def region_blocks [OF f(3) r] region_align [OF f(2)]
    by (simp add: region_loops)
  with s1(2) pmm_only_frames_fields [OF only] pmm_only_frames_wf [OF only wf] show ?thesis by simp
qed

lemma pmm_deinitializeRegion_spec:
  assumes wf: "pmm_wf st" and f: "f + n \<le> pmm_capacity st" "f < 2 ^ 31" "n < 2 ^ 31" and r: "r < 4096"
    and sz: "of_nat (n * 4096 + r) \<noteq> (0 :: u64)"
  shows "\<exists>st'. pmm_deinitializeRegion (of_nat f * 4096) (of_nat (n * 4096 + r)) st = Done st' \<and>
           (\<forall>g. pmm_in_use st' g \<longleftrightarrow> f \<le> g \<and> g < f + n \<or> pmm_in_use st g) \<and>
           pmm_usedBlocks st' = pmm_usedBlocks st + of_nat n \<and> pmm_maxBlocks st' = pmm_maxBlocks st \<and>
           pmm_nframes st' = pmm_nframes st \<and> pmm_capacity st' = pmm_capacity st \<and> pmm_wf st'"
proof -
  obtain s1 where s1: "frame_loop pmm_setFrame (st\<lparr>pmm_frame_lock := True\<rparr>) (of_nat f) n = Done s1"
    "\<forall>g. pmm_in_use s1 g \<longleftrightarrow> f \<le> g \<and> g < f + n \<or> pmm_in_use st g"
    using pmm.set_run [of f n "st\<lparr>pmm_frame_lock := True\<rparr>"] f pmm_wf_limits [OF wf] by auto
  have only: "pmm_only_frames (st\<lparr>pmm_frame_lock := True\<rparr>) s1"
    using frame_loop_only [OF s1(1)] pmm_setFrame_only by blast
  have "\<not> pmm_frame_lock st" using wf by (simp add: pmm_wf_def)
  then have "pmm_deinitializeRegion (of_nat f * 4096) (of_nat (n * 4096 + r)) st =
      Done (s1\<lparr>pmm_usedBlocks := pmm_usedBlocks st + of_nat n, pmm_frame_lock := False\<rparr>)"
    using s1(1) sz unfolding pmm_deinitializeRegion_def Let_def region_blocks [OF f(3) r] region_align [OF f(2)]
    by (simp add: region_loops)
  with s1(2) pmm_only_frames_fields [OF only] pmm_only_frames_wf [OF only wf] show ?thesis by simp
qed


section \<open>The allocator over time\<close>

text \<open>
  The calls the rest of the kernel makes, with any arguments. Neither the release functions nor the
  region functions look at a frame before they mark it, so a frame that is freed twice, or a region
  that is set up where it already was, moves the counter without moving the bitmap: the drift of a
  call is by how much.
\<close>

datatype pmm_call =
    AllocateBlock
  | AllocateBlocks u64
  | FreeBlock u64
  | FreeBlocks u64 u64
  | InitializeRegion u64 u64
  | DeinitializeRegion u64 u64

fun pmm_do :: "pmm_call \<Rightarrow> pmm_t \<Rightarrow> pmm_t outcome" where
  "pmm_do AllocateBlock s = and_then (pmm_allocateBlock s) (\<lambda>(a, t). Done t)"
| "pmm_do (AllocateBlocks n) s = and_then (pmm_allocateBlocks n s) (\<lambda>(a, t). Done t)"
| "pmm_do (FreeBlock block) s = pmm_freeBlock block s"
| "pmm_do (FreeBlocks base n) s = pmm_freeBlocks base n s"
| "pmm_do (InitializeRegion base sz) s = pmm_initializeRegion base sz s"
| "pmm_do (DeinitializeRegion base sz) s = pmm_deinitializeRegion base sz s"

primrec pmm_calls :: "pmm_call list \<Rightarrow> pmm_t \<Rightarrow> pmm_t outcome" where
  "pmm_calls [] s = Done s"
| "pmm_calls (c # cs) s = and_then (pmm_do c s) (pmm_calls cs)"

text \<open>How many frames of a run are marked; the frame an address names; the drift of a call.\<close>

definition marked :: "pmm_t \<Rightarrow> nat \<Rightarrow> nat \<Rightarrow> nat" where
  "marked s f n = length (filter (pmm_in_use s) [f..<f + n])"

definition address_frame :: "u64 \<Rightarrow> cint" where
  "address_frame base = (if base = 0 then 0 else ucast (base div PMM_BLOCK_SIZE))"

definition region_count :: "u64 \<Rightarrow> nat" where
  "region_count sz = nat (sint (ucast (sz div PMM_BLOCK_SIZE) :: cint))"

definition refreed :: "pmm_t \<Rightarrow> u64 \<Rightarrow> nat \<Rightarrow> int" where
  "refreed s base n = int n - int (marked s (unat (address_frame base)) n)"

fun pmm_drift :: "pmm_call \<Rightarrow> pmm_t \<Rightarrow> int" where
  "pmm_drift AllocateBlock s = 0"
| "pmm_drift (AllocateBlocks n) s = 0"
| "pmm_drift (FreeBlock block) s = (if block mod PMM_BLOCK_SIZE = 0 then - refreed s block 1 else 0)"
| "pmm_drift (FreeBlocks base n) s = - refreed s base (unat n)"
| "pmm_drift (InitializeRegion base sz) s = - refreed s base (region_count sz)"
| "pmm_drift (DeinitializeRegion base sz) s = int (marked s (unat (address_frame base)) (region_count sz))"

primrec pmm_drifts :: "pmm_call list \<Rightarrow> pmm_t \<Rightarrow> int" where
  "pmm_drifts [] s = 0"
| "pmm_drifts (c # cs) s =
     pmm_drift c s + (case pmm_do c s of Done t \<Rightarrow> pmm_drifts cs t | _ \<Rightarrow> 0)"

definition pmm_excess :: "pmm_t \<Rightarrow> u64" where
  "pmm_excess s = pmm_usedBlocks s - of_nat (use_count (pmm_in_use s) (pmm_capacity s))"

lemma marked_card: "marked s f n = card {g. f \<le> g \<and> g < f + n \<and> pmm_in_use s g}"
proof -
  have "marked s f n = card (set (filter (pmm_in_use s) [f..<f + n]))"
    unfolding marked_def by (simp only: distinct_card distinct_filter distinct_upt)
  also have "set (filter (pmm_in_use s) [f..<f + n]) = {g. f \<le> g \<and> g < f + n \<and> pmm_in_use s g}" by auto
  finally show ?thesis .
qed

lemma marked_free_run: "free_run (pmm_in_use s) f n \<Longrightarrow> marked s f n = 0"
  by (auto simp: marked_def free_run_def filter_empty_conv) (metis le_add_diff_inverse nat_add_left_cancel_less)

lemma marked_none [simp]: "marked s f 0 = 0"
  by (simp add: marked_def)

text \<open>Marking or clearing a run, with the counter moved by the length of the run.\<close>

lemma pmm_excess_set_run:
  assumes "pmm_capacity t = pmm_capacity s" "f + n \<le> pmm_capacity s"
    "\<forall>g. pmm_in_use t g \<longleftrightarrow> f \<le> g \<and> g < f + n \<or> pmm_in_use s g"
    "pmm_usedBlocks t = pmm_usedBlocks s + of_nat n"
  shows "pmm_excess t = pmm_excess s + of_int (int (marked s f n))"
proof -
  have "use_count (pmm_in_use t) (pmm_capacity s) + marked s f n = use_count (pmm_in_use s) (pmm_capacity s) + n"
    unfolding marked_card using assms(2,3) by (intro use_count_mark_run) auto
  then have "of_nat (use_count (pmm_in_use t) (pmm_capacity s)) + of_nat (marked s f n) =
      (of_nat (use_count (pmm_in_use s) (pmm_capacity s)) + of_nat n :: u64)"
    by (simp only: flip: of_nat_add)
  with assms(1,4) show ?thesis by (simp add: pmm_excess_def algebra_simps)
qed

lemma pmm_excess_clear_run:
  assumes "pmm_capacity t = pmm_capacity s" "f + n \<le> pmm_capacity s"
    "\<forall>g. pmm_in_use t g \<longleftrightarrow> \<not> (f \<le> g \<and> g < f + n) \<and> pmm_in_use s g"
    "pmm_usedBlocks t = pmm_usedBlocks s - of_nat n"
  shows "pmm_excess t = pmm_excess s + of_int (- (int n - int (marked s f n)))"
proof -
  have "use_count (pmm_in_use t) (pmm_capacity s) + marked s f n = use_count (pmm_in_use s) (pmm_capacity s)"
    unfolding marked_card using assms(2,3) by (intro use_count_unmark_run) auto
  then have "of_nat (use_count (pmm_in_use t) (pmm_capacity s)) + of_nat (marked s f n) =
      (of_nat (use_count (pmm_in_use s) (pmm_capacity s)) :: u64)"
    by (simp only: flip: of_nat_add)
  with assms(1,4) show ?thesis by (simp add: pmm_excess_def algebra_simps)
qed

lemma run_of_one: "f \<le> g \<and> g < f + 1 \<longleftrightarrow> g = (f :: nat)"
  by auto

text \<open>What every call does to a well-formed allocator, up to the drift \<open>d\<close>.\<close>

definition pmm_moves :: "pmm_t \<Rightarrow> int \<Rightarrow> pmm_t \<Rightarrow> bool" where
  "pmm_moves s d t \<longleftrightarrow> pmm_wf t \<and> pmm_capacity t = pmm_capacity s \<and> pmm_excess t = pmm_excess s + of_int d"

lemma pmm_moves_refl: "pmm_wf s \<Longrightarrow> pmm_moves s 0 s"
  by (simp add: pmm_moves_def)

lemma pmm_alloc_moves:
  assumes wf: "pmm_wf s" and r: "pmm_allocateBlock s = Done (a, t)"
  shows "pmm_moves s 0 t"
proof -
  have avail: "pmm_usedBlocks s \<noteq> pmm_maxBlocks s" using r by (auto simp: pmm_allocateBlock_def)
  have free: "\<exists>f<pmm_limit s. \<not> pmm_in_use s f"
    using r pmm_findFirstFrame_spec [OF wf] by (auto simp: pmm_allocateBlock_def outcome_iff split: if_splits)
  obtain f where f: "f = (LEAST f. \<not> pmm_in_use s f)" by simp
  with pmm_allocateBlock_spec [OF wf avail free] r
  have t: "\<forall>g. pmm_in_use t g \<longleftrightarrow> g = f \<or> pmm_in_use s g" "pmm_usedBlocks t = pmm_usedBlocks s + of_nat 1"
    "pmm_wf t" "pmm_capacity t = pmm_capacity s" by auto
  have run: "f + 1 \<le> pmm_capacity s" "free_run (pmm_in_use s) f 1"
    using least_free_below [OF free, folded f] pmm_wf_limits [OF wf] by (auto simp: free_run_def)
  have "pmm_excess t = pmm_excess s + of_int (int (marked s f 1))"
    by (rule pmm_excess_set_run [OF t(4) run(1)]) (simp_all only: run_of_one t(1,2) simp_thms)
  with t(3,4) show ?thesis by (simp add: pmm_moves_def marked_free_run [OF run(2), unfolded One_nat_def])
qed

lemma pmm_allocs_moves:
  assumes wf: "pmm_wf s" and r: "pmm_allocateBlocks n s = Done (a, t)"
  shows "pmm_moves s 0 t"
proof -
  from r have n: "n \<noteq> 0" and enough: "n < pmm_maxBlocks s - pmm_usedBlocks s"
    by (auto simp: pmm_allocateBlocks_def split: if_splits)
  then obtain k where k: "pmm_findFirstFrames s n = Done k" "k \<noteq> - ENOMEM"
    using r by (auto simp: pmm_allocateBlocks_def outcome_iff split: if_splits)
  from pmm_findFirstFrames_Done [OF wf n k] obtain f where
    f: "f < pmm_limit s" "f + unat n \<le> pmm_capacity s" "free_run (pmm_in_use s) f (unat n)"
    "\<forall>g<f. \<not> free_run (pmm_in_use s) g (unat n)" by blast
  from pmm_allocateBlocks_spec [OF wf n enough f(1-3)] f(4) r
  have t: "pmm_wf t" "pmm_capacity t = pmm_capacity s"
    "\<forall>g. pmm_in_use t g \<longleftrightarrow> f \<le> g \<and> g < f + unat n \<or> pmm_in_use s g"
    "pmm_usedBlocks t = pmm_usedBlocks s + of_nat (unat n)" by auto
  from pmm_excess_set_run [OF t(2) f(2) t(3,4)] t(1,2) show ?thesis
    by (simp add: pmm_moves_def marked_free_run [OF f(3)])
qed

text \<open>A loop over frames that returns stayed inside the bitmap.\<close>

lemma frame_loop_inside:
  assumes "\<And>s g s'. op s g = Done s' \<Longrightarrow>
      0 \<le> sint g \<and> unat g < pmm_capacity s \<and> pmm_capacity s' = pmm_capacity s"
    and "frame_loop op s frame n = Done t" "pmm_capacity s \<le> 2 ^ 31" "0 < n"
  shows "unat frame + n \<le> pmm_capacity s"
  using assms(2-4)
proof (induction n arbitrary: s frame)
  case (Suc n)
  from Suc.prems(1) obtain s1 where s1: "op s frame = Done s1" "frame_loop op s1 (frame + 1) n = Done t"
    by (auto simp: outcome_iff)
  from assms(1) [OF s1(1)] have in1: "unat frame < pmm_capacity s" "pmm_capacity s1 = pmm_capacity s" by auto
  have "unat (frame + 1) = unat frame + 1"
    using in1(1) Suc.prems(2) by (intro unat_word_ariths(1) [THEN trans]) simp
  with Suc.IH [OF s1(2)] in1 Suc.prems(2) show ?case by (cases "n = 0") auto
qed simp

lemma setFrame_inside:
  "pmm_setFrame s g = Done s' \<Longrightarrow> 0 \<le> sint g \<and> unat g < pmm_capacity s \<and> pmm_capacity s' = pmm_capacity s"
  by (auto simp: pmm_setFrame_def frame_index_def outcome_iff array_get_def array_set_def pmm_capacity_div
      pmm_capacity_def split: if_splits)

lemma clearFrame_inside:
  "pmm_clearFrame s g = Done s' \<Longrightarrow> 0 \<le> sint g \<and> unat g < pmm_capacity s \<and> pmm_capacity s' = pmm_capacity s"
  by (auto simp: pmm_clearFrame_def frame_index_def outcome_iff array_get_def array_set_def pmm_capacity_div
      pmm_capacity_def split: if_splits)

lemma set_loop_moves:
  assumes wf: "pmm_wf s" and r: "frame_loop pmm_setFrame (s\<lparr>pmm_frame_lock := l\<rparr>) frame n = Done t"
  shows "pmm_moves s (int (marked s (unat frame) n))
           (t\<lparr>pmm_usedBlocks := pmm_usedBlocks s + of_nat n, pmm_frame_lock := False\<rparr>)"
proof -
  have only: "pmm_only_frames (s\<lparr>pmm_frame_lock := l\<rparr>) t"
    using frame_loop_only [OF r] pmm_setFrame_only by blast
  note fields = pmm_only_frames_fields [OF only] pmm_only_frames_wf [OF only wf]
  show ?thesis
  proof (cases "n = 0")
    case True
    with r wf show ?thesis by (auto simp: pmm_moves_def pmm_wf_def pmm_excess_def)
  next
    case False
    with frame_loop_inside [OF setFrame_inside r] pmm_wf_limits(2) [OF wf]
    have inside: "unat frame + n \<le> pmm_capacity s" by simp
    with pmm.set_run [of "unat frame" n "s\<lparr>pmm_frame_lock := l\<rparr>"] pmm_wf_limits(2) [OF wf] r
    have view: "\<forall>g. pmm_in_use t g \<longleftrightarrow> unat frame \<le> g \<and> g < unat frame + n \<or> pmm_in_use s g" by simp
    with fields inside show ?thesis
      unfolding pmm_moves_def by (intro conjI pmm_excess_set_run) simp_all
  qed
qed

lemma clear_loop_moves:
  assumes wf: "pmm_wf s" and r: "frame_loop pmm_clearFrame (s\<lparr>pmm_frame_lock := l\<rparr>) frame n = Done t"
  shows "pmm_moves s (- (int n - int (marked s (unat frame) n)))
           (t\<lparr>pmm_usedBlocks := pmm_usedBlocks s - of_nat n, pmm_frame_lock := False\<rparr>)"
proof -
  have only: "pmm_only_frames (s\<lparr>pmm_frame_lock := l\<rparr>) t"
    using frame_loop_only [OF r] pmm_clearFrame_only by blast
  note fields = pmm_only_frames_fields [OF only] pmm_only_frames_wf [OF only wf]
  show ?thesis
  proof (cases "n = 0")
    case True
    with r wf show ?thesis by (auto simp: pmm_moves_def pmm_wf_def pmm_excess_def)
  next
    case False
    with frame_loop_inside [OF clearFrame_inside r] pmm_wf_limits(2) [OF wf]
    have inside: "unat frame + n \<le> pmm_capacity s" by simp
    with pmm.clear_run [of "unat frame" n "s\<lparr>pmm_frame_lock := l\<rparr>"] pmm_wf_limits(2) [OF wf] r
    have view: "\<forall>g. pmm_in_use t g \<longleftrightarrow> \<not> (unat frame \<le> g \<and> g < unat frame + n) \<and> pmm_in_use s g" by simp
    with fields inside show ?thesis
      unfolding pmm_moves_def by (intro conjI pmm_excess_clear_run) simp_all
  qed
qed

text \<open>The four calls that take addresses are those loops.\<close>

lemma pmm_free_moves:
  assumes wf: "pmm_wf s" and r: "pmm_freeBlock block s = Done t"
  shows "pmm_moves s (pmm_drift (FreeBlock block) s) t"
proof (cases "block mod PMM_BLOCK_SIZE = 0")
  case True
  with wf r obtain s1 where
    s1: "frame_loop pmm_clearFrame (s\<lparr>pmm_frame_lock := True\<rparr>) (address_frame block) 1 = Done s1"
    "t = s1\<lparr>pmm_usedBlocks := pmm_usedBlocks s1 - 1, pmm_frame_lock := False\<rparr>"
    by (auto simp: pmm_freeBlock_def address_frame_def pmm_wf_def Let_def outcome_iff)
  from frame_loop_only [OF s1(1)] pmm_clearFrame_only have "pmm_usedBlocks s1 = pmm_usedBlocks s"
    using pmm_only_frames_fields(2) by fastforce
  with clear_loop_moves [OF wf s1(1)] s1(2) True show ?thesis by (simp add: refreed_def)
next
  case False
  with r wf show ?thesis by (simp add: pmm_freeBlock_def pmm_moves_refl)
qed

lemma pmm_frees_moves:
  assumes wf: "pmm_wf s" and r: "pmm_freeBlocks base n s = Done t"
  shows "pmm_moves s (pmm_drift (FreeBlocks base n) s) t"
proof (cases "n = 0")
  case True
  with r wf show ?thesis by (simp add: pmm_freeBlocks_def refreed_def pmm_moves_refl)
next
  case False
  with wf r obtain s1 where
    s1: "frame_loop pmm_clearFrame (s\<lparr>pmm_frame_lock := True\<rparr>) (address_frame base) (unat n) = Done s1"
    "t = s1\<lparr>pmm_usedBlocks := pmm_usedBlocks s1 - n, pmm_frame_lock := False\<rparr>"
    by (auto simp: pmm_freeBlocks_def address_frame_def pmm_wf_def Let_def outcome_iff)
  from frame_loop_only [OF s1(1)] pmm_clearFrame_only have "pmm_usedBlocks s1 = pmm_usedBlocks s"
    using pmm_only_frames_fields(2) by fastforce
  with clear_loop_moves [OF wf s1(1)] s1(2) show ?thesis by (simp add: refreed_def)
qed

lemma pmm_region_moves:
  assumes wf: "pmm_wf s" and r: "pmm_initializeRegion base sz s = Done t"
  shows "pmm_moves s (pmm_drift (InitializeRegion base sz) s) t"
proof (cases "sz = 0")
  case True
  with r wf show ?thesis
    by (simp add: pmm_initializeRegion_def refreed_def region_count_def pmm_moves_refl)
next
  case False
  with wf r obtain s1 where
    s1: "frame_loop pmm_clearFrame (s\<lparr>pmm_frame_lock := True\<rparr>) (address_frame base) (region_count sz) = Done s1"
    "t = s1\<lparr>pmm_usedBlocks := pmm_usedBlocks s - of_nat (region_count sz), pmm_frame_lock := False\<rparr>"
    by (auto simp: pmm_initializeRegion_def Let_def region_loops address_frame_def region_count_def pmm_wf_def outcome_iff)
  with clear_loop_moves [OF wf s1(1)] show ?thesis by (simp add: refreed_def)
qed

lemma pmm_unregion_moves:
  assumes wf: "pmm_wf s" and r: "pmm_deinitializeRegion base sz s = Done t"
  shows "pmm_moves s (pmm_drift (DeinitializeRegion base sz) s) t"
proof (cases "sz = 0")
  case True
  with r wf show ?thesis
    by (simp add: pmm_deinitializeRegion_def region_count_def pmm_moves_refl)
next
  case False
  with wf r obtain s1 where
    s1: "frame_loop pmm_setFrame (s\<lparr>pmm_frame_lock := True\<rparr>) (address_frame base) (region_count sz) = Done s1"
    "t = s1\<lparr>pmm_usedBlocks := pmm_usedBlocks s + of_nat (region_count sz), pmm_frame_lock := False\<rparr>"
    by (auto simp: pmm_deinitializeRegion_def Let_def region_loops address_frame_def region_count_def pmm_wf_def outcome_iff)
  with set_loop_moves [OF wf s1(1)] show ?thesis by simp
qed

lemma pmm_do_moves: "pmm_wf s \<Longrightarrow> pmm_do c s = Done t \<Longrightarrow> pmm_moves s (pmm_drift c s) t"
  by (cases c) (auto simp: outcome_iff simp del: pmm_drift.simps(3-6)
      intro: pmm_alloc_moves pmm_allocs_moves pmm_free_moves pmm_frees_moves pmm_region_moves pmm_unregion_moves)

lemma pmm_calls_moves: "pmm_wf s \<Longrightarrow> pmm_calls cs s = Done t \<Longrightarrow> pmm_moves s (pmm_drifts cs s) t"
proof (induction cs arbitrary: s)
  case Nil
  then show ?case by (simp add: pmm_moves_refl)
next
  case (Cons c cs)
  then obtain u where u: "pmm_do c s = Done u" "pmm_calls cs u = Done t" by (auto simp: outcome_iff)
  note one = pmm_do_moves [OF Cons.prems(1) u(1)]
  with Cons.IH [OF _ u(2)] show ?case by (simp add: pmm_moves_def u(1))
qed

section \<open>Properties\<close>

text \<open>A small machine for the examples: 64 frames, of which the first three are in use.\<close>

definition pmm_small :: pmm_t where
  "pmm_small = \<lparr>pmm_frames = [7, 0], pmm_nframes = 64, pmm_memorySize = 262144,
                pmm_usedBlocks = 3, pmm_maxBlocks = 64, pmm_frame_lock = False\<rparr>"

lemma pmm_small_wf: "pmm_wf pmm_small"
  by (simp add: pmm_small_def pmm_wf_def frame_word_ok_def)

lemma pmm_small_view:
  "pmm_in_use pmm_small f \<longleftrightarrow> f < 3" "pmm_limit pmm_small = 64" "pmm_capacity pmm_small = 64"
proof -
  have seven: "bit (7 :: u64) n \<longleftrightarrow> n < 3" for n
  proof -
    have "(7 :: u64) = mask 3" by (simp add: mask_eq_exp_minus_1)
    then show ?thesis by (simp only: bit_mask_iff) auto
  qed
  consider "f < 32" | "32 \<le> f" "f < 64" | "64 \<le> f" by linarith
  then show "pmm_in_use pmm_small f \<longleftrightarrow> f < 3"
  proof cases
    case 1
    then have "f div 32 = 0" "f mod 32 = f" by simp_all
    with 1 have "pmm_in_use pmm_small f \<longleftrightarrow> bit (7 :: u64) f"
      by (simp add: pmm_in_use_def pmm_capacity_def pmm_small_def)
    also have "\<dots> \<longleftrightarrow> f < 3" by (rule seven)
    finally show ?thesis .
  next
    case 2
    then have "f div 32 = 1" by simp
    with 2 show ?thesis by (simp add: pmm_in_use_def pmm_capacity_def pmm_small_def)
  next
    case 3
    then show ?thesis by (simp add: pmm_in_use_def pmm_capacity_def pmm_small_def)
  qed
  show "pmm_limit pmm_small = 64" "pmm_capacity pmm_small = 64"
    by (simp_all add: pmm_small_def pmm_limit_def pmm_capacity_def)
qed

text \<open>
  C1: \<open>pmm_allocateBlock\<close> takes the lowest free frame of the whole groups, marks it and no other frame,
  counts it, and leaves a well-formed allocator with the lock free; it panics with \<open>OUT_OF_MEMORY\<close>
  exactly when the counter says everything is used or no such frame is free.
\<close>

theorem pmm_allocateBlock_first_fit:
  assumes "pmm_wf st"
  shows "if pmm_usedBlocks st = pmm_maxBlocks st \<or> (\<forall>f<pmm_limit st. pmm_in_use st f)
         then pmm_allocateBlock st = Panic OUT_OF_MEMORY
         else \<exists>f st'. f < pmm_limit st \<and> \<not> pmm_in_use st f \<and> (\<forall>g<f. pmm_in_use st g) \<and>
                pmm_allocateBlock st = Done (frame_address (of_nat f), st') \<and>
                (\<forall>g. pmm_in_use st' g \<longleftrightarrow> g = f \<or> pmm_in_use st g) \<and>
                pmm_getUsedBlocks st' = pmm_getUsedBlocks st + 1 \<and> pmm_wf st'"
proof (cases "pmm_usedBlocks st = pmm_maxBlocks st \<or> (\<forall>f<pmm_limit st. pmm_in_use st f)")
  case True
  moreover have "\<not> pmm_frame_lock st" using assms by (simp add: pmm_wf_def)
  ultimately show ?thesis
    using pmm_findFirstFrame_spec [OF assms] by (auto simp: pmm_allocateBlock_def)
next
  case False
  then have avail: "pmm_usedBlocks st \<noteq> pmm_maxBlocks st" and free: "\<exists>f<pmm_limit st. \<not> pmm_in_use st f"
    by blast+
  obtain f where f: "f = (LEAST f. \<not> pmm_in_use st f)" by simp
  have "\<forall>g<f. pmm_in_use st g" unfolding f by (metis not_less_Least)
  with pmm_allocateBlock_spec [OF assms avail free, folded f] least_free_below [OF free, folded f]
  have "\<exists>f st'. f < pmm_limit st \<and> \<not> pmm_in_use st f \<and> (\<forall>g<f. pmm_in_use st g) \<and>
      pmm_allocateBlock st = Done (frame_address (of_nat f), st') \<and>
      (\<forall>g. pmm_in_use st' g \<longleftrightarrow> g = f \<or> pmm_in_use st g) \<and>
      pmm_getUsedBlocks st' = pmm_getUsedBlocks st + 1 \<and> pmm_wf st'"
    unfolding pmm_getUsedBlocks_def by blast
  with False show ?thesis by (simp only: if_False)
qed

theorem pmm_allocateBlock_first_fit_witness:
  "\<exists>st'. pmm_allocateBlock pmm_small = Done (frame_address 3, st') \<and> pmm_getUsedBlocks st' = 4"
proof -
  have neg: "\<not> (pmm_usedBlocks pmm_small = pmm_maxBlocks pmm_small \<or> (\<forall>f<pmm_limit pmm_small. pmm_in_use pmm_small f))"
    by (auto simp: pmm_small_view intro!: exI [of _ 3]) (simp add: pmm_small_def)
  from pmm_allocateBlock_first_fit [OF pmm_small_wf, unfolded if_not_P [OF neg]] obtain f st' where
    "\<not> f < 3" "\<forall>g<f. g < 3" and r: "pmm_allocateBlock pmm_small = Done (frame_address (of_nat f), st')"
    "pmm_getUsedBlocks st' = pmm_getUsedBlocks pmm_small + 1"
    by (auto simp: pmm_small_view)
  then have "f = 3" by (metis less_irrefl linorder_neqE_nat)
  with r show ?thesis by (simp add: pmm_getUsedBlocks_def) (simp add: pmm_small_def)
qed

text \<open>
  C4: \<open>pmm_freeBlock\<close> undoes \<open>pmm_allocateBlock\<close>: on a machine whose whole groups end below 2 GiB,
  freeing the address just obtained gives back the same set of frames in use and the same count.
\<close>

theorem pmm_alloc_free_round_trip:
  assumes "pmm_wf st" "pmm_limit st \<le> 2 ^ 19" "pmm_allocateBlock st = Done (a, st')"
  shows "\<exists>st''. pmm_freeBlock a st' = Done st'' \<and> pmm_in_use st'' = pmm_in_use st \<and>
           pmm_usedBlocks st'' = pmm_usedBlocks st \<and> pmm_wf st''"
proof -
  have free: "\<exists>f<pmm_limit st. \<not> pmm_in_use st f"
    using assms(3) pmm_findFirstFrame_spec [OF assms(1)]
    by (auto simp: pmm_allocateBlock_def outcome_iff split: if_splits)
  have avail: "pmm_usedBlocks st \<noteq> pmm_maxBlocks st" using assms(3) by (auto simp: pmm_allocateBlock_def)
  obtain f where f: "f = (LEAST f. \<not> pmm_in_use st f)" by simp
  note least = least_free_below [OF free, folded f]
  from pmm_allocateBlock_spec [OF assms(1) avail free, folded f] assms(3) least(1) assms(2)
  have st': "a = of_nat f * 4096" "\<forall>g. pmm_in_use st' g \<longleftrightarrow> g = f \<or> pmm_in_use st g"
    "pmm_usedBlocks st' = pmm_usedBlocks st + 1" "pmm_wf st'" "f < pmm_capacity st'"
    using pmm_wf_limits [OF assms(1)] by (auto simp: frame_address_low)
  from pmm_freeBlock_spec [OF st'(4,5)] obtain st'' where st'': "pmm_freeBlock a st' = Done st''"
    "\<forall>g. pmm_in_use st'' g \<longleftrightarrow> g \<noteq> f \<and> pmm_in_use st' g"
    "pmm_usedBlocks st'' = pmm_usedBlocks st' - 1" "pmm_wf st''" using st'(1) by blast
  have "pmm_in_use st'' g \<longleftrightarrow> pmm_in_use st g" for g
    using spec [OF st'(2), of g] spec [OF st''(2), of g] least(2) by auto
  with st'(3) st'' show ?thesis by (auto simp: fun_eq_iff)
qed

theorem pmm_alloc_free_round_trip_witness:
  "\<exists>a st' st''. pmm_allocateBlock pmm_small = Done (a, st') \<and> pmm_freeBlock a st' = Done st'' \<and>
     pmm_usedBlocks st'' = 3"
proof -
  have "\<exists>a st'. pmm_allocateBlock pmm_small = Done (a, st')"
  proof -
    have "pmm_usedBlocks pmm_small \<noteq> pmm_maxBlocks pmm_small" by (simp add: pmm_small_def)
    moreover have "\<exists>f<pmm_limit pmm_small. \<not> pmm_in_use pmm_small f"
      by (rule exI [of _ 3]) (simp add: pmm_small_view)
    ultimately show ?thesis using pmm_allocateBlock_spec [OF pmm_small_wf] by blast
  qed
  then obtain a st' where "pmm_allocateBlock pmm_small = Done (a, st')" by blast
  with pmm_alloc_free_round_trip [OF pmm_small_wf _ this] show ?thesis
    by (auto simp: pmm_small_view) (auto simp: pmm_small_def)
qed


text \<open>
  C3: \<open>pmm_allocateBlocks\<close> returns the address of the first run of \<open>n\<close> free frames, marks exactly that
  run and counts it, whenever more than \<open>n\<close> blocks are counted free and such a run starts in the
  whole groups and lies inside the bitmap; and an allocation that returns an address returned the
  address of such a run.
\<close>

theorem pmm_allocateBlocks_first_fit:
  assumes "pmm_wf st" "n \<noteq> 0" "n < pmm_getFreeBlocks st"
  shows "(\<forall>a st'. pmm_allocateBlocks n st = Done (a, st') \<longrightarrow>
           (\<exists>f<pmm_limit st. a = frame_address (of_nat f) \<and> free_run (pmm_in_use st) f (unat n) \<and>
             (\<forall>g<f. \<not> free_run (pmm_in_use st) g (unat n)) \<and>
             (\<forall>g. pmm_in_use st' g \<longleftrightarrow> f \<le> g \<and> g < f + unat n \<or> pmm_in_use st g) \<and>
             pmm_usedBlocks st' = pmm_usedBlocks st + n)) \<and>
         ((\<exists>f<pmm_limit st. f + unat n \<le> pmm_capacity st \<and> free_run (pmm_in_use st) f (unat n)) \<longrightarrow>
           (\<exists>a st'. pmm_allocateBlocks n st = Done (a, st')))"
proof -
  have enough: "n < pmm_maxBlocks st - pmm_usedBlocks st" using assms(3) by (simp add: pmm_getFreeBlocks_def)
  have returned: "\<exists>f<pmm_limit st. a = frame_address (of_nat f) \<and> free_run (pmm_in_use st) f (unat n) \<and>
      (\<forall>g<f. \<not> free_run (pmm_in_use st) g (unat n)) \<and>
      (\<forall>g. pmm_in_use st' g \<longleftrightarrow> f \<le> g \<and> g < f + unat n \<or> pmm_in_use st g) \<and>
      pmm_usedBlocks st' = pmm_usedBlocks st + n" if ret: "pmm_allocateBlocks n st = Done (a, st')" for a st'
  proof -
    from ret obtain r where r: "pmm_findFirstFrames st n = Done r" "r \<noteq> - ENOMEM"
      using enough assms(2) by (auto simp: pmm_allocateBlocks_def outcome_iff split: if_splits)
    from pmm_findFirstFrames_Done [OF assms(1,2) r] obtain f where
      f: "f < pmm_limit st" "f + unat n \<le> pmm_capacity st" "free_run (pmm_in_use st) f (unat n)"
      "\<forall>g<f. \<not> free_run (pmm_in_use st) g (unat n)" by blast
    from pmm_allocateBlocks_spec [OF assms(1,2) enough f(1-3)] f(4) ret
    have "a = frame_address (of_nat f)" "pmm_usedBlocks st' = pmm_usedBlocks st + n"
      "\<forall>g. pmm_in_use st' g \<longleftrightarrow> f \<le> g \<and> g < f + unat n \<or> pmm_in_use st g" by auto
    with f show ?thesis by blast
  qed
  have "\<exists>a st'. pmm_allocateBlocks n st = Done (a, st')"
    if f: "f < pmm_limit st" "f + unat n \<le> pmm_capacity st" "free_run (pmm_in_use st) f (unat n)" for f
  proof -
    define g where "g = (LEAST g. free_run (pmm_in_use st) g (unat n))"
    have g: "free_run (pmm_in_use st) g (unat n)" "g \<le> f" "\<And>h. h < g \<Longrightarrow> \<not> free_run (pmm_in_use st) h (unat n)"
      using f(3) unfolding g_def by (auto intro: LeastI Least_le dest: not_less_Least)
    with pmm_allocateBlocks_spec [OF assms(1,2) enough _ _ g(1,3)] f show ?thesis by fastforce
  qed
  with returned show ?thesis by blast
qed

theorem pmm_allocateBlocks_first_fit_witness:
  "\<exists>a st'. pmm_allocateBlocks 8 pmm_small = Done (a, st') \<and> pmm_usedBlocks st' = 11"
proof -
  have pre: "(8 :: u64) \<noteq> 0" "8 < pmm_getFreeBlocks pmm_small"
    by (simp_all add: pmm_small_def pmm_getFreeBlocks_def)
  note fit = pmm_allocateBlocks_first_fit [OF pmm_small_wf pre]
  have "\<exists>f<pmm_limit pmm_small. f + unat (8 :: u64) \<le> pmm_capacity pmm_small \<and>
      free_run (pmm_in_use pmm_small) f (unat (8 :: u64))"
    by (rule exI [of _ 10]) (simp add: free_run_def pmm_small_view)
  with fit obtain a st' where r: "pmm_allocateBlocks 8 pmm_small = Done (a, st')" by blast
  with fit have "pmm_usedBlocks st' = pmm_usedBlocks pmm_small + 8" by blast
  with r show ?thesis by (auto simp: pmm_small_def)
qed

text \<open>
  C2: Over any sequence of calls to the allocator, with any arguments, that returns (a call that runs
  out of memory panics, one that leaves the bitmap faults), the allocator stays well formed and the
  difference between \<open>pmm_getUsedBlocks\<close> and the number of frames marked in the bitmap grows by
  exactly the drift of the calls: the frames that \<open>pmm_deinitializeRegion\<close> marks although they were
  marked, less the frames that the release calls and \<open>pmm_initializeRegion\<close> clear although they were
  free. So the counter stays exact over calls without such frames, and only those calls (the
  boot code makes some) move it away from the bitmap.
\<close>

theorem pmm_used_count_invariant:
  assumes "pmm_wf s" "pmm_calls cs s = Done t"
  shows "pmm_wf t \<and>
         pmm_getUsedBlocks t - of_nat (card {f. f < pmm_capacity t \<and> pmm_in_use t f}) =
           pmm_getUsedBlocks s - of_nat (card {f. f < pmm_capacity s \<and> pmm_in_use s f})
             + of_int (pmm_drifts cs s) \<and>
         (pmm_drifts cs s = 0 \<and> unat (pmm_getUsedBlocks s) = card {f. f < pmm_capacity s \<and> pmm_in_use s f}
            \<longrightarrow> unat (pmm_getUsedBlocks t) = card {f. f < pmm_capacity t \<and> pmm_in_use t f})"
proof -
  from pmm_calls_moves [OF assms] have wf: "pmm_wf t" and ex: "pmm_excess t = pmm_excess s + of_int (pmm_drifts cs s)"
    by (simp_all add: pmm_moves_def)
  have "unat (pmm_usedBlocks t) = use_count (pmm_in_use t) (pmm_capacity t)"
    if "pmm_drifts cs s = 0" "unat (pmm_usedBlocks s) = use_count (pmm_in_use s) (pmm_capacity s)"
  proof -
    have "pmm_excess s = 0" by (simp add: pmm_excess_def flip: that(2))
    with ex that(1) have "pmm_usedBlocks t = of_nat (use_count (pmm_in_use t) (pmm_capacity t))"
      by (simp add: pmm_excess_def)
    moreover have "use_count (pmm_in_use t) (pmm_capacity t) < 2 ^ 64"
      using use_count_le [of "pmm_in_use t" "pmm_capacity t"] pmm_wf_limits(2) [OF wf] by simp
    ultimately show ?thesis by (simp add: unat_of_nat_less)
  qed
  with wf ex show ?thesis by (simp add: pmm_excess_def pmm_getUsedBlocks_def use_count_def)
qed

theorem pmm_used_count_invariant_witness:
  "\<exists>t. pmm_calls [AllocateBlock, FreeBlock 0x3000, FreeBlock 0x3000] pmm_small = Done t \<and>
     pmm_getUsedBlocks t - of_nat (card {f. f < pmm_capacity t \<and> pmm_in_use t f}) = - 1"
proof -
  let ?cs = "[AllocateBlock, FreeBlock 0x3000, FreeBlock 0x3000]"
  have "case pmm_calls ?cs pmm_small of Done t \<Rightarrow> True | _ \<Rightarrow> False" and drift: "pmm_drifts ?cs pmm_small = - 1"
    by code_simp+
  then obtain t where t: "pmm_calls ?cs pmm_small = Done t" by (auto split: outcome.splits)
  have "{f. f < pmm_capacity pmm_small \<and> pmm_in_use pmm_small f} = {..<3}" by (auto simp: pmm_small_view)
  moreover have "pmm_getUsedBlocks pmm_small = 3" by (simp add: pmm_getUsedBlocks_def pmm_small_def)
  ultimately have "pmm_getUsedBlocks t - of_nat (card {f. f < pmm_capacity t \<and> pmm_in_use t f}) = - 1"
    using pmm_used_count_invariant [OF pmm_small_wf t, unfolded drift] by simp
  with t show ?thesis by blast
qed

lemma memset_byte_bits:
  "4 \<le> f \<Longrightarrow> f < 8 \<Longrightarrow> 1 \<le> m \<Longrightarrow> \<not> bit (memset_word 0xF m w) f"
proof -
  assume f: "4 \<le> f" "f < 8" and m: "1 \<le> m"
  have "f < 8 * min m 8" using f(2) m by auto
  moreover have "\<not> bit (0x0F0F0F0F0F0F0F0F :: u64) f"
  proof -
    have "f \<in> {4, 5, 6, 7}" using f by auto
    then show ?thesis by auto
  qed
  ultimately show ?thesis by (simp add: memset_word_def bit_or_iff bit_and_iff bit_mask_iff bit_not_iff)
qed

text \<open>
  C5: \<open>pmm_init\<close> counts every block as used, as its comment says, but fills the bitmap with \<open>0xF\<close>: frames
  4 to 7 of a machine of at least eight blocks are free in the bitmap whatever the array held, so
  the next \<open>pmm_findFirstFrame\<close> can return one of them.
\<close>

theorem pmm_init_leaves_free_frames:
  assumes "pmm_init memsize (Some bitmap) st = Done st'" "8 * PMM_BLOCK_SIZE \<le> memsize" "4 \<le> f" "f < 8"
  shows "pmm_getUsedBlocks st' = pmm_getMaximumBlocks st' \<and> pmm_getFreeBlocks st' = 0 \<and>
         \<not> pmm_in_use st' f"
proof -
  let ?k = "unat (memsize div PMM_BLOCK_SIZE div 8)"
  from assms(1) have st': "pmm_usedBlocks st' = pmm_maxBlocks st'" "?k \<le> 8 * length bitmap"
    "pmm_frames st' = map (\<lambda>j. memset_word 0xF (?k - 8 * j) (bitmap ! j)) [0..<length bitmap]"
    by (auto simp: pmm_init_def memset_words_def Let_def split: if_splits)
  have "8 * 4096 \<le> unat memsize"
    using assms(2) by (simp add: PMM_BLOCK_SIZE_def word_le_nat_alt)
  then have k: "1 \<le> ?k" by (simp add: unat_div PMM_BLOCK_SIZE_def)
  then have "0 < length bitmap" using st'(2) by linarith
  then have "pmm_frames st' ! 0 = memset_word 0xF ?k (bitmap ! 0)" unfolding st'(3) by simp
  with memset_byte_bits [OF assms(3,4) k] assms(4) have "\<not> pmm_in_use st' f"
    by (simp add: pmm_in_use_def)
  with st'(1) show ?thesis
    by (simp add: pmm_getUsedBlocks_def pmm_getMaximumBlocks_def pmm_getFreeBlocks_def)
qed

theorem pmm_init_leaves_free_frames_witness:
  "\<exists>st'. pmm_init 262144 (Some [0, 0]) pmm_small = Done st' \<and> pmm_getFreeBlocks st' = 0 \<and>
     \<not> pmm_in_use st' 4"
proof -
  have ex: "\<exists>st'. pmm_init 262144 (Some [0, 0]) pmm_small = Done st'"
    by (simp add: pmm_init_def memset_words_def PMM_BLOCK_SIZE_def)
  then obtain st' where "pmm_init 262144 (Some [0, 0]) pmm_small = Done st'" by blast
  with pmm_init_leaves_free_frames [OF this, of 4] show ?thesis by (simp add: PMM_BLOCK_SIZE_def)
qed

end
