(* ===== verification/Pool.thy ===== *)
theory Pool
  imports Frame_Bitmap Spinlock
begin

text \<open>
  \<open>hexahedron/misc/pool.c\<close>: chunk pools over a bitmap of \<open>uint32_t\<close> groups. The record is \<open>pool_t\<close>;
  the lock pointer is \<open>None\<close> when the pool was created with \<open>POOL_NOLOCK\<close>, which leaves it
  uninitialised, and \<open>Some\<close> the flag of the lock otherwise.
\<close>

section \<open>State and bit operations\<close>

record pool_t =
  pool_name :: string
  pool_lock :: "bool option"
  pool_bitmap :: "u32 list"
  pool_chunk_size :: u64
  pool_starting_addr :: u64
  pool_allocated :: u64
  pool_used :: u64

definition POOL_DMA :: cint where
  "POOL_DMA = 1"

definition POOL_NOLOCK :: cint where
  "POOL_NOLOCK = 2"

definition pool_ENOMEM :: cint where
  "pool_ENOMEM = 12"

definition MEM_ALIGN_PAGE :: "u64 \<Rightarrow> u64" where
  "MEM_ALIGN_PAGE a = ((a + 4096) AND NOT 0xFFF)"

text \<open>
  \<open>mem_allocateDMA\<close> and \<open>mem_sbrk\<close> belong to the virtual memory manager and are arguments here: they
  give an address for a number of bytes. The bitmap has \<open>size / chunk_size\<close> bytes, so a quarter as
  many whole elements.
\<close>

definition pool_create ::
  "(u64 \<Rightarrow> u64 outcome) \<Rightarrow> (u64 \<Rightarrow> u64 outcome) \<Rightarrow> string \<Rightarrow> u64 \<Rightarrow> u64 \<Rightarrow> u64 \<Rightarrow> cint \<Rightarrow> pool_t outcome" where
  "pool_create mem_allocateDMA mem_sbrk name chunk_size sz addr flags =
     (if chunk_size = 0 then Fault DivideByZero
      else if sz mod chunk_size \<noteq> 0 then Panic KERNEL_BAD_ARGUMENT_ERROR
      else
        and_then
          (if addr \<noteq> 0 then Done addr
           else
             let bytes = (if sz AND 0xFFF \<noteq> 0 then MEM_ALIGN_PAGE sz else sz) in
             if flags AND POOL_DMA \<noteq> 0 then mem_allocateDMA bytes else mem_sbrk bytes)
          (\<lambda>start. Done
             \<lparr>pool_name = name,
              pool_lock = (if flags AND POOL_NOLOCK = 0 then Some False else None),
              pool_bitmap = replicate (unat (sz div chunk_size) div 4) 0,
              pool_chunk_size = chunk_size,
              pool_starting_addr = start,
              pool_allocated = sz,
              pool_used = 0\<rparr>))"

definition pool_acquire :: "pool_t \<Rightarrow> pool_t outcome" where
  "pool_acquire p = (case pool_lock p of
      None \<Rightarrow> Fault BadPointer
    | Some held \<Rightarrow> and_then (lock_acquire held) (\<lambda>l. Done (p\<lparr>pool_lock := Some l\<rparr>)))"

definition pool_release :: "pool_t \<Rightarrow> pool_t outcome" where
  "pool_release p = (case pool_lock p of
      None \<Rightarrow> Fault BadPointer
    | Some held \<Rightarrow> Done (p\<lparr>pool_lock := Some (lock_release held)\<rparr>))"

definition pool_index :: "cint \<Rightarrow> nat outcome" where
  "pool_index frame = (if sint frame < 0 then Fault BadShift else Done (unat frame div 32))"

definition pool_mask :: "nat \<Rightarrow> u32" where
  "pool_mask b = push_bit b 1"

definition pool_setFrame :: "pool_t \<Rightarrow> cint \<Rightarrow> pool_t outcome" where
  "pool_setFrame p frame =
     and_then (pool_index frame) (\<lambda>i.
     and_then (array_get (pool_bitmap p) i) (\<lambda>w.
     and_then (array_set (pool_bitmap p) i (w OR pool_mask (unat frame mod 32))) (\<lambda>bm.
     Done (p\<lparr>pool_bitmap := bm\<rparr>))))"

definition pool_clearFrame :: "pool_t \<Rightarrow> cint \<Rightarrow> pool_t outcome" where
  "pool_clearFrame p frame =
     and_then (pool_index frame) (\<lambda>i.
     and_then (array_get (pool_bitmap p) i) (\<lambda>w.
     and_then (array_set (pool_bitmap p) i (w AND NOT (pool_mask (unat frame mod 32)))) (\<lambda>bm.
     Done (p\<lparr>pool_bitmap := bm\<rparr>))))"

definition pool_testFrame :: "pool_t \<Rightarrow> cint \<Rightarrow> cint outcome" where
  "pool_testFrame p frame =
     and_then (pool_index frame) (\<lambda>i.
     and_then (array_get (pool_bitmap p) i) (\<lambda>w.
     Done (w AND pool_mask (unat frame mod 32))))"

section \<open>Searching\<close>

text \<open>\<open>POOL_INDEX_BIT(pool->allocated / pool->chunk_size)\<close>, the number of groups visited.\<close>

definition pool_groups :: "pool_t \<Rightarrow> nat outcome" where
  "pool_groups p = (if pool_chunk_size p = 0 then Fault DivideByZero
                    else Done (unat (pool_allocated p div pool_chunk_size p) div 32))"

definition pool_findFirstFrame :: "pool_t \<Rightarrow> u32 outcome" where
  "pool_findFirstFrame p =
     and_then (pool_groups p) (\<lambda>groups.
     and_then
       (search (\<lambda>i. and_then (array_get (pool_bitmap p) i) (\<lambda>w.
          if w \<noteq> 0xFFFFFFFF then
            search (\<lambda>b. if w AND pool_mask b = 0
                        then Done (Some (of_nat i * 4 * 8 + of_nat b :: u32))
                        else Done None) 0 32
          else Done None)) 0 groups)
       (\<lambda>r. Done (case r of Some f \<Rightarrow> f | None \<Rightarrow> - pool_ENOMEM)))"

definition pool_findFirstFrames :: "pool_t \<Rightarrow> u64 \<Rightarrow> cint outcome" where
  "pool_findFirstFrames p n =
     (if n = 0 then Done 0
      else if n = 1 then pool_findFirstFrame p
      else
        and_then (pool_groups p) (\<lambda>groups.
        and_then
          (search (\<lambda>i. and_then (array_get (pool_bitmap p) i) (\<lambda>w.
             if w \<noteq> 0xFFFFFFFF then
               search (\<lambda>b.
                 if w AND pool_mask b = 0 then
                   and_then (check_run (pool_testFrame p) (of_nat i * 32 + of_nat b) (unat n) 0 0 (unat n))
                     (\<lambda>enough. Done (if enough then Some (of_nat i * 4 * 8 + of_nat b :: u32)
                                     else None))
                 else Done None) 0 32
             else Done None)) 0 groups)
          (\<lambda>r. Done (case r of Some f \<Rightarrow> f | None \<Rightarrow> - pool_ENOMEM))))"

section \<open>Allocation\<close>

text \<open>\<open>(uintptr_t)(frame * pool->chunk_size) + pool->starting_addr\<close>; NULL is 0.\<close>

definition chunk_address :: "pool_t \<Rightarrow> cint \<Rightarrow> u64" where
  "chunk_address p frame = scast frame * pool_chunk_size p + pool_starting_addr p"

definition pool_allocateChunk :: "pool_t \<Rightarrow> (u64 \<times> pool_t) outcome" where
  "pool_allocateChunk p0 =
     and_then (pool_acquire p0) (\<lambda>p.
     if pool_allocated p - pool_used p < pool_chunk_size p then
       and_then (pool_release p) (\<lambda>p'. Done (0, p'))
     else
       and_then (pool_findFirstFrame p) (\<lambda>frame.
       if frame = - pool_ENOMEM then and_then (pool_release p) (\<lambda>p'. Done (0, p'))
       else
         and_then (pool_setFrame p frame) (\<lambda>p1.
         and_then (pool_release (p1\<lparr>pool_used := pool_used p1 + pool_chunk_size p1\<rparr>)) (\<lambda>p'.
         Done (chunk_address p' frame, p')))))"

definition pool_freeChunk :: "pool_t \<Rightarrow> u64 \<Rightarrow> pool_t outcome" where
  "pool_freeChunk p0 chunk =
     and_then (pool_acquire p0) (\<lambda>p.
     if chunk < pool_starting_addr p \<or> chunk > pool_allocated p + pool_starting_addr p then pool_release p
     else
       let chunk_frame = chunk - pool_starting_addr p in
       if pool_chunk_size p = 0 then Fault DivideByZero
       else if chunk_frame mod pool_chunk_size p \<noteq> 0 then pool_release p
       else
         let frame = (if chunk_frame = 0 then 0 else ucast (chunk_frame div pool_chunk_size p) :: cint) in
         and_then (pool_clearFrame p frame) (\<lambda>p1.
         pool_release (p1\<lparr>pool_used := pool_used p1 - pool_chunk_size p1\<rparr>)))"

definition pool_allocateChunks :: "pool_t \<Rightarrow> u64 \<Rightarrow> (u64 \<times> pool_t) outcome" where
  "pool_allocateChunks p0 chunks =
     (if chunks = 0 then Done (0, p0)
      else if chunks = 1 then pool_allocateChunk p0
      else
        and_then (pool_acquire p0) (\<lambda>p.
        if pool_allocated p - pool_used p < pool_chunk_size p * chunks then
          and_then (pool_release p) (\<lambda>p'. Done (0, p'))
        else
          and_then (pool_findFirstFrames p chunks) (\<lambda>frame.
          if frame = - pool_ENOMEM then and_then (pool_release p) (\<lambda>p'. Done (0, p'))
          else
            and_then (frame_loop pool_setFrame p frame (unat chunks)) (\<lambda>p1.
            and_then (pool_release (p1\<lparr>pool_used := pool_used p1 + pool_chunk_size p1 * chunks\<rparr>)) (\<lambda>p'.
            Done (chunk_address p' frame, p'))))))"

definition pool_freeChunks :: "pool_t \<Rightarrow> u64 \<Rightarrow> u64 \<Rightarrow> pool_t outcome" where
  "pool_freeChunks p0 chunk_start chunks =
     (if chunks = 0 \<or> chunk_start = 0 then Done p0
      else
        and_then (pool_acquire p0) (\<lambda>p.
        if chunk_start < pool_starting_addr p \<or> chunk_start > pool_allocated p + pool_starting_addr p
        then pool_release p
        else
          let chunk_frame = chunk_start - pool_starting_addr p in
          if pool_chunk_size p = 0 then Fault DivideByZero
          else if chunk_frame mod pool_chunk_size p \<noteq> 0 then pool_release p
          else
            let frame = (if chunk_frame = 0 then 0 else ucast (chunk_frame div pool_chunk_size p) :: cint) in
            and_then (frame_loop pool_clearFrame p frame (unat chunks)) (\<lambda>p1.
            pool_release (p1\<lparr>pool_used := pool_used p1 - chunks * pool_chunk_size p1\<rparr>))))"

section \<open>The bitmap contract\<close>

definition pool_capacity :: "pool_t \<Rightarrow> nat" where
  "pool_capacity p = 32 * length (pool_bitmap p)"

definition pool_in_use :: "pool_t \<Rightarrow> nat \<Rightarrow> bool" where
  "pool_in_use p f \<longleftrightarrow> f < pool_capacity p \<and> bit (pool_bitmap p ! (f div 32)) (f mod 32)"

lemma pool_index_of_nat [simp]:
  assumes "f < 2 ^ 31"
  shows "pool_index (of_nat f) = Done (f div 32)"
proof -
  have "0 \<le> sint (of_nat f :: cint)"
    using assms by (simp add: signed_of_nat signed_take_bit_int_eq_self)
  with assms show ?thesis by (simp add: pool_index_def)
qed

lemma pool_capacity_div: "f < pool_capacity p \<longleftrightarrow> f div 32 < length (pool_bitmap p)"
  by (auto simp: pool_capacity_def)

lemma bit_pool_mask: "b < 32 \<Longrightarrow> bit (pool_mask b) n \<longleftrightarrow> n = b"
  by (auto simp: pool_mask_def bit_simps)

lemma same_group_bit:
  fixes w :: u32
  assumes "g div 32 = f div (32 :: nat)"
  shows "bit (w OR pool_mask (f mod 32)) (g mod 32) \<longleftrightarrow> g = f \<or> bit w (g mod 32)"
    "bit (w AND NOT (pool_mask (f mod 32))) (g mod 32) \<longleftrightarrow> g \<noteq> f \<and> bit w (g mod 32)"
proof -
  have "g mod 32 = f mod 32 \<longleftrightarrow> g = f" using assms by (metis div_mult_mod_eq)
  then show "bit (w OR pool_mask (f mod 32)) (g mod 32) \<longleftrightarrow> g = f \<or> bit w (g mod 32)"
    "bit (w AND NOT (pool_mask (f mod 32))) (g mod 32) \<longleftrightarrow> g \<noteq> f \<and> bit w (g mod 32)"
    by (auto simp: bit_simps bit_pool_mask)
qed

lemma pool_setFrame_Done:
  assumes "f < pool_capacity p" "f < 2 ^ 31"
  shows "pool_setFrame p (of_nat f) = Done (p\<lparr>pool_bitmap := (pool_bitmap p)
           [f div 32 := pool_bitmap p ! (f div 32) OR pool_mask (f mod 32)]\<rparr>)"
  using assms by (simp add: pool_setFrame_def pool_capacity_div)

lemma pool_clearFrame_Done:
  assumes "f < pool_capacity p" "f < 2 ^ 31"
  shows "pool_clearFrame p (of_nat f) = Done (p\<lparr>pool_bitmap := (pool_bitmap p)
           [f div 32 := pool_bitmap p ! (f div 32) AND NOT (pool_mask (f mod 32))]\<rparr>)"
  using assms by (simp add: pool_clearFrame_def pool_capacity_div)

lemma pool_in_use_update:
  assumes "f < pool_capacity p"
  shows "pool_in_use (p\<lparr>pool_bitmap := (pool_bitmap p)[f div 32 := w]\<rparr>) g \<longleftrightarrow>
         (if g div 32 = f div 32 then bit w (g mod 32) else pool_in_use p g)"
  using assms by (auto simp: pool_in_use_def pool_capacity_div nth_list_update)

lemma pool_in_use_set:
  assumes "f < pool_capacity p"
  shows "pool_in_use (p\<lparr>pool_bitmap := (pool_bitmap p)
            [f div 32 := pool_bitmap p ! (f div 32) OR pool_mask (f mod 32)]\<rparr>) g
         \<longleftrightarrow> g = f \<or> pool_in_use p g"
  unfolding pool_in_use_update [OF assms] using assms
  by (auto simp: same_group_bit pool_in_use_def pool_capacity_div)

lemma pool_in_use_clear:
  assumes "f < pool_capacity p"
  shows "pool_in_use (p\<lparr>pool_bitmap := (pool_bitmap p)
            [f div 32 := pool_bitmap p ! (f div 32) AND NOT (pool_mask (f mod 32))]\<rparr>) g
         \<longleftrightarrow> g \<noteq> f \<and> pool_in_use p g"
  unfolding pool_in_use_update [OF assms] using assms
  by (auto simp: same_group_bit pool_in_use_def pool_capacity_div)

lemma pool_bit_free_iff:
  "i < length (pool_bitmap p) \<Longrightarrow> b < 32 \<Longrightarrow>
   pool_bitmap p ! i AND pool_mask b = 0 \<longleftrightarrow> \<not> pool_in_use p (32 * i + b)"
  by (auto simp: pool_in_use_def pool_capacity_def word_zero_bits bit_and_iff bit_pool_mask)

lemma pool_testFrame_spec:
  assumes "f < pool_capacity p" "f < 2 ^ 31"
  shows "\<exists>t. pool_testFrame p (of_nat f) = Done t \<and> (t = 0 \<longleftrightarrow> \<not> pool_in_use p f)"
  using assms pool_bit_free_iff [of "f div 32" p "f mod 32"]
  by (simp add: pool_testFrame_def pool_capacity_div)

lemma pool_testFrame_beyond:
  assumes "pool_capacity p \<le> 2 ^ 31"
  shows "\<exists>e. pool_testFrame p (of_nat (pool_capacity p)) = Fault e"
proof (cases "pool_capacity p = 2 ^ 31")
  case True
  have "sint (of_nat (2 ^ 31) :: cint) < 0" by simp
  with True show ?thesis
    unfolding pool_testFrame_def pool_index_def by (simp del: of_nat_power of_nat_numeral)
next
  case False
  with assms have "pool_capacity p < 2 ^ 31" by simp
  moreover have "\<not> pool_capacity p div 32 < length (pool_bitmap p)" by (simp add: pool_capacity_def)
  ultimately show ?thesis by (simp add: pool_testFrame_def array_get_def)
qed

interpretation pool: frame_search pool_capacity pool_in_use pool_setFrame pool_clearFrame pool_testFrame
proof (unfold_locales, goal_cases)
  case (1 f s)
  then show ?case
    by (simp add: pool_setFrame_Done pool_in_use_set) (simp add: pool_capacity_def)
next
  case (2 f s)
  then show ?case
    by (simp add: pool_clearFrame_Done pool_in_use_clear) (simp add: pool_capacity_def)
next
  case (3 f s)
  then show ?case by (rule pool_testFrame_spec)
next
  case (4 s)
  then show ?case by (rule pool_testFrame_beyond)
qed

section \<open>What the searches find\<close>

text \<open>
  The pools the allocator works on: a free lock, a chunk size, an element for every group of chunks,
  chunk numbers that fit an int, and memory that does not run over the end of the address space.
\<close>

definition pool_chunks :: "pool_t \<Rightarrow> nat" where
  "pool_chunks p = unat (pool_allocated p) div unat (pool_chunk_size p)"

definition pool_limit :: "pool_t \<Rightarrow> nat" where
  "pool_limit p = 32 * (pool_chunks p div 32)"

definition pool_wf :: "pool_t \<Rightarrow> bool" where
  "pool_wf p \<longleftrightarrow> pool_lock p = Some False \<and> pool_chunk_size p \<noteq> 0 \<and>
     pool_chunks p div 32 \<le> length (pool_bitmap p) \<and> length (pool_bitmap p) \<le> 2 ^ 26 \<and>
     unat (pool_starting_addr p) + unat (pool_allocated p) < 2 ^ 64"

lemma pool_wf_limits:
  assumes "pool_wf p"
  shows "pool_limit p \<le> pool_capacity p" "pool_capacity p \<le> 2 ^ 31" "pool_limit p \<le> pool_chunks p"
  using assms by (auto simp: pool_wf_def pool_limit_def pool_capacity_def)

lemma pool_wf_groups: "pool_wf p \<Longrightarrow> pool_groups p = Done (pool_limit p div 32)"
  by (simp add: pool_groups_def pool_wf_def pool_limit_def pool_chunks_def unat_div)

lemma pool_group_search:
  assumes "i < length (pool_bitmap p)" and skip: "\<And>f. pool_in_use p f \<Longrightarrow> h f = Done None"
    and body: "\<And>b. b < 32 \<Longrightarrow> \<not> pool_in_use p (32 * i + b) \<Longrightarrow> body b = h (32 * i + b)"
  shows "and_then (array_get (pool_bitmap p) i) (\<lambda>w. if w \<noteq> 0xFFFFFFFF
           then search (\<lambda>b. if w AND pool_mask b = 0 then body b else Done None) 0 32
           else Done None) = search (\<lambda>b. h (32 * i + b)) 0 32"
proof (cases "pool_bitmap p ! i = 0xFFFFFFFF")
  case True
  have "(0xFFFFFFFF :: u32) = - 1" by simp
  with True have "pool_bitmap p ! i = - 1" by metis
  then have "pool_in_use p (32 * i + b)" if "b < 32" for b
    using that assms(1) by (simp add: pool_in_use_def pool_capacity_def)
  then have "search (\<lambda>b. h (32 * i + b)) 0 32 = Done None"
    using skip by (subst search_None_iff) simp
  with True assms(1) show ?thesis by simp
next
  case False
  have "search (\<lambda>b. if pool_bitmap p ! i AND pool_mask b = 0 then body b else Done None) 0 32 =
        search (\<lambda>b. h (32 * i + b)) 0 32"
    using assms(1) skip body by (intro search_cong) (auto simp: pool_bit_free_iff)
  with False assms(1) show ?thesis by simp
qed

lemma pool_findFirstFrame_spec:
  assumes "pool_wf p"
  shows "pool_findFirstFrame p =
           Done (if \<exists>f<pool_limit p. \<not> pool_in_use p f
                 then of_nat (LEAST f. \<not> pool_in_use p f) else - pool_ENOMEM)"
proof -
  let ?h = "\<lambda>f. Done (if \<not> pool_in_use p f then Some (of_nat f :: cint) else None)"
  have group: "and_then (array_get (pool_bitmap p) i) (\<lambda>w. if w \<noteq> 0xFFFFFFFF
      then search (\<lambda>b. if w AND pool_mask b = 0
                       then Done (Some (of_nat i * 4 * 8 + of_nat b :: u32)) else Done None) 0 32
      else Done None) = search (\<lambda>b. ?h (32 * i + b)) 0 32"
    if "i < pool_limit p div 32" for i
    using that assms by (intro pool_group_search) (auto simp: pool_wf_def pool_limit_def)
  have "search ?h 0 (pool_limit p) =
      Done (if \<exists>f<pool_limit p. \<not> pool_in_use p f
            then Some (of_nat (LEAST f. \<not> pool_in_use p f)) else None)"
    by (rule search_least) simp
  with search_group [OF group] show ?thesis
    unfolding pool_findFirstFrame_def pool_wf_groups [OF assms] by (auto simp: pool_limit_def)
qed

lemma pool_findFirstFrames_search:
  assumes "pool_wf p" "2 \<le> unat n"
  shows "pool_findFirstFrames p n =
      and_then (run_search (pool_in_use p) (pool_testFrame p) (unat n) (pool_limit p))
        (\<lambda>r. Done (case r of Some f \<Rightarrow> f | None \<Rightarrow> - pool_ENOMEM))"
proof -
  let ?h = "\<lambda>f. if pool_in_use p f then Done None
      else and_then (check_run (pool_testFrame p) (of_nat f) (unat n) 0 0 (unat n))
             (\<lambda>enough. Done (if enough then Some (of_nat f :: cint) else None))"
  have group: "and_then (array_get (pool_bitmap p) i) (\<lambda>w. if w \<noteq> 0xFFFFFFFF
      then search (\<lambda>b. if w AND pool_mask b = 0
          then and_then (check_run (pool_testFrame p) (of_nat i * 32 + of_nat b) (unat n) 0 0 (unat n))
                 (\<lambda>enough. Done (if enough then Some (of_nat i * 4 * 8 + of_nat b :: u32) else None))
          else Done None) 0 32
      else Done None) = search (\<lambda>b. ?h (32 * i + b)) 0 32"
    if "i < pool_limit p div 32" for i
    using that assms(1)
    by (intro pool_group_search) (auto simp: pool_wf_def pool_limit_def mult.commute cong: if_cong)
  have "n \<noteq> 0" "n \<noteq> 1" using assms(2) by auto
  moreover have "32 * (pool_limit p div 32) = pool_limit p" by (simp add: pool_limit_def)
  ultimately show ?thesis
    using search_group [OF group] unfolding pool_findFirstFrames_def pool_wf_groups [OF assms(1)]
    by (simp add: run_search_def)
qed


section \<open>What the bit operations leave alone\<close>

definition pool_only_bitmap :: "pool_t \<Rightarrow> pool_t \<Rightarrow> bool" where
  "pool_only_bitmap p p' \<longleftrightarrow> (\<exists>bm. p' = p\<lparr>pool_bitmap := bm\<rparr> \<and> length bm = length (pool_bitmap p))"

lemma pool_setFrame_only: "pool_setFrame p f = Done p' \<Longrightarrow> pool_only_bitmap p p'"
  by (auto simp: pool_setFrame_def outcome_iff pool_only_bitmap_def)

lemma pool_clearFrame_only: "pool_clearFrame p f = Done p' \<Longrightarrow> pool_only_bitmap p p'"
  by (auto simp: pool_clearFrame_def outcome_iff pool_only_bitmap_def)

lemma pool_loop_only:
  "frame_loop op p f n = Done p' \<Longrightarrow>
   (\<And>s g s'. op s g = Done s' \<Longrightarrow> pool_only_bitmap s s') \<Longrightarrow> pool_only_bitmap p p'"
proof (induction n arbitrary: p f)
  case 0
  then show ?case by (auto simp: pool_only_bitmap_def intro: exI [of _ "pool_bitmap p"])
next
  case (Suc n)
  from Suc.prems(1) obtain s1 where "op p f = Done s1" "frame_loop op s1 (f + 1) n = Done p'"
    by (auto simp: outcome_iff)
  with Suc.IH [of s1 "f + 1"] Suc.prems(2) [of p f s1] Suc.prems(2) show ?case
    by (fastforce simp: pool_only_bitmap_def)
qed

lemma pool_only_bitmap_fields:
  assumes "pool_only_bitmap p p'"
  shows "pool_chunk_size p' = pool_chunk_size p" "pool_starting_addr p' = pool_starting_addr p"
    "pool_allocated p' = pool_allocated p" "pool_used p' = pool_used p" "pool_lock p' = pool_lock p"
    "pool_capacity p' = pool_capacity p"
  using assms by (auto simp: pool_only_bitmap_def pool_capacity_def)

lemma pool_only_bitmap_wf:
  "pool_only_bitmap (p\<lparr>pool_lock := l\<rparr>) p' \<Longrightarrow> pool_wf p \<Longrightarrow>
   pool_wf (p'\<lparr>pool_used := u, pool_lock := Some False\<rparr>)"
  by (auto simp: pool_only_bitmap_def pool_wf_def pool_chunks_def)

lemma pool_view_update [simp]:
  "pool_in_use (p\<lparr>pool_lock := l\<rparr>) = pool_in_use p" "pool_in_use (p\<lparr>pool_used := u\<rparr>) = pool_in_use p"
  "pool_capacity (p\<lparr>pool_lock := l\<rparr>) = pool_capacity p" "pool_capacity (p\<lparr>pool_used := u\<rparr>) = pool_capacity p"
  "pool_findFirstFrame (p\<lparr>pool_lock := l\<rparr>) = pool_findFirstFrame p"
  "pool_testFrame (p\<lparr>pool_lock := l\<rparr>) = pool_testFrame p"
  "pool_findFirstFrames (p\<lparr>pool_lock := l\<rparr>) n = pool_findFirstFrames p n"
proof -
  show test: "pool_testFrame (p\<lparr>pool_lock := l\<rparr>) = pool_testFrame p"
    by (simp add: fun_eq_iff pool_testFrame_def)
  show first: "pool_findFirstFrame (p\<lparr>pool_lock := l\<rparr>) = pool_findFirstFrame p"
    by (simp add: pool_findFirstFrame_def pool_groups_def)
  show "pool_findFirstFrames (p\<lparr>pool_lock := l\<rparr>) n = pool_findFirstFrames p n"
    by (simp add: pool_findFirstFrames_def pool_groups_def test first cong: if_cong)
qed (auto simp: fun_eq_iff pool_in_use_def pool_capacity_def)

lemma pool_lock_free [simp]:
  "pool_wf p \<Longrightarrow> pool_acquire p = Done (p\<lparr>pool_lock := Some True\<rparr>)"
  "pool_wf p \<Longrightarrow> pool_release (p\<lparr>pool_lock := Some True\<rparr>) = Done p"
  "pool_lock p = Some l \<Longrightarrow> pool_release (p\<lparr>pool_used := u\<rparr>) = Done (p\<lparr>pool_used := u, pool_lock := Some False\<rparr>)"
  by (cases p; simp add: pool_wf_def pool_acquire_def pool_release_def)+

section \<open>Chunk addresses\<close>

lemma chunk_address_of_nat:
  assumes "pool_wf p" "f < pool_chunks p" "f < 2 ^ 31"
  shows "unat (chunk_address p (of_nat f)) = unat (pool_starting_addr p) + f * unat (pool_chunk_size p)"
    "(f + 1) * unat (pool_chunk_size p) \<le> unat (pool_allocated p)"
proof -
  have c: "0 < unat (pool_chunk_size p)" using assms(1) by (simp add: pool_wf_def unat_gt_0)
  have "f + 1 \<le> unat (pool_allocated p) div unat (pool_chunk_size p)"
    using assms(2) by (simp add: pool_chunks_def)
  then show le: "(f + 1) * unat (pool_chunk_size p) \<le> unat (pool_allocated p)"
    by (meson le_trans mult_le_mono1 div_times_less_eq_dividend)
  have s: "(scast (of_nat f :: cint) :: u64) = of_nat f"
    using assms(3) by (simp add: scast_eq signed_of_nat signed_take_bit_int_eq_self)
  have "unat (pool_starting_addr p) + f * unat (pool_chunk_size p) < 2 ^ 64"
    using le assms(1) by (simp add: pool_wf_def)
  moreover have "chunk_address p (of_nat f) =
      of_nat (unat (pool_starting_addr p) + f * unat (pool_chunk_size p))"
    by (simp add: chunk_address_def s add.commute)
  ultimately show "unat (chunk_address p (of_nat f)) =
      unat (pool_starting_addr p) + f * unat (pool_chunk_size p)"
    by (simp only:) (rule unat_of_nat_less, simp)
qed

lemma chunk_number:
  assumes "pool_wf p" "f < pool_chunks p" "f < 2 ^ 31"
  defines "a \<equiv> chunk_address p (of_nat f)"
  shows "\<not> a < pool_starting_addr p" "\<not> a > pool_allocated p + pool_starting_addr p"
    "(a - pool_starting_addr p) mod pool_chunk_size p = 0"
    "(if a - pool_starting_addr p = 0 then 0
      else ucast ((a - pool_starting_addr p) div pool_chunk_size p)) = (of_nat f :: cint)"
proof -
  note addr = chunk_address_of_nat [OF assms(1-3), folded a_def]
  show 1: "\<not> a < pool_starting_addr p" by (simp add: word_less_nat_alt addr(1))
  have "unat (pool_allocated p) + unat (pool_starting_addr p) < 2 ^ 64"
    using assms(1) by (simp add: pool_wf_def)
  then have "unat (pool_allocated p + pool_starting_addr p) = unat (pool_allocated p) + unat (pool_starting_addr p)"
    by (simp add: unat_add_lem [where 'a=64, simplified, THEN iffD1])
  then show "\<not> a > pool_allocated p + pool_starting_addr p"
    using addr by (simp add: word_less_nat_alt not_less)
  have d: "unat (a - pool_starting_addr p) = f * unat (pool_chunk_size p)"
    using 1 addr(1) by (simp add: unat_sub not_less)
  have c: "0 < unat (pool_chunk_size p)" using assms(1) by (simp add: pool_wf_def unat_gt_0)
  have "unat ((a - pool_starting_addr p) mod pool_chunk_size p) = 0" by (simp add: unat_mod d)
  then show "(a - pool_starting_addr p) mod pool_chunk_size p = 0" by (simp only: unat_eq_zero)
  have q: "unat ((a - pool_starting_addr p) div pool_chunk_size p) = f" using c by (simp add: unat_div d)
  show "(if a - pool_starting_addr p = 0 then 0
      else ucast ((a - pool_starting_addr p) div pool_chunk_size p)) = (of_nat f :: cint)"
  proof (cases "a - pool_starting_addr p = 0")
    case True
    with d c have "f = 0" by simp
    with True show ?thesis by simp
  next
    case False
    with q show ?thesis by (simp add: ucast_of_nat_unat)
  qed
qed


lemma pool_not_ENOMEM:
  assumes "f < 2 ^ 31"
  shows "(of_nat f :: cint) \<noteq> - pool_ENOMEM"
proof
  assume "(of_nat f :: cint) = - pool_ENOMEM"
  then have "unat (of_nat f :: cint) = unat (- pool_ENOMEM)" by simp
  with assms show False by (simp add: pool_ENOMEM_def)
qed

section \<open>Properties\<close>

text \<open>A pool of 64 chunks of 16 bytes at address 4096, for the examples.\<close>

definition pool_small :: pool_t where
  "pool_small = \<lparr>pool_name = ''usb'', pool_lock = Some False, pool_bitmap = replicate 16 0,
     pool_chunk_size = 16, pool_starting_addr = 4096, pool_allocated = 1024, pool_used = 0\<rparr>"

lemma pool_small_wf: "pool_wf pool_small"
  by (simp add: pool_small_def pool_wf_def pool_chunks_def)

lemma pool_small_view: "\<not> pool_in_use pool_small f" "pool_limit pool_small = 64"
    "pool_chunk_size pool_small = 16" "pool_allocated pool_small = 1024" "pool_used pool_small = 0"
    "pool_starting_addr pool_small = 4096" "pool_capacity pool_small = 512"
  by (auto simp: pool_small_def pool_in_use_def pool_capacity_def pool_limit_def pool_chunks_def)

text \<open>
  \<open>pool_allocateChunk\<close> returns NULL and leaves the pool as it was when fewer than one chunk is
  counted free or every chunk of the whole groups is taken; otherwise it returns the address of the
  lowest free chunk, whose bytes lie inside the pool, marks that chunk alone and counts its bytes.
\<close>

lemma pool_allocateChunk_spec:
  assumes wf: "pool_wf p"
  shows "if pool_allocated p - pool_used p < pool_chunk_size p \<or> (\<forall>f<pool_limit p. pool_in_use p f)
         then pool_allocateChunk p = Done (0, p)
         else \<exists>f a p'. f < pool_limit p \<and> \<not> pool_in_use p f \<and> (\<forall>g<f. pool_in_use p g) \<and>
                pool_allocateChunk p = Done (a, p') \<and>
                unat a = unat (pool_starting_addr p) + f * unat (pool_chunk_size p) \<and>
                unat a + unat (pool_chunk_size p) \<le> unat (pool_starting_addr p) + unat (pool_allocated p) \<and>
                (\<forall>g. pool_in_use p' g \<longleftrightarrow> g = f \<or> pool_in_use p g) \<and>
                pool_used p' = pool_used p + pool_chunk_size p \<and> pool_wf p'"
proof (cases "pool_allocated p - pool_used p < pool_chunk_size p \<or> (\<forall>f<pool_limit p. pool_in_use p f)")
  case True
  with wf pool_findFirstFrame_spec [OF wf] show ?thesis by (auto simp: pool_allocateChunk_def)
next
  case False
  then have avail: "\<not> pool_allocated p - pool_used p < pool_chunk_size p"
    and free: "\<exists>f<pool_limit p. \<not> pool_in_use p f" by blast+
  define f where "f = (LEAST f. \<not> pool_in_use p f)"
  note least = least_free_below [OF free, folded f_def] and lim = pool_wf_limits [OF wf]
  have first: "\<forall>g<f. pool_in_use p g" unfolding f_def by (metis not_less_Least)
  have f: "f < pool_capacity p" "f < 2 ^ 31" "f < pool_chunks p" using least(1) lim by auto
  obtain p1 where p1: "pool_setFrame (p\<lparr>pool_lock := Some True\<rparr>) (of_nat f) = Done p1"
    "\<forall>g. pool_in_use p1 g \<longleftrightarrow> g = f \<or> pool_in_use p g"
    using pool.set_frame [of f "p\<lparr>pool_lock := Some True\<rparr>"] f by auto
  note only = pool_setFrame_only [OF p1(1)]
  let ?p' = "p1\<lparr>pool_used := pool_used p + pool_chunk_size p, pool_lock := Some False\<rparr>"
  have "chunk_address ?p' (of_nat f) = chunk_address p (of_nat f)"
    using pool_only_bitmap_fields [OF only] by (simp add: chunk_address_def)
  moreover have "pool_findFirstFrame p = Done (of_nat f)"
    using pool_findFirstFrame_spec [OF wf] free by (simp add: f_def)
  ultimately have "pool_allocateChunk p = Done (chunk_address p (of_nat f), ?p')"
    using wf avail p1(1) pool_not_ENOMEM [OF f(2)] pool_only_bitmap_fields [OF only]
    by (simp add: pool_allocateChunk_def)
  with p1(2) least first chunk_address_of_nat [OF wf f(3,2)] pool_only_bitmap_wf [OF only wf]
  have "\<exists>f a p'. f < pool_limit p \<and> \<not> pool_in_use p f \<and> (\<forall>g<f. pool_in_use p g) \<and>
      pool_allocateChunk p = Done (a, p') \<and>
      unat a = unat (pool_starting_addr p) + f * unat (pool_chunk_size p) \<and>
      unat a + unat (pool_chunk_size p) \<le> unat (pool_starting_addr p) + unat (pool_allocated p) \<and>
      (\<forall>g. pool_in_use p' g \<longleftrightarrow> g = f \<or> pool_in_use p g) \<and>
      pool_used p' = pool_used p + pool_chunk_size p \<and> pool_wf p'"
    by (intro exI [of _ f] exI [of _ "chunk_address p (of_nat f)"] exI [of _ ?p']) simp
  with False show ?thesis by (simp only: if_False)
qed

text \<open>
  Releasing what was just obtained restores the pool: \<open>pool_freeChunks\<close> on the address and count
  of a successful \<open>pool_allocateChunks\<close> of two or more chunks gives back the same chunks in use and
  the same number of used bytes.
\<close>

lemma pool_chunks_round_trip:
  assumes wf: "pool_wf p" and n: "2 \<le> unat n"
    and alloc: "pool_allocateChunks p n = Done (a, p')" "a \<noteq> 0"
  shows "\<exists>p''. pool_freeChunks p' a n = Done p'' \<and> pool_in_use p'' = pool_in_use p \<and>
           pool_used p'' = pool_used p \<and> pool_wf p''"
proof -
  note lim = pool_wf_limits [OF wf]
  have n01: "n \<noteq> 0" "n \<noteq> 1" using n by auto
  from alloc wf n01 obtain r where r: "pool_findFirstFrames p n = Done r" "r \<noteq> - pool_ENOMEM"
    by (auto simp: pool_allocateChunks_def outcome_iff split: if_splits)
  then have found: "run_search (pool_in_use p) (pool_testFrame p) (unat n) (pool_limit p) = Done (Some r)"
    by (auto simp: pool_findFirstFrames_search [OF wf n] outcome_iff split: option.splits)
  have "0 < unat n" using n by simp
  from pool.run_search_Some [OF lim(1,2) this found] obtain f where f: "f < pool_limit p" "r = of_nat f"
    "f + unat n \<le> pool_capacity p" "free_run (pool_in_use p) f (unat n)" by blast
  have f2: "f < pool_chunks p" "f < 2 ^ 31" using f lim by auto
  obtain p1 where p1: "frame_loop pool_setFrame (p\<lparr>pool_lock := Some True\<rparr>) (of_nat f) (unat n) = Done p1"
    "\<forall>g. pool_in_use p1 g \<longleftrightarrow> f \<le> g \<and> g < f + unat n \<or> pool_in_use p g"
    using pool.set_run [of f "unat n" "p\<lparr>pool_lock := Some True\<rparr>"] f lim by auto
  have only: "pool_only_bitmap (p\<lparr>pool_lock := Some True\<rparr>) p1"
    using pool_loop_only [OF p1(1)] pool_setFrame_only by blast
  note fields = pool_only_bitmap_fields [OF only]
  from alloc wf n01 r f(2) p1(1) fields
  have p': "p' = p1\<lparr>pool_used := pool_used p + pool_chunk_size p * n, pool_lock := Some False\<rparr>"
    and a: "a = chunk_address p' (of_nat f)"
    by (auto simp: pool_allocateChunks_def split: if_splits)
  have wf': "pool_wf p'" using pool_only_bitmap_wf [OF only wf] by (simp add: p')
  have "pool_chunks p' = pool_chunks p" "pool_capacity p' = pool_capacity p"
    using fields by (simp_all add: p' pool_chunks_def)
  note num = chunk_number [OF wf', of f, folded a] and cap' = this
  obtain p2 where p2: "frame_loop pool_clearFrame (p'\<lparr>pool_lock := Some True\<rparr>) (of_nat f) (unat n) = Done p2"
    "\<forall>g. pool_in_use p2 g \<longleftrightarrow> \<not> (f \<le> g \<and> g < f + unat n) \<and> pool_in_use p' g"
    using pool.clear_run [of f "unat n" "p'\<lparr>pool_lock := Some True\<rparr>"] f lim cap' by auto
  have only2: "pool_only_bitmap (p'\<lparr>pool_lock := Some True\<rparr>) p2"
    using pool_loop_only [OF p2(1)] pool_clearFrame_only by blast
  note fields2 = pool_only_bitmap_fields [OF only2]
  have c: "pool_chunk_size p' \<noteq> 0" using wf' by (simp add: pool_wf_def)
  have "pool_freeChunks p' a n =
      Done (p2\<lparr>pool_used := pool_used p' - n * pool_chunk_size p', pool_lock := Some False\<rparr>)"
    using num f2 cap' wf' n01 alloc(2) p2(1) fields2 c
    unfolding pool_freeChunks_def by (cases "a = pool_starting_addr p'") (simp_all add: Let_def)
  moreover have "pool_in_use p2 g \<longleftrightarrow> pool_in_use p g" for g
  proof -
    have "f \<le> g \<and> g < f + unat n \<Longrightarrow> \<not> pool_in_use p g"
      using f(4) unfolding free_run_def by (metis le_add_diff_inverse nat_add_left_cancel_less)
    moreover have "pool_in_use p' g = pool_in_use p1 g" by (simp add: p')
    ultimately show ?thesis using spec [OF p1(2), of g] spec [OF p2(2), of g] by blast
  qed
  moreover have "pool_used p' - n * pool_chunk_size p' = pool_used p" using fields by (simp add: p')
  ultimately show ?thesis using pool_only_bitmap_wf [OF only2 wf'] by (simp add: fun_eq_iff)
qed


end
