(* ===== verification/Semaphore.thy ===== *)
theory Semaphore
  imports Spinlock
begin

text \<open>
  \<open>hexahedron/misc/semaphore.c\<close>: counting semaphores. There is no thread to block: a wait on an empty
  semaphore and a signal on a full one panic.
\<close>

section \<open>Operations\<close>

record semaphore_t =
  sem_lock :: bool
  sem_name :: string
  sem_value :: cint
  sem_max_value :: cint

definition semaphore_create :: "string \<Rightarrow> cint \<Rightarrow> cint \<Rightarrow> semaphore_t" where
  "semaphore_create name v max_v = \<lparr>sem_lock = False, sem_name = name, sem_value = v, sem_max_value = max_v\<rparr>"

definition semaphore_wait :: "semaphore_t \<Rightarrow> cint \<Rightarrow> (cint \<times> semaphore_t) outcome" where
  "semaphore_wait s items =
     and_then (lock_acquire (sem_lock s)) (\<lambda>l.
     if sint (sem_value s) > 0 then
       let items_taken = (if sint (sem_value s) > sint items then items else sem_value s) in
       Done (items_taken, s\<lparr>sem_value := sem_value s - items_taken, sem_lock := lock_release l\<rparr>)
     else Panic KERNEL_BAD_ARGUMENT_ERROR)"

definition semaphore_signal :: "semaphore_t \<Rightarrow> cint \<Rightarrow> (cint \<times> semaphore_t) outcome" where
  "semaphore_signal s items =
     and_then (lock_acquire (sem_lock s)) (\<lambda>l.
     if sem_max_value s \<noteq> 0 \<and> sint (sem_value s) \<ge> sint (sem_max_value s) then Panic KERNEL_BAD_ARGUMENT_ERROR
     else
       let items_added = (if sint (sem_value s + items) > sint (sem_max_value s)
                          then sem_max_value s - sem_value s else items) in
       Done (items_added, s\<lparr>sem_value := sem_value s + items_added, sem_lock := lock_release l\<rparr>))"

definition semaphore_getItems :: "semaphore_t \<Rightarrow> cint" where
  "semaphore_getItems s = sem_value s"

section \<open>Invariant\<close>

text \<open>A semaphore in use: unlocked, with a positive maximum and a value between 0 and it.\<close>

definition sem_wf :: "semaphore_t \<Rightarrow> bool" where
  "sem_wf s \<longleftrightarrow> \<not> sem_lock s \<and> 0 \<le> sint (sem_value s) \<and> sint (sem_value s) \<le> sint (sem_max_value s) \<and>
     0 < sint (sem_max_value s)"

lemma sint_range_32: "- (2 ^ 31) \<le> sint (w :: cint)" "sint (w :: cint) < 2 ^ 31"
  using sint_greater_eq [of w] sint_less [of w] by simp_all

lemma sint_add_in:
  "- (2 ^ 31) \<le> sint a + sint b \<Longrightarrow> sint a + sint b < 2 ^ 31 \<Longrightarrow> sint (a + b :: cint) = sint a + sint b"
  by (simp add: sint_word_ariths signed_take_bit_int_eq_self)

lemma sint_sub_in:
  "- (2 ^ 31) \<le> sint a - sint b \<Longrightarrow> sint a - sint b < 2 ^ 31 \<Longrightarrow> sint (a - b :: cint) = sint a - sint b"
  by (simp add: sint_word_ariths signed_take_bit_int_eq_self)

lemma semaphore_wait_spec:
  assumes "sem_wf s" "0 \<le> sint items"
  shows "if sint (sem_value s) = 0 then semaphore_wait s items = Panic KERNEL_BAD_ARGUMENT_ERROR
         else \<exists>k s'. semaphore_wait s items = Done (k, s') \<and> sint k = min (sint items) (sint (sem_value s)) \<and>
                sint (sem_value s') = sint (sem_value s) - sint k \<and> sem_max_value s' = sem_max_value s \<and> sem_wf s'"
proof (cases "sint (sem_value s) = 0")
  case True
  with assms show ?thesis by (simp add: semaphore_wait_def sem_wf_def)
next
  case False
  define k where "k = (if sint (sem_value s) > sint items then items else sem_value s)"
  have k: "sint k = min (sint items) (sint (sem_value s))" by (simp add: k_def)
  have "sint (sem_value s - k) = sint (sem_value s) - sint k"
    using assms sint_range_32 [of "sem_value s"] k by (intro sint_sub_in) (auto simp: sem_wf_def)
  with False assms k show ?thesis
    by (auto simp: semaphore_wait_def sem_wf_def Let_def k_def [symmetric])
qed

lemma semaphore_signal_spec:
  assumes "sem_wf s" "0 \<le> sint items" "sint (sem_value s) + sint items < 2 ^ 31"
  shows "if sem_value s = sem_max_value s then semaphore_signal s items = Panic KERNEL_BAD_ARGUMENT_ERROR
         else \<exists>k s'. semaphore_signal s items = Done (k, s') \<and>
                sint k = min (sint items) (sint (sem_max_value s) - sint (sem_value s)) \<and>
                sint (sem_value s') = sint (sem_value s) + sint k \<and> sem_max_value s' = sem_max_value s \<and> sem_wf s'"
proof (cases "sem_value s = sem_max_value s")
  case True
  moreover have "sem_max_value s \<noteq> 0" using assms(1) by (auto simp: sem_wf_def)
  ultimately show ?thesis using assms by (simp add: semaphore_signal_def sem_wf_def)
next
  case False
  then have lt: "sint (sem_value s) < sint (sem_max_value s)"
    using assms(1) signed_word_eqI [of "sem_value s" "sem_max_value s"] by (auto simp: sem_wf_def order_less_le)
  define k where "k = (if sint (sem_value s + items) > sint (sem_max_value s)
                       then sem_max_value s - sem_value s else items)"
  have "sint (sem_value s + items) = sint (sem_value s) + sint items"
    using assms by (intro sint_add_in) (auto simp: sem_wf_def)
  moreover have "sint (sem_max_value s - sem_value s) = sint (sem_max_value s) - sint (sem_value s)"
    using assms lt sint_range_32 [of "sem_max_value s"] by (intro sint_sub_in) (auto simp: sem_wf_def)
  ultimately have k: "sint k = min (sint items) (sint (sem_max_value s) - sint (sem_value s))"
    by (auto simp: k_def)
  have "sint (sem_value s + k) = sint (sem_value s) + sint k"
    using assms k lt by (intro sint_add_in) (auto simp: sem_wf_def)
  with False lt assms k show ?thesis
    by (auto simp: semaphore_signal_def sem_wf_def Let_def k_def [symmetric])
qed

section \<open>Properties\<close>

datatype sem_op = Wait cint | Signal cint

text \<open>One call, with the signed change of the value it reports.\<close>

fun sem_call :: "semaphore_t \<Rightarrow> sem_op \<Rightarrow> (int \<times> semaphore_t) outcome" where
  "sem_call s (Wait n) = and_then (semaphore_wait s n) (\<lambda>(k, s'). Done (- sint k, s'))"
| "sem_call s (Signal n) = and_then (semaphore_signal s n) (\<lambda>(k, s'). Done (sint k, s'))"

fun sem_run :: "semaphore_t \<Rightarrow> sem_op list \<Rightarrow> (int \<times> semaphore_t) outcome" where
  "sem_run s [] = Done (0, s)"
| "sem_run s (c # cs) = and_then (sem_call s c) (\<lambda>(d, s1). and_then (sem_run s1 cs) (\<lambda>(ds, s2). Done (d + ds, s2)))"

fun sem_amount :: "sem_op \<Rightarrow> cint" where
  "sem_amount (Wait n) = n"
| "sem_amount (Signal n) = n"

lemma sem_call_ok:
  assumes "sem_wf s" "0 \<le> sint (sem_amount c)" "sint (sem_max_value s) + sint (sem_amount c) < 2 ^ 31"
    "sem_call s c = Done (d, s')"
  shows "sem_wf s' \<and> sint (sem_value s') = sint (sem_value s) + d \<and> sem_max_value s' = sem_max_value s"
proof (cases c)
  case (Wait n)
  with semaphore_wait_spec [OF assms(1), of n] assms show ?thesis by (auto split: if_splits)
next
  case (Signal n)
  have "sint (sem_value s) + sint n < 2 ^ 31" using assms Signal by (auto simp: sem_wf_def)
  with semaphore_signal_spec [OF assms(1), of n] assms Signal show ?thesis by (auto split: if_splits)
qed

text \<open>
  C16: Over any sequence of waits and signals that returns, the value stays between 0 and the maximum
  and is the initial value plus everything the signals report as added less everything the waits
  report as taken.
\<close>

theorem semaphore_conservation:
  assumes "sem_wf s" "sem_run s cs = Done (d, s')"
    "list_all (\<lambda>c. 0 \<le> sint (sem_amount c) \<and> sint (sem_max_value s) + sint (sem_amount c) < 2 ^ 31) cs"
  shows "sem_wf s' \<and> sint (semaphore_getItems s') = sint (semaphore_getItems s) + d"
  using assms
proof (induction cs arbitrary: s d)
  case Nil
  then show ?case by simp
next
  case (Cons c cs)
  from Cons.prems(2) obtain d1 s1 d2 where r: "sem_call s c = Done (d1, s1)" "sem_run s1 cs = Done (d2, s')" "d = d1 + d2"
    by (auto simp: outcome_iff)
  have c: "sem_wf s1 \<and> sint (sem_value s1) = sint (sem_value s) + d1 \<and> sem_max_value s1 = sem_max_value s"
    using Cons.prems r(1) by (intro sem_call_ok) auto
  with Cons.IH [of s1 d2] Cons.prems r show ?case by (simp add: semaphore_getItems_def)
qed

theorem semaphore_conservation_witness:
  "\<exists>d s'. sem_run (semaphore_create ''sem'' 2 5) [Wait 1, Signal 9] = Done (d, s') \<and>
     sint (semaphore_getItems s') = 2 + d \<and> sem_wf s'"
proof -
  let ?s = "semaphore_create ''sem'' 2 5"
  have wf: "sem_wf ?s" by (simp add: sem_wf_def semaphore_create_def)
  obtain d s' where r: "sem_run ?s [Wait 1, Signal 9] = Done (d, s')"
    by (simp add: semaphore_wait_def semaphore_signal_def semaphore_create_def Let_def)
  have "list_all (\<lambda>c. 0 \<le> sint (sem_amount c) \<and> sint (sem_max_value ?s) + sint (sem_amount c) < 2 ^ 31) [Wait 1, Signal 9]"
    by (simp add: semaphore_create_def)
  from semaphore_conservation [OF wf r this] r show ?thesis
    by (auto simp: semaphore_create_def semaphore_getItems_def)
qed

end
