(* ===== verification/KList.thy ===== *)
theory KList
  imports Prelude
begin

text \<open>
  \<open>libkstructures/list/list.c\<close>: the doubly linked list of the kernel, on an explicit heap because its
  clients keep node pointers and move nodes between lists. \<open>lh_brk\<close> is the next address \<open>kmalloc\<close>
  returns and \<open>lh_junk\<close> what the memory there holds before anyone writes it; \<open>kfree\<close> of a node or a
  list takes it out of its map, and of a value adds it to the log \<open>lh_freed\<close>.
\<close>

section \<open>Heap\<close>

record node_t =
  nd_next :: addr
  nd_prev :: addr
  nd_value :: addr
  nd_owner :: addr

record list_t =
  lst_name :: string
  lst_head :: addr
  lst_tail :: addr
  lst_length :: u64

record list_heap =
  lh_nodes :: "addr \<rightharpoonup> node_t"
  lh_lists :: "addr \<rightharpoonup> list_t"
  lh_brk :: addr
  lh_junk :: "addr \<Rightarrow> node_t"
  lh_freed :: "addr list"

definition node_at :: "list_heap \<Rightarrow> addr \<Rightarrow> node_t outcome" where
  "node_at h a = (if a = NULL then Fault BadPointer
                  else case lh_nodes h a of Some n \<Rightarrow> Done n | None \<Rightarrow> Fault BadPointer)"

definition list_at :: "list_heap \<Rightarrow> addr \<Rightarrow> list_t outcome" where
  "list_at h l = (if l = NULL then Fault BadPointer
                  else case lh_lists h l of Some x \<Rightarrow> Done x | None \<Rightarrow> Fault BadPointer)"

definition set_node :: "list_heap \<Rightarrow> addr \<Rightarrow> (node_t \<Rightarrow> node_t) \<Rightarrow> list_heap outcome" where
  "set_node h a f = and_then (node_at h a) (\<lambda>n. Done (h\<lparr>lh_nodes := (lh_nodes h)(a \<mapsto> f n)\<rparr>))"

definition set_list :: "list_heap \<Rightarrow> addr \<Rightarrow> (list_t \<Rightarrow> list_t) \<Rightarrow> list_heap outcome" where
  "set_list h l f = and_then (list_at h l) (\<lambda>x. Done (h\<lparr>lh_lists := (lh_lists h)(l \<mapsto> f x)\<rparr>))"

definition kmalloc_node :: "list_heap \<Rightarrow> addr \<times> list_heap" where
  "kmalloc_node h = (lh_brk h, h\<lparr>lh_brk := lh_brk h + 1,
                                 lh_nodes := (lh_nodes h)(lh_brk h \<mapsto> lh_junk h (lh_brk h))\<rparr>)"

definition kfree_node :: "list_heap \<Rightarrow> addr \<Rightarrow> list_heap outcome" where
  "kfree_node h a = and_then (node_at h a) (\<lambda>_. Done (h\<lparr>lh_nodes := (lh_nodes h)(a := None)\<rparr>))"

section \<open>Operations\<close>

definition list_create :: "list_heap \<Rightarrow> string \<Rightarrow> addr \<times> list_heap" where
  "list_create h name = (lh_brk h, h\<lparr>lh_brk := lh_brk h + 1,
     lh_lists := (lh_lists h)(lh_brk h \<mapsto> \<lparr>lst_name = name, lst_head = NULL, lst_tail = NULL, lst_length = 0\<rparr>)\<rparr>)"

text \<open>
  Loops along \<open>next\<close> get as much fuel as there are addresses in use: a walk that takes more steps has
  come back to a node and never ends.
\<close>

primrec list_destroy_nodes :: "nat \<Rightarrow> list_heap \<Rightarrow> bool \<Rightarrow> addr \<Rightarrow> list_heap outcome" where
  "list_destroy_nodes 0 h free_values node = (if node = NULL then Done h else Hang)"
| "list_destroy_nodes (Suc fuel) h free_values node =
     (if node = NULL then Done h
      else
        and_then (node_at h node) (\<lambda>n.
        let h1 = (if free_values then h\<lparr>lh_freed := lh_freed h @ [nd_value n]\<rparr> else h) in
        and_then (kfree_node h1 node) (\<lambda>h2.
        list_destroy_nodes fuel h2 free_values (nd_next n))))"

definition list_destroy :: "list_heap \<Rightarrow> addr \<Rightarrow> bool \<Rightarrow> list_heap outcome" where
  "list_destroy h l free_values =
     (if l = NULL then Done h
      else
        and_then (list_at h l) (\<lambda>x.
        and_then (list_destroy_nodes (lh_brk h) h free_values (lst_head x)) (\<lambda>h'.
        Done (h'\<lparr>lh_lists := (lh_lists h')(l := None)\<rparr>))))"

definition list_append_node :: "list_heap \<Rightarrow> addr \<Rightarrow> addr \<Rightarrow> list_heap outcome" where
  "list_append_node h l node =
     and_then (set_node h node (\<lambda>n. n\<lparr>nd_owner := l\<rparr>)) (\<lambda>h1.
     and_then (list_at h1 l) (\<lambda>x.
     and_then
       (if lst_tail x \<noteq> NULL then
          and_then (set_node h1 (lst_tail x) (\<lambda>n. n\<lparr>nd_next := node\<rparr>)) (\<lambda>h2.
          set_node h2 node (\<lambda>n. n\<lparr>nd_prev := lst_tail x, nd_next := NULL\<rparr>))
        else
          and_then (set_node h1 node (\<lambda>n. n\<lparr>nd_next := NULL, nd_prev := NULL\<rparr>)) (\<lambda>h2.
          set_list h2 l (\<lambda>x. x\<lparr>lst_head := node\<rparr>)))
       (\<lambda>h3. set_list h3 l (\<lambda>x. x\<lparr>lst_tail := node, lst_length := lst_length x + 1\<rparr>))))"

definition list_append :: "list_heap \<Rightarrow> addr \<Rightarrow> addr \<Rightarrow> list_heap outcome" where
  "list_append h l item =
     (let (node, h1) = kmalloc_node h in
      and_then (set_node h1 node (\<lambda>n. n\<lparr>nd_value := item\<rparr>)) (\<lambda>h2. list_append_node h2 l node))"

definition list_append_node_after :: "list_heap \<Rightarrow> addr \<Rightarrow> addr \<Rightarrow> addr \<Rightarrow> list_heap outcome" where
  "list_append_node_after h l append_to node =
     and_then (set_node h node (\<lambda>n. n\<lparr>nd_owner := l\<rparr>)) (\<lambda>h1.
     and_then (list_at h1 l) (\<lambda>x.
     if append_to = NULL then
       and_then (set_node h1 node (\<lambda>n. n\<lparr>nd_next := lst_head x\<rparr>)) (\<lambda>h2.
       and_then (set_node h2 (lst_head x) (\<lambda>n. n\<lparr>nd_prev := node\<rparr>)) (\<lambda>h3.
       set_list h3 l (\<lambda>x. x\<lparr>lst_head := node, lst_length := lst_length x + 1\<rparr>)))
     else
       and_then
         (if append_to = lst_tail x then set_list h1 l (\<lambda>x. x\<lparr>lst_tail := node\<rparr>)
          else
            and_then (node_at h1 append_to) (\<lambda>at.
            and_then (set_node h1 (nd_next at) (\<lambda>n. n\<lparr>nd_prev := node\<rparr>)) (\<lambda>h2.
            and_then (node_at h2 append_to) (\<lambda>at2.
            set_node h2 node (\<lambda>n. n\<lparr>nd_next := nd_next at2\<rparr>)))))
         (\<lambda>h3.
            and_then (set_node h3 node (\<lambda>n. n\<lparr>nd_prev := append_to\<rparr>)) (\<lambda>h4.
            and_then (set_node h4 append_to (\<lambda>n. n\<lparr>nd_next := node\<rparr>)) (\<lambda>h5.
            set_list h5 l (\<lambda>x. x\<lparr>lst_length := lst_length x + 1\<rparr>))))))"

definition list_append_after :: "list_heap \<Rightarrow> addr \<Rightarrow> addr \<Rightarrow> addr \<Rightarrow> list_heap outcome" where
  "list_append_after h l append_to item =
     (let (node, h1) = kmalloc_node h in
      and_then (set_node h1 node (\<lambda>n. n\<lparr>nd_value := item\<rparr>)) (\<lambda>h2.
      list_append_node_after h2 l append_to node))"

definition list_append_node_before :: "list_heap \<Rightarrow> addr \<Rightarrow> addr \<Rightarrow> addr \<Rightarrow> list_heap outcome" where
  "list_append_node_before h l append_before node =
     and_then (set_node h node (\<lambda>n. n\<lparr>nd_owner := l\<rparr>)) (\<lambda>h1.
     and_then (list_at h1 l) (\<lambda>x.
     if append_before = NULL then
       and_then (set_node h1 node (\<lambda>n. n\<lparr>nd_next := NULL, nd_prev := lst_tail x\<rparr>)) (\<lambda>h2.
       and_then (set_node h2 (lst_tail x) (\<lambda>n. n\<lparr>nd_next := node\<rparr>)) (\<lambda>h3.
       set_list h3 l (\<lambda>x. x\<lparr>lst_tail := node, lst_length := lst_length x + 1\<rparr>)))
     else
       and_then
         (if append_before = lst_head x then set_list h1 l (\<lambda>x. x\<lparr>lst_head := node\<rparr>)
          else
            and_then (node_at h1 append_before) (\<lambda>at.
            and_then (set_node h1 (nd_prev at) (\<lambda>n. n\<lparr>nd_next := node\<rparr>)) (\<lambda>h2.
            and_then (node_at h2 append_before) (\<lambda>at2.
            set_node h2 node (\<lambda>n. n\<lparr>nd_prev := nd_prev at2\<rparr>)))))
         (\<lambda>h3.
            and_then (set_node h3 node (\<lambda>n. n\<lparr>nd_next := append_before\<rparr>)) (\<lambda>h4.
            and_then (set_node h4 append_before (\<lambda>n. n\<lparr>nd_prev := node\<rparr>)) (\<lambda>h5.
            set_list h5 l (\<lambda>x. x\<lparr>lst_length := lst_length x + 1\<rparr>))))))"

definition list_append_before :: "list_heap \<Rightarrow> addr \<Rightarrow> addr \<Rightarrow> addr \<Rightarrow> list_heap outcome" where
  "list_append_before h l append_before item =
     (let (node, h1) = kmalloc_node h in
      and_then (set_node h1 node (\<lambda>n. n\<lparr>nd_value := item\<rparr>)) (\<lambda>h2.
      list_append_node_before h2 l append_before node))"

primrec list_find_node :: "nat \<Rightarrow> list_heap \<Rightarrow> addr \<Rightarrow> addr \<Rightarrow> addr outcome" where
  "list_find_node 0 h item node = (if node = NULL then Done NULL else Hang)"
| "list_find_node (Suc fuel) h item node =
     (if node = NULL then Done NULL
      else and_then (node_at h node) (\<lambda>n.
           if nd_value n = item then Done node else list_find_node fuel h item (nd_next n)))"

definition list_find :: "list_heap \<Rightarrow> addr \<Rightarrow> addr \<Rightarrow> addr outcome" where
  "list_find h l item = and_then (list_at h l) (\<lambda>x. list_find_node (lh_brk h) h item (lst_head x))"

text \<open>Each statement reads the fields again, as the code does.\<close>

definition list_delete :: "list_heap \<Rightarrow> addr \<Rightarrow> addr \<Rightarrow> list_heap outcome" where
  "list_delete h l node =
     and_then (list_at h l) (\<lambda>x.
     and_then (if node = lst_head x
               then and_then (node_at h node) (\<lambda>n. set_list h l (\<lambda>x. x\<lparr>lst_head := nd_next n\<rparr>))
               else Done h) (\<lambda>h1.
     and_then (if node = lst_tail x
               then and_then (node_at h1 node) (\<lambda>n. set_list h1 l (\<lambda>x. x\<lparr>lst_tail := nd_prev n\<rparr>))
               else Done h1) (\<lambda>h2.
     and_then (node_at h2 node) (\<lambda>n.
     and_then (if nd_next n \<noteq> NULL then set_node h2 (nd_next n) (\<lambda>m. m\<lparr>nd_prev := nd_prev n\<rparr>)
               else Done h2) (\<lambda>h3.
     and_then (node_at h3 node) (\<lambda>n3.
     and_then (if nd_prev n3 \<noteq> NULL then set_node h3 (nd_prev n3) (\<lambda>m. m\<lparr>nd_next := nd_next n3\<rparr>)
               else Done h3) (\<lambda>h4.
     and_then (set_node h4 node (\<lambda>n. n\<lparr>nd_prev := NULL, nd_next := NULL, nd_owner := NULL\<rparr>)) (\<lambda>h5.
     set_list h5 l (\<lambda>x. x\<lparr>lst_length := lst_length x - 1\<rparr>)))))))))"

text \<open>\<^verbatim>\<open>while (node && i < index) { node = node->next; i++; }\<close>; the result is \<open>node\<close> and \<open>i\<close>.\<close>

primrec list_seek :: "nat \<Rightarrow> list_heap \<Rightarrow> addr \<Rightarrow> nat \<Rightarrow> (addr \<times> nat) outcome" where
  "list_seek 0 h node i = Done (node, i)"
| "list_seek (Suc left) h node i =
     (if node = NULL then Done (node, i)
      else and_then (node_at h node) (\<lambda>n. list_seek left h (nd_next n) (i + 1)))"

definition list_delete_index :: "list_heap \<Rightarrow> addr \<Rightarrow> u64 \<Rightarrow> list_heap outcome" where
  "list_delete_index h l index =
     and_then (list_at h l) (\<lambda>x.
     if index > lst_length x then Done h
     else
       and_then (list_seek (unat index) h (lst_head x) 0) (\<lambda>(node, i).
       if i = unat index then list_delete h l node else Done h))"

definition list_pop :: "list_heap \<Rightarrow> addr \<Rightarrow> (addr \<times> list_heap) outcome" where
  "list_pop h l =
     (if l = NULL then Done (NULL, h)
      else
        and_then (list_at h l) (\<lambda>x.
        if lst_tail x = NULL then Done (NULL, h)
        else and_then (list_delete h l (lst_tail x)) (\<lambda>h'. Done (lst_tail x, h'))))"

definition list_popleft :: "list_heap \<Rightarrow> addr \<Rightarrow> (addr \<times> list_heap) outcome" where
  "list_popleft h l =
     (if l = NULL then Done (NULL, h)
      else
        and_then (list_at h l) (\<lambda>x.
        if lst_head x = NULL then Done (NULL, h)
        else and_then (list_delete h l (lst_head x)) (\<lambda>h'. Done (lst_head x, h'))))"

section \<open>Abstraction\<close>

definition first_of :: "addr list \<Rightarrow> addr \<Rightarrow> addr" where
  "first_of xs n = (case xs of [] \<Rightarrow> n | a # _ \<Rightarrow> a)"

definition last_of :: "addr \<Rightarrow> addr list \<Rightarrow> addr" where
  "last_of p xs = (if xs = [] then p else last xs)"

lemma first_of_simps [simp]: "first_of [] n = n" "first_of (a # xs) n = a"
  "first_of (xs @ ys) n = first_of xs (first_of ys n)"
  by (auto simp: first_of_def split: list.splits)

lemma last_of_simps [simp]: "last_of p [] = p" "last_of p (a # xs) = last_of a xs"
  "last_of p (xs @ ys) = last_of (last_of p xs) ys"
  by (auto simp: last_of_def)

text \<open>
  \<open>dseg m own p xs n\<close>: the nodes \<open>xs\<close> are linked in both directions in \<open>m\<close>, the first one's \<open>prev\<close> is
  \<open>p\<close>, the last one's \<open>next\<close> is \<open>n\<close>, and all have the owner \<open>own\<close>.
\<close>

fun dseg :: "(addr \<rightharpoonup> node_t) \<Rightarrow> addr \<Rightarrow> addr \<Rightarrow> addr list \<Rightarrow> addr \<Rightarrow> bool" where
  "dseg m own p [] n \<longleftrightarrow> True"
| "dseg m own p (a # xs) n \<longleftrightarrow> a \<noteq> NULL \<and>
     (\<exists>nd. m a = Some nd \<and> nd_prev nd = p \<and> nd_next nd = first_of xs n \<and> nd_owner nd = own) \<and>
     dseg m own a xs n"

lemma dseg_append [simp]:
  "dseg m own p (xs @ ys) n \<longleftrightarrow> dseg m own p xs (first_of ys n) \<and> dseg m own (last_of p xs) ys n"
  by (induction xs arbitrary: p) auto

lemma dseg_update_other [simp]: "a \<notin> set xs \<Longrightarrow> dseg (m(a := v)) own p xs n \<longleftrightarrow> dseg m own p xs n"
  by (induction xs arbitrary: p) auto

lemma dseg_null: "dseg m own p xs n \<Longrightarrow> NULL \<notin> set xs"
  by (induction xs arbitrary: p) auto

lemma dseg_mapped: "dseg m own p xs n \<Longrightarrow> a \<in> set xs \<Longrightarrow> \<exists>nd. m a = Some nd \<and> nd_owner nd = own"
  by (induction xs arbitrary: p) auto

definition list_heap_ok :: "list_heap \<Rightarrow> bool" where
  "list_heap_ok h \<longleftrightarrow> 0 < lh_brk h \<and> dom (lh_nodes h) \<subseteq> {0<..<lh_brk h} \<and> dom (lh_lists h) \<subseteq> {0<..<lh_brk h}"

definition list_rep :: "list_heap \<Rightarrow> addr \<Rightarrow> addr list \<Rightarrow> bool" where
  "list_rep h l ns \<longleftrightarrow> l \<noteq> NULL \<and> distinct ns \<and> dseg (lh_nodes h) l NULL ns NULL \<and>
     (\<exists>x. lh_lists h l = Some x \<and> lst_head x = first_of ns NULL \<and> lst_tail x = last_of NULL ns \<and>
          lst_length x = of_nat (length ns))"

definition node_value :: "list_heap \<Rightarrow> addr \<Rightarrow> addr" where
  "node_value h a = (case lh_nodes h a of Some n \<Rightarrow> nd_value n | None \<Rightarrow> NULL)"

lemma node_at_Some [simp]: "lh_nodes h a = Some n \<Longrightarrow> a \<noteq> NULL \<Longrightarrow> node_at h a = Done n"
  by (simp add: node_at_def)

lemma list_at_Some [simp]: "lh_lists h l = Some x \<Longrightarrow> l \<noteq> NULL \<Longrightarrow> list_at h l = Done x"
  by (simp add: list_at_def)

lemma set_node_Some [simp]: "lh_nodes h a = Some n \<Longrightarrow> a \<noteq> NULL \<Longrightarrow>
    set_node h a f = Done (h\<lparr>lh_nodes := (lh_nodes h)(a \<mapsto> f n)\<rparr>)"
  by (simp add: set_node_def)

lemma set_list_Some [simp]: "lh_lists h l = Some x \<Longrightarrow> l \<noteq> NULL \<Longrightarrow>
    set_list h l f = Done (h\<lparr>lh_lists := (lh_lists h)(l \<mapsto> f x)\<rparr>)"
  by (simp add: set_list_def)

lemma null_derefs [simp]: "node_at h NULL = Fault BadPointer" "list_at h NULL = Fault BadPointer"
  "set_node h NULL f = Fault BadPointer" "set_list h NULL g = Fault BadPointer"
  by (simp_all add: node_at_def list_at_def set_node_def set_list_def)

text \<open>
  What an operation on list \<open>l\<close> leaves alone: the values of all nodes, every node of another owner
  except the ones in \<open>xs\<close>, every other list object, and the allocator.
\<close>

definition list_frame :: "addr \<Rightarrow> addr set \<Rightarrow> list_heap \<Rightarrow> list_heap \<Rightarrow> bool" where
  "list_frame l xs h h' \<longleftrightarrow>
     (\<forall>a. a \<notin> xs \<longrightarrow> lh_nodes h' a = lh_nodes h a) \<and> dom (lh_nodes h') = dom (lh_nodes h) \<and>
     (\<forall>a. node_value h' a = node_value h a) \<and>
     (\<forall>k. k \<noteq> l \<longrightarrow> lh_lists h' k = lh_lists h k) \<and> dom (lh_lists h') = dom (lh_lists h) \<and>
     lh_brk h' = lh_brk h \<and> lh_junk h' = lh_junk h \<and> lh_freed h' = lh_freed h"

lemma list_frame_ok: "list_frame l xs h h' \<Longrightarrow> list_heap_ok h \<Longrightarrow> list_heap_ok h'"
  by (simp add: list_frame_def list_heap_ok_def)

lemma dseg_cong: "(\<And>a. a \<in> set ns \<Longrightarrow> m a = m' a) \<Longrightarrow> dseg m own p ns n = dseg m' own p ns n"
  by (induction ns arbitrary: p) auto

lemma list_frame_other:
  assumes "list_frame l xs h h'" "k \<noteq> l" "set ns \<inter> xs = {}"
  shows "list_rep h' k ns \<longleftrightarrow> list_rep h k ns"
proof -
  have "dseg (lh_nodes h') k NULL ns NULL = dseg (lh_nodes h) k NULL ns NULL"
    using assms by (intro dseg_cong) (auto simp: list_frame_def)
  with assms show ?thesis by (simp add: list_rep_def list_frame_def)
qed

lemma list_rep_owners_disjoint:
  assumes "list_rep h l ns" "list_rep h k ms" "k \<noteq> l"
  shows "set ns \<inter> set ms = {}"
proof -
  have False if "a \<in> set ns" "a \<in> set ms" for a
    using that assms dseg_mapped [of "lh_nodes h" l NULL ns NULL a]
      dseg_mapped [of "lh_nodes h" k NULL ms NULL a] by (auto simp: list_rep_def)
  then show ?thesis by blast
qed

section \<open>Appending\<close>

lemma list_append_node_spec:
  assumes rep: "list_rep h l ns" and a: "lh_nodes h a = Some nd" "a \<noteq> NULL" "a \<notin> set ns"
  shows "\<exists>h'. list_append_node h l a = Done h' \<and> list_rep h' l (ns @ [a]) \<and>
           list_frame l (insert a (set ns)) h h'"
proof -
  from rep obtain x where x: "l \<noteq> NULL" "distinct ns" "dseg (lh_nodes h) l NULL ns NULL" "lh_lists h l = Some x"
    "lst_head x = first_of ns NULL" "lst_tail x = last_of NULL ns" "lst_length x = of_nat (length ns)"
    by (auto simp: list_rep_def)
  show ?thesis
  proof (cases ns rule: rev_cases)
    case Nil
    with x a show ?thesis
      by (auto simp: list_append_node_def list_rep_def list_frame_def node_value_def)
  next
    case (snoc ms b)
    with x(3) obtain nb where nb: "lh_nodes h b = Some nb" "b \<noteq> NULL" "nd_prev nb = last_of NULL ms"
      "nd_owner nb = l" by auto
    have ne: "a \<noteq> b" "a \<notin> set ms" "b \<notin> set ms" using a(3) x(2) snoc by auto
    with snoc x a nb show ?thesis
      by (auto simp: list_append_node_def list_rep_def list_frame_def node_value_def)
  qed
qed

text \<open>Allocation and the store of the value, which every \<open>list_append*\<close> on an item starts with.\<close>

definition new_node :: "list_heap \<Rightarrow> addr \<Rightarrow> list_heap" where
  "new_node h item = h\<lparr>lh_brk := lh_brk h + 1,
     lh_nodes := (lh_nodes h)(lh_brk h \<mapsto> (lh_junk h (lh_brk h))\<lparr>nd_value := item\<rparr>)\<rparr>"

lemma new_node_eq:
  "list_heap_ok h \<Longrightarrow> (let (node, h1) = kmalloc_node h in
     and_then (set_node h1 node (\<lambda>n. n\<lparr>nd_value := item\<rparr>)) (\<lambda>h2. k h2 node)) = k (new_node h item) (lh_brk h)"
  by (cases h) (simp add: kmalloc_node_def new_node_def list_heap_ok_def)

lemma list_heap_fresh:
  assumes "list_heap_ok h" "list_rep h l ns"
  shows "lh_brk h \<notin> set ns"
proof
  assume "lh_brk h \<in> set ns"
  with assms(2) dseg_mapped obtain nd where "lh_nodes h (lh_brk h) = Some nd"
    by (fastforce simp: list_rep_def)
  with assms(1) show False by (auto simp: list_heap_ok_def subset_iff)
qed

lemma new_node_facts:
  assumes "list_heap_ok h"
  shows "lh_nodes (new_node h item) (lh_brk h) = Some ((lh_junk h (lh_brk h))\<lparr>nd_value := item\<rparr>)"
    "lh_brk h \<noteq> NULL" "list_heap_ok (new_node h item)"
    "list_rep h k ms \<Longrightarrow> list_rep (new_node h item) k ms"
    "a \<noteq> lh_brk h \<Longrightarrow> node_value (new_node h item) a = node_value h a"
    "node_value (new_node h item) (lh_brk h) = item"
proof -
  show "list_rep h k ms \<Longrightarrow> list_rep (new_node h item) k ms"
    using list_heap_fresh [OF assms, of k ms] by (auto simp: new_node_def list_rep_def)
qed (use assms in \<open>auto simp: new_node_def list_heap_ok_def node_value_def subset_iff\<close>)

lemma list_append_spec:
  assumes ok: "list_heap_ok h" and rep: "list_rep h l ns"
  shows "\<exists>h'. list_append h l item = Done h' \<and> list_heap_ok h' \<and> list_rep h' l (ns @ [lh_brk h]) \<and>
           node_value h' (lh_brk h) = item \<and> (\<forall>a. a \<noteq> lh_brk h \<longrightarrow> node_value h' a = node_value h a) \<and>
           (\<forall>k ms. k \<noteq> l \<longrightarrow> list_rep h k ms \<longrightarrow> list_rep h' k ms)"
proof -
  let ?h = "new_node h item"
  note new = new_node_facts [OF ok]
  from list_append_node_spec [OF new(4) [OF rep] new(1,2) list_heap_fresh [OF ok rep]] obtain h' where
    h': "list_append_node ?h l (lh_brk h) = Done h'" "list_rep h' l (ns @ [lh_brk h])"
    "list_frame l (insert (lh_brk h) (set ns)) ?h h'" by blast
  have "list_rep h' k ms" if "k \<noteq> l" "list_rep h k ms" for k ms
    using list_frame_other [OF h'(3) that(1), of ms] new(4) [OF that(2)]
      list_heap_fresh [OF ok that(2)] list_rep_owners_disjoint [OF rep that(2,1)] by blast
  moreover have "list_append h l item = Done h'" using h'(1) by (simp add: list_append_def new_node_eq [OF ok])
  ultimately show ?thesis
    using h'(2,3) new list_frame_ok [OF h'(3) new(3)] by (auto simp: list_frame_def)
qed

section \<open>Deleting\<close>

lemma list_delete_spec:
  assumes rep: "list_rep h l (xs @ a # ys)"
  shows "\<exists>h'. list_delete h l a = Done h' \<and> list_rep h' l (xs @ ys) \<and>
           list_frame l (set (xs @ a # ys)) h h' \<and>
           (\<exists>nd. lh_nodes h' a = Some nd \<and> nd_next nd = NULL \<and> nd_prev nd = NULL \<and> nd_owner nd = NULL)"
proof -
  from rep obtain x where x: "l \<noteq> NULL" "distinct (xs @ a # ys)" "lh_lists h l = Some x"
    "dseg (lh_nodes h) l NULL xs a" "dseg (lh_nodes h) l a ys NULL"
    "lst_head x = first_of xs a" "lst_tail x = last_of a ys" "lst_length x = of_nat (length (xs @ a # ys))"
    by (auto simp: list_rep_def)
  from rep obtain nd where nd: "lh_nodes h a = Some nd" "a \<noteq> NULL" "nd_prev nd = last_of NULL xs"
    "nd_next nd = first_of ys NULL" "nd_owner nd = l" by (auto simp: list_rep_def)
  consider "xs = []" "ys = []" | q zs where "xs = []" "ys = q # zs" | ws b where "xs = ws @ [b]" "ys = []"
    | ws b q zs where "xs = ws @ [b]" "ys = q # zs"
    by (metis rev_exhaust list.exhaust)
  then show ?thesis
  proof cases
    case 1
    with x nd show ?thesis
      by (auto simp: list_delete_def list_rep_def list_frame_def node_value_def)
  next
    case 2
    with x nd have "a \<noteq> q" "q \<noteq> NULL" "a \<noteq> last_of q zs" by (auto simp: last_of_def)
    with 2 x nd show ?thesis
      by (auto simp: list_delete_def list_rep_def list_frame_def node_value_def)
  next
    case 3
    with x nd have "a \<noteq> b" "b \<noteq> NULL" "first_of ws b \<noteq> a" by (auto simp: first_of_def split: list.splits)
    with 3 x nd show ?thesis
      by (auto simp: list_delete_def list_rep_def list_frame_def node_value_def)
  next
    case 4
    with x(2,4,5) have ne: "a \<noteq> b" "b \<noteq> NULL" "a \<noteq> q" "q \<noteq> NULL" "b \<noteq> q" "distinct ws" "distinct zs" "b \<notin> set ws" "q \<notin> set zs" "a \<notin> set ws" "a \<notin> set zs" "q \<notin> set ws"
      "b \<notin> set zs" "set ws \<inter> set zs = {}" by auto
    then have ends: "first_of ws b \<noteq> a" "a \<noteq> last_of q zs"
      by (auto simp: first_of_def last_of_def split: list.splits)
    from 4 x(4,5) obtain nb nq where
      nb: "lh_nodes h b = Some nb" "nd_next nb = a" "nd_prev nb = last_of NULL ws" "nd_owner nb = l"
      and nq: "lh_nodes h q = Some nq" "nd_prev nq = a" "nd_next nq = first_of zs NULL" "nd_owner nq = l"
      and segs: "dseg (lh_nodes h) l NULL ws b" "dseg (lh_nodes h) l q zs NULL" by auto
    let ?h' = "h\<lparr>lh_nodes := (lh_nodes h)(q \<mapsto> nq\<lparr>nd_prev := b\<rparr>, b \<mapsto> nb\<lparr>nd_next := q\<rparr>,
                 a \<mapsto> nd\<lparr>nd_prev := NULL, nd_next := NULL, nd_owner := NULL\<rparr>),
               lh_lists := (lh_lists h)(l \<mapsto> x\<lparr>lst_length := lst_length x - 1\<rparr>)\<rparr>"
    have "list_delete h l a = Done ?h'"
      using 4 x(1,3,6,7) nd ne(1-5) ends nb nq by (simp add: list_delete_def fun_upd_twist)
    moreover have "list_rep ?h' l (xs @ ys)"
      using 4 x(1,6,7,8) ne nb nq segs by (simp add: list_rep_def)
    moreover have "list_frame l (set (xs @ a # ys)) h ?h'"
      using 4 x(3) nd(1) nb(1) nq(1) by (auto simp: list_frame_def node_value_def)
    moreover have "\<exists>nd. lh_nodes ?h' a = Some nd \<and> nd_next nd = NULL \<and> nd_prev nd = NULL \<and> nd_owner nd = NULL"
      by simp
    ultimately show ?thesis by blast
  qed
qed

lemma list_rep_head:
  assumes "list_rep h l (a # ns)"
  shows "\<exists>x. lh_lists h l = Some x \<and> lst_head x = a" "l \<noteq> NULL" "a \<noteq> NULL"
  using assms by (auto simp: list_rep_def)

lemma list_rep_tail:
  assumes "list_rep h l (ns @ [a])"
  shows "\<exists>x. lh_lists h l = Some x \<and> lst_tail x = a" "l \<noteq> NULL" "a \<noteq> NULL"
  using assms by (auto simp: list_rep_def)

lemma list_rep_empty:
  assumes "list_rep h l []"
  shows "\<exists>x. lh_lists h l = Some x \<and> lst_head x = NULL \<and> lst_tail x = NULL" "l \<noteq> NULL"
  using assms by (auto simp: list_rep_def)

lemma list_popleft_Cons:
  "list_rep h l (a # ns) \<Longrightarrow> list_popleft h l = and_then (list_delete h l a) (\<lambda>h'. Done (a, h'))"
  using list_rep_head [of h l a ns] by (auto simp: list_popleft_def)

lemma list_popleft_Nil: "list_rep h l [] \<Longrightarrow> list_popleft h l = Done (NULL, h)"
  using list_rep_empty [of h l] by (auto simp: list_popleft_def)

lemma list_pop_snoc:
  "list_rep h l (ns @ [a]) \<Longrightarrow> list_pop h l = and_then (list_delete h l a) (\<lambda>h'. Done (a, h'))"
  using list_rep_tail [of h l ns a] by (auto simp: list_pop_def)

lemma list_pop_Nil: "list_rep h l [] \<Longrightarrow> list_pop h l = Done (NULL, h)"
  using list_rep_empty [of h l] by (auto simp: list_pop_def)

section \<open>Walking\<close>

lemma list_rep_length:
  assumes "list_heap_ok h" "list_rep h l ns"
  shows "length ns < lh_brk h"
proof -
  have "set ns \<subseteq> {0<..<lh_brk h}"
    using assms dseg_mapped [of "lh_nodes h" l NULL ns NULL] by (fastforce simp: list_rep_def list_heap_ok_def)
  then have "card (set ns) \<le> card {0<..<lh_brk h}" by (intro card_mono) auto
  moreover have "0 < lh_brk h" using assms(1) by (simp add: list_heap_ok_def)
  ultimately show ?thesis using assms(2) by (simp add: list_rep_def distinct_card)
qed

lemma list_find_node_spec:
  "dseg (lh_nodes h) own p ns NULL \<Longrightarrow> length ns \<le> fuel \<Longrightarrow>
   list_find_node fuel h item (first_of ns NULL) =
     Done (first_of (filter (\<lambda>a. node_value h a = item) ns) NULL)"
proof (induction ns arbitrary: p fuel)
  case Nil
  then show ?case by (cases fuel) auto
next
  case (Cons a ns)
  then obtain fuel' where "fuel = Suc fuel'" by (cases fuel) auto
  with Cons show ?case by (auto simp: node_value_def)
qed

lemma list_find_spec:
  assumes "list_heap_ok h" "list_rep h l ns"
  shows "list_find h l item = Done (first_of (filter (\<lambda>a. node_value h a = item) ns) NULL)"
  using assms list_rep_length [OF assms] list_find_node_spec [of h l NULL ns "lh_brk h" item]
  by (auto simp: list_find_def list_rep_def)

lemma list_seek_spec:
  "dseg (lh_nodes h) own p ns NULL \<Longrightarrow> k \<le> length ns \<Longrightarrow>
   list_seek k h (first_of ns NULL) i = Done (first_of (drop k ns) NULL, i + k)"
proof (induction ns arbitrary: p k i)
  case Nil
  then show ?case by simp
next
  case (Cons a ns)
  then show ?case by (cases k) auto
qed

lemma list_delete_index_in:
  assumes "list_rep h l ns" "i < length ns" "length ns < 2 ^ 64"
  shows "list_delete_index h l (of_nat i) = list_delete h l (ns ! i)"
proof -
  from assms(1) obtain x where x: "lh_lists h l = Some x" "l \<noteq> NULL" "lst_head x = first_of ns NULL"
    "lst_length x = of_nat (length ns)" "dseg (lh_nodes h) l NULL ns NULL" by (auto simp: list_rep_def)
  have "\<not> lst_length x < of_nat i" using assms x(4) by (simp add: word_less_nat_alt not_less)
  with x list_seek_spec [OF x(5), of i 0] assms show ?thesis
    by (simp add: list_delete_index_def Cons_nth_drop_Suc [symmetric])
qed

text \<open>The index one past the end passes the test and reaches a NULL node.\<close>

lemma list_delete_index_end:
  assumes "list_rep h l ns" "length ns < 2 ^ 64"
  shows "list_delete_index h l (of_nat (length ns)) = Fault BadPointer"
proof -
  from assms(1) obtain x where x: "lh_lists h l = Some x" "l \<noteq> NULL" "lst_head x = first_of ns NULL"
    "lst_length x = of_nat (length ns)" "dseg (lh_nodes h) l NULL ns NULL" by (auto simp: list_rep_def)
  have "list_delete h l NULL = Fault BadPointer" using x by (simp add: list_delete_def)
  with x list_seek_spec [OF x(5), of "length ns" 0] assms(2) show ?thesis
    by (simp add: list_delete_index_def)
qed

lemma list_delete_index_beyond:
  assumes "list_rep h l ns" "length ns < i" "i < 2 ^ 64"
  shows "list_delete_index h l (of_nat i) = Done h"
  using assms by (auto simp: list_delete_index_def list_rep_def word_less_nat_alt)

section \<open>Inserting next to a node\<close>

lemma list_append_node_after_inner:
  assumes rep: "list_rep h l (xs @ b # q # ys)" and a: "lh_nodes h a = Some nd" "a \<noteq> NULL" "a \<notin> set (xs @ b # q # ys)"
  shows "\<exists>h'. list_append_node_after h l b a = Done h' \<and> list_rep h' l (xs @ b # a # q # ys) \<and>
           list_frame l (insert a (set (xs @ b # q # ys))) h h'"
proof -
  from rep obtain x where x: "l \<noteq> NULL" "lh_lists h l = Some x" "lst_head x = first_of xs b"
    "lst_tail x = last_of q ys" "lst_length x = of_nat (length (xs @ b # q # ys))" by (auto simp: list_rep_def)
  from rep obtain nb nq where
      nb: "lh_nodes h b = Some nb" "b \<noteq> NULL" "nd_next nb = q" "nd_prev nb = last_of NULL xs" "nd_owner nb = l"
      and nq: "lh_nodes h q = Some nq" "q \<noteq> NULL" "nd_prev nq = b" "nd_next nq = first_of ys NULL" "nd_owner nq = l"
      and segs: "dseg (lh_nodes h) l NULL xs b" "dseg (lh_nodes h) l q ys NULL"
    by (auto simp: list_rep_def)
  have ne: "a \<noteq> b" "a \<noteq> q" "b \<noteq> q" "distinct xs" "distinct ys" "b \<notin> set xs" "q \<notin> set ys" "a \<notin> set xs"
    "a \<notin> set ys" "q \<notin> set xs" "b \<notin> set ys" "set xs \<inter> set ys = {}"
    using rep a(3) by (auto simp: list_rep_def)
  then have "b \<noteq> last_of q ys" by (auto simp: last_of_def)
  let ?h' = "h\<lparr>lh_nodes := (lh_nodes h)(q \<mapsto> nq\<lparr>nd_prev := a\<rparr>, a \<mapsto> nd\<lparr>nd_owner := l, nd_next := q, nd_prev := b\<rparr>,
                 b \<mapsto> nb\<lparr>nd_next := a\<rparr>),
               lh_lists := (lh_lists h)(l \<mapsto> x\<lparr>lst_length := lst_length x + 1\<rparr>)\<rparr>"
  have "list_append_node_after h l b a = Done ?h'"
    using \<open>b \<noteq> last_of q ys\<close> x nb nq a(1,2) ne(1-3)
    by (simp add: list_append_node_after_def fun_upd_twist)
  moreover have "list_rep ?h' l (xs @ b # a # q # ys)"
    using x nb nq a(2) ne segs by (simp add: list_rep_def)
  moreover have "list_frame l (insert a (set (xs @ b # q # ys))) h ?h'"
    using x(2) a(1) nb(1) nq(1) by (auto simp: list_frame_def node_value_def)
  ultimately show ?thesis by blast
qed

lemma list_append_node_before_inner:
  assumes rep: "list_rep h l (xs @ b # q # ys)" and a: "lh_nodes h a = Some nd" "a \<noteq> NULL" "a \<notin> set (xs @ b # q # ys)"
  shows "\<exists>h'. list_append_node_before h l q a = Done h' \<and> list_rep h' l (xs @ b # a # q # ys) \<and>
           list_frame l (insert a (set (xs @ b # q # ys))) h h'"
proof -
  from rep obtain x where x: "l \<noteq> NULL" "lh_lists h l = Some x" "lst_head x = first_of xs b"
    "lst_tail x = last_of q ys" "lst_length x = of_nat (length (xs @ b # q # ys))" by (auto simp: list_rep_def)
  from rep obtain nb nq where
      nb: "lh_nodes h b = Some nb" "b \<noteq> NULL" "nd_next nb = q" "nd_prev nb = last_of NULL xs" "nd_owner nb = l"
      and nq: "lh_nodes h q = Some nq" "q \<noteq> NULL" "nd_prev nq = b" "nd_next nq = first_of ys NULL" "nd_owner nq = l"
      and segs: "dseg (lh_nodes h) l NULL xs b" "dseg (lh_nodes h) l q ys NULL"
    by (auto simp: list_rep_def)
  have ne: "a \<noteq> b" "a \<noteq> q" "b \<noteq> q" "distinct xs" "distinct ys" "b \<notin> set xs" "q \<notin> set ys" "a \<notin> set xs"
    "a \<notin> set ys" "q \<notin> set xs" "b \<notin> set ys" "set xs \<inter> set ys = {}"
    using rep a(3) by (auto simp: list_rep_def)
  then have "q \<noteq> first_of xs b" by (auto simp: first_of_def split: list.splits)
  let ?h' = "h\<lparr>lh_nodes := (lh_nodes h)(b \<mapsto> nb\<lparr>nd_next := a\<rparr>, a \<mapsto> nd\<lparr>nd_owner := l, nd_prev := b, nd_next := q\<rparr>,
                 q \<mapsto> nq\<lparr>nd_prev := a\<rparr>),
               lh_lists := (lh_lists h)(l \<mapsto> x\<lparr>lst_length := lst_length x + 1\<rparr>)\<rparr>"
  have "list_append_node_before h l q a = Done ?h'"
    using \<open>q \<noteq> first_of xs b\<close> x nb nq a(1,2) ne(1-3)
    by (simp add: list_append_node_before_def fun_upd_twist)
  moreover have "list_rep ?h' l (xs @ b # a # q # ys)"
    using x nb nq a(2) ne segs by (simp add: list_rep_def)
  moreover have "list_frame l (insert a (set (xs @ b # q # ys))) h ?h'"
    using x(2) a(1) nb(1) nq(1) by (auto simp: list_frame_def node_value_def)
  ultimately show ?thesis by blast
qed

text \<open>Both entry points for an empty list follow its NULL head or tail.\<close>

lemma list_append_next_to_null_empty:
  assumes "list_rep h l []" "lh_nodes h a = Some nd" "a \<noteq> NULL"
  shows "list_append_node_after h l NULL a = Fault BadPointer"
    "list_append_node_before h l NULL a = Fault BadPointer"
  using assms by (auto simp: list_append_node_after_def list_append_node_before_def list_rep_def)

section \<open>Destroying\<close>

lemma list_destroy_nodes_spec:
  "dseg (lh_nodes h) own p ns NULL \<Longrightarrow> distinct ns \<Longrightarrow> length ns \<le> fuel \<Longrightarrow>
   list_destroy_nodes fuel h fv (first_of ns NULL) =
     Done (h\<lparr>lh_nodes := (\<lambda>a. if a \<in> set ns then None else lh_nodes h a),
             lh_freed := lh_freed h @ (if fv then map (node_value h) ns else [])\<rparr>)"
proof (induction ns arbitrary: h p fuel)
  case Nil
  then show ?case by (cases fuel) (auto split: if_splits)
next
  case (Cons a ns)
  then obtain fuel' where fuel: "fuel = Suc fuel'" by (cases fuel) auto
  from Cons.prems obtain nd where nd: "lh_nodes h a = Some nd" "a \<noteq> NULL" "nd_next nd = first_of ns NULL"
    "dseg (lh_nodes h) own a ns NULL" "a \<notin> set ns" by auto
  define h1 where "h1 = h\<lparr>lh_freed := lh_freed h @ (if fv then [nd_value nd] else []),
                         lh_nodes := (lh_nodes h)(a := None)\<rparr>"
  have step: "list_destroy_nodes fuel h fv a = list_destroy_nodes fuel' h1 fv (first_of ns NULL)"
    using nd by (cases h) (simp add: fuel kfree_node_def h1_def Let_def)
  have vals: "map (node_value h1) ns = map (node_value h) ns"
    using nd(5) by (auto simp: node_value_def h1_def)
  have nodes: "(\<lambda>b. if b \<in> set ns then None else lh_nodes h1 b) =
      (\<lambda>b. if b \<in> set (a # ns) then None else lh_nodes h b)"
    by (auto simp: h1_def fun_eq_iff)
  have "list_destroy_nodes fuel' h1 fv (first_of ns NULL) =
      Done (h1\<lparr>lh_nodes := (\<lambda>b. if b \<in> set ns then None else lh_nodes h1 b),
               lh_freed := lh_freed h1 @ (if fv then map (node_value h1) ns else [])\<rparr>)"
    using Cons.prems(2,3) nd(4,5) fuel
    by (intro Cons.IH [of h1 a fuel']) (simp_all add: h1_def del: fun_upd_apply)
  also have "\<dots> = Done (h\<lparr>lh_nodes := (\<lambda>b. if b \<in> set (a # ns) then None else lh_nodes h b),
             lh_freed := lh_freed h @ (if fv then map (node_value h) (a # ns) else [])\<rparr>)"
    unfolding vals nodes using nd(1) by (cases h) (simp add: h1_def node_value_def)
  finally show ?case by (simp only: step first_of_simps)
qed

lemma list_destroy_spec:
  assumes "list_heap_ok h" "list_rep h l ns"
  shows "list_destroy h l fv =
     Done (h\<lparr>lh_nodes := (\<lambda>a. if a \<in> set ns then None else lh_nodes h a), lh_lists := (lh_lists h)(l := None),
             lh_freed := lh_freed h @ (if fv then map (node_value h) ns else [])\<rparr>)"
proof -
  from assms(2) obtain x where x: "lh_lists h l = Some x" "l \<noteq> NULL" "lst_head x = first_of ns NULL"
    "dseg (lh_nodes h) l NULL ns NULL" "distinct ns" by (auto simp: list_rep_def)
  have "list_destroy h l fv = and_then (list_destroy_nodes (lh_brk h) h fv (first_of ns NULL))
      (\<lambda>h'. Done (h'\<lparr>lh_lists := (lh_lists h')(l := None)\<rparr>))"
    using x by (simp add: list_destroy_def)
  also have "\<dots> = Done (h\<lparr>lh_nodes := (\<lambda>a. if a \<in> set ns then None else lh_nodes h a),
      lh_lists := (lh_lists h)(l := None),
      lh_freed := lh_freed h @ (if fv then map (node_value h) ns else [])\<rparr>)"
    using list_destroy_nodes_spec [OF x(4,5), of "lh_brk h" fv] list_rep_length [OF assms]
    by (cases h) simp
  finally show ?thesis .
qed

section \<open>Queues\<close>

text \<open>
  How the scheduler and the drivers use a list: \<open>list_append\<close> at one end, \<open>list_popleft\<close> and
  \<open>node->value\<close> at the other. The contract of such a queue, and what a client gets from it.
\<close>

datatype 'v queue_op = Put 'v | Get

primrec run_queue ::
  "('s \<Rightarrow> 'v \<Rightarrow> 's outcome) \<Rightarrow> ('s \<Rightarrow> ('v option \<times> 's) outcome) \<Rightarrow> 's \<Rightarrow> 'v queue_op list \<Rightarrow>
   ('v option list \<times> 's) outcome" where
  "run_queue put get s [] = Done ([], s)"
| "run_queue put get s (c # cs) =
     (case c of
        Put v \<Rightarrow> and_then (put s v) (\<lambda>s'. run_queue put get s' cs)
      | Get \<Rightarrow> and_then (get s) (\<lambda>(r, s').
               and_then (run_queue put get s' cs) (\<lambda>(rs, s''). Done (r # rs, s''))))"

text \<open>The abstract queue: a list, with what the \<open>Get\<close>s of the sequence return and what is left.\<close>

fun queue_spec :: "'v list \<Rightarrow> 'v queue_op list \<Rightarrow> 'v option list \<times> 'v list" where
  "queue_spec q [] = ([], q)"
| "queue_spec q (Put v # cs) = queue_spec (q @ [v]) cs"
| "queue_spec [] (Get # cs) = (let (rs, q') = queue_spec [] cs in (None # rs, q'))"
| "queue_spec (v # q) (Get # cs) = (let (rs, q') = queue_spec q cs in (Some v # rs, q'))"

locale fifo =
  fixes queue :: "'s \<Rightarrow> 'v list \<Rightarrow> bool"
    and put :: "'s \<Rightarrow> 'v \<Rightarrow> 's outcome"
    and get :: "'s \<Rightarrow> ('v option \<times> 's) outcome"
  assumes put: "queue s vs \<Longrightarrow> \<exists>s'. put s v = Done s' \<and> queue s' (vs @ [v])"
    and take_empty: "queue s [] \<Longrightarrow> get s = Done (None, s)"
    and take_first: "queue s (v # vs) \<Longrightarrow> \<exists>s'. get s = Done (Some v, s') \<and> queue s' vs"
begin

lemma run_refines:
  "queue s q \<Longrightarrow> \<exists>s'. run_queue put get s cs = Done (fst (queue_spec q cs), s') \<and> queue s' (snd (queue_spec q cs))"
proof (induction q cs arbitrary: s rule: queue_spec.induct)
  case (1 q)
  then show ?case by simp
next
  case (2 q v cs)
  from put [OF 2(2), of v] obtain s1 where "put s v = Done s1" "queue s1 (q @ [v])" by blast
  with 2(1) [of s1] show ?case by simp
next
  case (3 cs)
  with take_empty [OF 3(2)] show ?case by (fastforce simp: case_prod_beta)
next
  case (4 v q cs)
  from take_first [OF 4(2)] obtain s1 where "get s = Done (Some v, s1)" "queue s1 q" by blast
  with 4(1) [of s1] show ?case by (fastforce simp: case_prod_beta)
qed

end

definition list_take :: "list_heap \<Rightarrow> addr \<Rightarrow> (addr option \<times> list_heap) outcome" where
  "list_take h l = and_then (list_popleft h l) (\<lambda>(node, h').
     if node = NULL then Done (None, h')
     else and_then (node_at h' node) (\<lambda>n. Done (Some (nd_value n), h')))"

definition list_holds :: "addr \<Rightarrow> list_heap \<Rightarrow> addr list \<Rightarrow> bool" where
  "list_holds l h vs \<longleftrightarrow> list_heap_ok h \<and> (\<exists>ns. list_rep h l ns \<and> map (node_value h) ns = vs)"

interpretation list_queue: fifo "list_holds l" "\<lambda>h v. list_append h l v" "\<lambda>h. list_take h l" for l
proof (unfold_locales, goal_cases)
  case (1 h vs v)
  then obtain ns where ns: "list_heap_ok h" "list_rep h l ns" "map (node_value h) ns = vs"
    by (auto simp: list_holds_def)
  from list_append_spec [OF ns(1,2), of v] obtain h' where
    h': "list_append h l v = Done h'" "list_heap_ok h'" "list_rep h' l (ns @ [lh_brk h])"
    "node_value h' (lh_brk h) = v" "\<forall>a. a \<noteq> lh_brk h \<longrightarrow> node_value h' a = node_value h a" by blast
  have "map (node_value h') ns = map (node_value h) ns"
    using h'(5) list_heap_fresh [OF ns(1,2)] by (metis map_eq_conv)
  with ns(3) h' have "map (node_value h') (ns @ [lh_brk h]) = vs @ [v]" by simp
  with h' show ?case by (auto simp: list_holds_def)
next
  case (2 h)
  then show ?case by (auto simp: list_holds_def list_take_def list_popleft_Nil)
next
  case (3 h v vs)
  then obtain a ns where ns: "list_heap_ok h" "list_rep h l (a # ns)" "node_value h a = v"
    "map (node_value h) ns = vs" by (auto simp: list_holds_def)
  from list_delete_spec [of h l "[]" a ns] ns(2) obtain h' nd where
    h': "list_delete h l a = Done h'" "list_rep h' l ns" "list_frame l (set (a # ns)) h h'"
    "lh_nodes h' a = Some nd" by auto
  have "node_value h' a = v" using h'(3) ns(3) by (simp add: list_frame_def)
  then have "nd_value nd = v" using h'(4) by (simp add: node_value_def)
  with h' ns list_rep_head(3) [OF ns(2)] have "list_take h l = Done (Some v, h')"
    by (simp add: list_take_def list_popleft_Cons [OF ns(2)])
  moreover have "node_value h' = node_value h" using h'(3) by (simp add: list_frame_def fun_eq_iff)
  then have "map (node_value h') ns = vs" using ns(4) by simp
  ultimately show ?case using h' list_frame_ok [OF h'(3) ns(1)] by (auto simp: list_holds_def)
qed


section \<open>Properties\<close>

lemma list_create_rep:
  assumes "list_heap_ok h" "list_create h name = (l, h')"
  shows "list_heap_ok h'" "list_rep h' l []"
proof -
  from assms(1) have ok: "0 < lh_brk h" "dom (lh_nodes h) \<subseteq> {0<..<lh_brk h}"
    "dom (lh_lists h) \<subseteq> {0<..<lh_brk h}" by (simp_all add: list_heap_ok_def)
  have "{0<..<lh_brk h} \<subseteq> {0<..<Suc (lh_brk h)}" "lh_brk h \<in> {0<..<Suc (lh_brk h)}" using ok(1) by auto
  with ok(2,3) have "dom (lh_nodes h) \<subseteq> {0<..<Suc (lh_brk h)}"
    "insert (lh_brk h) (dom (lh_lists h)) \<subseteq> {0<..<Suc (lh_brk h)}" by blast+
  moreover have "h' = snd (list_create h name)" by (simp add: assms(2))
  ultimately show "list_heap_ok h'" by (simp add: list_create_def list_heap_ok_def)
  show "list_rep h' l []" using assms(2) ok(1) by (auto simp: list_create_def list_rep_def)
qed

text \<open>A heap with one empty list at address 1, for the examples.\<close>

definition list_heap_small :: list_heap where
  "list_heap_small = snd (list_create \<lparr>lh_nodes = Map.empty, lh_lists = Map.empty, lh_brk = 1,
     lh_junk = (\<lambda>_. \<lparr>nd_next = 57, nd_prev = 58, nd_value = 59, nd_owner = 60\<rparr>), lh_freed = []\<rparr> ''queue'')"

lemma list_heap_small_rep: "list_heap_ok list_heap_small" "list_rep list_heap_small 1 []"
  by (auto simp: list_heap_small_def list_create_def list_heap_ok_def list_rep_def)

text \<open>
  \<open>list_append\<close> refines appending to a list: from a heap where \<open>l\<close> is a well-formed doubly linked
  list it returns, \<open>l\<close> is well formed again with one new node at the end that holds the item, the
  values of the other nodes are unchanged, and every other list of the heap is untouched.
\<close>

lemma list_append_refines:
  assumes "list_heap_ok h" "list_rep h l ns"
  shows "\<exists>h' a. list_append h l item = Done h' \<and> a \<notin> set ns \<and> list_heap_ok h' \<and> list_rep h' l (ns @ [a]) \<and>
           map (node_value h') (ns @ [a]) = map (node_value h) ns @ [item] \<and>
           (\<forall>k ms. k \<noteq> l \<and> list_rep h k ms \<longrightarrow> list_rep h' k ms)"
proof -
  from list_append_spec [OF assms, of item] obtain h' where
    h': "list_append h l item = Done h'" "list_heap_ok h'" "list_rep h' l (ns @ [lh_brk h])"
    "node_value h' (lh_brk h) = item" "\<forall>a. a \<noteq> lh_brk h \<longrightarrow> node_value h' a = node_value h a"
    "\<forall>k ms. k \<noteq> l \<longrightarrow> list_rep h k ms \<longrightarrow> list_rep h' k ms" by blast
  have "map (node_value h') ns = map (node_value h) ns"
    using h'(5) list_heap_fresh [OF assms] by (metis map_eq_conv)
  with h' list_heap_fresh [OF assms] show ?thesis by (intro exI [of _ h'] exI [of _ "lh_brk h"]) simp
qed

text \<open>
  C6: \<open>list_delete\<close> takes exactly the given node out of its list: the nodes before and after it are
  linked to each other, head, tail and length follow, the node's own links and owner are cleared, and
  every other list is untouched.
\<close>

theorem list_delete_refines:
  assumes "list_heap_ok h" "list_rep h l (xs @ a # ys)"
  shows "\<exists>h'. list_delete h l a = Done h' \<and> list_heap_ok h' \<and> list_rep h' l (xs @ ys) \<and>
           (\<forall>b. node_value h' b = node_value h b) \<and>
           (\<exists>nd. lh_nodes h' a = Some nd \<and> nd_next nd = NULL \<and> nd_prev nd = NULL \<and> nd_owner nd = NULL) \<and>
           (\<forall>k ms. k \<noteq> l \<and> list_rep h k ms \<longrightarrow> list_rep h' k ms)"
proof -
  from list_delete_spec [OF assms(2)] obtain h' where
    h': "list_delete h l a = Done h'" "list_rep h' l (xs @ ys)" "list_frame l (set (xs @ a # ys)) h h'"
    "\<exists>nd. lh_nodes h' a = Some nd \<and> nd_next nd = NULL \<and> nd_prev nd = NULL \<and> nd_owner nd = NULL" by blast
  have "list_rep h' k ms" if "k \<noteq> l" "list_rep h k ms" for k ms
    using list_frame_other [OF h'(3) that(1), of ms] list_rep_owners_disjoint [OF assms(2) that(2,1)] that(2)
    by blast
  with h' list_frame_ok [OF h'(3) assms(1)] show ?thesis
    by (intro exI [of _ h']) (auto simp: list_frame_def)
qed

theorem list_delete_refines_witness:
  "\<exists>h a h'. list_rep h 1 [a] \<and> list_delete h 1 a = Done h' \<and> list_rep h' 1 []"
proof -
  from list_append_spec [OF list_heap_small_rep, of 7] obtain h a where
    h: "list_heap_ok h" "list_rep h 1 ([] @ [a])" by auto
  from list_delete_refines [OF h(1), of 1 "[]" a "[]"] h(2) show ?thesis by auto
qed

text \<open>
  \<open>list_delete_index\<close> on an index of the list deletes the node there, on an index past the length
  does nothing, and on the length itself (which its test lets through) dereferences NULL.
\<close>

lemma list_delete_index_cases:
  assumes "list_rep h l ns" "length ns < 2 ^ 64" "i < 2 ^ 64"
  shows "list_delete_index h l (of_nat i) =
           (if i < length ns then list_delete h l (ns ! i)
            else if i = length ns then Fault BadPointer else Done h)"
  using list_delete_index_in [OF assms(1) _ assms(2), of i] list_delete_index_end [OF assms(1,2)]
    list_delete_index_beyond [OF assms(1) _ assms(3)] by auto

text \<open>
  C7: A fresh list is a first-in first-out queue: over any sequence of \<open>list_append\<close> and
  \<open>list_popleft\<close> calls, interleaved in any order and emptying the list any number of times, every call
  returns, the \<open>list_popleft\<close> calls deliver what a queue of the appended items delivers (NULL exactly
  when nothing is left), and the list is left a well-formed doubly linked list with the remaining items.
\<close>

theorem list_first_in_first_out:
  assumes "list_heap_ok h" "list_create h name = (l, h0)"
  shows "\<exists>h' ns. run_queue (\<lambda>h v. list_append h l v) (\<lambda>h. list_take h l) h0 cs = Done (fst (queue_spec [] cs), h') \<and>
           list_heap_ok h' \<and> list_rep h' l ns \<and> map (node_value h') ns = snd (queue_spec [] cs)"
proof -
  have "list_holds l h0 []" using list_create_rep [OF assms] by (auto simp: list_holds_def)
  from list_queue.run_refines [OF this, of cs] show ?thesis by (auto simp: list_holds_def)
qed

theorem list_first_in_first_out_witness:
  "\<exists>h' ns. run_queue (\<lambda>h v. list_append h 2 v) (\<lambda>h. list_take h 2) (snd (list_create list_heap_small ''q''))
       [Put 5, Get, Get, Put 6, Put 7, Get] = Done ([Some 5, None, Some 6], h') \<and>
     list_rep h' 2 ns \<and> map (node_value h') ns = [7]"
proof -
  have "list_create list_heap_small ''q'' = (2, snd (list_create list_heap_small ''q''))"
    by (simp add: list_create_def list_heap_small_def)
  note fifo = list_first_in_first_out [OF list_heap_small_rep(1) this, of "[Put 5, Get, Get, Put 6, Put 7, Get]"]
  have "queue_spec [] [Put 5, Get, Get, Put 6, Put 7, Get] = ([Some 5, None, Some 6], [7 :: addr])" by simp
  from fifo [unfolded this fst_conv snd_conv] show ?thesis by (elim exE conjE) (intro exI conjI)
qed

end
