(* ===== verification/KTree.thy ===== *)
theory KTree
  imports KList
begin

text \<open>
  \<open>libkstructures/tree/tree.c\<close>: trees whose nodes keep their children in the lists of \<open>KList\<close>, on the
  same heap. Addresses of tree nodes come from the same allocator as the list nodes. The values of
  the child lists are tree node pointers.
\<close>

section \<open>Heap\<close>

record tree_node_t =
  tn_value :: addr
  tn_children :: addr
  tn_parent :: addr

record tree_t =
  tree_name :: string
  tree_nodes :: u64
  tree_root :: addr

record tree_heap =
  th_lists :: list_heap
  th_nodes :: "addr \<rightharpoonup> tree_node_t"

definition tnode_at :: "tree_heap \<Rightarrow> addr \<Rightarrow> tree_node_t outcome" where
  "tnode_at h a = (if a = NULL then Fault BadPointer
                   else case th_nodes h a of Some n \<Rightarrow> Done n | None \<Rightarrow> Fault BadPointer)"

definition on_lists :: "tree_heap \<Rightarrow> list_heap outcome \<Rightarrow> tree_heap outcome" where
  "on_lists h r = and_then r (\<lambda>lh. Done (h\<lparr>th_lists := lh\<rparr>))"

section \<open>Operations\<close>

definition tree_create :: "string \<Rightarrow> tree_t" where
  "tree_create name = \<lparr>tree_name = name, tree_nodes = 0, tree_root = NULL\<rparr>"

text \<open>The node is allocated first, then its child list.\<close>

definition tree_create_node :: "tree_heap \<Rightarrow> addr \<Rightarrow> addr \<times> tree_heap" where
  "tree_create_node h v =
     (let lh = th_lists h; node = lh_brk lh;
          (children, lh') = list_create (lh\<lparr>lh_brk := lh_brk lh + 1\<rparr>) ''tree node children'' in
      (node, h\<lparr>th_lists := lh',
               th_nodes := (th_nodes h)(node \<mapsto> \<lparr>tn_value = v, tn_children = children, tn_parent = NULL\<rparr>)\<rparr>))"

definition tree_set_parent :: "tree_heap \<Rightarrow> tree_t \<Rightarrow> addr \<Rightarrow> tree_heap \<times> tree_t" where
  "tree_set_parent h t v = (let (node, h') = tree_create_node h v in (h', t\<lparr>tree_root := node, tree_nodes := 1\<rparr>))"

text \<open>
  The recursion over a node (\<open>tree_count_children\<close>) and over its list of children. The fuel bounds the
  depth of calls and list steps: with as much as there are addresses it only runs out on a cycle,
  where the C recursion never ends.
\<close>

fun tree_count_children :: "nat \<Rightarrow> tree_heap \<Rightarrow> addr \<Rightarrow> u64 outcome"
  and tree_count_list :: "nat \<Rightarrow> tree_heap \<Rightarrow> addr \<Rightarrow> u64 \<Rightarrow> u64 outcome" where
  "tree_count_children 0 h node = Hang"
| "tree_count_children (Suc fuel) h node =
     (if node = NULL then Done 0
      else
        and_then (tnode_at h node) (\<lambda>n.
        if tn_children n = NULL then Done 0
        else and_then (list_at (th_lists h) (tn_children n)) (\<lambda>l.
             tree_count_list fuel h (lst_head l) (lst_length l))))"
| "tree_count_list 0 h child children = (if child = NULL then Done children else Hang)"
| "tree_count_list (Suc fuel) h child children =
     (if child = NULL then Done children
      else
        and_then (node_at (th_lists h) child) (\<lambda>c.
        and_then (tree_count_children fuel h (nd_value c)) (\<lambda>k.
        tree_count_list fuel h (nd_next c) (children + k))))"

definition tree_fuel :: "tree_heap \<Rightarrow> nat" where
  "tree_fuel h = 2 * lh_brk (th_lists h) + 2"

definition tree_insert_child_node :: "tree_heap \<Rightarrow> tree_t \<Rightarrow> addr \<Rightarrow> addr \<Rightarrow> (tree_heap \<times> tree_t) outcome" where
  "tree_insert_child_node h t parent node =
     and_then (tree_count_children (tree_fuel h) h node) (\<lambda>k.
     let t' = t\<lparr>tree_nodes := tree_nodes t + 1 + k\<rparr> in
     and_then (tnode_at h node) (\<lambda>n.
     let h1 = h\<lparr>th_nodes := (th_nodes h)(node \<mapsto> n\<lparr>tn_parent := parent\<rparr>)\<rparr> in
     and_then (tnode_at h1 parent) (\<lambda>p.
     and_then (on_lists h1 (list_append (th_lists h1) (tn_children p) node)) (\<lambda>h2. Done (h2, t')))))"

definition tree_insert_child :: "tree_heap \<Rightarrow> tree_t \<Rightarrow> addr \<Rightarrow> addr \<Rightarrow> (addr \<times> tree_heap \<times> tree_t) outcome" where
  "tree_insert_child h t parent v =
     (let (node, h1) = tree_create_node h v in
      and_then (tree_insert_child_node h1 t parent node) (\<lambda>(h2, t'). Done (node, h2, t')))"

fun tree_node_free :: "nat \<Rightarrow> tree_heap \<Rightarrow> addr \<Rightarrow> tree_heap outcome"
  and tree_list_free :: "nat \<Rightarrow> tree_heap \<Rightarrow> addr \<Rightarrow> tree_heap outcome" where
  "tree_node_free 0 h node = Hang"
| "tree_node_free (Suc fuel) h node =
     (if node = NULL then Done h
      else
        and_then (tnode_at h node) (\<lambda>n.
        and_then (list_at (th_lists h) (tn_children n)) (\<lambda>l.
        and_then (tree_list_free fuel h (lst_head l)) (\<lambda>h'.
        Done (h'\<lparr>th_nodes := (th_nodes h')(node := None)\<rparr>)))))"
| "tree_list_free 0 h child = (if child = NULL then Done h else Hang)"
| "tree_list_free (Suc fuel) h child =
     (if child = NULL then Done h
      else
        and_then (node_at (th_lists h) child) (\<lambda>c.
        and_then (tree_node_free fuel h (nd_value c)) (\<lambda>h'.
        and_then (node_at (th_lists h') child) (\<lambda>c'. tree_list_free fuel h' (nd_next c')))))"

definition tree_delete :: "tree_heap \<Rightarrow> tree_t \<Rightarrow> addr \<Rightarrow> (tree_heap \<times> tree_t) outcome" where
  "tree_delete h t node =
     and_then (tnode_at h node) (\<lambda>n.
     let parent = tn_parent n in
     if parent = NULL then
       if node = tree_root t then
         and_then (tree_node_free (tree_fuel h) h node) (\<lambda>h'. Done (h', t\<lparr>tree_root := NULL, tree_nodes := 0\<rparr>))
       else Done (h, t)
     else
       and_then (tree_count_children (tree_fuel h) h node) (\<lambda>k.
       let t' = t\<lparr>tree_nodes := tree_nodes t - 1 - k\<rparr> in
       and_then (tnode_at h parent) (\<lambda>p.
       and_then (list_find (th_lists h) (tn_children p) node) (\<lambda>ln.
       and_then (on_lists h (list_delete (th_lists h) (tn_children p) ln)) (\<lambda>h1.
       and_then (tree_node_free (tree_fuel h1) h1 node) (\<lambda>h2. Done (h2, t')))))))"

text \<open>
  The \<open>foreach\<close> of \<open>tree_remove_reparent\<close>: \<open>list_append_node\<close> moves the very node the loop stands on,
  and the loop then follows the \<open>next\<close> it has just been given.
\<close>

primrec tree_move_children :: "nat \<Rightarrow> tree_heap \<Rightarrow> addr \<Rightarrow> addr \<Rightarrow> tree_heap outcome" where
  "tree_move_children 0 h parent child = (if child = NULL then Done h else Hang)"
| "tree_move_children (Suc fuel) h parent child =
     (if child = NULL then Done h
      else
        and_then (tnode_at h parent) (\<lambda>p.
        and_then (on_lists h (set_node (th_lists h) child (\<lambda>n. n\<lparr>nd_owner := tn_children p\<rparr>))) (\<lambda>h1.
        and_then (node_at (th_lists h1) child) (\<lambda>c.
        and_then (tnode_at h1 (nd_value c)) (\<lambda>cn.
        let h2 = h1\<lparr>th_nodes := (th_nodes h1)(nd_value c \<mapsto> cn\<lparr>tn_parent := parent\<rparr>)\<rparr> in
        and_then (on_lists h2 (list_append_node (th_lists h2) (tn_children p) child)) (\<lambda>h3.
        and_then (node_at (th_lists h3) child) (\<lambda>c3.
        tree_move_children fuel h3 parent (nd_next c3))))))))"

definition tree_remove_reparent :: "tree_heap \<Rightarrow> addr \<Rightarrow> addr \<Rightarrow> tree_heap outcome" where
  "tree_remove_reparent h parent node =
     and_then (tnode_at h parent) (\<lambda>p.
     and_then (list_find (th_lists h) (tn_children p) node) (\<lambda>ln.
     and_then (if ln \<noteq> NULL then on_lists h (list_delete (th_lists h) (tn_children p) ln) else Done h) (\<lambda>h1.
     and_then (tnode_at h1 node) (\<lambda>n.
     and_then (list_at (th_lists h1) (tn_children n)) (\<lambda>l.
     and_then (if lst_length l \<noteq> 0 then tree_move_children (lh_brk (th_lists h1)) h1 parent (lst_head l) else Done h1) (\<lambda>h2.
     Done (h2\<lparr>th_lists := (th_lists h2)\<lparr>lh_lists := (lh_lists (th_lists h2))(tn_children n := None)\<rparr>,
              th_nodes := (th_nodes h2)(node := None)\<rparr>)))))))"

definition tree_remove :: "tree_heap \<Rightarrow> tree_t \<Rightarrow> addr \<Rightarrow> (tree_heap \<times> tree_t) outcome" where
  "tree_remove h t node =
     and_then (tnode_at h node) (\<lambda>n.
     if tn_parent n = NULL then Done (h, t)
     else and_then (tree_remove_reparent h (tn_parent n) node) (\<lambda>h'.
          Done (h', t\<lparr>tree_nodes := tree_nodes t - 1\<rparr>)))"

fun tree_find_node :: "nat \<Rightarrow> tree_heap \<Rightarrow> (addr \<Rightarrow> bool) \<Rightarrow> addr \<Rightarrow> addr outcome"
  and tree_find_list :: "nat \<Rightarrow> tree_heap \<Rightarrow> (addr \<Rightarrow> bool) \<Rightarrow> addr \<Rightarrow> addr outcome" where
  "tree_find_node 0 h comparator node = Hang"
| "tree_find_node (Suc fuel) h comparator node =
     and_then (tnode_at h node) (\<lambda>n.
     if comparator (tn_value n) then Done node
     else and_then (list_at (th_lists h) (tn_children n)) (\<lambda>l. tree_find_list fuel h comparator (lst_head l)))"
| "tree_find_list 0 h comparator child = (if child = NULL then Done NULL else Hang)"
| "tree_find_list (Suc fuel) h comparator child =
     (if child = NULL then Done NULL
      else
        and_then (node_at (th_lists h) child) (\<lambda>c.
        and_then (tree_find_node fuel h comparator (nd_value c)) (\<lambda>found.
        if found \<noteq> NULL then Done found else tree_find_list fuel h comparator (nd_next c))))"

text \<open>The comparator is applied to the searched value, which is part of it here.\<close>

definition tree_find :: "tree_heap \<Rightarrow> tree_t \<Rightarrow> (addr \<Rightarrow> bool) \<Rightarrow> addr outcome" where
  "tree_find h t comparator = tree_find_node (tree_fuel h) h comparator (tree_root t)"

section \<open>Abstraction\<close>

text \<open>The tree a heap represents: the address of each node with its subtrees in order.\<close>

datatype rtree = RNode (rroot: addr) (rsubs: "rtree list")

fun preorder :: "rtree \<Rightarrow> addr list" where
  "preorder (RNode a ts) = a # concat (map preorder ts)"

fun tree_rep :: "tree_heap \<Rightarrow> rtree \<Rightarrow> bool" where
  "tree_rep h (RNode a ts) \<longleftrightarrow> a \<noteq> NULL \<and>
     (\<exists>n ns. th_nodes h a = Some n \<and> list_rep (th_lists h) (tn_children n) ns \<and> length ns < 2 ^ 64 \<and>
             map (node_value (th_lists h)) ns = map rroot ts) \<and>
     (\<forall>t \<in> set ts. tree_rep h t)"

definition tvalue :: "tree_heap \<Rightarrow> addr \<Rightarrow> addr" where
  "tvalue h a = (case th_nodes h a of Some n \<Rightarrow> tn_value n | None \<Rightarrow> NULL)"

text \<open>The depth of calls a walk over the whole tree needs, and that the fuel given is enough.\<close>

fun tneed :: "rtree \<Rightarrow> nat" where
  "tneed (RNode a ts) = Suc (foldr (\<lambda>t k. Suc (max (tneed t) k)) ts 0)"

abbreviation (input) tneed_list :: "rtree list \<Rightarrow> nat" where
  "tneed_list ts \<equiv> foldr (\<lambda>t k. Suc (max (tneed t) k)) ts 0"

lemma preorder_nonempty: "0 < length (preorder t)"
  by (cases t) simp

lemma tneed_bound: "Suc (tneed t) \<le> 2 * length (preorder t)"
proof (induction t)
  case (RNode a ts)
  have "tneed_list us \<le> 2 * length (concat (map preorder us))" if "set us \<subseteq> set ts" for us
    using that
  proof (induction us)
    case Nil
    then show ?case by simp
  next
    case (Cons u us)
    have "Suc (tneed u) \<le> 2 * length (preorder u)" using RNode.IH Cons.prems by simp
    moreover have "tneed_list us \<le> 2 * length (concat (map preorder us))" using Cons by simp
    moreover have "0 < length (preorder u)" by (rule preorder_nonempty)
    ultimately have "Suc (max (tneed u) (tneed_list us)) \<le> 2 * length (preorder u) + 2 * length (concat (map preorder us))"
      by linarith
    then show ?case by simp
  qed
  from this [of ts] show ?case by simp
qed

definition tree_addrs_ok :: "tree_heap \<Rightarrow> rtree \<Rightarrow> bool" where
  "tree_addrs_ok h t \<longleftrightarrow> distinct (preorder t) \<and> (\<forall>a \<in> set (preorder t). a < lh_brk (th_lists h))"

lemma tree_fuel_enough:
  assumes "tree_addrs_ok h t"
  shows "tneed t \<le> tree_fuel h"
proof -
  have "set (preorder t) \<subseteq> {..<lh_brk (th_lists h)}" using assms by (auto simp: tree_addrs_ok_def)
  then have "card (set (preorder t)) \<le> card {..<lh_brk (th_lists h)}" by (intro card_mono) auto
  then have "length (preorder t) \<le> lh_brk (th_lists h)" using assms by (simp add: tree_addrs_ok_def distinct_card)
  with tneed_bound [of t] show ?thesis by (simp add: tree_fuel_def)
qed

lemma tree_rep_null: "tree_rep h t \<Longrightarrow> NULL \<notin> set (preorder t)"
  by (induction t) auto

definition tree_pick :: "tree_heap \<Rightarrow> (addr \<Rightarrow> bool) \<Rightarrow> addr list \<Rightarrow> addr" where
  "tree_pick h P as = first_of (filter (\<lambda>a. P (tvalue h a)) as) NULL"

lemma tree_pick_append:
  "NULL \<notin> set as \<Longrightarrow> tree_pick h P (as @ bs) = (if tree_pick h P as \<noteq> NULL then tree_pick h P as else tree_pick h P bs)"
  by (induction as) (auto simp: tree_pick_def)

lemma tree_find_list_spec:
  "dseg (lh_nodes (th_lists h)) own p ns NULL \<Longrightarrow> map (node_value (th_lists h)) ns = map rroot ts \<Longrightarrow>
   (\<And>t fuel. t \<in> set ts \<Longrightarrow> tneed t \<le> fuel \<Longrightarrow>
      tree_find_node fuel h P (rroot t) = Done (tree_pick h P (preorder t))) \<Longrightarrow>
   (\<And>t. t \<in> set ts \<Longrightarrow> NULL \<notin> set (preorder t)) \<Longrightarrow> tneed_list ts \<le> fuel \<Longrightarrow>
   tree_find_list fuel h P (first_of ns NULL) = Done (tree_pick h P (concat (map preorder ts)))"
proof (induction ts arbitrary: ns p fuel)
  case Nil
  then show ?case by (cases fuel) (auto simp: tree_pick_def)
next
  case (Cons t ts)
  from Cons.prems(2) obtain a ms where ns: "ns = a # ms" "node_value (th_lists h) a = rroot t"
    "map (node_value (th_lists h)) ms = map rroot ts" by (cases ns) auto
  from Cons.prems(1) ns(1) obtain nd where nd: "lh_nodes (th_lists h) a = Some nd" "a \<noteq> NULL"
    "nd_next nd = first_of ms NULL" "dseg (lh_nodes (th_lists h)) own a ms NULL" by auto
  from Cons.prems(5) obtain f where f: "fuel = Suc f" "tneed t \<le> f" "tneed_list ts \<le> f"
    by (cases fuel) auto
  have "nd_value nd = rroot t" using ns(2) nd(1) by (simp add: node_value_def)
  moreover have "tree_find_node f h P (rroot t) = Done (tree_pick h P (preorder t))"
    using Cons.prems(3) f by simp
  moreover have "tree_find_list f h P (first_of ms NULL) = Done (tree_pick h P (concat (map preorder ts)))"
    using Cons.prems f by (intro Cons.IH [OF nd(4) ns(3)]) auto
  moreover have "NULL \<notin> set (preorder t)" using Cons.prems(4) by simp
  ultimately show ?case using nd ns(1) f(1) tree_pick_append by simp
qed

lemma tree_find_node_spec:
  "tree_rep h t \<Longrightarrow> tneed t \<le> fuel \<Longrightarrow> tree_find_node fuel h P (rroot t) = Done (tree_pick h P (preorder t))"
proof (induction t arbitrary: fuel)
  case (RNode a ts)
  then obtain n ns where n: "a \<noteq> NULL" "th_nodes h a = Some n" "list_rep (th_lists h) (tn_children n) ns"
    "map (node_value (th_lists h)) ns = map rroot ts" by auto
  from RNode.prems(2) obtain f where f: "fuel = Suc f" "tneed_list ts \<le> f" by (cases fuel) auto
  from n(3) obtain l where l: "list_at (th_lists h) (tn_children n) = Done l" "lst_head l = first_of ns NULL"
    "dseg (lh_nodes (th_lists h)) (tn_children n) NULL ns NULL" by (auto simp: list_rep_def)
  have subs: "tree_rep h t" if "t \<in> set ts" for t using RNode.prems(1) that by simp
  have "tree_find_list f h P (first_of ns NULL) = Done (tree_pick h P (concat (map preorder ts)))"
  proof (rule tree_find_list_spec [OF l(3) n(4)])
    show "tree_find_node g h P (rroot t) = Done (tree_pick h P (preorder t))" if "t \<in> set ts" "tneed t \<le> g" for t g
      using RNode.IH that subs by blast
    show "NULL \<notin> set (preorder t)" if "t \<in> set ts" for t using subs tree_rep_null that by blast
  qed (rule f(2))
  with n f(1) l show ?case by (simp add: tnode_at_def tree_pick_def tvalue_def)
qed

lemma tree_count_list_spec:
  "dseg (lh_nodes (th_lists h)) own p ns NULL \<Longrightarrow> map (node_value (th_lists h)) ns = map rroot ts \<Longrightarrow>
   (\<And>t fuel. t \<in> set ts \<Longrightarrow> tneed t \<le> fuel \<Longrightarrow>
      tree_count_children fuel h (rroot t) = Done (of_nat (length (preorder t) - 1))) \<Longrightarrow>
   tneed_list ts \<le> fuel \<Longrightarrow>
   tree_count_list fuel h (first_of ns NULL) k = Done (k + of_nat (\<Sum>t\<leftarrow>ts. length (preorder t) - 1))"
proof (induction ts arbitrary: ns p fuel k)
  case Nil
  then show ?case by (cases fuel) auto
next
  case (Cons t ts)
  from Cons.prems(2) obtain a ms where ns: "ns = a # ms" "node_value (th_lists h) a = rroot t"
    "map (node_value (th_lists h)) ms = map rroot ts" by (cases ns) auto
  from Cons.prems(1) ns(1) obtain nd where nd: "lh_nodes (th_lists h) a = Some nd" "a \<noteq> NULL"
    "nd_next nd = first_of ms NULL" "dseg (lh_nodes (th_lists h)) own a ms NULL" by auto
  from Cons.prems(4) obtain f where f: "fuel = Suc f" "tneed t \<le> f" "tneed_list ts \<le> f"
    by (cases fuel) auto
  have v: "nd_value nd = rroot t" using ns(2) nd(1) by (simp add: node_value_def)
  have "tree_count_children f h (rroot t) = Done (of_nat (length (preorder t) - 1))"
    using Cons.prems(3) f by simp
  moreover have "tree_count_list f h (first_of ms NULL) j = Done (j + of_nat (\<Sum>t\<leftarrow>ts. length (preorder t) - 1))" for j
    using Cons.prems(3) f by (intro Cons.IH [OF nd(4) ns(3)]) auto
  ultimately show ?case using nd ns(1) f(1) v by simp
qed

lemma sum_preorder: "length ts + (\<Sum>t\<leftarrow>ts. length (preorder t) - 1) = length (concat (map preorder ts))"
proof (induction ts)
  case Nil
  then show ?case by simp
next
  case (Cons t ts)
  with preorder_nonempty [of t] show ?case by (cases "preorder t") auto
qed

lemma tree_count_children_spec:
  "tree_rep h t \<Longrightarrow> tneed t \<le> fuel \<Longrightarrow> tree_count_children fuel h (rroot t) = Done (of_nat (length (preorder t) - 1))"
proof (induction t arbitrary: fuel)
  case (RNode a ts)
  then obtain n ns where n: "a \<noteq> NULL" "th_nodes h a = Some n" "list_rep (th_lists h) (tn_children n) ns"
    "map (node_value (th_lists h)) ns = map rroot ts" by auto
  from RNode.prems(2) obtain f where f: "fuel = Suc f" "tneed_list ts \<le> f" by (cases fuel) auto
  from n(3) obtain l where l: "list_at (th_lists h) (tn_children n) = Done l" "lst_head l = first_of ns NULL"
    "lst_length l = of_nat (length ns)" "dseg (lh_nodes (th_lists h)) (tn_children n) NULL ns NULL" "tn_children n \<noteq> NULL"
    by (auto simp: list_rep_def)
  have "tree_count_list f h (first_of ns NULL) k = Done (k + of_nat (\<Sum>t\<leftarrow>ts. length (preorder t) - 1))" for k
    using RNode f(2) by (intro tree_count_list_spec [OF l(4) n(4)]) auto
  moreover have "length ns = length ts" using n(4) by (metis length_map)
  moreover have "of_nat (length ts) + of_nat (\<Sum>t\<leftarrow>ts. length (preorder t) - 1) =
      (of_nat (length (concat (map preorder ts))) :: u64)"
    by (metis of_nat_add sum_preorder)
  ultimately show ?case using n(1,2) f(1) l by (simp add: tnode_at_def)
qed

section \<open>Properties\<close>

text \<open>
  C17: On every heap that represents a tree, the recursive walks terminate: \<open>tree_find\<close> returns the
  first node in preorder whose value the comparator accepts, or NULL, and \<open>tree_count_children\<close> the
  number of proper descendants.
\<close>

theorem tree_find_first_in_preorder:
  assumes "tree_rep h r" "tree_addrs_ok h r" "tree_root t = rroot r"
  shows "tree_find h t comparator = Done (first_of (filter (\<lambda>a. comparator (tvalue h a)) (preorder r)) NULL) \<and>
         tree_count_children (tree_fuel h) h (rroot r) = Done (of_nat (length (preorder r) - 1))"
  using tree_find_node_spec [OF assms(1) tree_fuel_enough [OF assms(2)]]
    tree_count_children_spec [OF assms(1) tree_fuel_enough [OF assms(2)]] assms(3)
  by (simp add: tree_find_def tree_pick_def)

definition tree_heap_empty :: tree_heap where
  "tree_heap_empty = \<lparr>th_lists = \<lparr>lh_nodes = Map.empty, lh_lists = Map.empty, lh_brk = 1,
     lh_junk = (\<lambda>_. \<lparr>nd_next = 57, nd_prev = 58, nd_value = 59, nd_owner = 60\<rparr>), lh_freed = []\<rparr>,
     th_nodes = Map.empty\<rparr>"

theorem tree_find_first_in_preorder_witness:
  "tree_find (fst (tree_set_parent tree_heap_empty (tree_create ''vfs'') 7))
     (snd (tree_set_parent tree_heap_empty (tree_create ''vfs'') 7)) (\<lambda>v. v = 7) = Done 1"
proof -
  let ?h = "fst (tree_set_parent tree_heap_empty (tree_create ''vfs'') 7)"
  let ?t = "snd (tree_set_parent tree_heap_empty (tree_create ''vfs'') 7)"
  have "tree_rep ?h (RNode 1 [])" "tree_addrs_ok ?h (RNode 1 [])" "tree_root ?t = rroot (RNode 1 [])" "tvalue ?h 1 = 7"
    by (simp_all add: tree_set_parent_def tree_heap_empty_def tree_create_node_def list_create_def list_rep_def
        tree_addrs_ok_def tvalue_def)
  with tree_find_first_in_preorder [of ?h "RNode 1 []" ?t "\<lambda>v. v = 7"] show ?thesis by simp
qed


text \<open>The loop of \<open>tree_remove_reparent\<close> stops after the first child: its \<open>next\<close> is now NULL.\<close>

lemma tree_move_children_first:
  assumes p: "th_nodes h parent = Some pn" "parent \<noteq> NULL" and rep: "list_rep (th_lists h) (tn_children pn) ms"
    and c: "lh_nodes (th_lists h) c = Some nc" "c \<noteq> NULL" "c \<notin> set ms"
    and v: "th_nodes h (nd_value nc) = Some cn" "nd_value nc \<noteq> NULL"
  shows "\<exists>h'. tree_move_children (Suc fuel) h parent c = Done h' \<and> list_rep (th_lists h') (tn_children pn) (ms @ [c]) \<and>
           th_nodes h' = (th_nodes h)(nd_value nc \<mapsto> cn\<lparr>tn_parent := parent\<rparr>)"
proof -
  let ?lh = "(th_lists h)\<lparr>lh_nodes := (lh_nodes (th_lists h))(c \<mapsto> nc\<lparr>nd_owner := tn_children pn\<rparr>)\<rparr>"
  have "list_rep ?lh (tn_children pn) ms" using rep c(3) by (simp add: list_rep_def)
  from list_append_node_spec [OF this _ c(2,3)] obtain lh' where
    lh': "list_append_node ?lh (tn_children pn) c = Done lh'" "list_rep lh' (tn_children pn) (ms @ [c])" by force
  from lh'(2) obtain nc' where nc': "lh_nodes lh' c = Some nc'" "nd_next nc' = NULL" by (auto simp: list_rep_def)
  have "tree_move_children fuel (h\<lparr>th_lists := lh', th_nodes := x\<rparr>) parent NULL =
      Done (h\<lparr>th_lists := lh', th_nodes := x\<rparr>)" for x
    by (cases fuel) simp_all
  then have "tree_move_children (Suc fuel) h parent c =
      Done (h\<lparr>th_lists := lh', th_nodes := (th_nodes h)(nd_value nc \<mapsto> cn\<lparr>tn_parent := parent\<rparr>)\<rparr>)"
    using p c(1,2) v lh'(1) nc' by (cases h) (simp add: tnode_at_def on_lists_def Let_def)
  with lh'(2) show ?thesis by simp
qed

text \<open>
  \<open>tree_remove_reparent\<close>, and so \<open>tree_remove\<close>, moves only the first child of the removed node to the
  parent: the parent's children afterwards are its old ones without the node, and then that one
  child. The removed node's other children \<open>cs\<close> are in no list any more.
\<close>

lemma tree_remove_reparent_keeps_first_child_only:
  assumes ok: "list_heap_ok (th_lists h)"
    and nodes: "th_nodes h parent = Some pn" "parent \<noteq> NULL" "th_nodes h node = Some nn" "node \<noteq> NULL"
    and lists: "list_rep (th_lists h) (tn_children pn) (xs @ a # ys)" "list_rep (th_lists h) (tn_children nn) (c # cs)"
      "tn_children pn \<noteq> tn_children nn" "length (c # cs) < 2 ^ 64"
    and here: "node_value (th_lists h) a = node" "\<forall>x\<in>set xs. node_value (th_lists h) x \<noteq> node"
    and child: "node_value (th_lists h) c = k" "th_nodes h k = Some kn" "k \<noteq> NULL"
  shows "\<exists>h'. tree_remove_reparent h parent node = Done h' \<and>
           list_rep (th_lists h') (tn_children pn) (xs @ ys @ [c]) \<and> th_nodes h' node = None"
proof -
  have "filter (\<lambda>x. node_value (th_lists h) x = node) (xs @ a # ys) =
      a # filter (\<lambda>x. node_value (th_lists h) x = node) ys"
    using here by (auto simp: filter_empty_conv)
  then have found: "list_find (th_lists h) (tn_children pn) node = Done a"
    using list_find_spec [OF ok lists(1), of node] by (simp del: filter_append)
  have "a \<noteq> NULL" using lists(1) by (auto simp: list_rep_def)
  from list_delete_spec [OF lists(1)] obtain lh1 where
    lh1: "list_delete (th_lists h) (tn_children pn) a = Done lh1" "list_rep lh1 (tn_children pn) (xs @ ys)"
    "list_frame (tn_children pn) (set (xs @ a # ys)) (th_lists h) lh1" by blast
  note disj = list_rep_owners_disjoint [OF lists(1,2) lists(3) [symmetric]]
  have kids: "list_rep lh1 (tn_children nn) (c # cs)"
    using list_frame_other [OF lh1(3) lists(3) [symmetric], of "c # cs"] disj lists(2) by blast
  then obtain l nc where l: "list_at lh1 (tn_children nn) = Done l" "lst_head l = c" "lst_length l = of_nat (length (c # cs))"
    "lh_nodes lh1 c = Some nc" "c \<noteq> NULL" by (auto simp: list_rep_def)
  have "unat (of_nat (length (c # cs)) :: u64) = length (c # cs)" using lists(4) by (intro unat_of_nat_less) simp
  then have len: "lst_length l \<noteq> 0" unfolding l(3) by (metis length_Suc_conv nat.simps(3) unsigned_0)
  have v: "nd_value nc = k" using child(1) lh1(3) l(4) by (auto simp: list_frame_def node_value_def) (metis option.simps(5))
  have "c \<notin> set (xs @ ys)" using disj by auto
  moreover obtain fuel where fuel: "lh_brk lh1 = Suc fuel"
    using ok lh1(3) by (cases "lh_brk lh1") (auto simp: list_frame_def list_heap_ok_def)
  ultimately obtain h2 where h2: "tree_move_children (lh_brk lh1) (h\<lparr>th_lists := lh1\<rparr>) parent c = Done h2"
    "list_rep (th_lists h2) (tn_children pn) ((xs @ ys) @ [c])"
    "th_nodes h2 = (th_nodes h)(k \<mapsto> kn\<lparr>tn_parent := parent\<rparr>)"
    using tree_move_children_first [of "h\<lparr>th_lists := lh1\<rparr>" parent pn "xs @ ys" c nc kn fuel] nodes lh1(2) l(4,5) v child
    by auto
  have "tree_remove_reparent h parent node = Done (h2\<lparr>th_lists := (th_lists h2)
      \<lparr>lh_lists := (lh_lists (th_lists h2))(tn_children nn := None)\<rparr>, th_nodes := (th_nodes h2)(node := None)\<rparr>)"
    using nodes found \<open>a \<noteq> NULL\<close> lh1(1) l(1,2) len h2(1)
    by (simp add: tree_remove_reparent_def tnode_at_def on_lists_def)
  moreover have "list_rep ((th_lists h2)\<lparr>lh_lists := (lh_lists (th_lists h2))(tn_children nn := None)\<rparr>)
      (tn_children pn) (xs @ ys @ [c])"
    using h2(2) lists(3) by (simp add: list_rep_def)
  ultimately show ?thesis by simp
qed


text \<open>Node 1 has the child 2, which has the children 3 and 4.\<close>

definition tree_heap_small :: tree_heap where
  "tree_heap_small = \<lparr>
     th_lists = \<lparr>
       lh_nodes = [11 \<mapsto> \<lparr>nd_next = 0, nd_prev = 0, nd_value = 2, nd_owner = 10\<rparr>,
                   21 \<mapsto> \<lparr>nd_next = 22, nd_prev = 0, nd_value = 3, nd_owner = 20\<rparr>,
                   22 \<mapsto> \<lparr>nd_next = 0, nd_prev = 21, nd_value = 4, nd_owner = 20\<rparr>],
       lh_lists = [10 \<mapsto> \<lparr>lst_name = ''c'', lst_head = 11, lst_tail = 11, lst_length = 1\<rparr>,
                   20 \<mapsto> \<lparr>lst_name = ''c'', lst_head = 21, lst_tail = 22, lst_length = 2\<rparr>],
       lh_brk = 30, lh_junk = (\<lambda>_. \<lparr>nd_next = 0, nd_prev = 0, nd_value = 0, nd_owner = 0\<rparr>), lh_freed = []\<rparr>,
     th_nodes = [1 \<mapsto> \<lparr>tn_value = 101, tn_children = 10, tn_parent = 0\<rparr>,
                 2 \<mapsto> \<lparr>tn_value = 102, tn_children = 20, tn_parent = 1\<rparr>,
                 3 \<mapsto> \<lparr>tn_value = 103, tn_children = 40, tn_parent = 2\<rparr>,
                 4 \<mapsto> \<lparr>tn_value = 104, tn_children = 41, tn_parent = 2\<rparr>]\<rparr>"

end
