(* ===== verification/Libc_String.thy ===== *)
theory Libc_String
  imports Prelude
begin

text \<open>
  \<open>libpolyhedron/string/*.c\<close>, the string library that the kernel and the user programs share. Memory
  is one list of bytes and a pointer is an index of it, so that overlapping buffers are what they are
  in C; an access outside the list is a fault. Bytes are HOL characters; \<open>uchar\<close> and \<open>schar\<close> are their
  values as \<open>unsigned char\<close> and as the signed \<open>char\<close> of the target.
\<close>

section \<open>Bytes\<close>

type_synonym mem = "char list"

abbreviation (input) NUL :: char where
  "NUL \<equiv> CHR 0x00"

definition uchar :: "char \<Rightarrow> int" where
  "uchar c = of_char c"

definition schar :: "char \<Rightarrow> int" where
  "schar c = (if uchar c < 128 then uchar c else uchar c - 256)"

lemma uchar_range: "0 \<le> uchar c" "uchar c < 256"
  by (cases c; simp add: uchar_def of_char_def horner_sum_simps of_bool_def)+

lemma uchar_inject [simp]: "uchar c = uchar d \<longleftrightarrow> c = d"
  by (simp add: uchar_def of_char_eq_iff)

lemma schar_inject [simp]: "schar c = schar d \<longleftrightarrow> c = d"
  using uchar_range [of c] uchar_range [of d] by (auto simp: schar_def simp flip: uchar_inject)

lemma char_zero [simp]: "schar c = 0 \<longleftrightarrow> c = NUL" "uchar c = 0 \<longleftrightarrow> c = NUL"
proof -
  have z: "uchar NUL = 0" by (simp add: uchar_def)
  then show "uchar c = 0 \<longleftrightarrow> c = NUL" by (metis uchar_inject)
  from z have "schar NUL = 0" by (simp add: schar_def)
  then show "schar c = 0 \<longleftrightarrow> c = NUL" by (metis schar_inject)
qed

lemma uchar_NUL [simp]: "uchar NUL = 0"
  by (simp add: uchar_def)

section \<open>Character classes (ctype.c)\<close>

definition isalnum :: "int \<Rightarrow> bool" where
  "isalnum c \<longleftrightarrow> (48 \<le> c \<and> c \<le> 57) \<or> (65 \<le> c \<and> c \<le> 90) \<or> (97 \<le> c \<and> c \<le> 122)"

definition isalpha :: "int \<Rightarrow> bool" where
  "isalpha c \<longleftrightarrow> (65 \<le> c \<and> c \<le> 90) \<or> (97 \<le> c \<and> c \<le> 122)"

definition iscntrl :: "int \<Rightarrow> bool" where
  "iscntrl c \<longleftrightarrow> c < 32"

definition isdigit :: "int \<Rightarrow> bool" where
  "isdigit c \<longleftrightarrow> 48 \<le> c \<and> c \<le> 57"

definition isgraph :: "int \<Rightarrow> bool" where
  "isgraph c \<longleftrightarrow> False"

definition islower :: "int \<Rightarrow> bool" where
  "islower c \<longleftrightarrow> 97 \<le> c \<and> c \<le> 122"

definition isprint :: "int \<Rightarrow> bool" where
  "isprint c \<longleftrightarrow> 32 \<le> c \<and> c \<le> 127"

definition ispunct :: "int \<Rightarrow> bool" where
  "ispunct c \<longleftrightarrow> c = 46 \<or> c = 33 \<or> c = 63 \<or> c = 44"

definition isspace :: "int \<Rightarrow> bool" where
  "isspace c \<longleftrightarrow> c = 32 \<or> c = 9 \<or> c = 11 \<or> c = 10 \<or> c = 13"

definition isupper :: "int \<Rightarrow> bool" where
  "isupper c \<longleftrightarrow> 65 \<le> c \<and> c \<le> 90"

definition isxdigit :: "int \<Rightarrow> bool" where
  "isxdigit c \<longleftrightarrow> isdigit c \<or> (97 \<le> c \<and> c \<le> 102) \<or> (65 \<le> c \<and> c \<le> 70)"

definition isblank :: "int \<Rightarrow> bool" where
  "isblank c \<longleftrightarrow> c = 9 \<or> c = 32"

definition toupper :: "int \<Rightarrow> int" where
  "toupper c = (if islower c then c - 32 else c)"

definition tolower :: "int \<Rightarrow> int" where
  "tolower c = (if isupper c then c + 32 else c)"

section \<open>Strings in memory\<close>

text \<open>The bytes at \<open>p\<close> are the string \<open>s\<close> and its terminator.\<close>

definition cstr_at :: "mem \<Rightarrow> nat \<Rightarrow> string \<Rightarrow> bool" where
  "cstr_at m p s \<longleftrightarrow> p + length s < length m \<and> take (length s) (drop p m) = s \<and>
     m ! (p + length s) = NUL \<and> NUL \<notin> set s"

lemma cstr_at_Nil: "cstr_at m p [] \<longleftrightarrow> p < length m \<and> m ! p = NUL"
  by (auto simp: cstr_at_def)

lemma cstr_at_Cons:
  "cstr_at m p (c # s) \<longleftrightarrow> p < length m \<and> m ! p = c \<and> c \<noteq> NUL \<and> cstr_at m (Suc p) s"
proof (cases "p < length m")
  case True
  then have "drop p m = m ! p # drop (Suc p) m" by (simp add: Cons_nth_drop_Suc)
  with True show ?thesis by (auto simp: cstr_at_def)
next
  case False
  then show ?thesis by (simp add: cstr_at_def)
qed

lemmas cstr_at_simps = cstr_at_Nil cstr_at_Cons

function strlen_loop :: "mem \<Rightarrow> nat \<Rightarrow> nat \<Rightarrow> nat outcome" where
  "strlen_loop m str n =
     (if str < length m then if m ! str = NUL then Done n else strlen_loop m (str + 1) (n + 1)
      else Fault OutOfBounds)"
  by pat_completeness auto
termination by (relation "measure (\<lambda>(m, str, n). length m - str)") auto

declare strlen_loop.simps [simp del]

definition strlen :: "mem \<Rightarrow> nat \<Rightarrow> nat outcome" where
  "strlen m str = strlen_loop m str 0"

lemma strlen_loop_spec: "cstr_at m p s \<Longrightarrow> strlen_loop m p n = Done (n + length s)"
  by (induction s arbitrary: p n) (simp_all add: cstr_at_simps strlen_loop.simps [of m])

lemma strlen_spec: "cstr_at m p s \<Longrightarrow> strlen m p = Done (length s)"
  by (simp add: strlen_def strlen_loop_spec)

section \<open>Comparison\<close>

function strcmp :: "mem \<Rightarrow> nat \<Rightarrow> nat \<Rightarrow> int outcome" where
  "strcmp m str1 str2 =
     and_then (array_get m str1) (\<lambda>a.
     if a = NUL then and_then (array_get m str2) (\<lambda>b. Done (uchar a - uchar b))
     else and_then (array_get m str2) (\<lambda>b.
          if b \<noteq> NUL \<and> a = b then strcmp m (str1 + 1) (str2 + 1) else Done (uchar a - uchar b)))"
  by pat_completeness auto
termination
  by (relation "measure (\<lambda>(m, p, q). length m - p)") (auto simp: array_get_Done_iff)

declare strcmp.simps [simp del]

text \<open>\<^verbatim>\<open>while (n-- && *s1 == *s2) { if (!n || !*s1) break; ... }\<close>, entered with \<open>n > 0\<close>.\<close>

fun strncmp_loop :: "(char \<Rightarrow> int) \<Rightarrow> mem \<Rightarrow> nat \<Rightarrow> nat \<Rightarrow> nat \<Rightarrow> int outcome" where
  "strncmp_loop key m s1 s2 n =
     and_then (array_get m s1) (\<lambda>a. and_then (array_get m s2) (\<lambda>b.
     case n of
       0 \<Rightarrow> Done (uchar a - uchar b)
     | Suc n' \<Rightarrow>
         if key a = key b \<and> n' \<noteq> 0 \<and> a \<noteq> NUL then strncmp_loop key m (s1 + 1) (s2 + 1) n'
         else Done (uchar a - uchar b)))"

declare strncmp_loop.simps [simp del]

definition strncmp :: "mem \<Rightarrow> nat \<Rightarrow> nat \<Rightarrow> nat \<Rightarrow> int outcome" where
  "strncmp m s1 s2 n = (if n = 0 then Done 0 else strncmp_loop schar m s1 s2 n)"

definition strncasecmp :: "mem \<Rightarrow> nat \<Rightarrow> nat \<Rightarrow> nat \<Rightarrow> int outcome" where
  "strncasecmp m s1 s2 n = (if n = 0 then Done 0 else strncmp_loop (\<lambda>c. tolower (schar c)) m s1 s2 n)"

function strcasecmp :: "mem \<Rightarrow> nat \<Rightarrow> nat \<Rightarrow> int outcome" where
  "strcasecmp m s1 s2 =
     and_then (array_get m s1) (\<lambda>a.
     if a = NUL then and_then (array_get m s2) (\<lambda>b. Done (uchar a - uchar b))
     else and_then (array_get m s2) (\<lambda>b.
          if b \<noteq> NUL \<and> tolower (schar a) = tolower (schar b) then strcasecmp m (s1 + 1) (s2 + 1)
          else Done (uchar a - uchar b)))"
  by pat_completeness auto
termination
  by (relation "measure (\<lambda>(m, p, q). length m - p)") (auto simp: array_get_Done_iff)

declare strcasecmp.simps [simp del]

fun memcmp_loop :: "mem \<Rightarrow> nat \<Rightarrow> nat \<Rightarrow> nat \<Rightarrow> int outcome" where
  "memcmp_loop m a b 0 = Done 0"
| "memcmp_loop m a b (Suc n) =
     and_then (array_get m a) (\<lambda>x. and_then (array_get m b) (\<lambda>y.
     if uchar x < uchar y then Done (- 1) else if uchar y < uchar x then Done 1
     else memcmp_loop m (a + 1) (b + 1) n))"

definition memcmp :: "mem \<Rightarrow> nat \<Rightarrow> nat \<Rightarrow> nat \<Rightarrow> int outcome" where
  "memcmp m aptr bptr n = memcmp_loop m aptr bptr n"

text \<open>Where two strings first differ decides every comparison; \<open>0\<close> means that they do not.\<close>

fun str_diff :: "string \<Rightarrow> string \<Rightarrow> int" where
  "str_diff [] [] = 0"
| "str_diff [] (b # t) = - uchar b"
| "str_diff (a # s) [] = uchar a"
| "str_diff (a # s) (b # t) = (if a = b then str_diff s t else uchar a - uchar b)"

lemma strcmp_spec: "cstr_at m p s \<Longrightarrow> cstr_at m q t \<Longrightarrow> strcmp m p q = Done (str_diff s t)"
proof (induction s t arbitrary: p q rule: str_diff.induct)
  case (4 a s b t)
  then show ?case by (cases "a = b") (simp_all add: cstr_at_simps strcmp.simps [of m p])
qed (simp_all add: cstr_at_simps strcmp.simps [of m])

lemma strncmp_loop_spec:
  "cstr_at m p s \<Longrightarrow> cstr_at m q t \<Longrightarrow> 0 < n \<Longrightarrow>
   strncmp_loop schar m p q n = Done (str_diff (take n s) (take n t))"
proof (induction s t arbitrary: p q n rule: str_diff.induct)
  case 1
  then show ?case by (cases n) (simp_all add: cstr_at_simps strncmp_loop.simps [of _ m])
next
  case (2 b t)
  then show ?case by (cases n) (simp_all add: cstr_at_simps strncmp_loop.simps [of _ m])
next
  case (3 a s)
  then show ?case by (cases n) (simp_all add: cstr_at_simps strncmp_loop.simps [of _ m])
next
  case (4 a s b t)
  then obtain n' where n': "n = Suc n'" by (cases n) auto
  show ?case
  proof (cases "a = b \<and> n' \<noteq> 0")
    case True
    with 4 n' show ?thesis by (simp add: cstr_at_simps strncmp_loop.simps [of _ m p])
  next
    case False
    with 4 n' show ?thesis by (auto simp: cstr_at_simps strncmp_loop.simps [of _ m p])
  qed
qed

lemma str_diff_zero: "NUL \<notin> set s \<Longrightarrow> NUL \<notin> set t \<Longrightarrow> str_diff s t = 0 \<longleftrightarrow> s = t"
  by (induction s t rule: str_diff.induct) auto

section \<open>Copying\<close>

primrec memset_loop :: "mem \<Rightarrow> nat \<Rightarrow> char \<Rightarrow> nat \<Rightarrow> mem outcome" where
  "memset_loop m dest v 0 = Done m"
| "memset_loop m dest v (Suc n) = and_then (array_set m dest v) (\<lambda>m'. memset_loop m' (dest + 1) v n)"

definition memset :: "mem \<Rightarrow> nat \<Rightarrow> int \<Rightarrow> nat \<Rightarrow> mem outcome" where
  "memset m destination_ptr v n = memset_loop m destination_ptr (char_of (v mod 256)) n"

text \<open>Loads and stores of \<open>k\<close> bytes at once, for the 64- and 32-bit copies of \<open>memcpy\<close>.\<close>

definition load_bytes :: "mem \<Rightarrow> nat \<Rightarrow> nat \<Rightarrow> mem outcome" where
  "load_bytes m p k = (if p + k \<le> length m then Done (take k (drop p m)) else Fault OutOfBounds)"

definition store_bytes :: "mem \<Rightarrow> nat \<Rightarrow> mem \<Rightarrow> mem outcome" where
  "store_bytes m p bs = (if p + length bs \<le> length m
     then Done (take p m @ bs @ drop (p + length bs) m) else Fault OutOfBounds)"

text \<open>\<^verbatim>\<open>for (; n >= k; n -= k) *d++ = *s++;\<close>; the result is the memory, both pointers and \<open>n\<close>.\<close>

function memcpy_chunks :: "nat \<Rightarrow> mem \<Rightarrow> nat \<Rightarrow> nat \<Rightarrow> nat \<Rightarrow> (mem \<times> nat \<times> nat \<times> nat) outcome" where
  "memcpy_chunks k m d s n =
     (if k = 0 \<or> n < k then Done (m, d, s, n)
      else
        and_then (load_bytes m s k) (\<lambda>bs.
        and_then (store_bytes m d bs) (\<lambda>m'.
        memcpy_chunks k m' (d + k) (s + k) (n - k))))"
  by pat_completeness auto
termination by (relation "measure (\<lambda>(k, m, d, s, n). n)") auto

declare memcpy_chunks.simps [simp del]

definition memcpy :: "mem \<Rightarrow> nat \<Rightarrow> nat \<Rightarrow> nat \<Rightarrow> mem outcome" where
  "memcpy m dest src n =
     and_then (memcpy_chunks 8 m dest src n) (\<lambda>(m1, d1, s1, n1).
     and_then (memcpy_chunks 4 m1 d1 s1 n1) (\<lambda>(m2, d2, s2, n2).
     and_then (memcpy_chunks 1 m2 d2 s2 n2) (\<lambda>(m3, d3, s3, n3).
     Done m3)))"

primrec copy_up :: "mem \<Rightarrow> nat \<Rightarrow> nat \<Rightarrow> nat \<Rightarrow> nat \<Rightarrow> mem outcome" where
  "copy_up m dest src i 0 = Done m"
| "copy_up m dest src i (Suc n) =
     and_then (array_get m (src + i)) (\<lambda>c.
     and_then (array_set m (dest + i) c) (\<lambda>m'. copy_up m' dest src (i + 1) n))"

primrec copy_down :: "mem \<Rightarrow> nat \<Rightarrow> nat \<Rightarrow> nat \<Rightarrow> mem outcome" where
  "copy_down m dest src 0 = Done m"
| "copy_down m dest src (Suc i) =
     and_then (array_get m (src + i)) (\<lambda>c.
     and_then (array_set m (dest + i) c) (\<lambda>m'. copy_down m' dest src i))"

definition memmove :: "mem \<Rightarrow> nat \<Rightarrow> nat \<Rightarrow> nat \<Rightarrow> mem outcome" where
  "memmove m destination source n =
     (if destination < source then copy_up m destination source 0 n
      else copy_down m destination source n)"

definition strncpy :: "mem \<Rightarrow> nat \<Rightarrow> nat \<Rightarrow> nat \<Rightarrow> mem outcome" where
  "strncpy m destination_str source_str n = copy_up m destination_str source_str 0 n"

function strcpy :: "mem \<Rightarrow> nat \<Rightarrow> nat \<Rightarrow> mem outcome" where
  "strcpy m dest src =
     and_then (array_get m src) (\<lambda>c.
     and_then (array_set m dest c) (\<lambda>m'.
     if c = NUL then Done m' else strcpy m' (dest + 1) (src + 1)))"
  by pat_completeness auto
termination by (relation "measure (\<lambda>(m, dest, src). length m - dest)") (auto simp: outcome_iff)

declare strcpy.simps [simp del]

function str_end :: "mem \<Rightarrow> nat \<Rightarrow> nat outcome" where
  "str_end m p = and_then (array_get m p) (\<lambda>c. if c = NUL then Done p else str_end m (p + 1))"
  by pat_completeness auto
termination by (relation "measure (\<lambda>(m, p). length m - p)") (auto simp: outcome_iff)

declare str_end.simps [simp del]

text \<open>\<^verbatim>\<open>while (*src && i < n) { *end++ = *src++; i++; } *end = 0;\<close>; \<open>None\<close> is no bound on \<open>i\<close>.\<close>

function strcat_loop :: "nat option \<Rightarrow> mem \<Rightarrow> nat \<Rightarrow> nat \<Rightarrow> mem outcome" where
  "strcat_loop n m e src =
     and_then (array_get m src) (\<lambda>c.
     if c = NUL \<or> n = Some 0 then array_set m e NUL
     else and_then (array_set m e c) (\<lambda>m'. strcat_loop (map_option (\<lambda>k. k - 1) n) m' (e + 1) (src + 1)))"
  by pat_completeness auto
termination by (relation "measure (\<lambda>(n, m, e, src). length m - e)") (auto simp: outcome_iff)

declare strcat_loop.simps [simp del]

definition strcat :: "mem \<Rightarrow> nat \<Rightarrow> nat \<Rightarrow> mem outcome" where
  "strcat m dest src = and_then (str_end m dest) (\<lambda>e. strcat_loop None m e src)"

definition strncat :: "mem \<Rightarrow> nat \<Rightarrow> nat \<Rightarrow> nat \<Rightarrow> mem outcome" where
  "strncat m dest src n = and_then (str_end m dest) (\<lambda>e. strcat_loop (Some n) m e src)"

text \<open>\<open>malloc\<close> is the allocator: a pointer and the memory that holds the new block, or \<open>None\<close>.\<close>

definition strdup :: "(nat \<Rightarrow> mem \<Rightarrow> (nat \<times> mem) option) \<Rightarrow> mem \<Rightarrow> nat \<Rightarrow> (nat option \<times> mem) outcome" where
  "strdup malloc m str =
     and_then (strlen m str) (\<lambda>n.
     case malloc (n + 1) m of
       None \<Rightarrow> Done (None, m)
     | Some (new_str, m1) \<Rightarrow>
         and_then (strlen m1 str) (\<lambda>n1.
         and_then (memcpy m1 new_str str (n1 + 1)) (\<lambda>m2. Done (Some new_str, m2))))"

section \<open>Searching\<close>

function strchr :: "mem \<Rightarrow> nat \<Rightarrow> int \<Rightarrow> nat option outcome" where
  "strchr m ptr character =
     and_then (array_get m ptr) (\<lambda>c.
     if c = NUL then Done None
     else if schar c = character then Done (Some ptr) else strchr m (ptr + 1) character)"
  by pat_completeness auto
termination by (relation "measure (\<lambda>(m, p, c). length m - p)") (auto simp: outcome_iff)

declare strchr.simps [simp del]

function strrchr_loop :: "mem \<Rightarrow> nat \<Rightarrow> int \<Rightarrow> nat option \<Rightarrow> nat option outcome" where
  "strrchr_loop m ptr character occurence =
     and_then (array_get m ptr) (\<lambda>c.
     if c = NUL then Done occurence
     else strrchr_loop m (ptr + 1) character (if schar c = character then Some ptr else occurence))"
  by pat_completeness auto
termination by (relation "measure (\<lambda>(m, p, c, r). length m - p)") (auto simp: outcome_iff)

declare strrchr_loop.simps [simp del]

definition strrchr :: "mem \<Rightarrow> nat \<Rightarrow> int \<Rightarrow> nat option outcome" where
  "strrchr m str character = strrchr_loop m str character None"

function strchrnul :: "mem \<Rightarrow> nat \<Rightarrow> int \<Rightarrow> nat outcome" where
  "strchrnul m ptr character =
     and_then (array_get m ptr) (\<lambda>c.
     if c \<noteq> NUL \<and> schar c \<noteq> character then strchrnul m (ptr + 1) character else Done ptr)"
  by pat_completeness auto
termination by (relation "measure (\<lambda>(m, p, c). length m - p)") (auto simp: outcome_iff)

declare strchrnul.simps [simp del]

text \<open>
  \<open>BITOP\<close>: a set of bytes in four 64-bit words. Skipping runs on the set, the complement for
  \<open>strcspn\<close>, or on one character.
\<close>

definition byteset_add :: "u64 list \<Rightarrow> char \<Rightarrow> u64 list" where
  "byteset_add bs c = (let b = nat (uchar c) in bs[b div 64 := bs ! (b div 64) OR push_bit (b mod 64) 1])"

definition byteset_has :: "u64 list \<Rightarrow> char \<Rightarrow> bool" where
  "byteset_has bs c = (let b = nat (uchar c) in bs ! (b div 64) AND push_bit (b mod 64) 1 \<noteq> 0)"

function byteset_build :: "mem \<Rightarrow> nat \<Rightarrow> u64 list \<Rightarrow> u64 list outcome" where
  "byteset_build m c bs =
     and_then (array_get m c) (\<lambda>x. if x = NUL then Done bs else byteset_build m (c + 1) (byteset_add bs x))"
  by pat_completeness auto
termination by (relation "measure (\<lambda>(m, c, bs). length m - c)") (auto simp: outcome_iff)

declare byteset_build.simps [simp del]

function skip_while :: "(char \<Rightarrow> bool) \<Rightarrow> mem \<Rightarrow> nat \<Rightarrow> nat outcome" where
  "skip_while P m str =
     and_then (array_get m str) (\<lambda>x. if x \<noteq> NUL \<and> P x then skip_while P m (str + 1) else Done str)"
  by pat_completeness auto
termination by (relation "measure (\<lambda>(P, m, str). length m - str)") (auto simp: outcome_iff)

declare skip_while.simps [simp del]

definition strspn :: "mem \<Rightarrow> nat option \<Rightarrow> nat option \<Rightarrow> nat outcome" where
  "strspn m str c = (case (str, c) of
     (Some p, Some q) \<Rightarrow>
       and_then (array_get m q) (\<lambda>c0.
       if c0 = NUL then Done 0
       else and_then (array_get m (q + 1)) (\<lambda>c1.
         if c1 = NUL then and_then (skip_while (\<lambda>x. x = c0) m p) (\<lambda>e. Done (e - p))
         else
           and_then (byteset_build m q (replicate 4 0)) (\<lambda>bs.
           and_then (skip_while (byteset_has bs) m p) (\<lambda>e. Done (e - p)))))
   | _ \<Rightarrow> Done 0)"

definition strcspn :: "mem \<Rightarrow> nat \<Rightarrow> nat \<Rightarrow> nat outcome" where
  "strcspn m p q =
     and_then (array_get m q) (\<lambda>c0.
     and_then (if c0 = NUL then Done NUL else array_get m (q + 1)) (\<lambda>c1.
     if c0 \<noteq> NUL \<and> c1 \<noteq> NUL then
       and_then (byteset_build m q (replicate 4 0)) (\<lambda>bs.
       and_then (skip_while (\<lambda>x. \<not> byteset_has bs x) m p) (\<lambda>e. Done (e - p)))
     else and_then (strchrnul m p (schar c0)) (\<lambda>e. Done (e - p))))"

definition strpbrk :: "mem \<Rightarrow> nat \<Rightarrow> nat \<Rightarrow> nat option outcome" where
  "strpbrk m str1 str2 =
     and_then (strcspn m str1 str2) (\<lambda>n.
     and_then (array_get m (str1 + n)) (\<lambda>c. Done (if c \<noteq> NUL then Some (str1 + n) else None)))"

text \<open>
  \<open>strtok_r\<close> gives the token, the memory (a separator becomes the terminator) and the new \<open>*lasts\<close>.
  The end of the last token is found with \<open>strchr(token, 0)\<close>, which never finds the terminator.
\<close>

definition strtok_r ::
  "mem \<Rightarrow> nat option \<Rightarrow> nat \<Rightarrow> nat option \<Rightarrow> (nat option \<times> mem \<times> nat option) outcome" where
  "strtok_r m str0 seps lasts =
     (case (if str0 = None then lasts else str0) of
        None \<Rightarrow> Done (None, m, lasts)
      | Some str \<Rightarrow>
          and_then (strspn m (Some str) (Some seps)) (\<lambda>k.
          and_then (array_get m (str + k)) (\<lambda>c.
          if c = NUL then Done (None, m, Some (str + k))
          else
            let token = str + k in
            and_then (strpbrk m token seps) (\<lambda>r.
            case r of
              None \<Rightarrow> and_then (strchr m token 0) (\<lambda>e. Done (Some token, m, e))
            | Some e \<Rightarrow> and_then (array_set m e NUL) (\<lambda>m'. Done (Some token, m', Some (e + 1)))))))"

definition strtok :: "mem \<Rightarrow> nat option \<Rightarrow> nat \<Rightarrow> nat option \<Rightarrow> (nat option \<times> mem \<times> nat option) outcome" where
  "strtok m str seps lasts = strtok_r m str seps lasts"

section \<open>What the copies do\<close>

text \<open>\<open>overwrite m d bs\<close>: the memory with \<open>bs\<close> stored from \<open>d\<close> on.\<close>

definition overwrite :: "mem \<Rightarrow> nat \<Rightarrow> mem \<Rightarrow> mem" where
  "overwrite m d bs = take d m @ bs @ drop (d + length bs) m"

lemma length_overwrite [simp]: "d + length bs \<le> length m \<Longrightarrow> length (overwrite m d bs) = length m"
  by (simp add: overwrite_def)

lemma nth_overwrite:
  "d + length bs \<le> length m \<Longrightarrow> i < length m \<Longrightarrow>
   overwrite m d bs ! i = (if d \<le> i \<and> i < d + length bs then bs ! (i - d) else m ! i)"
  by (auto simp: overwrite_def nth_append min_def)

text \<open>\<open>slice m s n\<close>: the \<open>n\<close> bytes from \<open>s\<close> on.\<close>

definition slice :: "mem \<Rightarrow> nat \<Rightarrow> nat \<Rightarrow> mem" where
  "slice m s n = take n (drop s m)"

lemma length_slice [simp]: "s + n \<le> length m \<Longrightarrow> length (slice m s n) = n"
  by (simp add: slice_def)

lemma nth_slice [simp]: "s + n \<le> length m \<Longrightarrow> i < n \<Longrightarrow> slice m s n ! i = m ! (s + i)"
  by (simp add: slice_def)

lemma slice_0 [simp]: "slice m s 0 = []"
  by (simp add: slice_def)

lemma overwrite_Nil [simp]: "overwrite m d [] = m"
  by (simp add: overwrite_def)

lemma copy_up_spec:
  "d \<le> s \<Longrightarrow> s + i + n \<le> length m \<Longrightarrow> copy_up m d s i n = Done (overwrite m (d + i) (slice m (s + i) n))"
proof (induction n arbitrary: m i)
  case 0
  then show ?case by simp
next
  case (Suc n)
  let ?m' = "m[d + i := m ! (s + i)]"
  have "copy_up m d s i (Suc n) = copy_up ?m' d s (Suc i) n" using Suc.prems by simp
  also have "\<dots> = Done (overwrite ?m' (d + Suc i) (slice ?m' (s + Suc i) n))"
    using Suc.prems by (intro Suc.IH) auto
  also have "overwrite ?m' (d + Suc i) (slice ?m' (s + Suc i) n) = overwrite m (d + i) (slice m (s + i) (Suc n))"
    using Suc.prems
    by (intro nth_equalityI) (auto simp: nth_overwrite nth_list_update intro!: arg_cong [where f = "nth m"])
  finally show ?case .
qed

lemma copy_up_spec_apart:
  "s + i + n \<le> d \<Longrightarrow> d + i + n \<le> length m \<Longrightarrow> copy_up m d s i n = Done (overwrite m (d + i) (slice m (s + i) n))"
proof (induction n arbitrary: m i)
  case 0
  then show ?case by simp
next
  case (Suc n)
  let ?m' = "m[d + i := m ! (s + i)]"
  have "copy_up m d s i (Suc n) = copy_up ?m' d s (Suc i) n" using Suc.prems by simp
  also have "\<dots> = Done (overwrite ?m' (d + Suc i) (slice ?m' (s + Suc i) n))"
    using Suc.prems by (intro Suc.IH) auto
  also have "overwrite ?m' (d + Suc i) (slice ?m' (s + Suc i) n) = overwrite m (d + i) (slice m (s + i) (Suc n))"
    using Suc.prems
    by (intro nth_equalityI) (auto simp: nth_overwrite nth_list_update intro!: arg_cong [where f = "nth m"])
  finally show ?case .
qed

lemma copy_down_spec:
  "s \<le> d \<Longrightarrow> d + n \<le> length m \<Longrightarrow> copy_down m d s n = Done (overwrite m d (slice m s n))"
proof (induction n arbitrary: m)
  case 0
  then show ?case by simp
next
  case (Suc n)
  let ?m' = "m[d + n := m ! (s + n)]"
  have "copy_down m d s (Suc n) = copy_down ?m' d s n" using Suc.prems by simp
  also have "\<dots> = Done (overwrite ?m' d (slice ?m' s n))"
    using Suc.prems by (intro Suc.IH) auto
  also have "overwrite ?m' d (slice ?m' s n) = overwrite m d (slice m s (Suc n))"
    using Suc.prems by (intro nth_equalityI) (auto simp: nth_overwrite nth_list_update)
  finally show ?case .
qed

lemma memcpy_chunks_spec:
  "0 < k \<Longrightarrow> s + n \<le> length m \<Longrightarrow> d + n \<le> length m \<Longrightarrow> d + n \<le> s \<or> s + n \<le> d \<Longrightarrow>
   \<exists>c r. memcpy_chunks k m d s n = Done (overwrite m d (slice m s c), d + c, s + c, r) \<and> c + r = n \<and> r < k"
proof (induction n arbitrary: m d s rule: less_induct)
  case (less n)
  show ?case
  proof (cases "n < k")
    case True
    then have "memcpy_chunks k m d s n = Done (overwrite m d (slice m s 0), d + 0, s + 0, n)"
      by (simp add: memcpy_chunks.simps [of k m d s n])
    with True show ?thesis by (metis add_0)
  next
    case False
    let ?m' = "overwrite m d (slice m s k)"
    have len: "length ?m' = length m" using False less.prems by simp
    have "s + k \<le> length m" "d + k \<le> length m" using False less.prems by auto
    then have step: "memcpy_chunks k m d s n = memcpy_chunks k ?m' (d + k) (s + k) (n - k)"
      using False less.prems(1)
      by (simp add: memcpy_chunks.simps [of k m d s n] load_bytes_def store_bytes_def overwrite_def
          slice_def [symmetric])
    have "\<exists>c r. memcpy_chunks k ?m' (d + k) (s + k) (n - k) =
        Done (overwrite ?m' (d + k) (slice ?m' (s + k) c), d + k + c, s + k + c, r) \<and> c + r = n - k \<and> r < k"
      using False less.prems len by (intro less.IH) auto
    then obtain c r where rc: "memcpy_chunks k ?m' (d + k) (s + k) (n - k) =
        Done (overwrite ?m' (d + k) (slice ?m' (s + k) c), d + k + c, s + k + c, r)" "c + r = n - k" "r < k"
      by blast
    have "overwrite ?m' (d + k) (slice ?m' (s + k) c) = overwrite m d (slice m s (k + c))"
      using False less.prems rc(2) len
      by (intro nth_equalityI) (auto simp: nth_overwrite add.commute add.left_commute)
    with step rc False show ?thesis by (intro exI [of _ "k + c"] exI [of _ r]) (auto simp: add.assoc)
  qed
qed

lemma slice_more:
  assumes "src + n \<le> length m" "dest + n \<le> length m" "dest + n \<le> src \<or> src + n \<le> dest" "c + e \<le> n"
  defines "w \<equiv> overwrite m dest (slice m src c)"
  shows "overwrite w (dest + c) (slice w (src + c) e) = overwrite m dest (slice m src (c + e))"
  using assms by (intro nth_equalityI) (auto simp: w_def nth_overwrite add.commute add.left_commute)

lemma memcpy_spec:
  assumes "src + n \<le> length m" "dest + n \<le> length m" "dest + n \<le> src \<or> src + n \<le> dest"
  shows "memcpy m dest src n = Done (overwrite m dest (slice m src n))"
proof -
  let ?w = "\<lambda>c. overwrite m dest (slice m src c)"
  note more = slice_more [OF assms]
  have chunk: "\<exists>e r. memcpy_chunks k (?w c) (dest + c) (src + c) (n - c) =
      Done (?w (c + e), dest + (c + e), src + (c + e), n - (c + e)) \<and> c + e + r = n \<and> r < k"
    if "c \<le> n" "0 < k" for c k
  proof -
    have "\<exists>e r. memcpy_chunks k (?w c) (dest + c) (src + c) (n - c) =
        Done (overwrite (?w c) (dest + c) (slice (?w c) (src + c) e), dest + c + e, src + c + e, r) \<and>
        e + r = n - c \<and> r < k"
      using assms that by (intro memcpy_chunks_spec) auto
    then obtain e r where er: "memcpy_chunks k (?w c) (dest + c) (src + c) (n - c) =
        Done (overwrite (?w c) (dest + c) (slice (?w c) (src + c) e), dest + c + e, src + c + e, r)"
      "e + r = n - c" "r < k" by blast
    with more [of c e] that show ?thesis by (intro exI [of _ e] exI [of _ r]) (auto simp: add.assoc)
  qed
  from chunk [of 0 8] obtain c1 where
    1: "memcpy_chunks 8 m dest src n = Done (?w c1, dest + c1, src + c1, n - c1)" "c1 \<le> n" by auto
  from chunk [of c1 4] 1(2) obtain c2 where
    2: "memcpy_chunks 4 (?w c1) (dest + c1) (src + c1) (n - c1) =
        Done (?w c2, dest + c2, src + c2, n - c2)" "c2 \<le> n" by auto
  from chunk [of c2 1] 2(2) have
    3: "memcpy_chunks 1 (?w c2) (dest + c2) (src + c2) (n - c2) = Done (?w n, dest + n, src + n, n - n)" by auto
  from 1(1) 2(1) 3 show ?thesis by (simp add: memcpy_def)
qed

section \<open>What the searches find\<close>

lemma word_test_bit: "k < 64 \<Longrightarrow> (w :: u64) AND push_bit k 1 \<noteq> 0 \<longleftrightarrow> bit w k"
  by (auto simp: word_zero_bits bit_simps)

lemma uchar_index: "nat (uchar c) div 64 < 4"
  using uchar_range [of c] by simp

lemma byteset_has_bit: "byteset_has bs c \<longleftrightarrow> bit (bs ! (nat (uchar c) div 64)) (nat (uchar c) mod 64)"
  by (simp add: byteset_has_def Let_def word_test_bit del: push_bit_of_1)

lemma byteset_has_add:
  assumes "length bs = 4"
  shows "byteset_has (byteset_add bs c) x \<longleftrightarrow> x = c \<or> byteset_has bs x"
proof -
  let ?x = "nat (uchar x)" and ?c = "nat (uchar c)"
  have "?x = ?c \<longleftrightarrow> x = c" using uchar_range by (metis eq_nat_nat_iff uchar_inject)
  moreover have "?x = ?c \<longleftrightarrow> ?x div 64 = ?c div 64 \<and> ?x mod 64 = ?c mod 64" by (metis div_mult_mod_eq)
  ultimately show ?thesis
    using assms uchar_index [of c] uchar_index [of x]
    by (auto simp: byteset_has_bit byteset_add_def Let_def nth_list_update bit_or_iff bit_push_bit_iff bit_1_iff
        simp del: push_bit_of_1)
qed

lemma byteset_build_spec:
  "cstr_at m q cs \<Longrightarrow> length bs = 4 \<Longrightarrow>
   \<exists>bs'. byteset_build m q bs = Done bs' \<and> (\<forall>x. byteset_has bs' x \<longleftrightarrow> x \<in> set cs \<or> byteset_has bs x)"
proof (induction cs arbitrary: q bs)
  case Nil
  then show ?case by (simp add: cstr_at_simps byteset_build.simps [of m q])
next
  case (Cons c cs)
  have "length (byteset_add bs c) = 4" using Cons.prems by (simp add: byteset_add_def Let_def)
  with Cons.IH [of "Suc q" "byteset_add bs c"] Cons.prems byteset_has_add [OF Cons.prems(2), of c] show ?case
    by (auto simp: cstr_at_simps byteset_build.simps [of m q])
qed

lemma byteset_empty: "\<not> byteset_has (replicate 4 0) x"
  using uchar_index [of x] by (simp add: byteset_has_bit)

lemma skip_while_spec: "cstr_at m p s \<Longrightarrow> skip_while P m p = Done (p + length (takeWhile P s))"
  by (induction s arbitrary: p) (auto simp: cstr_at_simps skip_while.simps [of P m])

lemma strchrnul_spec: "cstr_at m p s \<Longrightarrow> strchrnul m p ch = Done (p + length (takeWhile (\<lambda>x. schar x \<noteq> ch) s))"
  by (induction s arbitrary: p) (auto simp: cstr_at_simps strchrnul.simps [of m])

lemma strchr_spec: "cstr_at m p s \<Longrightarrow> strchr m p ch =
    Done (if ch \<in> schar ` set s then Some (p + length (takeWhile (\<lambda>x. schar x \<noteq> ch) s)) else None)"
  by (induction s arbitrary: p) (auto simp: cstr_at_simps strchr.simps [of m])

lemma strspn_spec:
  assumes "cstr_at m p s" "cstr_at m q cs"
  shows "strspn m (Some p) (Some q) = Done (length (takeWhile (\<lambda>x. x \<in> set cs) s))"
proof -
  consider "cs = []" | c where "cs = [c]" | c d cs' where "cs = c # d # cs'"
    by (metis list.exhaust)
  then show ?thesis
  proof cases
    case 1
    with assms show ?thesis by (cases s) (simp_all add: strspn_def cstr_at_simps)
  next
    case 2
    with assms show ?thesis
      by (simp add: strspn_def cstr_at_simps skip_while_spec [OF assms(1)])
  next
    case 3
    from byteset_build_spec [OF assms(2), of "replicate 4 0"] byteset_empty obtain bs where
      "byteset_build m q (replicate 4 0) = Done bs" "\<forall>x. byteset_has bs x \<longleftrightarrow> x \<in> set cs" by auto
    moreover from this have "byteset_has bs = (\<lambda>x. x \<in> set cs)" by blast
    ultimately show ?thesis
      using 3 assms by (simp add: strspn_def cstr_at_simps skip_while_spec [OF assms(1)])
  qed
qed

lemma strcspn_spec:
  assumes "cstr_at m p s" "cstr_at m q cs"
  shows "strcspn m p q = Done (length (takeWhile (\<lambda>x. x \<notin> set cs) s))"
proof -
  consider "cs = []" | c where "cs = [c]" | c d cs' where "cs = c # d # cs'"
    by (metis list.exhaust)
  then show ?thesis
  proof cases
    case 1
    have "NUL \<notin> set s" using assms(1) by (simp add: cstr_at_def)
    then have "length (takeWhile (\<lambda>x. x \<noteq> NUL) s) = length s" "length (takeWhile (\<lambda>x. True) s) = length s"
      by (induction s) auto
    with 1 assms show ?thesis
      by (simp add: strcspn_def cstr_at_simps strchrnul_spec [OF assms(1)])
  next
    case 2
    with assms show ?thesis
      by (simp add: strcspn_def cstr_at_simps strchrnul_spec [OF assms(1)])
  next
    case 3
    from byteset_build_spec [OF assms(2), of "replicate 4 0"] byteset_empty obtain bs where
      "byteset_build m q (replicate 4 0) = Done bs" "\<forall>x. byteset_has bs x \<longleftrightarrow> x \<in> set cs" by auto
    moreover from this have "byteset_has bs = (\<lambda>x. x \<in> set cs)" by blast
    ultimately show ?thesis
      using 3 assms by (simp add: strcspn_def cstr_at_simps skip_while_spec [OF assms(1)])
  qed
qed

lemma cstr_at_drop: "cstr_at m p s \<Longrightarrow> k \<le> length s \<Longrightarrow> cstr_at m (p + k) (drop k s)"
proof (induction s arbitrary: p k)
  case Nil
  then show ?case by simp
next
  case (Cons c s)
  with Cons.IH [of "Suc p"] show ?case by (cases k) (auto simp: cstr_at_Cons)
qed

lemma cstr_at_transfer:
  "cstr_at m p s \<Longrightarrow> \<forall>i\<le>length s. q + i < length m' \<and> m' ! (q + i) = m ! (p + i) \<Longrightarrow> cstr_at m' q s"
proof (induction s arbitrary: p q)
  case Nil
  then show ?case by (auto simp: cstr_at_Nil)
next
  case (Cons c s)
  have "\<forall>i\<le>length s. Suc q + i < length m' \<and> m' ! (Suc q + i) = m ! (Suc p + i)"
    using Cons.prems(2) by (metis Suc_le_mono add_Suc_right add_Suc length_Cons)
  with Cons.IH [of "Suc p" "Suc q"] Cons.prems(1) spec [OF Cons.prems(2), of 0] show ?case
    by (simp add: cstr_at_Cons)
qed

text \<open>Cutting a string with a terminator gives the two halves; what lies before it is kept.\<close>

lemma cstr_at_cut_left: "cstr_at m p (s @ c # t) \<Longrightarrow> cstr_at (m[p + length s := NUL]) p s"
proof (induction s arbitrary: p)
  case Nil
  then show ?case by (simp add: cstr_at_simps)
next
  case (Cons d s)
  with Cons.IH [of "Suc p"] show ?case by (simp add: cstr_at_Cons)
qed

lemma cstr_at_cut_right:
  assumes "cstr_at m p (s @ c # t)"
  shows "cstr_at (m[p + length s := NUL]) (p + length s + 1) t"
proof -
  have "cstr_at m (p + length (s @ [c])) (drop (length (s @ [c])) (s @ c # t))"
    using assms by (rule cstr_at_drop) simp
  then have "cstr_at m (p + length s + 1) t" by simp
  then show ?thesis by (simp add: cstr_at_def)
qed

lemma cstr_at_update_other:
  "cstr_at m q s \<Longrightarrow> i < q \<or> q + length s < i \<Longrightarrow> cstr_at (m[i := x]) q s"
proof (induction s arbitrary: q)
  case Nil
  then show ?case by (auto simp: cstr_at_simps)
next
  case (Cons c s)
  then show ?case by (auto simp: cstr_at_Cons)
qed

lemma strpbrk_spec:
  assumes "cstr_at m p s" "cstr_at m q cs"
  shows "strpbrk m p q = Done (if \<exists>x\<in>set s. x \<in> set cs
           then Some (p + length (takeWhile (\<lambda>x. x \<notin> set cs) s)) else None)"
proof -
  let ?k = "length (takeWhile (\<lambda>x. x \<notin> set cs) s)"
  have "cstr_at m (p + ?k) (dropWhile (\<lambda>x. x \<notin> set cs) s)"
    using cstr_at_drop [OF assms(1), of ?k] by (simp add: length_takeWhile_le dropWhile_eq_drop)
  moreover have "dropWhile (\<lambda>x. x \<notin> set cs) s = [] \<longleftrightarrow> \<not> (\<exists>x\<in>set s. x \<in> set cs)"
    by (simp add: dropWhile_eq_Nil_conv)
  ultimately show ?thesis
    using strcspn_spec [OF assms]
    by (cases "dropWhile (\<lambda>x. x \<notin> set cs) s") (auto simp: strpbrk_def cstr_at_simps)
qed

lemma strtok_r_spec:
  assumes s: "cstr_at m p s" and seps: "cstr_at m q cs" "q + length cs < p \<or> p + length s < q"
  defines "rest \<equiv> dropWhile (\<lambda>x. x \<in> set cs) s"
    and "tok \<equiv> takeWhile (\<lambda>x. x \<notin> set cs) (dropWhile (\<lambda>x. x \<in> set cs) s)"
  shows "if rest = [] then \<exists>e. strtok_r m (Some p) q l = Done (None, m, Some e) \<and> cstr_at m e []
         else \<exists>a m' l'. strtok_r m (Some p) q l = Done (Some a, m', l') \<and>
                a = p + (length s - length rest) \<and> cstr_at m' a tok \<and> cstr_at m' q cs \<and> length m' = length m \<and>
                (case l' of None \<Rightarrow> tok = rest \<and> m' = m
                 | Some e \<Rightarrow> tok \<noteq> rest \<and> m' = m[a + length tok := NUL] \<and>
                     e = a + length tok + 1 \<and> cstr_at m' e (drop (length tok + 1) rest))"
proof -
  let ?k = "length (takeWhile (\<lambda>x. x \<in> set cs) s)"
  have k: "?k \<le> length s" "drop ?k s = rest" "length s - length rest = ?k"
    unfolding rest_def by (auto simp: length_takeWhile_le dropWhile_eq_drop)
  have rest: "cstr_at m (p + ?k) rest" using cstr_at_drop [OF s k(1)] k(2) by simp
  note span = strspn_spec [OF s seps(1)]
  show ?thesis
  proof (cases rest)
    case Nil
    with rest span show ?thesis by (simp add: strtok_r_def cstr_at_simps)
  next
    case (Cons c rest')
    have NUL: "NUL \<notin> set rest" using rest by (simp add: cstr_at_def)
    have head: "p + ?k < length m" "m ! (p + ?k) \<noteq> NUL" using rest Cons by (auto simp: cstr_at_Cons)
    note brk = strpbrk_spec [OF rest seps(1)]
    show ?thesis
    proof (cases "\<exists>x\<in>set rest. x \<in> set cs")
      case False
      then have "tok = rest" unfolding tok_def rest_def [symmetric] by (auto simp: takeWhile_eq_all_conv)
      moreover have "strchr m (p + ?k) 0 = Done None" using strchr_spec [OF rest, of 0] NUL by auto
      ultimately have "strtok_r m (Some p) q l = Done (Some (p + ?k), m, None)"
        using span brk head False by (simp add: strtok_r_def Let_def)
      with Cons k(3) rest seps(1) \<open>tok = rest\<close> show ?thesis by auto
    next
      case True
      have len: "length (takeWhile (\<lambda>x. x \<notin> set cs) rest) = length tok"
        by (simp add: tok_def rest_def)
      have "dropWhile (\<lambda>x. x \<notin> set cs) rest \<noteq> []" using True by (auto simp: dropWhile_eq_Nil_conv)
      then obtain d t where dt: "dropWhile (\<lambda>x. x \<notin> set cs) rest = d # t" by (cases "dropWhile (\<lambda>x. x \<notin> set cs) rest") auto
      then have split: "rest = tok @ d # t"
        unfolding tok_def rest_def by (metis takeWhile_dropWhile_id)
      let ?m' = "m[p + ?k + length tok := NUL]"
      have cut: "cstr_at ?m' (p + ?k) tok" "cstr_at ?m' (p + ?k + length tok + 1) t"
        using rest split cstr_at_cut_left cstr_at_cut_right by metis+
      have "p + ?k + length tok < length m" using rest split by (simp add: cstr_at_def)
      then have "strtok_r m (Some p) q l = Done (Some (p + ?k), ?m', Some (p + ?k + length tok + 1))"
        using span brk head True len by (simp add: strtok_r_def Let_def)
      moreover have "length s - ?k = length rest" using k(2) by (metis length_drop)
      then have "?k + length tok < length s" using split k(1) by simp
      then have "cstr_at ?m' q cs" using seps by (intro cstr_at_update_other) auto
      moreover have "drop (length tok + 1) rest = t" by (simp add: split)
      ultimately show ?thesis using Cons k(3) cut split by auto
    qed
  qed
qed

section \<open>Properties\<close>

text \<open>
  \<open>strcmp\<close> returns on any two terminated strings, with 0 exactly when they are equal, and \<open>strncmp\<close>
  with 0 exactly when their first \<open>n\<close> characters are.
\<close>

lemma strcmp_zero_iff_equal:
  assumes "cstr_at m p s" "cstr_at m q t"
  shows "(\<exists>r. strcmp m p q = Done r \<and> (r = 0 \<longleftrightarrow> s = t)) \<and>
         (\<exists>r. strncmp m p q n = Done r \<and> (r = 0 \<longleftrightarrow> take n s = take n t))"
proof -
  have "NUL \<notin> set s" "NUL \<notin> set t" using assms by (simp_all add: cstr_at_def)
  then have "NUL \<notin> set (take n s)" "NUL \<notin> set (take n t)" by (auto dest: in_set_takeD)
  with \<open>NUL \<notin> set s\<close> \<open>NUL \<notin> set t\<close> assms show ?thesis
    by (cases "n = 0") (simp_all add: strcmp_spec strncmp_def strncmp_loop_spec str_diff_zero)
qed

definition mem_small :: mem where
  "mem_small = ''/dev/null'' @ NUL # ''/dev/zero'' @ NUL # ''/'' @ [NUL]"

lemma mem_small_strings:
  "cstr_at mem_small 0 ''/dev/null''" "cstr_at mem_small 10 ''/dev/zero''" "cstr_at mem_small 20 ''/''"
  by (simp_all add: cstr_at_def mem_small_def)

text \<open>
  C9: \<open>memmove\<close> copies the bytes the source held before the call, also when the buffers overlap in
  either direction, and changes nothing else; \<open>memcpy\<close>, which copies 8, 4 and 1 bytes at a time, does
  the same when the buffers are disjoint.
\<close>

theorem memmove_memcpy_copy:
  assumes "src + n \<le> length m" "dest + n \<le> length m"
  shows "memmove m dest src n = Done (overwrite m dest (slice m src n)) \<and>
         (dest + n \<le> src \<or> src + n \<le> dest \<longrightarrow> memcpy m dest src n = Done (overwrite m dest (slice m src n)))"
proof -
  have "memmove m dest src n = Done (overwrite m dest (slice m src n))"
    using copy_up_spec [of dest src 0 n m] copy_down_spec [of src dest n m] assms
    by (cases "dest < src") (simp_all add: memmove_def)
  with memcpy_spec [OF assms] show ?thesis by blast
qed

theorem memmove_memcpy_copy_witness:
  "memmove ''abcdef'' 2 0 4 = Done ''ababcd'' \<and> memcpy ''abcdef'' 3 0 3 = Done ''abcabc''"
  using memmove_memcpy_copy [of 0 4 "''abcdef''" 2] memmove_memcpy_copy [of 0 3 "''abcdef''" 3]
  by (simp add: overwrite_def slice_def)

text \<open>
  C10: \<open>strtok_r\<close> on a string skips the leading separators and returns NULL when nothing else is there;
  otherwise it returns a pointer at the first other character, where the memory now holds exactly
  the characters up to the next separator, and \<open>*lasts\<close> is the text after that separator, or NULL
  when there was none (the comment there speaks of the end of the string, but \<open>strchr\<close> does not find
  the terminator). The separators are left alone and nothing outside the token's end changes.
\<close>

theorem strtok_r_token:
  assumes s: "cstr_at m p s" and seps: "cstr_at m q cs" "q + length cs < p \<or> p + length s < q"
  defines "rest \<equiv> dropWhile (\<lambda>x. x \<in> set cs) s"
    and "tok \<equiv> takeWhile (\<lambda>x. x \<notin> set cs) (dropWhile (\<lambda>x. x \<in> set cs) s)"
  shows "if rest = [] then \<exists>e. strtok_r m (Some p) q l = Done (None, m, Some e) \<and> cstr_at m e []
         else \<exists>a m' l'. strtok_r m (Some p) q l = Done (Some a, m', l') \<and>
                a = p + (length s - length rest) \<and> cstr_at m' a tok \<and> cstr_at m' q cs \<and> length m' = length m \<and>
                (case l' of None \<Rightarrow> tok = rest \<and> m' = m
                 | Some e \<Rightarrow> tok \<noteq> rest \<and> m' = m[a + length tok := NUL] \<and>
                     e = a + length tok + 1 \<and> cstr_at m' e (drop (length tok + 1) rest))"
  using strtok_r_spec [OF assms(1-3)] unfolding assms(4,5) .

theorem strtok_r_token_witness:
  "\<exists>a m' l'. strtok_r (''/ '' @ NUL # ''/usr/bin'' @ [NUL]) (Some 3) 0 None = Done (Some a, m', l') \<and>
     a = 4 \<and> cstr_at m' a ''usr''"
proof -
  let ?m = "''/ '' @ NUL # ''/usr/bin'' @ [NUL]"
  have "cstr_at ?m 3 ''/usr/bin''" "cstr_at ?m 0 ''/ ''" by (simp_all add: cstr_at_def)
  from strtok_r_token [OF this, of None] show ?thesis by auto
qed

end
