(* ===== verification/Libc_Stdlib.thy ===== *)
theory Libc_Stdlib
  imports Libc_String
begin

text \<open>
  \<open>libpolyhedron/stdlib\<close>: \<open>strtol\<close>, \<open>strtoul\<close>, \<open>strtoll\<close>, \<open>strtoull\<close> and \<open>atoi\<close>. The four \<open>strto*\<close> files
  repeat one body with another 64-bit type, which has the same words here. None of them checks for
  overflow: in the unsigned types the value wraps, in the signed ones (and in the int of \<open>atoi\<close>) an
  overflow is undefined, a fault here.
\<close>

section \<open>Operations\<close>

definition isvalid :: "int \<Rightarrow> int \<Rightarrow> bool" where
  "isvalid base ch \<longleftrightarrow> (97 \<le> tolower ch \<and> tolower ch < 97 + (base - 10)) \<or> (48 \<le> ch \<and> ch \<le> 57)"

function strto_skip :: "mem \<Rightarrow> nat \<Rightarrow> nat outcome" where
  "strto_skip m ptr =
     and_then (array_get m ptr) (\<lambda>c. if c \<noteq> NUL \<and> isspace (schar c) then strto_skip m (ptr + 1) else Done ptr)"
  by pat_completeness auto
termination by (relation "measure (\<lambda>(m, p). length m - p)") (auto simp: outcome_iff)

declare strto_skip.simps [simp del]

text \<open>The sign character: whether it is a minus, and the pointer after it.\<close>

definition strto_sign :: "mem \<Rightarrow> nat \<Rightarrow> (bool \<times> nat) outcome" where
  "strto_sign m ptr =
     and_then (array_get m ptr) (\<lambda>c.
     Done (if c = CHR ''-'' then (True, ptr + 1) else if c = CHR ''+'' then (False, ptr + 1) else (False, ptr)))"

text \<open>The prefixes of base 16 and base 0: the base to use and the pointer after the prefix.\<close>

definition strto_prefix :: "mem \<Rightarrow> int \<Rightarrow> nat \<Rightarrow> (int \<times> nat) outcome" where
  "strto_prefix m base ptr =
     (if base = 16 then
        and_then (array_get m ptr) (\<lambda>c.
        if c = CHR ''0'' then
          and_then (array_get m (ptr + 1)) (\<lambda>x.
          Done (16, if x = CHR ''x'' \<or> x = CHR ''X'' then ptr + 2 else ptr + 1))
        else Done (16, ptr))
      else if base = 0 then
        and_then (array_get m ptr) (\<lambda>c.
        if c = CHR ''0'' then
          and_then (array_get m (ptr + 1)) (\<lambda>x.
          Done (if x = CHR ''x'' \<or> x = CHR ''X'' then (16, ptr + 2) else (8, ptr + 1)))
        else Done (10, ptr))
      else Done (base, ptr))"

text \<open>The loop over the digits; \<open>sg\<close> says whether \<open>output\<close> has a signed type.\<close>

function strto_digits :: "bool \<Rightarrow> mem \<Rightarrow> int \<Rightarrow> nat \<Rightarrow> u64 \<Rightarrow> (u64 \<times> nat) outcome" where
  "strto_digits sg m base ptr output =
     and_then (array_get m ptr) (\<lambda>c.
     if isvalid base (schar c) then
       let d = (if isdigit (schar c) then schar c - 48 else tolower (schar c) - 97 + 10) in
       if sg \<and> 2 ^ 63 \<le> uint output * base + d then Fault SignedOverflow
       else strto_digits sg m base (ptr + 1) (output * of_int base + of_int d)
     else Done (output, ptr))"
  by pat_completeness auto
termination by (relation "measure (\<lambda>(s, m, b, p, n). length m - p)") (auto simp: outcome_iff)

declare strto_digits.simps [simp del]

text \<open>The common body: the result and \<open>*endptr\<close>, which an invalid base does not set.\<close>

definition strto_body :: "bool \<Rightarrow> u64 \<Rightarrow> mem \<Rightarrow> nat \<Rightarrow> int \<Rightarrow> (u64 \<times> nat option) outcome" where
  "strto_body sg invalid m str base =
     (if base < 0 \<or> base = 1 \<or> base > 36 then Done (invalid, None)
      else
        and_then (strto_skip m str) (\<lambda>p1.
        and_then (strto_sign m p1) (\<lambda>(neg, p2).
        and_then (strto_prefix m base p2) (\<lambda>(base', p3).
        and_then (strto_digits sg m base' p3 0) (\<lambda>(output, p4).
        Done (if neg then - output else output, Some p4))))))"

definition strtol :: "mem \<Rightarrow> nat \<Rightarrow> int \<Rightarrow> (u64 \<times> nat option) outcome" where
  "strtol m str base = strto_body True 0x7FFFFFFFFFFFFFFF m str base"

definition strtoll :: "mem \<Rightarrow> nat \<Rightarrow> int \<Rightarrow> (u64 \<times> nat option) outcome" where
  "strtoll m str base = strto_body True 0x7FFFFFFFFFFFFFFF m str base"

definition strtoul :: "mem \<Rightarrow> nat \<Rightarrow> int \<Rightarrow> (u64 \<times> nat option) outcome" where
  "strtoul m str base = strto_body False 0xFFFFFFFFFFFFFFFF m str base"

definition strtoull :: "mem \<Rightarrow> nat \<Rightarrow> int \<Rightarrow> (u64 \<times> nat option) outcome" where
  "strtoull m str base = strto_body False 0xFFFFFFFFFFFFFFFF m str base"

function atoi_digits :: "mem \<Rightarrow> nat \<Rightarrow> cint \<Rightarrow> cint outcome" where
  "atoi_digits m ptr v =
     and_then (array_get m ptr) (\<lambda>c.
     if isdigit (schar c) then
       if 2 ^ 31 \<le> uint v * 10 + (schar c - 48) then Fault SignedOverflow
       else atoi_digits m (ptr + 1) (v * 10 + of_int (schar c - 48))
     else Done v)"
  by pat_completeness auto
termination by (relation "measure (\<lambda>(m, p, v). length m - p)") (auto simp: outcome_iff)

declare atoi_digits.simps [simp del]

definition atoi :: "mem \<Rightarrow> nat option \<Rightarrow> cint outcome" where
  "atoi m str = (case str of
     None \<Rightarrow> Done 0
   | Some p \<Rightarrow>
       and_then (strto_skip m p) (\<lambda>p1.
       and_then (strto_sign m p1) (\<lambda>(neg, p2).
       and_then (atoi_digits m p2 0) (\<lambda>v. Done (if neg then v * (- 1) else v * 1)))))"

section \<open>Numerals\<close>

text \<open>The digits of a number in a base, most significant first, and their characters.\<close>

fun num_digits :: "nat \<Rightarrow> nat \<Rightarrow> nat list" where
  "num_digits b n = (if b < 2 \<or> n < b then [n] else num_digits b (n div b) @ [n mod b])"

declare num_digits.simps [simp del]

definition digit_char :: "nat \<Rightarrow> char" where
  "digit_char d = (if d < 10 then char_of (48 + d) else char_of (87 + d))"

definition num_string :: "nat \<Rightarrow> nat \<Rightarrow> string" where
  "num_string b n = map digit_char (num_digits b n)"

lemma uchar_char_of:
  assumes "n < 256"
  shows "uchar (char_of n) = int n"
proof -
  have "uchar (char_of n) = int (of_char (char_of n :: char))" unfolding uchar_def by (rule of_nat_of_char [symmetric])
  with assms show ?thesis by simp
qed

lemma schar_digit: "d < 36 \<Longrightarrow> schar (digit_char d) = (if d < 10 then 48 + int d else 87 + int d)"
  by (auto simp: schar_def digit_char_def uchar_char_of)

lemma digit_char_valid:
  assumes "d < b" "b \<le> 36"
  shows "isvalid (int b) (schar (digit_char d))"
    "(if isdigit (schar (digit_char d)) then schar (digit_char d) - 48
      else tolower (schar (digit_char d)) - 97 + 10) = int d"
  using assms by (auto simp: schar_digit isvalid_def isdigit_def tolower_def isupper_def)

lemma num_digits_less: "2 \<le> b \<Longrightarrow> d \<in> set (num_digits b n) \<Longrightarrow> d < b"
proof (induction b n rule: num_digits.induct)
  case (1 b n)
  then show ?case by (cases "n < b") (auto simp: num_digits.simps [of b n])
qed

lemma num_digits_value:
  "2 \<le> b \<Longrightarrow> foldl (\<lambda>v d. v * b + d) 0 (num_digits b n) = n"
proof (induction b n rule: num_digits.induct)
  case (1 b n)
  then show ?case by (cases "n < b") (auto simp: num_digits.simps [of b n])
qed

lemma num_digits_nonempty: "num_digits b n \<noteq> []"
  by (simp add: num_digits.simps [of b n])

lemma num_digits_head: "2 \<le> b \<Longrightarrow> 0 < n \<Longrightarrow> hd (num_digits b n) \<noteq> 0"
proof (induction b n rule: num_digits.induct)
  case (1 b n)
  show ?case
  proof (cases "n < b")
    case True
    with 1 show ?thesis by (simp add: num_digits.simps [of b n])
  next
    case False
    then have "0 < n div b" using 1 by (simp add: div_greater_zero_iff)
    with 1 False num_digits_nonempty show ?thesis by (simp add: num_digits.simps [of b n])
  qed
qed

lemma foldl_digits_mono: "(a :: nat) \<le> foldl (\<lambda>v d. v * b + d) a ds" if "2 \<le> b"
proof (induction ds arbitrary: a)
  case Nil
  then show ?case by simp
next
  case (Cons d ds)
  have "a \<le> a * b + d" using that by (metis le_add1 le_trans mult_le_mono2 nat_mult_1_right one_le_numeral)
  with Cons.IH [of "a * b + d"] show ?case by simp
qed

text \<open>The value stays in range as long as that of the whole numeral does.\<close>

lemma strto_digits_spec:
  "cstr_at m p (map digit_char ds) \<Longrightarrow> 2 \<le> b \<Longrightarrow> b \<le> 36 \<Longrightarrow> \<forall>d\<in>set ds. d < b \<Longrightarrow>
   sg \<longrightarrow> foldl (\<lambda>v d. v * b + d) v ds < 2 ^ 63 \<Longrightarrow>
   strto_digits sg m (int b) p (of_nat v) = Done (of_nat (foldl (\<lambda>v d. v * b + d) v ds), p + length ds)"
proof (induction ds arbitrary: p v)
  case Nil
  have "\<not> isvalid (int b) (schar NUL)" by (auto simp: isvalid_def schar_def tolower_def isupper_def)
  with Nil show ?case by (simp add: cstr_at_simps strto_digits.simps [of sg m "int b" p])
next
  case (Cons d ds)
  then have d: "d < b" by simp
  note valid = digit_char_valid [OF d Cons.prems(3)]
  have "\<not> (sg \<and> 2 ^ 63 \<le> uint (of_nat v :: u64) * int b + int d)"
  proof
    assume bad: "sg \<and> 2 ^ 63 \<le> uint (of_nat v :: u64) * int b + int d"
    with Cons.prems(5) foldl_digits_mono [OF Cons.prems(2), of "v * b + d" ds] have vb: "v * b + d < 2 ^ 63" by simp
    have "v \<le> v * b" using Cons.prems(2) by (cases b) simp_all
    also have "\<dots> \<le> v * b + d" by simp
    also note vb
    also have "(2 :: nat) ^ 63 < 2 ^ 64" by simp
    finally have "v < 2 ^ 64" .
    then have "uint (of_nat v :: u64) = int v" by (simp add: uint_nat unat_of_nat_less)
    then have "uint (of_nat v :: u64) * int b + int d = int (v * b + d)" by simp
    with bad have "int (2 ^ 63) \<le> int (v * b + d)" by simp
    with vb show False by (simp only: of_nat_le_iff not_le)
  qed
  with Cons.prems(1) valid have "strto_digits sg m (int b) p (of_nat v) =
      strto_digits sg m (int b) (Suc p) (of_nat (v * b + d))"
    by (auto simp: cstr_at_simps strto_digits.simps [of sg m "int b" p] Let_def)
  with Cons.IH [of "Suc p" "v * b + d"] Cons.prems show ?case by (simp add: cstr_at_simps)
qed

lemma atoi_digits_spec:
  "cstr_at m p (map digit_char ds) \<Longrightarrow> \<forall>d\<in>set ds. d < 10 \<Longrightarrow> foldl (\<lambda>v d. v * 10 + d) v ds < 2 ^ 31 \<Longrightarrow>
   atoi_digits m p (of_nat v) = Done (of_nat (foldl (\<lambda>v d. v * 10 + d) v ds))"
proof (induction ds arbitrary: p v)
  case Nil
  have "\<not> isdigit (schar NUL)" by (simp add: isdigit_def schar_def)
  with Nil show ?case by (simp add: cstr_at_simps atoi_digits.simps [of m p])
next
  case (Cons d ds)
  then have d: "schar (digit_char d) = 48 + int d" "isdigit (48 + int d)" by (simp_all add: schar_digit isdigit_def)
  have vb: "v * 10 + d < 2 ^ 31" using Cons.prems(3) foldl_digits_mono [of 10 "v * 10 + d" ds] by simp
  then have "uint (of_nat v :: cint) = int v" by (simp add: uint_nat unat_of_nat_less)
  then have "uint (of_nat v :: cint) * 10 + int d = int (v * 10 + d)" by simp
  with vb have "\<not> 2 ^ 31 \<le> uint (of_nat v :: cint) * 10 + int d" by simp
  with d Cons.prems(1) have "atoi_digits m p (of_nat v) = atoi_digits m (Suc p) (of_nat (v * 10 + d))"
    by (simp add: cstr_at_simps atoi_digits.simps [of m p])
  with Cons.IH [of "Suc p" "v * 10 + d"] Cons.prems show ?case by (simp add: cstr_at_simps)
qed

section \<open>Properties\<close>

definition sign_string :: "bool \<Rightarrow> string" where
  "sign_string neg = (if neg then ''-'' else [])"

lemma cstr_at_append: "cstr_at m p (s @ t) \<Longrightarrow> cstr_at m (p + length s) t"
  using cstr_at_drop [of m p "s @ t" "length s"] by simp

lemma digit_char_not:
  assumes "d < 36"
  shows "digit_char d \<noteq> CHR ''-''" "digit_char d \<noteq> CHR ''+''" "\<not> isspace (schar (digit_char d))"
    "0 < d \<Longrightarrow> digit_char d \<noteq> CHR ''0''" "digit_char d \<noteq> CHR ''x'' \<or> d = 33" "digit_char d \<noteq> CHR ''X''"
proof -
  have s: "schar (CHR ''-'') = 45" "schar (CHR ''+'') = 43" "schar (CHR ''0'') = 48" "schar (CHR ''x'') = 120"
    "schar (CHR ''X'') = 88" by (simp_all add: schar_def uchar_def)
  show "digit_char d \<noteq> CHR ''-''" "digit_char d \<noteq> CHR ''+''" "0 < d \<Longrightarrow> digit_char d \<noteq> CHR ''0''"
    "digit_char d \<noteq> CHR ''x'' \<or> d = 33" "digit_char d \<noteq> CHR ''X''"
    using assms schar_digit [of d] s by (auto split: if_splits)
  show "\<not> isspace (schar (digit_char d))" using assms by (simp add: schar_digit isspace_def)
qed

text \<open>What the steps before the digits do on a signed numeral.\<close>

lemma strto_start:
  assumes str: "cstr_at m p (sign_string neg @ map digit_char (d # ds))" and d: "d < 36"
  defines "q \<equiv> p + length (sign_string neg)"
  shows "strto_skip m p = Done p" "strto_sign m p = Done (neg, q)" "cstr_at m q (map digit_char (d # ds))"
proof -
  have "\<not> isspace (schar (CHR ''-''))" by (simp add: isspace_def schar_def uchar_def)
  then show "strto_skip m p = Done p"
    using str digit_char_not(3) [OF d]
    by (cases neg) (simp_all add: sign_string_def cstr_at_Cons strto_skip.simps [of m p])
  show "strto_sign m p = Done (neg, q)"
    using str digit_char_not(1,2) [OF d]
    by (cases neg) (simp_all add: sign_string_def cstr_at_Cons strto_sign_def q_def)
  show "cstr_at m q (map digit_char (d # ds))" using cstr_at_append [OF str] by (simp add: q_def)
qed

lemma num_digits_Cons:
  assumes "2 \<le> b"
  obtains d ds where "num_digits b n = d # ds" "d < b" "\<forall>e\<in>set ds. e < b" "0 < n \<Longrightarrow> d \<noteq> 0" "n = 0 \<Longrightarrow> ds = [] \<and> d = 0"
proof -
  obtain d ds where dd: "num_digits b n = d # ds" using num_digits_nonempty by (cases "num_digits b n") auto
  moreover have "d < b" "\<forall>e\<in>set ds. e < b" using num_digits_less [OF assms, of _ n] dd by auto
  moreover have "0 < n \<Longrightarrow> d \<noteq> 0" using num_digits_head [OF assms, of n] dd by simp
  moreover have "n = 0 \<Longrightarrow> ds = [] \<and> d = 0" using dd assms by (auto simp: num_digits.simps [of b 0])
  ultimately show thesis using that by blast
qed

lemma strto_body_numeral:
  assumes str: "cstr_at m p (sign_string neg @ num_string b n)" and b: "2 \<le> b" "b \<le> 36"
    and range: "sg \<longrightarrow> n < 2 ^ 63"
  shows "strto_body sg w m p (int b) =
           Done (if neg then - of_nat n else of_nat n, Some (p + length (sign_string neg @ num_string b n)))"
proof -
  obtain d ds where dd: "num_digits b n = d # ds" "d < b" "\<forall>e\<in>set ds. e < b" "0 < n \<Longrightarrow> d \<noteq> 0" "n = 0 \<Longrightarrow> ds = [] \<and> d = 0"
    using num_digits_Cons [OF b(1), of n] by metis
  define q where "q = p + length (sign_string neg)"
  have d36: "d < 36" using dd(2) b(2) by simp
  note start = strto_start [OF str [unfolded num_string_def dd(1)] d36, folded q_def]
  have val: "foldl (\<lambda>v d. v * b + d) 0 (d # ds) = n" using num_digits_value [OF b(1), of n] dd(1) by simp
  have all: "\<forall>e\<in>set (d # ds). e < b" using dd by simp
  have "\<exists>q'. strto_prefix m (int b) q = Done (int b, q') \<and>
      strto_digits sg m (int b) q' 0 = Done (of_nat n, q + length (d # ds))"
  proof (cases "b = 16 \<and> d = 0")
    case True
    then have "n = 0" "ds = []" using dd by auto
    have z: "digit_char 0 = CHR ''0''" by code_simp
    from True \<open>ds = []\<close> z start(3) have q: "q < length m" "m ! q = CHR ''0''" "Suc q < length m" "m ! Suc q = NUL"
      by (simp_all add: cstr_at_simps)
    have "\<not> isvalid 16 (schar NUL)" by (auto simp: isvalid_def schar_def tolower_def isupper_def)
    with q True \<open>n = 0\<close> \<open>ds = []\<close> show ?thesis
      by (simp add: strto_prefix_def strto_digits.simps [of sg m 16])
  next
    case False
    have "digit_char d \<noteq> CHR ''0''" if "b = 16" using False that digit_char_not(4) [OF d36] by simp
    with start(3) have "strto_prefix m (int b) q = Done (int b, q)"
      using b(1) by (auto simp: strto_prefix_def cstr_at_simps)
    with strto_digits_spec [OF start(3) b all, of sg 0, unfolded val] range show ?thesis by simp
  qed
  then obtain q' where "strto_prefix m (int b) q = Done (int b, q')"
    "strto_digits sg m (int b) q' 0 = Done (of_nat n, q + length (d # ds))" by blast
  moreover have "\<not> (int b < 0 \<or> int b = 1 \<or> int b > 36)" using b by simp
  ultimately show ?thesis using start dd(1) by (simp add: strto_body_def num_string_def q_def)
qed

lemma atoi_numeral:
  assumes "cstr_at m p (sign_string neg @ num_string 10 n)" "n < 2 ^ 31"
  shows "atoi m (Some p) = Done (if neg then - of_nat n else of_nat n)"
proof -
  obtain d ds where dd: "num_digits 10 n = d # ds" "d < 10" "\<forall>e\<in>set ds. e < 10"
    by (rule num_digits_Cons [of 10 n]) auto
  have val: "foldl (\<lambda>v d. v * 10 + d) 0 (d # ds) = n" using num_digits_value [of 10 n] dd(1) by simp
  have "d < 36" using dd(2) by simp
  note start = strto_start [OF assms(1) [unfolded num_string_def dd(1)] this]
  have "\<forall>e\<in>set (d # ds). e < 10" using dd by simp
  from atoi_digits_spec [OF start(3) this, of 0, unfolded val] start assms(2) show ?thesis
    by (simp add: atoi_def)
qed

text \<open>
  C11: The number readers read back every numeral their type can hold: on the digits of \<open>n\<close> in a base
  from 2 to 36, with or without a minus sign, \<open>strtoul\<close> returns \<open>n\<close> or its negation modulo \<open>2\<^sup>6\<^sup>4\<close>,
  \<open>strtol\<close> returns the same when \<open>n\<close> is below \<open>2\<^sup>6\<^sup>3\<close>, both leave \<open>*endptr\<close> at the terminator, and \<open>atoi\<close>
  returns it in base 10 when \<open>n\<close> is below \<open>2\<^sup>3\<^sup>1\<close>. Beyond those bounds the signed readers overflow.
\<close>

theorem strtol_reads_numerals:
  assumes "cstr_at m p (sign_string neg @ num_string b n)" "2 \<le> b" "b \<le> 36"
  shows "strtoul m p (int b) =
           Done (if neg then - of_nat n else of_nat n, Some (p + length (sign_string neg @ num_string b n))) \<and>
         (n < 2 ^ 63 \<longrightarrow> strtol m p (int b) =
           Done (if neg then - of_nat n else of_nat n, Some (p + length (sign_string neg @ num_string b n)))) \<and>
         (b = 10 \<and> n < 2 ^ 31 \<longrightarrow> atoi m (Some p) = Done (if neg then - of_nat n else of_nat n))"
proof -
  have "atoi m (Some p) = Done (if neg then - of_nat n else of_nat n)" if "b = 10 \<and> n < 2 ^ 31"
    by (rule atoi_numeral) (use assms(1) that in simp_all)
  then show ?thesis
    using strto_body_numeral [OF assms, of False] strto_body_numeral [OF assms, of True]
    by (simp add: strtol_def strtoul_def)
qed

theorem strtol_reads_numerals_witness:
  "strtol (''-255'' @ [NUL]) 0 10 = Done (- 255, Some 4) \<and> strtol (''ff'' @ [NUL]) 0 16 = Done (255, Some 2) \<and>
   atoi (''-255'' @ [NUL]) (Some 0) = Done (- 255)"
proof -
  have "cstr_at (''-255'' @ [NUL]) 0 (sign_string True @ num_string 10 255)"
    "cstr_at (''ff'' @ [NUL]) 0 (sign_string False @ num_string 16 255)"
    by code_simp+
  then have "strtol (''-255'' @ [NUL]) 0 (int 10) = Done (- 255, Some (length (sign_string True @ num_string 10 255)))"
    "strtol (''ff'' @ [NUL]) 0 (int 16) = Done (255, Some (length (sign_string False @ num_string 16 255)))"
    "atoi (''-255'' @ [NUL]) (Some 0) = Done (- 255)"
    using strtol_reads_numerals [of "''-255'' @ [NUL]" 0 True 10 255] strtol_reads_numerals [of "''ff'' @ [NUL]" 0 False 16 255]
    by simp_all
  then show ?thesis by (simp add: sign_string_def num_string_def num_digits.simps)
qed

text \<open>What happens just beyond: the largest \<open>long\<close> is read, the smallest one overflows on its way.\<close>

lemma strtol_overflows:
  "strtol (''9223372036854775807'' @ [NUL]) 0 10 = Done (0x7FFFFFFFFFFFFFFF, Some 19)"
  "strtol (''-9223372036854775808'' @ [NUL]) 0 10 = Fault SignedOverflow"
  "atoi (''2147483648'' @ [NUL]) (Some 0) = Fault SignedOverflow"
  by code_simp+

end
