(* ===== verification/Printf.thy ===== *)
theory Printf
  imports Libc_Stdlib
begin

text \<open>
  \<open>libpolyhedron/stdio/printf.c\<close>: the formatter behind every \<open>printf\<close> of the kernel and the user
  programs. What the callback receives is a list of characters; the number of characters written is
  its length. A format is the characters before its terminator. A variadic argument is one 64-bit
  slot or a string pointer.
\<close>

section \<open>Numbers\<close>

text \<open>\<^verbatim>\<open>while (val >= 10) { val /= 10; n_width++; }\<close>\<close>

function dec_width :: "u64 \<Rightarrow> nat \<Rightarrow> nat" where
  "dec_width val n = (if val \<ge> 10 then dec_width (val div 10) (n + 1) else n)"
  by pat_completeness auto
termination
proof (relation "measure (\<lambda>(val, n). unat val)", goal_cases)
  case (2 val n)
  then have "10 \<le> unat val" by (simp add: word_le_nat_alt)
  then show ?case by (simp add: unat_div)
qed simp

declare dec_width.simps [simp del]

text \<open>The loop that fills \<open>tmp[0..i)\<close> from the right.\<close>

primrec dec_digits :: "nat \<Rightarrow> u64 \<Rightarrow> string" where
  "dec_digits 0 v = []"
| "dec_digits (Suc i) v = dec_digits i (v div 10) @ [char_of (48 + unat (v mod 10))]"

definition print_dec :: "u64 \<Rightarrow> u32 \<Rightarrow> bool \<Rightarrow> bool \<Rightarrow> cint \<Rightarrow> string outcome" where
  "print_dec v width fill_zero align_right precision =
     (let prec = unat (scast (if precision = - 1 then 1 else precision) :: u64);
          w = (if v = 0 then 0 else dec_width v 1);
          n_width = (if w < prec then prec else w);
          pad = replicate (unat width - n_width) (if fill_zero then CHR ''0'' else CHR '' '') in
      if n_width > 100 then Fault OutOfBounds
      else Done (if align_right then pad @ dec_digits n_width v else dec_digits n_width v @ pad))"

text \<open>
  The number of hexadecimal digits: \<open>j\<close> runs through \<open>0xF\<close>, \<open>0xFF\<close>, ... up to \<open>UINT64_MAX\<close>, which it
  reaches after 15 rounds.
\<close>

primrec hex_width :: "nat \<Rightarrow> u64 \<Rightarrow> nat \<Rightarrow> u64 \<Rightarrow> nat" where
  "hex_width 0 v n j = n"
| "hex_width (Suc k) v n j = (if v > j \<and> j < - 1 then hex_width k v (n + 1) (j * 16 + 15) else n)"

definition hex_char :: "bool \<Rightarrow> nat \<Rightarrow> char" where
  "hex_char caps d = (if caps then ''0123456789ABCDEF'' else ''0123456789abcdef'') ! d"

definition hex_digits :: "bool \<Rightarrow> nat \<Rightarrow> u64 \<Rightarrow> string" where
  "hex_digits caps n v = map (\<lambda>i. hex_char caps (unat (drop_bit (i * 4) v AND 0xF))) (rev [0..<n])"

definition print_hex :: "u64 \<Rightarrow> u32 \<Rightarrow> bool \<Rightarrow> bool \<Rightarrow> bool \<Rightarrow> bool \<Rightarrow> string" where
  "print_hex v width fill_zero alt caps align =
     (let n_width = hex_width 16 v 1 0xF;
          pad = unat width - (n_width + (if alt then 2 else 0)) in
      (if \<not> fill_zero \<and> align then replicate pad (CHR '' '') else []) @
      (if alt then [CHR ''0'', if caps then CHR ''X'' else CHR ''x''] else []) @
      (if fill_zero \<and> align then replicate pad (CHR ''0'') else []) @
      hex_digits caps n_width v @
      (if \<not> align then replicate pad (CHR '' '') else []))"

section \<open>Parsing a conversion\<close>

datatype va = VInt u64 | VStr "string option"

definition va_int :: "va list \<Rightarrow> (u64 \<times> va list) outcome" where
  "va_int args = (case args of VInt w # rest \<Rightarrow> Done (w, rest) | _ \<Rightarrow> Fault BadPointer)"

definition va_str :: "va list \<Rightarrow> (string option \<times> va list) outcome" where
  "va_str args = (case args of VStr s # rest \<Rightarrow> Done (s, rest) | _ \<Rightarrow> Fault BadPointer)"

text \<open>The flags: left justification, the padding character, and \<open>#\<close>. The sign flags are read and not used.\<close>

fun pf_flags :: "bool \<Rightarrow> char \<Rightarrow> bool \<Rightarrow> string \<Rightarrow> (bool \<times> char \<times> bool) \<times> string" where
  "pf_flags j p s [] = ((j, p, s), [])"
| "pf_flags j p s (c # f) =
     (if c = CHR ''-'' then pf_flags True p s f
      else if c = CHR ''+'' then pf_flags j p s f
      else if c = CHR '' '' then pf_flags j p s f
      else if c = CHR ''0'' then pf_flags j (CHR ''0'') s f
      else if c = CHR ''#'' then pf_flags j p True f
      else ((j, p, s), c # f))"

fun pf_number :: "cint \<Rightarrow> string \<Rightarrow> cint \<times> string" where
  "pf_number n [] = (n, [])"
| "pf_number n (c # f) = (if isdigit (schar c) then pf_number (n * 10 + of_int (schar c - 48)) f else (n, c # f))"

definition pf_star :: "string \<Rightarrow> va list \<Rightarrow> (cint \<times> string \<times> va list) outcome" where
  "pf_star f args =
     (if f \<noteq> [] \<and> hd f = CHR ''*'' then and_then (va_int args) (\<lambda>(w, rest). Done (ucast w, tl f, rest))
      else case pf_number 0 f of (n, f') \<Rightarrow> Done (n, f', args))"

definition pf_precision :: "string \<Rightarrow> va list \<Rightarrow> (cint \<times> string \<times> va list) outcome" where
  "pf_precision f args =
     (if f \<noteq> [] \<and> hd f = CHR ''.'' then pf_star (tl f) args else Done (- 1, f, args))"

text \<open>0 to 8 for none, h, hh, l, ll, j, z, t, L.\<close>

fun pf_length :: "string \<Rightarrow> nat \<times> string" where
  "pf_length [] = (0, [])"
| "pf_length (c # f) =
     (if c = CHR ''h'' then (if f \<noteq> [] \<and> hd f = CHR ''h'' then (2, tl f) else (1, f))
      else if c = CHR ''l'' then (if f \<noteq> [] \<and> hd f = CHR ''l'' then (4, tl f) else (3, f))
      else if c = CHR ''j'' then (5, f)
      else if c = CHR ''z'' then (6, f)
      else if c = CHR ''t'' then (7, f)
      else if c = CHR ''L'' then (8, f)
      else (0, c # f))"

text \<open>The argument of \<open>%d\<close> (sign-extended from an int) and of \<open>%x\<close> and \<open>%u\<close> (zero-extended).\<close>

definition pf_signed :: "nat \<Rightarrow> va list \<Rightarrow> (u64 \<times> va list) outcome" where
  "pf_signed len args = and_then (va_int args) (\<lambda>(w, rest).
     Done (if 3 \<le> len \<and> len \<le> 7 then w else scast (ucast w :: cint), rest))"

definition pf_unsigned :: "nat \<Rightarrow> va list \<Rightarrow> (u64 \<times> va list) outcome" where
  "pf_unsigned len args = and_then (va_int args) (\<lambda>(w, rest).
     Done (if 3 \<le> len \<and> len \<le> 7 then w else ucast (ucast w :: u32), rest))"

definition pf_string :: "string \<Rightarrow> cint \<Rightarrow> cint \<Rightarrow> char \<Rightarrow> string" where
  "pf_string str width precision padding =
     (let printed = (if sint precision \<ge> 0 then take (nat (sint precision)) str else str) in
      printed @ replicate (nat (sint width) - length printed) padding)"

text \<open>One conversion specifier: what it prints and the arguments left.\<close>

definition pf_convert ::
  "bool \<times> char \<times> bool \<Rightarrow> cint \<Rightarrow> cint \<Rightarrow> nat \<Rightarrow> char \<Rightarrow> va list \<Rightarrow> (string \<times> va list) outcome" where
  "pf_convert flags width precision len c args = (case flags of (left, padding, special) \<Rightarrow>
     if c = CHR ''d'' \<or> c = CHR ''i'' then
       and_then (pf_signed len args) (\<lambda>(dec, rest).
       and_then (print_dec dec width (padding = CHR ''0'') (\<not> left) precision) (\<lambda>s. Done (s, rest)))
     else if c = CHR ''p'' then
       and_then (va_int args) (\<lambda>(ptr, rest).
       Done (print_hex ptr width (padding = CHR ''0'') True False (\<not> left), rest))
     else if c = CHR ''x'' \<or> c = CHR ''X'' then
       and_then (pf_unsigned len args) (\<lambda>(hex, rest).
       Done (print_hex hex width (padding = CHR ''0'') special (isupper (schar c)) (\<not> left), rest))
     else if c = CHR ''u'' then
       and_then (pf_unsigned len args) (\<lambda>(uns, rest).
       and_then (print_dec uns width (padding = CHR ''0'') (\<not> left) precision) (\<lambda>s. Done (s, rest)))
     else if c = CHR ''s'' then
       and_then (va_str args) (\<lambda>(str, rest).
       Done (pf_string (case str of None \<Rightarrow> ''(NULL)'' | Some s \<Rightarrow> s) width precision padding, rest))
     else if c = CHR ''c'' then
       and_then (va_int args) (\<lambda>(w, rest). Done ([char_of (unat w mod 256)], rest))
     else Done ([c], args))"

text \<open>
  Everything between a \<open>%\<close> and the character after its specifier. A format that ends inside a
  conversion makes the loop step over the terminator.
\<close>

definition pf_conversion :: "string \<Rightarrow> va list \<Rightarrow> (string \<times> string \<times> va list) outcome" where
  "pf_conversion f args =
     (case pf_flags False (CHR '' '') False f of (flags, f1) \<Rightarrow>
        and_then (pf_star f1 args) (\<lambda>(width, f2, args2).
        and_then (pf_precision f2 args2) (\<lambda>(precision, f3, args3).
        case pf_length f3 of (len, f4) \<Rightarrow>
          (case f4 of
             [] \<Rightarrow> Fault OutOfBounds
           | c # f5 \<Rightarrow> and_then (pf_convert flags width precision len c args3) (\<lambda>(out, args4). Done (out, f5, args4))))))"

lemma pf_flags_length: "pf_flags j p s f = (r, f') \<Longrightarrow> length f' \<le> length f"
  by (induction j p s f rule: pf_flags.induct) (auto split: if_splits)

lemma pf_number_length: "pf_number n f = (r, f') \<Longrightarrow> length f' \<le> length f"
  by (induction n f rule: pf_number.induct) (auto split: if_splits)

lemma pf_star_length: "pf_star f args = Done (r, f', args') \<Longrightarrow> length f' \<le> length f"
  by (auto simp: pf_star_def outcome_iff pf_number_length split: if_splits prod.splits)

lemma pf_precision_length: "pf_precision f args = Done (r, f', args') \<Longrightarrow> length f' \<le> length f"
  using pf_star_length [of "tl f"] by (fastforce simp: pf_precision_def split: if_splits)

lemma pf_length_length: "pf_length f = (r, f') \<Longrightarrow> length f' \<le> length f"
  by (cases f) (auto split: if_splits)

lemma pf_conversion_length:
  assumes "pf_conversion f args = Done (out, f', args')"
  shows "length f' < length f"
proof -
  obtain flags f1 where 1: "pf_flags False (CHR '' '') False f = (flags, f1)" by (cases "pf_flags False (CHR '' '') False f")
  with assms obtain width f2 args2 where 2: "pf_star f1 args = Done (width, f2, args2)"
    by (auto simp: pf_conversion_def outcome_iff)
  with assms 1 obtain precision f3 args3 where 3: "pf_precision f2 args2 = Done (precision, f3, args3)"
    by (auto simp: pf_conversion_def outcome_iff)
  obtain len f4 where 4: "pf_length f3 = (len, f4)" by (cases "pf_length f3")
  from assms 1 2 3 4 obtain c where c: "f4 = c # f'"
    by (auto simp: pf_conversion_def outcome_iff split: list.splits)
  have "length f4 \<le> length f"
    using pf_flags_length [OF 1] pf_star_length [OF 2] pf_precision_length [OF 3] pf_length_length [OF 4] by linarith
  with c show ?thesis by simp
qed

function xvasprintf_loop :: "string \<Rightarrow> va list \<Rightarrow> string outcome" where
  "xvasprintf_loop [] args = Done []"
| "xvasprintf_loop (c # f) args =
     (if c \<noteq> CHR ''%'' then and_then (xvasprintf_loop f args) (\<lambda>s. Done (c # s))
      else if f \<noteq> [] \<and> hd f = CHR ''%'' then and_then (xvasprintf_loop (tl f) args) (\<lambda>s. Done (CHR ''%'' # s))
      else and_then (pf_conversion f args) (\<lambda>(out, f', args').
           and_then (xvasprintf_loop f' args') (\<lambda>s. Done (out @ s))))"
  by pat_completeness auto
termination
  by (relation "measure (\<lambda>(f, args). length f)") (auto dest: pf_conversion_length)

text \<open>A missing format or callback prints nothing.\<close>

definition xvasprintf :: "string option \<Rightarrow> va list \<Rightarrow> string outcome" where
  "xvasprintf fmt args = (case fmt of None \<Rightarrow> Done [] | Some f \<Rightarrow> xvasprintf_loop f args)"

section \<open>Printing into buffers\<close>

record CBData =
  cbd_str :: mem
  cbd_size :: nat
  cbd_written :: nat

definition cb_sprintf :: "CBData \<Rightarrow> char \<Rightarrow> CBData outcome" where
  "cb_sprintf d c =
     (if cbd_size d > cbd_written d + 1 then
        and_then (array_set (cbd_str d) (cbd_written d) c) (\<lambda>str.
        if cbd_written d + 1 < cbd_size d then
          and_then (array_set str (cbd_written d + 1) NUL) (\<lambda>str'.
          Done (d\<lparr>cbd_str := str', cbd_written := cbd_written d + 1\<rparr>))
        else Done (d\<lparr>cbd_str := str, cbd_written := cbd_written d + 1\<rparr>))
      else Done d)"

definition cb_sxprintf :: "CBData \<Rightarrow> char \<Rightarrow> CBData outcome" where
  "cb_sxprintf d c =
     and_then (array_set (cbd_str d) (cbd_written d) c) (\<lambda>str.
     Done (d\<lparr>cbd_str := str, cbd_written := cbd_written d + 1\<rparr>))"

primrec cb_all :: "(CBData \<Rightarrow> char \<Rightarrow> CBData outcome) \<Rightarrow> CBData \<Rightarrow> string \<Rightarrow> CBData outcome" where
  "cb_all cb d [] = Done d"
| "cb_all cb d (c # s) = and_then (cb d c) (\<lambda>d'. cb_all cb d' s)"

text \<open>The buffer afterwards and the return value, an \<open>int\<close>.\<close>

definition vsnprintf :: "mem \<Rightarrow> nat \<Rightarrow> string option \<Rightarrow> va list \<Rightarrow> (mem \<times> cint) outcome" where
  "vsnprintf str n format ap =
     and_then (xvasprintf format ap) (\<lambda>s.
     and_then (cb_all cb_sprintf \<lparr>cbd_str = str, cbd_size = n, cbd_written = 0\<rparr> s) (\<lambda>d.
     and_then (cb_sprintf d NUL) (\<lambda>d'. Done (cbd_str d', of_nat (length s)))))"

definition snprintf :: "mem \<Rightarrow> nat \<Rightarrow> string option \<Rightarrow> va list \<Rightarrow> (mem \<times> cint) outcome" where
  "snprintf str n format args =
     and_then (xvasprintf format args) (\<lambda>s.
     and_then (cb_all cb_sprintf \<lparr>cbd_str = str, cbd_size = n, cbd_written = 0\<rparr> s) (\<lambda>d.
     and_then (cb_sprintf d NUL) (\<lambda>d'. Done (cbd_str d', of_nat (length s)))))"

definition sprintf :: "mem \<Rightarrow> string option \<Rightarrow> va list \<Rightarrow> (mem \<times> cint) outcome" where
  "sprintf str format args =
     and_then (xvasprintf format args) (\<lambda>s.
     and_then (cb_all cb_sxprintf \<lparr>cbd_str = str, cbd_size = 0, cbd_written = 0\<rparr> s) (\<lambda>d.
     and_then (cb_sxprintf d NUL) (\<lambda>d'. Done (cbd_str d', of_nat (length s)))))"


section \<open>What the decimal printer prints\<close>

lemma num_digits_length: "n < 10 ^ k \<Longrightarrow> 0 < k \<Longrightarrow> length (num_digits 10 n) \<le> k"
proof (induction k arbitrary: n)
  case 0
  then show ?case by simp
next
  case (Suc k)
  show ?case
  proof (cases "n < 10")
    case True
    then show ?thesis by (simp add: num_digits.simps [of 10 n])
  next
    case False
    with Suc.prems have "0 < k" by (cases k) auto
    moreover have "n div 10 < 10 ^ k" using Suc.prems by (simp add: div_less_iff_less_mult mult.commute)
    ultimately have "length (num_digits 10 (n div 10)) \<le> k" by (intro Suc.IH)
    with False show ?thesis by (simp add: num_digits.simps [of 10 n])
  qed
qed

lemma num_digits_u64: "length (num_digits 10 (unat (v :: u64))) \<le> 20"
proof (rule num_digits_length)
  have "unat v < 2 ^ LENGTH(64)" by (rule unsigned_less)
  then have "unat v < 2 ^ 64" by simp
  also have "(2 :: nat) ^ 64 < 10 ^ 20" by simp
  finally show "unat v < 10 ^ 20" .
qed simp

lemma u64_lt_10: "\<not> (10 :: u64) \<le> v \<longleftrightarrow> unat v < 10"
  by (simp add: word_le_nat_alt not_le)

lemma dec_width_spec: "dec_width v (Suc n) = n + length (num_digits 10 (unat v))"
proof (induction v "Suc n" arbitrary: n rule: dec_width.induct)
  case (1 v)
  show ?case
  proof (cases "10 \<le> v")
    case True
    with 1 have "dec_width (v div 10) (Suc (Suc n)) = Suc n + length (num_digits 10 (unat (v div 10)))" by simp
    moreover have "\<not> unat v < 10" using True by (simp add: word_le_nat_alt)
    ultimately show ?thesis using True
      by (simp add: dec_width.simps [of v] num_digits.simps [of 10 "unat v"] unat_div)
  next
    case False
    then have "unat v < 10" by (simp only: u64_lt_10)
    with False show ?thesis by (simp add: dec_width.simps [of v] num_digits.simps [of 10 "unat v"])
  qed
qed

lemma dec_digits_spec: "dec_digits (length (num_digits 10 (unat v))) v = num_string 10 (unat v)"
proof (induction v rule: measure_induct_rule [of unat])
  case (less v)
  have m: "unat (v mod 10) = unat v mod 10" by (simp add: unat_mod)
  show ?case
  proof (cases "unat v < 10")
    case True
    then show ?thesis by (simp add: num_string_def num_digits.simps [of 10 "unat v"] digit_char_def m)
  next
    case False
    then have "unat (v div 10) < unat v" by (simp add: unat_div)
    from less [OF this] False show ?thesis
      by (simp add: num_string_def num_digits.simps [of 10 "unat v"] digit_char_def m unat_div)
  qed
qed

text \<open>The default conversion of an unsigned value is its shortest decimal numeral.\<close>

lemma print_dec_numeral: "print_dec v 0 fill True (- 1) = Done (num_string 10 (unat v))"
proof -
  have p: "unat (scast (1 :: cint) :: u64) = 1" by simp
  show ?thesis
  proof (cases "v = 0")
    case True
    then show ?thesis
      by (simp add: print_dec_def num_string_def num_digits.simps digit_char_def)
  next
    case False
    have "dec_width v 1 = length (num_digits 10 (unat v))" using dec_width_spec [of v 0] by simp
    moreover have "0 < length (num_digits 10 (unat v))" using num_digits_nonempty by simp
    ultimately show ?thesis
      using False num_digits_u64 [of v] dec_digits_spec [of v] by (simp add: print_dec_def Let_def)
  qed
qed

section \<open>What \<open>snprintf\<close> writes\<close>

text \<open>
  The state of \<open>snprintf\<close> after \<open>s\<close>: as much of it as fits before the last byte, terminated once
  anything was written, and nothing from \<open>n\<close> on touched.
\<close>

definition snprintf_state :: "mem \<Rightarrow> nat \<Rightarrow> string \<Rightarrow> CBData \<Rightarrow> bool" where
  "snprintf_state buf n s d \<longleftrightarrow> cbd_size d = n \<and> length (cbd_str d) = length buf \<and>
     cbd_written d = min (length s) (n - 1) \<and> take (cbd_written d) (cbd_str d) = take (n - 1) s \<and>
     (\<forall>i. n \<le> i \<and> i < length buf \<longrightarrow> cbd_str d ! i = buf ! i) \<and> (s \<noteq> [] \<longrightarrow> cbd_str d ! cbd_written d = NUL)"

lemma snprintf_state_step:
  assumes d: "snprintf_state buf n s d" and n: "2 \<le> n" "n \<le> length buf"
  shows "\<exists>d'. cb_sprintf d c = Done d' \<and> snprintf_state buf n (s @ [c]) d'"
proof (cases "length s < n - 1")
  case True
  then have w: "cbd_written d = length s" using d by (simp add: snprintf_state_def)
  let ?d = "d\<lparr>cbd_str := (cbd_str d)[length s := c, length s + 1 := NUL], cbd_written := length s + 1\<rparr>"
  have "cb_sprintf d c = Done ?d" using True w d n by (simp add: cb_sprintf_def snprintf_state_def)
  moreover have "take (length s + 1) (cbd_str ?d) = s @ [c]"
  proof -
    have "take (length s) (cbd_str d) = s" using d w True by (simp add: snprintf_state_def)
    moreover have "length s < length (cbd_str d)" using True d n by (simp add: snprintf_state_def)
    ultimately show ?thesis by (simp add: take_Suc_conv_app_nth)
  qed
  moreover have "cbd_str ?d ! i = buf ! i" if "n \<le> i" "i < length buf" for i
    using that True d by (simp add: snprintf_state_def)
  moreover have "cbd_str ?d ! (length s + 1) = NUL" using True d n by (simp add: snprintf_state_def)
  ultimately show ?thesis using True d by (intro exI [of _ ?d]) (auto simp: snprintf_state_def)
next
  case False
  then have w: "cbd_written d = n - 1" using d by (simp add: snprintf_state_def)
  have "cb_sprintf d c = Done d" using w d n by (simp add: cb_sprintf_def snprintf_state_def)
  moreover have "s \<noteq> []" using False n by auto
  ultimately show ?thesis using d w False by (intro exI [of _ d]) (simp add: snprintf_state_def)
qed

lemma snprintf_state_all:
  "snprintf_state buf n s d \<Longrightarrow> 2 \<le> n \<Longrightarrow> n \<le> length buf \<Longrightarrow>
   \<exists>d'. cb_all cb_sprintf d t = Done d' \<and> snprintf_state buf n (s @ t) d'"
proof (induction t arbitrary: s d)
  case Nil
  then show ?case by simp
next
  case (Cons c t)
  from snprintf_state_step [OF Cons.prems, of c] obtain d1 where
    d1: "cb_sprintf d c = Done d1" "snprintf_state buf n (s @ [c]) d1" by blast
  from Cons.IH [OF d1(2) Cons.prems(2,3)] d1(1) show ?case by simp
qed

lemma snprintf_spec:
  assumes "xvasprintf fmt args = Done s" "2 \<le> n" "n \<le> length buf"
  shows "\<exists>buf'. snprintf buf n fmt args = Done (buf', of_nat (length s)) \<and> length buf' = length buf \<and>
           take (min (length s) (n - 1)) buf' = take (n - 1) s \<and> buf' ! min (length s) (n - 1) = NUL \<and>
           (\<forall>i. n \<le> i \<and> i < length buf \<longrightarrow> buf' ! i = buf ! i)"
proof -
  let ?d0 = "\<lparr>cbd_str = buf, cbd_size = n, cbd_written = 0\<rparr>"
  have "snprintf_state buf n [] ?d0" by (simp add: snprintf_state_def)
  from snprintf_state_all [OF this assms(2,3), of s] obtain d where
    d: "cb_all cb_sprintf ?d0 s = Done d" "snprintf_state buf n s d" by auto
  from snprintf_state_step [OF d(2) assms(2,3), of NUL] obtain d' where
    d': "cb_sprintf d NUL = Done d'" "snprintf_state buf n (s @ [NUL]) d'" by blast
  have "cbd_str d' ! min (length s) (n - 1) = NUL"
  proof (cases "length s < n - 1")
    case True
    then have "cbd_written d' = length s + 1" "take (cbd_written d') (cbd_str d') = s @ [NUL]"
      using d'(2) by (auto simp: snprintf_state_def)
    then have "take (length s + 1) (cbd_str d') = s @ [NUL]" by metis
    then have "cbd_str d' ! length s = NUL" by (metis nth_append_length nth_take less_add_one)
    with True show ?thesis by simp
  next
    case False
    with d'(2) show ?thesis by (auto simp: snprintf_state_def min_def)
  qed
  moreover have "take (min (length s) (n - 1)) (cbd_str d') = take (n - 1) s"
  proof -
    define m where "m = min (length s) (n - 1)"
    have w: "take (cbd_written d') (cbd_str d') = take (n - 1) (s @ [NUL])" "m \<le> cbd_written d'"
      using d'(2) by (auto simp: snprintf_state_def m_def)
    have "take m (cbd_str d') = take m (take (cbd_written d') (cbd_str d'))" using w(2) by (simp add: min_absorb1)
    also have "\<dots> = take m (take (n - 1) (s @ [NUL]))" by (simp only: w(1))
    also have "\<dots> = take m s" by (simp add: m_def min_absorb1)
    also have "\<dots> = take (n - 1) s" by (simp add: m_def min_def)
    finally show ?thesis by (simp only: m_def)
  qed
  moreover have "snprintf buf n fmt args = Done (cbd_str d', of_nat (length s))"
    using assms(1) d(1) d'(1) by (simp add: snprintf_def)
  ultimately show ?thesis using d'(2) by (intro exI [of _ "cbd_str d'"]) (simp add: snprintf_state_def)
qed

text \<open>A size below 2 leaves no room for a character and its terminator, and nothing at all is written.\<close>

lemma cb_all_no_room: "cbd_size d \<le> cbd_written d + 1 \<Longrightarrow> cb_all cb_sprintf d s = Done d"
  by (induction s) (simp_all add: cb_sprintf_def)

lemma snprintf_no_room:
  assumes "xvasprintf fmt args = Done s" "n < 2"
  shows "snprintf buf n fmt args = Done (buf, of_nat (length s))"
  using assms cb_all_no_room [of "\<lparr>cbd_str = buf, cbd_size = n, cbd_written = 0\<rparr>"]
  by (simp add: snprintf_def cb_sprintf_def)

text \<open>
  C12: \<open>snprintf\<close> is safe and truncates: it writes no byte at or after \<open>n\<close> and returns the full length
  of what the format produces; with \<open>n \<ge> 2\<close> the buffer holds the first \<open>n - 1\<close> characters of it, ended
  by a terminator, and with a smaller \<open>n\<close> it is left as it was, without the terminator that a buffer
  of one byte has room for.
\<close>

theorem snprintf_bounded:
  assumes "xvasprintf fmt args = Done s" "n \<le> length buf"
  shows "\<exists>buf'. snprintf buf n fmt args = Done (buf', of_nat (length s)) \<and> length buf' = length buf \<and>
           (\<forall>i. n \<le> i \<and> i < length buf \<longrightarrow> buf' ! i = buf ! i) \<and>
           (if 2 \<le> n then take (min (length s) (n - 1)) buf' = take (n - 1) s \<and> buf' ! min (length s) (n - 1) = NUL
            else buf' = buf)"
  using snprintf_spec [OF assms(1) _ assms(2)] snprintf_no_room [OF assms(1)] by (cases "2 \<le> n") auto

theorem snprintf_bounded_witness:
  "snprintf (replicate 6 (CHR ''z'')) 4 (Some ''%x-%s'') [VInt 255, VStr (Some ''hey'')] = Done (''ff-'' @ NUL # ''zz'', 6)"
proof -
  have "xvasprintf (Some ''%x-%s'') [VInt 255, VStr (Some ''hey'')] = Done ''ff-hey''" by code_simp
  from snprintf_bounded [OF this, of 4 "replicate 6 (CHR ''z'')"] obtain b where
    b: "snprintf (replicate 6 (CHR ''z'')) 4 (Some ''%x-%s'') [VInt 255, VStr (Some ''hey'')] = Done (b, 6)"
      "length b = 6" "take 3 b = ''ff-''" "b ! 3 = NUL" "\<forall>i. 4 \<le> i \<and> i < 6 \<longrightarrow> b ! i = replicate 6 (CHR ''z'') ! i"
    by (auto simp: numeral_eq_Suc min_def)
  have "b ! 4 = CHR ''z''" "b ! 5 = CHR ''z''" using b(5) by auto
  with b(2-4) have "b = ''ff-'' @ NUL # ''zz''"
    by (auto simp: list_eq_iff_nth_eq less_Suc_eq numeral_eq_Suc)
  with b(1) show ?thesis by simp
qed

text \<open>Whatever the size, nothing from it on is touched.\<close>

lemma cb_sprintf_frame:
  "cb_sprintf d c = Done d' \<Longrightarrow> cbd_size d' = cbd_size d \<and> length (cbd_str d') = length (cbd_str d) \<and>
     (\<forall>i. cbd_size d \<le> i \<and> i < length (cbd_str d) \<longrightarrow> cbd_str d' ! i = cbd_str d ! i)"
  by (auto simp: cb_sprintf_def outcome_iff split: if_splits)

lemma cb_all_frame:
  "cb_all cb_sprintf d s = Done d' \<Longrightarrow> cbd_size d' = cbd_size d \<and> length (cbd_str d') = length (cbd_str d) \<and>
     (\<forall>i. cbd_size d \<le> i \<and> i < length (cbd_str d) \<longrightarrow> cbd_str d' ! i = cbd_str d ! i)"
proof (induction s arbitrary: d)
  case Nil
  then show ?case by simp
next
  case (Cons c s)
  then obtain d1 where "cb_sprintf d c = Done d1" "cb_all cb_sprintf d1 s = Done d'" by (auto simp: outcome_iff)
  with Cons.IH [of d1] cb_sprintf_frame [of d c d1] show ?case by auto
qed

lemma snprintf_frame:
  assumes "snprintf buf n fmt args = Done (buf', w)"
  shows "length buf' = length buf \<and> (\<forall>i. n \<le> i \<and> i < length buf \<longrightarrow> buf' ! i = buf ! i)"
proof -
  from assms obtain s d d' where "cb_all cb_sprintf \<lparr>cbd_str = buf, cbd_size = n, cbd_written = 0\<rparr> s = Done d"
    "cb_sprintf d NUL = Done d'" "buf' = cbd_str d'" by (auto simp: snprintf_def outcome_iff)
  with cb_all_frame [of _ s d] cb_sprintf_frame [of d NUL d'] show ?thesis by fastforce
qed

section \<open>Decimal numbers through the buffer\<close>

lemma not_digits: "\<not> isdigit (schar (CHR ''l''))" "\<not> isdigit (schar (CHR ''d''))" "\<not> isdigit (schar (CHR ''u''))"
  by code_simp+

lemma num_string_not_NUL:
  assumes "2 \<le> b" "b \<le> 36"
  shows "NUL \<notin> set (num_string b n)"
proof
  assume "NUL \<in> set (num_string b n)"
  then obtain d where d: "d \<in> set (num_digits b n)" "NUL = digit_char d" by (auto simp: num_string_def)
  have "d < 36" using num_digits_less [OF assms(1) d(1)] assms(2) by simp
  then have "schar (digit_char d) \<noteq> 0" by (simp add: schar_digit)
  with d(2) show False by simp
qed

lemma xvasprintf_lu: "xvasprintf (Some ''%lu'') [VInt v] = Done (num_string 10 (unat v))"
  by (simp add: xvasprintf_def pf_conversion_def pf_star_def pf_precision_def pf_convert_def pf_unsigned_def va_int_def
      print_dec_numeral not_digits)

text \<open>\<open>%d\<close> has no sign: a negative \<open>int\<close> prints as the unsigned 64-bit value it extends to.\<close>

lemma xvasprintf_loop_d:
  "xvasprintf_loop (CHR ''%'' # CHR ''d'' # f) (VInt v # args) =
     and_then (xvasprintf_loop f args) (\<lambda>s. Done (num_string 10 (unat (scast (ucast v :: cint) :: u64)) @ s))"
  by (simp add: pf_conversion_def pf_star_def pf_precision_def pf_convert_def pf_signed_def va_int_def
      print_dec_numeral not_digits)

lemma xvasprintf_d: "xvasprintf (Some ''%d'') [VInt v] = Done (num_string 10 (unat (scast (ucast v :: cint) :: u64)))"
  by (simp add: xvasprintf_def xvasprintf_loop_d del: xvasprintf_loop.simps(2))

text \<open>
  C13: \<open>snprintf\<close> with \<open>%lu\<close> and \<open>strtoul\<close> in base 10 are inverse on every 64-bit number, when the
  buffer has the 21 bytes the largest one takes.
\<close>

theorem snprintf_strtoul_round_trip:
  assumes "21 \<le> n" "n \<le> length buf"
  shows "\<exists>buf' out e. snprintf buf n (Some ''%lu'') [VInt v] = Done (buf', out) \<and> strtoul buf' 0 10 = Done (v, Some e) \<and> buf' ! e = NUL"
proof -
  define s where "s = num_string 10 (unat v)"
  have len: "length s \<le> 20" using num_digits_u64 [of v] by (simp add: s_def num_string_def)
  have m: "min (length s) (n - 1) = length s" "take (n - 1) s = s" using len assms(1) by auto
  from snprintf_spec [OF xvasprintf_lu, of n buf v, folded s_def] assms m obtain b where
    b: "snprintf buf n (Some ''%lu'') [VInt v] = Done (b, of_nat (length s))" "length b = length buf"
      "take (length s) b = s" "b ! length s = NUL" by auto
  have "cstr_at b 0 (sign_string False @ num_string 10 (unat v))"
    using b len assms num_string_not_NUL [of 10 "unat v"] by (simp add: cstr_at_def sign_string_def s_def [symmetric])
  from strto_body_numeral [OF this, of False "0xFFFFFFFFFFFFFFFF"] have "strtoul b 0 10 = Done (v, Some (length s))"
    by (simp add: strtoul_def sign_string_def s_def)
  with b(1,4) show ?thesis by blast
qed

theorem snprintf_strtoul_round_trip_witness:
  "\<exists>buf' out e. snprintf (replicate 32 NUL) 32 (Some ''%lu'') [VInt 18446744073709551615] = Done (buf', out) \<and>
     strtoul buf' 0 10 = Done (18446744073709551615, Some e) \<and> buf' ! e = NUL"
  by (rule snprintf_strtoul_round_trip) simp_all

end
