(* ===== verification/Libc_Time.thy ===== *)
theory Libc_Time
  imports Printf "HOL-Library.Signed_Division"
begin

text \<open>
  \<open>libpolyhedron/time\<close>: calendar time. A \<open>long\<close> is an integer here, since the loops stay far below its
  bounds; the \<open>int\<close> and \<open>unsigned int\<close> arithmetic of \<open>mktime\<close> is at its width. Division is C's, which
  rounds towards zero.
\<close>

section \<open>Broken-down time (localtime.c)\<close>

record tm =
  tm_sec :: int
  tm_min :: int
  tm_hour :: int
  tm_mday :: int
  tm_mon :: int
  tm_year :: int
  tm_wday :: int
  tm_yday :: int
  tm_isdst :: int
  tm_zone_name :: string
  tm_zone_offset :: int

definition is_year_leap :: "int \<Rightarrow> bool" where
  "is_year_leap year \<longleftrightarrow> year smod 4 = 0 \<and> (year smod 100 \<noteq> 0 \<or> year smod 400 = 0)"

definition get_days_in_month :: "int \<Rightarrow> int \<Rightarrow> int" where
  "get_days_in_month month year =
     (if month = 1 then 31 else if month = 2 then (if is_year_leap year then 29 else 28)
      else if month = 3 then 31 else if month = 4 then 30 else if month = 5 then 31
      else if month = 6 then 30 else if month = 7 then 31 else if month = 8 then 31
      else if month = 9 then 30 else if month = 10 then 31 else if month = 11 then 30
      else if month = 12 then 31 else 0)"

definition get_day_of_week :: "int \<Rightarrow> int" where
  "get_day_of_week seconds = (seconds sdiv 86400 + 4) smod 7"

definition get_seconds_of_months :: "int \<Rightarrow> int \<Rightarrow> int" where
  "get_seconds_of_months months year = foldl (\<lambda>days i. days + get_days_in_month i year) 0 [1..months - 1] * 86400"

function days_of_years :: "u32 \<Rightarrow> int \<Rightarrow> u32" where
  "days_of_years days years =
     (if years > 1969 then days_of_years (days + 365 + (if is_year_leap years then 1 else 0)) (years - 1) else days)"
  by pat_completeness auto
termination by (relation "measure (\<lambda>(days, years). nat (years - 1969))") auto

declare days_of_years.simps [simp del]

definition get_seconds_of_years :: "int \<Rightarrow> u32" where
  "get_seconds_of_years years = days_of_years 0 years * 86400"

text \<open>
  The nested loops of \<open>fill_time\<close>, innermost first: whether a pointer (or NULL) is returned, and the
  structure as they leave it. The number is the rounds left.
\<close>

fun fill_hours :: "int \<Rightarrow> int \<Rightarrow> tm \<Rightarrow> nat \<Rightarrow> int \<Rightarrow> int \<Rightarrow> bool \<times> tm" where
  "fill_hours timeValue year_sec t 0 hour seconds = (False, t)"
| "fill_hours timeValue year_sec t (Suc k) hour seconds =
     (if seconds + 60 * 60 > timeValue then
        (let remaining = timeValue - seconds in
         (True, t\<lparr>tm_hour := hour - 1, tm_min := remaining sdiv 60, tm_sec := remaining smod 60,
                  tm_wday := get_day_of_week timeValue, tm_yday := (timeValue - year_sec) sdiv 86400, tm_isdst := 0\<rparr>))
      else fill_hours timeValue year_sec t k (hour + 1) (seconds + 60 * 60))"

fun fill_days :: "int \<Rightarrow> int \<Rightarrow> tm \<Rightarrow> nat \<Rightarrow> int \<Rightarrow> int \<Rightarrow> bool \<times> tm" where
  "fill_days timeValue year_sec t 0 day seconds = (False, t)"
| "fill_days timeValue year_sec t (Suc k) day seconds =
     (if seconds + 60 * 60 * 24 > timeValue then fill_hours timeValue year_sec (t\<lparr>tm_mday := day\<rparr>) 24 1 seconds
      else fill_days timeValue year_sec t k (day + 1) (seconds + 60 * 60 * 24))"

fun fill_months :: "int \<Rightarrow> int \<Rightarrow> int \<Rightarrow> tm \<Rightarrow> nat \<Rightarrow> int \<Rightarrow> int \<Rightarrow> bool \<times> tm" where
  "fill_months timeValue year_sec year t 0 month seconds = (False, t)"
| "fill_months timeValue year_sec year t (Suc k) month seconds =
     (if seconds + get_days_in_month month year * 86400 > timeValue then
        fill_days timeValue year_sec (t\<lparr>tm_mon := month - 1\<rparr>) (nat (get_days_in_month month year)) 1 seconds
      else fill_months timeValue year_sec year t k (month + 1) (seconds + get_days_in_month month year * 86400))"

fun fill_years :: "int \<Rightarrow> tm \<Rightarrow> nat \<Rightarrow> int \<Rightarrow> int \<Rightarrow> bool \<times> tm" where
  "fill_years timeValue t 0 year seconds = (False, t)"
| "fill_years timeValue t (Suc k) year seconds =
     (let secs = (if is_year_leap year then 366 else 365) * 86400 in
      if seconds + secs > timeValue then
        fill_months timeValue seconds year (t\<lparr>tm_year := year - 1900\<rparr>) 12 1 seconds
      else fill_years timeValue t k (year + 1) (seconds + secs))"

definition fill_time :: "int \<Rightarrow> tm \<Rightarrow> string \<Rightarrow> int \<Rightarrow> bool \<times> tm" where
  "fill_time time t tzName tzOffset =
     (let timeValue = time + tzOffset;
          startingyear = (if timeValue < 0 then 1900 else 1970) in
      fill_years timeValue (t\<lparr>tm_zone_name := tzName, tm_zone_offset := tzOffset\<rparr>) (nat (2100 - startingyear)) startingyear
        (if timeValue < 0 then - 2208988800 else 0))"

definition localtime_r :: "int \<Rightarrow> tm \<Rightarrow> bool \<times> tm" where
  "localtime_r ptr time_val = fill_time ptr time_val ''UTC'' 0"

definition gmtime_r :: "int \<Rightarrow> tm \<Rightarrow> bool \<times> tm" where
  "gmtime_r ptr time_val = fill_time ptr time_val ''UTC'' 0"

text \<open>\<open>localtime\<close> and \<open>gmtime\<close> take and return the static \<open>_timevalue\<close>.\<close>

definition localtime :: "int \<Rightarrow> tm \<Rightarrow> bool \<times> tm" where
  "localtime ptr timevalue = fill_time ptr timevalue ''UTC'' 0"

definition gmtime :: "int \<Rightarrow> tm \<Rightarrow> bool \<times> tm" where
  "gmtime ptr timevalue = fill_time ptr timevalue ''UTC'' 0"

text \<open>The value of \<open>int\<close> arithmetic.\<close>

definition int32 :: "int \<Rightarrow> int" where
  "int32 x = signed_take_bit 31 x"

definition mktime :: "tm \<Rightarrow> int" where
  "mktime t =
     uint (get_seconds_of_years (int32 (tm_year t + 1899))) +
     get_seconds_of_months (int32 (tm_mon t + 1)) (int32 (tm_year t + 1900)) +
     int32 ((tm_mday t - 1) * 86400) + int32 (tm_hour t * 3600) + int32 (tm_min t * 60) + tm_sec t - tm_zone_offset t"

section \<open>The calendar\<close>

definition year_days :: "int \<Rightarrow> int" where
  "year_days year = (if is_year_leap year then 366 else 365)"

text \<open>The days from the first of January 1970 to the first of January of a later year.\<close>

definition days_since :: "int \<Rightarrow> int" where
  "days_since year = sum_list (map year_days [1970..year - 1])"

lemma sdiv_nonneg: "0 \<le> k \<Longrightarrow> 0 < l \<Longrightarrow> k sdiv l = k div (l :: int)"
  by (cases "k = 0") (simp_all add: signed_divide_int_def sgn_if)

lemma smod_nonneg: "0 \<le> k \<Longrightarrow> 0 < l \<Longrightarrow> k smod l = k mod (l :: int)"
  by (cases "k = 0") (simp_all add: signed_modulo_int_def sgn_if)

lemma days_since_next: "1970 \<le> y \<Longrightarrow> days_since (y + 1) = days_since y + year_days y"
  by (simp add: days_since_def upto_rec2)

lemma days_since_1970 [simp]: "days_since 1970 = 0"
  by (simp add: days_since_def)

lemma days_since_bounds: "1970 \<le> y \<Longrightarrow> 0 \<le> days_since y \<and> days_since y \<le> 366 * (y - 1970)"
proof (induction y rule: int_ge_induct)
  case base
  then show ?case by simp
next
  case (step y)
  then show ?case by (simp add: days_since_next year_days_def)
qed

lemma days_of_years_spec: "1969 \<le> y \<Longrightarrow> days_of_years d y = d + of_int (days_since (y + 1))"
proof (induction d y rule: days_of_years.induct)
  case (1 d y)
  show ?case
  proof (cases "y > 1969")
    case True
    with 1 have "days_of_years d y = d + 365 + (if is_year_leap y then 1 else 0) + of_int (days_since y)"
      by (simp add: days_of_years.simps [of d y])
    with True show ?thesis by (simp add: days_since_next year_days_def)
  next
    case False
    with 1(2) have "y = 1969" by simp
    then show ?thesis by (simp add: days_of_years.simps)
  qed
qed

lemma get_seconds_of_years_spec:
  assumes "1970 \<le> y" "y \<le> 2099"
  shows "uint (get_seconds_of_years (y - 1)) = days_since y * 86400"
proof -
  have b: "0 \<le> days_since y" "days_since y * 86400 < 2 ^ 32" using days_since_bounds [OF assms(1)] assms(2) by auto
  have "get_seconds_of_years (y - 1) = of_int (days_since y * 86400)"
    using assms(1) days_of_years_spec [of "y - 1" 0] by (simp add: get_seconds_of_years_def)
  then have "uint (get_seconds_of_years (y - 1)) = take_bit 32 (days_since y * 86400)"
    by (simp only: uint_word_of_int_eq) simp
  also have "\<dots> = days_since y * 86400" using b by (intro take_bit_int_eq_self) auto
  finally show ?thesis .
qed

lemma get_seconds_of_months_next:
  "1 \<le> m \<Longrightarrow> get_seconds_of_months (m + 1) y = get_seconds_of_months m y + get_days_in_month m y * 86400"
  by (simp add: get_seconds_of_months_def upto_rec2 distrib_right)

lemma get_seconds_of_months_1 [simp]: "get_seconds_of_months 1 y = 0"
  by (simp add: get_seconds_of_months_def)

lemma get_seconds_of_months_13: "get_seconds_of_months 13 y = year_days y * 86400"
proof -
  have "[1..12] = [1, 2, 3, 4, 5, 6, 7, 8, 9, 10, 11, 12 :: int]" by code_simp
  then show ?thesis by (simp add: get_seconds_of_months_def get_days_in_month_def year_days_def)
qed

section \<open>What the loops find\<close>

lemma div_mod_step: "0 \<noteq> n \<Longrightarrow> x div n = (x - n) div n + 1" "0 \<noteq> n \<Longrightarrow> x mod n = (x - n) mod (n :: int)"
  using div_add_self2 [of n "x - n"] by simp_all

lemma fill_hours_spec:
  "seconds \<le> tv \<Longrightarrow> tv < seconds + 3600 * int k \<Longrightarrow> fill_hours tv ys t k hour seconds =
     (True, t\<lparr>tm_hour := hour - 1 + (tv - seconds) div 3600, tm_min := (tv - seconds) mod 3600 sdiv 60,
              tm_sec := (tv - seconds) mod 3600 smod 60, tm_wday := get_day_of_week tv,
              tm_yday := (tv - ys) sdiv 86400, tm_isdst := 0\<rparr>)"
proof (induction k arbitrary: hour seconds)
  case 0
  then show ?case by simp
next
  case (Suc k)
  show ?case
  proof (cases "seconds + 3600 > tv")
    case True
    with Suc.prems have "(tv - seconds) div 3600 = 0" "(tv - seconds) mod 3600 = tv - seconds" by auto
    with True show ?thesis by (simp add: Let_def)
  next
    case False
    have "(tv - seconds) div 3600 = (tv - (seconds + 3600)) div 3600 + 1" "(tv - seconds) mod 3600 = (tv - (seconds + 3600)) mod 3600"
      using div_mod_step [of 3600 "tv - seconds"] by (simp_all only: diff_diff_eq zero_neq_numeral not_False_eq_True)
    with False Suc.prems Suc.IH [of "seconds + 3600" "hour + 1"] show ?thesis by simp
  qed
qed

lemma fill_days_spec:
  "seconds \<le> tv \<Longrightarrow> tv < seconds + 86400 * int k \<Longrightarrow> fill_days tv ys t k day seconds =
     fill_hours tv ys (t\<lparr>tm_mday := day + (tv - seconds) div 86400\<rparr>) 24 1 (tv - (tv - seconds) mod 86400)"
proof (induction k arbitrary: day seconds)
  case 0
  then show ?case by simp
next
  case (Suc k)
  show ?case
  proof (cases "seconds + 86400 > tv")
    case True
    with Suc.prems have "(tv - seconds) div 86400 = 0" "(tv - seconds) mod 86400 = tv - seconds" by auto
    with True show ?thesis by simp
  next
    case False
    have "(tv - seconds) div 86400 = (tv - (seconds + 86400)) div 86400 + 1" "(tv - seconds) mod 86400 = (tv - (seconds + 86400)) mod 86400"
      using div_mod_step [of 86400 "tv - seconds"] by (simp_all only: diff_diff_eq zero_neq_numeral not_False_eq_True)
    with False Suc.prems Suc.IH [of "seconds + 86400" "day + 1"] show ?thesis by (simp add: ac_simps)
  qed
qed

lemma fill_months_spec:
  assumes "1 \<le> month" "ys + get_seconds_of_months month y \<le> tv" "tv < ys + get_seconds_of_months (month + int k) y"
  shows "\<exists>m. month \<le> m \<and> m < month + int k \<and> ys + get_seconds_of_months m y \<le> tv \<and>
    tv < ys + get_seconds_of_months m y + get_days_in_month m y * 86400 \<and>
    fill_months tv ys y t k month (ys + get_seconds_of_months month y) =
      fill_days tv ys (t\<lparr>tm_mon := m - 1\<rparr>) (nat (get_days_in_month m y)) 1 (ys + get_seconds_of_months m y)"
  using assms
proof (induction k arbitrary: month)
  case 0
  then show ?case by simp
next
  case (Suc k)
  note nx = get_seconds_of_months_next [OF Suc.prems(1), of y]
  show ?case
  proof (cases "ys + get_seconds_of_months month y + get_days_in_month month y * 86400 > tv")
    case True
    with Suc.prems show ?thesis by (intro exI [of _ month]) simp
  next
    case False
    have eq: "month + 1 + int k = month + int (Suc k)" by simp
    from Suc.IH [of "month + 1"] Suc.prems False nx eq obtain m where
      "month + 1 \<le> m" "m < month + 1 + int k" "ys + get_seconds_of_months m y \<le> tv"
      "tv < ys + get_seconds_of_months m y + get_days_in_month m y * 86400"
      "fill_months tv ys y t k (month + 1) (ys + get_seconds_of_months (month + 1) y) =
        fill_days tv ys (t\<lparr>tm_mon := m - 1\<rparr>) (nat (get_days_in_month m y)) 1 (ys + get_seconds_of_months m y)"
      by auto
    with False nx show ?thesis by (intro exI [of _ m]) (auto simp: add.assoc)
  qed
qed

lemma fill_years_spec:
  assumes "1970 \<le> year" "days_since year * 86400 \<le> tv" "tv < days_since (year + int k) * 86400"
  shows "\<exists>y. year \<le> y \<and> y < year + int k \<and> days_since y * 86400 \<le> tv \<and> tv < days_since y * 86400 + year_days y * 86400 \<and>
    fill_years tv t k year (days_since year * 86400) =
      fill_months tv (days_since y * 86400) y (t\<lparr>tm_year := y - 1900\<rparr>) 12 1 (days_since y * 86400)"
  using assms
proof (induction k arbitrary: year)
  case 0
  then show ?case by simp
next
  case (Suc k)
  have nx: "days_since (year + 1) * 86400 = days_since year * 86400 + year_days year * 86400"
    using days_since_next [OF Suc.prems(1)] by simp
  show ?case
  proof (cases "days_since year * 86400 + year_days year * 86400 > tv")
    case True
    with Suc.prems show ?thesis by (intro exI [of _ year]) (simp add: Let_def year_days_def)
  next
    case False
    have eq: "year + 1 + int k = year + int (Suc k)" by simp
    from Suc.IH [of "year + 1"] Suc.prems False nx eq obtain y where
      "year + 1 \<le> y" "y < year + 1 + int k" "days_since y * 86400 \<le> tv" "tv < days_since y * 86400 + year_days y * 86400"
      "fill_years tv t k (year + 1) (days_since (year + 1) * 86400) =
        fill_months tv (days_since y * 86400) y (t\<lparr>tm_year := y - 1900\<rparr>) 12 1 (days_since y * 86400)"
      by auto
    with False nx show ?thesis by (intro exI [of _ y]) (auto simp: Let_def year_days_def)
  qed
qed

lemma fill_years_none: "days_since (year + int k) * 86400 \<le> tv \<Longrightarrow> 1970 \<le> year \<Longrightarrow>
  fill_years tv t k year (days_since year * 86400) = (False, t)"
proof (induction k arbitrary: year)
  case 0
  then show ?case by simp
next
  case (Suc k)
  have nx: "days_since (year + 1) * 86400 = days_since year * 86400 + year_days year * 86400"
    using days_since_next [OF Suc.prems(2)] by simp
  have mono: "days_since (year + 1) \<le> days_since (year + 1 + int j)" for j
  proof (induction j)
    case (Suc j)
    then show ?case using days_since_next [of "year + 1 + int j"] \<open>1970 \<le> year\<close> by (simp add: year_days_def algebra_simps split: if_splits)
  qed simp
  have eq: "year + 1 + int k = year + int (Suc k)" by simp
  have "fill_years tv t k (year + 1) (days_since (year + 1) * 86400) = (False, t)"
    using Suc.IH [of "year + 1"] Suc.prems eq by simp
  moreover have "days_since year * 86400 + year_days year * 86400 \<le> tv"
    using mono [of k] Suc.prems nx eq by auto
  ultimately show ?case using nx by (auto simp: Let_def year_days_def)
qed

text \<open>What a complete structure says: each field in its range.\<close>

definition tm_ok :: "tm \<Rightarrow> bool" where
  "tm_ok t \<longleftrightarrow> 0 \<le> tm_mon t \<and> tm_mon t \<le> 11 \<and> 1 \<le> tm_mday t \<and>
     tm_mday t \<le> get_days_in_month (tm_mon t + 1) (tm_year t + 1900) \<and> 0 \<le> tm_hour t \<and> tm_hour t \<le> 23 \<and>
     0 \<le> tm_min t \<and> tm_min t \<le> 59 \<and> 0 \<le> tm_sec t \<and> tm_sec t \<le> 59 \<and> 0 \<le> tm_wday t \<and> tm_wday t \<le> 6"

lemma tm_ok_update:
  "\<lbrakk>1 \<le> m; m < 13; 0 \<le> d; d < get_days_in_month m y; 0 \<le> h; h \<le> 23; 0 \<le> mi; mi \<le> 59; 0 \<le> s; s \<le> 59; 0 \<le> w; w < 7\<rbrakk> \<Longrightarrow>
   tm_ok (t\<lparr>tm_year := y - 1900, tm_mon := m - 1, tm_mday := 1 + d, tm_hour := h, tm_min := mi, tm_sec := s,
     tm_wday := w, tm_yday := yd, tm_isdst := 0\<rparr>)"
  by (simp add: tm_ok_def)

lemma int32_id: "- (2 ^ 31) \<le> x \<Longrightarrow> x < 2 ^ 31 \<Longrightarrow> int32 x = x"
  by (simp add: int32_def signed_take_bit_int_eq_self)

lemma get_days_in_month_le: "get_days_in_month m y \<le> 31"
  by (simp add: get_days_in_month_def)

lemma days_since_2100: "days_since 2100 = 47482"
proof -
  have "days_since 2100 = foldr (\<lambda>y n. year_days y + n) [1970..2099] 0"
    by (simp add: days_since_def sum_list.eq_foldr foldr_map comp_def del: upto_rec_numeral)
  also have "\<dots> = 47482" by code_simp
  finally show ?thesis .
qed

lemma fill_time_spec:
  assumes "0 \<le> tv" "tv < 4102444800"
  shows "\<exists>r. fill_time tv t zone 0 = (True, r) \<and> tm_ok r \<and> mktime r = tv \<and> tm_zone_offset r = 0 \<and>
    tm_wday r = (tv div 86400 + 4) mod 7 \<and> tm_yday r = tv div 86400 - days_since (tm_year r + 1900) \<and>
    1970 \<le> tm_year r + 1900 \<and> tm_year r + 1900 \<le> 2099"
proof -
  let ?t = "t\<lparr>tm_zone_name := zone, tm_zone_offset := 0\<rparr>"
  have "tv < days_since (1970 + int 130) * 86400" using assms(2) days_since_2100 by simp
  from fill_years_spec [of 1970 tv 130 ?t] this assms(1) obtain y where
    y: "1970 \<le> y" "y < 2100" "days_since y * 86400 \<le> tv" "tv < days_since y * 86400 + year_days y * 86400"
    and fy: "fill_years tv ?t 130 1970 0 = fill_months tv (days_since y * 86400) y (?t\<lparr>tm_year := y - 1900\<rparr>) 12 1 (days_since y * 86400)"
    by auto
  define ys where "ys = days_since y * 86400"
  have "tv < ys + get_seconds_of_months (1 + int 12) y" using y(4) get_seconds_of_months_13 by (simp add: ys_def)
  from fill_months_spec [of 1 ys y tv 12 "?t\<lparr>tm_year := y - 1900\<rparr>"] this y(3) obtain m where
    m: "1 \<le> m" "m < 13" "ys + get_seconds_of_months m y \<le> tv"
      "tv < ys + get_seconds_of_months m y + get_days_in_month m y * 86400"
    and fm: "fill_months tv ys y (?t\<lparr>tm_year := y - 1900\<rparr>) 12 1 ys =
      fill_days tv ys (?t\<lparr>tm_year := y - 1900, tm_mon := m - 1\<rparr>) (nat (get_days_in_month m y)) 1 (ys + get_seconds_of_months m y)"
    by (auto simp: ys_def)
  define r where "r = tv - (ys + get_seconds_of_months m y)"
  have r: "0 \<le> r" "r < get_days_in_month m y * 86400" using m by (simp_all add: r_def)
  have dpos: "0 < get_days_in_month m y" using r by auto
  have "fill_days tv ys (?t\<lparr>tm_year := y - 1900, tm_mon := m - 1\<rparr>) (nat (get_days_in_month m y)) 1 (ys + get_seconds_of_months m y) =
      fill_hours tv ys (?t\<lparr>tm_year := y - 1900, tm_mon := m - 1, tm_mday := 1 + r div 86400\<rparr>) 24 1 (tv - r mod 86400)"
    using m(3,4) dpos fill_days_spec [of "ys + get_seconds_of_months m y" tv "nat (get_days_in_month m y)" ys] by (simp add: r_def)
  moreover define q where "q = r mod 86400"
  have q: "0 \<le> q" "q < 86400" by (simp_all add: q_def)
  define f where "f = ?t\<lparr>tm_year := y - 1900, tm_mon := m - 1, tm_mday := 1 + r div 86400,
     tm_hour := q div 3600, tm_min := q mod 3600 sdiv 60, tm_sec := q mod 3600 smod 60,
     tm_wday := get_day_of_week tv, tm_yday := (tv - ys) sdiv 86400, tm_isdst := 0\<rparr>"
  have "fill_hours tv ys (?t\<lparr>tm_year := y - 1900, tm_mon := m - 1, tm_mday := 1 + r div 86400\<rparr>) 24 1 (tv - q) = (True, f)"
    using q fill_hours_spec [of "tv - q" tv 24 ys _ 1] by (simp add: f_def)
  ultimately have "fill_time tv t zone 0 = (True, f)"
    using assms(1) fy fm by (simp add: fill_time_def ys_def q_def Let_def)
  moreover have parts: "q mod 3600 sdiv 60 = q mod 3600 div 60" "q mod 3600 smod 60 = q mod 60"
    "get_day_of_week tv = (tv div 86400 + 4) mod 7" "(tv - ys) sdiv 86400 = tv div 86400 - days_since y"
  proof -
    have "0 \<le> q mod 3600" "0 \<le> tv div 86400 + 4" "0 \<le> tv - ys" using assms(1) y(3) by (simp_all add: ys_def)
    then show "q mod 3600 sdiv 60 = q mod 3600 div 60" "q mod 3600 smod 60 = q mod 60"
      "get_day_of_week tv = (tv div 86400 + 4) mod 7"
      using assms(1) by (simp_all only: sdiv_nonneg smod_nonneg get_day_of_week_def) (simp_all add: mod_mod_cancel)
    have "(tv - ys) sdiv 86400 = (tv - ys) div 86400" using \<open>0 \<le> tv - ys\<close> by (rule sdiv_nonneg) simp
    also have "\<dots> = (- days_since y * 86400 + tv) div 86400" by (simp add: ys_def)
    also have "\<dots> = - days_since y + tv div 86400" by (rule div_mult_self3) simp
    finally show "(tv - ys) sdiv 86400 = tv div 86400 - days_since y" by simp
  qed
  moreover have "tm_ok f"
  proof -
    have rq: "r = 86400 * (r div 86400) + q" by (simp add: q_def)
    then have "r div 86400 < get_days_in_month m y" "0 \<le> r div 86400" using r q by (auto simp: pos_imp_zdiv_nonneg_iff)
    moreover have "q div 3600 \<le> 23" "q mod 3600 div 60 \<le> 59" "q mod 60 \<le> 59" using q by auto
    moreover have "(tv div 86400 + 4) mod 7 < 7" by (rule pos_mod_bound) simp
    moreover have "0 \<le> (tv div 86400 + 4) mod 7" "0 \<le> q mod 3600 div 60" "0 \<le> q mod 60" "0 \<le> q div 3600"
      using q by (simp_all add: pos_imp_zdiv_nonneg_iff)
    ultimately show ?thesis using m(1,2) unfolding f_def parts by (intro tm_ok_update)
  qed
  moreover have "mktime f = tv"
  proof -
    have rq: "r = 86400 * (r div 86400) + q" by (simp add: q_def)
    have rb: "r < 31 * 86400" using r(2) get_days_in_month_le [of m y] by linarith
    have i: "int32 (y - 1) = y - 1" "int32 y = y" "int32 m = m" "int32 (r div 86400 * 86400) = r div 86400 * 86400"
      "int32 (q div 3600 * 3600) = q div 3600 * 3600" "int32 (q mod 3600 div 60 * 60) = q mod 3600 div 60 * 60"
      using y m q r rb rq by (simp_all add: int32_id pos_imp_zdiv_nonneg_iff)
    have qq: "q div 3600 * 3600 + q mod 3600 div 60 * 60 + q mod 60 = q"
    proof -
      have "q mod 3600 mod 60 = q mod 60" by (simp add: mod_mod_cancel)
      with div_mult_mod_eq [of q 3600] div_mult_mod_eq [of "q mod 3600" 60] show ?thesis by linarith
    qed
    have "mktime f = ys + get_seconds_of_months m y + r div 86400 * 86400 +
        (q div 3600 * 3600 + q mod 3600 div 60 * 60 + q mod 60)"
      using y(2) get_seconds_of_years_spec [OF y(1)] unfolding mktime_def f_def parts ys_def
      by (simp add: i del: div_mult_mod_eq)
    also have "\<dots> = ys + get_seconds_of_months m y + r" using rq qq by linarith
    finally show ?thesis by (simp add: r_def)
  qed
  moreover have "tm_zone_offset f = 0" "tm_wday f = (tv div 86400 + 4) mod 7"
    "tm_yday f = tv div 86400 - days_since (tm_year f + 1900)" "1970 \<le> tm_year f + 1900" "tm_year f + 1900 \<le> 2099"
    using y(1,2) parts(3,4) by (simp_all add: f_def)
  ultimately show ?thesis by blast
qed

text \<open>
  C19: \<open>gmtime\<close> and \<open>mktime\<close> are inverse on every time from 1970 to the end of 2099: the conversion
  finds a date, with every field in its range and the right weekday and day of the year, and
  \<open>mktime\<close> turns it back into the time, with no overflow of its 32-bit arithmetic. From 2100 on it
  returns NULL.
\<close>

theorem gmtime_mktime_round_trip:
  assumes "0 \<le> time"
  shows "if time < 4102444800
         then \<exists>r. gmtime time t = (True, r) \<and> tm_ok r \<and> mktime r = time \<and> tm_wday r = (time div 86400 + 4) mod 7 \<and>
                tm_yday r = time div 86400 - days_since (tm_year r + 1900)
         else fst (gmtime time t) = False"
proof (cases "time < 4102444800")
  case True
  with fill_time_spec [OF assms True, of t "''UTC''"] show ?thesis by (auto simp: gmtime_def)
next
  case False
  then have "days_since (1970 + int 130) * 86400 \<le> time" by (simp add: days_since_2100)
  from fill_years_none [OF this, of "t\<lparr>tm_zone_name := ''UTC'', tm_zone_offset := 0\<rparr>"] False assms show ?thesis
    by (simp add: gmtime_def fill_time_def Let_def)
qed

text \<open>\<open>_timevalue\<close> before the first call.\<close>

definition tm_zero :: tm where
  "tm_zero = \<lparr>tm_sec = 0, tm_min = 0, tm_hour = 0, tm_mday = 0, tm_mon = 0, tm_year = 0, tm_wday = 0, tm_yday = 0,
     tm_isdst = 0, tm_zone_name = [], tm_zone_offset = 0\<rparr>"

theorem gmtime_mktime_round_trip_witness:
  "(\<exists>r. gmtime 951782400 tm_zero = (True, r) \<and> tm_ok r \<and> mktime r = 951782400 \<and> tm_wday r = 2) \<and> \<not> fst (gmtime 4102444800 tm_zero)"
proof
  show "\<exists>r. gmtime 951782400 tm_zero = (True, r) \<and> tm_ok r \<and> mktime r = 951782400 \<and> tm_wday r = 2"
    using gmtime_mktime_round_trip [of 951782400 tm_zero] by auto
  show "\<not> fst (gmtime 4102444800 tm_zero)"
    using gmtime_mktime_round_trip [of 4102444800 tm_zero] by auto
qed

section \<open>Formatting (strftime.c)\<close>

definition weekdays :: "string list" where
  "weekdays = [''Sunday'', ''Monday'', ''Tuesday'', ''Wednesday'', ''Thursday'', ''Friday'', ''Saturday'']"

definition weekdays_short :: "string list" where
  "weekdays_short = [''Sun'', ''Mon'', ''Tue'', ''Wed'', ''Thu'', ''Fri'', ''Sat'']"

definition months :: "string list" where
  "months = [''January'', ''February'', ''March'', ''April'', ''May'', ''June'', ''July'', ''August'', ''September'',
     ''October'', ''November'', ''December'']"

definition months_short :: "string list" where
  "months_short = [''Jan'', ''Feb'', ''Mar'', ''Apr'', ''May'', ''Jun'', ''Jul'', ''Aug'', ''Sep'', ''Oct'', ''Nov'', ''Dec'']"

text \<open>An \<open>int\<close> argument, an element of a table of names, the hour on a twelve-hour clock.\<close>

definition va_of :: "int \<Rightarrow> va" where
  "va_of x = VInt (of_int x)"

definition table :: "string list \<Rightarrow> int \<Rightarrow> va outcome" where
  "table xs i = (if i < 0 then Fault OutOfBounds else and_then (array_get xs (nat i)) (\<lambda>s. Done (VStr (Some s))))"

definition hour12 :: "int \<Rightarrow> int" where
  "hour12 h = (if h = 0 then 12 else if h = 12 then 12 else h smod 12)"

definition am_pm :: "string \<Rightarrow> string \<Rightarrow> int \<Rightarrow> va" where
  "am_pm am pm h = VStr (Some (if h < 12 then am else pm))"

text \<open>The format and arguments each conversion hands to \<open>snprintf\<close>; \<open>None\<close> for a character it does not know.\<close>

definition strf_convert :: "tm \<Rightarrow> char \<Rightarrow> (string \<times> va list) option outcome" where
  "strf_convert t c =
     (if c = CHR ''a'' then and_then (table weekdays_short (tm_wday t)) (\<lambda>d. Done (Some (''%s'', [d])))
      else if c = CHR ''A'' then and_then (table weekdays (tm_wday t)) (\<lambda>d. Done (Some (''%s'', [d])))
      else if c = CHR ''h'' \<or> c = CHR ''b'' then and_then (table months_short (tm_mon t)) (\<lambda>m. Done (Some (''%s'', [m])))
      else if c = CHR ''B'' then and_then (table months (tm_mon t)) (\<lambda>m. Done (Some (''%s'', [m])))
      else if c = CHR ''c'' then
        and_then (table weekdays_short (tm_wday t)) (\<lambda>d.
        and_then (table months_short (tm_mon t)) (\<lambda>m.
        Done (Some (''%s %s %02d %02d:%02d:%02d %04d'', [d, m, va_of (tm_mday t), va_of (tm_hour t), va_of (tm_min t),
          va_of (tm_sec t), va_of (int32 (tm_year t + 1900))]))))
      else if c = CHR ''C'' then Done (Some (''%02d'', [va_of (int32 (tm_year t + 1900) sdiv 100)]))
      else if c = CHR ''d'' then Done (Some (''%02d'', [va_of (tm_mday t)]))
      else if c = CHR ''D'' \<or> c = CHR ''x'' then
        Done (Some (''%02d/%02d/%02d'', [va_of (int32 (tm_mon t + 1)), va_of (tm_mday t), va_of (tm_year t smod 100)]))
      else if c = CHR ''e'' then Done (Some (''%2d'', [va_of (tm_mday t)]))
      else if c = CHR ''F'' then
        Done (Some (''%04d-%02d-%02d'', [va_of (int32 (tm_year t + 1900)), va_of (int32 (tm_mon t + 1)), va_of (tm_mday t)]))
      else if c = CHR ''H'' then Done (Some (''%02d'', [va_of (tm_hour t)]))
      else if c = CHR ''I'' then Done (Some (''%02d'', [va_of (hour12 (tm_hour t))]))
      else if c = CHR ''j'' then Done (Some (''%03d'', [va_of (tm_yday t)]))
      else if c = CHR ''k'' then Done (Some (''%2d'', [va_of (tm_hour t)]))
      else if c = CHR ''l'' then Done (Some (''%2d'', [va_of (hour12 (tm_hour t))]))
      else if c = CHR ''m'' then Done (Some (''%02d'', [va_of (int32 (tm_mon t + 1))]))
      else if c = CHR ''M'' then Done (Some (''%02d'', [va_of (tm_min t)]))
      else if c = CHR ''n'' then Done (Some ([char_of (10 :: nat)], []))
      else if c = CHR ''p'' then Done (Some (''%s'', [am_pm ''AM'' ''PM'' (tm_hour t)]))
      else if c = CHR ''P'' then Done (Some (''%s'', [am_pm ''am'' ''pm'' (tm_hour t)]))
      else if c = CHR ''r'' then
        Done (Some (''%02d:%02d:%02d %s'', [va_of (hour12 (tm_hour t)), va_of (tm_min t), va_of (tm_sec t), am_pm ''AM'' ''PM'' (tm_hour t)]))
      else if c = CHR ''R'' then Done (Some (''%02d:%02d'', [va_of (tm_hour t), va_of (tm_min t)]))
      else if c = CHR ''s'' then Done (Some (''%ld'', [VInt (of_int (mktime t))]))
      else if c = CHR ''S'' then Done (Some (''%02d'', [va_of (tm_sec t)]))
      else if c = CHR ''t'' then Done (Some ([char_of (9 :: nat)], []))
      else if c = CHR ''T'' \<or> c = CHR ''X'' then
        Done (Some (''%02d:%02d:%02d'', [va_of (tm_hour t), va_of (tm_min t), va_of (tm_sec t)]))
      else if c = CHR ''u'' then Done (Some (''%d'', [va_of (if tm_wday t = 0 then 7 else tm_wday t)]))
      else if c = CHR ''w'' then Done (Some (''%d'', [va_of (tm_wday t)]))
      else if c = CHR ''y'' then Done (Some (''%02d'', [va_of (tm_year t smod 100)]))
      else if c = CHR ''Y'' then Done (Some (''%04d'', [va_of (int32 (tm_year t + 1900))]))
      else if c = CHR ''z'' then
        (let zone_offset = (if tm_zone_offset t \<ge> 0 then tm_zone_offset t else int32 (- tm_zone_offset t));
             sgn = (if tm_zone_offset t \<ge> 0 then 43 else 45) in
         Done (Some (''%c%02d%02d'', [va_of sgn, va_of (zone_offset sdiv 3600), va_of (zone_offset sdiv 60 smod 60)])))
      else if c = CHR ''Z'' then Done (Some (tm_zone_name t, []))
      else if c = CHR ''%'' then Done (Some (''%c'', [va_of 37]))
      else if c \<in> set ''VWUGg'' then Done (Some (''<%c unsupported>'', [va_of (schar c)]))
      else Done None)"

text \<open>\<open>snprintf\<close> at \<open>b\<close> inside the buffer.\<close>

definition snprintf_at :: "mem \<Rightarrow> nat \<Rightarrow> nat \<Rightarrow> string \<Rightarrow> va list \<Rightarrow> (mem \<times> cint) outcome" where
  "snprintf_at s b n fmt args = and_then (snprintf (drop b s) n (Some fmt) args) (\<lambda>(d, w). Done (take b s @ d, w))"

text \<open>
  The loop over the format. The result is the buffer and the returned length; the format may not end
  inside a conversion. \<open>max\<close> is the room left.
\<close>

function strftime_loop :: "mem \<Rightarrow> nat \<Rightarrow> nat \<Rightarrow> string \<Rightarrow> tm \<Rightarrow> (mem \<times> nat) outcome" where
  "strftime_loop s b mx [] t = and_then (array_set s b NUL) (\<lambda>s'. Done (s', b))"
| "strftime_loop s b mx (c # f) t =
     (if c \<noteq> CHR ''%'' then
        if mx = 0 then Done (s, 0)
        else and_then (array_set s b c) (\<lambda>s'. strftime_loop s' (b + 1) (mx - 1) f t)
      else
        (case (if f \<noteq> [] \<and> (hd f = CHR ''E'' \<or> hd f = CHR ''0'') then tl f else f) of
           [] \<Rightarrow> Fault OutOfBounds
         | d # g \<Rightarrow>
             and_then (strf_convert t d) (\<lambda>r.
             and_then (case r of None \<Rightarrow> Done (s, 0) | Some (fmt, args) \<Rightarrow> snprintf_at s b mx fmt args) (\<lambda>(s', w).
             if sint w < 0 then Done (s', 0)
             else if unat w \<ge> mx then Done (s', 0)
             else strftime_loop s' (b + unat w) (mx - unat w) g t))))"
  by pat_completeness auto
termination
  by (relation "measure (\<lambda>(s, b, mx, f, t). length f)") (auto split: if_splits simp: neq_Nil_conv)

definition strftime :: "mem \<Rightarrow> nat \<Rightarrow> string \<Rightarrow> tm option \<Rightarrow> (mem \<times> nat) outcome" where
  "strftime s mx fmt tm = (case tm of
     None \<Rightarrow> if mx < 13 then Done (s, 0)
             else and_then (sprintf s (Some ''[tm is null]'') []) (\<lambda>(s', n). Done (s', unat (scast n :: u64)))
   | Some t \<Rightarrow> strftime_loop s 0 mx fmt t)"

text \<open>The static \<open>output[26]\<close> is the state of \<open>asctime\<close>.\<close>

definition asctime :: "mem \<Rightarrow> tm option \<Rightarrow> mem outcome" where
  "asctime output tm = and_then (strftime output 26 ''%a %b %d %T %Y'' tm) (\<lambda>(o', n). Done o')"

definition ctime :: "mem \<Rightarrow> int \<Rightarrow> tm \<Rightarrow> (mem \<times> tm) outcome" where
  "ctime output ptr timevalue =
     (case localtime ptr timevalue of (found, t) \<Rightarrow>
        and_then (asctime output (if found then Some t else None)) (\<lambda>o'. Done (o', t)))"

text \<open>\<open>gettimeofday\<close> gives the seconds; \<open>time\<close> stores them through \<open>out\<close> as well and returns them.\<close>

definition time :: "int \<Rightarrow> bool \<Rightarrow> int \<times> int option" where
  "time now out = (now, if out then Some now else None)"

lemma snprintf_at_frame:
  assumes "snprintf_at s b n fmt args = Done (s', w)"
  shows "length s' = length s \<and> (\<forall>i. i < b \<or> b + n \<le> i \<longrightarrow> i < length s \<longrightarrow> s' ! i = s ! i)"
proof (cases "b \<le> length s")
  case True
  from assms obtain d where d: "snprintf (drop b s) n (Some fmt) args = Done (d, w)" "s' = take b s @ d"
    by (auto simp: snprintf_at_def outcome_iff)
  from snprintf_frame [OF d(1)] have "length d = length s - b" "\<And>i. n \<le> i \<Longrightarrow> i < length s - b \<Longrightarrow> d ! i = s ! (b + i)"
    using True by auto
  with d(2) True show ?thesis by (auto simp: nth_append)
next
  case False
  with assms obtain d where "snprintf [] n (Some fmt) args = Done (d, w)" "s' = s @ d"
    by (auto simp: snprintf_at_def outcome_iff)
  with snprintf_frame [of "[]" n "Some fmt" args d w] show ?thesis by simp
qed

lemma strftime_loop_bounds:
  "strftime_loop s b mx f t = Done (s', n) \<Longrightarrow>
   length s' = length s \<and> n \<le> b + mx \<and> (\<forall>i. i < b \<or> b + mx < i \<longrightarrow> i < length s \<longrightarrow> s' ! i = s ! i)"
proof (induction s b mx f t arbitrary: s' n rule: strftime_loop.induct)
  case (1 s b mx t)
  then show ?case by (auto simp: outcome_iff)
next
  case (2 s b mx c f t)
  show ?case
  proof (cases "c = CHR ''%''")
    case False
    show ?thesis
    proof (cases "mx = 0")
      case True
      with 2(3) False show ?thesis by simp
    next
      case mx: False
      with 2(3) False have "b < length s" "strftime_loop (s[b := c]) (b + 1) (mx - 1) f t = Done (s', n)"
        by (auto simp: outcome_iff)
      from 2(1) [OF False mx _ this(2)] this(1) have "length s' = length s" "n \<le> b + 1 + (mx - 1)"
        "\<And>i. i < b + 1 \<or> b + 1 + (mx - 1) < i \<Longrightarrow> i < length s \<Longrightarrow> s' ! i = s[b := c] ! i" by auto
      with mx show ?thesis by auto
    qed
  next
    case True
    define g where "g = (if f \<noteq> [] \<and> (hd f = CHR ''E'' \<or> hd f = CHR ''0'') then tl f else f)"
    from 2(3) True obtain d h where gd: "g = d # h" by (cases g) (auto simp: g_def [symmetric])
    from 2(3) True gd obtain r s1 w where r: "strf_convert t d = Done r"
      "(case r of None \<Rightarrow> Done (s, 0) | Some (fmt, args) \<Rightarrow> snprintf_at s b mx fmt args) = Done (s1, w)"
      and rest: "(if sint w < 0 then Done (s1, 0) else if unat w \<ge> mx then Done (s1, 0)
         else strftime_loop s1 (b + unat w) (mx - unat w) h t) = Done (s', n)"
      by (auto simp: outcome_iff g_def [symmetric])
    have s1: "length s1 = length s \<and> (\<forall>i. i < b \<or> b + mx \<le> i \<longrightarrow> i < length s \<longrightarrow> s1 ! i = s ! i)"
      using r(2) snprintf_at_frame by (cases r) (auto split: prod.splits)
    show ?thesis
    proof (cases "sint w < 0 \<or> unat w \<ge> mx")
      case True
      with rest s1 show ?thesis by (auto split: if_splits)
    next
      case False
      then have w: "\<not> sint w < 0" "\<not> unat w \<ge> mx" by auto
      with rest have l: "strftime_loop s1 (b + unat w) (mx - unat w) h t = Done (s', n)" by simp
      have c: "\<not> c \<noteq> CHR ''%''" using \<open>c = _\<close> by simp
      have "length s' = length s1 \<and> n \<le> b + unat w + (mx - unat w) \<and>
          (\<forall>i. i < b + unat w \<or> b + unat w + (mx - unat w) < i \<longrightarrow> i < length s1 \<longrightarrow> s' ! i = s1 ! i)"
        by (rule 2(2) [OF c g_def [symmetric, unfolded gd] r(1) r(2) refl w l])
      with s1 w show ?thesis by auto
    qed
  qed
qed

lemma strftime_loop_plain:
  "CHR ''%'' \<notin> set f \<Longrightarrow> b + length f < length s \<Longrightarrow> length f \<le> mx \<Longrightarrow>
   \<exists>s'. strftime_loop s b mx f t = Done (s', b + length f) \<and> length s' = length s \<and> take (b + length f) s' = take b s @ f \<and>
     s' ! (b + length f) = NUL"
proof (induction f arbitrary: s b mx)
  case Nil
  then show ?case by simp
next
  case (Cons c f)
  have "length f \<le> mx - 1" using Cons.prems(3) by simp
  with Cons.IH [of "Suc b" "s[b := c]" "mx - 1"] Cons.prems(1,2) obtain s' where
    "strftime_loop (s[b := c]) (Suc b) (mx - 1) f t = Done (s', Suc b + length f)" "length s' = length s"
    "take (Suc b + length f) s' = take (Suc b) (s[b := c]) @ f" "s' ! (Suc b + length f) = NUL" by auto
  with Cons.prems show ?case by (auto simp: take_Suc_conv_app_nth)
qed

text \<open>
  \<open>strftime\<close> stays inside its buffer up to one byte: it never writes after \<open>s[max]\<close> and returns at
  most \<open>max\<close>; but when ordinary characters fill all \<open>max\<close> bytes, the terminator goes to \<open>s[max]\<close>
  itself, one byte past what the caller gave.
\<close>

lemma strftime_writes_one_past:
  assumes "length fmt = mx" "CHR ''%'' \<notin> set fmt" "mx < length s"
  shows "(\<exists>s'. strftime s mx fmt (Some t) = Done (s', mx) \<and> take mx s' = fmt \<and> s' ! mx = NUL) \<and>
         (\<forall>g s' n. strftime s mx g (Some t) = Done (s', n) \<longrightarrow>
            n \<le> mx \<and> length s' = length s \<and> (\<forall>i. mx < i \<and> i < length s \<longrightarrow> s' ! i = s ! i))"
proof
  show "\<exists>s'. strftime s mx fmt (Some t) = Done (s', mx) \<and> take mx s' = fmt \<and> s' ! mx = NUL"
    using strftime_loop_plain [of fmt 0 s mx t] assms by (auto simp: strftime_def)
  show "\<forall>g s' n. strftime s mx g (Some t) = Done (s', n) \<longrightarrow>
      n \<le> mx \<and> length s' = length s \<and> (\<forall>i. mx < i \<and> i < length s \<longrightarrow> s' ! i = s ! i)"
    using strftime_loop_bounds [of s 0 mx] by (fastforce simp: strftime_def)
qed

end
