(* ===== verification/Clock.thy ===== *)
theory Clock
  imports Libc_Time
begin

text \<open>
  The clock: \<open>hexahedron/drivers/clock.c\<close>, which the kernel calls, and \<open>hexahedron/drivers/x86/clock.c\<close>,
  the device behind it. The device's functions are fields of a structure there and here; the
  time-stamp counter is an argument of what reads it.
\<close>

section \<open>The generic driver (clock.c)\<close>

record clock_device_t =
  cd_get_timer :: u64
  cd_get_tick_counts :: "(u64 \<Rightarrow> u64 \<times> u64) option"
  cd_boot_time :: u64

text \<open>
  \<open>cd_get_timer\<close> is what the device answers at this moment. A callback is the index of a function, so
  that calling it is a parameter of \<open>clock_update\<close>.
\<close>

record clock_state =
  clock_device :: clock_device_t
  tick_count :: u64
  clock_is_ready :: bool
  clock_callback_table :: "nat option list"

abbreviation MAX_CLOCK_CALLBACKS :: nat where
  "MAX_CLOCK_CALLBACKS \<equiv> 128"

abbreviation SUBSECONDS_PER_SECOND :: u64 where
  "SUBSECONDS_PER_SECOND \<equiv> 1000000"

primrec clock_callbacks :: "(nat \<Rightarrow> u64 \<Rightarrow> 's \<Rightarrow> 's outcome) \<Rightarrow> nat option list \<Rightarrow> u64 \<Rightarrow> 's \<Rightarrow> 's outcome" where
  "clock_callbacks call [] ticks s = Done s"
| "clock_callbacks call (c # cs) ticks s =
     and_then (case c of None \<Rightarrow> Done s | Some f \<Rightarrow> call f ticks s) (\<lambda>s'. clock_callbacks call cs ticks s')"

definition clock_update ::
  "(nat \<Rightarrow> u64 \<Rightarrow> 's \<Rightarrow> 's outcome) \<Rightarrow> clock_state \<Rightarrow> u64 \<Rightarrow> 's \<Rightarrow> (clock_state \<times> 's) outcome" where
  "clock_update call ck ticks s =
     and_then (clock_callbacks call (clock_callback_table ck) ticks s) (\<lambda>s'. Done (ck\<lparr>tick_count := ticks\<rparr>, s'))"

definition clock_getTickCount :: "clock_state \<Rightarrow> u64" where
  "clock_getTickCount ck = tick_count ck"

text \<open>The time from the device, when there is one.\<close>

definition clock_now :: "clock_state \<Rightarrow> (u64 \<times> u64) option" where
  "clock_now ck = (case cd_get_tick_counts (clock_device ck) of
     None \<Rightarrow> None | Some g \<Rightarrow> Some (g (cd_get_timer (clock_device ck))))"

text \<open>The error \<open>-EINVAL\<close>, or \<open>tv_sec\<close> and \<open>tv_usec\<close>.\<close>

definition clock_gettimeofday :: "clock_state \<Rightarrow> bool \<Rightarrow> int + u64 \<times> u64" where
  "clock_gettimeofday ck t =
     (if \<not> t then Inl (- 22)
      else case clock_now ck of
        None \<Rightarrow> Inl (- 22)
      | Some (timer_ticks, timer_subticks) \<Rightarrow> Inr (cd_boot_time (clock_device ck) + timer_ticks, timer_subticks))"

definition clock_settimeofday :: "u64 \<Rightarrow> clock_state \<Rightarrow> (u64 \<times> u64) option \<Rightarrow> int \<times> clock_state" where
  "clock_settimeofday now ck t = (case t of
     None \<Rightarrow> (- 22, ck)
   | Some (tv_sec, tv_usec) \<Rightarrow>
       if sint tv_usec > 1000000 then (- 22, ck)
       else let boot = cd_boot_time (clock_device ck) + (tv_sec - now) in
            (0, ck\<lparr>clock_device := (clock_device ck)\<lparr>cd_boot_time := boot\<rparr>\<rparr>))"

text \<open>The absolute time \<open>seconds\<close> and \<open>subseconds\<close> from now; \<open>None\<close> leaves the outputs unset.\<close>

definition clock_relative :: "clock_state \<Rightarrow> u64 \<Rightarrow> u64 \<Rightarrow> (u64 \<times> u64) option" where
  "clock_relative ck seconds subseconds = (case clock_now ck of
     None \<Rightarrow> None
   | Some (timer_ticks, timer_subticks) \<Rightarrow>
       Some (if subseconds + timer_ticks \<ge> SUBSECONDS_PER_SECOND then
               (timer_ticks + seconds + (subseconds + timer_subticks) div SUBSECONDS_PER_SECOND,
                (subseconds + timer_subticks) mod SUBSECONDS_PER_SECOND)
             else (timer_ticks + seconds, timer_subticks + subseconds)))"

definition clock_getCurrentTime :: "clock_state \<Rightarrow> (u64 \<times> u64) option" where
  "clock_getCurrentTime ck = clock_now ck"

text \<open>The loop for the first free slot, from \<open>i\<close> on.\<close>

primrec clock_first_free :: "nat option list \<Rightarrow> nat \<Rightarrow> int" where
  "clock_first_free [] i = - 1"
| "clock_first_free (c # cs) i = (if c = None then int i else clock_first_free cs (i + 1))"

definition clock_registerUpdateCallback :: "clock_state \<Rightarrow> nat option \<Rightarrow> int \<times> clock_state" where
  "clock_registerUpdateCallback ck callback =
     (if callback = None then (- 22, ck)
      else
        let first_free = clock_first_free (clock_callback_table ck) 0 in
        if first_free = - 1 then (- 22, ck)
        else (first_free, ck\<lparr>clock_callback_table := (clock_callback_table ck)[nat first_free := callback]\<rparr>))"

definition clock_unregisterUpdateCallback :: "clock_state \<Rightarrow> int \<Rightarrow> clock_state outcome" where
  "clock_unregisterUpdateCallback ck index =
     (if index < 0 then Done ck
      else and_then (array_set (clock_callback_table ck) (nat index) None) (\<lambda>t. Done (ck\<lparr>clock_callback_table := t\<rparr>)))"

definition clock_getBoottime :: "clock_state \<Rightarrow> u64" where
  "clock_getBoottime ck = cd_boot_time (clock_device ck)"

definition clock_getDevice :: "clock_state \<Rightarrow> clock_device_t" where
  "clock_getDevice ck = clock_device ck"

definition clock_setDevice :: "clock_state \<Rightarrow> clock_device_t \<Rightarrow> clock_state" where
  "clock_setDevice ck device = ck\<lparr>clock_device := device, clock_is_ready := True\<rparr>"

definition clock_isReady :: "clock_state \<Rightarrow> bool" where
  "clock_isReady ck = clock_is_ready ck"

section \<open>The x86 device (x86/clock.c)\<close>

text \<open>The loop of \<open>years_to_seconds\<close>, with 64-bit days.\<close>

function days_of_years64 :: "u64 \<Rightarrow> int \<Rightarrow> u64" where
  "days_of_years64 days years =
     (if years > 1969 then days_of_years64 (days + 365 + (if is_year_leap years then 1 else 0)) (years - 1) else days)"
  by pat_completeness auto
termination by (relation "measure (\<lambda>(days, years). nat (years - 1969))") auto

declare days_of_years64.simps [simp del]

definition years_to_seconds :: "int \<Rightarrow> u64" where
  "years_to_seconds years = days_of_years64 0 (if years < 2000 then years + 2000 else years) * 86400"

definition months_to_seconds :: "int \<Rightarrow> int \<Rightarrow> u64" where
  "months_to_seconds mon years =
     (let y = (if years < 2000 then years + 2000 else years) in
      of_int (foldl (\<lambda>days i. days + get_days_in_month i y) 0 [1..mon - 1] * 86400))"

definition from_bcd :: "u16 \<Rightarrow> int" where
  "from_bcd n = uint n div 16 * 10 + (uint n AND 0xF)"

text \<open>
  The successive contents of the CMOS registers, each read while no update is in progress: the loop
  goes on until two in a row agree on the time, and for ever if they never do.
\<close>

definition cmos_same :: "u16 list \<Rightarrow> u16 list \<Rightarrow> bool" where
  "cmos_same old new \<longleftrightarrow> old ! 0 = new ! 0 \<and> old ! 2 = new ! 2 \<and> old ! 4 = new ! 4 \<and> old ! 7 = new ! 7 \<and>
     old ! 8 = new ! 8 \<and> old ! 9 = new ! 9"

fun cmos_stable :: "u16 list \<Rightarrow> u16 list list \<Rightarrow> u16 list outcome" where
  "cmos_stable old [] = Hang"
| "cmos_stable old (new # rest) = (if cmos_same old new then Done new else cmos_stable new rest)"

definition cmos_to_unix :: "u16 list \<Rightarrow> u64" where
  "cmos_to_unix values =
     years_to_seconds (from_bcd (values ! 9) - 1) + months_to_seconds (from_bcd (values ! 8)) (from_bcd (values ! 9)) +
     of_int ((from_bcd (values ! 7) - 1) * 86400) + of_int (from_bcd (values ! 4) * 3600) +
     of_int (from_bcd (values ! 2) * 60) + of_int (from_bcd (values ! 0)) + 0"

definition clock_convertCMOSToUnix :: "u16 list list \<Rightarrow> u64 outcome" where
  "clock_convertCMOSToUnix dumps = (case dumps of
     [] \<Rightarrow> Hang | first # rest \<Rightarrow> and_then (cmos_stable first rest) (\<lambda>values. Done (cmos_to_unix values)))"

record tsc_state =
  boottime :: u64
  tsc_baseline :: u64
  tsc_mhz :: u64

definition clock_getTSCSpeed :: "tsc_state \<Rightarrow> u64" where
  "clock_getTSCSpeed ts = tsc_mhz ts"

definition clock_readTicks :: "u64 \<Rightarrow> tsc_state \<Rightarrow> u64 outcome" where
  "clock_readTicks tsc ts =
     (if clock_getTSCSpeed ts = 0 then Fault DivideByZero else Done (tsc div clock_getTSCSpeed ts))"

definition clock_getTickCounts :: "tsc_state \<Rightarrow> u64 \<Rightarrow> u64 \<times> u64" where
  "clock_getTickCounts ts ticks =
     ((ticks - tsc_baseline ts) div SUBSECONDS_PER_SECOND, (ticks - tsc_baseline ts) mod SUBSECONDS_PER_SECOND)"

definition clock_setBoottime :: "tsc_state \<Rightarrow> u64 \<Rightarrow> tsc_state" where
  "clock_setBoottime ts new_boottime = ts\<lparr>boottime := new_boottime\<rparr>"

text \<open>
  \<open>clock_sleepMilliseconds\<close> computes its target at the state \<open>ck\<close> and then polls: \<open>readings\<close> are the answers
  of \<open>clock_gettimeofday\<close>. The result is the time it returns at.
\<close>

fun sleep_poll :: "u64 \<Rightarrow> u64 \<Rightarrow> (u64 \<times> u64) list \<Rightarrow> (u64 \<times> u64) outcome" where
  "sleep_poll target_seconds target_subseconds [] = Hang"
| "sleep_poll target_seconds target_subseconds ((sec, usec) # readings) =
     (if sint sec > sint target_seconds then Done (sec, usec)
      else if sec = target_seconds \<and> sint usec > sint target_subseconds then Done (sec, usec)
      else sleep_poll target_seconds target_subseconds readings)"

definition clock_sleepMilliseconds :: "tsc_state \<Rightarrow> clock_state \<Rightarrow> u64 \<Rightarrow> (u64 \<times> u64) list \<Rightarrow> (u64 \<times> u64) outcome" where
  "clock_sleepMilliseconds ts ck ms readings = (case clock_relative ck (ms div 1000) (ms AND 999) of
     None \<Rightarrow> Fault BadPointer
   | Some (target_seconds, target_subseconds) \<Rightarrow> sleep_poll (target_seconds + boottime ts) target_subseconds readings)"

text \<open>The counter before and after the calibration pulse are \<open>start\<close> and \<open>fin\<close>.\<close>

definition clock_initialize :: "u16 list list \<Rightarrow> u64 \<Rightarrow> u64 \<Rightarrow> clock_state \<Rightarrow> (tsc_state \<times> clock_state) outcome" where
  "clock_initialize dumps start fin ck =
     and_then (clock_convertCMOSToUnix dumps) (\<lambda>boot.
     let mhz = (if (fin - start) div 10000 = 0 then 2000 else (fin - start) div 10000);
         ts = \<lparr>boottime = boot, tsc_baseline = start div mhz, tsc_mhz = mhz\<rparr> in
     Done (ts, clock_setDevice ck \<lparr>cd_get_timer = fin div mhz, cd_get_tick_counts = Some (clock_getTickCounts ts),
                                  cd_boot_time = boot\<rparr>))"

section \<open>Properties\<close>

lemma days_of_years64_spec: "1969 \<le> y \<Longrightarrow> days_of_years64 d y = d + of_int (days_since (y + 1))"
proof (induction d y rule: days_of_years64.induct)
  case (1 d y)
  show ?case
  proof (cases "y > 1969")
    case True
    with 1 have "days_of_years64 d y = d + 365 + (if is_year_leap y then 1 else 0) + of_int (days_since y)"
      by (simp add: days_of_years64.simps [of d y])
    with True show ?thesis by (simp add: days_since_next year_days_def)
  next
    case False
    with 1(2) have "y = 1969" by simp
    then show ?thesis by (simp add: days_of_years64.simps)
  qed
qed

text \<open>The registers that show a date of this century, in binary-coded decimal.\<close>

definition to_bcd :: "int \<Rightarrow> u16" where
  "to_bcd n = of_int (n div 10 * 16 + n mod 10)"

definition cmos_shows :: "tm \<Rightarrow> u16 list \<Rightarrow> bool" where
  "cmos_shows t values \<longleftrightarrow> values ! 9 = to_bcd (tm_year t - 100) \<and> values ! 8 = to_bcd (tm_mon t + 1) \<and>
     values ! 7 = to_bcd (tm_mday t) \<and> values ! 4 = to_bcd (tm_hour t) \<and> values ! 2 = to_bcd (tm_min t) \<and>
     values ! 0 = to_bcd (tm_sec t)"

lemma from_bcd_to_bcd:
  assumes "0 \<le> n" "n \<le> 99"
  shows "from_bcd (to_bcd n) = n"
proof -
  let ?v = "n div 10 * 16 + n mod 10"
  have "0 \<le> ?v" "?v < 2 ^ 16" using assms by auto
  then have u: "uint (to_bcd n) = ?v" unfolding to_bcd_def uint_word_of_int_eq by (intro take_bit_int_eq_self) auto
  have r: "0 \<le> n mod 10" "n mod 10 < 16" using pos_mod_bound [of 10 n] by simp_all
  have "?v mod 16 = n mod 10 mod 16" by (rule mod_mult_self3)
  also have "\<dots> = n mod 10" using r by (rule mod_pos_pos_trivial)
  finally have "?v mod 16 = n mod 10" .
  moreover have "?v AND 0xF = ?v mod 16" using take_bit_eq_mask [of 4 ?v] by (simp add: take_bit_eq_mod mask_eq_exp_minus_1)
  moreover have "?v div 16 = n div 10"
  proof -
    have "?v div 16 = n div 10 + n mod 10 div 16" by (rule div_mult_self3) simp
    also have "n mod 10 div 16 = 0" using r by (rule div_pos_pos_trivial)
    finally show ?thesis by simp
  qed
  ultimately show ?thesis unfolding from_bcd_def u by simp
qed

text \<open>
  C20: The two calendars of the system agree: on registers that show a date of this century in
  binary-coded decimal, and that two readings in a row agree on, the boot-time code of the kernel
  computes the number of seconds that \<open>mktime\<close> of the C library computes for the date.
\<close>

theorem cmos_time_is_mktime:
  assumes "cmos_shows t values" "tm_ok t" "100 \<le> tm_year t" "tm_year t \<le> 199" "tm_zone_offset t = 0"
  shows "clock_convertCMOSToUnix (values # values # rest) = Done (of_int (mktime t))"
proof -
  have ok: "1 \<le> tm_mon t + 1" "tm_mon t + 1 \<le> 12" "1 \<le> tm_mday t" "tm_mday t \<le> 31" "0 \<le> tm_hour t" "tm_hour t \<le> 23"
    "0 \<le> tm_min t" "tm_min t \<le> 59" "0 \<le> tm_sec t" "tm_sec t \<le> 59"
    using assms(2) get_days_in_month_le [of "tm_mon t + 1" "tm_year t + 1900"] by (auto simp: tm_ok_def)
  let ?y = "tm_year t + 1900"
  have y: "1970 \<le> ?y" "?y \<le> 2099" using assms(3,4) by auto
  have i: "int32 (tm_year t + 1899) = ?y - 1" "int32 ?y = ?y" "int32 (tm_mon t + 1) = tm_mon t + 1"
    "int32 ((tm_mday t - 1) * 86400) = (tm_mday t - 1) * 86400" "int32 (tm_hour t * 3600) = tm_hour t * 3600"
    "int32 (tm_min t * 60) = tm_min t * 60"
    using assms(3,4) ok by (simp_all add: int32_id)
  have "mktime t = days_since ?y * 86400 + get_seconds_of_months (tm_mon t + 1) ?y + (tm_mday t - 1) * 86400 +
      tm_hour t * 3600 + tm_min t * 60 + tm_sec t"
    unfolding mktime_def i get_seconds_of_years_spec [OF y] by (simp add: assms(5))
  moreover have "years_to_seconds (tm_year t - 100 - 1) = of_int (days_since ?y * 86400)"
    using assms(3,4) days_of_years64_spec [of "?y - 1" 0] by (simp add: years_to_seconds_def add.commute)
  moreover have "months_to_seconds (tm_mon t + 1) (tm_year t - 100) = of_int (get_seconds_of_months (tm_mon t + 1) ?y)"
    using assms(4) by (simp add: months_to_seconds_def get_seconds_of_months_def Let_def add.commute [of 1900])
  moreover have "cmos_to_unix values = years_to_seconds (tm_year t - 100 - 1) +
      months_to_seconds (tm_mon t + 1) (tm_year t - 100) + of_int ((tm_mday t - 1) * 86400) +
      of_int (tm_hour t * 3600) + of_int (tm_min t * 60) + of_int (tm_sec t)"
    using assms ok by (simp add: cmos_to_unix_def cmos_shows_def from_bcd_to_bcd)
  ultimately show ?thesis by (simp add: clock_convertCMOSToUnix_def cmos_same_def)
qed

definition tm_2024 :: tm where
  "tm_2024 = tm_zero\<lparr>tm_year := 124, tm_mon := 11, tm_mday := 25, tm_hour := 10, tm_min := 30, tm_sec := 59\<rparr>"

theorem cmos_time_is_mktime_witness:
  "clock_convertCMOSToUnix [[0x59, 0, 0x30, 0, 0x10, 0, 0, 0x25, 0x12, 0x24], [0x59, 0, 0x30, 0, 0x10, 0, 0, 0x25, 0x12, 0x24]] =
     Done 1735122659"
proof -
  let ?v = "[0x59, 0, 0x30, 0, 0x10, 0, 0, 0x25, 0x12, 0x24 :: u16]"
  have "cmos_shows tm_2024 ?v" "tm_ok tm_2024"
    by (simp_all add: cmos_shows_def to_bcd_def tm_2024_def tm_zero_def tm_ok_def get_days_in_month_def)
  then have "clock_convertCMOSToUnix (?v # ?v # []) = Done (of_int (mktime tm_2024))"
    by (rule cmos_time_is_mktime) (simp_all add: tm_2024_def tm_zero_def)
  moreover have "mktime tm_2024 = 1735122659" by code_simp
  ultimately show ?thesis by simp
qed

text \<open>
  The seconds and subseconds \<open>clock_relative\<close> returns add up to the current time plus the delay, but
  the carry from the subseconds is only made when the seconds of the current time, instead of its
  subseconds, reach the limit together with the delay.
\<close>

lemma clock_relative_spec:
  assumes "clock_now ck = Some (t, s)" "unat t + unat d + 2 < 2 ^ 63" "unat s < 1000000" "unat b < 1000000"
  shows "\<exists>t' s'. clock_relative ck d b = Some (t', s') \<and>
      unat t' * 1000000 + unat s' = (unat t + unat d) * 1000000 + unat s + unat b \<and>
      (unat s' < 1000000 \<longleftrightarrow> unat b + unat t \<ge> 1000000 \<or> unat s + unat b < 1000000)"
proof -
  have no: "unat (t + d) = unat t + unat d" "unat (b + t) = unat b + unat t" "unat (b + s) = unat b + unat s"
    "unat (s + b) = unat s + unat b"
    using assms(2-4) by (simp_all add: unat_word_ariths)
  let ?q = "(unat b + unat s) div 1000000"
  have q: "unat ((b + s) div 1000000) = ?q" "unat ((b + s) mod 1000000) = (unat b + unat s) mod 1000000"
    by (simp_all add: unat_div unat_mod no)
  have "?q \<le> 1" using assms(3,4) by auto
  then have no2: "unat (t + d + (b + s) div 1000000) = unat t + unat d + ?q"
    using assms(2) no(1) q(1) by (simp add: unat_word_ariths)
  have cond: "b + t \<ge> 1000000 \<longleftrightarrow> unat b + unat t \<ge> 1000000" by (simp add: word_le_nat_alt no)
  show ?thesis
  proof (cases "unat b + unat t \<ge> 1000000")
    case True
    have "(unat b + unat s) div 1000000 * 1000000 + (unat b + unat s) mod 1000000 = unat b + unat s" by (rule div_mult_mod_eq)
    with True show ?thesis using no2 q(2)
      by (simp add: clock_relative_def assms(1) cond algebra_simps)
  next
    case False
    then show ?thesis using no by (simp add: clock_relative_def assms(1) cond)
  qed
qed

end
