(* ===== verification/Task.thy ===== *)
theory Task
  imports KTree Clock Spinlock
begin

text \<open>
  The structures of \<open>hexahedron/task\<close> (threads, processes, sleepers, the per-CPU data) and the state the
  scheduler, the sleepers and the process code share. All objects live on one heap: the lists and
  trees of \<open>libkstructures\<close> as in \<open>KList\<close> and \<open>KTree\<close>, and one map per structure. Log messages are
  not modelled.
\<close>

section \<open>Structures\<close>

record thread_t =
  thr_parent :: addr
  thr_status :: u32
  thr_flags :: u32
  thr_preempt_ticks :: int
  thr_total_ticks :: u64
  thr_sleep :: addr
  thr_dir :: addr
  thr_stack :: u64

text \<open>A condition function is an index; \<open>None\<close> is the NULL pointer.\<close>

record thread_sleep_t =
  tsl_thread :: addr
  tsl_sleep_state :: nat
  tsl_condition :: "nat option"
  tsl_context :: addr
  tsl_seconds :: u64
  tsl_subseconds :: u64

record process_t =
  pr_parent :: addr
  pr_pid :: int
  pr_name :: string
  pr_uid :: int
  pr_gid :: int
  pr_exit_status :: int
  pr_flags :: u32
  pr_priority :: u32
  pr_node :: addr
  pr_waitpid_queue :: addr
  pr_main_thread :: addr
  pr_thread_list :: addr
  pr_wd_path :: string
  pr_fd_table :: addr
  pr_heap :: u64
  pr_heap_base :: u64
  pr_kstack :: u64
  pr_dir :: addr

record processor_t =
  cpu_current_dir :: addr
  cpu_current_thread :: addr
  cpu_current_process :: addr
  cpu_idle_process :: addr

definition THREAD_STATUS_STOPPED :: u32 where "THREAD_STATUS_STOPPED = 0x02"
definition THREAD_STATUS_RUNNING :: u32 where "THREAD_STATUS_RUNNING = 0x04"
definition THREAD_STATUS_SLEEPING :: u32 where "THREAD_STATUS_SLEEPING = 0x08"
definition THREAD_STATUS_STOPPING :: u32 where "THREAD_STATUS_STOPPING = 0x10"

definition THREAD_FLAG_KERNEL :: u32 where "THREAD_FLAG_KERNEL = 0x01"
definition THREAD_FLAG_CHILD :: u32 where "THREAD_FLAG_CHILD = 0x04"

definition PROCESS_KERNEL :: u32 where "PROCESS_KERNEL = 0x01"
definition PROCESS_STARTED :: u32 where "PROCESS_STARTED = 0x02"
definition PROCESS_RUNNING :: u32 where "PROCESS_RUNNING = 0x04"
definition PROCESS_STOPPED :: u32 where "PROCESS_STOPPED = 0x08"

section \<open>State\<close>

text \<open>
  \<open>tk_cpu\<close> is the CPU that runs the code (\<open>current_cpu\<close>), \<open>tk_other_cpus\<close> the rest of \<open>processor_data\<close>.
\<close>

record task_state =
  tk_heap :: tree_heap
  tk_threads :: "addr \<rightharpoonup> thread_t"
  tk_procs :: "addr \<rightharpoonup> process_t"
  tk_sleeps :: "addr \<rightharpoonup> thread_sleep_t"
  tk_thread_queue :: addr
  tk_scheduler_lock :: bool
  tk_sleep_queue :: addr
  tk_sleep_queue_lock :: bool
  tk_cpu :: processor_t
  tk_other_cpus :: "processor_t list"
  tk_clock :: clock_state
  tk_kernel_dir :: addr
  tk_task_switches :: cint
  tk_process_tree :: tree_t
  tk_pid_bitmap :: "u32 list option"
  tk_reap_queue :: addr
  tk_reap_queue_lock :: bool
  tk_reaper_proc :: addr

definition tk_lists :: "task_state \<Rightarrow> list_heap" where
  "tk_lists s = th_lists (tk_heap s)"

definition set_lists :: "task_state \<Rightarrow> list_heap \<Rightarrow> task_state" where
  "set_lists s h = s\<lparr>tk_heap := (tk_heap s)\<lparr>th_lists := h\<rparr>\<rparr>"

definition thread_at :: "task_state \<Rightarrow> addr \<Rightarrow> thread_t outcome" where
  "thread_at s a = (if a = NULL then Fault BadPointer
                    else case tk_threads s a of Some t \<Rightarrow> Done t | None \<Rightarrow> Fault BadPointer)"

definition set_thread :: "task_state \<Rightarrow> addr \<Rightarrow> (thread_t \<Rightarrow> thread_t) \<Rightarrow> task_state outcome" where
  "set_thread s a f = and_then (thread_at s a) (\<lambda>t. Done (s\<lparr>tk_threads := (tk_threads s)(a \<mapsto> f t)\<rparr>))"

definition proc_at :: "task_state \<Rightarrow> addr \<Rightarrow> process_t outcome" where
  "proc_at s a = (if a = NULL then Fault BadPointer
                  else case tk_procs s a of Some p \<Rightarrow> Done p | None \<Rightarrow> Fault BadPointer)"

definition set_proc :: "task_state \<Rightarrow> addr \<Rightarrow> (process_t \<Rightarrow> process_t) \<Rightarrow> task_state outcome" where
  "set_proc s a f = and_then (proc_at s a) (\<lambda>p. Done (s\<lparr>tk_procs := (tk_procs s)(a \<mapsto> f p)\<rparr>))"

definition sleep_at :: "task_state \<Rightarrow> addr \<Rightarrow> thread_sleep_t outcome" where
  "sleep_at s a = (if a = NULL then Fault BadPointer
                   else case tk_sleeps s a of Some t \<Rightarrow> Done t | None \<Rightarrow> Fault BadPointer)"

definition set_sleep :: "task_state \<Rightarrow> addr \<Rightarrow> (thread_sleep_t \<Rightarrow> thread_sleep_t) \<Rightarrow> task_state outcome" where
  "set_sleep s a f = and_then (sleep_at s a) (\<lambda>t. Done (s\<lparr>tk_sleeps := (tk_sleeps s)(a \<mapsto> f t)\<rparr>))"

text \<open>The next address the allocator hands out.\<close>

definition kmalloc :: "task_state \<Rightarrow> addr \<times> task_state" where
  "kmalloc s = (let h = tk_lists s in (lh_brk h, set_lists s (h\<lparr>lh_brk := lh_brk h + 1\<rparr>)))"

definition has_bits :: "u32 \<Rightarrow> u32 \<Rightarrow> bool" where
  "has_bits w b \<longleftrightarrow> w AND b \<noteq> 0"

named_theorems task_simps \<open>reading and writing the state\<close>

lemma thread_at_Some [simp]: "tk_threads s a = Some t \<Longrightarrow> a \<noteq> NULL \<Longrightarrow> thread_at s a = Done t"
  by (simp add: thread_at_def)

lemma proc_at_Some [simp]: "tk_procs s a = Some p \<Longrightarrow> a \<noteq> NULL \<Longrightarrow> proc_at s a = Done p"
  by (simp add: proc_at_def)

lemma sleep_at_Some [simp]: "tk_sleeps s a = Some t \<Longrightarrow> a \<noteq> NULL \<Longrightarrow> sleep_at s a = Done t"
  by (simp add: sleep_at_def)

lemma set_thread_Some [simp]: "tk_threads s a = Some t \<Longrightarrow> a \<noteq> NULL \<Longrightarrow>
    set_thread s a f = Done (s\<lparr>tk_threads := (tk_threads s)(a \<mapsto> f t)\<rparr>)"
  by (simp add: set_thread_def)

lemma set_sleep_Some [simp]: "tk_sleeps s a = Some t \<Longrightarrow> a \<noteq> NULL \<Longrightarrow>
    set_sleep s a f = Done (s\<lparr>tk_sleeps := (tk_sleeps s)(a \<mapsto> f t)\<rparr>)"
  by (simp add: set_sleep_def)

lemma set_proc_Some [simp]: "tk_procs s a = Some t \<Longrightarrow> a \<noteq> NULL \<Longrightarrow>
    set_proc s a f = Done (s\<lparr>tk_procs := (tk_procs s)(a \<mapsto> f t)\<rparr>)"
  by (simp add: set_proc_def)

lemma tk_lists_set [simp]: "tk_lists (set_lists s h) = h"
  by (simp add: tk_lists_def set_lists_def)

lemma set_lists_other [simp]:
  "tk_threads (set_lists s h) = tk_threads s" "tk_procs (set_lists s h) = tk_procs s" "tk_sleeps (set_lists s h) = tk_sleeps s"
  "tk_thread_queue (set_lists s h) = tk_thread_queue s" "tk_scheduler_lock (set_lists s h) = tk_scheduler_lock s"
  "tk_sleep_queue (set_lists s h) = tk_sleep_queue s" "tk_sleep_queue_lock (set_lists s h) = tk_sleep_queue_lock s"
  "tk_cpu (set_lists s h) = tk_cpu s" "tk_other_cpus (set_lists s h) = tk_other_cpus s" "tk_clock (set_lists s h) = tk_clock s"
  "tk_kernel_dir (set_lists s h) = tk_kernel_dir s"
  by (simp_all add: set_lists_def)

lemma tk_lists_other [simp]:
  "tk_lists (s\<lparr>tk_threads := a\<rparr>) = tk_lists s" "tk_lists (s\<lparr>tk_procs := b\<rparr>) = tk_lists s" "tk_lists (s\<lparr>tk_sleeps := c\<rparr>) = tk_lists s"
  "tk_lists (s\<lparr>tk_thread_queue := d\<rparr>) = tk_lists s" "tk_lists (s\<lparr>tk_scheduler_lock := e\<rparr>) = tk_lists s"
  "tk_lists (s\<lparr>tk_sleep_queue := d\<rparr>) = tk_lists s" "tk_lists (s\<lparr>tk_sleep_queue_lock := e\<rparr>) = tk_lists s"
  "tk_lists (s\<lparr>tk_cpu := f\<rparr>) = tk_lists s" "tk_lists (s\<lparr>tk_task_switches := g\<rparr>) = tk_lists s"
  by (simp_all add: tk_lists_def)

section \<open>Queues on the heap\<close>

text \<open>Whatever a list other than \<open>l\<close> holds, it still holds.\<close>

definition lists_keep :: "addr \<Rightarrow> list_heap \<Rightarrow> list_heap \<Rightarrow> bool" where
  "lists_keep l h h' \<longleftrightarrow> (\<forall>k vs. k \<noteq> l \<longrightarrow> list_holds k h vs \<longrightarrow> list_holds k h' vs)"

lemma list_holdsI: "list_heap_ok h \<Longrightarrow> list_rep h l ns \<Longrightarrow> map (node_value h) ns = vs \<Longrightarrow> list_holds l h vs"
  by (auto simp: list_holds_def)

lemma list_holds_append:
  assumes "list_holds l h vs"
  shows "\<exists>h'. list_append h l v = Done h' \<and> list_holds l h' (vs @ [v]) \<and> lists_keep l h h'"
proof -
  from assms obtain ns where ns: "list_heap_ok h" "list_rep h l ns" "map (node_value h) ns = vs"
    by (auto simp: list_holds_def)
  from list_append_spec [OF ns(1,2), of v] obtain h' where
    h': "list_append h l v = Done h'" "list_heap_ok h'" "list_rep h' l (ns @ [lh_brk h])" "node_value h' (lh_brk h) = v"
    "\<forall>a. a \<noteq> lh_brk h \<longrightarrow> node_value h' a = node_value h a" "\<forall>k ms. k \<noteq> l \<longrightarrow> list_rep h k ms \<longrightarrow> list_rep h' k ms" by blast
  have same: "map (node_value h') ms = map (node_value h) ms" if "list_rep h k ms" for k ms
    using h'(5) list_heap_fresh [OF ns(1) that] by (metis map_eq_conv)
  have "list_holds l h' (vs @ [v])" using h'(2,3,4) same [OF ns(2)] ns(3) by (auto simp: list_holds_def)
  moreover have "lists_keep l h h'"
    using h'(2,6) same unfolding lists_keep_def list_holds_def by (metis (no_types))
  ultimately show ?thesis using h'(1) by blast
qed

text \<open>Taking the first node off, reading its value and freeing it.\<close>

lemma list_holds_pop:
  assumes "list_holds l h (v # vs)"
  shows "\<exists>a h1 n h2. list_popleft h l = Done (a, h1) \<and> a \<noteq> NULL \<and> node_at h1 a = Done n \<and> nd_value n = v \<and>
           kfree_node h1 a = Done h2 \<and> list_holds l h2 vs \<and> lists_keep l h h2"
proof -
  from assms obtain a ns where ns: "list_heap_ok h" "list_rep h l (a # ns)" "node_value h a = v" "map (node_value h) ns = vs"
    by (auto simp: list_holds_def)
  from list_delete_spec [of h l "[]" a ns] ns(2) obtain h1 n where
    h1: "list_delete h l a = Done h1" "list_rep h1 l ns" "list_frame l (set (a # ns)) h h1"
    "lh_nodes h1 a = Some n" "nd_owner n = NULL" by auto
  have a: "a \<noteq> NULL" "l \<noteq> NULL" using list_rep_head [OF ns(2)] by auto
  define h2 where "h2 = h1\<lparr>lh_nodes := (lh_nodes h1)(a := None)\<rparr>"
  have ok1: "list_heap_ok h1" by (rule list_frame_ok [OF h1(3) ns(1)])
  then have ok: "list_heap_ok h2" by (auto simp: h2_def list_heap_ok_def)
  have nv: "node_value h2 b = node_value h b" if "b \<noteq> a" for b
    using that h1(3) by (simp add: h2_def node_value_def list_frame_def)
  have keep: "list_rep h2 k ms \<and> map (node_value h2) ms = map (node_value h) ms" if "list_rep h1 k ms" for k ms
  proof -
    have "a \<notin> set ms" using that h1(4,5) dseg_mapped [of "lh_nodes h1" k NULL ms NULL a] by (auto simp: list_rep_def)
    then have "list_rep h2 k ms" using that by (auto simp: h2_def list_rep_def)
    moreover have "\<forall>b\<in>set ms. node_value h2 b = node_value h b" using \<open>a \<notin> set ms\<close> nv by metis
    ultimately show ?thesis by simp
  qed
  have "list_holds l h2 vs" using keep [OF h1(2)] ok ns(4) by (auto simp: list_holds_def)
  moreover have "lists_keep l h h2"
  proof (unfold lists_keep_def list_holds_def, intro allI impI)
    fix k ws assume k: "k \<noteq> l" "list_heap_ok h \<and> (\<exists>ms. list_rep h k ms \<and> map (node_value h) ms = ws)"
    then obtain ms where ms: "list_rep h k ms" "map (node_value h) ms = ws" by blast
    have "list_rep h1 k ms"
      using list_frame_other [OF h1(3) k(1), of ms] list_rep_owners_disjoint [OF ns(2) ms(1) k(1)] ms(1) by auto
    from keep [OF this] ok ms(2) show "list_heap_ok h2 \<and> (\<exists>ms. list_rep h2 k ms \<and> map (node_value h2) ms = ws)" by auto
  qed
  moreover have "node_value h1 a = v" using h1(3) ns(3) by (simp add: list_frame_def)
  then have "nd_value n = v" using h1(4) by (simp add: node_value_def)
  moreover have "list_popleft h l = Done (a, h1)" using list_popleft_Cons [OF ns(2)] h1(1) by simp
  moreover have "kfree_node h1 a = Done h2" using h1(4) a by (simp add: kfree_node_def h2_def)
  ultimately show ?thesis using a h1(4) by auto
qed

lemma list_holds_head: "list_holds l h vs \<Longrightarrow> \<exists>x. list_at h l = Done x \<and> (lst_head x = NULL \<longleftrightarrow> vs = [])"
proof -
  assume "list_holds l h vs"
  then obtain ns where ns: "list_rep h l ns" "map (node_value h) ns = vs" by (auto simp: list_holds_def)
  then obtain x where x: "l \<noteq> NULL" "lh_lists h l = Some x" "lst_head x = first_of ns NULL" "dseg (lh_nodes h) l NULL ns NULL"
    by (auto simp: list_rep_def)
  have "first_of ns NULL = NULL \<longleftrightarrow> ns = []" using dseg_null [OF x(4)] by (cases ns) auto
  with x ns(2) show ?thesis by auto
qed

lemma list_holds_nonnull: "list_holds l h vs \<Longrightarrow> l \<noteq> NULL"
  by (auto simp: list_holds_def list_rep_def)

end
