(* ===== verification/Scheduler.thy ===== *)
theory Scheduler
  imports Task
begin

text \<open>
  \<open>hexahedron/task/scheduler.c\<close> and \<open>thread_destroy\<close> of \<open>thread.c\<close>: one queue of threads under one lock,
  time slices by the priority of the process, and the choice of the next thread. The queue is a list
  of \<open>KList\<close>, used through its contract.
\<close>

section \<open>Operations\<close>

text \<open>The table has holes: index 0 is no priority.\<close>

definition scheduler_timeslices :: "int list" where
  "scheduler_timeslices = [0, 3, 4, 5]"

definition scheduler_init :: "task_state \<Rightarrow> task_state" where
  "scheduler_init s =
     (let (q, h) = list_create (tk_lists s) ''thread queue'' in (set_lists s h)\<lparr>tk_thread_queue := q\<rparr>)"

definition scheduler_insertThread :: "task_state \<Rightarrow> addr \<Rightarrow> (int \<times> task_state) outcome" where
  "scheduler_insertThread s thread =
     (if thread = NULL \<or> tk_thread_queue s = NULL then Done (- 1, s)
      else
        and_then (lock_acquire (tk_scheduler_lock s)) (\<lambda>l.
        and_then (list_append (tk_lists s) (tk_thread_queue s) thread) (\<lambda>h.
        Done (0, (set_lists s h)\<lparr>tk_scheduler_lock := lock_release l\<rparr>))))"

definition scheduler_removeThread :: "task_state \<Rightarrow> addr \<Rightarrow> (int \<times> task_state) outcome" where
  "scheduler_removeThread s thread =
     (if thread = NULL then Done (- 1, s)
      else
        and_then (lock_acquire (tk_scheduler_lock s)) (\<lambda>l.
        and_then (list_find (tk_lists s) (tk_thread_queue s) thread) (\<lambda>thread_node.
        if thread_node = NULL then Done (- 1, s\<lparr>tk_scheduler_lock := lock_release l\<rparr>)
        else
          and_then (list_delete (tk_lists s) (tk_thread_queue s) thread_node) (\<lambda>h1.
          and_then (kfree_node h1 thread_node) (\<lambda>h2.
          Done (0, (set_lists s h2)\<lparr>tk_scheduler_lock := lock_release l\<rparr>))))))"

definition scheduler_reschedule :: "task_state \<Rightarrow> task_state outcome" where
  "scheduler_reschedule s =
     (let cur = cpu_current_thread (tk_cpu s) in
      if cur = NULL then Done s
      else
        and_then (thread_at s cur) (\<lambda>t.
        if has_bits (thr_status t) THREAD_STATUS_RUNNING then
          and_then (lock_acquire (tk_scheduler_lock s)) (\<lambda>l.
          and_then (proc_at s (thr_parent t)) (\<lambda>p.
          and_then (array_get scheduler_timeslices (unat (pr_priority p))) (\<lambda>slice.
          and_then (set_thread s cur (\<lambda>t. t\<lparr>thr_preempt_ticks := slice\<rparr>)) (\<lambda>s'.
          Done (s'\<lparr>tk_scheduler_lock := lock_release l\<rparr>)))))
        else Done s))"

text \<open>1 when the thread has used its slice.\<close>

definition scheduler_update :: "task_state \<Rightarrow> u64 \<Rightarrow> (int \<times> task_state) outcome" where
  "scheduler_update s ticks =
     (let cur = cpu_current_thread (tk_cpu s) in
      if cur = NULL then Done (0, s)
      else
        and_then (set_thread s cur (\<lambda>t. t\<lparr>thr_total_ticks := clock_getTickCount (tk_clock s)\<rparr>)) (\<lambda>s1.
        and_then (set_thread s1 cur (\<lambda>t. t\<lparr>thr_preempt_ticks := thr_preempt_ticks t - 1\<rparr>)) (\<lambda>s2.
        and_then (thread_at s2 cur) (\<lambda>t.
        if thr_preempt_ticks t \<le> 0 then and_then (scheduler_reschedule s2) (\<lambda>s3. Done (1, s3))
        else Done (0, s2)))))"

definition thread_destroy :: "addr \<Rightarrow> int" where
  "thread_destroy thr = (if thr = NULL then 1 else 0)"

text \<open>
  The loop of \<open>scheduler_get\<close>, with the lock held. \<open>None\<close> is the early return of the idle thread. Each
  round takes one node, so the number of addresses in use is enough fuel.
\<close>

primrec scheduler_get_loop :: "nat \<Rightarrow> task_state \<Rightarrow> (addr option \<times> task_state) outcome" where
  "scheduler_get_loop 0 s = Hang"
| "scheduler_get_loop (Suc fuel) s =
     and_then (list_popleft (tk_lists s) (tk_thread_queue s)) (\<lambda>(thread_node, h1).
     if thread_node = NULL then Done (None, set_lists s h1)
     else
       and_then (node_at h1 thread_node) (\<lambda>n.
       if nd_value n = NULL then Done (None, set_lists s h1)
       else
         and_then (kfree_node h1 thread_node) (\<lambda>h2.
         let s1 = set_lists s h2; thread = nd_value n in
         and_then (thread_at s1 thread) (\<lambda>t.
         if has_bits (thr_status t) THREAD_STATUS_STOPPING then
           and_then (set_thread s1 thread (\<lambda>t. t\<lparr>thr_status := thr_status t OR THREAD_STATUS_STOPPED\<rparr>)) (\<lambda>s2.
           let r = thread_destroy thread in scheduler_get_loop fuel s2)
         else if has_bits (thr_status t) THREAD_STATUS_STOPPED then Panic SCHEDULER_ERROR
         else Done (Some thread, s1)))))"

definition idle_thread :: "task_state \<Rightarrow> addr outcome" where
  "idle_thread s = and_then (proc_at s (cpu_idle_process (tk_cpu s))) (\<lambda>p. Done (pr_main_thread p))"

definition scheduler_get :: "task_state \<Rightarrow> (addr \<times> task_state) outcome" where
  "scheduler_get s =
     (if cpu_idle_process (tk_cpu s) = NULL then Panic UNSUPPORTED_FUNCTION_ERROR
      else
        and_then (idle_thread s) (\<lambda>idle.
        if idle = NULL then Panic UNSUPPORTED_FUNCTION_ERROR
        else
          and_then (lock_acquire (tk_scheduler_lock s)) (\<lambda>l.
          and_then (if tk_thread_queue s = NULL then Done True
                    else and_then (list_at (tk_lists s) (tk_thread_queue s)) (\<lambda>q. Done (lst_head q = NULL))) (\<lambda>nothing.
          if nothing then Done (idle, s\<lparr>tk_scheduler_lock := lock_release l\<rparr>)
          else
            and_then (scheduler_get_loop (lh_brk (tk_lists s)) (s\<lparr>tk_scheduler_lock := l\<rparr>)) (\<lambda>(r, s').
            case r of
              None \<Rightarrow> Done (idle, s')
            | Some thread \<Rightarrow> Done (thread, s'\<lparr>tk_scheduler_lock := lock_release l\<rparr>))))))"

section \<open>The queue of the scheduler\<close>

definition thread_status :: "task_state \<Rightarrow> addr \<Rightarrow> u32" where
  "thread_status s a = (case tk_threads s a of Some t \<Rightarrow> thr_status t | None \<Rightarrow> 0)"

definition stopping :: "task_state \<Rightarrow> addr \<Rightarrow> bool" where
  "stopping s a \<longleftrightarrow> has_bits (thread_status s a) THREAD_STATUS_STOPPING"

definition stopped :: "task_state \<Rightarrow> addr \<Rightarrow> bool" where
  "stopped s a \<longleftrightarrow> has_bits (thread_status s a) THREAD_STATUS_STOPPED"

text \<open>The threads queued, all of them live objects, and the idle thread of this CPU.\<close>

definition run_queue :: "task_state \<Rightarrow> addr list \<Rightarrow> bool" where
  "run_queue s vs \<longleftrightarrow> list_holds (tk_thread_queue s) (tk_lists s) vs \<and>
     (\<forall>v\<in>set vs. v \<noteq> NULL \<and> tk_threads s v \<noteq> None)"

definition idle_ready :: "task_state \<Rightarrow> addr \<Rightarrow> bool" where
  "idle_ready s idle \<longleftrightarrow> cpu_idle_process (tk_cpu s) \<noteq> NULL \<and> idle_thread s = Done idle \<and> idle \<noteq> NULL"

lemma run_queue_holds: "run_queue s vs \<Longrightarrow> list_holds (tk_thread_queue s) (tk_lists s) vs"
  by (simp add: run_queue_def)

lemma idle_thread_cong: "tk_cpu s' = tk_cpu s \<Longrightarrow> tk_procs s' = tk_procs s \<Longrightarrow> idle_thread s' = idle_thread s"
  by (simp add: idle_thread_def proc_at_def)

lemma has_bits_or: "has_bits (w OR v) b \<longleftrightarrow> has_bits w b \<or> has_bits v b"
  by (simp add: has_bits_def word_zero_bits bit_or_iff bit_and_iff) blast

lemma list_holds_small: "list_holds l h vs \<Longrightarrow> length vs < lh_brk h"
  using list_rep_length by (auto simp: list_holds_def)

lemmas run_queue_small = list_holds_small [OF run_queue_holds]
lemmas run_queue_nonnull = list_holds_nonnull [OF run_queue_holds]

text \<open>What \<open>scheduler_get_loop\<close> leaves: the stopping threads at the front are marked stopped.\<close>

definition mark_stopped :: "(addr \<rightharpoonup> thread_t) \<Rightarrow> addr set \<Rightarrow> addr \<rightharpoonup> thread_t" where
  "mark_stopped m ws = (\<lambda>a. if a \<in> ws then map_option (\<lambda>t. t\<lparr>thr_status := thr_status t OR THREAD_STATUS_STOPPED\<rparr>) (m a) else m a)"

lemma mark_stopped_step:
  assumes "m v = Some t"
  shows "mark_stopped (m(v \<mapsto> t\<lparr>thr_status := thr_status t OR THREAD_STATUS_STOPPED\<rparr>)) ws = mark_stopped m (insert v ws)"
  using assms by (auto simp: mark_stopped_def fun_eq_iff or.assoc)

lemma mark_stopped_empty [simp]: "mark_stopped m {} = m"
  by (simp add: mark_stopped_def)

lemma lists_keep_trans: "lists_keep l h h1 \<Longrightarrow> lists_keep l h1 h2 \<Longrightarrow> lists_keep l h h2"
  by (simp add: lists_keep_def)

lemma scheduler_get_loop_spec:
  assumes "run_queue s vs" "length vs < fuel"
  shows "case dropWhile (stopping s) vs of
      [] \<Rightarrow> \<exists>s'. scheduler_get_loop fuel s = Done (None, s') \<and> run_queue s' [] \<and>
              s' = (set_lists s (tk_lists s'))\<lparr>tk_threads := mark_stopped (tk_threads s) (set vs)\<rparr> \<and>
              lists_keep (tk_thread_queue s) (tk_lists s) (tk_lists s')
    | v # rest \<Rightarrow>
        if stopped s v then scheduler_get_loop fuel s = Panic SCHEDULER_ERROR
        else \<exists>s'. scheduler_get_loop fuel s = Done (Some v, s') \<and> run_queue s' rest \<and>
              s' = (set_lists s (tk_lists s'))\<lparr>tk_threads := mark_stopped (tk_threads s) (set (takeWhile (stopping s) vs))\<rparr> \<and>
              lists_keep (tk_thread_queue s) (tk_lists s) (tk_lists s')"
  using assms
proof (induction vs arbitrary: s fuel)
  case Nil
  then obtain f where "fuel = Suc f" by (cases fuel) auto
  moreover from Nil obtain ns where "list_rep (tk_lists s) (tk_thread_queue s) ns" "ns = []"
    by (auto simp: run_queue_def list_holds_def)
  ultimately have "scheduler_get_loop fuel s = Done (None, set_lists s (tk_lists s))"
    using list_popleft_Nil by auto
  moreover have "set_lists s (tk_lists s) = s" by (simp add: set_lists_def tk_lists_def)
  ultimately show ?case using Nil by (auto simp: lists_keep_def)
next
  case (Cons v vs)
  then obtain f where f: "fuel = Suc f" "length vs < f" by (cases fuel) auto
  from Cons.prems(1) have holds: "list_holds (tk_thread_queue s) (tk_lists s) (v # vs)" by (simp add: run_queue_def)
  from Cons.prems(1) obtain t where v: "v \<noteq> NULL" "tk_threads s v = Some t" by (auto simp: run_queue_def)
  from list_holds_pop [OF holds] obtain a h1 n h2 where
    pop: "list_popleft (tk_lists s) (tk_thread_queue s) = Done (a, h1)" "a \<noteq> NULL" "node_at h1 a = Done n" "nd_value n = v"
      "kfree_node h1 a = Done h2" "list_holds (tk_thread_queue s) h2 vs" "lists_keep (tk_thread_queue s) (tk_lists s) h2"
    by blast
  have st: "thread_status s v = thr_status t" using v by (simp add: thread_status_def)
  show ?case
  proof (cases "stopping s v")
    case True
    define s2 where "s2 = (set_lists s h2)\<lparr>tk_threads := (tk_threads s)(v \<mapsto> t\<lparr>thr_status := thr_status t OR THREAD_STATUS_STOPPED\<rparr>)\<rparr>"
    have step: "scheduler_get_loop fuel s = scheduler_get_loop f s2"
      using f(1) pop v True st by (simp add: s2_def stopping_def Let_def)
    have rq: "run_queue s2 vs" using Cons.prems(1) pop(6) by (auto simp: run_queue_def s2_def)
    have same: "stopping s2 = stopping s"
      using v by (auto simp: fun_eq_iff stopping_def thread_status_def s2_def has_bits_or)
        (auto simp: has_bits_def THREAD_STATUS_STOPPED_def THREAD_STATUS_STOPPING_def)
    have other: "stopped s2 w = stopped s w" if "\<not> stopping s w" for w
      using that True by (auto simp: stopped_def thread_status_def s2_def)
    have keep: "lists_keep (tk_thread_queue s) (tk_lists s) h"
      if "lists_keep (tk_thread_queue s2) (tk_lists s2) h" for h
      using lists_keep_trans [OF pop(7)] that by (simp add: s2_def)
    have over: "(set_lists s2 h)\<lparr>tk_threads := mark_stopped (tk_threads s2) ws\<rparr> = (set_lists s h)\<lparr>tk_threads := mark_stopped (tk_threads s) (insert v ws)\<rparr>" for h ws
      using mark_stopped_step [of "tk_threads s" v t ws, OF v(2)] by (simp add: s2_def set_lists_def)
    note IH = Cons.IH [OF rq f(2), unfolded same over]
    have l2: "tk_thread_queue s2 = tk_thread_queue s" by (simp add: s2_def)
    have drop: "dropWhile (stopping s) (v # vs) = dropWhile (stopping s) vs"
      "insert v (set (takeWhile (stopping s) vs)) = set (takeWhile (stopping s) (v # vs))" using True by simp_all
    show ?thesis
    proof (cases "dropWhile (stopping s) vs")
      case Nil
      with IH obtain s' where r: "scheduler_get_loop f s2 = Done (None, s')" "run_queue s' []"
        "s' = (set_lists s (tk_lists s'))\<lparr>tk_threads := mark_stopped (tk_threads s) (insert v (set vs))\<rparr>"
        "lists_keep (tk_thread_queue s2) (tk_lists s2) (tk_lists s')" by auto
      show ?thesis unfolding drop Nil list.case list.set step r(1)
        by (intro exI [of _ s'] conjI refl r(2,3) keep [OF r(4)])
    next
      case (Cons w rest)
      then have w: "stopped s2 w = stopped s w" by (metis other hd_dropWhile list.distinct(1) list.sel(1))
      show ?thesis
      proof (cases "stopped s w")
        case True
        with IH Cons w step show ?thesis unfolding drop by simp
      next
        case False
        with IH Cons w obtain s' where r: "scheduler_get_loop f s2 = Done (Some w, s')" "run_queue s' rest"
          "s' = (set_lists s (tk_lists s'))\<lparr>tk_threads := mark_stopped (tk_threads s) (insert v (set (takeWhile (stopping s) vs)))\<rparr>"
          "lists_keep (tk_thread_queue s2) (tk_lists s2) (tk_lists s')" by auto
        show ?thesis unfolding drop(1) Cons list.case if_not_P [OF False] drop(2) [symmetric] step r(1)
          by (intro exI [of _ s'] conjI refl r(2,3) keep [OF r(4)])
      qed
    qed
  next
    case False
    define s1 where "s1 = set_lists s h2"
    have "run_queue s1 vs" using Cons.prems(1) pop(6) by (auto simp: run_queue_def s1_def)
    moreover have "s1 = (set_lists s (tk_lists s1))\<lparr>tk_threads := mark_stopped (tk_threads s) {}\<rparr>"
      by (simp add: s1_def set_lists_def tk_lists_def)
    moreover have "scheduler_get_loop fuel s = (if stopped s v then Panic SCHEDULER_ERROR else Done (Some v, s1))"
      using f(1) pop v False st by (simp add: s1_def stopping_def stopped_def Let_def)
    ultimately show ?thesis using False pop(7) by (auto simp: s1_def)
  qed
qed

lemma locked_same:
  "run_queue (s\<lparr>tk_scheduler_lock := l\<rparr>) vs = run_queue s vs" "stopping (s\<lparr>tk_scheduler_lock := l\<rparr>) = stopping s"
  "stopped (s\<lparr>tk_scheduler_lock := l\<rparr>) = stopped s"
  by (simp_all add: run_queue_def fun_eq_iff stopping_def stopped_def thread_status_def)

lemma scheduler_get_entry:
  assumes "run_queue s vs" "idle_ready s idle" "\<not> tk_scheduler_lock s"
  shows "scheduler_get s =
    (if vs = [] then Done (idle, s)
     else and_then (scheduler_get_loop (lh_brk (tk_lists s)) (s\<lparr>tk_scheduler_lock := True\<rparr>)) (\<lambda>(r, s').
       case r of None \<Rightarrow> Done (idle, s') | Some thread \<Rightarrow> Done (thread, s'\<lparr>tk_scheduler_lock := False\<rparr>)))"
proof -
  from list_holds_head [OF run_queue_holds [OF assms(1)]] obtain q where
    q: "list_at (tk_lists s) (tk_thread_queue s) = Done q" "(lst_head q = NULL) = (vs = [])" by metis
  have "tk_thread_queue s \<noteq> NULL" by (rule run_queue_nonnull [OF assms(1)])
  moreover have "cpu_idle_process (tk_cpu s) \<noteq> NULL" "idle_thread s = Done idle" "idle \<noteq> NULL"
    using assms(2) by (simp_all add: idle_ready_def)
  moreover have "s\<lparr>tk_scheduler_lock := False\<rparr> = s" using assms(3) by (cases s) simp
  ultimately show ?thesis using q assms(3)
    unfolding scheduler_get_def lock_release_def by (cases "vs = []") simp_all
qed

lemma scheduler_get_spec:
  assumes "run_queue s vs" "idle_ready s idle" "\<not> tk_scheduler_lock s" "dropWhile (stopping s) vs = v # rest" "\<not> stopped s v"
  shows "\<exists>s'. scheduler_get s = Done (v, s') \<and> run_queue s' rest \<and>
    s' = (set_lists s (tk_lists s'))\<lparr>tk_threads := mark_stopped (tk_threads s) (set (takeWhile (stopping s) vs)), tk_scheduler_lock := False\<rparr> \<and>
    lists_keep (tk_thread_queue s) (tk_lists s) (tk_lists s')"
proof -
  let ?s = "s\<lparr>tk_scheduler_lock := True\<rparr>"
  have len: "length vs < lh_brk (tk_lists s)" by (rule run_queue_small [OF assms(1)])
  have "vs \<noteq> []" using assms(4) by auto
  from scheduler_get_loop_spec [of ?s vs, unfolded locked_same, OF assms(1) len] assms(4,5) obtain s1 where
    s1: "scheduler_get_loop (lh_brk (tk_lists s)) ?s = Done (Some v, s1)" "run_queue s1 rest"
      "s1 = (set_lists ?s (tk_lists s1))\<lparr>tk_threads := mark_stopped (tk_threads ?s) (set (takeWhile (stopping s) vs))\<rparr>"
      "lists_keep (tk_thread_queue s) (tk_lists s) (tk_lists s1)" by auto
  let ?s' = "s1\<lparr>tk_scheduler_lock := False\<rparr>"
  have "scheduler_get s = Done (v, ?s')" using scheduler_get_entry [OF assms(1-3)] s1(1) \<open>vs \<noteq> []\<close> by simp
  moreover have "run_queue ?s' rest" using s1(2) by (simp add: locked_same)
  moreover have "?s' = (set_lists s (tk_lists ?s'))\<lparr>tk_threads := mark_stopped (tk_threads s) (set (takeWhile (stopping s) vs)), tk_scheduler_lock := False\<rparr>"
    by (subst s1(3)) (simp add: set_lists_def)
  moreover have "tk_lists ?s' = tk_lists s1" by simp
  ultimately show ?thesis using s1(4) by metis
qed

lemma scheduler_insertThread_spec:
  assumes "list_holds (tk_thread_queue s) (tk_lists s) vs" "t \<noteq> NULL" "\<not> tk_scheduler_lock s"
  shows "\<exists>h. scheduler_insertThread s t = Done (0, set_lists s h) \<and> list_holds (tk_thread_queue s) h (vs @ [t]) \<and>
    lists_keep (tk_thread_queue s) (tk_lists s) h"
proof -
  from list_holds_append [OF assms(1), of t] obtain h where
    h: "list_append (tk_lists s) (tk_thread_queue s) t = Done h" "list_holds (tk_thread_queue s) h (vs @ [t])"
      "lists_keep (tk_thread_queue s) (tk_lists s) h" by blast
  moreover have "tk_thread_queue s \<noteq> NULL" by (rule list_holds_nonnull [OF assms(1)])
  moreover have "(set_lists s h)\<lparr>tk_scheduler_lock := False\<rparr> = set_lists s h"
    using assms(3) by (cases s) (simp add: set_lists_def)
  ultimately show ?thesis using assms(2,3) by (intro exI [of _ h]) (simp add: scheduler_insertThread_def)
qed

section \<open>Properties\<close>

text \<open>
  C21: \<open>scheduler_get\<close> is a round-robin choice that skips dying threads: it returns the first thread of
  the queue that is not stopping, takes it and the stopping ones before it off the queue, marks those
  as stopped, and releases the lock; with an empty queue it returns the idle thread and changes
  nothing. A stopped thread that is still queued is a panic.
\<close>

theorem scheduler_get_first_live:
  assumes "run_queue s vs" "idle_ready s idle" "\<not> tk_scheduler_lock s"
  shows "(vs = [] \<longrightarrow> scheduler_get s = Done (idle, s)) \<and>
    (\<forall>v rest. dropWhile (stopping s) vs = v # rest \<longrightarrow>
       (if stopped s v then scheduler_get s = Panic SCHEDULER_ERROR
        else \<exists>s'. scheduler_get s = Done (v, s') \<and> run_queue s' rest \<and> \<not> tk_scheduler_lock s' \<and>
               tk_threads s' = mark_stopped (tk_threads s) (set (takeWhile (stopping s) vs))))"
proof (intro conjI allI impI)
  assume "vs = []"
  with scheduler_get_entry [OF assms] show "scheduler_get s = Done (idle, s)" by simp
next
  fix v rest assume d: "dropWhile (stopping s) vs = v # rest"
  show "if stopped s v then scheduler_get s = Panic SCHEDULER_ERROR
        else \<exists>s'. scheduler_get s = Done (v, s') \<and> run_queue s' rest \<and> \<not> tk_scheduler_lock s' \<and>
               tk_threads s' = mark_stopped (tk_threads s) (set (takeWhile (stopping s) vs))"
  proof (cases "stopped s v")
    case True
    have len: "length vs < lh_brk (tk_lists s)" by (rule run_queue_small [OF assms(1)])
    have "vs \<noteq> []" using d by auto
    with scheduler_get_loop_spec [of "s\<lparr>tk_scheduler_lock := True\<rparr>" vs, unfolded locked_same, OF assms(1) len] d True
      scheduler_get_entry [OF assms] show ?thesis by simp
  next
    case False
    from scheduler_get_spec [OF assms d False] obtain s' where
      s': "scheduler_get s = Done (v, s')" "run_queue s' rest"
        "s' = (set_lists s (tk_lists s'))\<lparr>tk_threads := mark_stopped (tk_threads s) (set (takeWhile (stopping s) vs)), tk_scheduler_lock := False\<rparr>"
      by blast
    have "\<not> tk_scheduler_lock s'" "tk_threads s' = mark_stopped (tk_threads s) (set (takeWhile (stopping s) vs))"
      by (subst s'(3); simp)+
    with s'(1,2) False show ?thesis by auto
  qed
qed

text \<open>
  \<open>scheduler_get\<close> can stop the machine: when every queued thread is stopping, it returns the idle
  thread with the scheduler lock still held, and from then on every \<open>scheduler_get\<close> and every
  \<open>scheduler_insertThread\<close> spins for ever.
\<close>

lemma scheduler_get_keeps_lock:
  assumes "run_queue s vs" "idle_ready s idle" "\<not> tk_scheduler_lock s" "vs \<noteq> []" "\<forall>v\<in>set vs. stopping s v"
  shows "\<exists>s'. scheduler_get s = Done (idle, s') \<and> tk_scheduler_lock s' \<and> scheduler_get s' = Hang \<and>
           (\<forall>t. t \<noteq> NULL \<longrightarrow> scheduler_insertThread s' t = Hang)"
proof -
  let ?s = "s\<lparr>tk_scheduler_lock := True\<rparr>"
  have len: "length vs < lh_brk (tk_lists s)" by (rule run_queue_small [OF assms(1)])
  have "dropWhile (stopping s) vs = []" using assms(5) by simp
  with scheduler_get_loop_spec [of ?s vs, unfolded locked_same, OF assms(1) len] obtain s1 where
    s1: "scheduler_get_loop (lh_brk (tk_lists s)) ?s = Done (None, s1)" "run_queue s1 []"
      "s1 = (set_lists ?s (tk_lists s1))\<lparr>tk_threads := mark_stopped (tk_threads ?s) (set vs)\<rparr>" by auto
  have same: "tk_scheduler_lock s1" "tk_cpu s1 = tk_cpu s" "tk_procs s1 = tk_procs s" by (subst s1(3); simp)+
  have "scheduler_get s = Done (idle, s1)" using scheduler_get_entry [OF assms(1-3)] s1(1) assms(4) by simp
  moreover have "idle_thread s1 = Done idle" "cpu_idle_process (tk_cpu s1) \<noteq> NULL" "idle \<noteq> NULL"
    using assms(2) same(2) idle_thread_cong [OF same(2,3)] by (simp_all add: idle_ready_def)
  then have "scheduler_get s1 = Hang" using same(1) by (simp add: scheduler_get_def)
  moreover have "tk_thread_queue s1 \<noteq> NULL" by (rule run_queue_nonnull [OF s1(2)])
  then have "scheduler_insertThread s1 t = Hang" if "t \<noteq> NULL" for t using that same(1) by (simp add: scheduler_insertThread_def)
  ultimately show ?thesis using same(1) by blast
qed

section \<open>Examples\<close>

text \<open>A machine with two queued threads at 10 and 11 and an idle process at 12 with the thread 13.\<close>

definition thread_with :: "u32 \<Rightarrow> thread_t" where
  "thread_with st = \<lparr>thr_parent = 12, thr_status = st, thr_flags = 0, thr_preempt_ticks = 0, thr_total_ticks = 0,
     thr_sleep = NULL, thr_dir = NULL, thr_stack = 0\<rparr>"

definition process_small :: process_t where
  "process_small = \<lparr>pr_parent = NULL, pr_pid = 1, pr_name = ''idle'', pr_uid = 0, pr_gid = 0, pr_exit_status = 0, pr_flags = 0,
     pr_priority = 1, pr_node = NULL, pr_waitpid_queue = NULL, pr_main_thread = 13, pr_thread_list = NULL, pr_wd_path = ''/'',
     pr_fd_table = NULL, pr_heap = 0, pr_heap_base = 0, pr_kstack = 0, pr_dir = NULL\<rparr>"

definition clock_small :: clock_state where
  "clock_small = \<lparr>clock_device = \<lparr>cd_get_timer = 0, cd_get_tick_counts = None, cd_boot_time = 0\<rparr>, tick_count = 0,
     clock_is_ready = False, clock_callback_table = replicate 128 None\<rparr>"

definition queue_heap :: list_heap where
  "queue_heap = \<lparr>lh_nodes = [2 \<mapsto> \<lparr>nd_next = 3, nd_prev = 0, nd_value = 10, nd_owner = 1\<rparr>,
                             3 \<mapsto> \<lparr>nd_next = 0, nd_prev = 2, nd_value = 11, nd_owner = 1\<rparr>],
     lh_lists = [1 \<mapsto> \<lparr>lst_name = ''thread queue'', lst_head = 2, lst_tail = 3, lst_length = 2\<rparr>,
                 4 \<mapsto> \<lparr>lst_name = ''thread sleep queue'', lst_head = 0, lst_tail = 0, lst_length = 0\<rparr>],
     lh_brk = 20, lh_junk = (\<lambda>_. \<lparr>nd_next = 57, nd_prev = 58, nd_value = 59, nd_owner = 60\<rparr>), lh_freed = []\<rparr>"

definition task_small :: "u32 \<Rightarrow> u32 \<Rightarrow> task_state" where
  "task_small st1 st2 = \<lparr>tk_heap = \<lparr>th_lists = queue_heap, th_nodes = Map.empty\<rparr>,
     tk_threads = [10 \<mapsto> thread_with st1, 11 \<mapsto> thread_with st2, 13 \<mapsto> thread_with 4, 14 \<mapsto> thread_with 4],
     tk_procs = [12 \<mapsto> process_small], tk_sleeps = Map.empty, tk_thread_queue = 1, tk_scheduler_lock = False,
     tk_sleep_queue = 4, tk_sleep_queue_lock = False,
     tk_cpu = \<lparr>cpu_current_dir = 5, cpu_current_thread = 14, cpu_current_process = 12, cpu_idle_process = 12\<rparr>,
     tk_other_cpus = [], tk_clock = clock_small, tk_kernel_dir = 5, tk_task_switches = 0,
     tk_process_tree = tree_create ''process tree'', tk_pid_bitmap = None, tk_reap_queue = NULL, tk_reap_queue_lock = False,
     tk_reaper_proc = NULL\<rparr>"

lemma queue_heap_holds: "list_holds 1 queue_heap [10, 11]" "list_holds 4 queue_heap []"
proof -
  have ok: "list_heap_ok queue_heap" by (auto simp: list_heap_ok_def queue_heap_def)
  show "list_holds 1 queue_heap [10, 11]"
    by (rule list_holdsI [OF ok, of _ "[2, 3]"]) (simp_all add: list_rep_def node_value_def queue_heap_def)
  show "list_holds 4 queue_heap []"
    by (rule list_holdsI [OF ok, of _ "[]"]) (simp_all add: list_rep_def queue_heap_def)
qed

lemma task_small_ready:
  "run_queue (task_small st1 st2) [10, 11]" "idle_ready (task_small st1 st2) 13" "\<not> tk_scheduler_lock (task_small st1 st2)"
  using queue_heap_holds
  by (simp_all add: run_queue_def task_small_def tk_lists_def idle_ready_def idle_thread_def proc_at_def process_small_def)

theorem scheduler_get_first_live_witness:
  "\<exists>s'. scheduler_get (task_small 0x14 0x04) = Done (11, s') \<and> run_queue s' [] \<and> \<not> tk_scheduler_lock s'"
proof -
  have d: "dropWhile (stopping (task_small 0x14 0x04)) [10, 11] = 11 # []" "\<not> stopped (task_small 0x14 0x04) 11"
    by (simp_all add: stopping_def stopped_def thread_status_def task_small_def thread_with_def has_bits_def
        THREAD_STATUS_STOPPING_def THREAD_STATUS_STOPPED_def)
  from scheduler_get_first_live [OF task_small_ready(1) [of "0x14" "0x04"] task_small_ready(2,3)] d have
    "if stopped (task_small 0x14 0x04) 11 then scheduler_get (task_small 0x14 0x04) = Panic SCHEDULER_ERROR
     else \<exists>s'. scheduler_get (task_small 0x14 0x04) = Done (11, s') \<and> run_queue s' [] \<and> \<not> tk_scheduler_lock s' \<and>
       tk_threads s' = mark_stopped (tk_threads (task_small 0x14 0x04)) (set (takeWhile (stopping (task_small 0x14 0x04)) [10, 11]))"
    by blast
  with d(2) show ?thesis by auto
qed

end
