(* ===== verification/Sleep.thy ===== *)
theory Sleep
  imports Scheduler
begin

text \<open>
  \<open>hexahedron/task/sleep.c\<close>: threads that wait for a time, for a condition or for ever, in a queue that a
  clock callback walks. A condition function is an argument of the callback. The C code reads a
  list node after it has freed it; on the heap of \<open>KList\<close> that is a fault.
\<close>

section \<open>Operations\<close>

definition SLEEP_FLAG_NOCOND :: nat where "SLEEP_FLAG_NOCOND = 0"
definition SLEEP_FLAG_WAKEUP :: nat where "SLEEP_FLAG_WAKEUP = 1"
definition SLEEP_FLAG_TIME :: nat where "SLEEP_FLAG_TIME = 2"
definition SLEEP_FLAG_COND :: nat where "SLEEP_FLAG_COND = 3"

lemmas sleep_flags = SLEEP_FLAG_NOCOND_def SLEEP_FLAG_WAKEUP_def SLEEP_FLAG_TIME_def SLEEP_FLAG_COND_def

text \<open>Whether \<open>sleep_callback\<close> sets \<open>wakeup\<close>; the corrupt entries it skips do not.\<close>

definition sleep_due :: "(nat \<Rightarrow> addr \<Rightarrow> addr \<Rightarrow> bool) \<Rightarrow> (u64 \<times> u64) option \<Rightarrow> thread_sleep_t \<Rightarrow> bool outcome" where
  "sleep_due cond now sl =
     (if tsl_sleep_state sl = SLEEP_FLAG_NOCOND then Done False
      else if tsl_sleep_state sl = SLEEP_FLAG_TIME then
        (case now of
           None \<Rightarrow> Fault BadPointer
         | Some (seconds, subseconds) \<Rightarrow>
             Done ((tsl_seconds sl = seconds \<and> tsl_subseconds sl \<le> subseconds) \<or> tsl_seconds sl < seconds))
      else if tsl_sleep_state sl = SLEEP_FLAG_COND then
        (case tsl_condition sl of None \<Rightarrow> Done False | Some f \<Rightarrow> Done (cond f (tsl_thread sl) (tsl_context sl)))
      else Done (tsl_sleep_state sl = SLEEP_FLAG_WAKEUP))"

text \<open>The body of \<^verbatim>\<open>if (wakeup)\<close>.\<close>

definition sleep_wake :: "task_state \<Rightarrow> addr \<Rightarrow> addr \<Rightarrow> thread_sleep_t \<Rightarrow> task_state outcome" where
  "sleep_wake s node sleep sl =
     and_then (list_delete (tk_lists s) (tk_sleep_queue s) node) (\<lambda>h.
     and_then (set_thread (set_lists s h) (tsl_thread sl) (\<lambda>t. t\<lparr>thr_status := thr_status t AND NOT THREAD_STATUS_SLEEPING\<rparr>)) (\<lambda>s1.
     and_then (scheduler_insertThread s1 (tsl_thread sl)) (\<lambda>(r, s2).
     and_then (set_thread s2 (tsl_thread sl) (\<lambda>t. t\<lparr>thr_sleep := NULL\<rparr>)) (\<lambda>s3.
     and_then (kfree_node (tk_lists s3) node) (\<lambda>h'.
     Done ((set_lists s3 h')\<lparr>tk_sleeps := (tk_sleeps s3)(sleep := None)\<rparr>))))))"

text \<open>\<^verbatim>\<open>foreach(node, sleep_queue)\<close>, with as much fuel as there are addresses.\<close>

primrec sleep_scan ::
  "(nat \<Rightarrow> addr \<Rightarrow> addr \<Rightarrow> bool) \<Rightarrow> (u64 \<times> u64) option \<Rightarrow> nat \<Rightarrow> task_state \<Rightarrow> addr \<Rightarrow> task_state outcome" where
  "sleep_scan cond now 0 s node = (if node = NULL then Done s else Hang)"
| "sleep_scan cond now (Suc fuel) s node =
     (if node = NULL then Done s
      else
        and_then (node_at (tk_lists s) node) (\<lambda>n.
        and_then
          (if nd_value n = NULL then Done s
           else
             and_then (sleep_at s (nd_value n)) (\<lambda>sl.
             if tsl_thread sl = NULL then Done s
             else
               and_then (sleep_due cond now sl) (\<lambda>wakeup.
               if wakeup then sleep_wake s node (nd_value n) sl else Done s)))
          (\<lambda>s'. and_then (node_at (tk_lists s') node) (\<lambda>n'. sleep_scan cond now fuel s' (nd_next n')))))"

definition sleep_callback :: "(nat \<Rightarrow> addr \<Rightarrow> addr \<Rightarrow> bool) \<Rightarrow> u64 \<Rightarrow> task_state \<Rightarrow> task_state outcome" where
  "sleep_callback cond ticks s =
     (if tk_sleep_queue s = NULL then Done s
      else
        let now = clock_getCurrentTime (tk_clock s) in
        and_then (lock_acquire (tk_sleep_queue_lock s)) (\<lambda>l.
        and_then (list_at (tk_lists s) (tk_sleep_queue s)) (\<lambda>q.
        and_then (sleep_scan cond now (lh_brk (tk_lists s)) (s\<lparr>tk_sleep_queue_lock := l\<rparr>) (lst_head q)) (\<lambda>s'.
        Done (s'\<lparr>tk_sleep_queue_lock := lock_release l\<rparr>)))))"

text \<open>The callback is registered under the index \<open>cb\<close>.\<close>

definition sleep_init :: "nat \<Rightarrow> task_state \<Rightarrow> task_state" where
  "sleep_init cb s =
     (let (q, h) = list_create (tk_lists s) ''thread sleep queue'';
          (r, ck) = clock_registerUpdateCallback (tk_clock s) (Some cb) in
      (set_lists s h)\<lparr>tk_sleep_queue := q, tk_clock := ck\<rparr>)"

text \<open>
  What the three \<open>sleep_until*\<close> functions share: store the sleep structure and point the thread at it,
  append a node for it to the queue, mark the thread.
\<close>

definition sleep_enqueue :: "task_state \<Rightarrow> addr \<Rightarrow> thread_sleep_t \<Rightarrow> (int \<times> task_state) outcome" where
  "sleep_enqueue s thread sl =
     (let (sleep, s1) = kmalloc s in
      and_then (set_thread (s1\<lparr>tk_sleeps := (tk_sleeps s1)(sleep \<mapsto> sl)\<rparr>) thread (\<lambda>t. t\<lparr>thr_sleep := sleep\<rparr>)) (\<lambda>s2.
      let (node, h1) = kmalloc_node (tk_lists s2) in
      and_then (set_node h1 node (\<lambda>n. n\<lparr>nd_value := sleep\<rparr>)) (\<lambda>h2.
      and_then (lock_acquire (tk_sleep_queue_lock s2)) (\<lambda>l.
      and_then (list_append_node h2 (tk_sleep_queue s2) node) (\<lambda>h3.
      and_then (set_thread ((set_lists s2 h3)\<lparr>tk_sleep_queue_lock := lock_release l\<rparr>) thread
                 (\<lambda>t. t\<lparr>thr_status := thr_status t OR THREAD_STATUS_SLEEPING\<rparr>)) (\<lambda>s3.
      Done (0, s3)))))))"

definition sleep_blank :: "addr \<Rightarrow> nat \<Rightarrow> thread_sleep_t" where
  "sleep_blank thread st = \<lparr>tsl_thread = thread, tsl_sleep_state = st, tsl_condition = None, tsl_context = NULL,
     tsl_seconds = 0, tsl_subseconds = 0\<rparr>"

definition sleep_untilNever :: "task_state \<Rightarrow> addr \<Rightarrow> (int \<times> task_state) outcome" where
  "sleep_untilNever s thread =
     (if thread = NULL then Done (1, s) else sleep_enqueue s thread (sleep_blank thread SLEEP_FLAG_NOCOND))"

definition sleep_untilTime :: "task_state \<Rightarrow> addr \<Rightarrow> u64 \<Rightarrow> u64 \<Rightarrow> (int \<times> task_state) outcome" where
  "sleep_untilTime s thread seconds subseconds =
     (if thread = NULL then Done (1, s)
      else case clock_relative (tk_clock s) seconds subseconds of
        None \<Rightarrow> Fault BadPointer
      | Some (new_seconds, new_subseconds) \<Rightarrow>
          sleep_enqueue s thread ((sleep_blank thread SLEEP_FLAG_TIME)\<lparr>tsl_seconds := new_seconds, tsl_subseconds := new_subseconds\<rparr>))"

definition sleep_untilCondition :: "task_state \<Rightarrow> addr \<Rightarrow> nat option \<Rightarrow> addr \<Rightarrow> (int \<times> task_state) outcome" where
  "sleep_untilCondition s thread condition context =
     (if thread = NULL then Done (1, s)
      else sleep_enqueue s thread ((sleep_blank thread SLEEP_FLAG_COND)\<lparr>tsl_condition := condition, tsl_context := context\<rparr>))"

definition sleep_wakeup :: "task_state \<Rightarrow> addr \<Rightarrow> (int \<times> task_state) outcome" where
  "sleep_wakeup s thread =
     (if thread = NULL then Done (1, s)
      else
        and_then (thread_at s thread) (\<lambda>t.
        if thr_sleep t = NULL then Done (1, s)
        else and_then (set_sleep s (thr_sleep t) (\<lambda>sl. sl\<lparr>tsl_sleep_state := SLEEP_FLAG_WAKEUP\<rparr>)) (\<lambda>s'. Done (0, s'))))"

section \<open>The queue of sleepers\<close>

text \<open>The sleep structures queued, in order, each with a live thread.\<close>

definition sleep_queue :: "task_state \<Rightarrow> addr list \<Rightarrow> bool" where
  "sleep_queue s vs \<longleftrightarrow> list_holds (tk_sleep_queue s) (tk_lists s) vs \<and>
     (\<forall>v\<in>set vs. v \<noteq> NULL \<and> (\<exists>sl. tk_sleeps s v = Some sl \<and> tsl_thread sl \<noteq> NULL \<and> tk_threads s (tsl_thread sl) \<noteq> None))"

definition due_at :: "(nat \<Rightarrow> addr \<Rightarrow> addr \<Rightarrow> bool) \<Rightarrow> (u64 \<times> u64) option \<Rightarrow> task_state \<Rightarrow> addr \<Rightarrow> bool" where
  "due_at cond now s v \<longleftrightarrow> (\<exists>sl. tk_sleeps s v = Some sl \<and> sleep_due cond now sl = Done True)"

lemma sleep_due_total: "now \<noteq> None \<Longrightarrow> \<exists>b. sleep_due cond now sl = Done b"
  by (auto simp: sleep_due_def split: option.splits)

lemma kfree_then_read: "and_then (kfree_node h a) (\<lambda>h'. and_then (node_at h' a) (k h')) = Fault BadPointer"
  by (simp add: kfree_node_def node_at_def split: option.splits)

lemma sleep_wake_then_next:
  assumes rep: "list_heap_ok (tk_lists s)" "list_rep (tk_lists s) (tk_sleep_queue s) (pre @ a # ns)"
    and queue: "list_holds (tk_thread_queue s) (tk_lists s) qs" "tk_thread_queue s \<noteq> tk_sleep_queue s" "\<not> tk_scheduler_lock s"
    and thread: "tsl_thread sl \<noteq> NULL" "tk_threads s (tsl_thread sl) = Some t"
  shows "and_then (sleep_wake s a v sl) (\<lambda>s'. and_then (node_at (tk_lists s') a) (k s')) = Fault BadPointer"
proof -
  from list_delete_spec [OF rep(2)] obtain h where h: "list_delete (tk_lists s) (tk_sleep_queue s) a = Done h"
    "list_frame (tk_sleep_queue s) (set (pre @ a # ns)) (tk_lists s) h" by blast
  from queue(1) obtain ms where ms: "list_rep (tk_lists s) (tk_thread_queue s) ms" "map (node_value (tk_lists s)) ms = qs"
    by (auto simp: list_holds_def)
  have "list_rep h (tk_thread_queue s) ms"
    using list_frame_other [OF h(2) queue(2), of ms] list_rep_owners_disjoint [OF rep(2) ms(1) queue(2)] ms(1) by blast
  moreover have "node_value h = node_value (tk_lists s)" using h(2) by (simp add: list_frame_def fun_eq_iff)
  ultimately have q: "list_holds (tk_thread_queue s) h qs" using ms(2) list_frame_ok [OF h(2) rep(1)] by (auto simp: list_holds_def)
  define s1 where "s1 = (set_lists s h)\<lparr>tk_threads := (tk_threads s)(tsl_thread sl \<mapsto> t\<lparr>thr_status := thr_status t AND NOT THREAD_STATUS_SLEEPING\<rparr>)\<rparr>"
  have s1: "set_thread (set_lists s h) (tsl_thread sl) (\<lambda>t. t\<lparr>thr_status := thr_status t AND NOT THREAD_STATUS_SLEEPING\<rparr>) = Done s1"
    using thread by (simp add: s1_def)
  have "list_holds (tk_thread_queue s1) (tk_lists s1) qs" "\<not> tk_scheduler_lock s1" using q queue(3) by (simp_all add: s1_def)
  from scheduler_insertThread_spec [OF this(1) thread(1) this(2)] obtain h2 where
    h2: "scheduler_insertThread s1 (tsl_thread sl) = Done (0, set_lists s1 h2)" by blast
  have "tk_threads (set_lists s1 h2) (tsl_thread sl) = Some (t\<lparr>thr_status := thr_status t AND NOT THREAD_STATUS_SLEEPING\<rparr>)"
    by (simp add: s1_def)
  with thread(1) obtain s3 where "set_thread (set_lists s1 h2) (tsl_thread sl) (\<lambda>t. t\<lparr>thr_sleep := NULL\<rparr>) = Done s3" by simp
  with h s1 h2 show ?thesis by (simp add: sleep_wake_def kfree_then_read)
qed

lemma sleep_scan_spec:
  assumes "list_heap_ok (tk_lists s)" "list_rep (tk_lists s) (tk_sleep_queue s) (pre @ ns)" "length ns \<le> fuel" "now \<noteq> None"
    and "\<forall>a\<in>set ns. node_value (tk_lists s) a \<noteq> NULL \<and> (\<exists>sl. tk_sleeps s (node_value (tk_lists s) a) = Some sl \<and>
           tsl_thread sl \<noteq> NULL \<and> tk_threads s (tsl_thread sl) \<noteq> None)"
    and "list_holds (tk_thread_queue s) (tk_lists s) qs" "tk_thread_queue s \<noteq> tk_sleep_queue s" "\<not> tk_scheduler_lock s"
  shows "sleep_scan cond now fuel s (first_of ns NULL) =
    (if \<exists>a\<in>set ns. due_at cond now s (node_value (tk_lists s) a) then Fault BadPointer else Done s)"
  using assms(2,3,5)
proof (induction ns arbitrary: pre fuel)
  case Nil
  then show ?case by (cases fuel) auto
next
  case (Cons a ns)
  then obtain f where f: "fuel = Suc f" "length ns \<le> f" by (cases fuel) auto
  from Cons.prems(1) obtain n where n: "lh_nodes (tk_lists s) a = Some n" "a \<noteq> NULL" "nd_next n = first_of ns NULL"
    by (auto simp: list_rep_def)
  have v: "node_value (tk_lists s) a = nd_value n" using n(1) by (simp add: node_value_def)
  from Cons.prems(3) v obtain sl t where sl: "nd_value n \<noteq> NULL" "tk_sleeps s (nd_value n) = Some sl" "tsl_thread sl \<noteq> NULL"
    "tk_threads s (tsl_thread sl) = Some t" by auto
  from sleep_due_total [OF assms(4)] obtain b where b: "sleep_due cond now sl = Done b" by blast
  have due: "due_at cond now s (nd_value n) = b" using sl(2) b by (simp add: due_at_def)
  show ?case
  proof (cases b)
    case True
    have "sleep_scan cond now fuel s (first_of (a # ns) NULL) =
        and_then (sleep_wake s a (nd_value n) sl) (\<lambda>s'. and_then (node_at (tk_lists s') a) (\<lambda>n'. sleep_scan cond now f s' (nd_next n')))"
      using f n sl b True by simp
    also have "\<dots> = Fault BadPointer"
      by (rule sleep_wake_then_next [OF assms(1) Cons.prems(1) assms(6-8) sl(3,4)])
    finally show ?thesis using True due v by auto
  next
    case False
    have "sleep_scan cond now fuel s (first_of (a # ns) NULL) = sleep_scan cond now f s (first_of ns NULL)"
      using f n sl b False by simp
    also have "\<dots> = (if \<exists>a\<in>set ns. due_at cond now s (node_value (tk_lists s) a) then Fault BadPointer else Done s)"
      using Cons.prems f(2) by (intro Cons.IH [of "pre @ [a]"]) auto
    finally show ?thesis using False due v by auto
  qed
qed

section \<open>Properties\<close>

text \<open>
  C22: The clock callback of the sleepers is safe only while nobody wakes up: when no queued sleeper is
  due it leaves the state as it is and releases its lock; as soon as one is due (its time has come,
  its condition holds, or \<open>sleep_wakeup\<close> marked it), the walk reads the node it has just freed.
\<close>

theorem sleep_callback_use_after_free:
  assumes "sleep_queue s vs" "list_holds (tk_thread_queue s) (tk_lists s) qs" "tk_thread_queue s \<noteq> tk_sleep_queue s"
    "\<not> tk_scheduler_lock s" "\<not> tk_sleep_queue_lock s" "clock_getCurrentTime (tk_clock s) = Some now"
  shows "sleep_callback cond ticks s =
    (if \<exists>v\<in>set vs. due_at cond (Some now) s v then Fault BadPointer else Done s)"
proof -
  let ?s = "s\<lparr>tk_sleep_queue_lock := True\<rparr>"
  from assms(1) obtain ns where ns: "list_heap_ok (tk_lists s)" "list_rep (tk_lists s) (tk_sleep_queue s) ns"
    "map (node_value (tk_lists s)) ns = vs" by (auto simp: sleep_queue_def list_holds_def)
  then obtain q where q: "list_at (tk_lists s) (tk_sleep_queue s) = Done q" "lst_head q = first_of ns NULL" "tk_sleep_queue s \<noteq> NULL"
    by (auto simp: list_rep_def)
  have vals: "\<forall>a\<in>set ns. node_value (tk_lists s) a \<noteq> NULL \<and> (\<exists>sl. tk_sleeps s (node_value (tk_lists s) a) = Some sl \<and>
      tsl_thread sl \<noteq> NULL \<and> tk_threads s (tsl_thread sl) \<noteq> None)"
    using assms(1) ns(3) by (auto simp: sleep_queue_def)
  have due: "due_at cond (Some now) ?s v = due_at cond (Some now) s v" for v by (simp add: due_at_def)
  have "sleep_scan cond (Some now) (lh_brk (tk_lists s)) ?s (first_of ns NULL) =
      (if \<exists>a\<in>set ns. due_at cond (Some now) s (node_value (tk_lists s) a) then Fault BadPointer else Done ?s)"
    using sleep_scan_spec [of ?s "[]" ns "lh_brk (tk_lists s)" "Some now" qs cond] ns(1,2) vals assms(2-4)
      list_rep_length [OF ns(1,2)] due by simp
  moreover have "(\<exists>a\<in>set ns. due_at cond (Some now) s (node_value (tk_lists s) a)) \<longleftrightarrow> (\<exists>v\<in>set vs. due_at cond (Some now) s v)"
    using ns(3) by auto
  moreover have "s\<lparr>tk_sleep_queue_lock := False\<rparr> = s" using assms(5) by (cases s) simp
  ultimately show ?thesis using q assms(5,6) by (simp add: sleep_callback_def)
qed

text \<open>One sleeper at 15, for thread 10, that \<open>sleep_wakeup\<close> has marked or not; its node is 6.\<close>

definition sleep_heap :: list_heap where
  "sleep_heap = queue_heap\<lparr>lh_nodes := (lh_nodes queue_heap)(6 \<mapsto> \<lparr>nd_next = 0, nd_prev = 0, nd_value = 15, nd_owner = 4\<rparr>),
     lh_lists := (lh_lists queue_heap)(4 \<mapsto> \<lparr>lst_name = ''thread sleep queue'', lst_head = 6, lst_tail = 6, lst_length = 1\<rparr>)\<rparr>"

definition task_sleepy :: "nat \<Rightarrow> task_state" where
  "task_sleepy st = (task_small 4 4)\<lparr>tk_heap := \<lparr>th_lists = sleep_heap, th_nodes = Map.empty\<rparr>,
     tk_sleeps := [15 \<mapsto> sleep_blank 10 st],
     tk_clock := clock_small\<lparr>clock_device := \<lparr>cd_get_timer = 0, cd_get_tick_counts = Some (\<lambda>t. (5, 0)), cd_boot_time = 0\<rparr>\<rparr>\<rparr>"

lemma sleep_heap_holds: "list_holds 1 sleep_heap [10, 11]" "list_holds 4 sleep_heap [15]"
proof -
  have ok: "list_heap_ok sleep_heap" by (auto simp: list_heap_ok_def sleep_heap_def queue_heap_def)
  show "list_holds 1 sleep_heap [10, 11]"
    by (rule list_holdsI [OF ok, of _ "[2, 3]"]) (simp_all add: list_rep_def node_value_def sleep_heap_def queue_heap_def)
  show "list_holds 4 sleep_heap [15]"
    by (rule list_holdsI [OF ok, of _ "[6]"]) (simp_all add: list_rep_def node_value_def sleep_heap_def queue_heap_def)
qed

theorem sleep_callback_use_after_free_witness:
  "sleep_callback (\<lambda>_ _ _. False) 0 (task_sleepy SLEEP_FLAG_WAKEUP) = Fault BadPointer \<and>
   sleep_callback (\<lambda>_ _ _. False) 0 (task_sleepy SLEEP_FLAG_NOCOND) = Done (task_sleepy SLEEP_FLAG_NOCOND)"
proof -
  have q: "sleep_queue (task_sleepy st) [15]" "list_holds (tk_thread_queue (task_sleepy st)) (tk_lists (task_sleepy st)) [10, 11]"
    "tk_thread_queue (task_sleepy st) \<noteq> tk_sleep_queue (task_sleepy st)" "\<not> tk_scheduler_lock (task_sleepy st)"
    "\<not> tk_sleep_queue_lock (task_sleepy st)" "clock_getCurrentTime (tk_clock (task_sleepy st)) = Some (5, 0)" for st
    using sleep_heap_holds
    by (simp_all add: sleep_queue_def task_sleepy_def task_small_def tk_lists_def sleep_blank_def clock_getCurrentTime_def
        clock_now_def clock_small_def)
  have "due_at (\<lambda>_ _ _. False) (Some (5, 0)) (task_sleepy SLEEP_FLAG_WAKEUP) 15"
    "\<not> due_at (\<lambda>_ _ _. False) (Some (5, 0)) (task_sleepy SLEEP_FLAG_NOCOND) 15"
    by (simp_all add: due_at_def task_sleepy_def sleep_due_def sleep_blank_def sleep_flags)
  then show ?thesis using sleep_callback_use_after_free [OF q] by simp
qed

end
