(* ===== verification/Process.thy ===== *)
theory Process
  imports Sleep Frame_Bitmap
begin

text \<open>
  \<open>hexahedron/task/process.c\<close>: process identifiers, switching between threads and leaving a process.
  Loading a context is the end of \<open>process_yield\<close> and \<open>process_switchNextThread\<close>: the state they give is
  the one in which the chosen thread goes on. Registers and page tables are not part of it; of
  \<open>mem_switchDirectory\<close> it has the current directory.
\<close>

section \<open>Process identifiers\<close>

text \<open>\<open>kmalloc(PROCESS_PID_BITMAP_SIZE)\<close> is 1024 bytes: 256 words.\<close>

definition pid_bitmap_of :: "task_state \<Rightarrow> u32 list" where
  "pid_bitmap_of s = (case tk_pid_bitmap s of None \<Rightarrow> replicate 256 0 | Some b \<Rightarrow> b)"

definition PROCESS_PID_BITMAP_SIZE :: nat where
  "PROCESS_PID_BITMAP_SIZE = 32768 div (4 * 8)"

definition pid_word_search :: "nat \<Rightarrow> u32 \<Rightarrow> (nat \<times> nat) option outcome" where
  "pid_word_search i w = search (\<lambda>j. if w AND push_bit j 1 = 0 then Done (Some (i, j)) else Done None) 0 32"

definition process_allocatePID :: "task_state \<Rightarrow> (int \<times> task_state) outcome" where
  "process_allocatePID s =
     (let bm = pid_bitmap_of s in
      and_then (search (\<lambda>i. and_then (array_get bm i) (pid_word_search i)) 0 PROCESS_PID_BITMAP_SIZE) (\<lambda>r.
      case r of
        None \<Rightarrow> Panic SCHEDULER_ERROR
      | Some (i, j) \<Rightarrow> Done (int (i * 32 + j), s\<lparr>tk_pid_bitmap := Some (bm[i := bm ! i OR push_bit j 1])\<rparr>)))"

definition process_freePID :: "task_state \<Rightarrow> int \<Rightarrow> task_state outcome" where
  "process_freePID s pid = (case tk_pid_bitmap s of
     None \<Rightarrow> Done s
   | Some bm \<Rightarrow>
       let bitmap_idx = pid sdiv 32 * 32 in
       if bitmap_idx < 0 then Fault OutOfBounds
       else
         and_then (array_get bm (nat bitmap_idx)) (\<lambda>w.
         and_then (array_set bm (nat bitmap_idx) (w AND NOT (push_bit (nat (pid - bitmap_idx)) 1))) (\<lambda>bm'.
         Done (s\<lparr>tk_pid_bitmap := Some bm'\<rparr>))))"

section \<open>Switching\<close>

definition mem_switchDirectory :: "task_state \<Rightarrow> addr \<Rightarrow> task_state" where
  "mem_switchDirectory s pagedir =
     (let d = (if pagedir = NULL then tk_kernel_dir s else pagedir) in
      if cpu_current_dir (tk_cpu s) = d then s else s\<lparr>tk_cpu := (tk_cpu s)\<lparr>cpu_current_dir := d\<rparr>\<rparr>)"

definition process_switchNextThread :: "task_state \<Rightarrow> task_state outcome" where
  "process_switchNextThread s =
     and_then (scheduler_get s) (\<lambda>(next_thread, s1).
     if next_thread = NULL then Panic SCHEDULER_ERROR
     else
       and_then (thread_at s1 next_thread) (\<lambda>t.
       let s2 = s1\<lparr>tk_cpu := (tk_cpu s1)\<lparr>cpu_current_thread := next_thread, cpu_current_process := thr_parent t\<rparr>\<rparr>;
           s3 = mem_switchDirectory s2 (thr_dir t) in
       and_then (set_thread s3 next_thread (\<lambda>t. t\<lparr>thr_status := thr_status t OR THREAD_STATUS_RUNNING\<rparr>)) (\<lambda>s4.
       Done (s4\<lparr>tk_task_switches := tk_task_switches s4 + 1\<rparr>))))"

definition process_yield :: "task_state \<Rightarrow> bool \<Rightarrow> task_state outcome" where
  "process_yield s reschedule =
     (let prev = cpu_current_thread (tk_cpu s) in
      if prev = NULL then process_switchNextThread s
      else
        and_then (scheduler_get s) (\<lambda>(next_thread, s1).
        if next_thread = NULL then Panic SCHEDULER_ERROR
        else
          and_then (thread_at s1 next_thread) (\<lambda>t.
          let s2 = s1\<lparr>tk_cpu := (tk_cpu s1)\<lparr>cpu_current_thread := next_thread, cpu_current_process := thr_parent t\<rparr>\<rparr>;
              s3 = (if thr_dir t \<noteq> NULL \<or> cpu_current_dir (tk_cpu s2) \<noteq> tk_kernel_dir s2
                    then mem_switchDirectory s2 (thr_dir t) else s2) in
          and_then (set_thread s3 next_thread (\<lambda>t. t\<lparr>thr_status := thr_status t OR THREAD_STATUS_RUNNING\<rparr>)) (\<lambda>s4.
          and_then (thread_at s4 prev) (\<lambda>p.
          and_then (if reschedule \<and> \<not> has_bits (thr_status p) THREAD_STATUS_SLEEPING
                    then and_then (scheduler_insertThread s4 prev) (\<lambda>(r, s5). Done s5) else Done s4) (\<lambda>s5.
          Done (s5\<lparr>tk_task_switches := tk_task_switches s5 + 1\<rparr>)))))))"

section \<open>Leaving\<close>

text \<open>\<^verbatim>\<open>foreach\<close> over the values of a list; \<open>next\<close> is read after the body.\<close>

primrec foreach_value ::
  "(task_state \<Rightarrow> addr \<Rightarrow> task_state outcome) \<Rightarrow> nat \<Rightarrow> task_state \<Rightarrow> addr \<Rightarrow> task_state outcome" where
  "foreach_value body 0 s node = (if node = NULL then Done s else Hang)"
| "foreach_value body (Suc fuel) s node =
     (if node = NULL then Done s
      else
        and_then (node_at (tk_lists s) node) (\<lambda>n.
        and_then (body s (nd_value n)) (\<lambda>s'.
        and_then (node_at (tk_lists s') node) (\<lambda>n'. foreach_value body fuel s' (nd_next n')))))"

definition mark_stopping :: "task_state \<Rightarrow> addr \<Rightarrow> task_state outcome" where
  "mark_stopping s thr =
     (if thr = NULL then Done s
      else set_thread s thr (\<lambda>t. t\<lparr>thr_status := thr_status t OR THREAD_STATUS_STOPPING\<rparr>))"

definition process_stop_threads :: "task_state \<Rightarrow> process_t \<Rightarrow> task_state outcome" where
  "process_stop_threads s p =
     and_then (mark_stopping s (pr_main_thread p)) (\<lambda>s1.
     if pr_thread_list p = NULL then Done s1
     else
       and_then (list_at (tk_lists s1) (pr_thread_list p)) (\<lambda>l.
       if lst_length l = 0 then Done s1
       else foreach_value mark_stopping (lh_brk (tk_lists s1)) s1 (lst_head l)))"

text \<open>Whether the parent waits, and then all waiting threads are woken.\<close>

definition process_wake_parent :: "task_state \<Rightarrow> addr \<Rightarrow> (bool \<times> task_state) outcome" where
  "process_wake_parent s parent =
     (if parent = NULL then Done (False, s)
      else
        and_then (proc_at s parent) (\<lambda>pp.
        if pr_waitpid_queue pp = NULL then Done (False, s)
        else
          and_then (list_at (tk_lists s) (pr_waitpid_queue pp)) (\<lambda>l.
          if lst_length l = 0 then Done (False, s)
          else
            and_then (foreach_value (\<lambda>s thr. and_then (sleep_wakeup s thr) (\<lambda>(r, s'). Done s'))
                        (lh_brk (tk_lists s)) s (lst_head l)) (\<lambda>s'.
            Done (True, s')))))"

definition process_exit :: "task_state \<Rightarrow> addr \<Rightarrow> int \<Rightarrow> task_state outcome" where
  "process_exit s process0 status_code =
     (let process = (if process0 = NULL then cpu_current_process (tk_cpu s) else process0) in
      if process = NULL then Panic KERNEL_BAD_ARGUMENT_ERROR
      else
        and_then (set_proc s process (\<lambda>p. p\<lparr>pr_flags := pr_flags p OR PROCESS_STOPPED\<rparr>)) (\<lambda>s1.
        and_then (proc_at s1 process) (\<lambda>p.
        and_then (process_stop_threads s1 p) (\<lambda>s2.
        and_then (set_proc s2 (cpu_current_process (tk_cpu s2)) (\<lambda>p. p\<lparr>pr_exit_status := status_code\<rparr>)) (\<lambda>s3.
        and_then (process_wake_parent s3 (pr_parent p)) (\<lambda>(waiting, s4).
        if waiting then process_switchNextThread s4
        else
          and_then (lock_acquire (tk_reap_queue_lock s4)) (\<lambda>l.
          and_then (list_append (tk_lists s4) (tk_reap_queue s4) process) (\<lambda>h.
          let s5 = (set_lists s4 h)\<lparr>tk_reap_queue_lock := lock_release l\<rparr> in
          and_then (proc_at s5 (tk_reaper_proc s5)) (\<lambda>reaper.
          and_then (sleep_wakeup s5 (pr_main_thread reaper)) (\<lambda>(r, s6).
          process_switchNextThread s6))))))))))"

section \<open>Round robin\<close>

lemma mem_switchDirectory_other [simp]:
  "tk_lists (mem_switchDirectory s d) = tk_lists s" "tk_threads (mem_switchDirectory s d) = tk_threads s"
  "tk_procs (mem_switchDirectory s d) = tk_procs s" "tk_thread_queue (mem_switchDirectory s d) = tk_thread_queue s"
  "tk_scheduler_lock (mem_switchDirectory s d) = tk_scheduler_lock s"
  "cpu_current_thread (tk_cpu (mem_switchDirectory s d)) = cpu_current_thread (tk_cpu s)"
  "cpu_current_process (tk_cpu (mem_switchDirectory s d)) = cpu_current_process (tk_cpu s)"
  "cpu_idle_process (tk_cpu (mem_switchDirectory s d)) = cpu_idle_process (tk_cpu s)"
  by (simp_all add: mem_switchDirectory_def Let_def)

text \<open>A thread that may run: a live object that is neither stopping nor stopped nor asleep.\<close>

definition runnable :: "task_state \<Rightarrow> addr \<Rightarrow> bool" where
  "runnable s v \<longleftrightarrow> v \<noteq> NULL \<and> tk_threads s v \<noteq> None \<and> \<not> stopping s v \<and> \<not> stopped s v \<and>
     \<not> has_bits (thread_status s v) THREAD_STATUS_SLEEPING"

text \<open>The running thread and then the queue; all of them can run, and the lock is free.\<close>

definition round :: "task_state \<Rightarrow> addr list \<Rightarrow> bool" where
  "round s cs \<longleftrightarrow> cs \<noteq> [] \<and> cpu_current_thread (tk_cpu s) = hd cs \<and> run_queue s (tl cs) \<and> (\<forall>c\<in>set cs. runnable s c) \<and>
     (\<exists>idle. idle_ready s idle) \<and> \<not> tk_scheduler_lock s"

lemma runnable_cong:
  assumes "tk_threads s' = (tk_threads s)(w \<mapsto> t\<lparr>thr_status := thr_status t OR THREAD_STATUS_RUNNING\<rparr>)" "tk_threads s w = Some t"
  shows "runnable s' v = runnable s v"
proof -
  have "has_bits (thread_status s' v) b = has_bits (thread_status s v) b"
    if "\<not> has_bits THREAD_STATUS_RUNNING b" for b
    using that assms by (auto simp: thread_status_def has_bits_or)
  moreover have "\<not> has_bits THREAD_STATUS_RUNNING THREAD_STATUS_STOPPING" "\<not> has_bits THREAD_STATUS_RUNNING THREAD_STATUS_STOPPED"
    "\<not> has_bits THREAD_STATUS_RUNNING THREAD_STATUS_SLEEPING"
    by (simp_all add: has_bits_def THREAD_STATUS_RUNNING_def THREAD_STATUS_STOPPING_def THREAD_STATUS_STOPPED_def
        THREAD_STATUS_SLEEPING_def)
  ultimately show ?thesis using assms by (auto simp: runnable_def stopping_def stopped_def)
qed

lemma process_yield_round:
  assumes "round s (c # v # vs)"
  shows "\<exists>s'. process_yield s True = Done s' \<and> round s' (v # vs @ [c])"
proof -
  from assms obtain idle where r: "cpu_current_thread (tk_cpu s) = c" "run_queue s (v # vs)" "runnable s c" "runnable s v"
    "\<forall>w\<in>set vs. runnable s w" "idle_ready s idle" "\<not> tk_scheduler_lock s"
    by (auto simp: round_def)
  have d: "dropWhile (stopping s) (v # vs) = v # vs" "takeWhile (stopping s) (v # vs) = []" "\<not> stopped s v"
    using r(4) by (simp_all add: runnable_def)
  from scheduler_get_spec [OF r(2,6,7) d(1,3), unfolded d(2) list.set mark_stopped_empty] obtain s1 where
    s1: "scheduler_get s = Done (v, s1)" "run_queue s1 vs"
      "s1 = (set_lists s (tk_lists s1))\<lparr>tk_threads := tk_threads s, tk_scheduler_lock := False\<rparr>" by blast
  have same: "tk_threads s1 = tk_threads s" "tk_procs s1 = tk_procs s" "tk_cpu s1 = tk_cpu s" "\<not> tk_scheduler_lock s1"
    "tk_thread_queue s1 = tk_thread_queue s" by (subst s1(3); simp)+
  from r(3,4) obtain tc tv where t: "c \<noteq> NULL" "tk_threads s c = Some tc" "v \<noteq> NULL" "tk_threads s v = Some tv"
    by (auto simp: runnable_def)
  define s3 where "s3 = (let s2 = s1\<lparr>tk_cpu := (tk_cpu s1)\<lparr>cpu_current_thread := v, cpu_current_process := thr_parent tv\<rparr>\<rparr> in
    if thr_dir tv \<noteq> NULL \<or> cpu_current_dir (tk_cpu s2) \<noteq> tk_kernel_dir s2 then mem_switchDirectory s2 (thr_dir tv) else s2)"
  have s3: "tk_threads s3 = tk_threads s" "tk_procs s3 = tk_procs s" "tk_lists s3 = tk_lists s1" "\<not> tk_scheduler_lock s3"
    "tk_thread_queue s3 = tk_thread_queue s" "cpu_current_thread (tk_cpu s3) = v"
    "cpu_idle_process (tk_cpu s3) = cpu_idle_process (tk_cpu s)"
    using same by (simp_all add: s3_def Let_def)
  define s4 where "s4 = s3\<lparr>tk_threads := (tk_threads s)(v \<mapsto> tv\<lparr>thr_status := thr_status tv OR THREAD_STATUS_RUNNING\<rparr>)\<rparr>"
  have s4: "tk_threads s4 = (tk_threads s)(v \<mapsto> tv\<lparr>thr_status := thr_status tv OR THREAD_STATUS_RUNNING\<rparr>)"
    "tk_procs s4 = tk_procs s" "tk_lists s4 = tk_lists s1" "\<not> tk_scheduler_lock s4" "tk_thread_queue s4 = tk_thread_queue s"
    "cpu_current_thread (tk_cpu s4) = v" "cpu_idle_process (tk_cpu s4) = cpu_idle_process (tk_cpu s)"
    using s3 by (simp_all add: s4_def)
  have run: "runnable s4 w = runnable s w" for w by (rule runnable_cong [OF s4(1) t(4)])
  obtain p where p: "thread_at s4 c = Done p" "\<not> has_bits (thr_status p) THREAD_STATUS_SLEEPING"
    using run [of c] r(3) t by (auto simp: runnable_def thread_status_def)
  have "list_holds (tk_thread_queue s4) (tk_lists s4) vs" using s1(2) s4 same(5) by (simp add: run_queue_def)
  from scheduler_insertThread_spec [OF this t(1) s4(4)] obtain h where
    h: "scheduler_insertThread s4 c = Done (0, set_lists s4 h)" "list_holds (tk_thread_queue s4) h (vs @ [c])" by blast
  let ?s' = "(set_lists s4 h)\<lparr>tk_task_switches := tk_task_switches (set_lists s4 h) + 1\<rparr>"
  have "set_thread s3 v (\<lambda>t. t\<lparr>thr_status := thr_status t OR THREAD_STATUS_RUNNING\<rparr>) = Done s4"
    using t s3(1) by (simp add: s4_def)
  moreover have "thread_at s1 v = Done tv" using t same(1) by simp
  then have "process_yield s True =
      and_then (set_thread s3 v (\<lambda>t. t\<lparr>thr_status := thr_status t OR THREAD_STATUS_RUNNING\<rparr>)) (\<lambda>s4.
      and_then (thread_at s4 c) (\<lambda>p.
      and_then (if True \<and> \<not> has_bits (thr_status p) THREAD_STATUS_SLEEPING
                then and_then (scheduler_insertThread s4 c) (\<lambda>(r, s5). Done s5) else Done s4) (\<lambda>s5.
      Done (s5\<lparr>tk_task_switches := tk_task_switches s5 + 1\<rparr>))))"
    unfolding process_yield_def s3_def using r(1) t(1,3) s1(1) by (simp only: Let_def and_then.simps prod.case if_False)
  ultimately have "process_yield s True = Done ?s'" using p h(1) by simp
  moreover have same': "tk_threads ?s' = tk_threads s4" by simp
  have "runnable ?s' w = runnable s w" for w
    using run [of w] by (simp add: runnable_def stopping_def stopped_def thread_status_def)
  then have "round ?s' (v # vs @ [c])"
    using r h(2) s4 by (auto simp: round_def run_queue_def runnable_def idle_ready_def idle_thread_def proc_at_def)
  ultimately show ?thesis by blast
qed

primrec yields :: "nat \<Rightarrow> task_state \<Rightarrow> task_state outcome" where
  "yields 0 s = Done s"
| "yields (Suc n) s = and_then (process_yield s True) (yields n)"

lemma yields_rotate: "round s cs \<Longrightarrow> 2 \<le> length cs \<Longrightarrow> \<exists>s'. yields n s = Done s' \<and> round s' (rotate n cs)"
proof (induction n arbitrary: s cs)
  case 0
  then show ?case by simp
next
  case (Suc n)
  then obtain c v vs where cs: "cs = c # v # vs" by (metis Suc_le_length_iff numeral_2_eq_2)
  with process_yield_round Suc.prems(1) obtain s1 where s1: "process_yield s True = Done s1" "round s1 (rotate1 cs)" by force
  from Suc.IH [OF s1(2)] Suc.prems(2) obtain s' where "yields n s1 = Done s'" "round s' (rotate n (rotate1 cs))" by auto
  with s1(1) show ?case by (auto simp: rotate1_rotate_swap)
qed

text \<open>
  C23: No runnable thread starves: with at least one other thread queued and every thread able to run,
  each \<open>process_yield\<close> with rescheduling gives the CPU to the next thread of the queue and puts the
  running one at its end, so that the thread at position \<open>i\<close> runs after \<open>i\<close> yields, and after as many
  as there are threads the first one runs again.
\<close>

theorem process_yield_no_starvation:
  assumes "round s cs" "2 \<le> length cs"
  shows "(\<forall>i<length cs. \<exists>s'. yields i s = Done s' \<and> cpu_current_thread (tk_cpu s') = cs ! i) \<and>
         (\<exists>s'. yields (length cs) s = Done s' \<and> round s' cs)"
proof (intro conjI allI impI)
  fix i assume i: "i < length cs"
  from yields_rotate [OF assms, of i] obtain s' where "yields i s = Done s'" "round s' (rotate i cs)" by blast
  moreover have "cs \<noteq> []" using i by auto
  then have "hd (rotate i cs) = cs ! i" using i by (simp add: hd_rotate_conv_nth)
  ultimately show "\<exists>s'. yields i s = Done s' \<and> cpu_current_thread (tk_cpu s') = cs ! i" by (auto simp: round_def)
next
  show "\<exists>s'. yields (length cs) s = Done s' \<and> round s' cs" using yields_rotate [OF assms, of "length cs"] by simp
qed

theorem process_yield_no_starvation_witness:
  "\<exists>s'. yields 2 (task_small 4 4) = Done s' \<and> cpu_current_thread (tk_cpu s') = 11"
proof -
  have "round (task_small 4 4) [14, 10, 11]"
    using task_small_ready(1) [of 4 4] task_small_ready(2) [of 4 4]
    by (auto simp: round_def run_queue_def runnable_def stopping_def stopped_def thread_status_def task_small_def thread_with_def
        has_bits_def THREAD_STATUS_STOPPING_def THREAD_STATUS_STOPPED_def THREAD_STATUS_SLEEPING_def)
  from process_yield_no_starvation [OF this] have
    "\<forall>i<3. \<exists>s'. yields i (task_small 4 4) = Done s' \<and> cpu_current_thread (tk_cpu s') = [14, 10, 11] ! i" by simp
  from spec [OF this, of 2] show ?thesis by simp
qed

section \<open>Which identifiers are given out\<close>

definition pid_used :: "task_state \<Rightarrow> nat \<Rightarrow> bool" where
  "pid_used s p \<longleftrightarrow> bit (pid_bitmap_of s ! (p div 32)) (p mod 32)"

definition pid_bitmap_ok :: "task_state \<Rightarrow> bool" where
  "pid_bitmap_ok s \<longleftrightarrow> length (pid_bitmap_of s) = 256"

lemma bit_of_bit: "bit (2 ^ j :: u32) k \<longleftrightarrow> k = j \<and> j < 32"
  by (auto simp: bit_exp_iff)

lemma word_bit_clear: "j < 32 \<Longrightarrow> (w :: u32) AND 2 ^ j = 0 \<longleftrightarrow> \<not> bit w j"
  by (auto simp: word_zero_bits bit_and_iff bit_of_bit)

lemma pid_word_search_None: "pid_word_search i w = Done None \<longleftrightarrow> (\<forall>j<32. bit w j)"
proof -
  have "(if w AND 2 ^ j = 0 then Done (Some (i, j)) else Done None) = (if bit w j then Done None else Done (Some (i, j)))"
    if "j < 32" for j using that by (simp add: word_bit_clear)
  then show ?thesis by (auto simp: pid_word_search_def search_None_iff)
qed

lemma pid_word_search_Some:
  assumes "j < 32" "\<not> bit w j" "\<forall>k<j. bit w k"
  shows "pid_word_search i w = Done (Some (i, j))"
proof -
  let ?t = "\<lambda>j. if w AND push_bit j 1 = 0 then Done (Some (i, j)) else Done None"
  have "search ?t 0 32 = ?t j" by (rule search_first) (use assms in \<open>auto simp: word_bit_clear\<close>)
  with assms show ?thesis by (simp add: pid_word_search_def word_bit_clear)
qed

lemma pid_bits_set:
  assumes "i < length bm" "j < 32" "q div 32 < length bm"
  shows "bit ((bm[i := bm ! i OR push_bit j (1 :: u32)]) ! (q div 32)) (q mod 32) \<longleftrightarrow> q = i * 32 + j \<or> bit (bm ! (q div 32)) (q mod 32)"
proof (cases "q div 32 = i")
  case True
  have "q = i * 32 + j \<longleftrightarrow> q mod 32 = j"
  proof
    assume "q = i * 32 + j"
    then show "q mod 32 = j" using assms(2) by simp
  next
    assume "q mod 32 = j"
    then show "q = i * 32 + j" using True div_mult_mod_eq [of q 32] by simp
  qed
  moreover have "bit (push_bit j (1 :: u32)) (q mod 32) \<longleftrightarrow> q mod 32 = j" using assms by (auto simp: bit_of_bit)
  ultimately show ?thesis using True assms by (auto simp: bit_or_iff)
next
  case False
  then have "q \<noteq> i * 32 + j" using assms(2) by auto
  with False show ?thesis by simp
qed

lemma process_allocatePID_first:
  assumes "pid_bitmap_ok s" "p < 8192" "\<not> pid_used s p" "\<forall>q<p. pid_used s q"
  shows "\<exists>s'. process_allocatePID s = Done (int p, s') \<and> pid_bitmap_ok s' \<and> (\<forall>q<8192. pid_used s' q \<longleftrightarrow> q = p \<or> pid_used s q)"
proof -
  let ?bm = "pid_bitmap_of s" and ?i = "p div 32" and ?j = "p mod 32"
  let ?t = "\<lambda>i. and_then (array_get ?bm i) (pid_word_search i)"
  have len: "length ?bm = 256" using assms(1) by (simp add: pid_bitmap_ok_def)
  have i: "?i < 256" using assms(2) by auto
  have full: "?t k = Done None" if "k < ?i" for k
  proof -
    have "bit (?bm ! k) j" if "j < 32" for j
    proof -
      have "k * 32 + j < ?i * 32" using \<open>k < ?i\<close> that by auto
      also have "\<dots> \<le> p" by simp
      finally have "pid_used s (k * 32 + j)" using assms(4) by simp
      then show ?thesis using that by (simp add: pid_used_def)
    qed
    moreover have "k < 256" using \<open>k < ?i\<close> i by simp
    ultimately show ?thesis using len by (simp add: pid_word_search_None)
  qed
  have here: "?t ?i = Done (Some (?i, ?j))"
  proof -
    have "bit (?bm ! ?i) k" if "k < ?j" for k
    proof -
      have "?i * 32 + k < p" using that by (metis add_less_cancel_left div_mult_mod_eq)
      then have "pid_used s (?i * 32 + k)" using assms(4) by simp
      moreover have "k < 32" using that by simp
      ultimately show ?thesis by (simp add: pid_used_def)
    qed
    then show ?thesis using assms(3) i len by (simp add: pid_word_search_Some pid_used_def)
  qed
  have "search ?t 0 PROCESS_PID_BITMAP_SIZE = ?t ?i"
    by (rule search_first) (use full here i in \<open>auto simp: PROCESS_PID_BITMAP_SIZE_def\<close>)
  then have "process_allocatePID s = Done (int p, s\<lparr>tk_pid_bitmap := Some (?bm[?i := ?bm ! ?i OR push_bit ?j 1])\<rparr>)"
  proof -
    have "int (?i * 32 + ?j) = int p" by simp
    with \<open>search ?t 0 _ = _\<close> here show ?thesis by (simp only: process_allocatePID_def Let_def and_then.simps option.case prod.case)
  qed
  moreover have "?i * 32 + ?j = p" by simp
  ultimately show ?thesis
    using pid_bits_set [of ?i ?bm ?j] i len by (auto simp: pid_bitmap_ok_def pid_bitmap_of_def pid_used_def)
qed

lemma process_allocatePID_exhausted:
  assumes "pid_bitmap_ok s" "\<forall>q<8192. pid_used s q"
  shows "process_allocatePID s = Fault OutOfBounds"
proof -
  let ?bm = "pid_bitmap_of s"
  let ?t = "\<lambda>i. and_then (array_get ?bm i) (pid_word_search i)"
  have len: "length ?bm = 256" using assms(1) by (simp add: pid_bitmap_ok_def)
  have full: "?t k = Done None" if "k < 256" for k
  proof -
    have "bit (?bm ! k) j" if "j < 32" for j
    proof -
      have "k * 32 + j < 8192" using \<open>k < 256\<close> that by auto
      then have "pid_used s (k * 32 + j)" using assms(2) by simp
      then show ?thesis using that by (simp add: pid_used_def)
    qed
    then show ?thesis using that len by (simp add: pid_word_search_None)
  qed
  have "?t 256 = Fault OutOfBounds" using len by (simp add: array_get_def)
  moreover have "search ?t 0 PROCESS_PID_BITMAP_SIZE = ?t 256"
    by (rule search_first) (use full calculation in \<open>auto simp: PROCESS_PID_BITMAP_SIZE_def\<close>)
  ultimately show ?thesis by (simp add: process_allocatePID_def)
qed

text \<open>
  \<open>process_allocatePID\<close> gives out the smallest free identifier and marks exactly it; but the bitmap
  has room for 8192 of the 32768 identifiers the search walks through, so that with the first 8192 in
  use it reads past the allocation instead of panicking.
\<close>

lemma process_allocatePID_least:
  assumes "pid_bitmap_ok s"
  shows "if \<exists>p<8192. \<not> pid_used s p
         then \<exists>s'. process_allocatePID s = Done (int (LEAST p. \<not> pid_used s p), s') \<and> pid_bitmap_ok s' \<and>
                (\<forall>q<8192. pid_used s' q \<longleftrightarrow> q = (LEAST p. \<not> pid_used s p) \<or> pid_used s q)
         else process_allocatePID s = Fault OutOfBounds"
proof (cases "\<exists>p<8192. \<not> pid_used s p")
  case True
  note l = least_free_below [OF True]
  have "\<forall>q<LEAST p. \<not> pid_used s p. pid_used s q" using not_less_Least by blast
  from process_allocatePID_first [OF assms l this] True show ?thesis by (simp only: if_True)
next
  case False
  then have "process_allocatePID s = Fault OutOfBounds" by (intro process_allocatePID_exhausted [OF assms]) auto
  with False show ?thesis by (simp only: if_False)
qed

text \<open>
  \<open>process_freePID\<close> frees only the first 32 identifiers: from 32 to 255 it clears the bit of another
  identifier, \<open>32 \<cdot> 32 \<cdot> (pid div 32) + pid mod 32\<close>, and leaves the given one in use; from 256 on it
  writes outside the bitmap.
\<close>

lemma process_freePID_wrong_word:
  assumes "tk_pid_bitmap s = Some bm" "length bm = 256"
  shows "(p < 256 \<longrightarrow> (\<exists>s'. process_freePID s (int p) = Done s' \<and>
            (\<forall>q<8192. pid_used s' q \<longleftrightarrow> q \<noteq> 1024 * (p div 32) + p mod 32 \<and> pid_used s q))) \<and>
         (256 \<le> p \<longrightarrow> process_freePID s (int p) = Fault OutOfBounds)"
proof -
  have idx: "int p sdiv 32 * 32 = int (p div 32 * 32)" by (simp add: sdiv_nonneg zdiv_int)
  have off: "nat (int p - int (p div 32 * 32)) = p mod 32" by (simp add: minus_div_mult_eq_mod [symmetric])
  let ?i = "p div 32 * 32" and ?j = "p mod 32"
  have eq: "process_freePID s (int p) =
      and_then (array_get bm ?i) (\<lambda>w. and_then (array_set bm ?i (w AND NOT (push_bit ?j 1))) (\<lambda>bm'. Done (s\<lparr>tk_pid_bitmap := Some bm'\<rparr>)))"
    unfolding process_freePID_def assms(1) option.case idx Let_def off nat_int by (simp only: of_nat_less_0_iff if_False)
  show ?thesis
  proof (intro conjI impI)
    assume "p < 256"
    then have i: "?i < 256" by auto
    let ?s' = "s\<lparr>tk_pid_bitmap := Some (bm[?i := bm ! ?i AND NOT (push_bit ?j 1)])\<rparr>"
    have "process_freePID s (int p) = Done ?s'" using i assms(2) by (simp add: eq)
    moreover have "pid_used ?s' q \<longleftrightarrow> q \<noteq> 1024 * (p div 32) + p mod 32 \<and> pid_used s q" if "q < 8192" for q
    proof -
      have "q = 1024 * (p div 32) + ?j \<longleftrightarrow> q div 32 = ?i \<and> q mod 32 = ?j"
      proof
        assume "q = 1024 * (p div 32) + ?j"
        then have "q = ?j + 32 * ?i" by simp
        then show "q div 32 = ?i \<and> q mod 32 = ?j" by (simp only: div_mult_self2 mod_mult_self2) simp
      next
        assume "q div 32 = ?i \<and> q mod 32 = ?j"
        then show "q = 1024 * (p div 32) + ?j" using div_mult_mod_eq [of q 32] by linarith
      qed
      moreover have "bit (push_bit ?j (1 :: u32)) (q mod 32) \<longleftrightarrow> q mod 32 = ?j" using assms by (auto simp: bit_of_bit)
      ultimately show ?thesis using i assms
        by (cases "q div 32 = ?i") (auto simp: pid_used_def pid_bitmap_of_def bit_and_iff bit_not_iff)
    qed
    ultimately show "\<exists>s'. process_freePID s (int p) = Done s' \<and>
        (\<forall>q<8192. pid_used s' q \<longleftrightarrow> q \<noteq> 1024 * (p div 32) + p mod 32 \<and> pid_used s q)" by blast
  next
    assume "256 \<le> p"
    then have "256 div 32 \<le> p div 32" by (rule div_le_mono)
    then have "256 \<le> ?i" by simp
    then show "process_freePID s (int p) = Fault OutOfBounds" using assms(2) by (simp add: eq array_get_def)
  qed
qed

end
