(* ===== verification/Vfs_Path.thy ===== *)
theory Vfs_Path
  imports Libc_String
begin

text \<open>
  Paths of \<open>hexahedron/fs/vfs.c\<close>: the tokens that the loops on \<open>strtok_r(path, "/", &save)\<close> see, and
  \<open>vfs_canonicalizePath\<close>.
\<close>

section \<open>Tokens\<close>

definition read_str :: "mem \<Rightarrow> nat \<Rightarrow> string outcome" where
  "read_str m a = and_then (strlen m a) (\<lambda>n. Done (slice m a n))"

text \<open>
  The tokens of the loop \<^verbatim>\<open>pch = strtok_r(path, "/", &save); while (pch) { ...; pch = strtok_r(NULL, "/", &save); }\<close>,
  for loop bodies that leave the string alone. A string of \<open>n\<close> characters has fewer than \<open>n + 1\<close> tokens.
\<close>

primrec strtok_loop :: "nat \<Rightarrow> mem \<Rightarrow> nat option \<Rightarrow> nat \<Rightarrow> nat option \<Rightarrow> string list outcome" where
  "strtok_loop 0 m str seps save = Hang"
| "strtok_loop (Suc n) m str seps save =
     and_then (strtok_r m str seps save) (\<lambda>(pch, m', save').
     case pch of
       None \<Rightarrow> Done []
     | Some a \<Rightarrow>
         and_then (read_str m' a) (\<lambda>t.
         and_then (strtok_loop n m' None seps save') (\<lambda>ts. Done (t # ts))))"

definition path_tokens :: "string \<Rightarrow> string list outcome" where
  "path_tokens path = strtok_loop (length path + 1) (path @ NUL # ''/'' @ [NUL]) (Some 0) (length path + 1) None"

section \<open>Canonical paths\<close>

text \<open>
  The body of the loop on the list of components and \<open>path_size\<close>. Going up frees the list node and
  then reads its value: with a \<open>checked\<close> heap that is a fault, otherwise the memory is still there.
\<close>

definition canon_step :: "bool \<Rightarrow> string list \<times> nat \<Rightarrow> string \<Rightarrow> (string list \<times> nat) outcome" where
  "canon_step checked acc pch = (case acc of (xs, path_size) \<Rightarrow>
     if pch = ''..'' then
       if xs = [] then Done (xs, path_size)
       else if checked then Fault BadPointer
       else Done (butlast xs, path_size)
     else if pch = ''.'' then Done (xs, path_size)
     else if pch \<noteq> [] then Done (xs @ [pch], path_size + length pch + 1)
     else Done (xs, path_size))"

primrec canon_loop :: "bool \<Rightarrow> string list \<times> nat \<Rightarrow> string list \<Rightarrow> (string list \<times> nat) outcome" where
  "canon_loop checked acc [] = Done acc"
| "canon_loop checked acc (pch # ts) = and_then (canon_step checked acc pch) (\<lambda>acc'. canon_loop checked acc' ts)"

text \<open>\<^verbatim>\<open>sprintf(output, "%s/%s", output, i->value)\<close> for each element.\<close>

definition canon_output :: "string list \<Rightarrow> string" where
  "canon_output xs = foldl (\<lambda>output v. output @ ''/'' @ v) [] xs"

text \<open>
  The joined path is written into a block that is one byte too small for its terminator, which a
  \<open>checked\<close> heap reports. \<open>cwd[strlen(cwd) - 1]\<close> needs a nonempty \<open>cwd\<close>.
\<close>

definition canon_raw :: "bool \<Rightarrow> string \<Rightarrow> string \<Rightarrow> string outcome" where
  "canon_raw checked cwd addition =
     (if addition \<noteq> [] \<and> hd addition = CHR ''/'' then Done addition
      else if cwd = [] \<or> checked then Fault OutOfBounds
      else if last cwd = CHR ''/'' then Done (cwd @ addition)
      else Done (cwd @ ''/'' @ addition))"

definition vfs_canonicalizePath :: "bool \<Rightarrow> string \<Rightarrow> string \<Rightarrow> string outcome" where
  "vfs_canonicalizePath checked cwd addition =
     and_then (canon_raw checked cwd addition) (\<lambda>raw.
     and_then (path_tokens raw) (\<lambda>ts.
     and_then (canon_loop checked ([], 0) ts) (\<lambda>(xs, path_size).
     Done (if path_size = 0 then ''/'' else canon_output xs))))"

section \<open>The tokens of a path\<close>

lemma after_slashes: "dropWhile (\<lambda>c. c = CHR ''/'') s \<noteq> [] \<Longrightarrow> hd (dropWhile (\<lambda>c. c = CHR ''/'') s) \<noteq> CHR ''/''"
  by (rule hd_dropWhile)

text \<open>The components between the slashes.\<close>

function split_path :: "string \<Rightarrow> string list" where
  "split_path s = (let r = dropWhile (\<lambda>c. c = CHR ''/'') s in
     if r = [] then [] else takeWhile (\<lambda>c. c \<noteq> CHR ''/'') r # split_path (dropWhile (\<lambda>c. c \<noteq> CHR ''/'') r))"
  by pat_completeness auto
termination
proof (relation "measure length", simp, goal_cases)
  case (1 s r)
  then have "r = dropWhile (\<lambda>c. c = CHR ''/'') s" "r \<noteq> []" by simp_all
  then have "hd r \<noteq> CHR ''/''" using after_slashes [of s] by simp
  with \<open>r \<noteq> []\<close> obtain c r' where "r = c # r'" "c \<noteq> CHR ''/''" by (cases r) auto
  then have "length (dropWhile (\<lambda>c. c \<noteq> CHR ''/'') r) < length r" by (simp add: le_imp_less_Suc length_dropWhile_le)
  also have "length r \<le> length s" using 1(1) length_dropWhile_le by metis
  finally show ?case by simp
qed

declare split_path.simps [simp del]

definition component :: "string \<Rightarrow> bool" where
  "component c \<longleftrightarrow> c \<noteq> [] \<and> CHR ''/'' \<notin> set c"

lemma split_path_Nil [simp]: "split_path [] = []"
  by (simp add: split_path.simps)

lemma split_path_slash [simp]: "split_path (CHR ''/'' # s) = split_path s"
  by (subst (1 2) split_path.simps) (simp add: Let_def)

lemma split_path_component:
  assumes "component c" "s = [] \<or> hd s = CHR ''/''"
  shows "split_path (c @ s) = c # split_path s"
proof -
  have c: "c \<noteq> []" "hd c \<noteq> CHR ''/''" "\<forall>x\<in>set c. x \<noteq> CHR ''/''" using assms(1) by (cases c; auto simp: component_def)+
  have "dropWhile (\<lambda>x. x = CHR ''/'') (c @ s) = c @ s" using c by (cases c) auto
  moreover have "takeWhile (\<lambda>x. x \<noteq> CHR ''/'') (c @ s) = c" "dropWhile (\<lambda>x. x \<noteq> CHR ''/'') (c @ s) = s"
    using c(3) assms(2) by (cases s; simp add: takeWhile_append dropWhile_append)+
  ultimately show ?thesis using c(1) by (subst split_path.simps) simp
qed

lemma split_path_join: "list_all component cs \<Longrightarrow> split_path (concat (map (\<lambda>c. CHR ''/'' # c) cs)) = cs"
proof (induction cs)
  case (Cons c cs)
  have "concat (map (\<lambda>c. CHR ''/'' # c) cs) = [] \<or> hd (concat (map (\<lambda>c. CHR ''/'' # c) cs)) = CHR ''/''" by (cases cs) auto
  with Cons show ?case by (simp add: split_path_component)
qed simp

lemma split_path_components: "list_all component (split_path s)"
proof (induction s rule: split_path.induct)
  case (1 s)
  let ?r = "dropWhile (\<lambda>c. c = CHR ''/'') s"
  show ?case
  proof (cases "?r = []")
    case True
    then show ?thesis by (subst split_path.simps) simp
  next
    case False
    then have "hd ?r \<noteq> CHR ''/''" by (rule after_slashes)
    with False have "component (takeWhile (\<lambda>c. c \<noteq> CHR ''/'') ?r)"
      by (cases ?r) (auto simp: component_def dest: set_takeWhileD)
    with 1 [OF refl False] False show ?thesis by (subst split_path.simps) (simp add: Let_def)
  qed
qed

lemma split_path_not_NUL: "NUL \<notin> set s \<Longrightarrow> \<forall>c\<in>set (split_path s). NUL \<notin> set c"
proof (induction s rule: split_path.induct)
  case (1 s)
  let ?r = "dropWhile (\<lambda>c. c = CHR ''/'') s"
  have r: "NUL \<notin> set ?r" using 1(2) set_dropWhileD by metis
  then have "NUL \<notin> set (dropWhile (\<lambda>c. c \<noteq> CHR ''/'') ?r)" "NUL \<notin> set (takeWhile (\<lambda>c. c \<noteq> CHR ''/'') ?r)"
    using set_dropWhileD set_takeWhileD by metis+
  with 1(1) [OF refl] show ?case by (subst split_path.simps) (auto simp: Let_def)
qed

lemma split_path_length: "length (split_path s) \<le> length s"
proof (induction s rule: split_path.induct)
  case (1 s)
  let ?r = "dropWhile (\<lambda>c. c = CHR ''/'') s"
  show ?case
  proof (cases "?r = []")
    case False
    then have "hd ?r \<noteq> CHR ''/''" by (rule after_slashes)
    with False have "length (dropWhile (\<lambda>c. c \<noteq> CHR ''/'') ?r) < length ?r"
      by (cases ?r) (auto simp: le_imp_less_Suc length_dropWhile_le)
    with 1 [OF refl False] False length_dropWhile_le [of "\<lambda>c. c = CHR ''/''" s] show ?thesis
      by (subst split_path.simps) (simp add: Let_def)
  qed (simp add: split_path.simps)
qed


lemma strtok_r_save: "(if str = None then save else str) = Some p \<Longrightarrow> strtok_r m str q save = strtok_r m (Some p) q None"
  by (auto simp: strtok_r_def split: if_splits)

lemma split_path_step:
  assumes "dropWhile (\<lambda>c. c = CHR ''/'') s = r" "r \<noteq> []" "takeWhile (\<lambda>c. c \<noteq> CHR ''/'') r = tok"
  shows "split_path s = tok # split_path (drop (length tok + 1) r)"
proof -
  have d: "dropWhile (\<lambda>c. c \<noteq> CHR ''/'') r = drop (length tok) r" using assms(3) by (simp add: dropWhile_eq_drop)
  have "split_path (drop (length tok) r) = split_path (drop (length tok + 1) r)"
  proof (cases "drop (length tok) r")
    case Nil
    then show ?thesis by simp
  next
    case (Cons x t)
    with d have "dropWhile (\<lambda>c. c \<noteq> CHR ''/'') r = x # t" by simp
    then have "x = CHR ''/''" by (auto simp: dropWhile_eq_Cons_conv)
    moreover have "drop (length tok + 1) r = t" using Cons by (metis drop_Suc_Cons drop_drop drop0 One_nat_def add.commute)
    ultimately show ?thesis using Cons by simp
  qed
  with assms d show ?thesis by (subst split_path.simps) (simp add: Let_def)
qed

lemma read_str_spec: "cstr_at m a t \<Longrightarrow> read_str m a = Done t"
  by (simp add: read_str_def strlen_spec) (simp add: cstr_at_def slice_def)

lemma strtok_loop_spec:
  "cstr_at m p s \<Longrightarrow> cstr_at m q ''/'' \<Longrightarrow> p + length s < q \<Longrightarrow> (if str = None then save else str) = Some p \<Longrightarrow>
   length s < n \<Longrightarrow> strtok_loop n m str q save = Done (split_path s)"
proof (induction n arbitrary: m p s str save)
  case (Suc n)
  let ?r = "dropWhile (\<lambda>c. c = CHR ''/'') s" let ?tok = "takeWhile (\<lambda>c. c \<noteq> CHR ''/'') ?r"
  note save = strtok_r_save [OF Suc.prems(4)]
  have sep: "(\<lambda>x. x \<in> set ''/'') = (\<lambda>c. c = CHR ''/'')" "(\<lambda>x. x \<notin> set ''/'') = (\<lambda>c. c \<noteq> CHR ''/'')" by auto
  note spec = strtok_r_spec [OF Suc.prems(1,2) disjI2 [OF Suc.prems(3)], of None, unfolded sep]
  show ?case
  proof (cases "?r = []")
    case True
    with spec have "\<exists>e. strtok_r m (Some p) q None = Done (None, m, Some e)" unfolding if_P [OF True] by blast
    with save True show ?thesis by (auto simp: split_path.simps [of s])
  next
    case False
    from spec [unfolded if_not_P [OF False]] obtain a m' l' where t: "strtok_r m (Some p) q None = Done (Some a, m', l')"
      "a = p + (length s - length ?r)" "cstr_at m' a ?tok" "cstr_at m' q ''/''"
      "case l' of None \<Rightarrow> ?tok = ?r \<and> m' = m | Some e \<Rightarrow> ?tok \<noteq> ?r \<and> m' = m[a + length ?tok := NUL] \<and>
         e = a + length ?tok + 1 \<and> cstr_at m' e (drop (length ?tok + 1) ?r)"
      by blast
    note step = split_path_step [OF refl False refl]
    have len: "length ?r \<le> length s" by (rule length_dropWhile_le)
    have "length s > 0" using False by auto
    then obtain k where k: "n = Suc k" using Suc.prems(5) by (cases n) auto
    have "strtok_loop n m' None q l' = Done (split_path (drop (length ?tok + 1) ?r))"
    proof (cases l')
      case None
      with t(5) have eq: "?tok = ?r" by (simp only: option.case simp_thms)
      have "drop (length ?tok + 1) ?r = []" unfolding eq by (rule drop_all) simp
      with None k show ?thesis by (simp add: strtok_r_def)
    next
      case (Some e)
      from t(5) [unfolded Some option.case]
      have e: "e = a + length ?tok + 1" "cstr_at m' e (drop (length ?tok + 1) ?r)" by blast+
      have tl: "length ?tok \<le> length ?r" by (rule length_takeWhile_le)
      show ?thesis
      proof (rule Suc.IH [OF e(2) t(4)])
        have "length ?r > 0" using False by simp
        have ar: "a + length ?r = p + length s" using t(2) len by simp
        show "e + length (drop (length ?tok + 1) ?r) < q"
        proof (cases "length ?tok = length ?r")
          case True
          with e(1) ar Suc.prems(3) have "e \<le> q" by simp
          have "cstr_at m' e []" using e(2) True by simp
          then have "m' ! e = NUL" by (simp add: cstr_at_Nil)
          moreover have "m' ! q = CHR ''/''" using t(4) by (simp add: cstr_at_Cons)
          ultimately have "e \<noteq> q" by auto
          with \<open>e \<le> q\<close> True show ?thesis by simp
        next
          case False
          with tl have "length ?tok < length ?r" by simp
          with e(1) ar Suc.prems(3) show ?thesis by simp
        qed
        show "(if None = None then l' else None) = Some e" using Some by simp
        have "length ?r \<le> n" using len Suc.prems(5) by linarith
        with \<open>length ?r > 0\<close> show "length (drop (length ?tok + 1) ?r) < n" unfolding length_drop by linarith
      qed
    qed
    with save t(1) read_str_spec [OF t(3)] step show ?thesis by simp
  qed
qed simp

lemma path_tokens_spec: "NUL \<notin> set path \<Longrightarrow> path_tokens path = Done (split_path path)"
  unfolding path_tokens_def
  by (rule strtok_loop_spec [of _ 0]) (auto simp: cstr_at_def nth_append)


section \<open>Resolving components\<close>

text \<open>The meaning of a path: \<open>..\<close> takes back the component before it, \<open>.\<close> says nothing.\<close>

definition dots :: "string \<Rightarrow> bool" where
  "dots c \<longleftrightarrow> c = ''.'' \<or> c = ''..''"

primrec resolve :: "string list \<Rightarrow> string list \<Rightarrow> string list" where
  "resolve xs [] = xs"
| "resolve xs (c # cs) = resolve (if c = ''..'' then butlast xs else if c = ''.'' then xs else xs @ [c]) cs"

text \<open>Whether some \<open>..\<close> has a component to take back.\<close>

primrec goes_up :: "string list \<Rightarrow> string list \<Rightarrow> bool" where
  "goes_up xs [] = False"
| "goes_up xs (c # cs) =
     ((c = ''..'' \<and> xs \<noteq> []) \<or> goes_up (if c = ''..'' then butlast xs else if c = ''.'' then xs else xs @ [c]) cs)"

lemma canon_loop_spec:
  "list_all component ts \<Longrightarrow>
   canon_loop checked (xs, n) ts =
     (if checked \<and> goes_up xs ts then Fault BadPointer
      else Done (resolve xs ts, n + (\<Sum>t\<leftarrow>filter (\<lambda>t. \<not> dots t) ts. length t + 1)))"
  by (induction ts arbitrary: xs n) (auto simp: canon_step_def dots_def component_def)

lemma resolve_components:
  "list_all (\<lambda>c. component c \<and> \<not> dots c) xs \<Longrightarrow> list_all component ts \<Longrightarrow> list_all (\<lambda>c. component c \<and> \<not> dots c) (resolve xs ts)"
proof (induction ts arbitrary: xs)
  case (Cons t ts)
  have "list_all (\<lambda>c. component c \<and> \<not> dots c) (butlast xs)"
    using Cons.prems(1) in_set_butlastD [of _ xs] unfolding list_all_iff by blast
  then have "list_all (\<lambda>c. component c \<and> \<not> dots c) (if t = ''..'' then butlast xs else if t = ''.'' then xs else xs @ [t])"
    using Cons.prems by (simp add: dots_def)
  with Cons.IH Cons.prems(2) show ?case by simp
qed simp

lemma set_resolve: "set (resolve xs ts) \<subseteq> set xs \<union> set ts"
proof (induction ts arbitrary: xs)
  case (Cons t ts)
  let ?xs = "if t = ''..'' then butlast xs else if t = ''.'' then xs else xs @ [t]"
  have "set ?xs \<subseteq> set xs \<union> {t}" using in_set_butlastD [of _ xs] by auto
  with Cons.IH [of ?xs] show ?case by auto
qed simp

lemma canon_output_join: "canon_output xs = concat (map (\<lambda>c. CHR ''/'' # c) xs)"
proof -
  have "foldl (\<lambda>output v. output @ ''/'' @ v) a xs = a @ concat (map (\<lambda>c. CHR ''/'' # c) xs)" for a
    by (induction xs arbitrary: a) auto
  then show ?thesis by (simp add: canon_output_def)
qed

lemma resolve_plain: "list_all (\<lambda>c. \<not> dots c) ts \<Longrightarrow> resolve xs ts = xs @ ts \<and> \<not> goes_up xs ts"
  by (induction ts arbitrary: xs) (auto simp: dots_def)

lemma path_size_zero_iff: "(\<Sum>t\<leftarrow>ts. length t + 1) = (0 :: nat) \<longleftrightarrow> ts = []"
  by (cases ts) auto

definition joined :: "string \<Rightarrow> string \<Rightarrow> string" where
  "joined cwd addition =
     (if addition \<noteq> [] \<and> hd addition = CHR ''/'' then addition
      else if last cwd = CHR ''/'' then cwd @ addition else cwd @ ''/'' @ addition)"

lemma canonicalize_spec:
  assumes "NUL \<notin> set cwd" "NUL \<notin> set addition" "cwd \<noteq> []"
  defines "ts \<equiv> split_path (joined cwd addition)"
  shows "vfs_canonicalizePath checked cwd addition =
    (if checked \<and> \<not> (addition \<noteq> [] \<and> hd addition = CHR ''/'') then Fault OutOfBounds
     else if checked \<and> goes_up [] ts then Fault BadPointer
     else Done (if list_all dots ts then ''/'' else canon_output (resolve [] ts)))"
proof -
  have "NUL \<notin> set (joined cwd addition)" using assms(1,2) by (auto simp: joined_def)
  then have "path_tokens (joined cwd addition) = Done ts" unfolding ts_def by (rule path_tokens_spec)
  moreover have "list_all component ts" unfolding ts_def by (rule split_path_components)
  moreover have "filter (\<lambda>t. \<not> dots t) ts = [] \<longleftrightarrow> list_all dots ts" by (auto simp: filter_empty_conv list_all_iff)
  ultimately show ?thesis
    using assms(3) path_size_zero_iff [of "filter (\<lambda>t. \<not> dots t) ts"]
    by (auto simp: vfs_canonicalizePath_def canon_raw_def joined_def canon_loop_spec simp del: sum_list_eq_0_iff)
qed


section \<open>Properties\<close>

text \<open>
  C27: \<open>vfs_canonicalizePath\<close> gives the normal form of a path. Where the heap hides its two memory errors,
  the result has exactly the components that resolving \<open>.\<close> and \<open>..\<close> in the joined path leaves, none of
  them is \<open>.\<close> or \<open>..\<close>, and canonicalizing the result again gives it back (now without any memory
  error). The exception: when every component is taken back by a later \<open>..\<close>, the result is the empty
  string instead of the root.
\<close>

theorem vfs_canonicalizePath_normal_form:
  assumes "NUL \<notin> set cwd" "NUL \<notin> set addition" "cwd \<noteq> []"
  shows "\<exists>r. vfs_canonicalizePath False cwd addition = Done r \<and>
           split_path r = resolve [] (split_path (joined cwd addition)) \<and> list_all (\<lambda>c. \<not> dots c) (split_path r) \<and>
           (r \<noteq> [] \<longrightarrow> vfs_canonicalizePath True cwd r = Done r) \<and>
           (r = [] \<longleftrightarrow> resolve [] (split_path (joined cwd addition)) = [] \<and> \<not> list_all dots (split_path (joined cwd addition)))"
proof -
  let ?ts = "split_path (joined cwd addition)"
  define r where "r = (if list_all dots ?ts then ''/'' else canon_output (resolve [] ?ts))"
  have res: "list_all (\<lambda>c. component c \<and> \<not> dots c) (resolve [] ?ts)"
    by (rule resolve_components) (simp_all add: split_path_components)
  have dots: "list_all dots ts \<Longrightarrow> resolve [] ts = []" for ts by (induction ts) (auto simp: dots_def)
  have "list_all component (resolve [] ?ts)" using res by (auto simp: list_all_iff)
  then have split: "split_path r = resolve [] ?ts"
    using dots [of ?ts] by (simp add: r_def canon_output_join split_path_join)
  have plain: "list_all (\<lambda>c. \<not> dots c) (split_path r)" unfolding split using res by (auto simp: list_all_iff)
  have empty: "r = [] \<longleftrightarrow> resolve [] ?ts = [] \<and> \<not> list_all dots ?ts"
    by (cases "resolve [] ?ts") (auto simp: r_def canon_output_join)
  have again: "vfs_canonicalizePath True cwd r = Done r" if "r \<noteq> []"
  proof -
    have abs: "hd r = CHR ''/''" using that by (cases "resolve [] ?ts") (auto simp: r_def canon_output_join split: if_splits)
    have "NUL \<notin> set (joined cwd addition)" using assms(1,2) by (auto simp: joined_def)
    then have "NUL \<notin> set r" using split_path_not_NUL [of "joined cwd addition"] set_resolve [of "[]" ?ts]
      by (auto simp: r_def canon_output_join)
    moreover have "joined cwd r = r" using that abs by (simp add: joined_def)
    moreover have "(if list_all dots (split_path r) then ''/'' else canon_output (split_path r)) = r"
    proof (cases "list_all dots ?ts")
      case True
      then show ?thesis by (simp add: r_def)
    next
      case False
      with empty that have "resolve [] ?ts \<noteq> []" by simp
      with plain split have "\<not> list_all dots (split_path r)" by (cases "resolve [] ?ts") auto
      then show ?thesis using split False by (simp add: r_def)
    qed
    moreover have "resolve [] (split_path r) = split_path r" "\<not> goes_up [] (split_path r)"
      using resolve_plain [OF plain, of "[]"] by simp_all
    ultimately show ?thesis using canonicalize_spec [OF assms(1) _ assms(3), of r True] that abs
      by (cases "list_all dots (split_path r)") simp_all
  qed
  have "vfs_canonicalizePath False cwd addition = Done r" using canonicalize_spec [OF assms, of False] by (simp add: r_def)
  with split plain empty again show ?thesis by blast
qed

theorem vfs_canonicalizePath_normal_form_witness:
  "(\<exists>r. vfs_canonicalizePath False ''/home/blah'' ''../other/./gk'' = Done r \<and> split_path r = [''home'', ''other'', ''gk'']) \<and>
   vfs_canonicalizePath False ''/home'' ''/a/..'' = Done []"
proof
  have "split_path (joined ''/home/blah'' ''../other/./gk'') = [''home'', ''blah'', ''..'', ''other'', ''.'', ''gk'']"
    by (simp add: joined_def split_path.simps)
  with vfs_canonicalizePath_normal_form [of "''/home/blah''" "''../other/./gk''"]
  show "\<exists>r. vfs_canonicalizePath False ''/home/blah'' ''../other/./gk'' = Done r \<and> split_path r = [''home'', ''other'', ''gk'']"
    by auto
  have "split_path (joined ''/home'' ''/a/..'') = [''a'', ''..'']" by (simp add: joined_def split_path.simps)
  with vfs_canonicalizePath_normal_form [of "''/home''" "''/a/..''"]
  show "vfs_canonicalizePath False ''/home'' ''/a/..'' = Done []" by (auto simp: dots_def)
qed

text \<open>
  The two memory errors of \<open>vfs_canonicalizePath\<close>, on a heap that notices them. Every relative path is
  joined in a block one byte too small, and an absolute path faults exactly when some \<open>..\<close> has a component
  to take back, because its list node is read after it was freed.
\<close>

lemma vfs_canonicalizePath_memory_errors:
  assumes "NUL \<notin> set cwd" "NUL \<notin> set addition" "cwd \<noteq> []"
  shows "if addition \<noteq> [] \<and> hd addition = CHR ''/'' then
           vfs_canonicalizePath True cwd addition = Fault BadPointer \<longleftrightarrow> goes_up [] (split_path addition)
         else vfs_canonicalizePath True cwd addition = Fault OutOfBounds"
  using canonicalize_spec [OF assms, of True] by (auto simp: joined_def)

end
