(* ===== verification/KHashmap.thy ===== *)
theory KHashmap
  imports Libc_String "HOL-Library.AList"
begin

text \<open>
  \<open>libkstructures/hashmap/hashmap.c\<close>: chained hash tables keyed by strings or integers. The entries of
  a bucket are only reachable through the table, so a chain is the list of its entries in order.
  Values are of any type; a lookup that finds nothing (NULL) is \<open>None\<close>.
\<close>

section \<open>Data\<close>

datatype hm_type = HASHMAP_PTR | HASHMAP_INT

datatype hm_key = IntKey u64 | StrKey string

record 'v hashmap_t =
  hm_type :: hm_type
  hm_name :: string
  hm_size :: u64
  hm_entries :: "(hm_key \<times> 'v) list list"

text \<open>\<open>int c = *key++\<close> is a signed char widened to an int; the sum is 64-bit.\<close>

fun hashmap_hash_loop :: "u64 \<Rightarrow> string \<Rightarrow> u64" where
  "hashmap_hash_loop hash [] = hash"
| "hashmap_hash_loop hash (c # key) =
     hashmap_hash_loop (of_int (schar c) + push_bit 6 hash + push_bit 16 hash - hash) key"

definition hashmap_hash :: "string \<Rightarrow> u64" where
  "hashmap_hash key = hashmap_hash_loop 0 key"

definition hashmap_create :: "string \<Rightarrow> u64 \<Rightarrow> 'v hashmap_t" where
  "hashmap_create name sz = \<lparr>hm_type = HASHMAP_PTR, hm_name = name, hm_size = sz,
                             hm_entries = replicate (unat sz) []\<rparr>"

definition hashmap_create_int :: "string \<Rightarrow> u64 \<Rightarrow> 'v hashmap_t" where
  "hashmap_create_int name sz = \<lparr>hm_type = HASHMAP_INT, hm_name = name, hm_size = sz,
                                 hm_entries = replicate (unat sz) []\<rparr>"

text \<open>
  The macros. A key of the other kind would be an integer dereferenced as a string, or a string's
  address taken as an integer: a fault here.
\<close>

definition HASHMAP_COMPARE :: "hm_type \<Rightarrow> hm_key \<Rightarrow> hm_key \<Rightarrow> bool outcome" where
  "HASHMAP_COMPARE ty a b = (case (ty, a, b) of
     (HASHMAP_INT, IntKey x, IntKey y) \<Rightarrow> Done (x = y)
   | (HASHMAP_PTR, StrKey s, StrKey t) \<Rightarrow>
       and_then (strncmp (s @ NUL # t @ [NUL]) 0 (length s + 1) 256) (\<lambda>r. Done (r = 0))
   | _ \<Rightarrow> Fault BadPointer)"

definition HASHMAP_HASH :: "hm_type \<Rightarrow> hm_key \<Rightarrow> u64 outcome" where
  "HASHMAP_HASH ty a = (case (ty, a) of
     (HASHMAP_INT, IntKey x) \<Rightarrow> Done x
   | (HASHMAP_PTR, StrKey s) \<Rightarrow> Done (hashmap_hash s)
   | _ \<Rightarrow> Fault BadPointer)"

text \<open>\<open>HASHMAP_HASH(key) % hashmap->size\<close> and the chain there.\<close>

definition hashmap_index :: "'v hashmap_t \<Rightarrow> hm_key \<Rightarrow> nat outcome" where
  "hashmap_index h key =
     and_then (HASHMAP_HASH (hm_type h) key) (\<lambda>x.
     if hm_size h = 0 then Fault DivideByZero else Done (unat (x mod hm_size h)))"

section \<open>Operations\<close>

text \<open>The \<open>do\<close> loop of \<open>hashmap_set\<close>: an entry with the key gets the value, or a new last entry does.\<close>

fun chain_set :: "hm_type \<Rightarrow> hm_key \<Rightarrow> 'v \<Rightarrow> (hm_key \<times> 'v) list \<Rightarrow> (hm_key \<times> 'v) list outcome" where
  "chain_set ty key v [] = Done [(key, v)]"
| "chain_set ty key v (entry # chain) =
     and_then (HASHMAP_COMPARE ty (fst entry) key) (\<lambda>eq.
     if eq then Done ((fst entry, v) # chain)
     else and_then (chain_set ty key v chain) (\<lambda>chain'. Done (entry # chain')))"

definition hashmap_set :: "'v hashmap_t option \<Rightarrow> hm_key \<Rightarrow> 'v \<Rightarrow> 'v hashmap_t option outcome" where
  "hashmap_set hm key v = (case hm of
     None \<Rightarrow> Done None
   | Some h \<Rightarrow>
       and_then (hashmap_index h key) (\<lambda>i.
       and_then (array_get (hm_entries h) i) (\<lambda>chain.
       and_then (chain_set (hm_type h) key v chain) (\<lambda>chain'.
       Done (Some (h\<lparr>hm_entries := (hm_entries h)[i := chain']\<rparr>))))))"

fun chain_get :: "hm_type \<Rightarrow> hm_key \<Rightarrow> (hm_key \<times> 'v) list \<Rightarrow> 'v option outcome" where
  "chain_get ty key [] = Done None"
| "chain_get ty key (entry # chain) =
     and_then (HASHMAP_COMPARE ty (fst entry) key) (\<lambda>eq.
     if eq then Done (Some (snd entry)) else chain_get ty key chain)"

definition hashmap_get :: "'v hashmap_t \<Rightarrow> hm_key \<Rightarrow> 'v option outcome" where
  "hashmap_get h key =
     and_then (hashmap_index h key) (\<lambda>i.
     and_then (array_get (hm_entries h) i) (\<lambda>chain. chain_get (hm_type h) key chain))"

text \<open>The removed value and the chain without its entry; \<open>None\<close> leaves the chain alone.\<close>

fun chain_remove :: "hm_type \<Rightarrow> hm_key \<Rightarrow> (hm_key \<times> 'v) list \<Rightarrow> ('v option \<times> (hm_key \<times> 'v) list) outcome" where
  "chain_remove ty key [] = Done (None, [])"
| "chain_remove ty key (entry # chain) =
     and_then (HASHMAP_COMPARE ty (fst entry) key) (\<lambda>eq.
     if eq then Done (Some (snd entry), chain)
     else and_then (chain_remove ty key chain) (\<lambda>(r, chain'). Done (r, entry # chain')))"

definition hashmap_remove :: "'v hashmap_t \<Rightarrow> hm_key \<Rightarrow> ('v option \<times> 'v hashmap_t) outcome" where
  "hashmap_remove h key =
     and_then (hashmap_index h key) (\<lambda>i.
     and_then (array_get (hm_entries h) i) (\<lambda>chain.
     and_then (chain_remove (hm_type h) key chain) (\<lambda>(r, chain').
     Done (r, h\<lparr>hm_entries := (hm_entries h)[i := chain']\<rparr>))))"

fun chain_has :: "hm_type \<Rightarrow> hm_key \<Rightarrow> (hm_key \<times> 'v) list \<Rightarrow> bool outcome" where
  "chain_has ty key [] = Done False"
| "chain_has ty key (entry # chain) =
     and_then (HASHMAP_COMPARE ty (fst entry) key) (\<lambda>eq.
     if eq then Done True else chain_has ty key chain)"

definition hashmap_has :: "'v hashmap_t \<Rightarrow> hm_key \<Rightarrow> bool outcome" where
  "hashmap_has h key =
     and_then (hashmap_index h key) (\<lambda>i.
     and_then (array_get (hm_entries h) i) (\<lambda>chain. chain_has (hm_type h) key chain))"

text \<open>What \<open>hashmap_keys\<close> and \<open>hashmap_values\<close> append to their new list, bucket by bucket.\<close>

definition hashmap_keys :: "'v hashmap_t \<Rightarrow> hm_key list" where
  "hashmap_keys h = concat (map (map fst) (hm_entries h))"

definition hashmap_values :: "'v hashmap_t \<Rightarrow> 'v list" where
  "hashmap_values h = concat (map (map snd) (hm_entries h))"

section \<open>Well-formed tables\<close>

text \<open>
  \<open>strncmp\<close> looks at 256 characters, so keys are told apart by comparison only up to that length
  (the hash looks at all of them).
\<close>

definition hm_key_ok :: "hm_type \<Rightarrow> hm_key \<Rightarrow> bool" where
  "hm_key_ok ty k = (case (ty, k) of
     (HASHMAP_INT, IntKey x) \<Rightarrow> True
   | (HASHMAP_PTR, StrKey s) \<Rightarrow> NUL \<notin> set s \<and> length s \<le> 256
   | _ \<Rightarrow> False)"

definition hm_bucket :: "'v hashmap_t \<Rightarrow> hm_key \<Rightarrow> nat" where
  "hm_bucket h k = unat ((case k of IntKey x \<Rightarrow> x | StrKey s \<Rightarrow> hashmap_hash s) mod hm_size h)"

definition hm_ok :: "'v hashmap_t \<Rightarrow> bool" where
  "hm_ok h \<longleftrightarrow> hm_size h \<noteq> 0 \<and> length (hm_entries h) = unat (hm_size h) \<and>
     (\<forall>i < length (hm_entries h). distinct (map fst (hm_entries h ! i)) \<and>
        (\<forall>k \<in> set (map fst (hm_entries h ! i)). hm_key_ok (hm_type h) k \<and> hm_bucket h k = i))"

definition hm_view :: "'v hashmap_t \<Rightarrow> hm_key \<rightharpoonup> 'v" where
  "hm_view h k = (if hm_key_ok (hm_type h) k then map_of (hm_entries h ! hm_bucket h k) k else None)"

lemma hm_compare_ok:
  assumes "hm_key_ok ty a" "hm_key_ok ty b"
  shows "HASHMAP_COMPARE ty a b = Done (a = b)"
proof (cases ty)
  case HASHMAP_INT
  with assms show ?thesis by (cases a; cases b) (auto simp: hm_key_ok_def HASHMAP_COMPARE_def)
next
  case HASHMAP_PTR
  with assms obtain s t where st: "a = StrKey s" "b = StrKey t" "NUL \<notin> set s" "NUL \<notin> set t"
    "length s \<le> 256" "length t \<le> 256"
    by (cases a; cases b) (auto simp: hm_key_ok_def)
  let ?m = "s @ NUL # t @ [NUL]"
  have "cstr_at ?m 0 s" "cstr_at ?m (length s + 1) t" using st by (auto simp: cstr_at_def nth_append)
  then have "strncmp ?m 0 (length s + 1) 256 = Done (str_diff s t)"
    using st by (simp add: strncmp_def strncmp_loop_spec)
  with st HASHMAP_PTR show ?thesis by (simp add: HASHMAP_COMPARE_def str_diff_zero)
qed

lemma hm_index_ok:
  assumes "hm_ok h" "hm_key_ok (hm_type h) k"
  shows "hashmap_index h k = Done (hm_bucket h k)" "hm_bucket h k < length (hm_entries h)"
proof -
  have "hm_size h \<noteq> 0" "length (hm_entries h) = unat (hm_size h)" using assms(1) by (auto simp: hm_ok_def)
  then show "hashmap_index h k = Done (hm_bucket h k)"
    using assms(2)
    by (cases k; cases "hm_type h") (auto simp: hashmap_index_def HASHMAP_HASH_def hm_bucket_def hm_key_ok_def)
  have "0 < unat (hm_size h)" using \<open>hm_size h \<noteq> 0\<close> by (simp add: unat_gt_0)
  then show "hm_bucket h k < length (hm_entries h)"
    using \<open>length (hm_entries h) = unat (hm_size h)\<close> by (simp add: hm_bucket_def unat_mod)
qed

lemma chain_set_ok:
  "hm_key_ok ty k \<Longrightarrow> \<forall>j\<in>set (map fst c). hm_key_ok ty j \<Longrightarrow> chain_set ty k v c = Done (AList.update k v c)"
  by (induction c) (auto simp: hm_compare_ok)

lemma chain_get_ok:
  "hm_key_ok ty k \<Longrightarrow> \<forall>j\<in>set (map fst c). hm_key_ok ty j \<Longrightarrow> chain_get ty k c = Done (map_of c k)"
  by (induction c) (auto simp: hm_compare_ok)

lemma chain_has_ok:
  "hm_key_ok ty k \<Longrightarrow> \<forall>j\<in>set (map fst c). hm_key_ok ty j \<Longrightarrow> chain_has ty k c = Done (map_of c k \<noteq> None)"
  by (induction c) (auto simp: hm_compare_ok)

lemma chain_remove_ok:
  "hm_key_ok ty k \<Longrightarrow> \<forall>j\<in>set (map fst c). hm_key_ok ty j \<Longrightarrow> distinct (map fst c) \<Longrightarrow>
   chain_remove ty k c = Done (map_of c k, AList.delete k c)"
proof (induction c)
  case Nil
  then show ?case by simp
next
  case (Cons e c)
  have "AList.delete (fst e) c = c" if "fst e \<notin> fst ` set c"
    using that by (simp add: delete_id)
  with Cons show ?case by (cases e) (auto simp: hm_compare_ok)
qed

section \<open>The dictionary contract\<close>

text \<open>What the clients of a table rely on, and what follows for a client that fills one.\<close>

primrec set_all :: "('m \<Rightarrow> 'k \<Rightarrow> 'v \<Rightarrow> 'm outcome) \<Rightarrow> 'm \<Rightarrow> ('k \<times> 'v) list \<Rightarrow> 'm outcome" where
  "set_all put m [] = Done m"
| "set_all put m (b # bs) = and_then (put m (fst b) (snd b)) (\<lambda>m'. set_all put m' bs)"

locale dictionary =
  fixes ok :: "'m \<Rightarrow> bool"
    and key_ok :: "'m \<Rightarrow> 'k \<Rightarrow> bool"
    and view :: "'m \<Rightarrow> 'k \<rightharpoonup> 'v"
    and put :: "'m \<Rightarrow> 'k \<Rightarrow> 'v \<Rightarrow> 'm outcome"
    and get :: "'m \<Rightarrow> 'k \<Rightarrow> 'v option outcome"
    and has :: "'m \<Rightarrow> 'k \<Rightarrow> bool outcome"
    and remove :: "'m \<Rightarrow> 'k \<Rightarrow> ('v option \<times> 'm) outcome"
  assumes put: "ok m \<Longrightarrow> key_ok m k \<Longrightarrow>
      \<exists>m'. put m k v = Done m' \<and> ok m' \<and> key_ok m' = key_ok m \<and> view m' = (view m)(k \<mapsto> v)"
    and get: "ok m \<Longrightarrow> key_ok m k \<Longrightarrow> get m k = Done (view m k)"
    and has: "ok m \<Longrightarrow> key_ok m k \<Longrightarrow> has m k = Done (view m k \<noteq> None)"
    and remove: "ok m \<Longrightarrow> key_ok m k \<Longrightarrow>
      \<exists>m'. remove m k = Done (view m k, m') \<and> ok m' \<and> key_ok m' = key_ok m \<and> view m' = (view m)(k := None)"
begin

lemma set_all:
  "ok m \<Longrightarrow> list_all (\<lambda>b. key_ok m (fst b)) bs \<Longrightarrow>
   \<exists>m'. set_all put m bs = Done m' \<and> ok m' \<and> key_ok m' = key_ok m \<and> view m' = view m ++ map_of (rev bs)"
proof (induction bs arbitrary: m)
  case Nil
  then show ?case by simp
next
  case (Cons b bs)
  with put [of m "fst b" "snd b"] obtain m1 where m1: "put m (fst b) (snd b) = Done m1" "ok m1"
    "key_ok m1 = key_ok m" "view m1 = (view m)(fst b \<mapsto> snd b)" by auto
  have "list_all (\<lambda>b. key_ok m1 (fst b)) bs" using Cons.prems(2) m1(3) by simp
  from Cons.IH [OF m1(2) this] m1(3) obtain m2 where "set_all put m1 bs = Done m2" "ok m2"
    "key_ok m2 = key_ok m" "view m2 = view m1 ++ map_of (rev bs)" by metis
  with m1 show ?case by (cases b) simp
qed

lemma get_after_set:
  assumes "ok m" "key_ok m k" "key_ok m j"
  shows "\<exists>m'. put m k v = Done m' \<and> ok m' \<and> get m' j = Done (if j = k then Some v else view m j)"
  using put [OF assms(1,2), of v] get assms(3) by fastforce

lemma get_after_remove:
  assumes "ok m" "key_ok m k" "key_ok m j"
  shows "\<exists>m'. remove m k = Done (view m k, m') \<and> ok m' \<and> get m' j = Done (if j = k then None else view m j) \<and>
           has m' k = Done False"
  using remove [OF assms(1,2)] get has assms(2,3) by fastforce

end

definition hashmap_put :: "'v hashmap_t \<Rightarrow> hm_key \<Rightarrow> 'v \<Rightarrow> 'v hashmap_t outcome" where
  "hashmap_put h k v = and_then (hashmap_set (Some h) k v) (\<lambda>r.
     case r of Some h' \<Rightarrow> Done h' | None \<Rightarrow> Fault BadPointer)"

lemma hm_chain:
  assumes "hm_ok h" "hm_key_ok (hm_type h) k"
  shows "\<forall>j\<in>set (map fst (hm_entries h ! hm_bucket h k)). hm_key_ok (hm_type h) j"
    "distinct (map fst (hm_entries h ! hm_bucket h k))"
  using hm_index_ok(2) [OF assms] assms(1) by (simp_all add: hm_ok_def)

lemma hm_bucket_update [simp]: "hm_bucket (h\<lparr>hm_entries := es\<rparr>) = hm_bucket h"
  by (simp add: fun_eq_iff hm_bucket_def)

text \<open>Replacing the chain of one bucket by one with the same or fewer old keys and at most the new one.\<close>

lemma hm_update_chain:
  assumes "hm_ok h" "hm_key_ok (hm_type h) k" "distinct (map fst c)"
    and keys: "fst ` set c \<subseteq> insert k (fst ` set (hm_entries h ! hm_bucket h k))"
    and m: "\<And>j. map_of c j = (if j = k then r else map_of (hm_entries h ! hm_bucket h k) j)"
  defines "h' \<equiv> h\<lparr>hm_entries := (hm_entries h)[hm_bucket h k := c]\<rparr>"
  shows "hm_ok h'" "hm_view h' = (hm_view h)(k := r)"
proof -
  note i = hm_index_ok(2) [OF assms(1,2)]
  have old: "hm_key_ok (hm_type h) j \<and> hm_bucket h j = hm_bucket h k"
    if "j \<in> fst ` set (hm_entries h ! hm_bucket h k)" for j
    using that i assms(1) by (auto simp: hm_ok_def)
  have new: "hm_key_ok (hm_type h) j \<and> hm_bucket h j = hm_bucket h k" if "j \<in> fst ` set c" for j
  proof (cases "j = k")
    case True
    with assms(2) show ?thesis by simp
  next
    case False
    with that keys have "j \<in> fst ` set (hm_entries h ! hm_bucket h k)" by blast
    then show ?thesis by (rule old)
  qed
  have "distinct (map fst (hm_entries h' ! j)) \<and>
      (\<forall>x\<in>fst ` set (hm_entries h' ! j). hm_key_ok (hm_type h) x \<and> hm_bucket h x = j)"
    if "j < length (hm_entries h)" for j
  proof (cases "j = hm_bucket h k")
    case True
    then have "hm_entries h' ! j = c" using i by (simp add: h'_def)
    with True assms(3) new show ?thesis by blast
  next
    case False
    then have "hm_entries h' ! j = hm_entries h ! j" by (simp add: h'_def)
    with that assms(1) show ?thesis by (simp add: hm_ok_def)
  qed
  moreover have "hm_size h \<noteq> 0" "length (hm_entries h) = unat (hm_size h)" using assms(1) by (simp_all add: hm_ok_def)
  ultimately show "hm_ok h'" by (simp add: hm_ok_def h'_def)
  have "hm_view h' j = ((hm_view h)(k := r)) j" for j
    using i assms(2) m [of j] by (auto simp: hm_view_def h'_def nth_list_update)
  then show "hm_view h' = (hm_view h)(k := r)" by blast
qed

interpretation hashmap: dictionary hm_ok "\<lambda>h. hm_key_ok (hm_type h)" hm_view
  hashmap_put hashmap_get hashmap_has hashmap_remove
proof (unfold_locales, goal_cases)
  case (1 h k v)
  let ?c = "hm_entries h ! hm_bucket h k"
  let ?c' = "AList.update k v ?c"
  let ?h' = "h\<lparr>hm_entries := (hm_entries h)[hm_bucket h k := ?c']\<rparr>"
  have "hashmap_put h k v = Done ?h'"
    using hm_index_ok [OF 1] chain_set_ok [OF 1(2) hm_chain(1) [OF 1]]
    by (simp add: hashmap_put_def hashmap_set_def)
  moreover have "distinct (map fst ?c')" "fst ` set ?c' \<subseteq> insert k (fst ` set ?c)"
    using hm_chain(2) [OF 1] by (auto simp: distinct_update dom_update)
  then have "hm_ok ?h'" "hm_view ?h' = (hm_view h)(k := Some v)"
    using hm_update_chain [OF 1, of ?c' "Some v"] by (simp_all add: update_conv')
  ultimately show ?case by simp
next
  case (2 h k)
  then show ?case
    using hm_index_ok [OF 2] chain_get_ok [OF 2(2) hm_chain(1) [OF 2]]
    by (simp add: hashmap_get_def hm_view_def)
next
  case (3 h k)
  then show ?case
    using hm_index_ok [OF 3] chain_has_ok [OF 3(2) hm_chain(1) [OF 3]]
    by (simp add: hashmap_has_def hm_view_def)
next
  case (4 h k)
  let ?c = "hm_entries h ! hm_bucket h k"
  let ?h' = "h\<lparr>hm_entries := (hm_entries h)[hm_bucket h k := AList.delete k ?c]\<rparr>"
  have "hashmap_remove h k = Done (hm_view h k, ?h')"
    using hm_index_ok [OF 4] chain_remove_ok [OF 4(2) hm_chain [OF 4]] 4
    by (simp add: hashmap_remove_def hm_view_def)
  moreover have "distinct (map fst (AList.delete k ?c))" "fst ` set (AList.delete k ?c) \<subseteq> insert k (fst ` set ?c)"
    using distinct_delete [OF hm_chain(2) [OF 4], of k] dom_delete_subset [of k ?c] by auto
  then have "hm_ok ?h'" "hm_view ?h' = (hm_view h)(k := None)"
    using hm_update_chain [OF 4, of "AList.delete k ?c" None] by (simp_all add: delete_conv')
  ultimately show ?case by simp
qed


lemma hashmap_create_ok:
  "sz \<noteq> 0 \<Longrightarrow> hm_ok (hashmap_create name sz)" "sz \<noteq> 0 \<Longrightarrow> hm_ok (hashmap_create_int name sz)"
  by (auto simp: hm_ok_def hashmap_create_def hashmap_create_int_def)

lemma hashmap_create_view:
  "sz \<noteq> 0 \<Longrightarrow> hm_view (hashmap_create name sz :: 'v hashmap_t) k = None"
  "sz \<noteq> 0 \<Longrightarrow> hm_view (hashmap_create_int name sz :: 'v hashmap_t) k = None"
proof -
  assume sz: "sz \<noteq> 0"
  have ok: "hm_ok (hashmap_create name sz :: 'v hashmap_t)" "hm_ok (hashmap_create_int name sz :: 'v hashmap_t)"
    using sz by (rule hashmap_create_ok)+
  show "hm_view (hashmap_create name sz :: 'v hashmap_t) k = None"
    using hm_index_ok(2) [OF ok(1), of k] by (auto simp: hm_view_def hashmap_create_def)
  show "hm_view (hashmap_create_int name sz :: 'v hashmap_t) k = None"
    using hm_index_ok(2) [OF ok(2), of k] by (auto simp: hm_view_def hashmap_create_int_def)
qed

lemma hm_key_ok_IntKey [simp]: "hm_key_ok HASHMAP_INT (IntKey x)"
  by (simp add: hm_key_ok_def)

lemma hm_key_ok_StrKey [simp]: "hm_key_ok HASHMAP_PTR (StrKey s) \<longleftrightarrow> NUL \<notin> set s \<and> length s \<le> 256"
  by (simp add: hm_key_ok_def)

text \<open>Tables with integer keys, as the drivers use them.\<close>

definition int_map :: "'v hashmap_t \<Rightarrow> bool" where
  "int_map h \<longleftrightarrow> hm_ok h \<and> hm_type h = HASHMAP_INT"

lemma int_map_create: "sz \<noteq> 0 \<Longrightarrow> int_map (hashmap_create_int name sz)"
  by (simp add: int_map_def hashmap_create_ok) (simp add: hashmap_create_int_def)

lemma int_map_get: "int_map h \<Longrightarrow> hashmap_get h (IntKey k) = Done (hm_view h (IntKey k))"
  by (rule hashmap.get) (simp_all add: int_map_def)

lemma int_map_has: "int_map h \<Longrightarrow> hashmap_has h (IntKey k) = Done (hm_view h (IntKey k) \<noteq> None)"
  by (rule hashmap.has) (simp_all add: int_map_def)

lemma hm_type_from_key_ok: "hm_key_ok ty = hm_key_ok HASHMAP_INT \<Longrightarrow> ty = HASHMAP_INT"
proof (cases ty)
  case HASHMAP_PTR
  moreover assume "hm_key_ok ty = hm_key_ok HASHMAP_INT"
  ultimately have "hm_key_ok HASHMAP_PTR (IntKey 0)" by simp
  then show ?thesis by (simp add: hm_key_ok_def)
qed

lemma int_map_set:
  assumes "int_map h"
  shows "\<exists>h'. hashmap_set (Some h) (IntKey k) v = Done (Some h') \<and> int_map h' \<and> hm_view h' = (hm_view h)(IntKey k \<mapsto> v)"
proof -
  have "hm_ok h" "hm_key_ok (hm_type h) (IntKey k)" using assms by (simp_all add: int_map_def)
  from hashmap.put [OF this, of v] obtain h' where h': "hashmap_put h (IntKey k) v = Done h'" "hm_ok h'"
    "hm_key_ok (hm_type h') = hm_key_ok (hm_type h)" "hm_view h' = (hm_view h)(IntKey k \<mapsto> v)" by blast
  from h'(1) have "hashmap_set (Some h) (IntKey k) v = Done (Some h')"
    by (auto simp: hashmap_put_def and_then_Done_iff split: option.splits)
  with h' assms hm_type_from_key_ok [of "hm_type h'"] show ?thesis by (simp add: int_map_def)
qed

lemma int_map_remove:
  assumes "int_map h"
  shows "\<exists>h'. hashmap_remove h (IntKey k) = Done (hm_view h (IntKey k), h') \<and> int_map h' \<and>
           hm_view h' = (hm_view h)(IntKey k := None)"
proof -
  have "hm_ok h" "hm_key_ok (hm_type h) (IntKey k)" using assms by (simp_all add: int_map_def)
  from hashmap.remove [OF this] obtain h' where h': "hashmap_remove h (IntKey k) = Done (hm_view h (IntKey k), h')" "hm_ok h'"
    "hm_key_ok (hm_type h') = hm_key_ok (hm_type h)" "hm_view h' = (hm_view h)(IntKey k := None)" by blast
  with assms hm_type_from_key_ok [of "hm_type h'"] show ?thesis by (simp add: int_map_def)
qed

section \<open>Properties\<close>

text \<open>
  C14: A hash table is a finite map. Whatever the order and the repetitions of the bindings stored into
  a fresh table of nonzero size by \<open>hashmap_set\<close>, \<open>hashmap_get\<close> then returns for every key the value
  stored last, and NULL for a key never stored, regardless of collisions. Keys are integers for
  \<open>hashmap_create_int\<close> and strings of at most 256 characters for \<open>hashmap_create\<close>.
\<close>

theorem hashmap_is_a_map:
  fixes h :: "'v hashmap_t"
  assumes "sz \<noteq> 0" "h = hashmap_create name sz \<or> h = hashmap_create_int name sz"
    "list_all (\<lambda>b. hm_key_ok (hm_type h) (fst b)) bs" "hm_key_ok (hm_type h) k"
  shows "\<exists>h'. set_all hashmap_put h bs = Done h' \<and> hm_ok h' \<and> hashmap_get h' k = Done (map_of (rev bs) k)"
proof -
  have ok: "hm_ok h" using assms(1,2) hashmap_create_ok by blast
  from hashmap.set_all [OF ok, of bs] assms(3) obtain h' where h': "set_all hashmap_put h bs = Done h'" "hm_ok h'"
    "(\<lambda>k. hm_key_ok (hm_type h') k) = (\<lambda>k. hm_key_ok (hm_type h) k)" "hm_view h' = hm_view h ++ map_of (rev bs)"
    by blast
  have "hm_view h = Map.empty" using assms(1,2) hashmap_create_view by (auto simp: fun_eq_iff)
  with h' have "hm_view h' = map_of (rev bs)" by simp
  moreover have "hm_key_ok (hm_type h') k" using h'(3) assms(4) by metis
  ultimately show ?thesis using h'(1,2) hashmap.get [OF h'(2)] by auto
qed

theorem hashmap_is_a_map_witness:
  "\<exists>h'. set_all hashmap_put (hashmap_create_int ''arp'' 1) [(IntKey 7, ''a''), (IntKey 8, ''b''), (IntKey 7, ''c'')]
      = Done h' \<and> hashmap_get h' (IntKey 7) = Done (Some ''c'')"
  using hashmap_is_a_map [of 1 "hashmap_create_int ''arp'' 1" "''arp''"
      "[(IntKey 7, ''a''), (IntKey 8, ''b''), (IntKey 7, ''c'')]" "IntKey 7"]
  by (auto simp: hashmap_create_int_def)

text \<open>
  \<open>hashmap_remove\<close> on a well-formed table returns what \<open>hashmap_get\<close> returned for the key, after
  which \<open>hashmap_has\<close> is false for it, every other key keeps its value, and the table is well formed.
\<close>

lemma hashmap_remove_refines:
  assumes "hm_ok h" "hm_key_ok (hm_type h) k" "hm_key_ok (hm_type h) j"
  shows "\<exists>r h'. hashmap_get h k = Done r \<and> hashmap_remove h k = Done (r, h') \<and> hm_ok h' \<and>
           hashmap_has h' k = Done False \<and>
           hashmap_get h' j = (if j = k then Done None else hashmap_get h j)"
  using hashmap.get_after_remove [OF assms] hashmap.get [OF assms(1,2)] hashmap.get [OF assms(1,3)]
  by fastforce

end
