(* ===== verification/Vfs.thy ===== *)
theory Vfs
  imports Vfs_Path KHashmap Spinlock "HOL-Library.Sublist"
begin

text \<open>
  \<open>hexahedron/fs/vfs.c\<close>: file nodes with their reference counts, the tree of mount points, mounting and
  opening by path. The tree is a value: its nodes are only reached from the root, a pointer to one is the
  list of names that leads to it. File nodes are on an explicit heap. The methods of file system drivers
  are numbered; what they do is an argument of the operations.
\<close>

section \<open>Data\<close>

datatype fs_method = M_NULL | M_fake | M_driver nat

datatype fs_dev = Dev_NULL | Dev_tree "string list" | Dev addr

record fs_node_t =
  fn_name :: string
  fn_mask :: u32
  fn_uid :: u32
  fn_gid :: u32
  fn_flags :: u64
  fn_inode :: u64
  fn_length :: u64
  fn_impl :: u64
  fn_atime :: u64
  fn_mtime :: u64
  fn_ctime :: u64
  fn_read :: fs_method
  fn_write :: fs_method
  fn_open :: fs_method
  fn_close :: fs_method
  fn_readdir :: fs_method
  fn_finddir :: fs_method
  fn_ioctl :: fs_method
  fn_refcount :: u64
  fn_dev :: fs_dev

definition fs_node_zero :: fs_node_t where
  "fs_node_zero = \<lparr>fn_name = [], fn_mask = 0, fn_uid = 0, fn_gid = 0, fn_flags = 0, fn_inode = 0, fn_length = 0,
     fn_impl = 0, fn_atime = 0, fn_mtime = 0, fn_ctime = 0, fn_read = M_NULL, fn_write = M_NULL,
     fn_open = M_NULL, fn_close = M_NULL, fn_readdir = M_NULL, fn_finddir = M_NULL, fn_ioctl = M_NULL, fn_refcount = 0, fn_dev = Dev_NULL\<rparr>"

definition VFS_FILE :: u64 where "VFS_FILE = 0x01"
definition VFS_DIRECTORY :: u64 where "VFS_DIRECTORY = 0x02"
definition VFS_CHARDEVICE :: u64 where "VFS_CHARDEVICE = 0x04"
definition VFS_BLOCKDEVICE :: u64 where "VFS_BLOCKDEVICE = 0x08"

text \<open>\<open>vfs_tree_node_t\<close> with the children of its tree node.\<close>

datatype vfs_tree_node_t = VNode (vt_name: string) (vt_fs_type: "string option") (vt_node: addr) (vt_children: "vfs_tree_node_t list")

record vfs_filesystem_t =
  fs_name :: string
  fs_mount :: "nat option"

record vfs_state =
  vfs_tree :: "vfs_tree_node_t option"
  vfs_filesystems :: "vfs_filesystem_t hashmap_t option"
  vfs_lock :: bool
  vfs_nodes :: "addr \<rightharpoonup> fs_node_t"
  vfs_brk :: addr
  vfs_ram :: "addr \<rightharpoonup> u8 list"

record dirent =
  d_ino :: nat
  d_name :: string

text \<open>
  \<open>vfs_ram\<close> is the memory behind the device pointers of nodes, by its start. The functions behind the
  method numbers are collected in a record.
\<close>

record fs_ops =
  call_open :: "nat \<Rightarrow> addr \<Rightarrow> u32 \<Rightarrow> vfs_state \<Rightarrow> vfs_state outcome"
  call_close :: "nat \<Rightarrow> addr \<Rightarrow> vfs_state \<Rightarrow> vfs_state outcome"
  call_read :: "nat \<Rightarrow> addr \<Rightarrow> u64 \<Rightarrow> u64 \<Rightarrow> vfs_state \<Rightarrow> (u8 list \<times> u64 \<times> vfs_state) outcome"
  call_write :: "nat \<Rightarrow> addr \<Rightarrow> u64 \<Rightarrow> u64 \<Rightarrow> u8 list \<Rightarrow> vfs_state \<Rightarrow> (u64 \<times> vfs_state) outcome"
  call_readdir :: "nat \<Rightarrow> addr \<Rightarrow> nat \<Rightarrow> vfs_state \<Rightarrow> (dirent option \<times> vfs_state) outcome"
  call_finddir :: "nat \<Rightarrow> addr \<Rightarrow> string \<Rightarrow> vfs_state \<Rightarrow> (addr \<times> vfs_state) outcome"
  call_ioctl :: "nat \<Rightarrow> addr \<Rightarrow> u64 \<Rightarrow> vfs_state \<Rightarrow> (cint \<times> vfs_state) outcome"
  call_mount :: "nat \<Rightarrow> string option \<Rightarrow> string option \<Rightarrow> vfs_state \<Rightarrow> (addr \<times> vfs_state) outcome"

definition fs_node_at :: "vfs_state \<Rightarrow> addr \<Rightarrow> fs_node_t outcome" where
  "fs_node_at s a = (case vfs_nodes s a of Some n \<Rightarrow> Done n | None \<Rightarrow> Fault BadPointer)"

definition set_fs_node :: "vfs_state \<Rightarrow> addr \<Rightarrow> (fs_node_t \<Rightarrow> fs_node_t) \<Rightarrow> vfs_state outcome" where
  "set_fs_node s a f = and_then (fs_node_at s a) (\<lambda>n. Done (s\<lparr>vfs_nodes := (vfs_nodes s)(a \<mapsto> f n)\<rparr>))"

definition new_fs_node :: "vfs_state \<Rightarrow> fs_node_t \<Rightarrow> addr \<times> vfs_state" where
  "new_fs_node s n = (vfs_brk s, s\<lparr>vfs_nodes := (vfs_nodes s)(vfs_brk s \<mapsto> n), vfs_brk := vfs_brk s + 1\<rparr>)"

definition free_fs_node :: "vfs_state \<Rightarrow> addr \<Rightarrow> vfs_state" where
  "free_fs_node s a = s\<lparr>vfs_nodes := (vfs_nodes s)(a := None)\<rparr>"

section \<open>File nodes\<close>

definition fs_open :: "fs_ops \<Rightarrow> vfs_state \<Rightarrow> addr \<Rightarrow> u32 \<Rightarrow> vfs_state outcome" where
  "fs_open ops s node flags =
     (if node = NULL then Done s
      else
        and_then (set_fs_node s node (\<lambda>n. n\<lparr>fn_refcount := fn_refcount n + 1\<rparr>)) (\<lambda>s1.
        and_then (fs_node_at s1 node) (\<lambda>n.
        case fn_open n of M_driver k \<Rightarrow> call_open ops k node flags s1 | _ \<Rightarrow> Done s1)))"

definition fs_close :: "fs_ops \<Rightarrow> vfs_state \<Rightarrow> addr \<Rightarrow> vfs_state outcome" where
  "fs_close ops s node =
     (if node = NULL then Done s
      else
        and_then (set_fs_node s node (\<lambda>n. n\<lparr>fn_refcount := fn_refcount n - 1\<rparr>)) (\<lambda>s1.
        and_then (fs_node_at s1 node) (\<lambda>n.
        if sint (fn_refcount n) < 0 then Done s1
        else if fn_refcount n = 0 then
          and_then (case fn_close n of M_driver k \<Rightarrow> call_close ops k node s1 | _ \<Rightarrow> Done s1) (\<lambda>s2.
          Done (free_fs_node s2 node))
        else Done s1)))"

definition fs_read :: "fs_ops \<Rightarrow> vfs_state \<Rightarrow> addr \<Rightarrow> u64 \<Rightarrow> u64 \<Rightarrow> (u8 list \<times> u64 \<times> vfs_state) outcome" where
  "fs_read ops s node offset sz =
     (if node = NULL then Done ([], 0, s)
      else and_then (fs_node_at s node) (\<lambda>n.
           case fn_read n of M_driver k \<Rightarrow> call_read ops k node offset sz s | _ \<Rightarrow> Done ([], 0, s)))"

definition fs_write :: "fs_ops \<Rightarrow> vfs_state \<Rightarrow> addr \<Rightarrow> u64 \<Rightarrow> u64 \<Rightarrow> u8 list \<Rightarrow> (u64 \<times> vfs_state) outcome" where
  "fs_write ops s node offset sz buffer =
     (if node = NULL then Done (0, s)
      else and_then (fs_node_at s node) (\<lambda>n.
           case fn_write n of M_driver k \<Rightarrow> call_write ops k node offset sz buffer s | _ \<Rightarrow> Done (0, s)))"

definition ENOTSUP :: cint where "ENOTSUP = 134"
definition EINVAL :: cint where "EINVAL = 22"

definition fs_mkdir :: "string \<Rightarrow> u32 \<Rightarrow> cint" where "fs_mkdir path mode = - ENOTSUP"

definition fs_unlink :: "string \<Rightarrow> cint" where "fs_unlink name = - ENOTSUP"

definition fs_ioctl :: "fs_ops \<Rightarrow> vfs_state \<Rightarrow> addr \<Rightarrow> u64 \<Rightarrow> (cint \<times> vfs_state) outcome" where
  "fs_ioctl ops s node request =
     (if node = NULL then Done (- EINVAL, s)
      else and_then (fs_node_at s node) (\<lambda>n.
           case fn_ioctl n of M_driver k \<Rightarrow> call_ioctl ops k node request s | _ \<Rightarrow> Done (- ENOTSUP, s)))"

section \<open>The tree of mount points\<close>

text \<open>The \<open>foreach\<close> over the children that stops at the first with the name.\<close>

fun find_child :: "vfs_tree_node_t list \<Rightarrow> string \<Rightarrow> nat option" where
  "find_child [] pch = None"
| "find_child (c # cs) pch = (if vt_name c = pch then Some 0 else map_option Suc (find_child cs pch))"

primrec tree_at :: "vfs_tree_node_t \<Rightarrow> string list \<Rightarrow> vfs_tree_node_t option" where
  "tree_at t [] = Some t"
| "tree_at t (c # cs) = (case find_child (vt_children t) c of Some i \<Rightarrow> tree_at (vt_children t ! i) cs | None \<Rightarrow> None)"

definition vfs_init :: "vfs_state \<Rightarrow> vfs_state" where
  "vfs_init s = s\<lparr>vfs_tree := Some (VNode ''/'' (Some ''N/A'') NULL []),
     vfs_filesystems := Some (hashmap_create ''VFS filesystems'' 10), vfs_lock := False\<rparr>"

text \<open>The name of a node is an array of 256 characters, and \<open>strcpy\<close> does not look at its size.\<close>

definition vfs_createFakeNode :: "vfs_state \<Rightarrow> string \<Rightarrow> string list \<Rightarrow> (addr \<times> vfs_state) outcome" where
  "vfs_createFakeNode s name tnode =
     (if length name \<ge> 256 then Fault OutOfBounds
      else Done (new_fs_node s (fs_node_zero\<lparr>fn_name := name, fn_dev := Dev_tree tnode, fn_flags := VFS_DIRECTORY,
                                             fn_readdir := M_fake, fn_finddir := M_fake\<rparr>)))"

text \<open>
  The loop of \<open>vfs_mount\<close> from the tree node \<open>t\<close>, which is at \<open>at\<close>, over the tokens left; at the end
  the node is entered there.
\<close>

fun vfs_mount_loop ::
    "addr \<Rightarrow> vfs_state \<Rightarrow> string list \<Rightarrow> vfs_tree_node_t \<Rightarrow> string list \<Rightarrow> (vfs_tree_node_t \<times> vfs_state) outcome" where
  "vfs_mount_loop node s at t [] = Done (VNode (vt_name t) (vt_fs_type t) node (vt_children t), s)"
| "vfs_mount_loop node s at t (pch # ts) =
     (case find_child (vt_children t) pch of
        Some i \<Rightarrow>
          and_then (vfs_mount_loop node s (at @ [pch]) (vt_children t ! i) ts) (\<lambda>(c, s').
          Done (VNode (vt_name t) (vt_fs_type t) (vt_node t) ((vt_children t)[i := c]), s'))
      | None \<Rightarrow>
          and_then (vfs_createFakeNode s pch (at @ [pch])) (\<lambda>(fake, s1).
          and_then (vfs_mount_loop node s1 (at @ [pch]) (VNode pch None fake []) ts) (\<lambda>(c, s').
          Done (VNode (vt_name t) (vt_fs_type t) (vt_node t) (vt_children t @ [c]), s'))))"

text \<open>The result is the tree node, or \<open>None\<close> for NULL.\<close>

definition vfs_mount :: "vfs_state \<Rightarrow> addr \<Rightarrow> string option \<Rightarrow> (string list option \<times> vfs_state) outcome" where
  "vfs_mount s node path =
     (if node = NULL then Done (None, s)
      else case vfs_tree s of
        None \<Rightarrow> Panic KERNEL_BAD_ARGUMENT_ERROR
      | Some root \<Rightarrow>
          (case path of
             None \<Rightarrow> Done (None, s)
           | Some p \<Rightarrow>
               if p = [] \<or> hd p \<noteq> CHR ''/'' then Done (None, s)
               else
                 and_then (lock_acquire (vfs_lock s)) (\<lambda>l.
                 if length p = 1 then
                   Done (Some [], s\<lparr>vfs_tree := Some (VNode (vt_name root) (vt_fs_type root) node (vt_children root)),
                                    vfs_lock := lock_release l\<rparr>)
                 else
                   and_then (path_tokens p) (\<lambda>ts.
                   and_then (vfs_mount_loop node s [] root ts) (\<lambda>(root', s').
                   Done (Some ts, s'\<lparr>vfs_tree := Some root', vfs_lock := lock_release l\<rparr>))))))"

section \<open>File systems\<close>

definition vfs_registerFilesystem :: "vfs_state \<Rightarrow> string \<Rightarrow> nat option \<Rightarrow> (cint \<times> vfs_state) outcome" where
  "vfs_registerFilesystem s name mount =
     (if vfs_filesystems s = None then Panic KERNEL_BAD_ARGUMENT_ERROR
      else and_then (hashmap_set (vfs_filesystems s) (StrKey name) \<lparr>fs_name = name, fs_mount = mount\<rparr>) (\<lambda>h.
           Done (0, s\<lparr>vfs_filesystems := h\<rparr>)))"

fun set_fs_type :: "vfs_tree_node_t \<Rightarrow> string list \<Rightarrow> string \<Rightarrow> vfs_tree_node_t" where
  "set_fs_type t [] ty = VNode (vt_name t) (Some ty) (vt_node t) (vt_children t)"
| "set_fs_type t (c # cs) ty = (case find_child (vt_children t) c of
     Some i \<Rightarrow> VNode (vt_name t) (vt_fs_type t) (vt_node t) ((vt_children t)[i := set_fs_type (vt_children t ! i) cs ty])
   | None \<Rightarrow> t)"

definition vfs_mountFilesystemType ::
    "fs_ops \<Rightarrow> vfs_state \<Rightarrow> string option \<Rightarrow> string option \<Rightarrow> string option \<Rightarrow> (addr \<times> vfs_state) outcome" where
  "vfs_mountFilesystemType ops s name argp mountpoint = (case name of
     None \<Rightarrow> Done (NULL, s)
   | Some nm \<Rightarrow> (case vfs_filesystems s of
       None \<Rightarrow> Fault BadPointer
     | Some h \<Rightarrow>
         and_then (hashmap_get h (StrKey nm)) (\<lambda>fs.
         case fs of
           None \<Rightarrow> Done (NULL, s)
         | Some f \<Rightarrow> (case fs_mount f of
             None \<Rightarrow> Done (NULL, s)
           | Some k \<Rightarrow>
               and_then (call_mount ops k argp mountpoint s) (\<lambda>(node, s1).
               if node = NULL then Done (NULL, s1)
               else if mountpoint = None then Done (node, s1)
               else
                 and_then (vfs_mount s1 node mountpoint) (\<lambda>(tnode, s2).
                 case tnode of
                   None \<Rightarrow> Done (NULL, free_fs_node s2 node)
                 | Some p \<Rightarrow>
                     Done (node, s2\<lparr>vfs_tree := map_option (\<lambda>t. set_fs_type t p nm) (vfs_tree s2)\<rparr>)))))))"

section \<open>Opening by path\<close>

text \<open>The mount point and \<open>_remainder_depth\<close>.\<close>

fun vfs_getMountpoint_loop :: "vfs_tree_node_t \<Rightarrow> string list \<Rightarrow> nat \<Rightarrow> addr \<times> nat" where
  "vfs_getMountpoint_loop last_node [] depth = (vt_node last_node, depth)"
| "vfs_getMountpoint_loop last_node (pch # ts) depth =
     (case find_child (vt_children last_node) pch of
        Some i \<Rightarrow> vfs_getMountpoint_loop (vt_children last_node ! i) ts (depth + (length pch + 1))
      | None \<Rightarrow> (vt_node last_node, depth))"

definition vfs_getMountpoint :: "vfs_state \<Rightarrow> string \<Rightarrow> (addr \<times> nat) outcome" where
  "vfs_getMountpoint s path = (case vfs_tree s of
     None \<Rightarrow> Fault BadPointer
   | Some root \<Rightarrow> and_then (path_tokens path) (\<lambda>ts. Done (vfs_getMountpoint_loop root ts 0)))"

definition vfs_fakeNodeFinddir :: "vfs_state \<Rightarrow> addr \<Rightarrow> string \<Rightarrow> addr outcome" where
  "vfs_fakeNodeFinddir s node name =
     and_then (fs_node_at s node) (\<lambda>n.
     case (fn_dev n, vfs_tree s) of
       (Dev_tree p, Some root) \<Rightarrow>
         (case tree_at root p of
            None \<Rightarrow> Fault BadPointer
          | Some t \<Rightarrow> Done (case find_child (vt_children t) name of Some i \<Rightarrow> vt_node (vt_children t ! i) | None \<Rightarrow> NULL))
     | _ \<Rightarrow> Fault BadPointer)"

text \<open>The counter \<open>i\<close> is incremented before it is compared.\<close>

fun fake_readdir_loop :: "vfs_tree_node_t list \<Rightarrow> nat \<Rightarrow> nat \<Rightarrow> dirent option" where
  "fake_readdir_loop [] i index = None"
| "fake_readdir_loop (c # cs) i index =
     (if i + 1 = index then Some \<lparr>d_ino = i + 1, d_name = vt_name c\<rparr> else fake_readdir_loop cs (i + 1) index)"

definition vfs_fakeNodeReaddir :: "vfs_state \<Rightarrow> addr \<Rightarrow> nat \<Rightarrow> dirent option outcome" where
  "vfs_fakeNodeReaddir s node index =
     (if index < 2 then Done (Some \<lparr>d_ino = index, d_name = (if index = 0 then ''.'' else ''..'')\<rparr>)
      else
        and_then (fs_node_at s node) (\<lambda>n.
        case (fn_dev n, vfs_tree s) of
          (Dev_tree p, Some root) \<Rightarrow>
            (case tree_at root p of
               None \<Rightarrow> Fault BadPointer
             | Some t \<Rightarrow> Done (fake_readdir_loop (vt_children t) 0 (index - 2)))
        | _ \<Rightarrow> Fault BadPointer))"

definition fs_readdir :: "fs_ops \<Rightarrow> vfs_state \<Rightarrow> addr \<Rightarrow> nat \<Rightarrow> (dirent option \<times> vfs_state) outcome" where
  "fs_readdir ops s node index =
     (if node = NULL then Done (None, s)
      else
        and_then (fs_node_at s node) (\<lambda>n.
        if fn_flags n AND VFS_DIRECTORY \<noteq> 0 then
          (case fn_readdir n of
             M_NULL \<Rightarrow> Done (None, s)
           | M_fake \<Rightarrow> and_then (vfs_fakeNodeReaddir s node index) (\<lambda>r. Done (r, s))
           | M_driver k \<Rightarrow> call_readdir ops k node index s)
        else Done (None, s)))"

definition fs_finddir :: "fs_ops \<Rightarrow> vfs_state \<Rightarrow> addr \<Rightarrow> string \<Rightarrow> (addr \<times> vfs_state) outcome" where
  "fs_finddir ops s node path =
     (if node = NULL then Done (NULL, s)
      else
        and_then (fs_node_at s node) (\<lambda>n.
        if fn_flags n AND VFS_DIRECTORY \<noteq> 0 then
          (case fn_finddir n of
             M_NULL \<Rightarrow> Done (NULL, s)
           | M_fake \<Rightarrow> and_then (vfs_fakeNodeFinddir s node path) (\<lambda>r. Done (r, s))
           | M_driver k \<Rightarrow> call_finddir ops k node path s)
        else Done (NULL, s)))"

definition kopen_relative :: "fs_ops \<Rightarrow> vfs_state \<Rightarrow> addr \<Rightarrow> string \<Rightarrow> (addr \<times> vfs_state) outcome" where
  "kopen_relative ops s current_node path =
     (if current_node = NULL then Done (NULL, s) else fs_finddir ops s current_node path)"

fun kopen_loop :: "fs_ops \<Rightarrow> vfs_state \<Rightarrow> addr \<Rightarrow> string list \<Rightarrow> (addr \<times> vfs_state) outcome" where
  "kopen_loop ops s node [] = Done (node, s)"
| "kopen_loop ops s node (pch # ts) =
     (if node = NULL then Done (node, s)
      else
        and_then (kopen_relative ops s node pch) (\<lambda>(node', s1).
        if node' = NULL then kopen_loop ops s1 node' ts
        else
          and_then (fs_node_at s1 node') (\<lambda>n.
          if fn_flags n = VFS_FILE then Done (node', s1) else kopen_loop ops s1 node' ts)))"

text \<open>
  The rest of the path is \<open>path\<close> advanced by the depth; reading there is only defined within the string.
  \<open>strtok_r\<close> cuts up the caller's string here: \<open>kopen_cut\<close> is what that string reads as afterwards. The
  first call decides it, since the later ones write behind the terminator that it left.
\<close>

definition kopen :: "fs_ops \<Rightarrow> vfs_state \<Rightarrow> string option \<Rightarrow> u32 \<Rightarrow> (addr \<times> vfs_state) outcome" where
  "kopen ops s path flags = (case path of
     None \<Rightarrow> Done (NULL, s)
   | Some p \<Rightarrow>
       and_then (vfs_getMountpoint s p) (\<lambda>(node, depth).
       if node = NULL then Done (NULL, s)
       else if length p < depth then Fault OutOfBounds
       else
         and_then (path_tokens (drop depth p)) (\<lambda>ts.
         and_then (kopen_loop ops s node ts) (\<lambda>(node', s1).
         if node' = NULL then Done (NULL, s1)
         else
           and_then (fs_node_at s1 node') (\<lambda>n.
           let (retnode, s2) = new_fs_node s1 n in
           and_then (fs_open ops s2 retnode flags) (\<lambda>s3. Done (retnode, s3)))))))"

definition kopen_cut :: "vfs_state \<Rightarrow> string \<Rightarrow> string outcome" where
  "kopen_cut s p =
     and_then (vfs_getMountpoint s p) (\<lambda>(node, depth).
     if node = NULL \<or> length p \<le> depth then Done p
     else
       and_then (strtok_r (p @ NUL # ''/'' @ [NUL]) (Some depth) (length p + 1) None) (\<lambda>(pch, m, save).
       Done (takeWhile (\<lambda>c. c \<noteq> NUL) m)))"

definition kopen_user :: "fs_ops \<Rightarrow> bool \<Rightarrow> vfs_state \<Rightarrow> string option \<Rightarrow> string option \<Rightarrow> u32 \<Rightarrow> (addr \<times> vfs_state) outcome" where
  "kopen_user ops checked s wd_path path flags = (case path of
     None \<Rightarrow> Done (NULL, s)
   | Some p \<Rightarrow> (case wd_path of
       None \<Rightarrow> Done (NULL, s)
     | Some wd \<Rightarrow> and_then (vfs_canonicalizePath checked wd p) (\<lambda>c. kopen ops s (Some c) flags)))"


section \<open>The tree as a map\<close>

definition lookup :: "vfs_tree_node_t \<Rightarrow> string list \<Rightarrow> addr option" where
  "lookup t p = map_option vt_node (tree_at t p)"

lemma find_child_Some: "find_child cs c = Some i \<Longrightarrow> i < length cs \<and> vt_name (cs ! i) = c"
  by (induction cs arbitrary: i) (auto split: if_splits)

lemma find_child_update: "i < length cs \<Longrightarrow> vt_name x = vt_name (cs ! i) \<Longrightarrow> find_child (cs[i := x]) c = find_child cs c"
  by (induction cs arbitrary: i) (auto split: nat.splits)

lemma find_child_append:
  "find_child (cs @ [x]) c = (case find_child cs c of Some i \<Rightarrow> Some i | None \<Rightarrow> if vt_name x = c then Some (length cs) else None)"
  by (induction cs) (auto split: option.splits)

text \<open>
  The loop as a function, for names that fit into a node.
\<close>

definition new_fake :: "vfs_state \<Rightarrow> string \<Rightarrow> string list \<Rightarrow> addr \<times> vfs_state" where
  "new_fake s name tnode =
     new_fs_node s (fs_node_zero\<lparr>fn_name := name, fn_dev := Dev_tree tnode, fn_flags := VFS_DIRECTORY,
                                 fn_readdir := M_fake, fn_finddir := M_fake\<rparr>)"

fun mount_tree :: "addr \<Rightarrow> vfs_state \<Rightarrow> string list \<Rightarrow> vfs_tree_node_t \<Rightarrow> string list \<Rightarrow> vfs_tree_node_t \<times> vfs_state" where
  "mount_tree node s at t [] = (VNode (vt_name t) (vt_fs_type t) node (vt_children t), s)"
| "mount_tree node s at t (pch # ts) =
     (case find_child (vt_children t) pch of
        Some i \<Rightarrow>
          let (c, s') = mount_tree node s (at @ [pch]) (vt_children t ! i) ts in
          (VNode (vt_name t) (vt_fs_type t) (vt_node t) ((vt_children t)[i := c]), s')
      | None \<Rightarrow>
          let (fake, s1) = new_fake s pch (at @ [pch]);
              (c, s') = mount_tree node s1 (at @ [pch]) (VNode pch None fake []) ts in
          (VNode (vt_name t) (vt_fs_type t) (vt_node t) (vt_children t @ [c]), s'))"

lemma vfs_mount_loop_names:
  "\<forall>c\<in>set ts. length c < 256 \<Longrightarrow> vfs_mount_loop node s at t ts = Done (mount_tree node s at t ts)"
proof (induction ts arbitrary: s at t)
  case (Cons pch ts)
  then show ?case
    by (auto simp: vfs_createFakeNode_def new_fake_def split: option.splits prod.splits)
qed simp

lemma mount_name: "vt_name (fst (mount_tree node s at t ts)) = vt_name t"
  by (induction node s at t ts rule: mount_tree.induct) (auto split: option.splits prod.splits)

text \<open>One step: the children after mounting below \<open>pch\<close>.\<close>

definition child_of :: "vfs_tree_node_t \<Rightarrow> string \<Rightarrow> vfs_tree_node_t option" where
  "child_of t c = map_option (\<lambda>i. vt_children t ! i) (find_child (vt_children t) c)"

lemma tree_at_child: "tree_at t (c # cs) = (case child_of t c of Some u \<Rightarrow> tree_at u cs | None \<Rightarrow> None)"
  by (simp add: child_of_def split: option.splits)

lemma mount_step:
  "\<exists>u s1. (case child_of t pch of
             Some c \<Rightarrow> u = c \<and> s1 = s
           | None \<Rightarrow> (\<exists>fake. new_fake s pch (at @ [pch]) = (fake, s1) \<and> u = VNode pch None fake [])) \<and>
         snd (mount_tree node s at t (pch # ts)) = snd (mount_tree node s1 (at @ [pch]) u ts) \<and>
         vt_node (fst (mount_tree node s at t (pch # ts))) = vt_node t \<and>
         (\<forall>c. child_of (fst (mount_tree node s at t (pch # ts))) c =
                (if c = pch then Some (fst (mount_tree node s1 (at @ [pch]) u ts)) else child_of t c))"
proof (cases "find_child (vt_children t) pch")
  case (Some i)
  note i = find_child_Some [OF Some]
  let ?u = "vt_children t ! i"
  have nm: "vt_name (fst (mount_tree node s (at @ [pch]) ?u ts)) = vt_name ?u" by (rule mount_name)
  have r: "mount_tree node s at t (pch # ts) =
      (VNode (vt_name t) (vt_fs_type t) (vt_node t) ((vt_children t)[i := fst (mount_tree node s (at @ [pch]) ?u ts)]),
       snd (mount_tree node s (at @ [pch]) ?u ts))"
    using Some by (simp add: split_def Let_def)
  have "child_of (fst (mount_tree node s at t (pch # ts))) c =
      (if c = pch then Some (fst (mount_tree node s (at @ [pch]) ?u ts)) else child_of t c)" for c
  proof (cases "c = pch")
    case True
    then show ?thesis using Some i nm unfolding r by (simp add: child_of_def find_child_update)
  next
    case False
    have "j \<noteq> i" if "find_child (vt_children t) c = Some j" for j using find_child_Some [OF that] i False by auto
    then show ?thesis using i nm False unfolding r
      by (cases "find_child (vt_children t) c") (auto simp: child_of_def find_child_update)
  qed
  moreover have "child_of t pch = Some ?u" using Some by (simp add: child_of_def)
  ultimately show ?thesis unfolding r by (intro exI [of _ ?u] exI [of _ s]) simp
next
  case None
  obtain fake s1 where f: "new_fake s pch (at @ [pch]) = (fake, s1)" by fastforce
  let ?u = "VNode pch None fake []"
  have nm: "vt_name (fst (mount_tree node s1 (at @ [pch]) ?u ts)) = pch" using mount_name [of node s1 "at @ [pch]" ?u] by simp
  have r: "mount_tree node s at t (pch # ts) =
      (VNode (vt_name t) (vt_fs_type t) (vt_node t) (vt_children t @ [fst (mount_tree node s1 (at @ [pch]) ?u ts)]),
       snd (mount_tree node s1 (at @ [pch]) ?u ts))"
    using None f by (simp add: split_def Let_def)
  have "child_of (fst (mount_tree node s at t (pch # ts))) c =
      (if c = pch then Some (fst (mount_tree node s1 (at @ [pch]) ?u ts)) else child_of t c)" for c
  proof (cases "c = pch")
    case True
    then show ?thesis using None nm unfolding r by (simp add: child_of_def find_child_append)
  next
    case False
    have "j < length (vt_children t)" if "find_child (vt_children t) c = Some j" for j using find_child_Some [OF that] by simp
    then show ?thesis using nm False unfolding r
      by (cases "find_child (vt_children t) c") (auto simp: child_of_def find_child_append nth_append)
  qed
  moreover have "child_of t pch = None" using None by (simp add: child_of_def)
  ultimately show ?thesis using f unfolding r by (intro exI [of _ ?u] exI [of _ s1]) simp
qed


lemma lookup_Nil [simp]: "lookup t [] = Some (vt_node t)"
  by (simp add: lookup_def)

lemma lookup_Cons: "lookup t (c # cs) = (case child_of t c of Some u \<Rightarrow> lookup u cs | None \<Rightarrow> None)"
  by (simp only: lookup_def tree_at_child) (auto split: option.splits)

declare tree_at.simps(2) [simp del] mount_tree.simps(2) [simp del]

lemma lookup_leaf: "lookup (VNode nm ty a []) q = (if q = [] then Some a else None)"
  by (cases q) (simp_all add: lookup_Cons child_of_def)

lemma lookup_mount_end: "lookup (fst (mount_tree node s at t [])) q = (if q = [] then Some node else lookup t q)"
  by (cases q) (simp_all add: lookup_Cons child_of_def)

text \<open>The fake directory made for a missing component.\<close>

definition fake_node :: "string list \<Rightarrow> fs_node_t" where
  "fake_node p = fs_node_zero\<lparr>fn_name := last p, fn_dev := Dev_tree p, fn_flags := VFS_DIRECTORY,
                              fn_readdir := M_fake, fn_finddir := M_fake\<rparr>"

lemma createFakeNode_spec:
  "new_fake s pch (at @ [pch]) =
     (vfs_brk s, s\<lparr>vfs_nodes := (vfs_nodes s)(vfs_brk s \<mapsto> fake_node (at @ [pch])), vfs_brk := vfs_brk s + 1\<rparr>)"
  by (simp add: new_fake_def new_fs_node_def fake_node_def)

text \<open>\<open>grown s s'\<close>: only file nodes at new addresses were added.\<close>

definition grown :: "vfs_state \<Rightarrow> vfs_state \<Rightarrow> bool" where
  "grown s s' \<longleftrightarrow> (\<exists>m b. s' = s\<lparr>vfs_nodes := m, vfs_brk := b\<rparr> \<and> vfs_brk s \<le> b \<and> (\<forall>a < vfs_brk s. m a = vfs_nodes s a))"

lemma grown_refl: "grown s s"
  unfolding grown_def by (rule exI [of _ "vfs_nodes s"], rule exI [of _ "vfs_brk s"]) simp

lemma grown_trans:
  assumes "grown s s1" "grown s1 s2"
  shows "grown s s2"
proof -
  from assms(1) obtain m b where 1: "s1 = s\<lparr>vfs_nodes := m, vfs_brk := b\<rparr>" "vfs_brk s \<le> b" "\<forall>a < vfs_brk s. m a = vfs_nodes s a"
    by (auto simp: grown_def)
  from assms(2) obtain m' b' where 2: "s2 = s1\<lparr>vfs_nodes := m', vfs_brk := b'\<rparr>" "vfs_brk s1 \<le> b'" "\<forall>a < vfs_brk s1. m' a = vfs_nodes s1 a"
    by (auto simp: grown_def)
  have "s2 = s\<lparr>vfs_nodes := m', vfs_brk := b'\<rparr>" "vfs_brk s \<le> b'" "\<forall>a < vfs_brk s. m' a = vfs_nodes s a" using 1 2 by simp_all
  then show ?thesis unfolding grown_def by blast
qed

lemma grown_new: "grown s (s\<lparr>vfs_nodes := (vfs_nodes s)(vfs_brk s \<mapsto> n), vfs_brk := vfs_brk s + 1\<rparr>)"
  unfolding grown_def by (rule exI, rule exI, rule conjI, rule refl) simp

lemma mount_grown: "grown s (snd (mount_tree node s at t ts))"
proof (induction ts arbitrary: s at t)
  case Nil
  then show ?case by (simp add: grown_refl)
next
  case (Cons pch ts)
  from mount_step [where t = t and pch = pch and s = s and at = "at" and node = node and ts = ts] obtain u s1 where
    u: "case child_of t pch of Some c \<Rightarrow> u = c \<and> s1 = s
           | None \<Rightarrow> (\<exists>fake. new_fake s pch (at @ [pch]) = (fake, s1) \<and> u = VNode pch None fake [])"
      "snd (mount_tree node s at t (pch # ts)) = snd (mount_tree node s1 (at @ [pch]) u ts)" by blast
  have "grown s s1" using u(1) by (auto simp: createFakeNode_spec grown_refl grown_new [simplified] split: option.splits)
  from grown_trans [OF this Cons.IH] u(2) show ?case by simp
qed

lemma grown_node: "grown s s' \<Longrightarrow> a < vfs_brk s \<Longrightarrow> vfs_nodes s' a = vfs_nodes s a"
  by (auto simp: grown_def)

lemma grown_brk: "grown s s' \<Longrightarrow> vfs_brk s \<le> vfs_brk s'"
  by (auto simp: grown_def)

text \<open>What is where after mounting.\<close>

lemma mount_lookup:
  "lookup (fst (mount_tree node s at t ts)) q =
     (if q = ts then Some node
      else if lookup t q \<noteq> None then lookup t q
      else if strict_prefix q ts then lookup (fst (mount_tree node s at t ts)) q
      else None)"
proof (induction ts arbitrary: s at t q)
  case Nil
  show ?case unfolding lookup_mount_end by auto
next
  case (Cons pch ts)
  from mount_step [where t = t and pch = pch and s = s and at = "at" and node = node and ts = ts] obtain u s1 where
    u: "case child_of t pch of Some c \<Rightarrow> u = c \<and> s1 = s
           | None \<Rightarrow> (\<exists>fake. new_fake s pch (at @ [pch]) = (fake, s1) \<and> u = VNode pch None fake [])"
      "vt_node (fst (mount_tree node s at t (pch # ts))) = vt_node t"
      "\<forall>c. child_of (fst (mount_tree node s at t (pch # ts))) c =
                (if c = pch then Some (fst (mount_tree node s1 (at @ [pch]) u ts)) else child_of t c)" by blast
  show ?case
  proof (cases q)
    case Nil
    with u(2) show ?thesis by simp
  next
    case q: (Cons c cs)
    show ?thesis
    proof (cases "c = pch")
      case False
      with u(3) q show ?thesis by (simp add: lookup_Cons)
    next
      case True
      have l: "lookup (fst (mount_tree node s at t (pch # ts))) q = lookup (fst (mount_tree node s1 (at @ [pch]) u ts)) cs"
        using u(3) q True by (simp add: lookup_Cons)
      show ?thesis
      proof (cases "child_of t pch")
        case (Some x)
        then show ?thesis unfolding l using Cons.IH [of s1 "at @ [pch]" u cs] u(1) q True by (simp add: lookup_Cons)
      next
        case None
        with u(1) obtain fake where "u = VNode pch None fake []" by auto
        with None show ?thesis unfolding l using Cons.IH [of s1 "at @ [pch]" u cs] q True
          by (cases "cs = []"; cases ts) (auto simp: lookup_Cons lookup_leaf)
      qed
    qed
  qed
qed


lemma mount_fakes:
  "strict_prefix q ts \<Longrightarrow> lookup t q = None \<Longrightarrow>
   \<exists>a. lookup (fst (mount_tree node s at t ts)) q = Some a \<and> vfs_brk s \<le> a \<and>
       vfs_nodes (snd (mount_tree node s at t ts)) a = Some (fake_node (at @ q))"
proof (induction ts arbitrary: s at t q)
  case Nil
  then show ?case by simp
next
  case (Cons pch ts)
  then obtain cs where q: "q = pch # cs" "strict_prefix cs ts" by (cases q) auto
  from mount_step [where t = t and pch = pch and s = s and at = "at" and node = node and ts = ts] obtain u s1 where
    u: "case child_of t pch of Some c \<Rightarrow> u = c \<and> s1 = s
           | None \<Rightarrow> (\<exists>fake. new_fake s pch (at @ [pch]) = (fake, s1) \<and> u = VNode pch None fake [])"
      "snd (mount_tree node s at t (pch # ts)) = snd (mount_tree node s1 (at @ [pch]) u ts)"
      "\<forall>c. child_of (fst (mount_tree node s at t (pch # ts))) c =
                (if c = pch then Some (fst (mount_tree node s1 (at @ [pch]) u ts)) else child_of t c)" by blast
  have l: "lookup (fst (mount_tree node s at t (pch # ts))) q = lookup (fst (mount_tree node s1 (at @ [pch]) u ts)) cs"
    using u(3) q(1) by (simp add: lookup_Cons)
  show ?case
  proof (cases "child_of t pch")
    case (Some x)
    with u(1) have ux: "u = x" "s1 = s" by simp_all
    have "lookup u cs = None" using Cons.prems(2) q(1) Some ux by (simp add: lookup_Cons)
    from Cons.IH [OF q(2) this, of s1 "at @ [pch]"] l u(2) q(1) ux show ?thesis by simp
  next
    case None
    with u(1) have ux: "u = VNode pch None (vfs_brk s) []"
      "s1 = s\<lparr>vfs_nodes := (vfs_nodes s)(vfs_brk s \<mapsto> fake_node (at @ [pch])), vfs_brk := vfs_brk s + 1\<rparr>"
      by (auto simp: createFakeNode_spec)
    show ?thesis
    proof (cases "cs = []")
      case False
      then have "lookup u cs = None" by (simp add: ux lookup_leaf)
      from Cons.IH [OF q(2) this, of s1 "at @ [pch]"] l u(2) q(1) ux(2) show ?thesis by auto
    next
      case True
      have "lookup (fst (mount_tree node s1 (at @ [pch]) u ts)) [] = Some (vfs_brk s)"
        using mount_lookup [of node s1 "at @ [pch]" u ts "[]"] True q(2) by (simp add: ux(1)) auto
      moreover have "vfs_nodes (snd (mount_tree node s1 (at @ [pch]) u ts)) (vfs_brk s) = vfs_nodes s1 (vfs_brk s)"
        by (rule grown_node [OF mount_grown]) (simp add: ux(2))
      ultimately show ?thesis using l u(2) q(1) True by (simp add: ux(2))
    qed
  qed
qed

text \<open>The mount point of a path: its longest prefix in the tree.\<close>

lemma getMountpoint_loop_spec:
  "\<exists>k \<le> length ts. vfs_getMountpoint_loop t ts d = (the (lookup t (take k ts)), d + (\<Sum>c\<leftarrow>take k ts. length c + 1)) \<and>
     lookup t (take k ts) \<noteq> None \<and> (k < length ts \<longrightarrow> lookup t (take (Suc k) ts) = None)"
proof (induction ts arbitrary: t d)
  case Nil
  then show ?case by simp
next
  case (Cons pch ts)
  show ?case
  proof (cases "find_child (vt_children t) pch")
    case None
    then have "child_of t pch = None" by (simp add: child_of_def)
    with None show ?thesis by (intro exI [of _ 0]) (simp add: lookup_Cons)
  next
    case (Some i)
    then have c: "child_of t pch = Some (vt_children t ! i)" by (simp add: child_of_def)
    from Cons.IH [of "vt_children t ! i" "d + (length pch + 1)"] obtain k where
      k: "k \<le> length ts" "vfs_getMountpoint_loop (vt_children t ! i) ts (d + (length pch + 1)) =
         (the (lookup (vt_children t ! i) (take k ts)), d + (length pch + 1) + (\<Sum>c\<leftarrow>take k ts. length c + 1))"
        "lookup (vt_children t ! i) (take k ts) \<noteq> None" "k < length ts \<longrightarrow> lookup (vt_children t ! i) (take (Suc k) ts) = None"
      by blast
    show ?thesis using k Some c by (intro exI [of _ "Suc k"]) (simp add: lookup_Cons add.assoc)
  qed
qed

lemma getMountpoint_loop_mounted:
  assumes "lookup t ts = Some a"
  shows "vfs_getMountpoint_loop t ts d = (a, d + (\<Sum>c\<leftarrow>ts. length c + 1))"
proof -
  have up: "lookup t (take k ts) \<noteq> None" for k
    using assms by (induction ts arbitrary: t k) (auto simp: lookup_Cons take_Cons split: option.splits nat.splits)
  from getMountpoint_loop_spec [of ts t d] obtain k where k: "k \<le> length ts"
    "vfs_getMountpoint_loop t ts d = (the (lookup t (take k ts)), d + (\<Sum>c\<leftarrow>take k ts. length c + 1))"
    "k < length ts \<longrightarrow> lookup t (take (Suc k) ts) = None" by blast
  with up [of "Suc k"] have "k = length ts" by (metis le_neq_implies_less)
  with k(2) assms show ?thesis by simp
qed


section \<open>Mounting and opening\<close>

definition nodes_ok :: "vfs_state \<Rightarrow> bool" where
  "nodes_ok s \<longleftrightarrow> vfs_brk s \<noteq> NULL \<and> (\<forall>a \<ge> vfs_brk s. vfs_nodes s a = None)"

definition vfs_ok :: "vfs_state \<Rightarrow> bool" where
  "vfs_ok s \<longleftrightarrow> vfs_tree s \<noteq> None \<and> \<not> vfs_lock s \<and> nodes_ok s"

definition path_of :: "string list \<Rightarrow> string" where
  "path_of ts = concat (map (\<lambda>c. CHR ''/'' # c) ts)"

text \<open>A path: at least one component, each short enough for the name of a node.\<close>

definition path_ok :: "string list \<Rightarrow> bool" where
  "path_ok ts \<longleftrightarrow> ts \<noteq> [] \<and> list_all component ts \<and> (\<forall>c\<in>set ts. NUL \<notin> set c \<and> length c < 256)"

lemma path_tokens_path_of: "path_ok ts \<Longrightarrow> path_tokens (path_of ts) = Done ts"
  by (subst path_tokens_spec) (auto simp: path_ok_def path_of_def split_path_join)

lemma length_path_of: "length (path_of ts) = (\<Sum>c\<leftarrow>ts. length c + 1)"
  by (induction ts) (auto simp: path_of_def)

lemma path_ok_shape: "path_ok ts \<Longrightarrow> path_of ts \<noteq> [] \<and> hd (path_of ts) = CHR ''/'' \<and> length (path_of ts) \<noteq> 1"
  by (cases ts) (auto simp: path_ok_def path_of_def component_def)

lemma mount_nodes_ok: "nodes_ok s \<Longrightarrow> nodes_ok (snd (mount_tree node s at t ts))"
proof (induction ts arbitrary: s at t)
  case Nil
  then show ?case by simp
next
  case (Cons pch ts)
  from mount_step [where t = t and pch = pch and s = s and at = "at" and node = node and ts = ts] obtain u s1 where
    u: "case child_of t pch of Some c \<Rightarrow> u = c \<and> s1 = s
           | None \<Rightarrow> (\<exists>fake. new_fake s pch (at @ [pch]) = (fake, s1) \<and> u = VNode pch None fake [])"
      "snd (mount_tree node s at t (pch # ts)) = snd (mount_tree node s1 (at @ [pch]) u ts)" by blast
  have "nodes_ok s1" using u(1) Cons.prems by (auto simp: createFakeNode_spec nodes_ok_def split: option.splits)
  from Cons.IH [OF this] u(2) show ?case by simp
qed

lemma path_ok_loop: "path_ok ts \<Longrightarrow> vfs_mount_loop node s at t ts = Done (mount_tree node s at t ts)"
  by (rule vfs_mount_loop_names) (simp add: path_ok_def)

lemma vfs_mount_spec:
  assumes "vfs_ok s" "vfs_tree s = Some root" "node \<noteq> NULL" "path_ok ts"
  shows "vfs_mount s node (Some (path_of ts)) =
    Done (Some ts, (snd (mount_tree node s [] root ts))\<lparr>vfs_tree := Some (fst (mount_tree node s [] root ts)), vfs_lock := False\<rparr>)"
  using assms path_ok_shape [OF assms(4)] path_tokens_path_of [OF assms(4)] path_ok_loop [OF assms(4)]
  by (simp add: vfs_mount_def vfs_ok_def split_def Let_def)

lemma vfs_mount_keeps:
  assumes "vfs_ok s" "vfs_tree s = Some root" "node \<noteq> NULL" "path_ok ts"
  shows "\<exists>s' root'. vfs_mount s node (Some (path_of ts)) = Done (Some ts, s') \<and> vfs_ok s' \<and> vfs_tree s' = Some root' \<and>
     lookup root' ts = Some node \<and> (\<forall>a < vfs_brk s. vfs_nodes s' a = vfs_nodes s a) \<and>
     (\<forall>q. q \<noteq> ts \<longrightarrow> lookup root q \<noteq> None \<longrightarrow> lookup root' q = lookup root q) \<and>
     (\<forall>q. q \<noteq> ts \<longrightarrow> lookup root q = None \<longrightarrow> \<not> strict_prefix q ts \<longrightarrow> lookup root' q = None) \<and>
     (\<forall>q. strict_prefix q ts \<longrightarrow> lookup root q = None \<longrightarrow>
          (\<exists>a. lookup root' q = Some a \<and> vfs_brk s \<le> a \<and> vfs_nodes s' a = Some (fake_node q)))"
proof -
  let ?r = "mount_tree node s [] root ts"
  let ?s' = "(snd ?r)\<lparr>vfs_tree := Some (fst ?r), vfs_lock := False\<rparr>"
  have grown: "grown s (snd ?r)" by (rule mount_grown)
  have "nodes_ok (snd ?r)" using assms(1) by (intro mount_nodes_ok) (simp add: vfs_ok_def)
  then have ok: "vfs_ok ?s'" by (simp add: vfs_ok_def nodes_ok_def)
  have "lookup (fst ?r) ts = Some node" by (subst mount_lookup) simp
  moreover have "\<forall>q. q \<noteq> ts \<longrightarrow> lookup root q \<noteq> None \<longrightarrow> lookup (fst ?r) q = lookup root q"
      "\<forall>q. q \<noteq> ts \<longrightarrow> lookup root q = None \<longrightarrow> \<not> strict_prefix q ts \<longrightarrow> lookup (fst ?r) q = None"
    by (intro allI impI, subst mount_lookup, simp)+
  moreover have "\<forall>q. strict_prefix q ts \<longrightarrow> lookup root q = None \<longrightarrow>
          (\<exists>a. lookup (fst ?r) q = Some a \<and> vfs_brk s \<le> a \<and> vfs_nodes ?s' a = Some (fake_node q))"
    using mount_fakes [of _ ts root node s "[]"] by simp
  moreover have "\<forall>a < vfs_brk s. vfs_nodes ?s' a = vfs_nodes s a" using grown_node [OF grown] by simp
  ultimately show ?thesis using vfs_mount_spec [OF assms] ok
    by (intro exI [of _ ?s'] exI [of _ "fst ?r"]) simp
qed

lemma vfs_mount_ram:
  assumes "vfs_ok s" "vfs_tree s = Some root" "node \<noteq> NULL" "path_ok ts" "vfs_mount s node (Some (path_of ts)) = Done (r, s')"
  shows "vfs_ram s' = vfs_ram s \<and> vfs_brk s \<le> vfs_brk s'"
proof -
  have "vfs_ram s2 = vfs_ram s1 \<and> vfs_brk s1 \<le> vfs_brk s2" if "grown s1 s2" for s1 s2 using that by (auto simp: grown_def)
  then show ?thesis using assms(5) vfs_mount_spec [OF assms(1-4)] mount_grown [of s node "[]" root ts] by auto
qed

lemma kopen_mounted:
  assumes "vfs_ok s" "vfs_tree s = Some root" "path_ok ts" "lookup root ts = Some node" "node \<noteq> NULL"
    "vfs_nodes s node = Some nd" "\<forall>k. fn_open nd \<noteq> M_driver k"
  shows "kopen ops s (Some (path_of ts)) flags =
    Done (vfs_brk s, s\<lparr>vfs_nodes := (vfs_nodes s)(vfs_brk s \<mapsto> nd\<lparr>fn_refcount := fn_refcount nd + 1\<rparr>), vfs_brk := vfs_brk s + 1\<rparr>)"
proof -
  have "vfs_getMountpoint s (path_of ts) = Done (node, length (path_of ts))"
    using getMountpoint_loop_mounted [OF assms(4), of 0] assms(2) path_tokens_path_of [OF assms(3)]
    by (simp add: vfs_getMountpoint_def length_path_of)
  moreover have "path_tokens [] = Done []" by (simp add: path_tokens_spec)
  moreover have "vfs_brk s \<noteq> NULL" "vfs_nodes s (vfs_brk s) = None" using assms(1) by (auto simp: vfs_ok_def nodes_ok_def)
  ultimately show ?thesis using assms(5-7)
    by (cases "fn_open nd") (auto simp: kopen_def fs_node_at_def new_fs_node_def fs_open_def set_fs_node_def)
qed

lemma fs_close_last:
  assumes "node \<noteq> NULL" "vfs_nodes s node = Some nd" "fn_refcount nd = 1" "\<forall>k. fn_close nd \<noteq> M_driver k"
  shows "fs_close ops s node = Done (s\<lparr>vfs_nodes := (vfs_nodes s)(node := None)\<rparr>)"
  using assms by (cases "fn_close nd") (simp_all add: fs_close_def set_fs_node_def fs_node_at_def free_fs_node_def)

text \<open>The listing of a directory of mount points has nothing at index 2, so a reader that stops at the first NULL sees no child.\<close>

lemma vfs_fakeNodeReaddir_gap:
  assumes "vfs_nodes s node = Some nd" "fn_dev nd = Dev_tree p" "vfs_tree s = Some root" "tree_at root p = Some t"
  shows "vfs_fakeNodeReaddir s node 2 = Done None"
    "k < length (vt_children t) \<Longrightarrow> vfs_fakeNodeReaddir s node (k + 3) = Done (Some \<lparr>d_ino = k + 1, d_name = vt_name (vt_children t ! k)\<rparr>)"
proof -
  have z: "fake_readdir_loop cs i 0 = None" for cs i by (induction cs arbitrary: i) auto
  then show "vfs_fakeNodeReaddir s node 2 = Done None" using assms by (simp add: vfs_fakeNodeReaddir_def fs_node_at_def)
  have "fake_readdir_loop cs i (i + k + 1) = Some \<lparr>d_ino = i + k + 1, d_name = vt_name (cs ! k)\<rparr>" if "k < length cs" for cs i k
    using that
  proof (induction cs arbitrary: i k)
    case (Cons c cs)
    show ?case
    proof (cases k)
      case (Suc j)
      with Cons.IH [of j "i + 1"] Cons.prems show ?thesis by simp
    qed simp
  qed simp
  from this [of k "vt_children t" 0] show "k < length (vt_children t) \<Longrightarrow>
      vfs_fakeNodeReaddir s node (k + 3) = Done (Some \<lparr>d_ino = k + 1, d_name = vt_name (vt_children t ! k)\<rparr>)"
    using assms by (simp add: vfs_fakeNodeReaddir_def fs_node_at_def)
qed

text \<open>
  The caller's string after \<open>kopen\<close>: the mount point and one component of the rest, whatever the length
  of the path.
\<close>

lemma takeWhile_cut: "NUL \<notin> set a \<Longrightarrow> takeWhile (\<lambda>c. c \<noteq> NUL) (a @ NUL # b) = a"
  by (subst takeWhile_append2) auto

lemma kopen_cut_first:
  assumes "NUL \<notin> set p" "vfs_getMountpoint s p = Done (node, depth)" "node \<noteq> NULL" "depth \<le> length p"
  defines "rest \<equiv> dropWhile (\<lambda>c. c = CHR ''/'') (drop depth p)"
  shows "kopen_cut s p = Done (take (length p - length rest) p @ takeWhile (\<lambda>c. c \<noteq> CHR ''/'') rest)"
proof (cases "depth = length p")
  case True
  then show ?thesis using assms by (simp add: kopen_cut_def)
next
  case False
  let ?m = "p @ NUL # ''/'' @ [NUL]" and ?tok = "takeWhile (\<lambda>c. c \<noteq> CHR ''/'') rest"
  have len: "length rest \<le> length p - depth" using length_dropWhile_le [of _ "drop depth p"] by (simp add: rest_def)
  have s: "cstr_at ?m depth (drop depth p)" using assms(1,4) cstr_at_drop [of ?m 0 p depth] by (simp add: cstr_at_def nth_append)
  have q: "cstr_at ?m (length p + 1) ''/''" by (simp add: cstr_at_def nth_append)
  have sep: "(\<lambda>x. x \<in> set ''/'') = (\<lambda>c. c = CHR ''/'')" "(\<lambda>x. x \<notin> set ''/'') = (\<lambda>c. c \<noteq> CHR ''/'')" by auto
  have apart: "depth + length (drop depth p) < length p + 1" using assms(4) by simp
  note tok = strtok_r_spec [OF s q disjI2 [OF apart], of None, unfolded sep, folded rest_def]
  have k: "kopen_cut s p = and_then (strtok_r ?m (Some depth) (length p + 1) None) (\<lambda>(pch, m, save). Done (takeWhile (\<lambda>c. c \<noteq> NUL) m))"
    using False assms(2-4) by (simp add: kopen_cut_def)
  have split: "p = take (length p - length rest) p @ rest"
  proof -
    have "drop depth p = takeWhile (\<lambda>c. c = CHR ''/'') (drop depth p) @ rest" by (simp add: rest_def)
    then have "p = (take depth p @ takeWhile (\<lambda>c. c = CHR ''/'') (drop depth p)) @ rest" by (metis append_assoc append_take_drop_id)
    then show ?thesis by (metis append_eq_conv_conj append_take_drop_id length_append diff_add_inverse2)
  qed
  show ?thesis
  proof (cases "rest = []")
    case True
    from tok [unfolded if_P [OF True]] k show ?thesis using takeWhile_cut [OF assms(1)] True by auto
  next
    case False
    from tok [unfolded if_not_P [OF False]] obtain a m' l' where t: "strtok_r ?m (Some depth) (length p + 1) None = Done (Some a, m', l')"
      "a = depth + (length (drop depth p) - length rest)"
      "case l' of None \<Rightarrow> ?tok = rest \<and> m' = ?m | Some e \<Rightarrow> ?tok \<noteq> rest \<and> m' = ?m[a + length ?tok := NUL] \<and>
         e = a + length ?tok + 1 \<and> cstr_at m' e (drop (length ?tok + 1) rest)" by blast
    have a: "a = length p - length rest" using t(2) len assms(4) by simp
    show ?thesis
    proof (cases l')
      case None
      with t(1,3) k takeWhile_cut [OF assms(1)] have "kopen_cut s p = Done p" "?tok = rest" by auto
      then show ?thesis by (simp only: split [symmetric])
    next
      case (Some e)
      with t(3) have m': "?tok \<noteq> rest" "m' = ?m[a + length ?tok := NUL]" by auto
      have "dropWhile (\<lambda>c. c \<noteq> CHR ''/'') rest \<noteq> []" using m'(1) takeWhile_dropWhile_id [of "\<lambda>c. c \<noteq> CHR ''/''" rest] by fastforce
      then obtain c r where r: "rest = ?tok @ c # r" by (metis neq_Nil_conv takeWhile_dropWhile_id)
      have p: "p = (take a p @ ?tok) @ c # r" using split r by (simp add: a)
      have "length (take a p @ ?tok) = a + length ?tok" using a by simp
      with p have "m' = (take a p @ ?tok) @ NUL # r @ NUL # ''/'' @ [NUL]"
        unfolding m'(2) by (metis append_Cons append_assoc list_update_length)
      moreover have "NUL \<notin> set (take a p @ ?tok)" using assms(1) p by (metis Un_iff set_append)
      ultimately show ?thesis using k t(1) takeWhile_cut [of "take a p @ ?tok"] by (simp add: a)
    qed
  qed
qed

section \<open>Properties\<close>

text \<open>
  C25: \<open>vfs_mount\<close> refines the update of a map from paths to file nodes. Mounting a node at a path whose
  components are shorter than the 256 characters of a node's name enters exactly that node there; every other path that was in the tree keeps its node; the missing directories
  on the way, and nothing else, come into existence as fake directories that know their place; no
  existing file node changes, and the lock is free again.
\<close>

theorem vfs_mount_refines:
  assumes "vfs_ok s" "vfs_tree s = Some root" "node \<noteq> NULL" "path_ok ts"
  shows "\<exists>s' root'. vfs_mount s node (Some (path_of ts)) = Done (Some ts, s') \<and> vfs_ok s' \<and> vfs_tree s' = Some root' \<and>
     lookup root' ts = Some node \<and> (\<forall>a < vfs_brk s. vfs_nodes s' a = vfs_nodes s a) \<and>
     (\<forall>q. q \<noteq> ts \<longrightarrow> lookup root q \<noteq> None \<longrightarrow> lookup root' q = lookup root q) \<and>
     (\<forall>q. q \<noteq> ts \<longrightarrow> lookup root q = None \<longrightarrow> \<not> strict_prefix q ts \<longrightarrow> lookup root' q = None) \<and>
     (\<forall>q. strict_prefix q ts \<longrightarrow> lookup root q = None \<longrightarrow>
          (\<exists>a. lookup root' q = Some a \<and> vfs_brk s \<le> a \<and> vfs_nodes s' a = Some (fake_node q)))"
  using assms by (rule vfs_mount_keeps)

text \<open>A new directory with a longer name does not fit: its fake node is written past the end of the name.\<close>

lemma vfs_mount_long_name:
  assumes "vfs_ok s" "vfs_tree s = Some root" "node \<noteq> NULL" "component c" "NUL \<notin> set c" "256 \<le> length c"
    "find_child (vt_children root) c = None"
  shows "vfs_mount s node (Some (path_of [c])) = Fault OutOfBounds"
proof -
  have "path_tokens (path_of [c]) = Done [c]"
    using assms(4,5) split_path_join [of "[c]"] by (subst path_tokens_spec) (auto simp: path_of_def)
  with assms show ?thesis by (auto simp: vfs_mount_def vfs_ok_def path_of_def vfs_createFakeNode_def component_def)
qed

definition vfs_example :: vfs_state where
  "vfs_example = vfs_init \<lparr>vfs_tree = None, vfs_filesystems = None, vfs_lock = True,
     vfs_nodes = [1 \<mapsto> fs_node_zero\<lparr>fn_name := ''null'', fn_flags := VFS_CHARDEVICE\<rparr>], vfs_brk = 2, vfs_ram = (\<lambda>a. None)\<rparr>"

lemma vfs_example_ok: "vfs_ok vfs_example" "vfs_tree vfs_example = Some (VNode ''/'' (Some ''N/A'') NULL [])"
  "path_ok [''device'', ''null'']"
  by (auto simp: vfs_example_def vfs_init_def vfs_ok_def nodes_ok_def path_ok_def component_def)

theorem vfs_mount_refines_witness:
  "\<exists>s' root' a. vfs_mount vfs_example 1 (Some ''/device/null'') = Done (Some [''device'', ''null''], s') \<and>
     vfs_tree s' = Some root' \<and> lookup root' [''device'', ''null''] = Some 1 \<and>
     lookup root' [''device''] = Some a \<and> vfs_nodes s' a = Some (fake_node [''device'']) \<and> lookup root' [''home''] = None"
proof -
  let ?p = "[''device'', ''null'']" and ?root = "VNode ''/'' (Some ''N/A'') NULL []"
  have p: "path_of ?p = ''/device/null''" by (simp add: path_of_def)
  have "(1 :: nat) \<noteq> NULL" by simp
  from vfs_mount_refines [OF vfs_example_ok(1,2) this vfs_example_ok(3)] obtain s' root' where
    r: "vfs_mount vfs_example 1 (Some (path_of ?p)) = Done (Some ?p, s')" "vfs_tree s' = Some root'" "lookup root' ?p = Some 1"
      "\<forall>q. q \<noteq> ?p \<longrightarrow> lookup ?root q = None \<longrightarrow> \<not> strict_prefix q ?p \<longrightarrow> lookup root' q = None"
      "\<forall>q. strict_prefix q ?p \<longrightarrow> lookup ?root q = None \<longrightarrow>
          (\<exists>a. lookup root' q = Some a \<and> vfs_brk vfs_example \<le> a \<and> vfs_nodes s' a = Some (fake_node q))"
    by blast
  have "lookup root' [''home''] = None" by (rule r(4) [rule_format]) (simp_all add: lookup_leaf)
  moreover have "\<exists>a. lookup root' [''device''] = Some a \<and> vfs_brk vfs_example \<le> a \<and> vfs_nodes s' a = Some (fake_node [''device''])"
    by (rule r(5) [rule_format]) (simp_all add: lookup_leaf)
  ultimately show ?thesis using r(1-3) unfolding p by blast
qed

text \<open>
  C26: What is mounted can be opened and closed again. After \<open>vfs_mount\<close> of a node without references and
  without open and close methods, at a path of components shorter than 256 characters, \<open>kopen\<close> of the path
  returns a fresh copy of it with one reference, and \<open>fs_close\<close> of the copy frees it: the file nodes and the
  tree are those after the mount.
\<close>

theorem vfs_mount_kopen_close:
  assumes "vfs_ok s" "node \<noteq> NULL" "node < vfs_brk s" "path_ok ts" "vfs_nodes s node = Some nd" "fn_refcount nd = 0"
    "fn_open nd = M_NULL" "fn_close nd = M_NULL"
  shows "\<exists>s1 s2 s3 r. vfs_mount s node (Some (path_of ts)) = Done (Some ts, s1) \<and>
     kopen ops s1 (Some (path_of ts)) flags = Done (r, s2) \<and> vfs_nodes s1 r = None \<and>
     vfs_nodes s2 r = Some (nd\<lparr>fn_refcount := 1\<rparr>) \<and>
     fs_close ops s2 r = Done s3 \<and> vfs_nodes s3 = vfs_nodes s1 \<and> vfs_tree s3 = vfs_tree s1"
proof -
  from assms(1) obtain root where root: "vfs_tree s = Some root" by (auto simp: vfs_ok_def)
  from vfs_mount_keeps [OF assms(1) root assms(2,4)] obtain s1 root' where
    s1: "vfs_mount s node (Some (path_of ts)) = Done (Some ts, s1)" "vfs_ok s1" "vfs_tree s1 = Some root'" "lookup root' ts = Some node"
      "\<forall>a < vfs_brk s. vfs_nodes s1 a = vfs_nodes s a" by blast
  have nd: "vfs_nodes s1 node = Some nd" using s1(5) assms(3,5) by simp
  let ?r = "vfs_brk s1"
  let ?s2 = "s1\<lparr>vfs_nodes := (vfs_nodes s1)(?r \<mapsto> nd\<lparr>fn_refcount := 1\<rparr>), vfs_brk := ?r + 1\<rparr>"
  have fresh: "?r \<noteq> NULL" "vfs_nodes s1 ?r = None" using s1(2) by (auto simp: vfs_ok_def nodes_ok_def)
  have "kopen ops s1 (Some (path_of ts)) flags = Done (?r, ?s2)"
    using kopen_mounted [OF s1(2,3) assms(4) s1(4) assms(2) nd] assms(6,7) by simp
  moreover have "fs_close ops ?s2 ?r = Done (?s2\<lparr>vfs_nodes := (vfs_nodes ?s2)(?r := None)\<rparr>)"
    by (rule fs_close_last [OF fresh(1), of _ "nd\<lparr>fn_refcount := 1\<rparr>"]) (use assms(8) in simp_all)
  moreover have "(vfs_nodes ?s2)(?r := None) = vfs_nodes s1" using fresh(2) by auto
  ultimately show ?thesis using s1(1) fresh(2) by (intro exI [of _ s1] exI [of _ ?s2] exI [of _ "?s2\<lparr>vfs_nodes := (vfs_nodes ?s2)(?r := None)\<rparr>"] exI [of _ ?r]) simp
qed

theorem vfs_mount_kopen_close_witness:
  "\<forall>ops. \<exists>s1 s2 r. vfs_mount vfs_example 1 (Some ''/device/null'') = Done (Some [''device'', ''null''], s1) \<and>
     kopen ops s1 (Some ''/device/null'') 0 = Done (r, s2) \<and>
     vfs_nodes s2 r = Some (fs_node_zero\<lparr>fn_name := ''null'', fn_flags := VFS_CHARDEVICE, fn_refcount := 1\<rparr>)"
proof
  fix ops
  have p: "path_of [''device'', ''null''] = ''/device/null''" by (simp add: path_of_def)
  let ?nd = "fs_node_zero\<lparr>fn_name := ''null'', fn_flags := VFS_CHARDEVICE\<rparr>"
  have "vfs_nodes vfs_example 1 = Some ?nd" "(1 :: nat) < vfs_brk vfs_example" by (simp_all add: vfs_example_def vfs_init_def)
  then show "\<exists>s1 s2 r. vfs_mount vfs_example 1 (Some ''/device/null'') = Done (Some [''device'', ''null''], s1) \<and>
     kopen ops s1 (Some ''/device/null'') 0 = Done (r, s2) \<and>
     vfs_nodes s2 r = Some (fs_node_zero\<lparr>fn_name := ''null'', fn_flags := VFS_CHARDEVICE, fn_refcount := 1\<rparr>)"
    using vfs_mount_kopen_close [OF vfs_example_ok(1) _ _ vfs_example_ok(3), of 1 ?nd ops 0] unfolding p
    by (auto simp: fs_node_zero_def)
qed

end
