(* ===== verification/Fd.thy ===== *)
theory Fd
  imports Vfs
begin

text \<open>
  \<open>hexahedron/task/fd.c\<close> and the system calls on files, heap and working directory of
  \<open>hexahedron/task/syscall.c\<close>, as the current process makes them. Descriptor tables are shared between
  processes and live on a heap. A string or buffer of the caller is its contents; the check that its
  address is mapped, and the descriptors of the page tables behind it, are not modelled.
\<close>

section \<open>Descriptor tables\<close>

record fd_t =
  fd_number :: cint
  fd_node :: addr
  fd_mode :: u32
  fd_offset :: u64

text \<open>A slot of \<open>fds\<close>: memory \<open>krealloc\<close> added and nobody wrote, NULL, or a descriptor.\<close>

datatype fd_slot = Uninit | NullSlot | Slot fd_t

record fd_table_t =
  fdt_fds :: "fd_slot list"
  fdt_amount :: nat
  fdt_total :: nat
  fdt_references :: nat
  fdt_lock :: bool

record file_state =
  fs_vfs :: vfs_state
  fs_tables :: "addr \<rightharpoonup> fd_table_t"
  fs_fd_table :: addr
  fs_wd_path :: string
  fs_heap :: u64
  fs_heap_base :: u64
  fs_terminal :: "u8 list"

definition PROCESS_FD_BASE_AMOUNT :: nat where "PROCESS_FD_BASE_AMOUNT = 8"
definition PROCESS_FD_EXPAND_AMOUNT :: nat where "PROCESS_FD_EXPAND_AMOUNT = 8"

definition table_at :: "file_state \<Rightarrow> fd_table_t outcome" where
  "table_at s = (if fs_fd_table s = NULL then Fault BadPointer
                 else case fs_tables s (fs_fd_table s) of Some t \<Rightarrow> Done t | None \<Rightarrow> Fault BadPointer)"

definition set_table :: "file_state \<Rightarrow> fd_table_t \<Rightarrow> file_state" where
  "set_table s t = s\<lparr>fs_tables := (fs_tables s)(fs_fd_table s \<mapsto> t)\<rparr>"

text \<open>The table \<open>process_createStructure\<close> gives to a process without parent.\<close>

definition fd_table_new :: fd_table_t where
  "fd_table_new = \<lparr>fdt_fds = replicate PROCESS_FD_BASE_AMOUNT NullSlot, fdt_amount = 0,
     fdt_total = PROCESS_FD_BASE_AMOUNT, fdt_references = 1, fdt_lock = False\<rparr>"

definition read_slot :: "fd_table_t \<Rightarrow> nat \<Rightarrow> fd_t option outcome" where
  "read_slot t i = and_then (array_get (fdt_fds t) i) (\<lambda>x.
     case x of Uninit \<Rightarrow> Fault BadPointer | NullSlot \<Rightarrow> Done None | Slot f \<Rightarrow> Done (Some f))"

text \<open>The macro compares with \<open>>=\<close>. A negative descriptor is a huge \<open>size_t\<close>.\<close>

definition FD_VALIDATE :: "fd_table_t \<Rightarrow> cint \<Rightarrow> fd_t option outcome" where
  "FD_VALIDATE t fd =
     (if sint fd < 0 \<or> fdt_amount t < unat fd then Done None else read_slot t (unat fd))"

text \<open>A change of the descriptor in slot \<open>i\<close>.\<close>

definition put_slot :: "file_state \<Rightarrow> fd_table_t \<Rightarrow> nat \<Rightarrow> fd_t \<Rightarrow> file_state outcome" where
  "put_slot s t i f = and_then (array_set (fdt_fds t) i (Slot f)) (\<lambda>fds. Done (set_table s (t\<lparr>fdt_fds := fds\<rparr>)))"

section \<open>Operations\<close>

primrec fd_close_all :: "fs_ops \<Rightarrow> fd_table_t \<Rightarrow> nat \<Rightarrow> nat \<Rightarrow> vfs_state \<Rightarrow> vfs_state outcome" where
  "fd_close_all ops t i 0 v = Done v"
| "fd_close_all ops t i (Suc n) v =
     and_then (read_slot t i) (\<lambda>fd.
     and_then (case fd of Some f \<Rightarrow> fs_close ops v (fd_node f) | None \<Rightarrow> Done v) (\<lambda>v'.
     fd_close_all ops t (Suc i) n v'))"

definition fd_destroyTable :: "fs_ops \<Rightarrow> file_state \<Rightarrow> (cint \<times> file_state) outcome" where
  "fd_destroyTable ops s =
     and_then (table_at s) (\<lambda>t.
     and_then (lock_acquire (fdt_lock t)) (\<lambda>l.
     if fdt_references t > 1 then
       Done (0, (set_table s (t\<lparr>fdt_references := fdt_references t - 1, fdt_lock := lock_release l\<rparr>))\<lparr>fs_fd_table := NULL\<rparr>)
     else
       and_then (fd_close_all ops t 0 (fdt_amount t) (fs_vfs s)) (\<lambda>v.
       Done (0, s\<lparr>fs_vfs := v, fs_tables := (fs_tables s)(fs_fd_table s := None), fs_fd_table := NULL\<rparr>))))"

definition fd_add :: "file_state \<Rightarrow> addr \<Rightarrow> (fd_t option \<times> file_state) outcome" where
  "fd_add s node =
     (if node = NULL then Done (None, s)
      else
        and_then (table_at s) (\<lambda>t.
        and_then (lock_acquire (fdt_lock t)) (\<lambda>l.
        let t1 = (if fdt_total t \<le> fdt_amount t
                  then t\<lparr>fdt_total := fdt_total t + PROCESS_FD_EXPAND_AMOUNT,
                         fdt_fds := fdt_fds t @ replicate PROCESS_FD_EXPAND_AMOUNT Uninit\<rparr> else t);
            new_fd = \<lparr>fd_number = of_nat (fdt_amount t1), fd_node = node, fd_mode = 0, fd_offset = 0\<rparr> in
        and_then (array_set (fdt_fds t1) (fdt_amount t1) (Slot new_fd)) (\<lambda>fds.
        Done (Some new_fd, set_table s (t1\<lparr>fdt_fds := fds, fdt_amount := fdt_amount t1 + 1, fdt_lock := lock_release l\<rparr>))))))"

definition fd_remove :: "file_state \<Rightarrow> cint \<Rightarrow> cint \<times> file_state" where
  "fd_remove s fd = (0, s)"

section \<open>System calls\<close>

definition EBADF :: cint where "EBADF = 9"
definition ENOENT :: cint where "ENOENT = 2"
definition EEXIST :: cint where "EEXIST = 17"
definition ENOTDIR :: cint where "ENOTDIR = 20"
definition EROFS :: cint where "EROFS = 30"

definition O_CREAT :: u32 where "O_CREAT = 0x00000100"
definition O_EXCL :: u32 where "O_EXCL = 0x00000200"
definition O_APPEND :: u32 where "O_APPEND = 0x00002000"
definition O_DIRECTORY :: u32 where "O_DIRECTORY = 0x00200000"

text \<open>A change of the file system by an operation on it.\<close>

definition with_vfs :: "file_state \<Rightarrow> ('a \<times> vfs_state) outcome \<Rightarrow> ('a \<times> file_state) outcome" where
  "with_vfs s r = and_then r (\<lambda>(x, v). Done (x, s\<lparr>fs_vfs := v\<rparr>))"

definition close_node :: "fs_ops \<Rightarrow> file_state \<Rightarrow> addr \<Rightarrow> file_state outcome" where
  "close_node ops s node = and_then (fs_close ops (fs_vfs s) node) (\<lambda>v. Done (s\<lparr>fs_vfs := v\<rparr>))"

text \<open>The end of \<open>sys_open\<close>: the new descriptor is in the last used slot.\<close>

definition open_fd :: "file_state \<Rightarrow> addr \<Rightarrow> fs_node_t \<Rightarrow> u32 \<Rightarrow> (cint \<times> file_state) outcome" where
  "open_fd s node n flags =
     and_then (fd_add s node) (\<lambda>(fd, s').
     case fd of
       None \<Rightarrow> Fault BadPointer
     | Some f \<Rightarrow>
         if flags AND O_APPEND \<noteq> 0 then
           and_then (table_at s') (\<lambda>t.
           and_then (put_slot s' t (fdt_amount t - 1) (f\<lparr>fd_offset := fn_length n\<rparr>)) (\<lambda>s''. Done (fd_number f, s'')))
         else Done (fd_number f, s'))"

definition sys_open :: "fs_ops \<Rightarrow> bool \<Rightarrow> file_state \<Rightarrow> string \<Rightarrow> u32 \<Rightarrow> (cint \<times> file_state) outcome" where
  "sys_open ops checked s pathname flags =
     and_then (with_vfs s (kopen_user ops checked (fs_vfs s) (Some (fs_wd_path s)) (Some pathname) flags)) (\<lambda>(node, s1).
     if node \<noteq> NULL \<and> flags AND O_CREAT \<noteq> 0 \<and> flags AND O_EXCL \<noteq> 0 then
       and_then (close_node ops s1 node) (\<lambda>s2. Done (- EEXIST, s2))
     else if node = NULL \<and> flags AND O_CREAT \<noteq> 0 then Done (- EROFS, s1)
     else if node = NULL then Done (- ENOENT, s1)
     else
       and_then (fs_node_at (fs_vfs s1) node) (\<lambda>n.
       if fn_flags n AND VFS_DIRECTORY = 0 \<and> flags AND O_DIRECTORY \<noteq> 0 then
         and_then (close_node ops s1 node) (\<lambda>s2. Done (- ENOTDIR, s2))
       else
         open_fd s1 node n flags))"

text \<open>\<open>sys_read\<close> gives the bytes for the buffer and the count, \<open>-EBADF\<close> for a bad descriptor.\<close>

definition sys_read :: "fs_ops \<Rightarrow> file_state \<Rightarrow> cint \<Rightarrow> u64 \<Rightarrow> (u8 list \<times> u64 \<times> file_state) outcome" where
  "sys_read ops s fd cnt =
     and_then (table_at s) (\<lambda>t.
     and_then (FD_VALIDATE t fd) (\<lambda>r.
     case r of
       None \<Rightarrow> Done ([], - scast EBADF, s)
     | Some f \<Rightarrow>
         and_then (fs_read ops (fs_vfs s) (fd_node f) (fd_offset f) cnt) (\<lambda>(bytes, i, v).
         and_then (put_slot (s\<lparr>fs_vfs := v\<rparr>) t (unat fd) (f\<lparr>fd_offset := fd_offset f + i\<rparr>)) (\<lambda>s'.
         Done (bytes, i, s')))))"

definition STDOUT_FILE_DESCRIPTOR :: cint where "STDOUT_FILE_DESCRIPTOR = 1"

definition sys_write :: "fs_ops \<Rightarrow> file_state \<Rightarrow> cint \<Rightarrow> u8 list \<Rightarrow> u64 \<Rightarrow> (u64 \<times> file_state) outcome" where
  "sys_write ops s fd buffer cnt =
     (if fd = STDOUT_FILE_DESCRIPTOR then
        if unat cnt \<le> length buffer then Done (cnt, s\<lparr>fs_terminal := fs_terminal s @ take (unat cnt) buffer\<rparr>)
        else Fault OutOfBounds
      else
        and_then (table_at s) (\<lambda>t.
        and_then (FD_VALIDATE t fd) (\<lambda>r.
        case r of
          None \<Rightarrow> Done (- scast EBADF, s)
        | Some f \<Rightarrow>
            and_then (fs_write ops (fs_vfs s) (fd_node f) (fd_offset f) cnt buffer) (\<lambda>(i, v).
            and_then (put_slot (s\<lparr>fs_vfs := v\<rparr>) t (unat fd) (f\<lparr>fd_offset := fd_offset f + i\<rparr>)) (\<lambda>s'. Done (i, s'))))))"

definition sys_close :: "file_state \<Rightarrow> cint \<Rightarrow> (cint \<times> file_state) outcome" where
  "sys_close s fd =
     and_then (table_at s) (\<lambda>t.
     and_then (FD_VALIDATE t fd) (\<lambda>r.
     case r of None \<Rightarrow> Done (- EBADF, s) | Some f \<Rightarrow> let (x, s') = fd_remove s fd in Done (0, s')))"

text \<open>\<open>struct stat\<close> and the three calls that fill it. \<open>st_dev\<close> is combined with what the buffer held before.\<close>

record stat =
  st_dev :: cint
  st_ino :: cint
  st_mode :: cint
  st_nlink :: u16
  st_uid :: cint
  st_gid :: cint
  st_rdev :: cint
  st_size :: u64
  st_atime :: u64
  st_mtime :: u64
  st_ctime :: u64
  st_blksize :: u64
  st_blocks :: u64

definition VFS_PIPE :: u64 where "VFS_PIPE = 0x10"
definition VFS_SYMLINK :: u64 where "VFS_SYMLINK = 0x20"
definition VFS_MOUNTPOINT :: u64 where "VFS_MOUNTPOINT = 0x40"
definition VFS_SOCKET :: u64 where "VFS_SOCKET = 0x80"

definition S_IFBLK :: cint where "S_IFBLK = 1"
definition S_IFCHR :: cint where "S_IFCHR = 2"
definition S_IFIFO :: cint where "S_IFIFO = 3"
definition S_IFREG :: cint where "S_IFREG = 4"
definition S_IFDIR :: cint where "S_IFDIR = 5"
definition S_IFLNK :: cint where "S_IFLNK = 6"
definition S_IFSOCK :: cint where "S_IFSOCK = 7"

definition STAT_DEFAULT_BLOCK_SIZE :: u64 where "STAT_DEFAULT_BLOCK_SIZE = 512"
definition O_NOFOLLOW :: u32 where "O_NOFOLLOW = 0x00400000"
definition O_PATH :: u32 where "O_PATH = 0x04000000"

definition sys_stat_common :: "fs_node_t \<Rightarrow> stat \<Rightarrow> stat" where
  "sys_stat_common f statbuf =
     (let d = st_dev statbuf;
          d = (if fn_flags f = VFS_DIRECTORY then d OR S_IFDIR else d);
          d = (if fn_flags f = VFS_BLOCKDEVICE then d OR S_IFBLK else d);
          d = (if fn_flags f = VFS_CHARDEVICE then d OR S_IFCHR else d);
          d = (if fn_flags f = VFS_FILE then d OR S_IFREG else d);
          d = (if fn_flags f = VFS_SYMLINK then d OR S_IFLNK else d);
          d = (if fn_flags f = VFS_PIPE then d OR S_IFIFO else d);
          d = (if fn_flags f = VFS_SOCKET then d OR S_IFSOCK else d);
          d = (if fn_flags f = VFS_MOUNTPOINT then d OR S_IFDIR else d) in
      \<lparr>st_dev = d, st_ino = ucast (fn_inode f), st_mode = d OR fn_mask f, st_nlink = 0, st_uid = fn_uid f,
       st_gid = fn_gid f, st_rdev = 0, st_size = fn_length f, st_atime = fn_atime f, st_mtime = fn_mtime f,
       st_ctime = fn_ctime f, st_blksize = STAT_DEFAULT_BLOCK_SIZE, st_blocks = 0\<rparr>)"

definition stat_path :: "fs_ops \<Rightarrow> bool \<Rightarrow> file_state \<Rightarrow> string \<Rightarrow> u32 \<Rightarrow> stat \<Rightarrow> (cint \<times> stat \<times> file_state) outcome" where
  "stat_path ops checked s pathname flags statbuf =
     and_then (with_vfs s (kopen_user ops checked (fs_vfs s) (Some (fs_wd_path s)) (Some pathname) flags)) (\<lambda>(f, s1).
     if f = NULL then Done (- ENOENT, statbuf, s1)
     else
       and_then (fs_node_at (fs_vfs s1) f) (\<lambda>n.
       and_then (close_node ops s1 f) (\<lambda>s2. Done (0, sys_stat_common n statbuf, s2))))"

definition sys_stat :: "fs_ops \<Rightarrow> bool \<Rightarrow> file_state \<Rightarrow> string \<Rightarrow> stat \<Rightarrow> (cint \<times> stat \<times> file_state) outcome" where
  "sys_stat ops checked s pathname statbuf = stat_path ops checked s pathname 0 statbuf"

definition sys_fstat :: "file_state \<Rightarrow> cint \<Rightarrow> stat \<Rightarrow> (cint \<times> stat) outcome" where
  "sys_fstat s fd statbuf =
     and_then (table_at s) (\<lambda>t.
     and_then (FD_VALIDATE t fd) (\<lambda>r.
     case r of
       None \<Rightarrow> Done (- EBADF, statbuf)
     | Some f \<Rightarrow> and_then (fs_node_at (fs_vfs s) (fd_node f)) (\<lambda>n. Done (0, sys_stat_common n statbuf))))"

definition sys_lstat :: "fs_ops \<Rightarrow> bool \<Rightarrow> file_state \<Rightarrow> string \<Rightarrow> stat \<Rightarrow> (cint \<times> stat \<times> file_state) outcome" where
  "sys_lstat ops checked s pathname statbuf = stat_path ops checked s pathname (O_NOFOLLOW OR O_PATH) statbuf"

definition sys_ioctl :: "fs_ops \<Rightarrow> file_state \<Rightarrow> cint \<Rightarrow> u64 \<Rightarrow> (cint \<times> file_state) outcome" where
  "sys_ioctl ops s fd request =
     and_then (table_at s) (\<lambda>t.
     and_then (FD_VALIDATE t fd) (\<lambda>r.
     case r of None \<Rightarrow> Done (- EBADF, s) | Some f \<Rightarrow> with_vfs s (fs_ioctl ops (fs_vfs s) (fd_node f) request)))"

definition SEEK_SET :: cint where "SEEK_SET = 0"
definition SEEK_CUR :: cint where "SEEK_CUR = 1"
definition SEEK_END :: cint where "SEEK_END = 2"

definition sys_lseek :: "file_state \<Rightarrow> cint \<Rightarrow> u64 \<Rightarrow> cint \<Rightarrow> (u64 \<times> file_state) outcome" where
  "sys_lseek s fd offset whence =
     and_then (table_at s) (\<lambda>t.
     and_then (FD_VALIDATE t fd) (\<lambda>r.
     case r of
       None \<Rightarrow> Done (- scast EBADF, s)
     | Some f \<Rightarrow>
         and_then (if whence = SEEK_SET then Done (Some offset)
                   else if whence = SEEK_CUR then Done (Some (fd_offset f + offset))
                   else if whence = SEEK_END then
                     and_then (fs_node_at (fs_vfs s) (fd_node f)) (\<lambda>n. Done (Some (fn_length n + offset)))
                   else Done None) (\<lambda>off.
         case off of
           None \<Rightarrow> Done (- scast EINVAL, s)
         | Some o' \<Rightarrow> and_then (put_slot s t (unat fd) (f\<lparr>fd_offset := o'\<rparr>)) (\<lambda>s'. Done (o', s')))))"

text \<open>\<open>freed\<close> is the range that \<open>mem_free\<close> gets.\<close>

definition sys_brk :: "file_state \<Rightarrow> u64 \<Rightarrow> u64 \<times> (u64 \<times> u64) option \<times> file_state" where
  "sys_brk s a =
     (if a < fs_heap_base s then (fs_heap s, None, s)
      else if a < fs_heap s then (a, Some (a, fs_heap s - a), s\<lparr>fs_heap := a\<rparr>)
      else (a, None, s\<lparr>fs_heap := a\<rparr>))"

text \<open>The buffer of the caller before and after; the value is the size that was asked for.\<close>

definition sys_getcwd :: "file_state \<Rightarrow> mem option \<Rightarrow> nat \<Rightarrow> (nat \<times> mem option) outcome" where
  "sys_getcwd s buffer sz = (case buffer of
     None \<Rightarrow> Done (0, buffer)
   | Some b \<Rightarrow>
       if sz = 0 then Done (0, buffer)
       else
         let wd = fs_wd_path s; wd_len = length wd; n = (if wd_len > sz then sz else wd_len) in
         if length b < n then Fault OutOfBounds
         else and_then (strncpy (b @ wd @ [NUL]) 0 (length b) n) (\<lambda>m. Done (sz, Some (take (length b) m))))"

text \<open>The string that becomes the working directory is the one that \<open>kopen\<close> has cut up.\<close>

definition sys_chdir :: "fs_ops \<Rightarrow> bool \<Rightarrow> file_state \<Rightarrow> string \<Rightarrow> (cint \<times> file_state) outcome" where
  "sys_chdir ops checked s path =
     and_then (vfs_canonicalizePath checked (fs_wd_path s) path) (\<lambda>new_path.
     and_then (with_vfs s (kopen ops (fs_vfs s) (Some new_path) 0)) (\<lambda>(tmpnode, s1).
     if tmpnode \<noteq> NULL then
       and_then (kopen_cut (fs_vfs s) new_path) (\<lambda>wd.
       and_then (close_node ops (s1\<lparr>fs_wd_path := wd\<rparr>) tmpnode) (\<lambda>s2. Done (0, s2)))
     else Done (- ENOENT, s1)))"

definition sys_fchdir :: "file_state \<Rightarrow> cint \<Rightarrow> cint \<times> file_state" where
  "sys_fchdir s fd = (- EINVAL, s)"

text \<open>One system call of the current process, decoded, for its effect on the state.\<close>

datatype file_call =
    Call_open string u32
  | Call_read cint u64
  | Call_write cint "u8 list" u64
  | Call_close cint
  | Call_stat string stat
  | Call_fstat cint stat
  | Call_lstat string stat
  | Call_ioctl cint u64
  | Call_brk u64
  | Call_lseek cint u64 cint
  | Call_chdir string
  | Call_fchdir cint

definition file_syscall :: "fs_ops \<Rightarrow> bool \<Rightarrow> file_call \<Rightarrow> file_state \<Rightarrow> file_state outcome" where
  "file_syscall ops checked c s = (case c of
     Call_open p fl \<Rightarrow> and_then (sys_open ops checked s p fl) (\<lambda>(r, s'). Done s')
   | Call_read fd n \<Rightarrow> and_then (sys_read ops s fd n) (\<lambda>(b, r, s'). Done s')
   | Call_write fd b n \<Rightarrow> and_then (sys_write ops s fd b n) (\<lambda>(r, s'). Done s')
   | Call_close fd \<Rightarrow> and_then (sys_close s fd) (\<lambda>(r, s'). Done s')
   | Call_stat p b \<Rightarrow> and_then (sys_stat ops checked s p b) (\<lambda>(r, b', s'). Done s')
   | Call_fstat fd b \<Rightarrow> and_then (sys_fstat s fd b) (\<lambda>(r, b'). Done s)
   | Call_lstat p b \<Rightarrow> and_then (sys_lstat ops checked s p b) (\<lambda>(r, b', s'). Done s')
   | Call_ioctl fd rq \<Rightarrow> and_then (sys_ioctl ops s fd rq) (\<lambda>(r, s'). Done s')
   | Call_brk a \<Rightarrow> (case sys_brk s a of (r, freed, s') \<Rightarrow> Done s')
   | Call_lseek fd off w \<Rightarrow> and_then (sys_lseek s fd off w) (\<lambda>(r, s'). Done s')
   | Call_chdir p \<Rightarrow> and_then (sys_chdir ops checked s p) (\<lambda>(r, s'). Done s')
   | Call_fchdir fd \<Rightarrow> (case sys_fchdir s fd of (r, s') \<Rightarrow> Done s'))"

primrec file_calls :: "fs_ops \<Rightarrow> bool \<Rightarrow> file_call list \<Rightarrow> file_state \<Rightarrow> file_state outcome" where
  "file_calls ops checked [] s = Done s"
| "file_calls ops checked (c # cs) s = and_then (file_syscall ops checked c s) (file_calls ops checked cs)"

section \<open>Invariant\<close>

text \<open>
  A table in order: the used slots come first, each holds a descriptor whose number is its index, and the
  rest of the allocated slots is still free.
\<close>

definition fdt_ok :: "fd_table_t \<Rightarrow> bool" where
  "fdt_ok t \<longleftrightarrow> fdt_amount t \<le> fdt_total t \<and> length (fdt_fds t) = fdt_total t \<and> \<not> fdt_lock t \<and>
     (\<forall>i < fdt_amount t. \<exists>f. fdt_fds t ! i = Slot f \<and> fd_number f = of_nat i) \<and>
     (\<forall>i. fdt_amount t \<le> i \<and> i < fdt_total t \<longrightarrow> fdt_fds t ! i \<in> {Uninit, NullSlot})"

definition files_ok :: "file_state \<Rightarrow> bool" where
  "files_ok s \<longleftrightarrow> (\<exists>t. table_at s = Done t \<and> fdt_ok t)"

lemma fdt_ok_new: "fdt_ok fd_table_new"
  by (simp add: fdt_ok_def fd_table_new_def)

lemma table_at_set: "table_at s = Done t \<Longrightarrow> table_at (set_table s t') = Done t'"
  by (auto simp: table_at_def set_table_def split: if_splits)

lemma FD_VALIDATE_used:
  assumes "fdt_ok t" "i < fdt_amount t" "fdt_amount t < 2 ^ 31"
  shows "\<exists>f. FD_VALIDATE t (of_nat i) = Done (Some f) \<and> fdt_fds t ! i = Slot f \<and> fd_number f = of_nat i"
proof -
  have i: "i < 2 ^ 31" using assms(2,3) by simp
  have "sint (of_nat i :: cint) = int i" using i by (rule sint_of_nat_31)
  moreover have "unat (of_nat i :: cint) = i" by (rule unat_of_nat_less) (use i in simp)
  ultimately show ?thesis using assms by (auto simp: FD_VALIDATE_def fdt_ok_def read_slot_def)
qed

lemma fd_add_spec:
  assumes "table_at s = Done t" "fdt_ok t" "node \<noteq> NULL"
  shows "\<exists>f t'. fd_add s node = Done (Some f, set_table s t') \<and> fdt_ok t' \<and> fd_number f = of_nat (fdt_amount t) \<and>
           fd_node f = node \<and> fd_offset f = 0 \<and> fdt_amount t' = fdt_amount t + 1 \<and> fdt_fds t' ! fdt_amount t = Slot f \<and>
           (\<forall>i < fdt_amount t. fdt_fds t' ! i = fdt_fds t ! i)"
proof -
  define t1 where "t1 = (if fdt_total t \<le> fdt_amount t
      then t\<lparr>fdt_total := fdt_total t + PROCESS_FD_EXPAND_AMOUNT,
             fdt_fds := fdt_fds t @ replicate PROCESS_FD_EXPAND_AMOUNT Uninit\<rparr> else t)"
  let ?f = "\<lparr>fd_number = of_nat (fdt_amount t), fd_node = node, fd_mode = 0, fd_offset = 0\<rparr>"
  let ?t' = "t1\<lparr>fdt_fds := (fdt_fds t1)[fdt_amount t := Slot ?f], fdt_amount := fdt_amount t + 1, fdt_lock := False\<rparr>"
  have t1: "fdt_amount t1 = fdt_amount t" "fdt_amount t < fdt_total t1" "length (fdt_fds t1) = fdt_total t1"
    "\<forall>i < fdt_amount t. fdt_fds t1 ! i = fdt_fds t ! i"
    "\<forall>i. fdt_amount t \<le> i \<and> i < fdt_total t1 \<longrightarrow> fdt_fds t1 ! i \<in> {Uninit, NullSlot}"
    using assms(2) by (auto simp: t1_def fdt_ok_def PROCESS_FD_EXPAND_AMOUNT_def nth_append)
  have old: "fdt_fds ?t' ! i = fdt_fds t ! i" if "i < fdt_amount t" for i using that t1 by simp
  have "fdt_ok ?t'"
    unfolding fdt_ok_def
  proof (intro conjI allI impI)
    fix i assume "i < fdt_amount ?t'"
    then consider "i = fdt_amount t" | "i < fdt_amount t" by fastforce
    then show "\<exists>f. fdt_fds ?t' ! i = Slot f \<and> fd_number f = of_nat i"
    proof cases
      case 1
      then show ?thesis using t1 by simp
    next
      case 2
      then show ?thesis using old [OF 2] assms(2) by (auto simp: fdt_ok_def)
    qed
  next
    fix i assume "fdt_amount ?t' \<le> i \<and> i < fdt_total ?t'"
    then have "fdt_amount t < i" "i < fdt_total t1" by simp_all
    then show "fdt_fds ?t' ! i \<in> {Uninit, NullSlot}" using t1(5) by auto
  qed (use t1 in simp_all)
  moreover have "fd_add s node = Done (Some ?f, set_table s ?t')"
    using assms t1 by (simp add: fd_add_def fdt_ok_def Let_def flip: t1_def)
  moreover have "fdt_fds ?t' ! fdt_amount t = Slot ?f" using t1 by simp
  ultimately show ?thesis using old by (intro exI [of _ ?f] exI [of _ ?t']) simp
qed

lemma FD_VALIDATE_SomeD:
  assumes "fdt_ok t" "FD_VALIDATE t fd = Done (Some f)"
  shows "unat fd < fdt_amount t \<and> fdt_fds t ! unat fd = Slot f \<and> fd_number f = fd"
proof -
  have r: "read_slot t (unat fd) = Done (Some f)" and le: "unat fd \<le> fdt_amount t"
    using assms(2) by (auto simp: FD_VALIDATE_def split: if_splits)
  then have slot: "unat fd < fdt_total t" "fdt_fds t ! unat fd = Slot f"
    using assms(1) by (auto simp: read_slot_def fdt_ok_def outcome_iff split: fd_slot.splits)
  have lt: "unat fd < fdt_amount t"
  proof (rule ccontr)
    assume "\<not> unat fd < fdt_amount t"
    then have "fdt_fds t ! unat fd \<in> {Uninit, NullSlot}" using assms(1) slot(1) by (simp add: fdt_ok_def)
    then show False using slot(2) by simp
  qed
  then obtain g where "fdt_fds t ! unat fd = Slot g" "fd_number g = of_nat (unat fd)" using assms(1) by (auto simp: fdt_ok_def)
  then show ?thesis using lt slot by simp
qed

text \<open>What a call may do to a table: add at most \<open>k\<close> descriptors, and let none refer to another file.\<close>

definition slot_node :: "fd_slot \<Rightarrow> addr" where
  "slot_node x = (case x of Slot f \<Rightarrow> fd_node f | _ \<Rightarrow> NULL)"

definition table_le :: "nat \<Rightarrow> fd_table_t \<Rightarrow> fd_table_t \<Rightarrow> bool" where
  "table_le k t t' \<longleftrightarrow> fdt_amount t \<le> fdt_amount t' \<and> fdt_amount t' \<le> fdt_amount t + k \<and>
     (\<forall>i < fdt_amount t. slot_node (fdt_fds t' ! i) = slot_node (fdt_fds t ! i))"

definition keeps :: "nat \<Rightarrow> file_state \<Rightarrow> file_state \<Rightarrow> bool" where
  "keeps k s s' \<longleftrightarrow> (\<forall>t. table_at s = Done t \<and> fdt_ok t \<longrightarrow> (\<exists>t'. table_at s' = Done t' \<and> fdt_ok t' \<and> table_le k t t'))"

lemma keepsD: "keeps k s s' \<Longrightarrow> table_at s = Done t \<Longrightarrow> fdt_ok t \<Longrightarrow> \<exists>t'. table_at s' = Done t' \<and> fdt_ok t' \<and> table_le k t t'"
  by (simp add: keeps_def)

lemma keeps_same [intro]: "table_at s' = table_at s \<Longrightarrow> keeps k s s'"
  by (auto simp: keeps_def table_le_def)

lemma keeps_trans:
  assumes "keeps j s s1" "keeps k s1 s2"
  shows "keeps (j + k) s s2"
  unfolding keeps_def
proof (intro allI impI)
  fix t assume "table_at s = Done t \<and> fdt_ok t"
  then obtain t1 where 1: "table_at s1 = Done t1" "fdt_ok t1" "table_le j t t1" using keepsD [OF assms(1)] by blast
  then obtain t2 where 2: "table_at s2 = Done t2" "fdt_ok t2" "table_le k t1 t2" using keepsD [OF assms(2)] by blast
  have "table_le (j + k) t t2" using 1(3) 2(3) by (simp add: table_le_def)
  then show "\<exists>t'. table_at s2 = Done t' \<and> fdt_ok t' \<and> table_le (j + k) t t'" using 2 by blast
qed

lemma table_at_other [simp]:
  "table_at (s\<lparr>fs_vfs := v\<rparr>) = table_at s" "table_at (s\<lparr>fs_wd_path := w\<rparr>) = table_at s"
  "table_at (s\<lparr>fs_heap := h\<rparr>) = table_at s" "table_at (s\<lparr>fs_terminal := o'\<rparr>) = table_at s"
  by (simp_all add: table_at_def)

lemma with_vfs_DoneD: "with_vfs s r = Done (x, s') \<Longrightarrow> table_at s' = table_at s"
  by (auto simp: with_vfs_def outcome_iff)

lemma close_node_DoneD: "close_node ops s n = Done s' \<Longrightarrow> table_at s' = table_at s"
  by (auto simp: close_node_def outcome_iff)

lemma put_slot_keeps:
  assumes "table_at s = Done t" "put_slot s t i f' = Done s'"
    "fdt_ok t \<Longrightarrow> i < fdt_amount t \<and> fdt_fds t ! i = Slot f" "fd_number f' = fd_number f" "fd_node f' = fd_node f"
  shows "keeps k s s'"
  unfolding keeps_def
proof (intro allI impI)
  fix u assume "table_at s = Done u \<and> fdt_ok u"
  then have ok: "fdt_ok t" and [simp]: "u = t" using assms(1) by simp_all
  note fd = assms(3) [OF ok]
  let ?t = "t\<lparr>fdt_fds := (fdt_fds t)[i := Slot f']\<rparr>"
  have s': "s' = set_table s ?t" using assms(2) by (auto simp: put_slot_def outcome_iff)
  have "fdt_ok ?t" using ok fd assms(4) by (auto simp: fdt_ok_def nth_list_update)
  moreover have "table_le k t ?t" using ok fd assms(5) by (auto simp: table_le_def fdt_ok_def nth_list_update slot_node_def)
  ultimately show "\<exists>t'. table_at s' = Done t' \<and> fdt_ok t' \<and> table_le k u t'"
    using table_at_set [OF assms(1)] s' by auto
qed

lemma put_slot_offset_keeps:
  "table_at s = Done t \<Longrightarrow> FD_VALIDATE t fd = Done (Some f) \<Longrightarrow>
   put_slot (s\<lparr>fs_vfs := v\<rparr>) t (unat fd) (f\<lparr>fd_offset := o'\<rparr>) = Done s' \<Longrightarrow> keeps 0 s s'"
  using keeps_trans [OF keeps_same [of "s\<lparr>fs_vfs := v\<rparr>" s 0] put_slot_keeps [of _ t "unat fd" _ s' f 0]]
  by (simp add: FD_VALIDATE_SomeD)

lemma fd_add_keeps: "fd_add s node = Done (f, s') \<Longrightarrow> keeps 1 s s'"
  unfolding keeps_def
proof (intro allI impI)
  fix t assume r: "fd_add s node = Done (f, s')" and t: "table_at s = Done t \<and> fdt_ok t"
  show "\<exists>t'. table_at s' = Done t' \<and> fdt_ok t' \<and> table_le 1 t t'"
  proof (cases "node = NULL")
    case True
    then show ?thesis using r t by (auto simp: fd_add_def table_le_def)
  next
    case False
    then obtain t' where "s' = set_table s t'" "fdt_ok t'" "fdt_amount t' = fdt_amount t + 1"
      "\<forall>i < fdt_amount t. fdt_fds t' ! i = fdt_fds t ! i"
      using fd_add_spec [of s t node] t r by auto
    then show ?thesis using table_at_set [of s t t'] t by (auto simp: table_le_def)
  qed
qed

lemma open_fd_keeps:
  assumes "open_fd s node n flags = Done (r, s')" "node \<noteq> NULL"
  shows "keeps 1 s s'"
proof -
  obtain f s1 where f: "fd_add s node = Done (Some f, s1)" and rest: "(if flags AND O_APPEND \<noteq> 0 then
       and_then (table_at s1) (\<lambda>t. and_then (put_slot s1 t (fdt_amount t - 1) (f\<lparr>fd_offset := fn_length n\<rparr>)) (\<lambda>s2. Done (fd_number f, s2)))
       else Done (fd_number f, s1)) = Done (r, s')"
    using assms(1) by (auto simp: open_fd_def and_then_Done_iff split: option.splits)
  show ?thesis
  proof (cases "flags AND O_APPEND = 0")
    case True
    then show ?thesis using rest fd_add_keeps [OF f] by simp
  next
    case False
    then obtain t1 where t1: "table_at s1 = Done t1"
      "put_slot s1 t1 (fdt_amount t1 - 1) (f\<lparr>fd_offset := fn_length n\<rparr>) = Done s'"
      using rest by (auto simp: and_then_Done_iff)
    show ?thesis
      unfolding keeps_def
    proof (intro allI impI)
      fix t assume t: "table_at s = Done t \<and> fdt_ok t"
      have slot: "fdt_amount t1 - 1 < fdt_amount t1 \<and> fdt_fds t1 ! (fdt_amount t1 - 1) = Slot f"
        using fd_add_spec [of s t node] t assms(2) f t1(1) table_at_set [of s t] by auto
      have "keeps (1 + 0) s s'" using fd_add_keeps [OF f] put_slot_keeps [OF t1 slot] by (intro keeps_trans) simp_all
      then show "\<exists>t'. table_at s' = Done t' \<and> fdt_ok t' \<and> table_le 1 t t'" using t by (simp add: keeps_def)
    qed
  qed
qed

lemma sys_open_keeps: "sys_open ops checked s p fl = Done (r, s') \<Longrightarrow> keeps 1 s s'"
proof -
  assume r: "sys_open ops checked s p fl = Done (r, s')"
  obtain node s1 where k: "with_vfs s (kopen_user ops checked (fs_vfs s) (Some (fs_wd_path s)) (Some p) fl) = Done (node, s1)"
    using r by (auto simp: sys_open_def outcome_iff)
  note s1 = with_vfs_DoneD [OF k]
  consider (same) "table_at s' = table_at s1" | (add) n where "open_fd s1 node n fl = Done (r, s')" "node \<noteq> NULL"
    using r k by (auto simp: sys_open_def outcome_iff dest: close_node_DoneD split: if_splits)
  then show ?thesis
  proof cases
    case same
    then show ?thesis using s1 by auto
  next
    case add
    then have "keeps (0 + 1) s s'" using s1 by (intro keeps_trans [OF _ open_fd_keeps]) auto
    then show ?thesis by simp
  qed
qed

lemma sys_read_keeps: "sys_read ops s fd n = Done (b, r, s') \<Longrightarrow> keeps 0 s s'"
  by (auto simp: sys_read_def outcome_iff split: option.splits intro: put_slot_offset_keeps)

lemma sys_write_keeps: "sys_write ops s fd b n = Done (r, s') \<Longrightarrow> keeps 0 s s'"
  by (auto simp: sys_write_def outcome_iff split: option.splits if_splits intro: put_slot_offset_keeps)

lemma sys_lseek_keeps:
  assumes "sys_lseek s fd off w = Done (r, s')"
  shows "keeps 0 s s'"
proof -
  obtain t x where t: "table_at s = Done t" "FD_VALIDATE t fd = Done x" using assms by (auto simp: sys_lseek_def outcome_iff)
  then consider "s' = s" | f o' where "x = Some f" "put_slot s t (unat fd) (f\<lparr>fd_offset := o'\<rparr>) = Done s'"
    using assms by (auto simp: sys_lseek_def and_then_Done_iff split: option.splits)
  then show ?thesis using t put_slot_offset_keeps [where v = "fs_vfs s"] by cases auto
qed

lemma stat_path_keeps: "stat_path ops checked s p fl b = Done (r, b', s') \<Longrightarrow> keeps 0 s s'"
  by (auto simp: stat_path_def outcome_iff dest!: with_vfs_DoneD close_node_DoneD split: if_splits)

lemma sys_chdir_keeps: "sys_chdir ops checked s p = Done (r, s') \<Longrightarrow> keeps 0 s s'"
  by (auto simp: sys_chdir_def outcome_iff dest!: with_vfs_DoneD close_node_DoneD split: if_splits)

lemmas call_keeps = sys_open_keeps [unfolded One_nat_def] sys_read_keeps sys_write_keeps sys_lseek_keeps stat_path_keeps sys_chdir_keeps

definition is_open :: "file_call \<Rightarrow> bool" where
  "is_open c = (case c of Call_open p fl \<Rightarrow> True | _ \<Rightarrow> False)"

lemma file_syscall_keeps:
  "file_syscall ops checked c s = Done s' \<Longrightarrow> keeps (if is_open c then 1 else 0) s s'"
  by (cases c) (auto simp: file_syscall_def is_open_def outcome_iff sys_stat_def sys_lstat_def sys_close_def
      sys_ioctl_def sys_brk_def sys_fchdir_def fd_remove_def split: option.splits if_splits dest: with_vfs_DoneD intro: call_keeps)

lemma file_calls_keeps:
  "file_calls ops checked cs s = Done s' \<Longrightarrow> keeps (length (filter is_open cs)) s s'"
proof (induction cs arbitrary: s)
  case Nil
  then show ?case by auto
next
  case (Cons c cs)
  then obtain s1 where 1: "file_syscall ops checked c s = Done s1" "file_calls ops checked cs s1 = Done s'"
    by (auto simp: outcome_iff)
  show ?case using keeps_trans [OF file_syscall_keeps [OF 1(1)] Cons.IH [OF 1(2)]] by (simp split: if_splits)
qed

section \<open>Using an open descriptor\<close>

text \<open>In \<open>s\<close>, the descriptor \<open>fd\<close> is open on \<open>node\<close>, at the position \<open>off\<close>.\<close>

definition fd_is :: "file_state \<Rightarrow> cint \<Rightarrow> addr \<Rightarrow> u64 \<Rightarrow> bool" where
  "fd_is s fd node off \<longleftrightarrow> (\<exists>t f. table_at s = Done t \<and> fdt_ok t \<and> FD_VALIDATE t fd = Done (Some f) \<and> fd_node f = node \<and> fd_offset f = off)"

lemma put_slot_fd_is:
  assumes "table_at s = Done t" "fdt_ok t" "FD_VALIDATE t fd = Done (Some f)"
  shows "\<exists>s'. put_slot (s\<lparr>fs_vfs := v\<rparr>) t (unat fd) (f\<lparr>fd_offset := o'\<rparr>) = Done s' \<and> fd_is s' fd (fd_node f) o' \<and> fs_vfs s' = v"
proof -
  note f = FD_VALIDATE_SomeD [OF assms(2,3)]
  let ?t = "t\<lparr>fdt_fds := (fdt_fds t)[unat fd := Slot (f\<lparr>fd_offset := o'\<rparr>)]\<rparr>"
  let ?s = "set_table (s\<lparr>fs_vfs := v\<rparr>) ?t"
  have len: "unat fd < length (fdt_fds t)" using f assms(2) by (simp add: fdt_ok_def)
  have "fdt_ok ?t" using assms(2) f by (auto simp: fdt_ok_def nth_list_update)
  moreover have "FD_VALIDATE ?t fd = Done (Some (f\<lparr>fd_offset := o'\<rparr>))"
    using assms(3) len by (auto simp: FD_VALIDATE_def read_slot_def split: if_splits)
  moreover have "table_at ?s = Done ?t" by (rule table_at_set) (use assms(1) in simp)
  ultimately have "fd_is ?s fd (fd_node f) o'" unfolding fd_is_def by (intro exI [of _ ?t] exI [of _ "f\<lparr>fd_offset := o'\<rparr>"]) simp
  then show ?thesis using len by (simp add: put_slot_def set_table_def)
qed

lemma sys_read_fd:
  assumes "fd_is s fd node off" "fs_read ops (fs_vfs s) node off n = Done (b, i, v)"
  shows "\<exists>s'. sys_read ops s fd n = Done (b, i, s') \<and> fd_is s' fd node (off + i) \<and> fs_vfs s' = v"
proof -
  from assms(1) obtain t f where t: "table_at s = Done t" "fdt_ok t" "FD_VALIDATE t fd = Done (Some f)" "fd_node f = node" "fd_offset f = off"
    by (auto simp: fd_is_def)
  then show ?thesis using put_slot_fd_is [OF t(1-3), of v "off + i"] assms(2) by (auto simp: sys_read_def)
qed

lemma sys_write_fd:
  assumes "fd_is s fd node off" "fs_write ops (fs_vfs s) node off n b = Done (i, v)" "fd \<noteq> STDOUT_FILE_DESCRIPTOR"
  shows "\<exists>s'. sys_write ops s fd b n = Done (i, s') \<and> fd_is s' fd node (off + i) \<and> fs_vfs s' = v"
proof -
  from assms(1) obtain t f where t: "table_at s = Done t" "fdt_ok t" "FD_VALIDATE t fd = Done (Some f)" "fd_node f = node" "fd_offset f = off"
    by (auto simp: fd_is_def)
  then show ?thesis using put_slot_fd_is [OF t(1-3), of v "off + i"] assms(2,3) by (auto simp: sys_write_def)
qed

lemma sys_lseek_set:
  assumes "fd_is s fd node off"
  shows "\<exists>s'. sys_lseek s fd o' SEEK_SET = Done (o', s') \<and> fd_is s' fd node o' \<and> fs_vfs s' = fs_vfs s"
proof -
  from assms obtain t f where t: "table_at s = Done t" "fdt_ok t" "FD_VALIDATE t fd = Done (Some f)" "fd_node f = node"
    by (auto simp: fd_is_def)
  then show ?thesis using put_slot_fd_is [OF t(1-3), of "fs_vfs s" o'] by (auto simp: sys_lseek_def)
qed

lemma open_fd_spec:
  assumes "table_at s = Done t" "fdt_ok t" "fdt_amount t < 2 ^ 31 - 1" "node \<noteq> NULL" "flags AND O_APPEND = 0"
  shows "\<exists>s'. open_fd s node n flags = Done (of_nat (fdt_amount t), s') \<and> fd_is s' (of_nat (fdt_amount t)) node 0 \<and> fs_vfs s' = fs_vfs s"
proof -
  from fd_add_spec [OF assms(1,2,4)] obtain f t' where f: "fd_add s node = Done (Some f, set_table s t')" "fdt_ok t'"
    "fd_number f = of_nat (fdt_amount t)" "fd_node f = node" "fd_offset f = 0" "fdt_amount t' = fdt_amount t + 1"
    "fdt_fds t' ! fdt_amount t = Slot f" by blast
  have "FD_VALIDATE t' (of_nat (fdt_amount t)) = Done (Some f)"
    using FD_VALIDATE_used [OF f(2), of "fdt_amount t"] f(6,7) assms(3) by auto
  then have "fd_is (set_table s t') (of_nat (fdt_amount t)) node 0"
    using table_at_set [OF assms(1)] f by (auto simp: fd_is_def)
  then show ?thesis using f(1,3) assms(5) by (simp add: open_fd_def set_table_def)
qed

text \<open>Opening an existing file by an absolute path in normal form.\<close>

lemma canonicalize_plain:
  assumes "path_ok ts" "list_all (\<lambda>c. \<not> dots c) ts" "NUL \<notin> set wd" "wd \<noteq> []"
  shows "vfs_canonicalizePath checked wd (path_of ts) = Done (path_of ts)"
proof -
  have shape: "path_of ts \<noteq> []" "hd (path_of ts) = CHR ''/''" using path_ok_shape [OF assms(1)] by simp_all
  have "NUL \<notin> set (path_of ts)" using assms(1) by (auto simp: path_of_def path_ok_def)
  moreover have "split_path (joined wd (path_of ts)) = ts"
    using shape split_path_join [of ts] assms(1) by (simp add: joined_def path_of_def path_ok_def)
  moreover have "\<not> list_all dots ts" using assms(1,2) by (cases ts) (auto simp: path_ok_def)
  ultimately show ?thesis using canonicalize_spec [OF assms(3) _ assms(4), of "path_of ts" checked] resolve_plain [OF assms(2), of "[]"] shape
    by (simp add: canon_output_join path_of_def)
qed

lemma sys_open_found:
  assumes "path_ok ts" "list_all (\<lambda>c. \<not> dots c) ts" "NUL \<notin> set (fs_wd_path s)" "fs_wd_path s \<noteq> []"
    "kopen ops (fs_vfs s) (Some (path_of ts)) flags = Done (node, v)" "node \<noteq> NULL" "vfs_nodes v node = Some n"
    "flags AND O_DIRECTORY = 0" "flags AND O_CREAT = 0"
  shows "sys_open ops checked s (path_of ts) flags = open_fd (s\<lparr>fs_vfs := v\<rparr>) node n flags"
  using assms canonicalize_plain [OF assms(1-4), of checked]
  by (simp add: sys_open_def kopen_user_def with_vfs_def fs_node_at_def)

section \<open>Properties\<close>

text \<open> C28: system calls keep the descriptor table well-formed. If the table of the process is in order, then
  after any sequence of the file calls that returns (one that reads past the table in \<open>FD_VALIDATE\<close> or
  faults elsewhere does not) it still is: used slots first, each with the number of its
  index, no slot past them. Every descriptor stays connected to the file it was opened for, however many calls
  close it, and the number of used slots grows by at most one for each call of \<open>sys_open\<close>.\<close>

theorem file_calls_table_well_formed:
  assumes "table_at s = Done t" "fdt_ok t" "file_calls ops checked cs s = Done s'"
  shows "\<exists>t'. table_at s' = Done t' \<and> fdt_ok t' \<and>
           fdt_amount t \<le> fdt_amount t' \<and> fdt_amount t' \<le> fdt_amount t + length (filter is_open cs) \<and>
           (\<forall>i < fdt_amount t. slot_node (fdt_fds t' ! i) = slot_node (fdt_fds t ! i))"
  using keepsD [OF file_calls_keeps [OF assms(3)] assms(1,2)] by (auto simp: table_le_def)

definition example_files :: file_state where
  "example_files = \<lparr>fs_vfs = vfs_example,
     fs_tables = [1 \<mapsto> fd_table_new\<lparr>fdt_fds := Slot \<lparr>fd_number = 0, fd_node = 1, fd_mode = 0, fd_offset = 0\<rparr> # replicate 7 NullSlot, fdt_amount := 1\<rparr>],
     fs_fd_table = 1, fs_wd_path = ''/'', fs_heap = 0, fs_heap_base = 0, fs_terminal = []\<rparr>"

lemma example_files_table:
  "table_at example_files = Done (fd_table_new\<lparr>fdt_fds := Slot \<lparr>fd_number = 0, fd_node = 1, fd_mode = 0, fd_offset = 0\<rparr> # replicate 7 NullSlot, fdt_amount := 1\<rparr>)"
  "fdt_ok (fd_table_new\<lparr>fdt_fds := Slot \<lparr>fd_number = 0, fd_node = 1, fd_mode = 0, fd_offset = 0\<rparr> # replicate 7 NullSlot, fdt_amount := 1\<rparr>)"
  by (auto simp: example_files_def table_at_def fdt_ok_def fd_table_new_def PROCESS_FD_BASE_AMOUNT_def nth_Cons split: nat.splits)

theorem file_calls_table_well_formed_witness:
  "\<forall>ops. \<exists>s' t'. file_calls ops True [Call_lseek 0 5 SEEK_SET, Call_write 0 [65] 1, Call_close 0, Call_close 0] example_files = Done s' \<and>
     table_at s' = Done t' \<and> fdt_ok t' \<and> fdt_amount t' = 1 \<and> slot_node (fdt_fds t' ! 0) = 1"
proof
  fix ops
  let ?cs = "[Call_lseek 0 5 SEEK_SET, Call_write 0 [65] 1, Call_close 0, Call_close 0]"
  have "is_Done (file_calls ops True ?cs example_files)"
    by (simp add: file_syscall_def sys_lseek_def sys_write_def sys_close_def fd_remove_def table_at_def example_files_def
        FD_VALIDATE_def read_slot_def put_slot_def set_table_def fd_table_new_def SEEK_SET_def STDOUT_FILE_DESCRIPTOR_def
        fs_write_def fs_node_at_def vfs_example_def vfs_init_def fs_node_zero_def array_get_def array_set_def)
  then obtain s' where s': "file_calls ops True ?cs example_files = Done s'" by (auto simp: is_Done_def)
  then show "\<exists>s' t'. file_calls ops True ?cs example_files = Done s' \<and> table_at s' = Done t' \<and> fdt_ok t' \<and>
      fdt_amount t' = 1 \<and> slot_node (fdt_fds t' ! 0) = 1"
    using file_calls_table_well_formed [OF example_files_table s'] by (auto simp: is_open_def slot_node_def)
qed

text \<open> \<open>FD_VALIDATE\<close> accepts exactly the used slots and refuses every other number, negative ones included,
  but for one: the number just past the used slots passes the comparison, and the slot is read. In a full
  table it lies outside the array; in an array that has grown it may never have been written.\<close>

lemma FD_VALIDATE_exact_but_one:
  assumes "fdt_ok t" "fdt_amount t < 2 ^ 31"
  shows "FD_VALIDATE t fd =
    (if unat fd < fdt_amount t then (case fdt_fds t ! unat fd of Slot f \<Rightarrow> Done (Some f) | _ \<Rightarrow> Done None)
     else if unat fd = fdt_amount t then
       if fdt_amount t = fdt_total t then Fault OutOfBounds
       else if fdt_fds t ! unat fd = Uninit then Fault BadPointer else Done None
     else Done None)"
proof -
  have neg: "fdt_amount t < unat fd" if "sint fd < 0"
  proof -
    have "\<not> unat fd < 2 ^ 31" using that sint_of_nat_31 [of "unat fd"] by auto
    then show ?thesis using assms(2) by simp
  qed
  consider (used) "unat fd < fdt_amount t" | (border) "unat fd = fdt_amount t" | (past) "fdt_amount t < unat fd" by linarith
  then show ?thesis
  proof cases
    case used
    then obtain f where "fdt_fds t ! unat fd = Slot f" "unat fd < length (fdt_fds t)" using assms(1) by (auto simp: fdt_ok_def)
    then show ?thesis using used neg by (auto simp: FD_VALIDATE_def read_slot_def)
  next
    case border
    then have "fdt_fds t ! unat fd \<in> {Uninit, NullSlot}" if "fdt_amount t \<noteq> fdt_total t" using assms(1) that by (auto simp: fdt_ok_def)
    then show ?thesis using border neg assms(1) by (auto simp: FD_VALIDATE_def read_slot_def array_get_def fdt_ok_def)
  next
    case past
    then show ?thesis by (simp add: FD_VALIDATE_def)
  qed
qed

definition full_table :: fd_table_t where
  "full_table = fd_table_new\<lparr>fdt_amount := 8,
     fdt_fds := map (\<lambda>i. Slot \<lparr>fd_number = of_nat i, fd_node = 1, fd_mode = 0, fd_offset = 0\<rparr>) [0..<8]\<rparr>"

lemma full_table_ok: "fdt_ok full_table"
  by (simp add: fdt_ok_def full_table_def fd_table_new_def PROCESS_FD_BASE_AMOUNT_def)

end
