(* ===== verification/Process_Life.thy ===== *)
theory Process_Life
  imports Process Fd
begin

text \<open>
  The life of processes: \<open>hexahedron/task/thread.c\<close> and the parts of \<open>hexahedron/task/process.c\<close> that
  create, fork, wait for and destroy processes. The state adds the descriptor tables and the file system to
  the tasks. Page tables and registers are not modelled: the addresses that \<open>mem_clone\<close> and \<open>mem_allocate\<close>
  return are arguments, and contexts and stack contents are left out.
\<close>

section \<open>State\<close>

record life_state =
  lf_task :: task_state
  lf_tables :: "addr \<rightharpoonup> fd_table_t"
  lf_vfs :: vfs_state

record mem_ops =
  mem_clone :: "life_state \<Rightarrow> addr \<Rightarrow> addr"
  mem_allocate :: "life_state \<Rightarrow> u64 \<Rightarrow> u64"

definition PROCESS_KSTACK_SIZE :: u64 where "PROCESS_KSTACK_SIZE = 8192"
definition THREAD_STACK_SIZE :: u64 where "THREAD_STACK_SIZE = 4096"
definition THREAD_FLAG_DEFAULT :: u32 where "THREAD_FLAG_DEFAULT = 0x00"
definition PRIORITY_HIGH :: u32 where "PRIORITY_HIGH = 3"
definition PRIORITY_MED :: u32 where "PRIORITY_MED = 2"
definition PRIORITY_LOW :: u32 where "PRIORITY_LOW = 1"
definition WNOHANG :: cint where "WNOHANG = 1"
definition WSTATUS_EXITCODE :: nat where "WSTATUS_EXITCODE = 8"
definition WSTATUS_EXITED :: cint where "WSTATUS_EXITED = 0x1"
definition ECHILD :: int where "ECHILD = 10"

text \<open>The file state that the descriptor code sees for a process.\<close>

definition files_of :: "life_state \<Rightarrow> process_t \<Rightarrow> file_state" where
  "files_of s p = \<lparr>fs_vfs = lf_vfs s, fs_tables = lf_tables s, fs_fd_table = pr_fd_table p, fs_wd_path = pr_wd_path p,
     fs_heap = pr_heap p, fs_heap_base = pr_heap_base p, fs_terminal = []\<rparr>"

section \<open>Threads\<close>

definition thread_createStructure :: "task_state \<Rightarrow> addr \<Rightarrow> addr \<Rightarrow> u32 \<Rightarrow> u32 \<Rightarrow> addr \<times> task_state" where
  "thread_createStructure s parent dir status flags =
     (let (thr, s1) = kmalloc s in
      (thr, s1\<lparr>tk_threads := (tk_threads s1)(thr \<mapsto> \<lparr>thr_parent = parent, thr_status = status, thr_flags = flags,
         thr_preempt_ticks = 0, thr_total_ticks = 0, thr_sleep = NULL, thr_dir = dir, thr_stack = 0\<rparr>)\<rparr>))"

definition thread_create :: "task_state \<Rightarrow> addr \<Rightarrow> addr \<Rightarrow> u32 \<Rightarrow> (addr \<times> task_state) outcome" where
  "thread_create s parent dir flags =
     (let (thr, s1) = thread_createStructure s parent dir THREAD_STATUS_RUNNING flags;
          prev_dir = cpu_current_dir (tk_cpu s1);
          s2 = mem_switchDirectory s1 dir in
      and_then (if \<not> has_bits flags THREAD_FLAG_KERNEL then Done (MEM_USERMODE_STACK_REGION + THREAD_STACK_SIZE)
                else and_then (proc_at s2 parent) (\<lambda>p. Done (pr_kstack p))) (\<lambda>stack.
      and_then (set_thread s2 thr (\<lambda>t. t\<lparr>thr_stack := stack\<rparr>)) (\<lambda>s3.
      Done (thr, mem_switchDirectory s3 prev_dir))))"

section \<open>Creation\<close>

text \<open>The tree node of a new process, under the node of its parent.\<close>

definition create_tree_node :: "task_state \<Rightarrow> process_t option \<Rightarrow> addr \<Rightarrow> (addr \<times> task_state) outcome" where
  "create_tree_node s parent process = (case parent of
     None \<Rightarrow> Done (NULL, s)
   | Some p \<Rightarrow>
       if pr_node p = NULL then Done (NULL, s)
       else
         and_then (tree_insert_child (tk_heap s) (tk_process_tree s) (pr_node p) process) (\<lambda>(node, h, t).
         Done (node, s\<lparr>tk_heap := h, tk_process_tree := t\<rparr>)))"

text \<open>Its descriptor table: that of the parent, or a new one.\<close>

definition create_fd_table :: "life_state \<Rightarrow> process_t option \<Rightarrow> (addr \<times> life_state) outcome" where
  "create_fd_table s parent = (case parent of
     Some p \<Rightarrow>
       and_then (table_at (files_of s p)) (\<lambda>t.
       Done (pr_fd_table p, s\<lparr>lf_tables := (lf_tables s)(pr_fd_table p \<mapsto> t\<lparr>fdt_references := fdt_references t + 1\<rparr>)\<rparr>))
   | None \<Rightarrow>
       let (a, t1) = kmalloc (lf_task s) in
       Done (a, s\<lparr>lf_task := t1, lf_tables := (lf_tables s)(a \<mapsto> fd_table_new)\<rparr>))"

definition process_createStructure ::
  "mem_ops \<Rightarrow> life_state \<Rightarrow> addr \<Rightarrow> string \<Rightarrow> u32 \<Rightarrow> u32 \<Rightarrow> (addr \<times> life_state) outcome" where
  "process_createStructure mem s parent name flags priority =
     (let (process, t0) = kmalloc (lf_task s) in
      and_then (process_allocatePID t0) (\<lambda>(pid, t1).
      and_then (if parent = NULL then Done None else and_then (proc_at t1 parent) (\<lambda>p. Done (Some p))) (\<lambda>pp.
      and_then (create_tree_node t1 pp process) (\<lambda>(node, t2).
      let s2 = s\<lparr>lf_task := t2\<rparr>;
          kstack = mem_allocate mem s2 PROCESS_KSTACK_SIZE + PROCESS_KSTACK_SIZE;
          dir = (if has_bits flags PROCESS_KERNEL then NULL
                 else mem_clone mem s2 (case pp of Some p \<Rightarrow> pr_dir p | None \<Rightarrow> NULL)) in
      and_then (create_fd_table s2 pp) (\<lambda>(fd_table, s3).
      let proc = \<lparr>pr_parent = parent, pr_pid = pid, pr_name = name, pr_uid = 0, pr_gid = 0, pr_exit_status = 0, pr_flags = flags,
                  pr_priority = priority, pr_node = node, pr_waitpid_queue = NULL, pr_main_thread = NULL, pr_thread_list = NULL,
                  pr_wd_path = (case pp of Some p \<Rightarrow> pr_wd_path p | None \<Rightarrow> ''/''), pr_fd_table = fd_table, pr_heap = 0,
                  pr_heap_base = 0, pr_kstack = kstack, pr_dir = dir\<rparr> in
      Done (process, s3\<lparr>lf_task := (lf_task s3)\<lparr>tk_procs := (tk_procs (lf_task s3))(process \<mapsto> proc)\<rparr>\<rparr>))))))"

definition process_create :: "mem_ops \<Rightarrow> life_state \<Rightarrow> addr \<Rightarrow> string \<Rightarrow> u32 \<Rightarrow> u32 \<Rightarrow> (addr \<times> life_state) outcome" where
  "process_create mem s parent name flags priority = process_createStructure mem s parent name flags priority"

text \<open>The main thread of a process, with the flags given, and the directory of the process or another.\<close>

definition create_main_thread :: "life_state \<Rightarrow> addr \<Rightarrow> addr \<Rightarrow> u32 \<Rightarrow> (addr \<times> life_state) outcome" where
  "create_main_thread s process dir flags =
     and_then (thread_create (lf_task s) process dir flags) (\<lambda>(thr, t1).
     and_then (set_proc t1 process (\<lambda>p. p\<lparr>pr_main_thread := thr\<rparr>)) (\<lambda>t2. Done (thr, s\<lparr>lf_task := t2\<rparr>)))"

definition process_createKernel :: "mem_ops \<Rightarrow> life_state \<Rightarrow> string \<Rightarrow> u32 \<Rightarrow> u32 \<Rightarrow> (addr \<times> life_state) outcome" where
  "process_createKernel mem s name flags priority =
     and_then (process_create mem s NULL name flags priority) (\<lambda>(proc, s1).
     and_then (proc_at (lf_task s1) proc) (\<lambda>p.
     and_then (create_main_thread s1 proc (pr_dir p) THREAD_FLAG_KERNEL) (\<lambda>(thr, s2). Done (proc, s2))))"

definition process_spawnIdleTask :: "mem_ops \<Rightarrow> life_state \<Rightarrow> (addr \<times> life_state) outcome" where
  "process_spawnIdleTask mem s =
     and_then (process_createStructure mem s NULL ''idle'' (PROCESS_KERNEL OR PROCESS_STARTED OR PROCESS_RUNNING) PRIORITY_LOW) (\<lambda>(idle, s1).
     and_then (proc_at (lf_task s1) idle) (\<lambda>p.
     and_then (process_freePID (lf_task s1) (pr_pid p)) (\<lambda>t2.
     and_then (set_proc t2 idle (\<lambda>p. p\<lparr>pr_pid := - 1\<rparr>)) (\<lambda>t3.
     and_then (create_main_thread (s1\<lparr>lf_task := t3\<rparr>) idle NULL THREAD_FLAG_KERNEL) (\<lambda>(thr, s4). Done (idle, s4))))))"

definition process_spawnInit :: "mem_ops \<Rightarrow> life_state \<Rightarrow> (addr \<times> life_state) outcome" where
  "process_spawnInit mem s =
     and_then (process_createStructure mem s NULL ''init'' (PROCESS_STARTED OR PROCESS_RUNNING) PRIORITY_HIGH) (\<lambda>(init, s1).
     let (h, t) = tree_set_parent (tk_heap (lf_task s1)) (tk_process_tree (lf_task s1)) init in
     and_then (set_proc ((lf_task s1)\<lparr>tk_heap := h, tk_process_tree := t\<rparr>) init (\<lambda>p. p\<lparr>pr_node := tree_root t\<rparr>)) (\<lambda>t2.
     Done (init, s1\<lparr>lf_task := t2\<rparr>)))"

definition process_init :: "mem_ops \<Rightarrow> life_state \<Rightarrow> life_state outcome" where
  "process_init mem s =
     (let t1 = scheduler_init ((lf_task s)\<lparr>tk_process_tree := tree_create ''process tree''\<rparr>);
          (q, h) = list_create (tk_lists t1) ''process reap queue'';
          t2 = (set_lists t1 h)\<lparr>tk_reap_queue := q\<rparr> in
      and_then (process_createKernel mem (s\<lparr>lf_task := t2\<rparr>) ''reaper'' 0 PRIORITY_MED) (\<lambda>(reaper, s3).
      and_then (proc_at (lf_task s3) reaper) (\<lambda>p.
      and_then (scheduler_insertThread ((lf_task s3)\<lparr>tk_reaper_proc := reaper\<rparr>) (pr_main_thread p)) (\<lambda>(r, t4).
      Done (s3\<lparr>lf_task := t4\<rparr>)))))"

definition process_fork :: "mem_ops \<Rightarrow> life_state \<Rightarrow> (int \<times> life_state) outcome" where
  "process_fork mem s =
     (let parent = cpu_current_process (tk_cpu (lf_task s)) in
      and_then (proc_at (lf_task s) parent) (\<lambda>pp.
      and_then (process_create mem s parent (pr_name pp) (pr_flags pp) (pr_priority pp)) (\<lambda>(child, s1).
      and_then (proc_at (lf_task s1) child) (\<lambda>c.
      and_then (create_main_thread s1 child (pr_dir c) THREAD_FLAG_CHILD) (\<lambda>(thr, s2).
      and_then (scheduler_insertThread (lf_task s2) thr) (\<lambda>(r, t3). Done (pr_pid c, s2\<lparr>lf_task := t3\<rparr>)))))))"

section \<open>Destruction\<close>

definition PROCESS_IN_USE :: "task_state \<Rightarrow> addr \<Rightarrow> bool" where
  "PROCESS_IN_USE s proc = list_ex (\<lambda>cpu. cpu_current_process cpu = proc) (tk_cpu s # tk_other_cpus s)"

definition destroy_list :: "task_state \<Rightarrow> addr \<Rightarrow> task_state outcome" where
  "destroy_list s l = and_then (list_destroy (tk_lists s) l False) (\<lambda>h. Done (set_lists s h))"

text \<open>\<^verbatim>\<open>kfree\<close> of a tree node.\<close>

definition kfree_tnode :: "tree_heap \<Rightarrow> addr \<Rightarrow> tree_heap outcome" where
  "kfree_tnode h a = and_then (tnode_at h a) (\<lambda>n. Done (h\<lparr>th_nodes := (th_nodes h)(a := None)\<rparr>))"

definition destroy_tree_node :: "task_state \<Rightarrow> addr \<Rightarrow> task_state outcome" where
  "destroy_tree_node s node =
     (if node = NULL then Done s
      else
        and_then (tree_remove (tk_heap s) (tk_process_tree s) node) (\<lambda>(h, t).
        and_then (kfree_tnode h node) (\<lambda>h'. Done (s\<lparr>tk_heap := h', tk_process_tree := t\<rparr>))))"

definition process_destroy :: "fs_ops \<Rightarrow> life_state \<Rightarrow> addr \<Rightarrow> life_state outcome" where
  "process_destroy ops s proc =
     (if proc = NULL then Done s
      else
        and_then (proc_at (lf_task s) proc) (\<lambda>p.
        if \<not> has_bits (pr_flags p) PROCESS_STOPPED then Done s
        else
          and_then (if pr_waitpid_queue p = NULL then Done (lf_task s) else destroy_list (lf_task s) (pr_waitpid_queue p)) (\<lambda>t1.
          and_then (fd_destroyTable ops (files_of s p)) (\<lambda>(r, fs).
          and_then (if pr_thread_list p = NULL then Done t1 else destroy_list t1 (pr_thread_list p)) (\<lambda>t2.
          and_then (destroy_tree_node t2 (pr_node p)) (\<lambda>t3.
          Done (s\<lparr>lf_task := t3\<lparr>tk_procs := (tk_procs t3)(proc := None)\<rparr>, lf_tables := fs_tables fs, lf_vfs := fs_vfs fs\<rparr>)))))))"

text \<open>The loop of the reaper over its queue. The length is read again in every round, after a pop has reduced it.\<close>

primrec reaper_loop :: "nat \<Rightarrow> fs_ops \<Rightarrow> life_state \<Rightarrow> u64 \<Rightarrow> life_state outcome" where
  "reaper_loop 0 ops s i = Hang"
| "reaper_loop (Suc rounds) ops s i =
     (let t = lf_task s in
      and_then (list_at (tk_lists t) (tk_reap_queue t)) (\<lambda>l.
      if \<not> i < lst_length l then Done s
      else
        and_then (list_popleft (tk_lists t) (tk_reap_queue t)) (\<lambda>(procnode, h).
        if procnode = NULL then Done s
        else
          let s1 = s\<lparr>lf_task := set_lists t h\<rparr> in
          and_then (node_at h procnode) (\<lambda>n.
          if nd_value n = NULL then reaper_loop rounds ops s1 (i + 1)
          else
            and_then (proc_at t (nd_value n)) (\<lambda>p.
            if \<not> has_bits (pr_flags p) PROCESS_STOPPED then reaper_loop rounds ops s1 (i + 1)
            else if PROCESS_IN_USE t (nd_value n) then
              and_then (list_append_node h (tk_reap_queue t) procnode) (\<lambda>h'.
              reaper_loop rounds ops (s\<lparr>lf_task := set_lists t h'\<rparr>) (i + 1))
            else
              and_then (kfree_node h procnode) (\<lambda>h'.
              and_then (process_destroy ops (s\<lparr>lf_task := set_lists t h'\<rparr>) (nd_value n)) (\<lambda>s2.
              reaper_loop rounds ops s2 (i + 1))))))))"

text \<open>One round of \<open>process_reaper\<close>, from its return from \<open>process_yield\<close> to where it goes to sleep again.\<close>

definition process_reaper_round :: "fs_ops \<Rightarrow> life_state \<Rightarrow> life_state outcome" where
  "process_reaper_round ops s =
     (let t = lf_task s in
      and_then (list_at (tk_lists t) (tk_reap_queue t)) (\<lambda>l.
      if lst_length l = 0 then Done s
      else
        and_then (lock_acquire (tk_reap_queue_lock t)) (\<lambda>lk.
        and_then (reaper_loop (Suc (unat (lst_length l))) ops (s\<lparr>lf_task := t\<lparr>tk_reap_queue_lock := lk\<rparr>\<rparr>) 0) (\<lambda>s'.
        Done (s'\<lparr>lf_task := (lf_task s')\<lparr>tk_reap_queue_lock := lock_release (tk_reap_queue_lock (lf_task s'))\<rparr>\<rparr>)))))"

section \<open>Waiting\<close>

definition wait_matches :: "int \<Rightarrow> process_t \<Rightarrow> process_t \<Rightarrow> bool" where
  "wait_matches pid cur child =
     (if pid < - 1 then pr_gid child = - pid
      else if pid = 0 then pr_gid cur = pr_gid child
      else if pid > 0 then pr_pid child = pid
      else True)"

text \<open>The first child on the list that matches and has stopped (NULL: none).\<close>

primrec wait_scan :: "nat \<Rightarrow> task_state \<Rightarrow> int \<Rightarrow> process_t \<Rightarrow> addr \<Rightarrow> addr outcome" where
  "wait_scan 0 s pid cur child_node = (if child_node = NULL then Done NULL else Hang)"
| "wait_scan (Suc fuel) s pid cur child_node =
     (if child_node = NULL then Done NULL
      else
        and_then (node_at (tk_lists s) child_node) (\<lambda>n.
        and_then (tnode_at (tk_heap s) (nd_value n)) (\<lambda>tn.
        if tn_value tn = NULL then wait_scan fuel s pid cur (nd_next n)
        else
          and_then (proc_at s (tn_value tn)) (\<lambda>child.
          if wait_matches pid cur child \<and> has_bits (pr_flags child) PROCESS_STOPPED then Done (tn_value tn)
          else wait_scan fuel s pid cur (nd_next n)))))"

datatype wait_result = Returned int "cint option" | Blocked

definition leave_wait_queue :: "task_state \<Rightarrow> addr \<Rightarrow> task_state outcome" where
  "leave_wait_queue s q =
     and_then (list_find (tk_lists s) q (cpu_current_thread (tk_cpu s))) (\<lambda>n.
     and_then (list_delete (tk_lists s) q n) (\<lambda>h. Done (set_lists s h)))"

text \<open>Entering the wait queue, which is created when it is missing.\<close>

definition enter_wait_queue :: "task_state \<Rightarrow> (addr \<times> task_state) outcome" where
  "enter_wait_queue s =
     (let me = cpu_current_process (tk_cpu s) in
      and_then (proc_at s me) (\<lambda>cur.
      and_then (if pr_waitpid_queue cur \<noteq> NULL then Done (pr_waitpid_queue cur, s)
                else case list_create (tk_lists s) ''waitpid queue'' of (q, h) \<Rightarrow>
                  and_then (set_proc (set_lists s h) me (\<lambda>p. p\<lparr>pr_waitpid_queue := q\<rparr>)) (\<lambda>s'. Done (q, s'))) (\<lambda>(q, s1).
      and_then (list_append (tk_lists s1) q (cpu_current_thread (tk_cpu s1))) (\<lambda>h. Done (q, set_lists s1 h)))))"

text \<open>
  A child was found: its status is stored (\<open>wstatus\<close> says whether the caller wants it), it is destroyed
  unless a CPU still runs it, and its number is read again for the return value.
\<close>

definition wait_collect :: "fs_ops \<Rightarrow> life_state \<Rightarrow> addr \<Rightarrow> addr \<Rightarrow> bool \<Rightarrow> (wait_result \<times> life_state) outcome" where
  "wait_collect ops s q child wstatus =
     and_then (proc_at (lf_task s) child) (\<lambda>c.
     let status = (if wstatus then Some (WSTATUS_EXITED OR push_bit WSTATUS_EXITCODE (of_int (pr_exit_status c))) else None) in
     and_then (if PROCESS_IN_USE (lf_task s) child then Done s else process_destroy ops s child) (\<lambda>s1.
     let t1 = (lf_task s1)\<lparr>tk_reap_queue_lock := lock_release (tk_reap_queue_lock (lf_task s1))\<rparr> in
     and_then (leave_wait_queue t1 q) (\<lambda>t2.
     and_then (proc_at t2 child) (\<lambda>c'. Done (Returned (pr_pid c') status, s1\<lparr>lf_task := t2\<rparr>)))))"

text \<open>One round of the loop of \<open>process_waitpid\<close>. When it blocks, the state is that of the thread that runs next.\<close>

definition process_waitpid_round ::
  "fs_ops \<Rightarrow> life_state \<Rightarrow> int \<Rightarrow> bool \<Rightarrow> cint \<Rightarrow> (wait_result \<times> life_state) outcome" where
  "process_waitpid_round ops s pid wstatus options =
     (let t = lf_task s; me = cpu_current_process (tk_cpu t) in
      and_then (proc_at t me) (\<lambda>cur0.
      if pr_node cur0 = NULL then Done (Returned (- ECHILD) None, s)
      else
        and_then (enter_wait_queue t) (\<lambda>(q, t1).
        and_then (lock_acquire (tk_reap_queue_lock t1)) (\<lambda>lk.
        let t2 = t1\<lparr>tk_reap_queue_lock := lk\<rparr> in
        and_then (tnode_at (tk_heap t2) (pr_node cur0)) (\<lambda>node.
        and_then (if tn_children node = NULL then Done None
                  else and_then (list_at (tk_lists t2) (tn_children node)) (\<lambda>l. Done (if lst_length l = 0 then None else Some l))) (\<lambda>children.
        case children of
          None \<Rightarrow>
            and_then (leave_wait_queue (t2\<lparr>tk_reap_queue_lock := lock_release lk\<rparr>) q) (\<lambda>t3. Done (Returned (- ECHILD) None, s\<lparr>lf_task := t3\<rparr>))
        | Some l \<Rightarrow>
            and_then (proc_at t2 me) (\<lambda>cur.
            and_then (wait_scan (lh_brk (tk_lists t2)) t2 pid cur (lst_head l)) (\<lambda>child.
            if child \<noteq> NULL then wait_collect ops (s\<lparr>lf_task := t2\<rparr>) q child wstatus
            else
              let t3 = t2\<lparr>tk_reap_queue_lock := lock_release lk\<rparr> in
              if options AND WNOHANG \<noteq> 0 then
                and_then (leave_wait_queue t3 q) (\<lambda>t4. Done (Returned 0 None, s\<lparr>lf_task := t4\<rparr>))
              else
                and_then (sleep_untilNever t3 (cpu_current_thread (tk_cpu t3))) (\<lambda>(r, t4).
                and_then (process_yield t4 False) (\<lambda>t5. Done (Blocked, s\<lparr>lf_task := t5\<rparr>)))))))))))"

section \<open>System calls on processes\<close>

definition sys_exit :: "life_state \<Rightarrow> int \<Rightarrow> life_state outcome" where
  "sys_exit s status = and_then (process_exit (lf_task s) NULL status) (\<lambda>t. Done (s\<lparr>lf_task := t\<rparr>))"

definition sys_fork :: "mem_ops \<Rightarrow> life_state \<Rightarrow> (int \<times> life_state) outcome" where
  "sys_fork mem s = process_fork mem s"

text \<open>One round of the wait; the caller's status pointer is validated before.\<close>

definition sys_wait :: "fs_ops \<Rightarrow> life_state \<Rightarrow> int \<Rightarrow> bool \<Rightarrow> cint \<Rightarrow> (wait_result \<times> life_state) outcome" where
  "sys_wait ops s pid wstatus options = process_waitpid_round ops s pid wstatus options"

definition sys_usleep :: "life_state \<Rightarrow> u64 \<Rightarrow> (cint \<times> life_state) outcome" where
  "sys_usleep s usec =
     (if usec < 10000 then Done (0, s)
      else
        and_then (sleep_untilTime (lf_task s) (cpu_current_thread (tk_cpu (lf_task s))) (usec div 10000 div 1000) (usec div 10000 mod 1000)) (\<lambda>(r, t1).
        and_then (process_yield t1 False) (\<lambda>t2. Done (0, s\<lparr>lf_task := t2\<rparr>))))"

section \<open>New objects and the lists\<close>

text \<open>Allocation leaves every list as it is.\<close>

lemma list_heap_ok_brk: "list_heap_ok h \<Longrightarrow> list_heap_ok (h\<lparr>lh_brk := Suc (lh_brk h)\<rparr>)"
  by (auto simp: list_heap_ok_def subset_iff)

lemma list_holds_brk: "list_holds l h vs \<Longrightarrow> list_holds l (h\<lparr>lh_brk := Suc (lh_brk h)\<rparr>) vs"
  by (auto simp: list_holds_def list_rep_def node_value_def list_heap_ok_brk)

lemma list_holds_lt: "list_holds l h vs \<Longrightarrow> l < lh_brk h"
  by (auto simp: list_holds_def list_rep_def list_heap_ok_def)

lemma list_create_keeps:
  assumes "list_create h name = (l, h')" "list_holds k h vs"
  shows "list_holds k h' vs" "l = lh_brk h" "lh_brk h' = Suc (lh_brk h)"
proof -
  have h': "l = lh_brk h" "h' = h\<lparr>lh_brk := Suc (lh_brk h),
     lh_lists := (lh_lists h)(lh_brk h \<mapsto> \<lparr>lst_name = name, lst_head = NULL, lst_tail = NULL, lst_length = 0\<rparr>)\<rparr>"
    using assms(1) by (auto simp: list_create_def)
  then show "l = lh_brk h" "lh_brk h' = Suc (lh_brk h)" by simp_all
  have "list_heap_ok h'" using list_create_rep(1) [OF _ assms(1)] assms(2) by (simp add: list_holds_def)
  moreover have "k \<noteq> l" using list_holds_lt [OF assms(2)] h'(1) by simp
  ultimately show "list_holds k h' vs" using assms(2) h' by (auto simp: list_holds_def list_rep_def node_value_def)
qed

lemma tree_create_node_spec:
  assumes "tree_create_node h v = (node, h')" "list_holds k (th_lists h) vs"
  shows "node = lh_brk (th_lists h)" "lh_brk (th_lists h') = lh_brk (th_lists h) + 2" "list_holds k (th_lists h') vs"
    "th_nodes h' = (th_nodes h)(node \<mapsto> \<lparr>tn_value = v, tn_children = Suc node, tn_parent = NULL\<rparr>)"
    "list_holds (Suc node) (th_lists h') []"
proof -
  let ?b = "th_lists h\<lparr>lh_brk := Suc (lh_brk (th_lists h))\<rparr>"
  obtain c lh where c: "list_create ?b ''tree node children'' = (c, lh)" by fastforce
  note k = list_create_keeps [OF c list_holds_brk [OF assms(2)]]
  show "node = lh_brk (th_lists h)" "lh_brk (th_lists h') = lh_brk (th_lists h) + 2" "list_holds k (th_lists h') vs"
    "th_nodes h' = (th_nodes h)(node \<mapsto> \<lparr>tn_value = v, tn_children = Suc node, tn_parent = NULL\<rparr>)"
    using assms(1) c k by (auto simp: tree_create_node_def Let_def)
  have "list_heap_ok ?b" using assms(2) by (simp add: list_holds_def list_heap_ok_brk)
  from list_create_rep [OF this c] show "list_holds (Suc node) (th_lists h') []"
    using assms(1) c k(2) by (auto simp: tree_create_node_def Let_def list_holds_def)
qed

lemma tree_count_leaf:
  assumes "th_nodes h node = Some n" "node \<noteq> NULL" "list_holds (tn_children n) (th_lists h) []"
  shows "tree_count_children (tree_fuel h) h node = Done 0"
proof -
  obtain x where x: "list_at (th_lists h) (tn_children n) = Done x" "lst_head x = NULL" using list_holds_head [OF assms(3)] by auto
  have "lst_length x = 0" using assms(3) x(1) by (auto simp: list_holds_def list_rep_def list_at_def)
  moreover obtain f where f: "tree_fuel h = Suc (Suc f)" by (simp add: tree_fuel_def)
  ultimately show ?thesis using assms(1,2) x list_holds_nonnull [OF assms(3)] unfolding f by (simp add: tnode_at_def)
qed

lemma tree_insert_child_spec:
  assumes "th_nodes h parent = Some pn" "parent \<noteq> NULL" "parent < lh_brk (th_lists h)" "list_holds (tn_children pn) (th_lists h) cs"
  defines "node \<equiv> lh_brk (th_lists h)"
  shows "\<exists>h' t'. tree_insert_child h t parent v = Done (node, h', t') \<and>
     th_nodes h' = (th_nodes h)(node \<mapsto> \<lparr>tn_value = v, tn_children = Suc node, tn_parent = parent\<rparr>) \<and>
     list_holds (tn_children pn) (th_lists h') (cs @ [node]) \<and>
     (\<forall>k vs. k \<noteq> tn_children pn \<longrightarrow> list_holds k (th_lists h) vs \<longrightarrow> list_holds k (th_lists h') vs)"
proof -
  obtain a h1 where h1: "tree_create_node h v = (a, h1)" by fastforce
  note c = tree_create_node_spec [OF h1 assms(4)]
  let ?n = "\<lparr>tn_value = v, tn_children = Suc node, tn_parent = NULL\<rparr>"
  have a: "a = node" "node \<noteq> NULL" "parent \<noteq> node" using c(1) assms(2,3) by (auto simp: node_def)
  have count: "tree_count_children (tree_fuel h1) h1 node = Done 0"
    by (rule tree_count_leaf [of h1 node ?n]) (use c a in simp_all)
  from list_holds_append [OF c(3), of node] obtain lh where lh: "list_append (th_lists h1) (tn_children pn) node = Done lh"
    "list_holds (tn_children pn) lh (cs @ [node])" "lists_keep (tn_children pn) (th_lists h1) lh" by blast
  have "tree_insert_child h t parent v = Done (node, h1\<lparr>th_nodes := (th_nodes h1)(node \<mapsto> ?n\<lparr>tn_parent := parent\<rparr>), th_lists := lh\<rparr>,
      t\<lparr>tree_nodes := tree_nodes t + 1\<rparr>)"
    using h1 a c(4) count lh(1) assms(1,2) by (simp add: tree_insert_child_def tree_insert_child_node_def tnode_at_def on_lists_def Let_def)
  moreover have "list_holds k lh vs" if "k \<noteq> tn_children pn" "list_holds k (th_lists h) vs" for k vs
    using tree_create_node_spec(3) [OF h1 that(2)] lh(3) that(1) by (simp add: lists_keep_def)
  ultimately show ?thesis using c(4) a(1) lh(2) by auto
qed

section \<open>Forking\<close>

lemma mem_switchDirectory_cpu: "\<exists>c. mem_switchDirectory s d = s\<lparr>tk_cpu := c\<rparr>"
proof -
  have "s = s\<lparr>tk_cpu := tk_cpu s\<rparr>" by simp
  then show ?thesis unfolding mem_switchDirectory_def Let_def by (metis (full_types))
qed

lemma create_main_thread_spec:
  assumes "tk_procs (lf_task s) process = Some q" "process \<noteq> NULL" "\<not> has_bits flags THREAD_FLAG_KERNEL" "0 < lh_brk (tk_lists (lf_task s))"
  defines "t \<equiv> lf_task s" and "thr \<equiv> lh_brk (tk_lists (lf_task s))"
  shows "\<exists>c th. create_main_thread s process dir flags = Done (thr, s\<lparr>lf_task := (set_lists t ((tk_lists t)\<lparr>lh_brk := Suc thr\<rparr>))
      \<lparr>tk_threads := (tk_threads t)(thr \<mapsto> th), tk_cpu := c, tk_procs := (tk_procs t)(process \<mapsto> q\<lparr>pr_main_thread := thr\<rparr>)\<rparr>\<rparr>) \<and>
     thr_parent th = process \<and> thr_flags th = flags \<and> thr_dir th = dir"
proof -
  let ?th = "\<lparr>thr_parent = process, thr_status = THREAD_STATUS_RUNNING, thr_flags = flags, thr_preempt_ticks = 0, thr_total_ticks = 0,
      thr_sleep = NULL, thr_dir = dir, thr_stack = 0\<rparr>"
  let ?th' = "?th\<lparr>thr_stack := MEM_USERMODE_STACK_REGION + THREAD_STACK_SIZE\<rparr>"
  let ?t1 = "(set_lists t ((tk_lists t)\<lparr>lh_brk := Suc thr\<rparr>))\<lparr>tk_threads := (tk_threads t)(thr \<mapsto> ?th)\<rparr>"
  have c: "thread_createStructure t process dir THREAD_STATUS_RUNNING flags = (thr, ?t1)"
    by (simp add: thread_createStructure_def kmalloc_def Let_def thr_def t_def)
  obtain c1 where c1: "mem_switchDirectory ?t1 dir = ?t1\<lparr>tk_cpu := c1\<rparr>" using mem_switchDirectory_cpu by blast
  let ?t3 = "?t1\<lparr>tk_cpu := c1, tk_threads := (tk_threads t)(thr \<mapsto> ?th')\<rparr>"
  obtain c2 where c2: "mem_switchDirectory ?t3 (cpu_current_dir (tk_cpu ?t1)) = ?t3\<lparr>tk_cpu := c2\<rparr>" using mem_switchDirectory_cpu by blast
  have "thr \<noteq> NULL" using assms(4) by (simp add: thr_def)
  then have "thread_create t process dir flags = Done (thr, ?t3\<lparr>tk_cpu := c2\<rparr>)"
    using assms(3) c c1 c2 by (simp add: thread_create_def Let_def)
  then show ?thesis using assms(1,2) by (intro exI [of _ c2] exI [of _ ?th']) (simp add: create_main_thread_def t_def)
qed

lemma process_allocatePID_frame: "process_allocatePID s = Done (pid, s') \<Longrightarrow> \<exists>b. s' = s\<lparr>tk_pid_bitmap := b\<rparr>"
  by (auto simp: process_allocatePID_def Let_def outcome_iff split: option.splits)

lemma pid_bitmap_cong:
  assumes "tk_pid_bitmap s' = tk_pid_bitmap s"
  shows "pid_bitmap_ok s' = pid_bitmap_ok s" "pid_used s' q = pid_used s q"
  using assms by (simp_all add: pid_bitmap_ok_def pid_used_def pid_bitmap_of_def)

text \<open>The current process has a node in the process tree, with the nodes \<open>cs\<close> of its children, and a descriptor table.\<close>

definition fork_ready :: "life_state \<Rightarrow> addr \<Rightarrow> process_t \<Rightarrow> tree_node_t \<Rightarrow> fd_table_t \<Rightarrow> addr list \<Rightarrow> addr list \<Rightarrow> bool" where
  "fork_ready s p pp pn tb cs vs \<longleftrightarrow> (let t = lf_task s; b = lh_brk (tk_lists t) in
     cpu_current_process (tk_cpu t) = p \<and> p \<noteq> NULL \<and> tk_procs t p = Some pp \<and> p < b \<and>
     pr_node pp \<noteq> NULL \<and> pr_node pp < b \<and> th_nodes (tk_heap t) (pr_node pp) = Some pn \<and> list_holds (tn_children pn) (tk_lists t) cs \<and>
     list_holds (tk_thread_queue t) (tk_lists t) vs \<and> tk_thread_queue t \<noteq> tn_children pn \<and> \<not> tk_scheduler_lock t \<and>
     pr_fd_table pp \<noteq> NULL \<and> lf_tables s (pr_fd_table pp) = Some tb)"

lemma createStructure_child:
  assumes "fork_ready s p pp pn tb cs vs" "pid_bitmap_ok (lf_task s)" "k < 8192" "\<not> pid_used (lf_task s) k" "\<forall>q<k. pid_used (lf_task s) q"
  defines "t \<equiv> lf_task s" and "b \<equiv> lh_brk (tk_lists (lf_task s))"
  shows "\<exists>bm h tr c. process_createStructure mem s p name flags priority =
       Done (b, s\<lparr>lf_task := t\<lparr>tk_heap := h, tk_pid_bitmap := bm, tk_process_tree := tr, tk_procs := (tk_procs t)(b \<mapsto> c)\<rparr>,
                lf_tables := (lf_tables s)(pr_fd_table pp \<mapsto> tb\<lparr>fdt_references := fdt_references tb + 1\<rparr>)\<rparr>) \<and>
     pr_parent c = p \<and> pr_pid c = int k \<and> pr_name c = name \<and> pr_flags c = flags \<and> pr_priority c = priority \<and> pr_node c = Suc b \<and>
     pr_wd_path c = pr_wd_path pp \<and> pr_fd_table c = pr_fd_table pp \<and>
     th_nodes h = (th_nodes (tk_heap t))(Suc b \<mapsto> \<lparr>tn_value = b, tn_children = Suc (Suc b), tn_parent = pr_node pp\<rparr>) \<and>
     list_holds (tn_children pn) (th_lists h) (cs @ [Suc b]) \<and> list_holds (tk_thread_queue t) (th_lists h) vs \<and>
     pid_used (t\<lparr>tk_pid_bitmap := bm\<rparr>) k"
proof -
  have r: "cpu_current_process (tk_cpu t) = p" "p \<noteq> NULL" "tk_procs t p = Some pp" "p < b" "pr_node pp \<noteq> NULL" "pr_node pp < b"
    "th_nodes (tk_heap t) (pr_node pp) = Some pn" "list_holds (tn_children pn) (tk_lists t) cs" "list_holds (tk_thread_queue t) (tk_lists t) vs"
    "tk_thread_queue t \<noteq> tn_children pn" "pr_fd_table pp \<noteq> NULL" "lf_tables s (pr_fd_table pp) = Some tb"
    using assms(1) by (simp_all add: fork_ready_def Let_def t_def b_def)
  define t0 where "t0 = set_lists t ((tk_lists t)\<lparr>lh_brk := Suc b\<rparr>)"
  have "tk_pid_bitmap t0 = tk_pid_bitmap t" by (simp add: t0_def set_lists_def)
  note pids = pid_bitmap_cong [OF this]
  from process_allocatePID_first [of t0 k] assms(2-5) obtain s1 where
    s1: "process_allocatePID t0 = Done (int k, s1)" "pid_used s1 k" by (auto simp: pids t_def [symmetric])
  from process_allocatePID_frame [OF s1(1)] obtain bm where bm: "s1 = t0\<lparr>tk_pid_bitmap := bm\<rparr>" by blast
  have "list_holds (tn_children pn) (tk_lists t0) cs" "list_holds (tk_thread_queue t) (tk_lists t0) vs"
    using list_holds_brk [OF r(8)] list_holds_brk [OF r(9)] by (simp_all add: t0_def b_def t_def)
  note lists = this [unfolded tk_lists_def]
  have heap: "th_nodes (tk_heap t0) = th_nodes (tk_heap t)" "lh_brk (th_lists (tk_heap t0)) = Suc b"
    by (simp_all add: t0_def set_lists_def)
  from tree_insert_child_spec [of "tk_heap t0" "pr_node pp" pn cs "tk_process_tree t0" b] r(5-7) lists(1) heap obtain h tr where
    h: "tree_insert_child (tk_heap t0) (tk_process_tree t0) (pr_node pp) b = Done (Suc b, h, tr)"
      "th_nodes h = (th_nodes (tk_heap t))(Suc b \<mapsto> \<lparr>tn_value = b, tn_children = Suc (Suc b), tn_parent = pr_node pp\<rparr>)"
      "list_holds (tn_children pn) (th_lists h) (cs @ [Suc b])" "list_holds (tk_thread_queue t) (th_lists h) vs"
    using lists(2) r(10) by auto
  define s2 where "s2 = s\<lparr>lf_task := t\<lparr>tk_heap := h, tk_pid_bitmap := bm, tk_process_tree := tr\<rparr>\<rparr>"
  define c where "c = \<lparr>pr_parent = p, pr_pid = int k, pr_name = name, pr_uid = 0, pr_gid = 0, pr_exit_status = 0, pr_flags = flags,
      pr_priority = priority, pr_node = Suc b, pr_waitpid_queue = NULL, pr_main_thread = NULL, pr_thread_list = NULL,
      pr_wd_path = pr_wd_path pp, pr_fd_table = pr_fd_table pp, pr_heap = 0, pr_heap_base = 0,
      pr_kstack = mem_allocate mem s2 PROCESS_KSTACK_SIZE + PROCESS_KSTACK_SIZE,
      pr_dir = (if has_bits flags PROCESS_KERNEL then NULL else mem_clone mem s2 (pr_dir pp))\<rparr>"
  have km: "kmalloc (lf_task s) = (b, t0)" by (simp add: kmalloc_def Let_def t0_def b_def t_def)
  have node: "create_tree_node s1 (Some pp) b = Done (Suc b, lf_task s2)"
    using h(1) r(5) by (simp add: create_tree_node_def bm s2_def t0_def set_lists_def)
  have tab: "create_fd_table s2 (Some pp) =
      Done (pr_fd_table pp, s2\<lparr>lf_tables := (lf_tables s)(pr_fd_table pp \<mapsto> tb\<lparr>fdt_references := fdt_references tb + 1\<rparr>)\<rparr>)"
    using r(11,12) by (simp add: create_fd_table_def files_of_def table_at_def s2_def)
  have pp: "proc_at s1 p = Done pp" using r(2,3) by (simp add: bm t0_def)
  have "process_createStructure mem s p name flags priority =
       Done (b, s\<lparr>lf_task := t\<lparr>tk_heap := h, tk_pid_bitmap := bm, tk_process_tree := tr, tk_procs := (tk_procs t)(b \<mapsto> c)\<rparr>,
                lf_tables := (lf_tables s)(pr_fd_table pp \<mapsto> tb\<lparr>fdt_references := fdt_references tb + 1\<rparr>)\<rparr>)"
    using r(2) km s1(1) pp node tab by (simp add: process_createStructure_def Let_def c_def s2_def)
  moreover have "pid_used (t\<lparr>tk_pid_bitmap := bm\<rparr>) k" using s1(2) pid_bitmap_cong(2) [of "t\<lparr>tk_pid_bitmap := bm\<rparr>" s1 k] by (simp add: bm)
  ultimately show ?thesis using h(2-4) by (intro exI [of _ bm] exI [of _ h] exI [of _ tr] exI [of _ c]) (simp add: c_def)
qed

lemma set_lists_more:
  "th_nodes (tk_heap (set_lists s h)) = th_nodes (tk_heap s)" "tk_pid_bitmap (set_lists s h) = tk_pid_bitmap s"
  by (simp_all add: set_lists_def)

lemma fork_thread_spec:
  assumes "tk_procs (lf_task s) child = Some c" "child \<noteq> NULL" "list_holds (tk_thread_queue (lf_task s)) (tk_lists (lf_task s)) vs"
    "\<not> tk_scheduler_lock (lf_task s)"
  shows "\<exists>s' thr th. and_then (create_main_thread s child dir THREAD_FLAG_CHILD) (\<lambda>(thr, s2).
       and_then (scheduler_insertThread (lf_task s2) thr) (\<lambda>(r, t3). Done (x, s2\<lparr>lf_task := t3\<rparr>))) = Done (x, s') \<and>
     tk_procs (lf_task s') = (tk_procs (lf_task s))(child \<mapsto> c\<lparr>pr_main_thread := thr\<rparr>) \<and> lf_tables s' = lf_tables s \<and>
     th_nodes (tk_heap (lf_task s')) = th_nodes (tk_heap (lf_task s)) \<and> tk_pid_bitmap (lf_task s') = tk_pid_bitmap (lf_task s) \<and>
     tk_threads (lf_task s') thr = Some th \<and> thr_parent th = child \<and>
     list_holds (tk_thread_queue (lf_task s')) (tk_lists (lf_task s')) (vs @ [thr]) \<and>
     (\<forall>l ws. l \<noteq> tk_thread_queue (lf_task s) \<longrightarrow> list_holds l (tk_lists (lf_task s)) ws \<longrightarrow> list_holds l (tk_lists (lf_task s')) ws)"
proof -
  let ?t = "lf_task s" and ?thr = "lh_brk (tk_lists (lf_task s))"
  have f: "\<not> has_bits THREAD_FLAG_CHILD THREAD_FLAG_KERNEL" by (simp add: has_bits_def THREAD_FLAG_CHILD_def THREAD_FLAG_KERNEL_def)
  have pos: "0 < ?thr" using assms(3) by (auto simp: list_holds_def list_heap_ok_def)
  from create_main_thread_spec [OF assms(1,2) f pos, of dir] obtain cp th where
    th: "create_main_thread s child dir THREAD_FLAG_CHILD = Done (?thr, s\<lparr>lf_task := (set_lists ?t ((tk_lists ?t)\<lparr>lh_brk := Suc ?thr\<rparr>))
      \<lparr>tk_threads := (tk_threads ?t)(?thr \<mapsto> th), tk_cpu := cp, tk_procs := (tk_procs ?t)(child \<mapsto> c\<lparr>pr_main_thread := ?thr\<rparr>)\<rparr>\<rparr>)"
      "thr_parent th = child" by blast
  let ?t2 = "(set_lists ?t ((tk_lists ?t)\<lparr>lh_brk := Suc ?thr\<rparr>))
      \<lparr>tk_threads := (tk_threads ?t)(?thr \<mapsto> th), tk_cpu := cp, tk_procs := (tk_procs ?t)(child \<mapsto> c\<lparr>pr_main_thread := ?thr\<rparr>)\<rparr>"
  have l2: "list_holds l (tk_lists ?t2) ws" if "list_holds l (tk_lists ?t) ws" for l ws using list_holds_brk [OF that] by simp
  have q: "list_holds (tk_thread_queue ?t2) (tk_lists ?t2) vs" using l2 [OF assms(3)] by simp
  have "?thr \<noteq> NULL" "\<not> tk_scheduler_lock ?t2" using pos assms(4) by simp_all
  from scheduler_insertThread_spec [OF q this] obtain h where
    h: "scheduler_insertThread ?t2 ?thr = Done (0, set_lists ?t2 h)" "list_holds (tk_thread_queue ?t2) h (vs @ [?thr])"
      "lists_keep (tk_thread_queue ?t2) (tk_lists ?t2) h" by blast
  have keep: "list_holds l h ws" if "l \<noteq> tk_thread_queue ?t" "list_holds l (tk_lists ?t) ws" for l ws
    using h(3) l2 [OF that(2)] that(1) by (simp add: lists_keep_def)
  show ?thesis
    using th h(1,2) keep
    by (intro exI [of _ "s\<lparr>lf_task := set_lists ?t2 h\<rparr>"] exI [of _ ?thr] exI [of _ th]) (simp add: set_lists_more)
qed

section \<open>Properties\<close>

text \<open> C33: \<open>process_fork\<close> makes a child. It returns the least free process identifier, which is then used; the child
  has the current process as its parent, its name, flags, priority and working directory, and shares its
  descriptor table, which counts one reference more; it is the last child of the parent in the process tree; and
  its thread is at the end of the run queue.\<close>

theorem process_fork_child:
  assumes "fork_ready s p pp pn tb cs vs" "pid_bitmap_ok (lf_task s)" "k < 8192" "\<not> pid_used (lf_task s) k" "\<forall>q<k. pid_used (lf_task s) q"
  shows "\<exists>s' t' child c thr th. process_fork mem s = Done (int k, s') \<and> lf_task s' = t' \<and> pid_used t' k \<and>
     child \<noteq> p \<and> tk_procs t' p = Some pp \<and> tk_procs t' child = Some c \<and> pr_parent c = p \<and> pr_pid c = int k \<and> pr_name c = pr_name pp \<and>
     pr_flags c = pr_flags pp \<and> pr_priority c = pr_priority pp \<and> pr_wd_path c = pr_wd_path pp \<and> pr_fd_table c = pr_fd_table pp \<and>
     lf_tables s' (pr_fd_table pp) = Some (tb\<lparr>fdt_references := fdt_references tb + 1\<rparr>) \<and>
     list_holds (tn_children pn) (tk_lists t') (cs @ [pr_node c]) \<and>
     (\<exists>n. th_nodes (tk_heap t') (pr_node c) = Some n \<and> tn_value n = child \<and> tn_parent n = pr_node pp) \<and>
     pr_main_thread c = thr \<and> tk_threads t' thr = Some th \<and> thr_parent th = child \<and> list_holds (tk_thread_queue t') (tk_lists t') (vs @ [thr])"
proof -
  define t b where "t = lf_task s" and "b = lh_brk (tk_lists t)"
  have r: "cpu_current_process (tk_cpu t) = p" "p \<noteq> NULL" "tk_procs t p = Some pp" "p < b" "\<not> tk_scheduler_lock t"
    "tk_thread_queue t \<noteq> tn_children pn"
    using assms(1) by (simp_all add: fork_ready_def Let_def t_def b_def)
  from createStructure_child [OF assms, of mem "pr_name pp" "pr_flags pp" "pr_priority pp", folded t_def, folded b_def]
  obtain bm h tr c where cr: "process_createStructure mem s p (pr_name pp) (pr_flags pp) (pr_priority pp) =
       Done (b, s\<lparr>lf_task := t\<lparr>tk_heap := h, tk_pid_bitmap := bm, tk_process_tree := tr, tk_procs := (tk_procs t)(b \<mapsto> c)\<rparr>,
                lf_tables := (lf_tables s)(pr_fd_table pp \<mapsto> tb\<lparr>fdt_references := fdt_references tb + 1\<rparr>)\<rparr>)"
    "pr_parent c = p" "pr_pid c = int k" "pr_name c = pr_name pp" "pr_flags c = pr_flags pp" "pr_priority c = pr_priority pp" "pr_node c = Suc b"
    "pr_wd_path c = pr_wd_path pp" "pr_fd_table c = pr_fd_table pp"
    "th_nodes h = (th_nodes (tk_heap t))(Suc b \<mapsto> \<lparr>tn_value = b, tn_children = Suc (Suc b), tn_parent = pr_node pp\<rparr>)"
    "list_holds (tn_children pn) (th_lists h) (cs @ [Suc b])" "list_holds (tk_thread_queue t) (th_lists h) vs"
    "pid_used (t\<lparr>tk_pid_bitmap := bm\<rparr>) k" by blast
  define t1 s1 where "t1 = t\<lparr>tk_heap := h, tk_pid_bitmap := bm, tk_process_tree := tr, tk_procs := (tk_procs t)(b \<mapsto> c)\<rparr>"
    and "s1 = s\<lparr>lf_task := t1, lf_tables := (lf_tables s)(pr_fd_table pp \<mapsto> tb\<lparr>fdt_references := fdt_references tb + 1\<rparr>)\<rparr>"
  have cr1: "process_createStructure mem s p (pr_name pp) (pr_flags pp) (pr_priority pp) = Done (b, s1)" unfolding cr(1) t1_def s1_def ..
  have s1: "lf_task s1 = t1" "tk_procs t1 b = Some c" "b \<noteq> NULL" "tk_thread_queue t1 = tk_thread_queue t" "\<not> tk_scheduler_lock t1"
      "tk_lists t1 = th_lists h" using r(4,5) by (simp_all add: s1_def t1_def tk_lists_def)
  from fork_thread_spec [of s1 b c vs "pr_dir c" "int k", unfolded s1(1)] s1(2-6) cr(12) obtain s' thr th where
    s': "and_then (create_main_thread s1 b (pr_dir c) THREAD_FLAG_CHILD) (\<lambda>(thr, s2).
       and_then (scheduler_insertThread (lf_task s2) thr) (\<lambda>(r, t3). Done (int k, s2\<lparr>lf_task := t3\<rparr>))) = Done (int k, s')"
      "tk_procs (lf_task s') = (tk_procs t1)(b \<mapsto> c\<lparr>pr_main_thread := thr\<rparr>)" "lf_tables s' = lf_tables s1"
      "th_nodes (tk_heap (lf_task s')) = th_nodes (tk_heap t1)" "tk_pid_bitmap (lf_task s') = tk_pid_bitmap t1"
      "tk_threads (lf_task s') thr = Some th" "thr_parent th = b" "list_holds (tk_thread_queue (lf_task s')) (tk_lists (lf_task s')) (vs @ [thr])"
      "\<forall>l ws. l \<noteq> tk_thread_queue t \<longrightarrow> list_holds l (th_lists h) ws \<longrightarrow> list_holds l (tk_lists (lf_task s')) ws" by auto
  have "process_fork mem s = Done (int k, s')"
    using r(1-3) cr1 cr(3) s'(1) s1(1-3) by (simp add: process_fork_def process_create_def Let_def t_def [symmetric])
  moreover have "pid_used (lf_task s') k" using cr(13) pid_bitmap_cong(2) [of "lf_task s'" "t\<lparr>tk_pid_bitmap := bm\<rparr>" k] s'(5) by (simp add: t1_def)
  moreover have "list_holds (tn_children pn) (tk_lists (lf_task s')) (cs @ [Suc b])" using s'(9) cr(11) r(6) by metis
  ultimately show ?thesis using r(3,4) cr s'(2-8)
    by (intro exI [of _ s'] exI [of _ "lf_task s'"] exI [of _ b] exI [of _ "c\<lparr>pr_main_thread := thr\<rparr>"] exI [of _ thr] exI [of _ th])
      (simp add: t1_def s1_def)
qed

definition example_proc :: process_t where
  "example_proc = \<lparr>pr_parent = NULL, pr_pid = 0, pr_name = ''init'', pr_uid = 0, pr_gid = 0, pr_exit_status = 0,
     pr_flags = PROCESS_STARTED OR PROCESS_RUNNING, pr_priority = PRIORITY_HIGH, pr_node = 3, pr_waitpid_queue = NULL,
     pr_main_thread = NULL, pr_thread_list = NULL, pr_wd_path = ''/home'', pr_fd_table = 5, pr_heap = 0, pr_heap_base = 0, pr_kstack = 0, pr_dir = NULL\<rparr>"

definition example_life :: life_state where
  "example_life = \<lparr>lf_task = (task_small 4 4)\<lparr>
       tk_heap := \<lparr>th_lists = \<lparr>lh_nodes = Map.empty,
           lh_lists = [1 \<mapsto> \<lparr>lst_name = ''thread queue'', lst_head = NULL, lst_tail = NULL, lst_length = 0\<rparr>,
                       2 \<mapsto> \<lparr>lst_name = ''tree node children'', lst_head = NULL, lst_tail = NULL, lst_length = 0\<rparr>],
           lh_brk = 10, lh_junk = (\<lambda>_. \<lparr>nd_next = 57, nd_prev = 58, nd_value = 59, nd_owner = 60\<rparr>), lh_freed = []\<rparr>,
         th_nodes = [3 \<mapsto> \<lparr>tn_value = 4, tn_children = 2, tn_parent = NULL\<rparr>]\<rparr>,
       tk_procs := [4 \<mapsto> example_proc], tk_thread_queue := 1, tk_scheduler_lock := False, tk_pid_bitmap := None,
       tk_cpu := (tk_cpu (task_small 4 4))\<lparr>cpu_current_process := 4\<rparr>\<rparr>,
     lf_tables = [5 \<mapsto> fd_table_new], lf_vfs = vfs_example\<rparr>"

lemma example_life_ready: "fork_ready example_life 4 example_proc \<lparr>tn_value = 4, tn_children = 2, tn_parent = NULL\<rparr> fd_table_new [] []"
  by (auto simp: fork_ready_def example_life_def example_proc_def Let_def tk_lists_def list_holds_def list_heap_ok_def list_rep_def)

theorem process_fork_child_witness:
  "\<forall>mem. \<exists>s' child c. process_fork mem example_life = Done (0, s') \<and> tk_procs (lf_task s') child = Some c \<and>
     pr_parent c = 4 \<and> pr_wd_path c = ''/home'' \<and> list_holds 2 (tk_lists (lf_task s')) [pr_node c]"
proof
  fix mem
  have "pid_bitmap_ok (lf_task example_life)" "\<not> pid_used (lf_task example_life) 0"
    by (simp_all add: pid_bitmap_ok_def pid_used_def pid_bitmap_of_def example_life_def)
  from process_fork_child [OF example_life_ready this(1) _ this(2), of mem]
  show "\<exists>s' child c. process_fork mem example_life = Done (0, s') \<and> tk_procs (lf_task s') child = Some c \<and>
     pr_parent c = 4 \<and> pr_wd_path c = ''/home'' \<and> list_holds 2 (tk_lists (lf_task s')) [pr_node c]"
    by (auto simp: example_proc_def)
qed

section \<open>The double free of process nodes\<close>

text \<open>
  \<open>tree_remove\<close> frees the node of a process that has a parent, and \<open>process_destroy\<close> frees it once more. So
  neither \<open>process_waitpid\<close> nor the reaper gets past an exited child.
\<close>

lemma tree_remove_frees:
  assumes "tree_remove h t node = Done (h', t')" "th_nodes h node = Some n" "tn_parent n \<noteq> NULL"
  shows "th_nodes h' node = None"
  using assms by (auto simp: tree_remove_def tree_remove_reparent_def tnode_at_def outcome_iff Let_def split: if_splits)

lemma destroy_list_nodes: "destroy_list s l = Done s' \<Longrightarrow> th_nodes (tk_heap s') = th_nodes (tk_heap s)"
  by (auto simp: destroy_list_def outcome_iff set_lists_more)

lemma process_destroy_double_free:
  assumes "tk_procs (lf_task s) proc = Some p" "proc \<noteq> NULL" "has_bits (pr_flags p) PROCESS_STOPPED"
    "pr_node p \<noteq> NULL" "th_nodes (tk_heap (lf_task s)) (pr_node p) = Some n" "tn_parent n \<noteq> NULL"
  shows "\<not> is_Done (process_destroy ops s proc)"
proof
  assume "is_Done (process_destroy ops s proc)"
  then obtain t1 t2 t3 where
    t: "(if pr_waitpid_queue p = NULL then Done (lf_task s) else destroy_list (lf_task s) (pr_waitpid_queue p)) = Done t1"
      "(if pr_thread_list p = NULL then Done t1 else destroy_list t1 (pr_thread_list p)) = Done t2"
      "destroy_tree_node t2 (pr_node p) = Done t3"
    using assms(1-3) by (auto simp: is_Done_def process_destroy_def and_then_Done_iff)
  have "th_nodes (tk_heap t2) = th_nodes (tk_heap (lf_task s))"
    using t(1,2) destroy_list_nodes by (metis outcome.inject(1))
  then have n: "th_nodes (tk_heap t2) (pr_node p) = Some n" using assms(5) by simp
  from t(3) assms(4) obtain h tr where "tree_remove (tk_heap t2) (tk_process_tree t2) (pr_node p) = Done (h, tr)"
    "is_Done (kfree_tnode h (pr_node p))" by (auto simp: destroy_tree_node_def and_then_Done_iff)
  then show False using tree_remove_frees [OF _ n assms(6)] assms(4) by (auto simp: kfree_tnode_def tnode_at_def)
qed

end
