(* ===== verification/Devices.thy ===== *)
theory Devices
  imports Fd Printf
begin

text \<open>
  The devices of \<open>hexahedron/fs/null.c\<close> and \<open>hexahedron/fs/ramdev.c\<close>, with the methods that their file nodes
  carry. Reading gives the bytes that were stored into the buffer of the caller and the value returned.
\<close>

section \<open>Methods\<close>

definition nulldev_read :: "addr \<Rightarrow> u64 \<Rightarrow> u64 \<Rightarrow> vfs_state \<Rightarrow> (u8 list \<times> u64 \<times> vfs_state) outcome" where
  "nulldev_read node offset sz s = Done ([], sz, s)"

definition nulldev_write :: "addr \<Rightarrow> u64 \<Rightarrow> u64 \<Rightarrow> u8 list \<Rightarrow> vfs_state \<Rightarrow> (u64 \<times> vfs_state) outcome" where
  "nulldev_write node offset sz buffer s = Done (sz, s)"

definition zerodev_read :: "addr \<Rightarrow> u64 \<Rightarrow> u64 \<Rightarrow> vfs_state \<Rightarrow> (u8 list \<times> u64 \<times> vfs_state) outcome" where
  "zerodev_read node offset sz s = Done (replicate (unat sz) 0, sz, s)"

definition zerodev_write :: "addr \<Rightarrow> u64 \<Rightarrow> u64 \<Rightarrow> u8 list \<Rightarrow> vfs_state \<Rightarrow> (u64 \<times> vfs_state) outcome" where
  "zerodev_write node offset sz buffer s = Done (sz, s)"

text \<open>
  The clipping of \<open>ramdev_read\<close> and \<open>ramdev_write\<close> (None: nothing to do). The sum is a 64-bit one and can wrap.
\<close>

definition ramdev_clip :: "fs_node_t \<Rightarrow> u64 \<Rightarrow> u64 \<Rightarrow> u64 option" where
  "ramdev_clip n offset sz =
     (if sz = 0 then None
      else if offset > fn_length n then None
      else Some (if offset + sz > fn_length n then fn_length n - offset else sz))"

definition ram_behind :: "vfs_state \<Rightarrow> fs_node_t \<Rightarrow> (addr \<times> u8 list) outcome" where
  "ram_behind s n = (case fn_dev n of
     Dev a \<Rightarrow> (case vfs_ram s a of Some m \<Rightarrow> Done (a, m) | None \<Rightarrow> Fault BadPointer)
   | _ \<Rightarrow> Fault BadPointer)"

definition ramdev_read :: "addr \<Rightarrow> u64 \<Rightarrow> u64 \<Rightarrow> vfs_state \<Rightarrow> (u8 list \<times> u64 \<times> vfs_state) outcome" where
  "ramdev_read node offset sz s =
     and_then (fs_node_at s node) (\<lambda>n.
     case ramdev_clip n offset sz of
       None \<Rightarrow> Done ([], 0, s)
     | Some k \<Rightarrow>
         and_then (ram_behind s n) (\<lambda>(a, m).
         if unat offset + unat k \<le> length m then Done (take (unat k) (drop (unat offset) m), k, s)
         else Fault OutOfBounds))"

definition ramdev_write :: "addr \<Rightarrow> u64 \<Rightarrow> u64 \<Rightarrow> u8 list \<Rightarrow> vfs_state \<Rightarrow> (u64 \<times> vfs_state) outcome" where
  "ramdev_write node offset sz buffer s =
     and_then (fs_node_at s node) (\<lambda>n.
     case ramdev_clip n offset sz of
       None \<Rightarrow> Done (0, s)
     | Some k \<Rightarrow>
         and_then (ram_behind s n) (\<lambda>(a, m).
         if unat offset + unat k \<le> length m \<and> unat k \<le> length buffer then
           Done (k, s\<lparr>vfs_ram := (vfs_ram s)(a \<mapsto> take (unat offset) m @ take (unat k) buffer @ drop (unat offset + unat k) m)\<rparr>)
         else Fault OutOfBounds))"

text \<open>The numbers of the methods, and the functions behind them. The other numbers are wild pointers.\<close>

abbreviation (input) NULLDEV :: nat where "NULLDEV \<equiv> 0"
abbreviation (input) ZERODEV :: nat where "ZERODEV \<equiv> 1"
abbreviation (input) RAMDEV :: nat where "RAMDEV \<equiv> 2"

definition device_ops :: fs_ops where
  "device_ops =
     \<lparr>call_open = \<lambda>k node flags s. Fault BadPointer,
      call_close = \<lambda>k node s. Fault BadPointer,
      call_read = \<lambda>k node offset sz s.
        if k = NULLDEV then nulldev_read node offset sz s
        else if k = ZERODEV then zerodev_read node offset sz s
        else if k = RAMDEV then ramdev_read node offset sz s
        else Fault BadPointer,
      call_write = \<lambda>k node offset sz buffer s.
        if k = NULLDEV then nulldev_write node offset sz buffer s
        else if k = ZERODEV then zerodev_write node offset sz buffer s
        else if k = RAMDEV then ramdev_write node offset sz buffer s
        else Fault BadPointer,
      call_readdir = \<lambda>k node i s. Fault BadPointer,
      call_finddir = \<lambda>k node name s. Fault BadPointer,
      call_ioctl = \<lambda>k node request s. Fault BadPointer,
      call_mount = \<lambda>k argp mountpoint s. Fault BadPointer\<rparr>"

section \<open>Installation\<close>

definition NULLDEV_MOUNT_PATH :: string where "NULLDEV_MOUNT_PATH = ''/device/null''"
definition ZERODEV_MOUNT_PATH :: string where "ZERODEV_MOUNT_PATH = ''/device/zero''"

definition mount_new :: "vfs_state \<Rightarrow> fs_node_t \<Rightarrow> string \<Rightarrow> (addr \<times> string list option \<times> vfs_state) outcome" where
  "mount_new s n path = (case new_fs_node s n of (node, s1) \<Rightarrow>
     and_then (vfs_mount s1 node (Some path)) (\<lambda>(r, s2). Done (node, r, s2)))"

definition nulldev_init :: "vfs_state \<Rightarrow> vfs_state outcome" where
  "nulldev_init s =
     and_then (mount_new s (fs_node_zero\<lparr>fn_name := ''null'', fn_read := M_driver NULLDEV, fn_write := M_driver NULLDEV,
                                         fn_flags := VFS_CHARDEVICE\<rparr>) NULLDEV_MOUNT_PATH) (\<lambda>(node, r, s'). Done s')"

definition zerodev_init :: "vfs_state \<Rightarrow> vfs_state outcome" where
  "zerodev_init s =
     and_then (mount_new s (fs_node_zero\<lparr>fn_name := ''zero'', fn_read := M_driver ZERODEV, fn_write := M_driver ZERODEV,
                                         fn_flags := VFS_CHARDEVICE\<rparr>) ZERODEV_MOUNT_PATH) (\<lambda>(node, r, s'). Done s')"

text \<open>The string that \<open>snprintf\<close> leaves in a zeroed character array.\<close>

definition print_name :: "nat \<Rightarrow> nat \<Rightarrow> string \<Rightarrow> va list \<Rightarrow> string outcome" where
  "print_name arr n format args =
     and_then (snprintf (replicate arr NUL) n (Some format) args) (\<lambda>(m, r). read_str m 0)"

text \<open>
  \<open>page_rw\<close> is what \<open>mem_getPage\<close> says of the page of an address: present and writable. The result is
  the node (NULL without such a page), the next index, and the file system.
\<close>

definition ramdev_mount :: "(addr \<Rightarrow> bool) \<Rightarrow> cint \<Rightarrow> vfs_state \<Rightarrow> addr \<Rightarrow> u64 \<Rightarrow> (addr \<times> cint \<times> vfs_state) outcome" where
  "ramdev_mount page_rw ram_index s a sz =
     (if \<not> page_rw a then Done (NULL, ram_index, s)
      else
        and_then (print_name 256 10 ''ram%i'' [VInt (scast ram_index)]) (\<lambda>name.
        and_then (print_name 64 63 ''/device/%s'' [VStr (Some name)]) (\<lambda>path.
        and_then (mount_new s (fs_node_zero\<lparr>fn_name := name, fn_flags := VFS_BLOCKDEVICE, fn_read := M_driver RAMDEV,
            fn_write := M_driver RAMDEV, fn_length := sz, fn_mask := 448, fn_dev := Dev a\<rparr>) path) (\<lambda>(node, r, s').
        Done (node, ram_index + 1, s')))))"

section \<open>Names\<close>

lemma print_name_spec:
  assumes "xvasprintf (Some format) args = Done s" "NUL \<notin> set s" "2 \<le> n" "n \<le> arr" "length s < n"
  shows "print_name arr n format args = Done s"
proof -
  have m: "min (length s) (n - 1) = length s" "take (n - 1) s = s" using assms(5) by simp_all
  obtain b where b: "snprintf (replicate arr NUL) n (Some format) args = Done (b, of_nat (length s))" "length b = arr"
    "take (length s) b = s" "b ! length s = NUL"
    using snprintf_spec [OF assms(1,3), of "replicate arr NUL"] assms(4) unfolding m by auto
  then have "cstr_at b 0 s" using assms by (simp add: cstr_at_def)
  then show ?thesis using b(1) by (simp add: print_name_def read_str_spec)
qed

lemma num_string_no_slash: "CHR ''/'' \<notin> set (num_string 10 n)"
proof
  assume "CHR ''/'' \<in> set (num_string 10 n)"
  then obtain d where d: "d \<in> set (num_digits 10 n)" "CHR ''/'' = digit_char d" by (auto simp: num_string_def)
  have "d < 10" using num_digits_less [OF _ d(1)] by simp
  then have "48 \<le> schar (digit_char d)" by (simp add: schar_digit)
  moreover have "schar (CHR ''/'') = 47" by code_simp
  ultimately show False using d(2) by simp
qed

lemma not_digit_is: "\<not> isdigit (schar (CHR ''i''))" "\<not> isdigit (schar (CHR ''s''))"
  by code_simp+

lemma xvasprintf_loop_i:
  "xvasprintf_loop (CHR ''%'' # CHR ''i'' # f) (VInt v # args) =
     and_then (xvasprintf_loop f args) (\<lambda>s. Done (num_string 10 (unat (scast (ucast v :: cint) :: u64)) @ s))"
  by (simp add: pf_conversion_def pf_star_def pf_precision_def pf_convert_def pf_signed_def va_int_def
      print_dec_numeral not_digit_is)

lemma xvasprintf_loop_s:
  "xvasprintf_loop (CHR ''%'' # CHR ''s'' # f) (VStr (Some t) # args) =
     and_then (xvasprintf_loop f args) (\<lambda>s. Done (t @ s))"
  by (simp add: pf_conversion_def pf_star_def pf_precision_def pf_convert_def va_str_def pf_string_def not_digit_is)

lemma xvasprintf_loop_char:
  "c \<noteq> CHR ''%'' \<Longrightarrow> xvasprintf_loop (c # f) args = and_then (xvasprintf_loop f args) (\<lambda>s. Done (c # s))"
  by simp

lemmas print_formats = xvasprintf_loop_i xvasprintf_loop_s xvasprintf_loop_char xvasprintf_loop.simps(1)

lemma scast_small:
  assumes "k < 2 ^ 31"
  shows "unat (scast (ucast (scast (of_nat k :: cint) :: u64) :: cint) :: u64) = k"
proof -
  have k: "sint (of_nat k :: cint) = int k" by (rule sint_of_nat_31 [OF assms])
  have "(scast (of_nat k :: cint) :: u64) = of_int (sint (of_nat k :: cint))" by simp
  then have s: "(scast (of_nat k :: cint) :: u64) = of_nat k" using k by simp
  have "take_bit 64 k = k" using assms by (simp add: take_bit_nat_eq_self)
  then have "(ucast (of_nat k :: u64) :: cint) = of_nat k" by (simp add: unsigned_of_nat)
  then have "(scast (ucast (scast (of_nat k :: cint) :: u64) :: cint) :: u64) = of_nat k" using s by simp
  moreover have "unat (of_nat k :: u64) = k" by (rule unat_of_nat_less) (use assms in simp)
  ultimately show ?thesis by simp
qed

definition ram_name :: "nat \<Rightarrow> string" where
  "ram_name k = ''ram'' @ num_string 10 k"

lemma ram_name_component: "component (ram_name k)" "NUL \<notin> set (ram_name k)" "\<not> dots (ram_name k)"
  using num_string_no_slash [of k] num_string_not_NUL [of 10 k] by (auto simp: ram_name_def component_def dots_def)

lemma ram_name_length: "k < 10 ^ 6 \<Longrightarrow> length (ram_name k) \<le> 9"
  using num_digits_length [of k 6] by (simp add: ram_name_def num_string_def)

lemma print_ram_name:
  assumes "k < 10 ^ 6"
  shows "print_name 256 10 ''ram%i'' [VInt (scast (of_nat k :: cint))] = Done (ram_name k)"
proof (rule print_name_spec)
  have "k < 2 ^ 31" using assms by simp
  then show "xvasprintf (Some ''ram%i'') [VInt (scast (of_nat k :: cint))] = Done (ram_name k)"
    by (simp add: xvasprintf_def print_formats scast_small ram_name_def del: xvasprintf_loop.simps(2))
qed (use ram_name_component ram_name_length [OF assms] in simp_all)

definition ram_path :: "nat \<Rightarrow> string list" where
  "ram_path k = [''device'', ram_name k]"

lemma ram_path_ok: "k < 10 ^ 6 \<Longrightarrow> path_ok (ram_path k)" "list_all (\<lambda>c. \<not> dots c) (ram_path k)"
  using ram_name_component [of k] ram_name_length [of k] by (auto simp: ram_path_def path_ok_def component_def dots_def)

lemma print_ram_path:
  assumes "k < 10 ^ 6"
  shows "print_name 64 63 ''/device/%s'' [VStr (Some (ram_name k))] = Done (path_of (ram_path k))"
proof (rule print_name_spec)
  show "xvasprintf (Some ''/device/%s'') [VStr (Some (ram_name k))] = Done (path_of (ram_path k))"
    by (simp add: xvasprintf_def print_formats path_of_def ram_path_def del: xvasprintf_loop.simps(2))
  show "NUL \<notin> set (path_of (ram_path k))" using ram_name_component(2) by (simp add: path_of_def ram_path_def)
  show "length (path_of (ram_path k)) < 63" using ram_name_length [OF assms] by (simp add: path_of_def ram_path_def)
qed simp_all

text \<open>Mounting a new node and opening it by its path.\<close>

lemma mount_new_kopen:
  assumes "vfs_ok s" "path_ok ts" "\<forall>k. fn_open nd \<noteq> M_driver k"
  shows "\<exists>s1. mount_new s nd (path_of ts) = Done (vfs_brk s, Some ts, s1) \<and> vfs_ok s1 \<and> vfs_ram s1 = vfs_ram s \<and>
     kopen ops s1 (Some (path_of ts)) flags =
       Done (vfs_brk s1, s1\<lparr>vfs_nodes := (vfs_nodes s1)(vfs_brk s1 \<mapsto> nd\<lparr>fn_refcount := fn_refcount nd + 1\<rparr>), vfs_brk := vfs_brk s1 + 1\<rparr>)"
proof -
  let ?s = "s\<lparr>vfs_nodes := (vfs_nodes s)(vfs_brk s \<mapsto> nd), vfs_brk := vfs_brk s + 1\<rparr>"
  obtain root where root: "vfs_tree ?s = Some root" using assms(1) by (auto simp: vfs_ok_def)
  have ok: "vfs_ok ?s" "vfs_brk s \<noteq> NULL" using assms(1) by (auto simp: vfs_ok_def nodes_ok_def)
  from vfs_mount_keeps [OF ok(1) root ok(2) assms(2)] obtain s1 root' where
    s1: "vfs_mount ?s (vfs_brk s) (Some (path_of ts)) = Done (Some ts, s1)" "vfs_ok s1" "vfs_tree s1 = Some root'"
      "lookup root' ts = Some (vfs_brk s)" "\<forall>a < vfs_brk ?s. vfs_nodes s1 a = vfs_nodes ?s a" by blast
  have "vfs_nodes s1 (vfs_brk s) = Some nd" using s1(5) by simp
  from kopen_mounted [OF s1(2,3) assms(2) s1(4) ok(2) this assms(3)] vfs_mount_ram [OF ok(1) root ok(2) assms(2) s1(1)] s1(1,2)
  show ?thesis by (auto simp: mount_new_def new_fs_node_def)
qed

section \<open>RAM devices\<close>

lemma ramdev_mount_spec:
  fixes sz :: u64
  assumes "vfs_ok s" "page_rw a" "k < 10 ^ 6"
  defines "nd \<equiv> fs_node_zero\<lparr>fn_name := ram_name k, fn_flags := VFS_BLOCKDEVICE, fn_read := M_driver RAMDEV,
            fn_write := M_driver RAMDEV, fn_length := sz, fn_mask := 448, fn_dev := Dev a\<rparr>"
  shows "\<exists>s1. ramdev_mount page_rw (of_nat k) s a sz = Done (vfs_brk s, of_nat (k + 1), s1) \<and> vfs_ok s1 \<and> vfs_ram s1 = vfs_ram s \<and>
     kopen ops s1 (Some (path_of (ram_path k))) flags =
       Done (vfs_brk s1, s1\<lparr>vfs_nodes := (vfs_nodes s1)(vfs_brk s1 \<mapsto> nd\<lparr>fn_refcount := 1\<rparr>), vfs_brk := vfs_brk s1 + 1\<rparr>)"
proof -
  have "\<forall>k. fn_open nd \<noteq> M_driver k" "fn_refcount nd = 0" by (simp_all add: nd_def fs_node_zero_def)
  from mount_new_kopen [OF assms(1) ram_path_ok(1) [OF assms(3)] this(1), of ops flags] this(2) obtain s1 where
    "mount_new s nd (path_of (ram_path k)) = Done (vfs_brk s, Some (ram_path k), s1)" "vfs_ok s1" "vfs_ram s1 = vfs_ram s"
    "kopen ops s1 (Some (path_of (ram_path k))) flags =
       Done (vfs_brk s1, s1\<lparr>vfs_nodes := (vfs_nodes s1)(vfs_brk s1 \<mapsto> nd\<lparr>fn_refcount := 1\<rparr>), vfs_brk := vfs_brk s1 + 1\<rparr>)" by auto
  then show ?thesis
    using assms(2) by (auto simp: ramdev_mount_def print_ram_name [OF assms(3)] print_ram_path [OF assms(3)] nd_def algebra_simps)
qed

lemma unat_u64: "unat (w :: u64) < 2 ^ 64"
  by (rule order_less_le_trans [OF unsigned_less]) simp

lemma ramdev_clip_fit:
  assumes "unat off + unat sz \<le> unat (fn_length n)" "sz \<noteq> 0"
  shows "ramdev_clip n off sz = Some sz"
proof -
  have "unat off + unat sz < 2 ^ LENGTH(64)" using order_le_less_trans [OF assms(1) unat_u64] by simp
  then have "unat (off + sz) = unat off + unat sz" by (rule unat_add_lem [THEN iffD1])
  then show ?thesis using assms by (simp add: ramdev_clip_def word_less_nat_alt)
qed

lemma unat_length:
  assumes "length bs \<le> unat (w :: u64)"
  shows "unat (of_nat (length bs) :: u64) = length bs"
  by (rule unat_of_nat_less) (use order_le_less_trans [OF assms unat_u64] in simp)

lemma ramdev_write_spec:
  assumes "node \<noteq> NULL" "vfs_nodes v node = Some nd" "fn_write nd = M_driver RAMDEV" "fn_dev nd = Dev a" "vfs_ram v a = Some m"
    "unat (fn_length nd) \<le> length m" "bs \<noteq> []" "unat off + length bs \<le> unat (fn_length nd)"
  shows "fs_write device_ops v node off (of_nat (length bs)) bs =
    Done (of_nat (length bs), v\<lparr>vfs_ram := (vfs_ram v)(a \<mapsto> take (unat off) m @ bs @ drop (unat off + length bs) m)\<rparr>)"
proof -
  have u: "unat (of_nat (length bs) :: u64) = length bs" by (rule unat_length [of _ "fn_length nd"]) (use assms(8) in simp)
  then have nz: "(of_nat (length bs) :: u64) \<noteq> 0" using assms(7) by (metis length_0_conv unat_0)
  have "ramdev_clip nd off (of_nat (length bs)) = Some (of_nat (length bs))" by (rule ramdev_clip_fit) (use u nz assms(8) in simp_all)
  then show ?thesis using assms(1-6,8) u by (simp add: fs_write_def fs_node_at_def device_ops_def ramdev_write_def ram_behind_def)
qed

lemma ramdev_read_spec:
  assumes "node \<noteq> NULL" "vfs_nodes v node = Some nd" "fn_read nd = M_driver RAMDEV" "fn_dev nd = Dev a" "vfs_ram v a = Some m"
    "unat (fn_length nd) \<le> length m" "n \<noteq> 0" "unat off + unat n \<le> unat (fn_length nd)"
  shows "fs_read device_ops v node off n = Done (take (unat n) (drop (unat off) m), n, v)"
  using assms ramdev_clip_fit [OF assms(8,7)]
  by (simp add: fs_read_def fs_node_at_def device_ops_def ramdev_read_def ram_behind_def)

text \<open>Writing, going back and reading through a descriptor that is open on a RAM device.\<close>

lemma ramdev_fd_round_trip:
  assumes "fd_is s fd node 0" "fd \<noteq> STDOUT_FILE_DESCRIPTOR" "node \<noteq> NULL" "vfs_nodes (fs_vfs s) node = Some nd"
    "fn_read nd = M_driver RAMDEV" "fn_write nd = M_driver RAMDEV" "fn_dev nd = Dev a" "vfs_ram (fs_vfs s) a = Some m"
    "unat (fn_length nd) \<le> length m" "bs \<noteq> []" "length bs \<le> unat (fn_length nd)"
  defines "n \<equiv> of_nat (length bs)"
  shows "\<exists>s2 s3 s4. sys_write device_ops s fd bs n = Done (n, s2) \<and> sys_lseek s2 fd 0 SEEK_SET = Done (0, s3) \<and>
     sys_read device_ops s3 fd n = Done (bs, n, s4) \<and> vfs_ram (fs_vfs s4) a = Some (bs @ drop (length bs) m)"
proof -
  let ?m = "bs @ drop (length bs) m"
  let ?v = "(fs_vfs s)\<lparr>vfs_ram := (vfs_ram (fs_vfs s))(a \<mapsto> ?m)\<rparr>"
  have n: "unat n = length bs" unfolding n_def using assms(11) by (rule unat_length)
  then have nz: "n \<noteq> 0" using assms(10) by (metis length_0_conv unat_0)
  have "fs_write device_ops (fs_vfs s) node 0 n bs = Done (n, ?v)"
    using ramdev_write_spec [OF assms(3,4,6-9), of bs 0] assms(10,11) by (simp add: n_def)
  from sys_write_fd [OF assms(1) this assms(2)] obtain s2 where
    s2: "sys_write device_ops s fd bs n = Done (n, s2)" "fd_is s2 fd node n" "fs_vfs s2 = ?v" by auto
  from sys_lseek_set [OF s2(2), of 0] obtain s3 where
    s3: "sys_lseek s2 fd 0 SEEK_SET = Done (0, s3)" "fd_is s3 fd node 0" "fs_vfs s3 = ?v" using s2(3) by auto
  have "fs_read device_ops ?v node 0 n = Done (bs, n, ?v)"
    using ramdev_read_spec [OF assms(3), of ?v nd a ?m n 0] assms nz n by simp
  from sys_read_fd [OF s3(2), of device_ops n bs n ?v] this s3(3) obtain s4 where
    "sys_read device_ops s3 fd n = Done (bs, n, s4)" "fs_vfs s4 = ?v" by auto
  then show ?thesis using s2(1) s3(1) by auto
qed

section \<open>Properties\<close>

text \<open> C29: what a process writes to a RAM device it reads back. \<open>ramdev_mount\<close> enters the device under its
  number in \<open>/device\<close>; \<open>sys_open\<close> of that path gives the next descriptor; after \<open>sys_write\<close> of bytes that fit the
  device and \<open>sys_lseek\<close> to the start, \<open>sys_read\<close> returns the same bytes, and the device holds them. (The
  descriptor must not be number 1, which \<open>sys_write\<close> sends to the screen whatever is open there.)\<close>

theorem ramdev_write_read_round_trip:
  assumes "vfs_ok (fs_vfs s)" "table_at s = Done t" "fdt_ok t" "fdt_amount t < 2 ^ 31 - 1" "fdt_amount t \<noteq> 1"
    "NUL \<notin> set (fs_wd_path s)" "fs_wd_path s \<noteq> []" "page_rw a" "k < 10 ^ 6"
    "vfs_ram (fs_vfs s) a = Some m" "unat sz \<le> length m" "bs \<noteq> []" "length bs \<le> unat sz"
  shows "\<exists>node v s1 s2 s3 s4. let fd = of_nat (fdt_amount t); n = of_nat (length bs) in
     ramdev_mount page_rw (of_nat k) (fs_vfs s) a sz = Done (node, of_nat (k + 1), v) \<and>
     sys_open device_ops True (s\<lparr>fs_vfs := v\<rparr>) (''/device/ram'' @ num_string 10 k) 0 = Done (fd, s1) \<and>
     sys_write device_ops s1 fd bs n = Done (n, s2) \<and>
     sys_lseek s2 fd 0 SEEK_SET = Done (0, s3) \<and>
     sys_read device_ops s3 fd n = Done (bs, n, s4) \<and>
     vfs_ram (fs_vfs s4) a = Some (bs @ drop (length bs) m)"
proof -
  define fd n where "fd = (of_nat (fdt_amount t) :: cint)" and "n = (of_nat (length bs) :: u64)"
  have path: "''/device/ram'' @ num_string 10 k = path_of (ram_path k)" by (simp add: path_of_def ram_path_def ram_name_def)
  define nd where "nd = fs_node_zero\<lparr>fn_name := ram_name k, fn_flags := VFS_BLOCKDEVICE, fn_read := M_driver RAMDEV,
            fn_write := M_driver RAMDEV, fn_length := sz, fn_mask := 448, fn_dev := Dev a, fn_refcount := 1\<rparr>"
  from ramdev_mount_spec [where page_rw = page_rw and ops = device_ops and flags = 0 and sz = sz, OF assms(1,8,9)] obtain v where
    v: "ramdev_mount page_rw (of_nat k) (fs_vfs s) a sz = Done (vfs_brk (fs_vfs s), of_nat (k + 1), v)" "vfs_ok v"
      "vfs_ram v = vfs_ram (fs_vfs s)" "kopen device_ops v (Some (path_of (ram_path k))) 0 =
       Done (vfs_brk v, v\<lparr>vfs_nodes := (vfs_nodes v)(vfs_brk v \<mapsto> nd), vfs_brk := vfs_brk v + 1\<rparr>)"
    unfolding nd_def by auto
  define v1 where "v1 = v\<lparr>vfs_nodes := (vfs_nodes v)(vfs_brk v \<mapsto> nd), vfs_brk := vfs_brk v + 1\<rparr>"
  have node: "vfs_brk v \<noteq> NULL" "vfs_nodes v1 (vfs_brk v) = Some nd" "vfs_ram v1 a = Some m"
    using v(2,3) assms(10) by (auto simp: vfs_ok_def nodes_ok_def v1_def)
  have nd: "fn_read nd = M_driver RAMDEV" "fn_write nd = M_driver RAMDEV" "fn_dev nd = Dev a" "fn_length nd = sz" by (simp_all add: nd_def)
  have "sys_open device_ops True (s\<lparr>fs_vfs := v\<rparr>) (path_of (ram_path k)) 0 = open_fd (s\<lparr>fs_vfs := v1\<rparr>) (vfs_brk v) nd 0"
    using sys_open_found [OF ram_path_ok(1) [OF assms(9)] ram_path_ok(2), of "s\<lparr>fs_vfs := v\<rparr>" device_ops 0 "vfs_brk v" v1 nd True] assms(6,7) v(4) node
    by (simp add: v1_def)
  moreover obtain s1 where s1: "open_fd (s\<lparr>fs_vfs := v1\<rparr>) (vfs_brk v) nd 0 = Done (fd, s1)" "fd_is s1 fd (vfs_brk v) 0" "fs_vfs s1 = v1"
    using open_fd_spec [of "s\<lparr>fs_vfs := v1\<rparr>" t "vfs_brk v" 0 nd] assms(2-4) node(1) by (auto simp: fd_def)
  moreover have out: "fd \<noteq> STDOUT_FILE_DESCRIPTOR"
  proof
    assume "fd = STDOUT_FILE_DESCRIPTOR"
    moreover have "unat fd = fdt_amount t" unfolding fd_def by (rule unat_of_nat_less) (use assms(4) in simp)
    ultimately show False using assms(5) by (simp add: STDOUT_FILE_DESCRIPTOR_def)
  qed
  moreover obtain s2 s3 s4 where "sys_write device_ops s1 fd bs n = Done (n, s2)" "sys_lseek s2 fd 0 SEEK_SET = Done (0, s3)"
     "sys_read device_ops s3 fd n = Done (bs, n, s4)" "vfs_ram (fs_vfs s4) a = Some (bs @ drop (length bs) m)"
    using ramdev_fd_round_trip [OF s1(2) out node(1), of nd a m bs] node(2,3) nd assms(11-13) s1(3) by (auto simp: n_def)
  ultimately show ?thesis using v(1) unfolding path fd_def [symmetric] n_def [symmetric] Let_def
    by (intro exI [of _ "vfs_brk (fs_vfs s)"] exI [of _ v] exI [of _ s1] exI [of _ s2] exI [of _ s3] exI [of _ s4]) simp
qed

definition example_ram :: file_state where
  "example_ram = example_files\<lparr>fs_vfs := vfs_example\<lparr>vfs_ram := [4096 \<mapsto> replicate 4 0]\<rparr>, fs_tables := [1 \<mapsto> fd_table_new]\<rparr>"

theorem ramdev_write_read_round_trip_witness:
  "\<exists>node v s1 s2 s3 s4.
     ramdev_mount (\<lambda>a. True) 0 (fs_vfs example_ram) 4096 4 = Done (node, 1, v) \<and>
     sys_open device_ops True (example_ram\<lparr>fs_vfs := v\<rparr>) ''/device/ram0'' 0 = Done (0, s1) \<and>
     sys_write device_ops s1 0 [7, 8] 2 = Done (2, s2) \<and> sys_lseek s2 0 0 SEEK_SET = Done (0, s3) \<and>
     sys_read device_ops s3 0 2 = Done ([7, 8], 2, s4) \<and> vfs_ram (fs_vfs s4) 4096 = Some [7, 8, 0, 0]"
proof -
  have t: "table_at example_ram = Done fd_table_new" by (simp add: example_ram_def example_files_def table_at_def)
  have ok: "vfs_ok (fs_vfs example_ram)" using vfs_example_ok(1) by (simp add: example_ram_def vfs_ok_def nodes_ok_def)
  have num: "num_string 10 0 = ''0''" by code_simp
  have m: "replicate 4 (0 :: u8) = [0, 0, 0, 0]" by (simp add: numeral_eq_Suc)
  have wd: "fs_wd_path example_ram = ''/''" by (simp add: example_ram_def example_files_def)
  have ram: "vfs_ram (fs_vfs example_ram) 4096 = Some [0, 0, 0, 0]" by (simp add: example_ram_def m)
  from ramdev_write_read_round_trip [of example_ram fd_table_new "\<lambda>a. True" 4096 0 "[0, 0, 0, 0]" 4 "[7, 8]", OF ok t fdt_ok_new]
  show ?thesis by (simp add: wd ram num fd_table_new_def Let_def)
qed

end
