(* ===== verification/Drivefs.thy ===== *)
theory Drivefs
  imports Devices
begin

text \<open>
  \<open>hexahedron/fs/drivefs.c\<close>: the drives and partitions entered in the file system, with a counter for each
  type of drive. \<open>drive_list\<close> and the partition lists are the lists of their values (\<open>KList\<close> has the
  operations on them); a NULL list is \<open>None\<close>. Drive and partition objects are on a heap.
\<close>

section \<open>State\<close>

definition DRIVE_TYPE_IDE_HD :: cint where "DRIVE_TYPE_IDE_HD = 1"
definition DRIVE_TYPE_CDROM :: cint where "DRIVE_TYPE_CDROM = 2"
definition DRIVE_TYPE_SATA :: cint where "DRIVE_TYPE_SATA = 3"
definition DRIVE_TYPE_SCSI :: cint where "DRIVE_TYPE_SCSI = 4"
definition DRIVE_TYPE_SCSI_CDROM :: cint where "DRIVE_TYPE_SCSI_CDROM = 5"
definition DRIVE_TYPE_NVME :: cint where "DRIVE_TYPE_NVME = 6"
definition DRIVE_TYPE_FLOPPY :: cint where "DRIVE_TYPE_FLOPPY = 7"
definition DRIVE_TYPE_MMC :: cint where "DRIVE_TYPE_MMC = 8"

lemmas drive_types = DRIVE_TYPE_IDE_HD_def DRIVE_TYPE_CDROM_def DRIVE_TYPE_SATA_def DRIVE_TYPE_SCSI_def
  DRIVE_TYPE_SCSI_CDROM_def DRIVE_TYPE_NVME_def DRIVE_TYPE_FLOPPY_def DRIVE_TYPE_MMC_def

text \<open>The static counters of the file.\<close>

datatype drive_index =
    index_ide_hd | index_cdrom | index_sata | index_scsi | index_scsi_cdrom | index_nvme | index_floppy | index_mmc
  | index_unknown

definition GET_INDEX :: "cint \<Rightarrow> drive_index" where
  "GET_INDEX type =
     (if type = DRIVE_TYPE_IDE_HD then index_ide_hd
      else if type = DRIVE_TYPE_CDROM then index_cdrom
      else if type = DRIVE_TYPE_SATA then index_sata
      else if type = DRIVE_TYPE_SCSI then index_scsi
      else if type = DRIVE_TYPE_SCSI_CDROM then index_scsi_cdrom
      else if type = DRIVE_TYPE_NVME then index_nvme
      else if type = DRIVE_TYPE_FLOPPY then index_floppy
      else if type = DRIVE_TYPE_MMC then index_mmc
      else index_unknown)"

text \<open>The \<open>DRIVE_NAME\<close> prefix that the \<open>switch\<close> of \<open>drive_mount\<close> selects.\<close>

definition drive_prefix :: "cint \<Rightarrow> string" where
  "drive_prefix type =
     (if type = DRIVE_TYPE_IDE_HD then ''idehd''
      else if type = DRIVE_TYPE_CDROM then ''cdrom''
      else if type = DRIVE_TYPE_SATA then ''sata''
      else if type = DRIVE_TYPE_SCSI then ''scsi''
      else if type = DRIVE_TYPE_SCSI_CDROM then ''scsicd''
      else if type = DRIVE_TYPE_NVME then ''nvme''
      else if type = DRIVE_TYPE_FLOPPY then ''floppy''
      else if type = DRIVE_TYPE_MMC then ''mmc''
      else ''unknown'')"

record fs_drive_t =
  drive_node :: addr
  drive_type :: cint
  drive_name :: string
  last_partition :: cint
  partition_list :: "addr list option"

record fs_part_t =
  part_node :: addr
  part_parent :: addr
  part_number :: cint

record drive_state =
  dr_vfs :: vfs_state
  dr_index :: "drive_index \<Rightarrow> cint"
  dr_list :: "addr list option"
  dr_drives :: "addr \<rightharpoonup> fs_drive_t"
  dr_parts :: "addr \<rightharpoonup> fs_part_t"
  dr_brk :: addr

definition drive_at :: "drive_state \<Rightarrow> addr \<Rightarrow> fs_drive_t outcome" where
  "drive_at s a = (case dr_drives s a of Some d \<Rightarrow> Done d | None \<Rightarrow> Fault BadPointer)"

definition part_at :: "drive_state \<Rightarrow> addr \<Rightarrow> fs_part_t outcome" where
  "part_at s a = (case dr_parts s a of Some p \<Rightarrow> Done p | None \<Rightarrow> Fault BadPointer)"

section \<open>Operations\<close>

definition drive_mount :: "drive_state \<Rightarrow> addr \<Rightarrow> cint \<Rightarrow> (addr \<times> drive_state) outcome" where
  "drive_mount s node type =
     (if node = NULL then Done (NULL, s)
      else
        let list = (case dr_list s of None \<Rightarrow> [] | Some l \<Rightarrow> l);
            index = dr_index s (GET_INDEX type);
            drive = dr_brk s in
        and_then (print_name 256 256 (''/device/'' @ drive_prefix type @ ''%i'') [VInt (scast index)]) (\<lambda>path.
        and_then (print_name 256 256 (drive_prefix type @ ''%i'') [VInt (scast index)]) (\<lambda>name.
        and_then (set_fs_node (dr_vfs s) node (\<lambda>n. n\<lparr>fn_name := name\<rparr>)) (\<lambda>v1.
        and_then (vfs_mount v1 node (Some path)) (\<lambda>(r, v2).
        case r of
          None \<Rightarrow> Done (NULL, s\<lparr>dr_vfs := v2, dr_list := Some list, dr_brk := drive + 1\<rparr>)
        | Some _ \<Rightarrow>
            Done (drive, s\<lparr>dr_vfs := v2, dr_list := Some (list @ [drive]), dr_index := (dr_index s)(GET_INDEX type := index + 1),
              dr_drives := (dr_drives s)(drive \<mapsto> \<lparr>drive_node = node, drive_type = type, drive_name = path,
                                              last_partition = 0, partition_list = None\<rparr>),
              dr_brk := drive + 1\<rparr>))))))"

text \<open>The new partition is not appended to the list of the drive.\<close>

definition drive_mountPartition :: "drive_state \<Rightarrow> addr \<Rightarrow> addr \<Rightarrow> (addr \<times> drive_state) outcome" where
  "drive_mountPartition s drive node =
     and_then (drive_at s drive) (\<lambda>d.
     let d1 = (if partition_list d = None then d\<lparr>partition_list := Some []\<rparr> else d);
         part = dr_brk s in
     and_then (print_name 256 256 ''%sp%d'' [VStr (Some (drive_name d1)), VInt (scast (last_partition d1))]) (\<lambda>name.
     and_then (set_fs_node (dr_vfs s) node (\<lambda>n. n\<lparr>fn_name := name\<rparr>)) (\<lambda>v1.
     and_then (vfs_mount v1 node (Some name)) (\<lambda>(r, v2).
     case r of
       None \<Rightarrow> Done (NULL, s\<lparr>dr_vfs := v2, dr_drives := (dr_drives s)(drive \<mapsto> d1), dr_brk := part + 1\<rparr>)
     | Some _ \<Rightarrow>
         Done (part, s\<lparr>dr_vfs := v2, dr_drives := (dr_drives s)(drive \<mapsto> d1\<lparr>last_partition := last_partition d1 + 1\<rparr>),
           dr_parts := (dr_parts s)(part \<mapsto> \<lparr>part_node = node, part_parent = drive, part_number = last_partition d1\<rparr>),
           dr_brk := part + 1\<rparr>)))))"

fun find_drive :: "drive_state \<Rightarrow> string \<Rightarrow> addr list \<Rightarrow> addr outcome" where
  "find_drive s path [] = Done NULL"
| "find_drive s path (a # l) =
     (if a = NULL then find_drive s path l
      else and_then (drive_at s a) (\<lambda>d. if take 256 (drive_name d) = take 256 path then Done a else find_drive s path l))"

definition drive_findPath :: "drive_state \<Rightarrow> string \<Rightarrow> addr outcome" where
  "drive_findPath s path = (case dr_list s of None \<Rightarrow> Done NULL | Some l \<Rightarrow> find_drive s path l)"

text \<open>The two loops over lists. A NULL list is followed all the same.\<close>

fun close_parts :: "fs_ops \<Rightarrow> drive_state \<Rightarrow> addr list \<Rightarrow> drive_state outcome" where
  "close_parts ops s [] = Done s"
| "close_parts ops s (a # l) =
     (if a = NULL then close_parts ops s l
      else
        and_then (part_at s a) (\<lambda>p.
        and_then (if part_node p = NULL then Done (dr_vfs s) else fs_close ops (dr_vfs s) (part_node p)) (\<lambda>v.
        close_parts ops (s\<lparr>dr_vfs := v, dr_parts := (dr_parts s)(a := None)\<rparr>) l)))"

definition drive_unmount :: "fs_ops \<Rightarrow> drive_state \<Rightarrow> addr \<Rightarrow> drive_state outcome" where
  "drive_unmount ops s drive =
     (if drive = NULL then Done s
      else
        and_then (drive_at s drive) (\<lambda>d.
        and_then (case partition_list d of None \<Rightarrow> Fault BadPointer | Some l \<Rightarrow> close_parts ops s l) (\<lambda>s1.
        and_then (if drive_node d = NULL then Done (dr_vfs s1) else fs_close ops (dr_vfs s1) (drive_node d)) (\<lambda>v.
        Done (s1\<lparr>dr_vfs := v, dr_list := map_option (remove1 drive) (dr_list s1),
                 dr_drives := (dr_drives s1)(drive := None)\<rparr>)))))"

definition drive_unmountPartition :: "fs_ops \<Rightarrow> drive_state \<Rightarrow> addr \<Rightarrow> drive_state outcome" where
  "drive_unmountPartition ops s part =
     (if part = NULL then Done s
      else
        and_then (part_at s part) (\<lambda>p.
        and_then (if part_node p = NULL then Done (dr_vfs s) else fs_close ops (dr_vfs s) (part_node p)) (\<lambda>v.
        let s1 = s\<lparr>dr_vfs := v, dr_parts := (dr_parts s)(part := None)\<rparr> in
        if part_parent p = NULL then Done s1
        else and_then (drive_at s (part_parent p)) (\<lambda>d.
             Done (s1\<lparr>dr_drives := (dr_drives s)(part_parent p \<mapsto> d\<lparr>partition_list := map_option (remove1 part) (partition_list d)\<rparr>)\<rparr>)))))"

section \<open>Names\<close>

definition drive_path :: "cint \<Rightarrow> nat \<Rightarrow> string list" where
  "drive_path type k = [''device'', drive_prefix type @ num_string 10 k]"

lemma drive_prefix_cases:
  "drive_prefix type \<in> {''idehd'', ''cdrom'', ''sata'', ''scsi'', ''scsicd'', ''nvme'', ''floppy'', ''mmc'', ''unknown''}"
  by (simp add: drive_prefix_def)

primrec prefix_of :: "drive_index \<Rightarrow> string" where
  "prefix_of index_ide_hd = ''idehd''"
| "prefix_of index_cdrom = ''cdrom''"
| "prefix_of index_sata = ''sata''"
| "prefix_of index_scsi = ''scsi''"
| "prefix_of index_scsi_cdrom = ''scsicd''"
| "prefix_of index_nvme = ''nvme''"
| "prefix_of index_floppy = ''floppy''"
| "prefix_of index_mmc = ''mmc''"
| "prefix_of index_unknown = ''unknown''"

lemma prefix_of_index: "prefix_of (GET_INDEX type) = drive_prefix type"
  by (simp add: drive_prefix_def GET_INDEX_def)

lemma prefix_of_inj: "prefix_of i = prefix_of j \<Longrightarrow> i = j"
  by (cases i; cases j; simp)

lemma drive_prefix_index: "drive_prefix type = drive_prefix type' \<longleftrightarrow> GET_INDEX type = GET_INDEX type'"
  using prefix_of_inj [of "GET_INDEX type" "GET_INDEX type'"] prefix_of_index [of type] prefix_of_index [of type'] by auto

definition digits10 :: "char set" where
  "digits10 = digit_char ` {..<10}"

lemma digit_char_inj:
  assumes "d < 10" "e < 10" "digit_char d = digit_char e"
  shows "d = e"
proof -
  have "48 + int d = schar (digit_char d)" using assms(1) by (simp add: schar_digit)
  also have "\<dots> = schar (digit_char e)" by (simp only: assms(3))
  also have "\<dots> = 48 + int e" using assms(2) by (simp add: schar_digit)
  finally show ?thesis by simp
qed

lemma num_string_inj:
  assumes "num_string 10 k = num_string 10 k'"
  shows "k = k'"
proof -
  have "inj_on digit_char (set (num_digits 10 k) \<union> set (num_digits 10 k'))"
  proof (rule inj_onI)
    fix d e assume de: "d \<in> set (num_digits 10 k) \<union> set (num_digits 10 k')" "e \<in> set (num_digits 10 k) \<union> set (num_digits 10 k')"
      and eq: "digit_char d = digit_char e"
    have "d < 10" "e < 10" using de num_digits_less [of 10 _ k] num_digits_less [of 10 _ k'] by auto
    then show "d = e" using eq by (rule digit_char_inj)
  qed
  with assms [unfolded num_string_def] have eq: "num_digits 10 k = num_digits 10 k'" by (rule map_inj_on)
  have "k = foldl (\<lambda>v d. v * 10 + d) 0 (num_digits 10 k)" by (rule num_digits_value [symmetric]) simp
  also have "\<dots> = k'" unfolding eq by (rule num_digits_value) simp
  finally show ?thesis .
qed

lemma num_string_digits: "set (num_string 10 k) \<subseteq> digits10"
  using num_digits_less [of 10 _ k] by (auto simp: num_string_def digits10_def)

lemma letters_not_digits: "c \<in> set ''abcdefhiklmnopqrstuvwxyz'' \<Longrightarrow> c \<notin> digits10"
proof -
  have d: "48 \<le> schar x \<and> schar x \<le> 57" if "x \<in> digits10" for x using that by (auto simp: digits10_def schar_digit)
  have "list_all (\<lambda>c. schar c > 57) ''abcdefhiklmnopqrstuvwxyz''" by code_simp
  then show "c \<in> set ''abcdefhiklmnopqrstuvwxyz'' \<Longrightarrow> c \<notin> digits10" using d by (fastforce simp: list_all_iff)
qed

lemma drive_prefix_letters: "set (drive_prefix type) \<subseteq> set ''abcdefhiklmnopqrstuvwxyz''"
  using drive_prefix_cases [of type] by auto

lemma drive_prefix_no_digits: "c \<in> set (drive_prefix type) \<Longrightarrow> c \<notin> digits10"
  using letters_not_digits drive_prefix_letters by blast

lemma drive_name_inj:
  assumes "drive_prefix type @ num_string 10 k = drive_prefix type' @ num_string 10 k'"
  shows "GET_INDEX type = GET_INDEX type' \<and> k = k'"
proof -
  have tw: "takeWhile (\<lambda>c. c \<notin> digits10) (drive_prefix t @ num_string 10 j) = drive_prefix t" for t j
  proof (subst takeWhile_append2)
    have "takeWhile (\<lambda>c. c \<notin> digits10) (num_string 10 j) = []" using num_string_digits [of j] by (cases "num_string 10 j") auto
    then show "drive_prefix t @ takeWhile (\<lambda>c. c \<notin> digits10) (num_string 10 j) = drive_prefix t" by simp
  qed (rule drive_prefix_no_digits)
  have p: "drive_prefix type = drive_prefix type'" using tw [of type k] tw [of type' k'] assms by simp
  then have "num_string 10 k = num_string 10 k'" using assms by simp
  then show ?thesis using p num_string_inj [of k k'] by (simp add: drive_prefix_index)
qed

lemma xvasprintf_plain:
  "CHR ''%'' \<notin> set p \<Longrightarrow> xvasprintf_loop (p @ f) args = and_then (xvasprintf_loop f args) (\<lambda>s. Done (p @ s))"
proof (induction p)
  case (Cons c p)
  then have "c \<noteq> CHR ''%''" "CHR ''%'' \<notin> set p" by auto
  then show ?case using Cons.IH by (simp add: xvasprintf_loop_char del: xvasprintf_loop.simps(2))
qed simp

lemma drive_prefix_plain: "CHR ''%'' \<notin> set (drive_prefix type)" "CHR ''/'' \<notin> set (drive_prefix type)" "NUL \<notin> set (drive_prefix type)"
  "drive_prefix type \<noteq> []" "length (drive_prefix type) \<le> 7"
  using drive_prefix_cases [of type] by auto

lemma print_index:
  assumes "CHR ''%'' \<notin> set p" "NUL \<notin> set p" "k < 2 ^ 31" "length p \<le> 200"
  shows "print_name 256 256 (p @ ''%i'') [VInt (scast (of_nat k :: cint))] = Done (p @ num_string 10 k)"
proof (rule print_name_spec)
  show "xvasprintf (Some (p @ ''%i'')) [VInt (scast (of_nat k :: cint))] = Done (p @ num_string 10 k)"
    by (simp add: xvasprintf_def xvasprintf_plain [OF assms(1)] print_formats scast_small [OF assms(3)] del: xvasprintf_loop.simps(2))
  have "k < 10 ^ 10" using assms(3) by simp
  then have "length (num_string 10 k) \<le> 10" using num_digits_length [of k 10] by (simp add: num_string_def)
  then show "length (p @ num_string 10 k) < 256" using assms(4) by simp
  show "NUL \<notin> set (p @ num_string 10 k)" using assms(2) num_string_not_NUL [of 10 k] by simp
qed simp_all

lemma drive_path_ok: "k < 2 ^ 31 \<Longrightarrow> path_ok (drive_path type k)"
  using drive_prefix_plain [of type] num_string_no_slash [of k] num_string_not_NUL [of 10 k] num_digits_length [of k 10]
  by (auto simp: drive_path_def path_ok_def component_def num_string_def)

lemma drive_path_inj: "path_of (drive_path type k) = path_of (drive_path type' k') \<Longrightarrow> GET_INDEX type = GET_INDEX type' \<and> k = k'"
  using drive_name_inj [of type k type' k'] by (simp add: drive_path_def path_of_def)

lemma drive_path_length: "k < 2 ^ 31 \<Longrightarrow> length (path_of (drive_path type k)) < 256"
  using num_digits_length [of k 10] drive_prefix_plain(5) [of type] by (simp add: drive_path_def path_of_def num_string_def)

section \<open>Invariant\<close>

text \<open>
  The drives on the list are objects of the heap, each named after its type and a number that the counter
  of the type has passed, and no two have the same name.
\<close>

definition listed :: "drive_state \<Rightarrow> addr list" where
  "listed s = (case dr_list s of None \<Rightarrow> [] | Some l \<Rightarrow> l)"

definition name_of :: "drive_state \<Rightarrow> addr \<Rightarrow> string" where
  "name_of s a = (case dr_drives s a of None \<Rightarrow> [] | Some d \<Rightarrow> drive_name d)"

definition drives_ok :: "drive_state \<Rightarrow> bool" where
  "drives_ok s \<longleftrightarrow> vfs_ok (dr_vfs s) \<and> dr_brk s \<noteq> NULL \<and> inj_on (name_of s) (set (listed s)) \<and>
     (\<forall>a \<in> set (listed s). a \<noteq> NULL \<and> a < dr_brk s \<and>
        (\<exists>d k. dr_drives s a = Some d \<and> drive_name d = path_of (drive_path (drive_type d) k) \<and>
               k < unat (dr_index s (GET_INDEX (drive_type d))) \<and> k < 2 ^ 31))"

lemma find_drive_first:
  assumes "\<forall>a \<in> set l. a \<noteq> NULL \<and> (\<exists>d. dr_drives s a = Some d \<and> length (drive_name d) < 256)" "inj_on (name_of s) (set l)" "a \<in> set l"
  shows "find_drive s (name_of s a) l = Done a"
  using assms
proof (induction l)
  case (Cons b l)
  then obtain d where b: "b \<noteq> NULL" "dr_drives s b = Some d" "length (drive_name d) < 256" by auto
  obtain e where e: "dr_drives s a = Some e" "length (drive_name e) < 256" using Cons.prems(1,3) by auto
  show ?case
  proof (cases "a = b")
    case True
    then show ?thesis using b by (simp add: drive_at_def name_of_def)
  next
    case False
    then have "name_of s a \<noteq> name_of s b" using inj_onD [OF Cons.prems(2), of a b] Cons.prems(3) by auto
    then have "take 256 (drive_name d) \<noteq> take 256 (name_of s a)" using b e by (simp add: name_of_def)
    then show ?thesis using b False Cons by (simp add: drive_at_def)
  qed
qed simp

lemma drive_found:
  assumes "drives_ok s" "a \<in> set (listed s)"
  shows "drive_findPath s (name_of s a) = Done a"
proof -
  obtain l where l: "dr_list s = Some l" "listed s = l" using assms(2) by (cases "dr_list s") (simp_all add: listed_def)
  have "\<forall>a \<in> set l. a \<noteq> NULL \<and> (\<exists>d. dr_drives s a = Some d \<and> length (drive_name d) < 256)"
  proof
    fix a assume "a \<in> set l"
    then obtain d k where "a \<noteq> NULL" "dr_drives s a = Some d" "drive_name d = path_of (drive_path (drive_type d) k)" "k < 2 ^ 31"
      using assms(1) l(2) by (auto simp: drives_ok_def)
    then show "a \<noteq> NULL \<and> (\<exists>d. dr_drives s a = Some d \<and> length (drive_name d) < 256)"
      using drive_path_length [of k "drive_type d"] by auto
  qed
  then show ?thesis using find_drive_first [of l s a] assms l by (simp add: drive_findPath_def drives_ok_def)
qed

definition add_drive :: "drive_state \<Rightarrow> vfs_state \<Rightarrow> addr \<Rightarrow> cint \<Rightarrow> nat \<Rightarrow> drive_state" where
  "add_drive s v node type k = s\<lparr>dr_vfs := v, dr_list := Some (listed s @ [dr_brk s]),
      dr_index := (dr_index s)(GET_INDEX type := of_nat k + 1),
      dr_drives := (dr_drives s)(dr_brk s \<mapsto> \<lparr>drive_node = node, drive_type = type, drive_name = path_of (drive_path type k),
                                           last_partition = 0, partition_list = None\<rparr>),
      dr_brk := dr_brk s + 1\<rparr>"

lemma drive_mount_run:
  assumes "vfs_ok (dr_vfs s)" "node \<noteq> NULL" "vfs_nodes (dr_vfs s) node \<noteq> None" "dr_index s (GET_INDEX type) = of_nat k" "k < 2 ^ 31"
  shows "\<exists>v. drive_mount s node type = Done (dr_brk s, add_drive s v node type k) \<and> vfs_ok v"
proof -
  let ?path = "path_of (drive_path type k)"
  obtain nd where nd: "vfs_nodes (dr_vfs s) node = Some nd" using assms(3) by auto
  let ?n = "nd\<lparr>fn_name := drive_prefix type @ num_string 10 k\<rparr>"
  let ?v = "(dr_vfs s)\<lparr>vfs_nodes := (vfs_nodes (dr_vfs s))(node \<mapsto> ?n)\<rparr>"
  have "\<not> vfs_brk (dr_vfs s) \<le> node" using assms(1) nd by (auto simp: vfs_ok_def nodes_ok_def)
  then have v: "vfs_ok ?v" using assms(1) by (auto simp: vfs_ok_def nodes_ok_def)
  then obtain root where root: "vfs_tree ?v = Some root" by (auto simp: vfs_ok_def)
  from vfs_mount_keeps [OF v root assms(2) drive_path_ok [OF assms(5)], of type] obtain v' where
    v': "vfs_mount ?v node (Some ?path) = Done (Some (drive_path type k), v')" "vfs_ok v'" by blast
  have path: "?path = ''/device/'' @ drive_prefix type @ num_string 10 k" by (simp add: drive_path_def path_of_def)
  have p1: "print_name 256 256 (''/device/'' @ drive_prefix type @ ''%i'') [VInt (scast (of_nat k :: cint))] = Done ?path"
    using print_index [of "''/device/'' @ drive_prefix type" k] drive_prefix_plain [of type] assms(5) by (simp add: path)
  have p2: "print_name 256 256 (drive_prefix type @ ''%i'') [VInt (scast (of_nat k :: cint))] = Done (drive_prefix type @ num_string 10 k)"
    using print_index [of "drive_prefix type" k] drive_prefix_plain [of type] assms(5) by simp
  have "drive_mount s node type = Done (dr_brk s, add_drive s v' node type k)"
    using assms(2) p1 p2 v'(1) nd
    by (simp add: drive_mount_def assms(4) Let_def set_fs_node_def fs_node_at_def add_drive_def listed_def split: option.splits)
  then show ?thesis using v'(2) by blast
qed

lemma drives_ok_add:
  assumes "drives_ok s" "vfs_ok v" "dr_index s (GET_INDEX type) = of_nat k" "k < 2 ^ 31 - 1"
  shows "drives_ok (add_drive s v node type k)"
proof -
  let ?s = "add_drive s v node type k"
  have l: "listed ?s = listed s @ [dr_brk s]" by (simp add: listed_def add_drive_def)
  have u: "unat (dr_index s (GET_INDEX type)) = k" unfolding assms(3) by (rule unat_of_nat_less) (use assms(4) in simp)
  have "Suc (unat (of_nat k :: cint)) < 2 ^ LENGTH(32)" using u assms(4) unfolding assms(3) by simp
  from unat_add_one [OF this] have u': "unat (of_nat k + 1 :: cint) = k + 1" using u unfolding assms(3) by simp
  have old: "a \<noteq> NULL \<and> a < dr_brk s \<and> (\<exists>d j. dr_drives s a = Some d \<and> drive_name d = path_of (drive_path (drive_type d) j) \<and>
      j < unat (dr_index s (GET_INDEX (drive_type d))) \<and> j < 2 ^ 31)" if "a \<in> set (listed s)" for a
    using assms(1) that by (simp add: drives_ok_def)
  have same: "name_of ?s a = name_of s a" "dr_drives ?s a = dr_drives s a" if "a \<in> set (listed s)" for a
    using old [OF that] by (auto simp: name_of_def add_drive_def)
  have new: "name_of ?s (dr_brk s) = path_of (drive_path type k)" by (simp add: name_of_def add_drive_def)
  have "name_of s a \<noteq> path_of (drive_path type k)" if a: "a \<in> set (listed s)" for a
  proof
    assume eq: "name_of s a = path_of (drive_path type k)"
    obtain d j where d: "dr_drives s a = Some d" "drive_name d = path_of (drive_path (drive_type d) j)" "j < unat (dr_index s (GET_INDEX (drive_type d)))"
      using old [OF a] by auto
    then have "GET_INDEX (drive_type d) = GET_INDEX type \<and> j = k" using eq by (intro drive_path_inj) (simp add: name_of_def)
    then show False using d(3) u by simp
  qed
  moreover have "inj_on (name_of ?s) (set (listed s))"
    using assms(1) same(1) by (simp add: drives_ok_def inj_on_def)
  ultimately have "inj_on (name_of ?s) (insert (dr_brk s) (set (listed s)))"
    using same(1) new unfolding inj_on_insert by (metis DiffD1 imageE)
  then have "inj_on (name_of ?s) (set (listed ?s))" unfolding l by simp
  moreover have "\<exists>d j. dr_drives ?s a = Some d \<and> drive_name d = path_of (drive_path (drive_type d) j) \<and>
      j < unat (dr_index ?s (GET_INDEX (drive_type d))) \<and> j < 2 ^ 31" if "a \<in> set (listed ?s)" for a
  proof (cases "a = dr_brk s")
    case True
    then show ?thesis using u' assms(4) by (intro exI [of _ "the (dr_drives ?s a)"] exI [of _ k]) (simp add: add_drive_def)
  next
    case False
    then have a: "a \<in> set (listed s)" using that l by simp
    from old [OF a] u u' show ?thesis by (auto simp: same(2) [OF a]) (auto simp: add_drive_def)
  qed
  moreover have b: "dr_brk ?s = dr_brk s + 1" "dr_vfs ?s = v" "dr_brk s \<noteq> NULL" using assms(1) by (simp_all add: add_drive_def drives_ok_def)
  moreover have "a \<noteq> NULL \<and> a < dr_brk ?s" if "a \<in> set (listed ?s)" for a
    using that old [of a] b(3) unfolding l b(1) by auto
  ultimately show ?thesis using assms(2) unfolding drives_ok_def by simp
qed

section \<open>Properties\<close>

text \<open> C31: \<open>drive_mount\<close> gives every drive a path of its own and keeps it findable. Mounting a node succeeds under
  \<open>/device/\<close>, the prefix of its type and the next number of the type, counts the number up, and keeps the
  invariant of the drive list; afterwards \<open>drive_findPath\<close> finds each drive on the list, old or new, under
  its own name.\<close>

theorem drive_mount_unique_names:
  assumes "drives_ok s" "node \<noteq> NULL" "vfs_nodes (dr_vfs s) node \<noteq> None" "dr_index s (GET_INDEX type) = of_nat k" "k < 2 ^ 31 - 1"
  shows "\<exists>s'. drive_mount s node type = Done (dr_brk s, s') \<and> drives_ok s' \<and> listed s' = listed s @ [dr_brk s] \<and>
     name_of s' (dr_brk s) = ''/device/'' @ drive_prefix type @ num_string 10 k \<and>
     dr_index s' = (dr_index s)(GET_INDEX type := of_nat (k + 1)) \<and>
     (\<forall>a \<in> set (listed s'). drive_findPath s' (name_of s' a) = Done a)"
proof -
  from drive_mount_run [of s node type k] assms obtain v where
    v: "drive_mount s node type = Done (dr_brk s, add_drive s v node type k)" "vfs_ok v" by (auto simp: drives_ok_def)
  have ok: "drives_ok (add_drive s v node type k)" using drives_ok_add [OF assms(1) v(2) assms(4,5)] .
  have "listed (add_drive s v node type k) = listed s @ [dr_brk s]" by (simp add: listed_def add_drive_def)
  moreover have "name_of (add_drive s v node type k) (dr_brk s) = ''/device/'' @ drive_prefix type @ num_string 10 k"
    by (simp add: name_of_def add_drive_def drive_path_def path_of_def)
  moreover have "dr_index (add_drive s v node type k) = (dr_index s)(GET_INDEX type := of_nat (k + 1))"
    by (simp add: add_drive_def add.commute)
  ultimately show ?thesis using v(1) ok drive_found [OF ok] by (intro exI [of _ "add_drive s v node type k"]) simp
qed

definition example_drives :: drive_state where
  "example_drives = \<lparr>dr_vfs = vfs_example, dr_index = \<lambda>i. 0, dr_list = None, dr_drives = (\<lambda>a. None), dr_parts = (\<lambda>a. None), dr_brk = 1\<rparr>"

lemma example_drives_ok: "drives_ok example_drives"
  using vfs_example_ok(1) by (simp add: drives_ok_def example_drives_def listed_def)

theorem drive_mount_unique_names_witness:
  "\<exists>s'. drive_mount example_drives 1 DRIVE_TYPE_SATA = Done (1, s') \<and> name_of s' 1 = ''/device/sata0'' \<and>
     drive_findPath s' ''/device/sata0'' = Done 1"
proof -
  have num: "num_string 10 0 = ''0''" by code_simp
  have "vfs_nodes (dr_vfs example_drives) 1 \<noteq> None" "dr_index example_drives i = of_nat 0" "dr_brk example_drives = 1" for i
    by (simp_all add: example_drives_def vfs_example_def vfs_init_def)
  from drive_mount_unique_names [OF example_drives_ok _ this(1,2), of DRIVE_TYPE_SATA] this(3) num show ?thesis
    by (auto simp: drive_prefix_def drive_types)
qed

text \<open>A partition is never entered in the list of its drive, and a drive without the list cannot be unmounted.\<close>

lemma drive_unmount_no_partitions:
  "drive \<noteq> NULL \<Longrightarrow> dr_drives s drive = Some d \<Longrightarrow> partition_list d = None \<Longrightarrow> drive_unmount ops s drive = Fault BadPointer"
  by (simp add: drive_unmount_def drive_at_def)

end
