(* ===== verification/Inet.thy ===== *)
theory Inet
  imports Printf
begin

text \<open>
  \<open>libpolyhedron/net/inet.c\<close>: byte order and dotted addresses. The network stack of the kernel uses the
  same functions. \<open>inet_addr\<close> works in a local array of 17 bytes, placed here after the caller's memory.
\<close>

section \<open>Definitions\<close>

definition htonl :: "u32 \<Rightarrow> u32" where
  "htonl hostlong =
     push_bit 24 (hostlong AND 0xFF) OR push_bit 8 (hostlong AND 0xFF00) OR
     drop_bit 8 (hostlong AND 0xFF0000) OR drop_bit 24 (hostlong AND 0xFF000000)"

definition htons :: "u16 \<Rightarrow> u16" where
  "htons hostshort = push_bit 8 (hostshort AND 0xFF) OR drop_bit 8 (hostshort AND 0xFF00)"

definition ntohl :: "u32 \<Rightarrow> u32" where
  "ntohl netlong = htonl netlong"

definition ntohs :: "u16 \<Rightarrow> u16" where
  "ntohs netshort = htons netshort"

text \<open>The loop over the four parts, \<open>k\<close> of them left; \<open>None\<close> is the early \<open>return 0\<close>.\<close>

fun inet_addr_loop :: "nat \<Rightarrow> mem \<Rightarrow> nat \<Rightarrow> cint list \<Rightarrow> cint list option outcome" where
  "inet_addr_loop 0 m p vs = Done (Some vs)"
| "inet_addr_loop (Suc k) m p vs =
     and_then (strchr m p (schar (CHR ''.''))) (\<lambda>nx.
     case nx of
       None \<Rightarrow> if k = 0 then and_then (atoi m (Some p)) (\<lambda>v. Done (Some (vs @ [v]))) else Done None
     | Some q \<Rightarrow>
         and_then (array_set m q NUL) (\<lambda>m'.
         and_then (atoi m' (Some p)) (\<lambda>v. inet_addr_loop k m' (q + 1) (vs @ [v]))))"

definition inet_addr :: "mem \<Rightarrow> nat option \<Rightarrow> u32 outcome" where
  "inet_addr m cp = (case cp of
     None \<Rightarrow> Done 0
   | Some p \<Rightarrow>
       and_then (strncpy (m @ replicate 17 NUL) (length m) p 17) (\<lambda>m1.
       and_then (inet_addr_loop 4 m1 (length m) []) (\<lambda>r.
       case r of
         None \<Rightarrow> Done 0
       | Some vs \<Rightarrow> Done (htonl (push_bit 24 (vs ! 0 AND 0xFF) OR push_bit 16 (vs ! 1 AND 0xFF) OR
                                 push_bit 8 (vs ! 2 AND 0xFF) OR push_bit 0 (vs ! 3 AND 0xFF))))))"

text \<open>The result is the static buffer.\<close>

definition inet_ntoa :: "mem \<Rightarrow> u32 \<Rightarrow> mem outcome" where
  "inet_ntoa buffer s_addr =
     (let in_fixed = ntohl s_addr in
      and_then (snprintf buffer 17 (Some ''%d.%d.%d.%d'')
        [VInt (ucast (drop_bit 24 in_fixed AND 0xFF)), VInt (ucast (drop_bit 16 in_fixed AND 0xFF)),
         VInt (ucast (drop_bit 8 in_fixed AND 0xFF)), VInt (ucast (drop_bit 0 in_fixed AND 0xFF))]) (\<lambda>(b, out). Done b))"

section \<open>Byte order\<close>

lemma bytes32:
  "(0xFF :: u32) = mask 8" "(0xFF00 :: u32) = push_bit 8 (mask 8)"
  "(0xFF0000 :: u32) = push_bit 16 (mask 8)" "(0xFF000000 :: u32) = push_bit 24 (mask 8)"
  by (simp_all add: mask_eq_exp_minus_1 push_bit_eq_mult)

lemma bytes16: "(0xFF :: u16) = mask 8" "(0xFF00 :: u16) = push_bit 8 (mask 8)"
  by (simp_all add: mask_eq_exp_minus_1 push_bit_eq_mult)

lemma byte_cases:
  assumes "n < (32 :: nat)"
  obtains k where "k < 8" "n = k" | k where "k < 8" "n = k + 8" | k where "k < 8" "n = k + 16" | k where "k < 8" "n = k + 24"
proof -
  consider "n < 8" | "8 \<le> n" "n < 16" | "16 \<le> n" "n < 24" | "24 \<le> n" using assms by linarith
  then show ?thesis
  proof cases
    case 1
    then show ?thesis by (rule that(1)) simp
  next
    case 2
    then show ?thesis by (intro that(2) [of "n - 8"]) auto
  next
    case 3
    then show ?thesis by (intro that(3) [of "n - 16"]) auto
  next
    case 4
    then show ?thesis using assms by (intro that(4) [of "n - 24"]) auto
  qed
qed

lemmas byte_bits = bit_or_iff bit_and_iff bit_push_bit_iff bit_drop_bit_eq bit_mask_iff

lemma bit_htonl:
  assumes "k < 8"
  shows "bit (htonl x) k \<longleftrightarrow> bit x (k + 24)" "bit (htonl x) (k + 8) \<longleftrightarrow> bit x (k + 16)"
    "bit (htonl x) (k + 16) \<longleftrightarrow> bit x (k + 8)" "bit (htonl x) (k + 24) \<longleftrightarrow> bit x k"
  using assms by (simp_all add: htonl_def bytes32 byte_bits add.commute)

lemma bit_htons:
  assumes "k < 8"
  shows "bit (htons x) k \<longleftrightarrow> bit x (k + 8)" "bit (htons x) (k + 8) \<longleftrightarrow> bit x k"
  using assms by (simp_all add: htons_def bytes16 byte_bits add.commute)

lemma htonl_involution [simp]: "htonl (htonl x) = x"
proof (rule bit_word_eqI)
  fix n assume "n < LENGTH(32)"
  then have "n < 32" by simp
  then show "bit (htonl (htonl x)) n = bit x n" by (rule byte_cases) (simp_all add: bit_htonl)
qed

lemma htons_involution [simp]: "htons (htons x) = x"
proof (rule bit_word_eqI)
  fix n assume "n < LENGTH(16)"
  then have n: "n < 32" "n < 16" by simp_all
  from n(1) show "bit (htons (htons x)) n = bit x n" by (rule byte_cases) (use n(2) in \<open>simp_all add: bit_htons\<close>)
qed

text \<open>The four bytes put together again are the word.\<close>

lemma bytes_combine:
  "push_bit 24 ((drop_bit 24 x AND 0xFF) AND 0xFF) OR push_bit 16 ((drop_bit 16 x AND 0xFF) AND 0xFF) OR
   push_bit 8 ((drop_bit 8 x AND 0xFF) AND 0xFF) OR push_bit 0 ((drop_bit 0 x AND 0xFF) AND 0xFF) = (x :: u32)"
proof (rule bit_word_eqI, goal_cases)
  case (1 n)
  then have "n < 32" by simp
  then show ?case by (rule byte_cases) (simp_all add: bytes32 byte_bits add.commute)
qed

section \<open>Dotted addresses\<close>

definition byte_of :: "u32 \<Rightarrow> nat \<Rightarrow> nat" where
  "byte_of x i = unat (drop_bit (8 * i) x AND 0xFF)"

text \<open>The address in the usual notation, most significant byte first.\<close>

definition dotted :: "u32 \<Rightarrow> string" where
  "dotted x = num_string 10 (byte_of x 3) @ ''.'' @ num_string 10 (byte_of x 2) @ ''.'' @
     num_string 10 (byte_of x 1) @ ''.'' @ num_string 10 (byte_of x 0)"

lemma byte_of_less: "byte_of x i < 256"
  using word_and_le1 [of "drop_bit (8 * i) x" "0xFF"] by (simp add: byte_of_def word_le_nat_alt)

lemma num_string_byte: "length (num_string 10 (byte_of x i)) \<le> 3"
  using num_digits_length [of "byte_of x i" 3] byte_of_less [of x i] by (simp add: num_string_def)

lemma dotted_length: "length (dotted x) \<le> 15"
  using num_string_byte [of x 3] num_string_byte [of x 2] num_string_byte [of x 1] num_string_byte [of x 0]
  by (simp add: dotted_def)

lemma dotted_not_NUL: "NUL \<notin> set (dotted x)"
  using num_string_not_NUL [of 10] by (simp add: dotted_def)

lemma va_byte: "unat (scast (ucast (ucast (drop_bit (8 * i) x AND 0xFF :: u32) :: u64) :: cint) :: u64) = byte_of x i"
proof -
  have "(ucast (ucast (drop_bit (8 * i) x AND 0xFF :: u32) :: u64) :: cint) = drop_bit (8 * i) x AND 0xFF"
    by (rule bit_word_eqI) (simp add: bit_ucast_iff)
  moreover have "unat (drop_bit (8 * i) x AND 0xFF) < 2 ^ 31" using byte_of_less [of x i] by (simp add: byte_of_def)
  ultimately show ?thesis using scast_unat_31 [of "drop_bit (8 * i) x AND 0xFF"] by (simp add: byte_of_def)
qed

lemma inet_ntoa_dotted:
  assumes "length buffer = 17"
  shows "\<exists>b. inet_ntoa buffer a = Done b \<and> length b = 17 \<and> cstr_at b 0 (dotted (ntohl a))"
proof -
  let ?x = "ntohl a"
  let ?args = "[VInt (ucast (drop_bit 24 ?x AND 0xFF)), VInt (ucast (drop_bit 16 ?x AND 0xFF)),
         VInt (ucast (drop_bit 8 ?x AND 0xFF)), VInt (ucast (drop_bit 0 ?x AND 0xFF))]"
  have dot: "xvasprintf_loop (CHR ''.'' # f) args = and_then (xvasprintf_loop f args) (\<lambda>s. Done (CHR ''.'' # s))" for f args
    by simp
  have "xvasprintf (Some ''%d.%d.%d.%d'') ?args = Done (dotted ?x)"
    using va_byte [of 3 ?x] va_byte [of 2 ?x] va_byte [of 1 ?x] va_byte [of 0 ?x]
    by (simp add: xvasprintf_def xvasprintf_loop_d dot dotted_def del: xvasprintf_loop.simps(2))
  from snprintf_spec [OF this, of 17 buffer] assms obtain b where
    "snprintf buffer 17 (Some ''%d.%d.%d.%d'') ?args = Done (b, of_nat (length (dotted ?x)))" "length b = 17"
    "take (min (length (dotted ?x)) 16) b = take 16 (dotted ?x)" "b ! min (length (dotted ?x)) 16 = NUL" by auto
  with dotted_length [of ?x] dotted_not_NUL [of ?x] show ?thesis
    by (simp add: inet_ntoa_def cstr_at_def min_absorb1 Let_def)
qed

lemma dot_not_digit: "d < 10 \<Longrightarrow> digit_char d \<noteq> CHR ''.''"
proof
  assume "d < 10" "digit_char d = CHR ''.''"
  moreover have "schar (CHR ''.'') = 46" by code_simp
  ultimately show False using schar_digit [of d] by simp
qed

lemma num_string_no_dot: "x \<in> set (num_string 10 n) \<Longrightarrow> schar x \<noteq> schar (CHR ''.'')"
  using num_digits_less [of 10 _ n] by (auto simp: num_string_def dest: dot_not_digit)

lemma inet_addr_part:
  assumes "cstr_at m p (num_string 10 n @ ''.'' @ t)" "n < 2 ^ 31"
  defines "m' \<equiv> m[p + length (num_string 10 n) := NUL]" and "q \<equiv> p + length (num_string 10 n) + 1"
  shows "inet_addr_loop (Suc k) m p vs = inet_addr_loop k m' q (vs @ [of_nat n])" "cstr_at m' q t"
proof -
  let ?s = "num_string 10 n"
  have cut: "cstr_at m' p ?s" "cstr_at m' q t"
    using cstr_at_cut_left [of m p ?s "CHR ''.''" t] cstr_at_cut_right [of m p ?s "CHR ''.''" t] assms(1)
    by (simp_all add: m'_def q_def)
  have "takeWhile (\<lambda>x. schar x \<noteq> schar (CHR ''.'')) (?s @ ''.'' @ t) = ?s"
    using num_string_no_dot [of _ n] by (subst takeWhile_append2) auto
  then have "strchr m p (schar (CHR ''.'')) = Done (Some (p + length ?s))"
    using strchr_spec [OF assms(1), of "schar (CHR ''.'')"] by simp
  moreover have "p + length ?s < length m" using assms(1) by (simp add: cstr_at_def)
  moreover have "atoi m' (Some p) = Done (of_nat n)" using atoi_numeral [of m' p False n] cut(1) assms(2) by (simp add: sign_string_def)
  ultimately show "inet_addr_loop (Suc k) m p vs = inet_addr_loop k m' q (vs @ [of_nat n])"
    by (simp add: m'_def q_def)
  show "cstr_at m' q t" by (rule cut(2))
qed

lemma inet_addr_last:
  assumes "cstr_at m p (num_string 10 n)" "n < 2 ^ 31"
  shows "inet_addr_loop (Suc 0) m p vs = Done (Some (vs @ [of_nat n]))"
proof -
  have "strchr m p (schar (CHR ''.'')) = Done None"
    using strchr_spec [OF assms(1), of "schar (CHR ''.'')"] num_string_no_dot [of "CHR ''.''" n] by (auto split: if_splits)
  moreover have "atoi m (Some p) = Done (of_nat n)" using atoi_numeral [of m p False n] assms by (simp add: sign_string_def)
  ultimately show ?thesis by simp
qed

lemma inet_addr_dotted:
  assumes "cstr_at m p (dotted x)" "p + 17 \<le> length m"
  shows "inet_addr m (Some p) = Done (htonl x)"
proof -
  define m1 where "m1 = overwrite (m @ replicate 17 NUL) (length m) (slice (m @ replicate 17 NUL) p 17)"
  have "strncpy (m @ replicate 17 NUL) (length m) p 17 = Done m1"
    using copy_up_spec_apart [of p 0 17 "length m" "m @ replicate 17 NUL"] assms(2) by (simp add: strncpy_def m1_def)
  moreover have "cstr_at m1 (length m) (dotted x)"
  proof (rule cstr_at_transfer [OF assms(1)], intro allI impI)
    fix i assume "i \<le> length (dotted x)"
    then have "i < 17" using dotted_length [of x] by simp
    with assms(2) show "length m + i < length m1 \<and> m1 ! (length m + i) = m ! (p + i)"
      by (simp add: m1_def nth_overwrite nth_append)
  qed
  then have s: "cstr_at m1 (length m) (num_string 10 (byte_of x 3) @ ''.'' @ num_string 10 (byte_of x 2) @ ''.'' @
     num_string 10 (byte_of x 1) @ ''.'' @ num_string 10 (byte_of x 0))" by (simp only: dotted_def)
  have byte: "byte_of x i < 2 ^ 31" for i using byte_of_less [of x i] by simp
  note s2 = inet_addr_part [OF s byte]
  note s3 = inet_addr_part [OF s2(2) byte]
  note s4 = inet_addr_part [OF s3(2) byte]
  have "inet_addr_loop 4 m1 (length m) [] =
      Done (Some [of_nat (byte_of x 3), of_nat (byte_of x 2), of_nat (byte_of x 1), of_nat (byte_of x 0)])"
  proof -
    have four: "(4 :: nat) = Suc (Suc (Suc (Suc 0)))" by simp
    show ?thesis unfolding four s2(1) s3(1) s4(1) inet_addr_last [OF s4(2) byte] by (simp only: append.simps)
  qed
  ultimately show ?thesis using bytes_combine [of x] by (simp add: inet_addr_def byte_of_def)
qed

section \<open>Properties\<close>

text \<open>
  C18: Addresses survive their text form: \<open>inet_ntoa\<close> fits every address into its static 17-byte buffer
  as four decimal numbers with dots, and \<open>inet_addr\<close> reads that text back as the same address; so the
  text of two different addresses differs.
\<close>

theorem inet_addr_ntoa_round_trip:
  assumes "length buffer = 17"
  shows "\<exists>b. inet_ntoa buffer a = Done b \<and> length b = 17 \<and> cstr_at b 0 (dotted (ntohl a)) \<and> inet_addr b (Some 0) = Done a"
proof -
  from inet_ntoa_dotted [OF assms] obtain b where
    b: "inet_ntoa buffer a = Done b" "length b = 17" "cstr_at b 0 (dotted (ntohl a))" by blast
  then have "inet_addr b (Some 0) = Done (htonl (ntohl a))" by (intro inet_addr_dotted) auto
  with b show ?thesis by (simp add: ntohl_def)
qed

theorem inet_addr_ntoa_round_trip_witness:
  "\<exists>b. inet_ntoa (replicate 17 NUL) 0x0100A8C0 = Done b \<and> length b = 17 \<and>
     cstr_at b 0 (dotted (ntohl 0x0100A8C0)) \<and> inet_addr b (Some 0) = Done 0x0100A8C0"
  by (rule inet_addr_ntoa_round_trip) simp

end
