(* ===== verification/Bytes.thy ===== *)
theory Bytes
  imports Inet
begin

text \<open>
  Buffers of bytes and the fields of packed structures in them. A structure pointer is a buffer, a field
  is the bytes at its offset, stored as the little-endian machine stores them. An access that leaves the
  buffer is a fault.
\<close>

section \<open>Access\<close>

type_synonym bytes = "u8 list"

definition get_bytes :: "bytes \<Rightarrow> nat \<Rightarrow> nat \<Rightarrow> bytes outcome" where
  "get_bytes b off n = (if off + n \<le> length b then Done (take n (drop off b)) else Fault OutOfBounds)"

definition put_bytes :: "bytes \<Rightarrow> nat \<Rightarrow> bytes \<Rightarrow> bytes outcome" where
  "put_bytes b off c =
     (if off + length c \<le> length b then Done (take off b @ c @ drop (off + length c) b) else Fault OutOfBounds)"

definition le16 :: "u16 \<Rightarrow> bytes" where
  "le16 w = [ucast w, ucast (drop_bit 8 w)]"

definition le32 :: "u32 \<Rightarrow> bytes" where
  "le32 w = [ucast w, ucast (drop_bit 8 w), ucast (drop_bit 16 w), ucast (drop_bit 24 w)]"

fun of_le16 :: "bytes \<Rightarrow> u16" where
  "of_le16 [a, b] = ucast a OR push_bit 8 (ucast b)"
| "of_le16 _ = 0"

fun of_le32 :: "bytes \<Rightarrow> u32" where
  "of_le32 [a, b, c, d] = ucast a OR push_bit 8 (ucast b) OR push_bit 16 (ucast c) OR push_bit 24 (ucast d)"
| "of_le32 _ = 0"

definition get8 :: "bytes \<Rightarrow> nat \<Rightarrow> u8 outcome" where
  "get8 b off = array_get b off"

definition get16 :: "bytes \<Rightarrow> nat \<Rightarrow> u16 outcome" where
  "get16 b off = and_then (get_bytes b off 2) (\<lambda>c. Done (of_le16 c))"

definition get32 :: "bytes \<Rightarrow> nat \<Rightarrow> u32 outcome" where
  "get32 b off = and_then (get_bytes b off 4) (\<lambda>c. Done (of_le32 c))"

definition put8 :: "nat \<Rightarrow> u8 \<Rightarrow> bytes \<Rightarrow> bytes outcome" where
  "put8 off w b = array_set b off w"

definition put16 :: "nat \<Rightarrow> u16 \<Rightarrow> bytes \<Rightarrow> bytes outcome" where
  "put16 off w b = put_bytes b off (le16 w)"

definition put32 :: "nat \<Rightarrow> u32 \<Rightarrow> bytes \<Rightarrow> bytes outcome" where
  "put32 off w b = put_bytes b off (le32 w)"

definition put_at :: "nat \<Rightarrow> bytes \<Rightarrow> bytes \<Rightarrow> bytes outcome" where
  "put_at off c b = put_bytes b off c"

text \<open>A sequence of stores.\<close>

primrec stores :: "(bytes \<Rightarrow> bytes outcome) list \<Rightarrow> bytes \<Rightarrow> bytes outcome" where
  "stores [] b = Done b"
| "stores (f # fs) b = and_then (f b) (stores fs)"

section \<open>Lemmas\<close>

lemma length_le [simp]: "length (le16 w) = 2" "length (le32 v) = 4"
  by (simp_all add: le16_def le32_def)

lemma of_le16_le16 [simp]: "of_le16 (le16 w) = w"
proof (rule bit_word_eqI)
  fix n assume "n < LENGTH(16)"
  then have n: "n < 32" "n < 16" by simp_all
  from n(1) show "bit (of_le16 (le16 w)) n = bit w n"
    by (rule byte_cases) (use n(2) in \<open>simp_all add: le16_def bit_or_iff bit_push_bit_iff bit_ucast_iff bit_drop_bit_eq add.commute\<close>)
qed

lemma of_le32_le32 [simp]: "of_le32 (le32 w) = w"
proof (rule bit_word_eqI)
  fix n assume "n < LENGTH(32)"
  then have n: "n < 32" by simp
  from n show "bit (of_le32 (le32 w)) n = bit w n"
    by (rule byte_cases) (simp_all add: le32_def bit_or_iff bit_push_bit_iff bit_ucast_iff bit_drop_bit_eq add.commute)
qed

lemma get_bytes_whole: "length c = n \<Longrightarrow> get_bytes (a @ c @ d) (length a) n = Done c"
  by (simp add: get_bytes_def)

lemma put_bytes_whole: "length c' = length c \<Longrightarrow> put_bytes (a @ c @ d) (length a) c' = Done (a @ c' @ d)"
  by (simp add: put_bytes_def)

lemma get_bytes_Done_iff [outcome_iff]:
  "get_bytes b off n = Done c \<longleftrightarrow> off + n \<le> length b \<and> c = take n (drop off b)"
  by (auto simp: get_bytes_def)

lemma put_bytes_Done_iff [outcome_iff]:
  "put_bytes b off c = Done b' \<longleftrightarrow> off + length c \<le> length b \<and> b' = take off b @ c @ drop (off + length c) b"
  by (auto simp: put_bytes_def)

lemma htons_bytes: "le16 (htons w) = rev (le16 w)"
proof -
  have "(ucast (htons w) :: u8) = ucast (drop_bit 8 w)" "(ucast (drop_bit 8 (htons w)) :: u8) = ucast w"
    by (rule bit_word_eqI; simp add: bit_ucast_iff bit_drop_bit_eq bit_htons add.commute)+
  then show ?thesis by (simp add: le16_def)
qed

end
