(* ===== verification/Ethernet.thy ===== *)
theory Ethernet
  imports Bytes KHashmap Spinlock
begin

text \<open>
  The state of the network stack and its lowest layer, \<open>hexahedron/drivers/net/ethernet.c\<close>. Function
  pointers are names: of the EtherType handlers, of the IPv4 protocol handlers, and of the write methods
  of network nodes. Sending ends in the write method of the node (\<open>op_write\<close>), and waiting lets
  received frames arrive (\<open>op_sleep\<close>); the operations take both as an argument until the whole stack is
  there to define them.
\<close>

section \<open>State\<close>

datatype ethertype_handler_t = h_arp_handle_packet | h_ipv4_handle

datatype ipv4_handler_t = h_icmp_handle

datatype write_t = w_NULL | w_loopback_write | w_driver

text \<open>\<open>nic_t\<close> together with the write method of the node that carries it.\<close>

record nic_t =
  nic_name :: string
  nic_type :: cint
  nic_mac :: bytes
  nic_driver :: addr
  nic_ipv4_address :: u32
  nic_ipv4_subnet :: u32
  nic_ipv4_gateway :: u32
  nic_write :: write_t

record arp_table_entry_t =
  ae_address :: u32
  ae_hwtype :: cint
  ae_hwmac :: bytes
  ae_nic :: addr

record net_state =
  ethertype_handler_map :: "ethertype_handler_t hashmap_t option"
  ipv4_handler_hashmap :: "ipv4_handler_t hashmap_t option"
  arp_map :: "arp_table_entry_t hashmap_t option"
  arp_lock :: bool
  ping_packet :: "bytes option"
  net_nics :: "addr \<rightharpoonup> nic_t"
  net_sent :: "(addr \<times> bytes) list"
  net_incoming :: "(addr \<times> bytes) list list"

record net_ops =
  op_write :: "addr \<Rightarrow> bytes \<Rightarrow> net_state \<Rightarrow> net_state outcome"
  op_sleep :: "net_state \<Rightarrow> net_state outcome"

text \<open>\<open>NIC(node)\<close> followed.\<close>

definition NIC :: "net_state \<Rightarrow> addr \<Rightarrow> nic_t outcome" where
  "NIC s node = (case net_nics s node of Some n \<Rightarrow> Done n | None \<Rightarrow> Fault BadPointer)"

definition deref :: "'a option \<Rightarrow> 'a outcome" where
  "deref p = (case p of Some x \<Rightarrow> Done x | None \<Rightarrow> Fault BadPointer)"

lemma deref_Some [simp]: "deref (Some x) = Done x"
  by (simp add: deref_def)

section \<open>Handlers\<close>

definition ethernet_registerHandler :: "net_state \<Rightarrow> u16 \<Rightarrow> ethertype_handler_t \<Rightarrow> (cint \<times> net_state) outcome" where
  "ethernet_registerHandler s ethertype handler =
     (let s1 = (if ethertype_handler_map s = None
                then s\<lparr>ethertype_handler_map := Some (hashmap_create_int ''ethertype handlers'' 20)\<rparr> else s) in
      and_then (deref (ethertype_handler_map s1)) (\<lambda>h.
      and_then (hashmap_has h (IntKey (ucast ethertype))) (\<lambda>has.
      if has then Done (1, s1)
      else and_then (hashmap_set (Some h) (IntKey (ucast ethertype)) handler) (\<lambda>h'.
           Done (0, s1\<lparr>ethertype_handler_map := h'\<rparr>)))))"

definition ethernet_unregisterHandler :: "net_state \<Rightarrow> u16 \<Rightarrow> (cint \<times> net_state) outcome" where
  "ethernet_unregisterHandler s ethertype =
     and_then (deref (ethertype_handler_map s)) (\<lambda>h.
     and_then (hashmap_has h (IntKey (ucast ethertype))) (\<lambda>has.
     if \<not> has then Done (1, s)
     else and_then (hashmap_remove h (IntKey (ucast ethertype))) (\<lambda>(v, h').
          Done (0, s\<lparr>ethertype_handler_map := Some h'\<rparr>))))"

section \<open>Frames\<close>

definition ETHERNET_BROADCAST_MAC :: bytes where
  "ETHERNET_BROADCAST_MAC = replicate 6 0xFF"

text \<open>
  The fields of \<open>ethernet_packet_t\<close>: \<open>destination_mac\<close> at 0, \<open>source_mac\<close> at 6, \<open>ethertype\<close> at 12 and
  the payload from 14. A handler gets the payload pointer and the remaining size, which wraps below 14.
\<close>

type_synonym handler_call = "bytes \<Rightarrow> addr \<Rightarrow> u64 \<Rightarrow> net_state \<Rightarrow> (cint \<times> net_state) outcome"

definition ethernet_handle ::
    "(ethertype_handler_t \<Rightarrow> handler_call) \<Rightarrow> bytes \<Rightarrow> addr \<Rightarrow> u64 \<Rightarrow> net_state \<Rightarrow> net_state outcome" where
  "ethernet_handle call packet nic_node sz s =
     (if sz = 0 then Done s
      else
        and_then (get_bytes packet 0 6) (\<lambda>destination_mac.
        and_then (NIC s nic_node) (\<lambda>nic.
        if destination_mac = nic_mac nic \<or> destination_mac = ETHERNET_BROADCAST_MAC then
          and_then (deref (ethertype_handler_map s)) (\<lambda>h.
          and_then (get16 packet 12) (\<lambda>ethertype.
          and_then (hashmap_get h (IntKey (ucast (ntohs ethertype)))) (\<lambda>handler.
          case handler of
            Some f \<Rightarrow> and_then (call f (drop 14 packet) nic_node (sz - 14) s) (\<lambda>(r, s'). Done s')
          | None \<Rightarrow> Done s)))
        else Done s)))"

text \<open>\<open>fs_write\<close> of the node: nothing when it has no write method.\<close>

definition nic_fs_write :: "net_ops \<Rightarrow> net_state \<Rightarrow> addr \<Rightarrow> bytes \<Rightarrow> net_state outcome" where
  "nic_fs_write ops s node buffer =
     (if node = NULL then Done s
      else and_then (NIC s node) (\<lambda>nic. if nic_write nic = w_NULL then Done s else op_write ops node buffer s))"

definition ethernet_send :: "net_ops \<Rightarrow> net_state \<Rightarrow> addr \<Rightarrow> bytes \<Rightarrow> u16 \<Rightarrow> bytes \<Rightarrow> nat \<Rightarrow> net_state outcome" where
  "ethernet_send ops s nic_node payload ty dest_mac sz =
     and_then (get_bytes payload 0 sz) (\<lambda>body.
     and_then (get_bytes dest_mac 0 6) (\<lambda>dst.
     and_then (NIC s nic_node) (\<lambda>nic.
     and_then (stores [put_at 14 body, put_at 0 dst, put_at 6 (nic_mac nic), put16 12 (htons ty)]
                 (replicate (14 + sz) 0)) (\<lambda>pkt.
     nic_fs_write ops s nic_node pkt))))"

section \<open>Lemmas\<close>

text \<open>The frame \<open>ethernet_send\<close> gives to the node.\<close>

definition eth_frame :: "bytes \<Rightarrow> bytes \<Rightarrow> u16 \<Rightarrow> bytes \<Rightarrow> bytes" where
  "eth_frame dst src ty body = dst @ src @ le16 (htons ty) @ body"

lemma ethernet_send_frame:
  assumes "net_nics s node = Some nic" "length (nic_mac nic) = 6" "length mac = 6" "sz \<le> length payload"
  shows "ethernet_send ops s node payload ty mac sz =
    nic_fs_write ops s node (eth_frame mac (nic_mac nic) ty (take sz payload))"
proof -
  have "stores [put_at 14 (take sz payload), put_at 0 mac, put_at 6 (nic_mac nic), put16 12 (htons ty)] (replicate (14 + sz) 0) =
      Done (eth_frame mac (nic_mac nic) ty (take sz payload))"
    using assms by (simp add: put_at_def put16_def put_bytes_def eth_frame_def)
  with assms show ?thesis by (simp add: ethernet_send_def get_bytes_def NIC_def del: stores.simps)
qed

lemma ethernet_handle_frame:
  assumes "net_nics s node = Some nic" "length (nic_mac nic) = 6" "length dst = 6" "length src = 6" "sz \<noteq> 0"
    "ethertype_handler_map s = Some h" "int_map h"
  shows "ethernet_handle call (eth_frame dst src ty body) node sz s =
    (if dst = nic_mac nic \<or> dst = ETHERNET_BROADCAST_MAC then
       (case hm_view h (IntKey (ucast ty)) of
          Some f \<Rightarrow> and_then (call f body node (sz - 14) s) (\<lambda>(r, s'). Done s')
        | None \<Rightarrow> Done s)
     else Done s)"
proof -
  have "get_bytes (eth_frame dst src ty body) 0 6 = Done dst" "get16 (eth_frame dst src ty body) 12 = Done (htons ty)"
    "drop 14 (eth_frame dst src ty body) = body"
    using assms(3,4) by (simp_all add: get_bytes_def get16_def eth_frame_def)
  moreover have "hashmap_get h (IntKey (ucast ty)) = Done (hm_view h (IntKey (ucast ty)))"
    using assms(7) by (rule int_map_get)
  ultimately show ?thesis using assms by (simp add: ethernet_handle_def NIC_def ntohs_def)
qed

end
