(* ===== verification/Arp.thy ===== *)
theory Arp
  imports Ethernet
begin

text \<open>
  \<open>hexahedron/drivers/net/arp.c\<close>: the table of known addresses, requests and replies.
\<close>

section \<open>The table\<close>

definition ARP_PACKET_TYPE :: u16 where "ARP_PACKET_TYPE = 0x0806"
definition ARP_HTYPE_ETHERNET :: u16 where "ARP_HTYPE_ETHERNET = 1"
definition ARP_OPERATION_REQUEST :: u16 where "ARP_OPERATION_REQUEST = 1"
definition ARP_OPERATION_REPLY :: u16 where "ARP_OPERATION_REPLY = 2"
definition ARP_TYPE_ETHERNET :: cint where "ARP_TYPE_ETHERNET = 1"
definition IPV4_PACKET_TYPE :: u16 where "IPV4_PACKET_TYPE = 0x0800"

definition arp_get_entry :: "net_state \<Rightarrow> u32 \<Rightarrow> (arp_table_entry_t option \<times> net_state) outcome" where
  "arp_get_entry s address = (case arp_map s of
     None \<Rightarrow> Done (None, s)
   | Some m \<Rightarrow>
       and_then (lock_acquire (arp_lock s)) (\<lambda>l.
       and_then (hashmap_get m (IntKey (ucast address))) (\<lambda>entry.
       Done (entry, s\<lparr>arp_lock := lock_release l\<rparr>))))"

definition arp_add_entry :: "net_state \<Rightarrow> u32 \<Rightarrow> bytes option \<Rightarrow> cint \<Rightarrow> addr \<Rightarrow> (cint \<times> net_state) outcome" where
  "arp_add_entry s address mac ty nic = (case mac of
     None \<Rightarrow> Done (1, s)
   | Some m \<Rightarrow>
       if nic = NULL then Done (1, s)
       else
         and_then (get_bytes m 0 6) (\<lambda>hwmac.
         let entry = \<lparr>ae_address = address, ae_hwtype = ty, ae_hwmac = hwmac, ae_nic = nic\<rparr> in
         and_then (lock_acquire (arp_lock s)) (\<lambda>l.
         and_then (hashmap_set (arp_map s) (IntKey (ucast address)) entry) (\<lambda>m'.
         Done (0, s\<lparr>arp_map := m', arp_lock := lock_release l\<rparr>)))))"

text \<open>The early return on an unknown address is taken with the lock held.\<close>

definition arp_remove_entry :: "net_state \<Rightarrow> u32 \<Rightarrow> (cint \<times> net_state) outcome" where
  "arp_remove_entry s address = (case arp_map s of
     None \<Rightarrow> Done (1, s)
   | Some m \<Rightarrow>
       and_then (lock_acquire (arp_lock s)) (\<lambda>l.
       and_then (hashmap_get m (IntKey (ucast address))) (\<lambda>entry.
       if entry = None then Done (1, s\<lparr>arp_lock := l\<rparr>)
       else
         and_then (hashmap_remove m (IntKey (ucast address))) (\<lambda>(e, m').
         Done (0, s\<lparr>arp_map := Some m', arp_lock := lock_release l\<rparr>)))))"

section \<open>Requests\<close>

text \<open>
  \<open>arp_packet_t\<close> has 28 bytes: \<open>htype\<close> at 0, \<open>ptype\<close> 2, \<open>hlen\<close> 4, \<open>plen\<close> 5, \<open>oper\<close> 6, \<open>sha\<close> 8,
  \<open>spa\<close> 14, \<open>tha\<close> 18 and \<open>tpa\<close> 24.
\<close>

definition arp_request :: "net_ops \<Rightarrow> net_state \<Rightarrow> addr \<Rightarrow> u32 \<Rightarrow> (cint \<times> net_state) outcome" where
  "arp_request ops s node address =
     (if node = NULL \<or> net_nics s node = None then Done (1, s)
      else if arp_map s = None then Done (1, s)
      else
        and_then (NIC s node) (\<lambda>nic.
        and_then (stores
          ([put8 4 6, put8 5 4, put16 6 (htons ARP_OPERATION_REQUEST), put16 2 (htons IPV4_PACKET_TYPE),
            put16 0 (htons ARP_HTYPE_ETHERNET), put32 24 address, put_at 8 (nic_mac nic)] @
           (if nic_ipv4_address nic \<noteq> 0 then [put32 14 (nic_ipv4_address nic)] else []))
          (replicate 28 0)) (\<lambda>packet.
        and_then (ethernet_send ops s node packet ARP_PACKET_TYPE ETHERNET_BROADCAST_MAC 28) (\<lambda>s'.
        Done (0, s')))))"

text \<open>
  The waiting loop: \<open>Suc k\<close> is \<open>timeout = 500 * (k + 1)\<close>, so 39 rounds are the 19500 ms of the source.
\<close>

primrec arp_search_loop :: "net_ops \<Rightarrow> nat \<Rightarrow> net_state \<Rightarrow> u32 \<Rightarrow> (cint \<times> net_state) outcome" where
  "arp_search_loop ops 0 s address = Done (1, s)"
| "arp_search_loop ops (Suc k) s address =
     and_then (op_sleep ops s) (\<lambda>s1.
     and_then (arp_get_entry s1 address) (\<lambda>(entry, s2).
     if entry \<noteq> None then Done (0, s2) else arp_search_loop ops k s2 address))"

definition arp_search :: "net_ops \<Rightarrow> net_state \<Rightarrow> addr \<Rightarrow> u32 \<Rightarrow> (cint \<times> net_state) outcome" where
  "arp_search ops s nic address =
     and_then (arp_request ops s nic address) (\<lambda>(r, s1).
     if r \<noteq> 0 then Done (1, s1)
     else
       and_then (op_sleep ops s1) (\<lambda>s2.
       and_then (arp_get_entry s2 address) (\<lambda>(entry, s3).
       if entry = None then arp_search_loop ops 39 s3 address else Done (0, s3))))"

section \<open>Received packets\<close>

definition arp_reply :: "net_ops \<Rightarrow> net_state \<Rightarrow> bytes \<Rightarrow> addr \<Rightarrow> net_state outcome" where
  "arp_reply ops s packet nic_node =
     and_then (NIC s nic_node) (\<lambda>nic.
     and_then (get_bytes packet 8 6) (\<lambda>sha.
     and_then (get32 packet 14) (\<lambda>spa.
     and_then (stores
       [put8 4 6, put8 5 4, put16 6 (htons ARP_OPERATION_REPLY), put16 2 (htons IPV4_PACKET_TYPE),
        put16 0 (htons ARP_HTYPE_ETHERNET), put_at 8 (nic_mac nic), put_at 18 sha,
        put32 14 (nic_ipv4_address nic), put32 24 spa]
       (replicate 28 0)) (\<lambda>resp.
     ethernet_send ops s nic_node resp ARP_PACKET_TYPE sha 28))))"

definition arp_handle_packet :: "net_ops \<Rightarrow> handler_call" where
  "arp_handle_packet ops packet nic_node sz s =
     and_then (NIC s nic_node) (\<lambda>nic.
     and_then (get16 packet 2) (\<lambda>ptype.
     and_then (get16 packet 6) (\<lambda>oper.
     if ntohs ptype = IPV4_PACKET_TYPE then
       and_then (get_bytes packet 8 6) (\<lambda>sha.
       and_then (get32 packet 14) (\<lambda>spa.
       if ntohs oper = ARP_OPERATION_REQUEST then
         and_then (get32 packet 24) (\<lambda>tpa.
         and_then (arp_add_entry s spa (Some sha) ARP_TYPE_ETHERNET nic_node) (\<lambda>(r, s1).
         if nic_ipv4_address nic \<noteq> 0 \<and> tpa = nic_ipv4_address nic
         then and_then (arp_reply ops s1 packet nic_node) (\<lambda>s2. Done (0, s2))
         else Done (0, s1)))
       else
         and_then (arp_add_entry s spa (Some sha) ARP_TYPE_ETHERNET nic_node) (\<lambda>(r, s1). Done (0, s1))))
     else Done (0, s))))"

definition arp_init :: "net_state \<Rightarrow> net_state outcome" where
  "arp_init s =
     and_then (ethernet_registerHandler (s\<lparr>arp_map := Some (hashmap_create_int ''arp route map'' 20)\<rparr>)
       ARP_PACKET_TYPE h_arp_handle_packet) (\<lambda>(r, s'). Done s')"

section \<open>Lemmas\<close>

lemmas arp_constants = ARP_PACKET_TYPE_def ARP_HTYPE_ETHERNET_def ARP_OPERATION_REQUEST_def ARP_OPERATION_REPLY_def
  ARP_TYPE_ETHERNET_def IPV4_PACKET_TYPE_def

text \<open>The packet \<open>arp_request\<close> and \<open>arp_reply\<close> build.\<close>

definition arp_bytes :: "u16 \<Rightarrow> bytes \<Rightarrow> u32 \<Rightarrow> bytes \<Rightarrow> u32 \<Rightarrow> bytes" where
  "arp_bytes oper sha spa tha tpa =
     le16 (htons ARP_HTYPE_ETHERNET) @ le16 (htons IPV4_PACKET_TYPE) @ [6, 4] @ le16 (htons oper) @
     sha @ le32 spa @ tha @ le32 tpa"

lemma arp_bytes_fields:
  assumes "length sha = 6" "length tha = 6"
  shows "get16 (arp_bytes oper sha spa tha tpa) 2 = Done (htons IPV4_PACKET_TYPE)"
    "get16 (arp_bytes oper sha spa tha tpa) 6 = Done (htons oper)"
    "get_bytes (arp_bytes oper sha spa tha tpa) 8 6 = Done sha"
    "get32 (arp_bytes oper sha spa tha tpa) 14 = Done spa"
    "get32 (arp_bytes oper sha spa tha tpa) 24 = Done tpa"
    "length (arp_bytes oper sha spa tha tpa) = 28"
  using assms by (simp_all add: arp_bytes_def get16_def get32_def get_bytes_def)

lemma list_explicit6: "length xs = 6 \<Longrightarrow> \<exists>a b c d e f. xs = [a, b, c, d, e, f]"
  by (auto simp: numeral_eq_Suc length_Suc_conv)

lemma replicate_28: "replicate 28 x = [x,x,x,x,x,x,x,x,x,x,x,x,x,x,x,x,x,x,x,x,x,x,x,x,x,x,x,x]"
  by (simp add: numeral_eq_Suc)

lemmas put_defs = put8_def put16_def put32_def put_at_def put_bytes_def

lemma arp_request_packet:
  assumes "length mac = 6" "a \<noteq> 0"
  shows "stores ([put8 4 6, put8 5 4, put16 6 (htons ARP_OPERATION_REQUEST), put16 2 (htons IPV4_PACKET_TYPE),
            put16 0 (htons ARP_HTYPE_ETHERNET), put32 24 address, put_at 8 mac] @ [put32 14 a]) (replicate 28 0) =
    Done (arp_bytes ARP_OPERATION_REQUEST mac a (replicate 6 0) address)"
  using assms(1) by (simp add: replicate_28 put_defs arp_bytes_def numeral_eq_Suc)


lemma arp_reply_packet:
  assumes "length mac = 6" "length sha = 6"
  shows "stores [put8 4 6, put8 5 4, put16 6 (htons ARP_OPERATION_REPLY), put16 2 (htons IPV4_PACKET_TYPE),
        put16 0 (htons ARP_HTYPE_ETHERNET), put_at 8 mac, put_at 18 sha, put32 14 a, put32 24 spa] (replicate 28 0) =
    Done (arp_bytes ARP_OPERATION_REPLY mac a sha spa)"
  using assms by (simp add: replicate_28 put_defs arp_bytes_def numeral_eq_Suc)

text \<open>A usable table, and the entries it holds.\<close>

definition arp_ok :: "net_state \<Rightarrow> bool" where
  "arp_ok s \<longleftrightarrow> (case arp_map s of Some m \<Rightarrow> int_map m | None \<Rightarrow> False) \<and> \<not> arp_lock s"

definition arp_view :: "net_state \<Rightarrow> u32 \<Rightarrow> arp_table_entry_t option" where
  "arp_view s a = (case arp_map s of Some m \<Rightarrow> hm_view m (IntKey (ucast a)) | None \<Rightarrow> None)"

lemma ucast_32_64 [simp]: "(ucast (a :: u32) :: u64) = ucast b \<longleftrightarrow> a = b"
proof
  assume "(ucast a :: u64) = ucast b"
  then have "(ucast (ucast a :: u64) :: u32) = ucast (ucast b :: u64)" by (rule arg_cong)
  moreover have "(ucast (ucast w :: u64) :: u32) = w" for w by (rule bit_word_eqI) (simp add: bit_ucast_iff)
  ultimately show "a = b" by simp
qed simp

lemma arp_get_entry_spec: "arp_ok s \<Longrightarrow> arp_get_entry s a = Done (arp_view s a, s)"
  by (auto simp: arp_ok_def arp_get_entry_def arp_view_def int_map_get split: option.splits)

lemma arp_add_entry_spec:
  assumes "arp_ok s" "nic \<noteq> NULL" "length mac = 6"
  shows "\<exists>m. arp_add_entry s a (Some mac) ty nic = Done (0, s\<lparr>arp_map := m\<rparr>) \<and> arp_ok (s\<lparr>arp_map := m\<rparr>) \<and>
           arp_view (s\<lparr>arp_map := m\<rparr>) = (arp_view s)(a \<mapsto> \<lparr>ae_address = a, ae_hwtype = ty, ae_hwmac = mac, ae_nic = nic\<rparr>)"
proof -
  let ?e = "\<lparr>ae_address = a, ae_hwtype = ty, ae_hwmac = mac, ae_nic = nic\<rparr>"
  from assms(1) obtain m where m: "arp_map s = Some m" "int_map m" "\<not> arp_lock s"
    by (auto simp: arp_ok_def split: option.splits)
  from int_map_set [OF m(2), of "ucast a" ?e] obtain m' where
    m': "hashmap_set (Some m) (IntKey (ucast a)) ?e = Done (Some m')" "int_map m'" "hm_view m' = (hm_view m)(IntKey (ucast a) \<mapsto> ?e)"
    by blast
  have "s\<lparr>arp_map := Some m', arp_lock := False\<rparr> = s\<lparr>arp_map := Some m'\<rparr>" using m(3) by simp
  then have "arp_add_entry s a (Some mac) ty nic = Done (0, s\<lparr>arp_map := Some m'\<rparr>)"
    using m m'(1) assms(2,3) by (simp add: arp_add_entry_def get_bytes_def Let_def)
  moreover have "arp_ok (s\<lparr>arp_map := Some m'\<rparr>)" using m m' by (simp add: arp_ok_def)
  moreover have "arp_view (s\<lparr>arp_map := Some m'\<rparr>) = (arp_view s)(a \<mapsto> ?e)"
    using m m'(3) by (auto simp: arp_view_def fun_eq_iff)
  ultimately show ?thesis by blast
qed

lemma arp_remove_entry_spec:
  assumes "arp_ok s" "arp_view s a = Some e"
  shows "\<exists>m. arp_remove_entry s a = Done (0, s\<lparr>arp_map := m\<rparr>) \<and> arp_ok (s\<lparr>arp_map := m\<rparr>) \<and>
           arp_view (s\<lparr>arp_map := m\<rparr>) = (arp_view s)(a := None)"
proof -
  from assms(1) obtain m where m: "arp_map s = Some m" "int_map m" "\<not> arp_lock s"
    by (auto simp: arp_ok_def split: option.splits)
  from int_map_remove [OF m(2), of "ucast a"] obtain m' where
    m': "hashmap_remove m (IntKey (ucast a)) = Done (hm_view m (IntKey (ucast a)), m')" "int_map m'"
      "hm_view m' = (hm_view m)(IntKey (ucast a) := None)" by blast
  have "s\<lparr>arp_map := Some m', arp_lock := False\<rparr> = s\<lparr>arp_map := Some m'\<rparr>" using m(3) by simp
  then have "arp_remove_entry s a = Done (0, s\<lparr>arp_map := Some m'\<rparr>)"
    using m m'(1) assms(2) by (simp add: arp_remove_entry_def int_map_get arp_view_def)
  moreover have "arp_ok (s\<lparr>arp_map := Some m'\<rparr>)" using m m' by (simp add: arp_ok_def)
  moreover have "arp_view (s\<lparr>arp_map := Some m'\<rparr>) = (arp_view s)(a := None)"
    using m m'(3) by (auto simp: arp_view_def fun_eq_iff)
  ultimately show ?thesis by blast
qed

text \<open>Removing an address that is not there fails with the lock held: every later lookup spins.\<close>

lemma arp_remove_entry_unknown:
  assumes "arp_ok s" "arp_view s a = None"
  shows "\<exists>s'. arp_remove_entry s a = Done (1, s') \<and> arp_get_entry s' b = Hang"
  by (rule exI [of _ "s\<lparr>arp_lock := True\<rparr>"])
    (use assms in \<open>auto simp: arp_ok_def arp_view_def arp_remove_entry_def arp_get_entry_def int_map_get split: option.splits\<close>)

text \<open>What an accepted packet does: the sender is entered, and a request for our address is answered.\<close>

lemma arp_handle_packet_spec:
  assumes "arp_ok s" "net_nics s node = Some nic" "node \<noteq> NULL" "length (nic_mac nic) = 6" "length sha = 6" "length tha = 6"
  shows "\<exists>m. arp_handle_packet ops (arp_bytes oper sha spa tha tpa) node sz s =
           (if oper = ARP_OPERATION_REQUEST \<and> nic_ipv4_address nic \<noteq> 0 \<and> tpa = nic_ipv4_address nic then
              and_then (nic_fs_write ops (s\<lparr>arp_map := m\<rparr>) node (eth_frame sha (nic_mac nic) ARP_PACKET_TYPE
                 (arp_bytes ARP_OPERATION_REPLY (nic_mac nic) (nic_ipv4_address nic) sha spa))) (\<lambda>s'. Done (0, s'))
            else Done (0, s\<lparr>arp_map := m\<rparr>)) \<and>
           arp_ok (s\<lparr>arp_map := m\<rparr>) \<and>
           arp_view (s\<lparr>arp_map := m\<rparr>) = (arp_view s)(spa \<mapsto> \<lparr>ae_address = spa, ae_hwtype = ARP_TYPE_ETHERNET, ae_hwmac = sha, ae_nic = node\<rparr>)"
proof -
  from arp_add_entry_spec [OF assms(1,3,5), of spa ARP_TYPE_ETHERNET] obtain m where
    m: "arp_add_entry s spa (Some sha) ARP_TYPE_ETHERNET node = Done (0, s\<lparr>arp_map := m\<rparr>)" "arp_ok (s\<lparr>arp_map := m\<rparr>)"
    "arp_view (s\<lparr>arp_map := m\<rparr>) = (arp_view s)(spa \<mapsto> \<lparr>ae_address = spa, ae_hwtype = ARP_TYPE_ETHERNET, ae_hwmac = sha, ae_nic = node\<rparr>)"
    by blast
  let ?p = "arp_bytes oper sha spa tha tpa"
  note f = arp_bytes_fields [OF assms(5,6), of oper spa tpa]
  let ?r = "arp_bytes ARP_OPERATION_REPLY (nic_mac nic) (nic_ipv4_address nic) sha spa"
  have "arp_reply ops (s\<lparr>arp_map := m\<rparr>) ?p node =
      ethernet_send ops (s\<lparr>arp_map := m\<rparr>) node ?r ARP_PACKET_TYPE sha 28"
    unfolding arp_reply_def using arp_reply_packet [OF assms(4,5), of "nic_ipv4_address nic" spa] f(3,4) assms(2)
    by (simp add: NIC_def del: stores.simps)
  also have "\<dots> = nic_fs_write ops (s\<lparr>arp_map := m\<rparr>) node (eth_frame sha (nic_mac nic) ARP_PACKET_TYPE ?r)"
    using arp_bytes_fields(6) [OF assms(4,5), of ARP_OPERATION_REPLY "nic_ipv4_address nic" spa] assms
    by (subst ethernet_send_frame) auto
  finally have "arp_handle_packet ops ?p node sz s =
           (if oper = ARP_OPERATION_REQUEST \<and> nic_ipv4_address nic \<noteq> 0 \<and> tpa = nic_ipv4_address nic then
              and_then (nic_fs_write ops (s\<lparr>arp_map := m\<rparr>) node (eth_frame sha (nic_mac nic) ARP_PACKET_TYPE ?r)) (\<lambda>s'. Done (0, s'))
            else Done (0, s\<lparr>arp_map := m\<rparr>))"
    unfolding arp_handle_packet_def NIC_def assms(2) option.case and_then.simps f m(1) ntohs_def htons_involution
    by (cases "oper = ARP_OPERATION_REQUEST") auto
  with m(2,3) show ?thesis by blast
qed

lemma arp_request_frame:
  assumes "net_nics s node = Some nic" "node \<noteq> NULL" "length (nic_mac nic) = 6" "nic_ipv4_address nic \<noteq> 0" "arp_map s \<noteq> None"
  shows "arp_request ops s node a =
    and_then (nic_fs_write ops s node (eth_frame ETHERNET_BROADCAST_MAC (nic_mac nic) ARP_PACKET_TYPE
      (arp_bytes ARP_OPERATION_REQUEST (nic_mac nic) (nic_ipv4_address nic) (replicate 6 0) a))) (\<lambda>s'. Done (0, s'))"
proof -
  let ?p = "arp_bytes ARP_OPERATION_REQUEST (nic_mac nic) (nic_ipv4_address nic) (replicate 6 0) a"
  have "ethernet_send ops s node ?p ARP_PACKET_TYPE ETHERNET_BROADCAST_MAC 28 =
      nic_fs_write ops s node (eth_frame ETHERNET_BROADCAST_MAC (nic_mac nic) ARP_PACKET_TYPE ?p)"
    using arp_bytes_fields(6) [OF assms(3), of "replicate 6 0"] assms
    by (subst ethernet_send_frame) (auto simp: ETHERNET_BROADCAST_MAC_def)
  moreover obtain mp where "arp_map s = Some mp" using assms(5) by blast
  ultimately show ?thesis using arp_request_packet [OF assms(3,4), of a] assms(1-4)
    by (simp add: arp_request_def NIC_def del: stores.simps append.simps)
qed

end
