(* ===== verification/Ipv4.thy ===== *)
theory Ipv4
  imports Arp
begin

text \<open>
  \<open>hexahedron/drivers/net/ipv4.c\<close>: protocol handlers, the header checksum, sending and receiving.
  \<open>ipv4_packet_t\<close> has a header of 20 bytes: \<open>versionihl\<close> at 0, the bit fields \<open>dscp\<close> and \<open>ecn\<close> at 1,
  \<open>length\<close> 2, \<open>id\<close> 4, \<open>offset\<close> 6, \<open>ttl\<close> 8, \<open>protocol\<close> 9, \<open>checksum\<close> 10, \<open>src_addr\<close> 12,
  \<open>dest_addr\<close> 16.
\<close>

section \<open>Handlers\<close>

definition IPV4_PROTOCOL_ICMP :: u8 where "IPV4_PROTOCOL_ICMP = 1"
definition IPV4_DEFAULT_TTL :: u8 where "IPV4_DEFAULT_TTL = 64"

definition ipv4_init :: "net_state \<Rightarrow> net_state outcome" where
  "ipv4_init s =
     and_then (ethernet_registerHandler (s\<lparr>ipv4_handler_hashmap := Some (hashmap_create_int ''ipv4 handler map'' 6)\<rparr>)
       IPV4_PACKET_TYPE h_ipv4_handle) (\<lambda>(r, s'). Done s')"

definition ipv4_register :: "net_state \<Rightarrow> u8 \<Rightarrow> ipv4_handler_t \<Rightarrow> (cint \<times> net_state) outcome" where
  "ipv4_register s protocol handler =
     (if ipv4_handler_hashmap s = None then Done (1, s)
      else and_then (hashmap_set (ipv4_handler_hashmap s) (IntKey (ucast protocol)) handler) (\<lambda>h'.
           Done (0, s\<lparr>ipv4_handler_hashmap := h'\<rparr>)))"

definition ipv4_unregister :: "net_state \<Rightarrow> u8 \<Rightarrow> (cint \<times> net_state) outcome" where
  "ipv4_unregister s protocol = (case ipv4_handler_hashmap s of
     None \<Rightarrow> Done (1, s)
   | Some h \<Rightarrow> and_then (hashmap_remove h (IntKey (ucast protocol))) (\<lambda>(v, h').
               Done (0, s\<lparr>ipv4_handler_hashmap := Some h'\<rparr>)))"

section \<open>Checksum\<close>

text \<open>The loop from word \<open>i\<close> on, \<open>n\<close> words left; each round folds the carry back.\<close>

primrec ipv4_checksum_loop :: "bytes \<Rightarrow> u32 \<Rightarrow> nat \<Rightarrow> nat \<Rightarrow> u32 outcome" where
  "ipv4_checksum_loop packet acc i 0 = Done acc"
| "ipv4_checksum_loop packet acc i (Suc n) =
     and_then (get16 packet (2 * i)) (\<lambda>w.
     let acc1 = acc + ucast (ntohs w) in
     ipv4_checksum_loop packet (if acc1 > 0xFFFF then drop_bit 16 acc1 + (acc1 AND 0xFFFF) else acc1) (Suc i) n)"

definition ipv4_checksum :: "bytes \<Rightarrow> u16 outcome" where
  "ipv4_checksum packet =
     and_then (ipv4_checksum_loop packet 0 0 10) (\<lambda>acc. Done (ucast (NOT (acc AND 0xFFFF) AND 0xFFFF)))"

section \<open>Sending\<close>

definition ipv4_sendPacket :: "net_ops \<Rightarrow> net_state \<Rightarrow> addr \<Rightarrow> bytes \<Rightarrow> (cint \<times> net_state) outcome" where
  "ipv4_sendPacket ops s nic_node packet =
     and_then (NIC s nic_node) (\<lambda>nic.
     and_then (get32 packet 16) (\<lambda>dest_addr.
     and_then (arp_get_entry s dest_addr) (\<lambda>(entry, s1).
     and_then
       (case entry of
          Some e \<Rightarrow> Done (Some e, s1)
        | None \<Rightarrow>
            and_then (arp_search ops s1 nic_node dest_addr) (\<lambda>(r, s2).
            if r \<noteq> 0 then Done (None, s2) else arp_get_entry s2 dest_addr)) (\<lambda>(entry', s3).
     case entry' of
       None \<Rightarrow> Done (1, s3)
     | Some e \<Rightarrow>
         and_then (get16 packet 2) (\<lambda>len.
         and_then (ethernet_send ops s3 nic_node packet IPV4_PACKET_TYPE (ae_hwmac e) (unat (ntohs len))) (\<lambda>s4.
         Done (0, s4)))))))"

definition ipv4_send :: "net_ops \<Rightarrow> net_state \<Rightarrow> addr \<Rightarrow> u32 \<Rightarrow> u8 \<Rightarrow> bytes option \<Rightarrow> nat \<Rightarrow> (cint \<times> net_state) outcome" where
  "ipv4_send ops s nic_node dest protocol frame sz = (case frame of
     None \<Rightarrow> Done (0, s)
   | Some f \<Rightarrow>
       if nic_node = NULL \<or> net_nics s nic_node = None \<or> sz = 0 then Done (0, s)
       else
         and_then (NIC s nic_node) (\<lambda>nic.
         let total_size = 20 + sz in
         and_then (get_bytes f 0 sz) (\<lambda>body.
         and_then (stores
           [put_at 20 body, put16 2 (htons (of_nat total_size)), put32 16 dest, put32 12 (nic_ipv4_address nic),
            put8 8 IPV4_DEFAULT_TTL, put16 6 (if protocol = IPV4_PROTOCOL_ICMP then htons 0x4000 else htons 0),
            put16 4 (htons 0), put8 0 0x45, put8 1 0, put8 9 protocol, put16 10 0]
           (replicate total_size 0)) (\<lambda>packet.
         and_then (ipv4_checksum packet) (\<lambda>c.
         and_then (put16 10 (htons c) packet) (\<lambda>packet'.
         ipv4_sendPacket ops s nic_node packet'))))))"

section \<open>Receiving\<close>

definition ipv4_handle ::
    "(ipv4_handler_t \<Rightarrow> addr \<Rightarrow> bytes \<Rightarrow> u64 \<Rightarrow> net_state \<Rightarrow> (cint \<times> net_state) outcome) \<Rightarrow> handler_call" where
  "ipv4_handle call frame nic_node sz s =
     and_then (NIC s nic_node) (\<lambda>nic.
     and_then (get32 frame 16) (\<lambda>dest_addr.
     and_then (get8 frame 9) (\<lambda>protocol.
     and_then (deref (ipv4_handler_hashmap s)) (\<lambda>h.
     and_then (hashmap_get h (IntKey (ucast protocol))) (\<lambda>handler.
     case handler of
       Some f \<Rightarrow> call f nic_node frame sz s
     | None \<Rightarrow> Done (0, s))))))"

section \<open>The sum of the header\<close>

text \<open>The one's complement sum of 16-bit values, as a number.\<close>

definition oc_add :: "nat \<Rightarrow> nat \<Rightarrow> nat" where
  "oc_add a b = (if a + b > 0xFFFF then a + b - 0xFFFF else a + b)"

lemma oc_add_le: "a \<le> 0xFFFF \<Longrightarrow> b \<le> 0xFFFF \<Longrightarrow> oc_add a b \<le> 0xFFFF"
  by (auto simp: oc_add_def)

lemma oc_add_zero_iff: "b \<le> 0xFFFF \<Longrightarrow> oc_add a b = 0 \<longleftrightarrow> a = 0 \<and> b = 0"
  by (auto simp: oc_add_def)

text \<open>\<open>word_at p i\<close>: the \<open>i\<close>-th 16-bit word of the buffer in network order.\<close>

definition word_at :: "bytes \<Rightarrow> nat \<Rightarrow> nat" where
  "word_at p i = unat (ntohs (of_le16 (take 2 (drop (2 * i) p))))"

lemma unat_16_le: "unat (w :: u16) \<le> 0xFFFF"
proof -
  have "unat w < 2 ^ LENGTH(16)" by (rule unsigned_less)
  then show ?thesis by simp
qed

lemma word_at_le: "word_at p i \<le> 0xFFFF"
  unfolding word_at_def by (rule unat_16_le)

lemma mod_div_16: "a < 2 ^ 17 \<Longrightarrow> 2 ^ 16 \<le> a \<Longrightarrow> a div 2 ^ 16 = (1 :: nat) \<and> a mod 2 ^ 16 = a - 2 ^ 16"
  by (simp add: le_mod_geq div_nat_eqI mod_if)

lemma unat_low16: "unat ((x :: u32) AND 0xFFFF) = unat x mod 2 ^ 16"
proof -
  have m: "(0xFFFF :: u32) = mask 16" by (simp add: mask_eq_exp_minus_1)
  show ?thesis unfolding m take_bit_eq_mask [symmetric] take_bit_eq_mod by (simp add: unat_mod)
qed

lemma unat_high16: "unat (drop_bit 16 (x :: u32)) = unat x div 2 ^ 16"
  unfolding drop_bit_eq_div by (simp add: unat_div)

lemma fold_carry:
  assumes "unat (acc :: u32) \<le> 0xFFFF" "unat (w :: u16) \<le> 0xFFFF"
  shows "unat (let acc1 = acc + ucast w in if acc1 > 0xFFFF then drop_bit 16 acc1 + (acc1 AND 0xFFFF) else acc1) =
    oc_add (unat acc) (unat w)"
proof -
  let ?a = "unat acc + unat w"
  have a: "?a < 2 ^ 17" using assms by simp
  have "of_nat (unat acc) = acc" by simp
  then have acc1: "acc + ucast w = (of_nat ?a :: u32)" unfolding of_nat_add ucast_of_nat_unat [of w] by metis
  have ua: "unat (of_nat ?a :: u32) = ?a" by (rule unat_of_nat_less) (use a in simp)
  show ?thesis
  proof (cases "?a > 0xFFFF")
    case True
    have "unat ((of_nat ?a :: u32) AND 0xFFFF) = ?a mod 2 ^ 16" "unat (drop_bit 16 (of_nat ?a :: u32)) = ?a div 2 ^ 16"
      unfolding unat_low16 unat_high16 ua by (rule refl)+
    then have "unat (drop_bit 16 (of_nat ?a :: u32) + (of_nat ?a AND 0xFFFF)) = 1 + (?a - 2 ^ 16)"
      using mod_div_16 [OF a] True a by (simp add: unat_word_ariths)
    moreover have "(of_nat ?a :: u32) > 0xFFFF" using True unfolding word_less_nat_alt ua by simp
    moreover have "1 + (?a - 2 ^ 16) = ?a - 0xFFFF" using True by simp
    ultimately show ?thesis using True unfolding acc1 Let_def by (simp only: if_True oc_add_def)
  next
    case False
    then have "\<not> (of_nat ?a :: u32) > 0xFFFF" unfolding word_less_nat_alt ua by simp
    with False show ?thesis unfolding acc1 Let_def by (simp only: if_False oc_add_def ua)
  qed
qed


definition oc_sum :: "nat \<Rightarrow> nat list \<Rightarrow> nat" where
  "oc_sum a ws = foldl oc_add a ws"

lemma oc_sum_simps [simp]: "oc_sum a [] = a" "oc_sum a (w # ws) = oc_sum (oc_add a w) ws"
  by (simp_all add: oc_sum_def)

lemma oc_sum_le: "a \<le> 0xFFFF \<Longrightarrow> \<forall>w\<in>set ws. w \<le> 0xFFFF \<Longrightarrow> oc_sum a ws \<le> 0xFFFF"
proof (induction ws arbitrary: a)
  case (Cons w ws)
  then have "oc_add a w \<le> 0xFFFF" by (intro oc_add_le) auto
  with Cons show ?case by simp
qed simp

lemma oc_sum_zero_iff: "\<forall>w\<in>set ws. w \<le> 0xFFFF \<Longrightarrow> oc_sum a ws = 0 \<longleftrightarrow> a = 0 \<and> (\<forall>w\<in>set ws. w = 0)"
  by (induction ws arbitrary: a) (auto simp: oc_add_zero_iff)

lemma oc_add_mod: "oc_add a b mod 0xFFFF = (a + b) mod 0xFFFF"
  by (simp add: oc_add_def le_mod_geq)

lemma oc_sum_mod: "oc_sum a ws mod 0xFFFF = (a + sum_list ws) mod 0xFFFF"
proof (induction ws arbitrary: a)
  case (Cons w ws)
  have "oc_sum a (w # ws) mod 0xFFFF = (oc_add a w + sum_list ws) mod 0xFFFF" using Cons.IH by simp
  also have "\<dots> = (oc_add a w mod 0xFFFF + sum_list ws) mod 0xFFFF" by (simp only: mod_add_left_eq)
  also have "\<dots> = (a + w + sum_list ws) mod 0xFFFF" by (simp only: oc_add_mod mod_add_left_eq)
  finally show ?case by (simp add: add.assoc)
qed simp

lemma get16_word_at: "2 * i + 2 \<le> length p \<Longrightarrow> \<exists>w. get16 p (2 * i) = Done w \<and> unat (ntohs w) = word_at p i"
  by (simp add: get16_def get_bytes_def word_at_def)

lemma ipv4_checksum_loop_spec:
  "2 * (i + n) \<le> length p \<Longrightarrow> unat acc \<le> 0xFFFF \<Longrightarrow>
   \<exists>r. ipv4_checksum_loop p acc i n = Done r \<and> unat r = oc_sum (unat acc) (map (word_at p) [i..<i + n])"
proof (induction n arbitrary: i acc)
  case (Suc n)
  have "2 * i + 2 \<le> length p" using Suc.prems(1) by simp
  then obtain w where w: "get16 p (2 * i) = Done w" "unat (ntohs w) = word_at p i" using get16_word_at by blast
  define acc' where "acc' = (let acc1 = acc + ucast (ntohs w) in if acc1 > 0xFFFF then drop_bit 16 acc1 + (acc1 AND 0xFFFF) else acc1)"
  have u: "unat acc' = oc_add (unat acc) (word_at p i)"
    unfolding acc'_def w(2) [symmetric] using Suc.prems(2) word_at_le [of p i] w(2) by (intro fold_carry) auto
  then have "unat acc' \<le> 0xFFFF" using oc_add_le [OF Suc.prems(2) word_at_le] by simp
  with Suc.IH [of "Suc i" acc'] Suc.prems(1) obtain r where
    r: "ipv4_checksum_loop p acc' (Suc i) n = Done r" "unat r = oc_sum (unat acc') (map (word_at p) [Suc i..<Suc i + n])" by auto
  have "ipv4_checksum_loop p acc i (Suc n) = ipv4_checksum_loop p acc' (Suc i) n"
    by (simp add: w(1) acc'_def Let_def)
  moreover have "[i..<i + Suc n] = i # [Suc i..<Suc i + n]" by (simp add: upt_rec)
  ultimately show ?case using r u by simp
qed simp

definition header_sum :: "bytes \<Rightarrow> nat" where
  "header_sum p = oc_sum 0 (map (word_at p) [0..<10])"

lemma header_sum_le: "header_sum p \<le> 0xFFFF"
  unfolding header_sum_def by (rule oc_sum_le) (use word_at_le in auto)

lemma complement16:
  assumes "unat (r :: u32) \<le> 0xFFFF"
  shows "unat (ucast (NOT (r AND 0xFFFF) AND 0xFFFF) :: u16) = 0xFFFF - unat r"
proof -
  have m: "(0xFFFF :: u32) = mask 16" "(0xFFFF :: u16) = mask 16" by (simp_all add: mask_eq_exp_minus_1)
  have "(ucast (NOT (r AND 0xFFFF) AND 0xFFFF) :: u16) = NOT (ucast r)"
    by (rule bit_word_eqI) (auto simp: m bit_ucast_iff bit_and_iff bit_or_iff bit_not_iff bit_mask_iff)
  also have "unat (NOT (ucast r :: u16)) = 0xFFFF - unat (ucast r :: u16)"
  proof -
    have "NOT (ucast r :: u16) = of_nat (0xFFFF - unat (ucast r :: u16))"
    proof -
      have "NOT (ucast r :: u16) = - 1 - ucast r" by (simp add: not_eq_complement)
      moreover have "(of_nat (0xFFFF - unat (ucast r :: u16)) :: u16) = of_nat 0xFFFF - of_nat (unat (ucast r :: u16))"
        by (rule of_nat_diff) (rule unat_16_le)
      ultimately show ?thesis by simp
    qed
    then show ?thesis by (simp only:) (rule unat_of_nat_less, simp)
  qed
  also have "unat (ucast r :: u16) = unat r"
    unfolding ucast_of_nat_unat [of r] by (rule unat_of_nat_less) (use assms in simp)
  finally show ?thesis .
qed

lemma ipv4_checksum_spec:
  assumes "20 \<le> length p"
  shows "\<exists>c. ipv4_checksum p = Done c \<and> unat c = 0xFFFF - header_sum p"
proof -
  from ipv4_checksum_loop_spec [of 0 10 p 0] assms obtain r where
    r: "ipv4_checksum_loop p 0 0 10 = Done r" "unat r = header_sum p" by (auto simp: header_sum_def)
  with complement16 [of r] header_sum_le [of p] show ?thesis by (simp add: ipv4_checksum_def)
qed


text \<open>Storing a field of 16 bits changes its word only.\<close>

lemma put16_word_at:
  assumes "2 * k + 2 \<le> length p"
  shows "\<exists>p'. put16 (2 * k) w p = Done p' \<and> length p' = length p \<and> word_at p' k = unat (ntohs w) \<and>
           (\<forall>i. i \<noteq> k \<longrightarrow> word_at p' i = word_at p i)"
proof -
  let ?p' = "take (2 * k) p @ le16 w @ drop (2 * k + 2) p"
  have "word_at ?p' k = unat (ntohs w)" using assms by (simp add: word_at_def)
  moreover have "word_at ?p' i = word_at p i" if "i \<noteq> k" for i
  proof (cases "i < k")
    case True
    then have "take 2 (drop (2 * i) ?p') = take 2 (drop (2 * i) (take (2 * k) p))" using assms by simp
    also have "\<dots> = take 2 (drop (2 * i) p)" using True by (simp add: drop_take)
    finally show ?thesis by (simp add: word_at_def)
  next
    case False
    with that have "k < i" by simp
    moreover from this have "Suc (Suc (2 * i - 2)) = 2 * i" by simp
    ultimately have "drop (2 * i) ?p' = drop (2 * i) p" using assms by simp
    then show ?thesis by (simp add: word_at_def)
  qed
  ultimately show ?thesis using assms by (simp add: put16_def put_bytes_def)
qed

lemma header_sum_swap_word:
  assumes "\<And>i. i \<noteq> 5 \<Longrightarrow> word_at p' i = word_at p i"
  shows "sum_list (map (word_at p') [0..<10]) + word_at p 5 = sum_list (map (word_at p) [0..<10]) + word_at p' 5"
proof -
  have "[0..<10] = [0..<5] @ 5 # [6..<10]" by (simp add: upt_rec)
  moreover have "map (word_at p') [0..<5] = map (word_at p) [0..<5]" "map (word_at p') [6..<10] = map (word_at p) [6..<10]"
    using assms by simp_all
  ultimately show ?thesis by (simp only: map_append sum_list_append list.map sum_list.Cons)
qed

lemma checksum_verifies:
  assumes "20 \<le> length p"
  shows "\<exists>p0 c p'. put16 10 0 p = Done p0 \<and> ipv4_checksum p0 = Done c \<and> put16 10 (htons c) p0 = Done p' \<and>
           length p' = length p \<and> ipv4_checksum p' = Done 0"
proof -
  from put16_word_at [of 5 p 0] assms obtain p0 where p0: "put16 10 0 p = Done p0" "length p0 = length p" "word_at p0 5 = 0"
    by (auto simp: ntohs_def htons_def)
  from ipv4_checksum_spec [of p0] assms p0(2) obtain c where c: "ipv4_checksum p0 = Done c" "unat c = 0xFFFF - header_sum p0" by auto
  from put16_word_at [of 5 p0 "htons c"] assms p0(2) obtain p' where
    p': "put16 10 (htons c) p0 = Done p'" "length p' = length p" "word_at p' 5 = unat c" "\<And>i. i \<noteq> 5 \<Longrightarrow> word_at p' i = word_at p0 i"
    by (auto simp: ntohs_def)
  have w: "\<forall>w\<in>set (map (word_at q) [0..<10]). w \<le> 0xFFFF" for q using word_at_le by auto
  let ?S = "\<lambda>q. sum_list (map (word_at q) [0..<10])"
  have "header_sum p' mod 0xFFFF = (?S p0 + unat c) mod 0xFFFF"
    using header_sum_swap_word [of p' p0] p' p0(3) by (simp only: header_sum_def oc_sum_mod) simp
  also have "\<dots> = (?S p0 mod 0xFFFF + unat c) mod 0xFFFF" by (simp only: mod_add_left_eq)
  also have "?S p0 mod 0xFFFF = header_sum p0 mod 0xFFFF" by (simp only: header_sum_def oc_sum_mod add_0)
  also have "(header_sum p0 mod 0xFFFF + unat c) mod 0xFFFF = (header_sum p0 + unat c) mod 0xFFFF" by (simp only: mod_add_left_eq)
  also have "header_sum p0 + unat c = 0xFFFF" using c(2) header_sum_le [of p0] by simp
  finally have "header_sum p' mod 0xFFFF = 0" by simp
  moreover have "header_sum p' \<noteq> 0"
  proof
    assume "header_sum p' = 0"
    then have z: "\<forall>w\<in>set (map (word_at p') [0..<10]). w = 0" using oc_sum_zero_iff [OF w, of 0 p'] unfolding header_sum_def by blast
    have z': "word_at p' i = 0" if "i < 10" for i using z that by simp
    have "word_at p0 i = 0" if "i < 10" for i using z' [OF that] p'(4) [of i] p0(3) by (cases "i = 5") auto
    then have "header_sum p0 = 0" unfolding header_sum_def using oc_sum_zero_iff [OF w, of 0 p0] by auto
    moreover have "unat c = 0" using z' [of 5] p'(3) by simp
    ultimately show False using c(2) by simp
  qed
  ultimately have "header_sum p' = 0xFFFF" using header_sum_le [of p'] by (cases "header_sum p' = 0xFFFF") auto
  moreover from ipv4_checksum_spec [of p'] assms p'(2) obtain d where "ipv4_checksum p' = Done d" "unat d = 0xFFFF - header_sum p'" by auto
  ultimately have "ipv4_checksum p' = Done 0" by (simp add: unat_eq_zero)
  with p0 c(1) p' show ?thesis by auto
qed


section \<open>Packets\<close>

text \<open>The packet of \<open>ipv4_send\<close>, and of the replies of \<open>icmp_handle\<close>.\<close>

definition ipv4_bytes :: "u16 \<Rightarrow> u16 \<Rightarrow> u16 \<Rightarrow> u8 \<Rightarrow> u16 \<Rightarrow> u32 \<Rightarrow> u32 \<Rightarrow> bytes \<Rightarrow> bytes" where
  "ipv4_bytes len ident off protocol checksum src dst body =
     [0x45, 0] @ le16 len @ le16 ident @ le16 off @ [64, protocol] @ le16 checksum @ le32 src @ le32 dst @ body"

lemma ipv4_bytes_fields:
  "get16 (ipv4_bytes len ident off protocol checksum src dst body) 2 = Done len"
  "get16 (ipv4_bytes len ident off protocol checksum src dst body) 4 = Done ident"
  "get8 (ipv4_bytes len ident off protocol checksum src dst body) 9 = Done protocol"
  "get32 (ipv4_bytes len ident off protocol checksum src dst body) 12 = Done src"
  "get32 (ipv4_bytes len ident off protocol checksum src dst body) 16 = Done dst"
  "drop 20 (ipv4_bytes len ident off protocol checksum src dst body) = body"
  "length (ipv4_bytes len ident off protocol checksum src dst body) = 20 + length body"
  by (simp_all add: ipv4_bytes_def get8_def get16_def get32_def get_bytes_def nth_append nth_Cons')

lemma ipv4_bytes_checksum:
  "put16 10 c (ipv4_bytes len ident off protocol checksum src dst body) = Done (ipv4_bytes len ident off protocol c src dst body)"
  by (simp add: ipv4_bytes_def put16_def put_bytes_def)

text \<open>The checksum the header gets, and that the header then verifies.\<close>

lemma ipv4_bytes_verifies:
  "\<exists>c. ipv4_checksum (ipv4_bytes len ident off protocol 0 src dst body) = Done c \<and>
     ipv4_checksum (ipv4_bytes len ident off protocol (htons c) src dst body) = Done 0"
  using checksum_verifies [of "ipv4_bytes len ident off protocol 0 src dst body"]
  by (simp add: ipv4_bytes_fields(7) ipv4_bytes_checksum)

text \<open>Only the header counts.\<close>

lemma ipv4_checksum_body:
  "ipv4_checksum (ipv4_bytes len ident off protocol c src dst body) = ipv4_checksum (ipv4_bytes len ident off protocol c src dst body')"
proof -
  let ?p = "ipv4_bytes len ident off protocol c src dst"
  have "take 20 (?p b) = ?p []" for b by (simp add: ipv4_bytes_def)
  moreover have "word_at p i = word_at (take 20 p) i" if "i < 10" for p i using that by (simp add: word_at_def drop_take)
  ultimately have "word_at (?p body) i = word_at (?p body') i" if "i < 10" for i using that by metis
  then have "map (word_at (?p body)) [0..<10] = map (word_at (?p body')) [0..<10]" by (intro map_cong) auto
  then have "header_sum (?p body) = header_sum (?p body')" by (simp only: header_sum_def)
  moreover obtain a where "ipv4_checksum (?p body) = Done a" "unat a = 0xFFFF - header_sum (?p body)"
    using ipv4_checksum_spec [of "?p body"] by (auto simp: ipv4_bytes_fields)
  moreover obtain b where "ipv4_checksum (?p body') = Done b" "unat b = 0xFFFF - header_sum (?p body')"
    using ipv4_checksum_spec [of "?p body'"] by (auto simp: ipv4_bytes_fields)
  moreover have "a = b" if "unat a = unat b" for a b :: u16 using that by (rule unsigned_word_eqI)
  ultimately show ?thesis by metis
qed

lemma replicate_20: "replicate (20 + n) x = [x,x,x,x,x,x,x,x,x,x,x,x,x,x,x,x,x,x,x,x] @ replicate n x"
  by (simp add: replicate_add) (simp add: numeral_eq_Suc)

lemma ipv4_send_packet:
  "stores [put_at 20 body, put16 2 len, put32 16 dest, put32 12 src, put8 8 IPV4_DEFAULT_TTL, put16 6 off, put16 4 ident,
     put8 0 0x45, put8 1 0, put8 9 protocol, put16 10 0] (replicate (20 + length body) 0) =
   Done (ipv4_bytes len ident off protocol 0 src dest body)"
  by (simp add: replicate_20 put_defs ipv4_bytes_def IPV4_DEFAULT_TTL_def le16_def le32_def numeral_eq_Suc)

lemma ipv4_send_builds:
  assumes "net_nics s node = Some nic" "node \<noteq> NULL" "sz \<noteq> 0" "sz \<le> length f"
  shows "\<exists>c. let pkt = ipv4_bytes (htons (of_nat (20 + sz))) (htons 0)
                 (if protocol = IPV4_PROTOCOL_ICMP then htons 0x4000 else htons 0) protocol c (nic_ipv4_address nic) dest (take sz f) in
           ipv4_checksum pkt = Done 0 \<and> ipv4_send ops s node dest protocol (Some f) sz = ipv4_sendPacket ops s node pkt"
proof -
  let ?off = "if protocol = IPV4_PROTOCOL_ICMP then htons 0x4000 else htons 0"
  let ?pkt = "\<lambda>c. ipv4_bytes (htons (of_nat (20 + sz))) (htons 0) ?off protocol c (nic_ipv4_address nic) dest (take sz f)"
  from ipv4_bytes_verifies obtain c where c: "ipv4_checksum (?pkt 0) = Done c" "ipv4_checksum (?pkt (htons c)) = Done 0" by blast
  have build: "stores [put_at 20 (take sz f), put16 2 (htons (of_nat (20 + sz))), put32 16 dest, put32 12 (nic_ipv4_address nic),
       put8 8 IPV4_DEFAULT_TTL, put16 6 ?off, put16 4 (htons 0), put8 0 0x45, put8 1 0, put8 9 protocol, put16 10 0]
       (replicate (20 + sz) 0) = Done (?pkt 0)"
    using ipv4_send_packet [of "take sz f"] assms(4) by simp
  have "ipv4_send ops s node dest protocol (Some f) sz = ipv4_sendPacket ops s node (?pkt (htons c))"
    using assms build c(1)
    by (simp add: ipv4_send_def NIC_def get_bytes_def Let_def ipv4_bytes_checksum del: stores.simps)
  with c(2) show ?thesis unfolding Let_def by blast
qed

lemma ipv4_send_known:
  assumes "arp_ok s" "arp_view s dest = Some e" "length (ae_hwmac e) = 6" "net_nics s node = Some nic" "node \<noteq> NULL"
    "length (nic_mac nic) = 6" "sz \<noteq> 0" "sz \<le> length f" "20 + sz < 2 ^ 16"
  shows "\<exists>c. let pkt = ipv4_bytes (htons (of_nat (20 + sz))) (htons 0)
                 (if protocol = IPV4_PROTOCOL_ICMP then htons 0x4000 else htons 0) protocol c (nic_ipv4_address nic) dest (take sz f) in
           ipv4_checksum pkt = Done 0 \<and>
           ipv4_send ops s node dest protocol (Some f) sz =
             and_then (nic_fs_write ops s node (eth_frame (ae_hwmac e) (nic_mac nic) IPV4_PACKET_TYPE pkt)) (\<lambda>s'. Done (0, s'))"
proof -
  let ?pkt = "\<lambda>c. ipv4_bytes (htons (of_nat (20 + sz))) (htons 0)
                 (if protocol = IPV4_PROTOCOL_ICMP then htons 0x4000 else htons 0) protocol c (nic_ipv4_address nic) dest (take sz f)"
  have len: "unat (of_nat (20 + sz) :: u16) = 20 + sz" by (rule unat_of_nat_less) (use assms(9) in simp)
  have "ipv4_sendPacket ops s node (?pkt c) =
      and_then (ethernet_send ops s node (?pkt c) IPV4_PACKET_TYPE (ae_hwmac e) (20 + sz)) (\<lambda>s'. Done (0, s'))" for c
    using assms(1,2,4) len
    by (simp add: ipv4_sendPacket_def NIC_def ipv4_bytes_fields arp_get_entry_spec ntohs_def)
  moreover have "ethernet_send ops s node (?pkt c) IPV4_PACKET_TYPE (ae_hwmac e) (20 + sz) =
      nic_fs_write ops s node (eth_frame (ae_hwmac e) (nic_mac nic) IPV4_PACKET_TYPE (?pkt c))" for c
    using assms by (subst ethernet_send_frame) (auto simp: ipv4_bytes_fields)
  ultimately show ?thesis using ipv4_send_builds [OF assms(4,5,7,8), of protocol dest ops] unfolding Let_def by metis
qed

section \<open>Properties\<close>

text \<open>
  C24: What \<open>ipv4_send\<close> puts on the network. When the destination is in the ARP table and the packet fits
  the 16-bit length field, exactly one frame is written to the interface: it is addressed to the MAC
  address of the table, and carries an IPv4 packet whose total length, protocol, source and destination
  are the ones asked for, whose payload is the data, and whose header passes the receiver's check (the
  one's complement sum over it, checksum included, is complemented to 0). Then 0 is returned.
\<close>

theorem ipv4_send_valid_packet:
  assumes "arp_ok s" "arp_view s dest = Some e" "length (ae_hwmac e) = 6" "net_nics s node = Some nic" "node \<noteq> NULL"
    "length (nic_mac nic) = 6" "sz \<noteq> 0" "sz \<le> length f" "20 + sz < 2 ^ 16"
  shows "\<exists>pkt. ipv4_send ops s node dest protocol (Some f) sz =
             and_then (nic_fs_write ops s node (eth_frame (ae_hwmac e) (nic_mac nic) IPV4_PACKET_TYPE pkt)) (\<lambda>s'. Done (0, s')) \<and>
           ipv4_checksum pkt = Done 0 \<and> length pkt = 20 + sz \<and> get16 pkt 2 = Done (htons (of_nat (20 + sz))) \<and>
           get8 pkt 9 = Done protocol \<and> get32 pkt 12 = Done (nic_ipv4_address nic) \<and> get32 pkt 16 = Done dest \<and>
           drop 20 pkt = take sz f"
proof -
  from ipv4_send_known [OF assms, of protocol ops] obtain c where
    c: "let pkt = ipv4_bytes (htons (of_nat (20 + sz))) (htons 0)
                 (if protocol = IPV4_PROTOCOL_ICMP then htons 0x4000 else htons 0) protocol c (nic_ipv4_address nic) dest (take sz f) in
           ipv4_checksum pkt = Done 0 \<and>
           ipv4_send ops s node dest protocol (Some f) sz =
             and_then (nic_fs_write ops s node (eth_frame (ae_hwmac e) (nic_mac nic) IPV4_PACKET_TYPE pkt)) (\<lambda>s'. Done (0, s'))" by blast
  show ?thesis using c assms(8) unfolding Let_def
    by (intro exI [of _ "ipv4_bytes (htons (of_nat (20 + sz))) (htons 0)
                 (if protocol = IPV4_PROTOCOL_ICMP then htons 0x4000 else htons 0) protocol c (nic_ipv4_address nic) dest (take sz f)"])
      (simp only: ipv4_bytes_fields length_take min.absorb2 simp_thms)
qed


text \<open>An interface with one neighbour, 10.0.0.2 at 02:00:00:00:00:02.\<close>

definition net_example :: net_state where
  "net_example = \<lparr>ethertype_handler_map = None, ipv4_handler_hashmap = None,
     arp_map = Some (hashmap_create_int ''arp'' 1\<lparr>hm_entries := [[(IntKey 0x0200000A,
       \<lparr>ae_address = 0x0200000A, ae_hwtype = 1, ae_hwmac = [2, 0, 0, 0, 0, 2], ae_nic = 1\<rparr>)]]\<rparr>),
     arp_lock = False, ping_packet = None,
     net_nics = [1 \<mapsto> \<lparr>nic_name = ''e1000'', nic_type = 0, nic_mac = [2, 0, 0, 0, 0, 1], nic_driver = 0,
       nic_ipv4_address = 0x0100000A, nic_ipv4_subnet = 0, nic_ipv4_gateway = 0, nic_write = w_driver\<rparr>],
     net_sent = [], net_incoming = []\<rparr>"

lemma net_example_arp: "arp_ok net_example"
  "arp_view net_example 0x0200000A =
    Some \<lparr>ae_address = 0x0200000A, ae_hwtype = 1, ae_hwmac = [2, 0, 0, 0, 0, 2], ae_nic = 1\<rparr>"
  by (simp_all add: arp_ok_def arp_view_def net_example_def int_map_def hm_ok_def hm_view_def hm_bucket_def hashmap_create_int_def)

theorem ipv4_send_valid_packet_witness:
  "\<forall>ops. \<exists>pkt. ipv4_send ops net_example 1 0x0200000A 17 (Some [1, 2, 3]) 3 =
       and_then (nic_fs_write ops net_example 1 (eth_frame [2, 0, 0, 0, 0, 2] [2, 0, 0, 0, 0, 1] IPV4_PACKET_TYPE pkt)) (\<lambda>s'. Done (0, s')) \<and>
     ipv4_checksum pkt = Done 0 \<and> drop 20 pkt = [1, 2, 3]"
proof
  fix ops
  from ipv4_send_valid_packet [OF net_example_arp, of 1 "the (net_nics net_example 1)" 3 "[1, 2, 3]" ops 17]
  show "\<exists>pkt. ipv4_send ops net_example 1 0x0200000A 17 (Some [1, 2, 3]) 3 =
       and_then (nic_fs_write ops net_example 1 (eth_frame [2, 0, 0, 0, 0, 2] [2, 0, 0, 0, 0, 1] IPV4_PACKET_TYPE pkt)) (\<lambda>s'. Done (0, s')) \<and>
     ipv4_checksum pkt = Done 0 \<and> drop 20 pkt = [1, 2, 3]"
    by (auto simp: net_example_def)
qed

end
