(* ===== verification/Icmp.thy ===== *)
theory Icmp
  imports Ipv4
begin

text \<open>
  \<open>hexahedron/drivers/net/icmp.c\<close> and \<open>loopback.c\<close>, and the whole stack put together: \<open>net_ops_at\<close>
  gives the write methods and the arrival of frames by the handlers themselves. \<open>icmp_packet_t\<close> has
  \<open>type\<close> at 0, \<open>code\<close> 1, \<open>checksum\<close> 2, \<open>varies\<close> 4 and its data from 8.
\<close>

section \<open>Definitions\<close>

definition ICMP_ECHO_REPLY :: u8 where "ICMP_ECHO_REPLY = 0"
definition ICMP_ECHO_REQUEST :: u8 where "ICMP_ECHO_REQUEST = 8"

definition icmp_init :: "net_state \<Rightarrow> net_state outcome" where
  "icmp_init s = and_then (ipv4_register s IPV4_PROTOCOL_ICMP h_icmp_handle) (\<lambda>(r, s'). Done s')"

primrec icmp_checksum_loop :: "bytes \<Rightarrow> u32 \<Rightarrow> nat \<Rightarrow> nat \<Rightarrow> u32 outcome" where
  "icmp_checksum_loop p checksum i 0 = Done checksum"
| "icmp_checksum_loop p checksum i (Suc n) =
     and_then (get16 p (2 * i)) (\<lambda>w. icmp_checksum_loop p (checksum + ucast (ntohs w)) (Suc i) n)"

definition icmp_checksum :: "bytes \<Rightarrow> nat \<Rightarrow> u16 outcome" where
  "icmp_checksum payload len =
     and_then (icmp_checksum_loop payload 0 0 (len div 2)) (\<lambda>checksum.
     let checksum' = (if checksum > 0xFFFF then drop_bit 16 checksum + (checksum AND 0xFFFF) else checksum) in
     Done (ucast (NOT (checksum' AND 0xFFFF) AND 0xFFFF)))"

definition icmp_send ::
    "net_ops \<Rightarrow> net_state \<Rightarrow> addr \<Rightarrow> u32 \<Rightarrow> u8 \<Rightarrow> u8 \<Rightarrow> u32 \<Rightarrow> bytes option \<Rightarrow> nat \<Rightarrow> (cint \<times> net_state) outcome" where
  "icmp_send ops s nic_node dest ty code varies data sz = (case data of
     None \<Rightarrow> Done (1, s)
   | Some d \<Rightarrow>
       if sz = 0 then Done (1, s)
       else
         let total_size = 8 + sz in
         and_then (get_bytes d 0 sz) (\<lambda>body.
         and_then (stores [put8 0 ty, put8 1 code, put32 4 varies, put_at 8 body, put16 2 0] (replicate total_size 0)) (\<lambda>packet.
         and_then (icmp_checksum packet total_size) (\<lambda>c.
         and_then (put16 2 (htons c) packet) (\<lambda>packet'.
         ipv4_send ops s nic_node dest IPV4_PROTOCOL_ICMP (Some packet') total_size)))))"

text \<open>
  The response to an echo request is a copy of as many bytes as the length field of the packet says. It
  is patched in place, first the IPv4 header and then the ICMP packet at offset 20.
\<close>

definition icmp_handle :: "net_ops \<Rightarrow> addr \<Rightarrow> bytes \<Rightarrow> u64 \<Rightarrow> net_state \<Rightarrow> (cint \<times> net_state) outcome" where
  "icmp_handle ops nic_node ip_packet sz s =
     (let packet = drop 20 ip_packet in
      and_then (get8 packet 0) (\<lambda>ty.
      and_then (get8 packet 1) (\<lambda>code.
      if ty = ICMP_ECHO_REQUEST \<and> code = 0 then
        and_then (get32 ip_packet 12) (\<lambda>src_addr.
        and_then (get32 ip_packet 16) (\<lambda>dest_addr.
        and_then (get16 ip_packet 2) (\<lambda>len.
        and_then (get16 ip_packet 4) (\<lambda>ident.
        and_then (get_bytes ip_packet 0 (unat (ntohs len))) (\<lambda>copy.
        and_then (stores
          [put16 2 len, put32 12 dest_addr, put32 16 src_addr, put8 8 64, put8 9 1, put16 4 ident,
           put16 6 (htons 0x4000), put8 0 0x45,
           (\<lambda>b. and_then (get8 b 1) (\<lambda>w. put8 1 (w AND 0xC0) b)), put16 10 0] copy) (\<lambda>resp.
        and_then (ipv4_checksum resp) (\<lambda>c.
        and_then (put16 10 (htons c) resp) (\<lambda>resp1.
        and_then (stores [put8 20 ICMP_ECHO_REPLY, put8 21 0, put16 22 0] resp1) (\<lambda>resp2.
        and_then (icmp_checksum (drop 20 resp2) (unat (ntohs len) - 20)) (\<lambda>c2.
        and_then (put16 22 (htons c2) resp2) (\<lambda>resp3.
        and_then (ipv4_sendPacket ops s nic_node resp3) (\<lambda>(r, s'). Done (0, s')))))))))))))
      else if ty = ICMP_ECHO_REPLY \<and> code = 0 then Done (0, s\<lparr>ping_packet := Some packet\<rparr>)
      else Done (0, s))))"

text \<open>
  \<^verbatim>\<open>while (ping_packet == NULL)\<close>: each round lets the next frames arrive; when none are left to come
  the loop never ends. \<open>n\<close> rounds are allowed.
\<close>

primrec icmp_wait :: "net_ops \<Rightarrow> nat \<Rightarrow> net_state \<Rightarrow> net_state outcome" where
  "icmp_wait ops 0 s = (if ping_packet s = None then Hang else Done s)"
| "icmp_wait ops (Suc n) s =
     (if ping_packet s = None then and_then (op_sleep ops s) (icmp_wait ops n) else Done s)"

text \<open>
  The loop of \<open>icmp_ping\<close> from round \<open>i\<close>, with \<open>k\<close> rounds left. Besides the state it gives the response lines
  it prints: the sequence number of each with the packet that ended the wait.
\<close>

definition varies_dword :: "nat \<Rightarrow> u32" where
  "varies_dword i = of_le32 (le16 0 @ le16 (htons (of_nat (i + 1))))"

primrec icmp_ping_loop ::
    "net_ops \<Rightarrow> addr \<Rightarrow> u32 \<Rightarrow> bytes \<Rightarrow> nat \<Rightarrow> nat \<Rightarrow> net_state \<Rightarrow> ((nat \<times> bytes option) list \<times> net_state) outcome" where
  "icmp_ping_loop ops nic_node a payload i 0 s = Done ([], s)"
| "icmp_ping_loop ops nic_node a payload i (Suc k) s =
     and_then (icmp_send ops s nic_node a ICMP_ECHO_REQUEST 0 (varies_dword i) (Some payload) 48) (\<lambda>(send_status, s1).
     if send_status \<noteq> 0 then Done ([], s1)
     else
       and_then (icmp_wait ops (length (net_incoming s1)) s1) (\<lambda>s2.
       and_then (icmp_ping_loop ops nic_node a payload (Suc i) k (s2\<lparr>ping_packet := None\<rparr>)) (\<lambda>(rs, s3).
       Done ((i, ping_packet s2) # rs, s3))))"

definition icmp_ping :: "net_ops \<Rightarrow> net_state \<Rightarrow> addr \<Rightarrow> u32 \<Rightarrow> (cint \<times> (nat \<times> bytes option) list \<times> net_state) outcome" where
  "icmp_ping ops s nic_node a =
     and_then (icmp_ping_loop ops nic_node a (map of_nat [0..<48]) 0 10 s) (\<lambda>(rs, s'). Done (0, rs, s'))"

section \<open>The stack\<close>

definition ip_call :: "net_ops \<Rightarrow> ipv4_handler_t \<Rightarrow> addr \<Rightarrow> bytes \<Rightarrow> u64 \<Rightarrow> net_state \<Rightarrow> (cint \<times> net_state) outcome" where
  "ip_call ops h = (case h of h_icmp_handle \<Rightarrow> icmp_handle ops)"

definition eth_call :: "net_ops \<Rightarrow> ethertype_handler_t \<Rightarrow> handler_call" where
  "eth_call ops h = (case h of h_arp_handle_packet \<Rightarrow> arp_handle_packet ops | h_ipv4_handle \<Rightarrow> ipv4_handle (ip_call ops))"

definition loopback_write :: "net_ops \<Rightarrow> addr \<Rightarrow> bytes \<Rightarrow> net_state \<Rightarrow> net_state outcome" where
  "loopback_write ops node buffer s = ethernet_handle (eth_call ops) buffer node (of_nat (length buffer)) s"

primrec receive_all :: "net_ops \<Rightarrow> (addr \<times> bytes) list \<Rightarrow> net_state \<Rightarrow> net_state outcome" where
  "receive_all ops [] s = Done s"
| "receive_all ops (f # fs) s =
     and_then (ethernet_handle (eth_call ops) (snd f) (fst f) (of_nat (length (snd f))) s) (receive_all ops fs)"

text \<open>
  \<open>net_ops_at n\<close> allows \<open>n\<close> nested deliveries (a handler that sends to the loopback interface is
  called again for its own frame): the depth of the kernel stack. A frame for a hardware driver leaves
  the machine; frames in \<open>net_incoming\<close> arrive batch by batch while the kernel sleeps.
\<close>

primrec net_ops_at :: "nat \<Rightarrow> net_ops" where
  "net_ops_at 0 = \<lparr>op_write = (\<lambda>node b s. Hang), op_sleep = (\<lambda>s. Hang)\<rparr>"
| "net_ops_at (Suc n) = \<lparr>
     op_write = (\<lambda>node b s. and_then (NIC s node) (\<lambda>nic. case nic_write nic of
        w_NULL \<Rightarrow> Done s
      | w_loopback_write \<Rightarrow> loopback_write (net_ops_at n) node b s
      | w_driver \<Rightarrow> Done (s\<lparr>net_sent := net_sent s @ [(node, b)]\<rparr>))),
     op_sleep = (\<lambda>s. case net_incoming s of
        [] \<Rightarrow> Done s
      | batch # rest \<Rightarrow> receive_all (net_ops_at n) batch (s\<lparr>net_incoming := rest\<rparr>))\<rparr>"


declare net_ops_at.simps [simp del]

lemma op_sleep_quiet: "net_incoming s = [] \<Longrightarrow> op_sleep (net_ops_at (Suc n)) s = Done s"
  by (simp add: net_ops_at.simps)

section \<open>Echo packets\<close>

definition icmp_bytes :: "u8 \<Rightarrow> u8 \<Rightarrow> u16 \<Rightarrow> u32 \<Rightarrow> bytes \<Rightarrow> bytes" where
  "icmp_bytes ty code checksum varies data = [ty, code] @ le16 checksum @ le32 varies @ data"

lemma length_icmp_bytes [simp]: "length (icmp_bytes ty code checksum varies data) = 8 + length data"
  by (simp add: icmp_bytes_def)

lemma icmp_checksum_total:
  assumes "len \<le> length p"
  shows "\<exists>c. icmp_checksum p len = Done c"
proof -
  have "\<exists>r. icmp_checksum_loop p acc i n = Done r" if "2 * (i + n) \<le> length p" for acc i n
    using that by (induction n arbitrary: acc i) (auto simp: get16_def get_bytes_def)
  moreover have "2 * (0 + len div 2) \<le> length p" using assms times_div_less_eq_dividend [of 2 len] by simp
  ultimately obtain r where "icmp_checksum_loop p 0 0 (len div 2) = Done r" by blast
  then show ?thesis by (simp add: icmp_checksum_def Let_def)
qed

text \<open>
  One fold is not enough when it carries again: the words FFFF, FFFF, 0001 have the one's complement sum
  0001, but the checksum comes out as the complement of 0.
\<close>

lemma icmp_checksum_folds_once:
  "icmp_checksum [0xFF, 0xFF, 0xFF, 0xFF, 0, 1] 6 = Done 0xFFFF" "oc_sum 0 [0xFFFF, 0xFFFF, 1] = 1"
  by (simp_all add: icmp_checksum_def get16_def get_bytes_def ntohs_def htons_def oc_add_def Let_def numeral_3_eq_3)

lemma icmp_send_packet:
  "stores [put8 0 ty, put8 1 code, put32 4 varies, put_at 8 body, put16 2 0] (replicate (8 + length body) 0) =
   Done (icmp_bytes ty code 0 varies body)"
  by (simp add: put_defs icmp_bytes_def replicate_add le16_def le32_def numeral_eq_Suc)

lemma icmp_send_is_ipv4_send:
  assumes "data \<noteq> []"
  shows "\<exists>c. icmp_send ops s node dest ty code varies (Some data) (length data) =
    ipv4_send ops s node dest IPV4_PROTOCOL_ICMP (Some (icmp_bytes ty code c varies data)) (8 + length data)"
proof -
  from icmp_checksum_total [of "8 + length data" "icmp_bytes ty code 0 varies data"] obtain c where
    c: "icmp_checksum (icmp_bytes ty code 0 varies data) (8 + length data) = Done c" by auto
  have "put16 2 (htons c) (icmp_bytes ty code 0 varies data) = Done (icmp_bytes ty code (htons c) varies data)"
    by (simp add: put16_def put_bytes_def icmp_bytes_def)
  with c assms have "icmp_send ops s node dest ty code varies (Some data) (length data) =
      ipv4_send ops s node dest IPV4_PROTOCOL_ICMP (Some (icmp_bytes ty code (htons c) varies data)) (8 + length data)"
    unfolding icmp_send_def option.case Let_def get_bytes_def
    using icmp_send_packet [of ty code varies data] by (simp del: stores.simps)
  then show ?thesis by blast
qed

text \<open>The answer to an echo request: addresses exchanged, the same data, a header that verifies.\<close>

definition echo_response :: "bytes \<Rightarrow> bytes \<Rightarrow> bool" where
  "echo_response req resp \<longleftrightarrow>
     length resp = length req \<and> ipv4_checksum resp = Done 0 \<and>
     get16 resp 2 = get16 req 2 \<and> get8 resp 9 = Done IPV4_PROTOCOL_ICMP \<and>
     get32 resp 12 = get32 req 16 \<and> get32 resp 16 = get32 req 12 \<and>
     get8 resp 20 = Done ICMP_ECHO_REPLY \<and> get8 resp 21 = Done 0 \<and> drop 24 resp = drop 24 req"

lemma icmp_handle_stores:
  "stores [put16 2 len, put32 12 dst, put32 16 src, put8 8 64, put8 9 1, put16 4 ident, put16 6 (htons 0x4000), put8 0 0x45,
      (\<lambda>b. and_then (get8 b 1) (\<lambda>w. put8 1 (w AND 0xC0) b)), put16 10 0]
     (ipv4_bytes len ident off IPV4_PROTOCOL_ICMP c src dst body) =
   Done (ipv4_bytes len ident (htons 0x4000) IPV4_PROTOCOL_ICMP 0 dst src body)"
  by (simp add: put_defs get8_def ipv4_bytes_def IPV4_PROTOCOL_ICMP_def le16_def le32_def numeral_eq_Suc)

lemma icmp_handle_patch:
  "stores [put8 20 ICMP_ECHO_REPLY, put8 21 0, put16 22 0] (ipv4_bytes len ident off p c src dst (icmp_bytes ty code ck varies data)) =
     Done (ipv4_bytes len ident off p c src dst (icmp_bytes ICMP_ECHO_REPLY 0 0 varies data))"
  "put16 22 ck' (ipv4_bytes len ident off p c src dst (icmp_bytes ty code ck varies data)) =
     Done (ipv4_bytes len ident off p c src dst (icmp_bytes ty code ck' varies data))"
  by (simp_all add: put_defs ipv4_bytes_def icmp_bytes_def le16_def le32_def numeral_eq_Suc)

lemma icmp_bytes_fields:
  "get8 (icmp_bytes ty code ck varies data) 0 = Done ty" "get8 (icmp_bytes ty code ck varies data) 1 = Done code"
  "get8 (ipv4_bytes len ident off p c src dst (icmp_bytes ty code ck varies data)) 20 = Done ty"
  "get8 (ipv4_bytes len ident off p c src dst (icmp_bytes ty code ck varies data)) 21 = Done code"
  "drop 24 (ipv4_bytes len ident off p c src dst (icmp_bytes ty code ck varies data)) = le32 varies @ data"
  by (simp_all add: icmp_bytes_def ipv4_bytes_def get8_def le16_def le32_def numeral_eq_Suc)

lemma icmp_handle_echo:
  assumes "unat (ntohs len) = 28 + length data"
    and req: "req = ipv4_bytes len ident off IPV4_PROTOCOL_ICMP c src dst (icmp_bytes ICMP_ECHO_REQUEST 0 ck varies data)"
  shows "\<exists>c1 c2. let resp = ipv4_bytes len ident (htons 0x4000) IPV4_PROTOCOL_ICMP c1 dst src (icmp_bytes ICMP_ECHO_REPLY 0 c2 varies data) in
           echo_response req resp \<and>
           icmp_handle ops node req sz s = and_then (ipv4_sendPacket ops s node resp) (\<lambda>(r, s'). Done (0, s'))"
proof -
  let ?body = "icmp_bytes ICMP_ECHO_REQUEST 0 ck varies data"
  let ?resp = "\<lambda>c1 body. ipv4_bytes len ident (htons 0x4000) IPV4_PROTOCOL_ICMP c1 dst src body"
  from ipv4_bytes_verifies [of len ident "htons 0x4000" IPV4_PROTOCOL_ICMP dst src ?body] obtain c1 where
    c1: "ipv4_checksum (?resp 0 ?body) = Done c1" "ipv4_checksum (?resp (htons c1) ?body) = Done 0" by blast
  let ?r2 = "icmp_bytes ICMP_ECHO_REPLY 0 0 varies data"
  from icmp_checksum_total [of "8 + length data" ?r2] obtain c2 where c2: "icmp_checksum ?r2 (8 + length data) = Done c2" by auto
  have "get_bytes req 0 (unat (ntohs len)) = Done req" using assms by (simp add: get_bytes_def ipv4_bytes_fields)
  note copy = this [unfolded req]
  have "icmp_handle ops node req sz s =
      and_then (ipv4_sendPacket ops s node (?resp (htons c1) (icmp_bytes ICMP_ECHO_REPLY 0 (htons c2) varies data))) (\<lambda>(r, s'). Done (0, s'))"
    unfolding icmp_handle_def Let_def
    unfolding req ipv4_bytes_fields icmp_bytes_fields and_then.simps simp_thms if_True copy icmp_handle_stores c1(1) ipv4_bytes_checksum icmp_handle_patch
    using c2 assms(1) by (simp add: ipv4_bytes_fields icmp_handle_patch)
  moreover have "echo_response req (?resp (htons c1) (icmp_bytes ICMP_ECHO_REPLY 0 (htons c2) varies data))"
    using c1(2) ipv4_checksum_body [of len ident "htons 0x4000" IPV4_PROTOCOL_ICMP "htons c1" dst src ?body]
    by (simp add: req echo_response_def ipv4_bytes_fields icmp_bytes_fields)
  ultimately show ?thesis unfolding Let_def by blast
qed


section \<open>Initialisation\<close>

text \<open>The order of \<open>kernel.c\<close>.\<close>

definition net_boot :: "net_state \<Rightarrow> net_state outcome" where
  "net_boot s = and_then (arp_init s) (\<lambda>s1. and_then (ipv4_init s1) icmp_init)"

section \<open>The loopback interface\<close>

text \<open>
  The stack is up on the loopback interface \<open>lo\<close> with address \<open>a\<close>: the handlers are registered, the
  ARP table is usable and does not send the address elsewhere, and no other frames are on their way.
\<close>

definition net_up :: "net_state \<Rightarrow> bool" where
  "net_up s \<longleftrightarrow>
     (case ethertype_handler_map s of None \<Rightarrow> False
      | Some h \<Rightarrow> int_map h \<and> hm_view h (IntKey (ucast ARP_PACKET_TYPE)) = Some h_arp_handle_packet \<and>
                 hm_view h (IntKey (ucast IPV4_PACKET_TYPE)) = Some h_ipv4_handle) \<and>
     (case ipv4_handler_hashmap s of None \<Rightarrow> False
      | Some h \<Rightarrow> int_map h \<and> hm_view h (IntKey (ucast IPV4_PROTOCOL_ICMP)) = Some h_icmp_handle)"

lemma register_spec:
  assumes "ethertype_handler_map s = None \<or> (\<exists>h. ethertype_handler_map s = Some h \<and> int_map h \<and> hm_view h (IntKey (ucast ty)) = None)"
  shows "\<exists>h'. ethernet_registerHandler s ty f = Done (0, s\<lparr>ethertype_handler_map := Some h'\<rparr>) \<and> int_map h' \<and>
           hm_view h' = (case ethertype_handler_map s of None \<Rightarrow> Map.empty | Some h \<Rightarrow> hm_view h)(IntKey (ucast ty) \<mapsto> f)"
proof -
  let ?new = "hashmap_create_int ''ethertype handlers'' 20 :: ethertype_handler_t hashmap_t"
  define h where "h = (case ethertype_handler_map s of None \<Rightarrow> ?new | Some h \<Rightarrow> h)"
  have new: "int_map ?new" "hm_view ?new = Map.empty" by (auto simp: int_map_create hashmap_create_view fun_eq_iff)
  have h: "int_map h" "hm_view h (IntKey (ucast ty)) = None"
      "hm_view h = (case ethertype_handler_map s of None \<Rightarrow> Map.empty | Some h \<Rightarrow> hm_view h)"
    using assms new by (auto simp: h_def split: option.splits)
  from int_map_set [OF h(1), of "ucast ty" f] obtain h' where h': "hashmap_set (Some h) (IntKey (ucast ty)) f = Done (Some h')"
    "int_map h'" "hm_view h' = (hm_view h)(IntKey (ucast ty) \<mapsto> f)" by blast
  have "ethernet_registerHandler s ty f = Done (0, s\<lparr>ethertype_handler_map := Some h'\<rparr>)"
    using h'(1) int_map_has [OF h(1)] h(2)
    by (auto simp: ethernet_registerHandler_def h_def Let_def split: option.splits)
  with h' h(3) show ?thesis by auto
qed

lemma net_boot_up:
  assumes "ethertype_handler_map s = None" "\<not> arp_lock s"
  shows "\<exists>em im am. net_boot s = Done (s\<lparr>arp_map := Some am, ethertype_handler_map := Some em, ipv4_handler_hashmap := Some im\<rparr>) \<and>
           net_up (s\<lparr>arp_map := Some am, ethertype_handler_map := Some em, ipv4_handler_hashmap := Some im\<rparr>) \<and>
           int_map am \<and> hm_view am = Map.empty"
proof -
  let ?am = "hashmap_create_int ''arp route map'' 20 :: arp_table_entry_t hashmap_t"
  let ?im = "hashmap_create_int ''ipv4 handler map'' 6 :: ipv4_handler_t hashmap_t"
  have am: "int_map ?am" "hm_view ?am = Map.empty" by (auto simp: int_map_create hashmap_create_view fun_eq_iff)
  have im: "int_map ?im" by (simp add: int_map_create)
  from register_spec [of "s\<lparr>arp_map := Some ?am\<rparr>" ARP_PACKET_TYPE h_arp_handle_packet] assms(1) obtain e1 where
    e1: "arp_init s = Done (s\<lparr>arp_map := Some ?am, ethertype_handler_map := Some e1\<rparr>)" "int_map e1"
      "hm_view e1 = [IntKey (ucast ARP_PACKET_TYPE) \<mapsto> h_arp_handle_packet]" by (auto simp: arp_init_def)
  have ne: "(ucast IPV4_PACKET_TYPE :: u64) \<noteq> ucast ARP_PACKET_TYPE" by (simp add: arp_constants)
  let ?s2 = "s\<lparr>arp_map := Some ?am, ethertype_handler_map := Some e1, ipv4_handler_hashmap := Some ?im\<rparr>"
  from register_spec [of ?s2 IPV4_PACKET_TYPE h_ipv4_handle] e1(2,3) ne obtain e2 where
    e2: "ethernet_registerHandler ?s2 IPV4_PACKET_TYPE h_ipv4_handle = Done (0, ?s2\<lparr>ethertype_handler_map := Some e2\<rparr>)" "int_map e2"
      "hm_view e2 = (hm_view e1)(IntKey (ucast IPV4_PACKET_TYPE) \<mapsto> h_ipv4_handle)" by auto
  from int_map_set [OF im, of "ucast IPV4_PROTOCOL_ICMP" h_icmp_handle] obtain i2 where
    i2: "hashmap_set (Some ?im) (IntKey (ucast IPV4_PROTOCOL_ICMP)) h_icmp_handle = Done (Some i2)" "int_map i2"
      "hm_view i2 = (hm_view ?im)(IntKey (ucast IPV4_PROTOCOL_ICMP) \<mapsto> h_icmp_handle)" by blast
  let ?s' = "s\<lparr>arp_map := Some ?am, ethertype_handler_map := Some e2, ipv4_handler_hashmap := Some i2\<rparr>"
  have "net_boot s = Done ?s'"
    using e1(1) e2(1) i2(1) by (simp add: net_boot_def ipv4_init_def icmp_init_def ipv4_register_def)
  moreover have "net_up ?s'" using e2(2,3) e1(3) i2(2,3) ne by (auto simp: net_up_def)
  ultimately show ?thesis using am by blast
qed

definition lo_up :: "net_state \<Rightarrow> addr \<Rightarrow> nic_t \<Rightarrow> bool" where
  "lo_up s lo nic \<longleftrightarrow>
     net_up s \<and> arp_ok s \<and> lo \<noteq> NULL \<and> net_nics s lo = Some nic \<and> length (nic_mac nic) = 6 \<and>
     nic_write nic = w_loopback_write \<and> nic_ipv4_address nic \<noteq> 0 \<and> net_incoming s = [] \<and>
     (case arp_view s (nic_ipv4_address nic) of Some e \<Rightarrow> ae_hwmac e = nic_mac nic | None \<Rightarrow> True)"

lemma lo_upD:
  assumes "lo_up s lo nic"
  shows "net_up s" "arp_ok s" "lo \<noteq> NULL" "net_nics s lo = Some nic" "length (nic_mac nic) = 6"
    "nic_write nic = w_loopback_write" "nic_ipv4_address nic \<noteq> 0" "net_incoming s = []"
  using assms by (simp_all add: lo_up_def)

lemma net_up_frame [simp]:
  "net_up (s\<lparr>arp_map := m\<rparr>) = net_up s" "net_up (s\<lparr>ping_packet := q\<rparr>) = net_up s"
  by (simp_all add: net_up_def)

lemma arp_frame [simp]:
  "arp_ok (s\<lparr>ping_packet := q\<rparr>) = arp_ok s" "arp_view (s\<lparr>ping_packet := q\<rparr>) = arp_view s"
  by (simp_all add: arp_ok_def arp_view_def fun_eq_iff)

definition handler_of :: "u16 \<Rightarrow> ethertype_handler_t option" where
  "handler_of ty = (if ty = ARP_PACKET_TYPE then Some h_arp_handle_packet
                    else if ty = IPV4_PACKET_TYPE then Some h_ipv4_handle else None)"

text \<open>A frame written to the interface is at once handled on it.\<close>

lemma lo_deliver:
  assumes "lo_up s lo nic" "dst = nic_mac nic \<or> dst = ETHERNET_BROADCAST_MAC" "length body < 2 ^ 16" "handler_of ty = Some h"
  shows "\<exists>sz. nic_fs_write (net_ops_at (Suc n)) s lo (eth_frame dst (nic_mac nic) ty body) =
           and_then (eth_call (net_ops_at n) h body lo sz s) (\<lambda>(r, s'). Done s')"
proof -
  note up = lo_upD [OF assms(1)]
  let ?f = "eth_frame dst (nic_mac nic) ty body"
  let ?sz = "of_nat (length ?f) :: u64"
  from up(1) obtain em where em: "ethertype_handler_map s = Some em" "int_map em"
    "hm_view em (IntKey (ucast ARP_PACKET_TYPE)) = Some h_arp_handle_packet" "hm_view em (IntKey (ucast IPV4_PACKET_TYPE)) = Some h_ipv4_handle"
    by (auto simp: net_up_def split: option.splits)
  have view: "hm_view em (IntKey (ucast ty)) = Some h" using assms(4) em(3,4) by (auto simp: handler_of_def split: if_splits)
  have dst: "length dst = 6" using assms(2) up(5) by (auto simp: ETHERNET_BROADCAST_MAC_def)
  then have len: "length ?f = 14 + length body" using up(5) by (simp add: eth_frame_def)
  have "unat ?sz = 14 + length body" unfolding len by (rule unat_of_nat_less) (use assms(3) in simp)
  then have "?sz \<noteq> 0" by (metis add_is_0 unat_0 zero_neq_numeral)
  from ethernet_handle_frame [OF up(4) up(5) dst up(5) this em(1,2), of "eth_call (net_ops_at n)" ty body] assms(2) view
  have "ethernet_handle (eth_call (net_ops_at n)) ?f lo ?sz s = and_then (eth_call (net_ops_at n) h body lo (?sz - 14) s) (\<lambda>(r, s'). Done s')"
    by simp
  moreover have "nic_fs_write (net_ops_at (Suc n)) s lo ?f = ethernet_handle (eth_call (net_ops_at n)) ?f lo ?sz s"
    using up(3,4,6) by (simp add: nic_fs_write_def NIC_def loopback_write_def net_ops_at.simps)
  ultimately show ?thesis by auto
qed

text \<open>Looking for the interface's own address enters it into the table.\<close>

lemma lo_arp_search:
  assumes "lo_up s lo nic" "n \<ge> 2"
  shows "\<exists>m. arp_search (net_ops_at n) s lo (nic_ipv4_address nic) = Done (0, s\<lparr>arp_map := m\<rparr>) \<and> lo_up (s\<lparr>arp_map := m\<rparr>) lo nic \<and>
           (\<exists>e. arp_view (s\<lparr>arp_map := m\<rparr>) (nic_ipv4_address nic) = Some e \<and> ae_hwmac e = nic_mac nic)"
proof -
  note up = lo_upD [OF assms(1)]
  from assms(2) obtain k where n: "n = Suc (Suc k)" by (metis add_2_eq_Suc le_Suc_ex)
  let ?a = "nic_ipv4_address nic" and ?mac = "nic_mac nic"
  let ?e = "\<lparr>ae_address = ?a, ae_hwtype = ARP_TYPE_ETHERNET, ae_hwmac = ?mac, ae_nic = lo\<rparr>"
  have h: "handler_of ARP_PACKET_TYPE = Some h_arp_handle_packet" by (simp add: handler_of_def)
  have six: "length (replicate 6 (0 :: u8)) = 6" by simp
  note h1 = arp_handle_packet_spec [OF up(2) up(4) up(3) up(5) up(5) six, of "net_ops_at (Suc k)" ARP_OPERATION_REQUEST ?a ?a]
  have keep: "lo_up (s\<lparr>arp_map := m\<rparr>) lo nic" if "arp_ok (s\<lparr>arp_map := m\<rparr>)" "arp_view (s\<lparr>arp_map := m\<rparr>) = v(?a \<mapsto> ?e)" for m v
    using that up by (simp add: lo_up_def)
  have deliver: "\<exists>sz. nic_fs_write (net_ops_at (Suc j)) s' lo (eth_frame dst ?mac ARP_PACKET_TYPE (arp_bytes oper ?mac ?a tha ?a)) =
      and_then (arp_handle_packet (net_ops_at j) (arp_bytes oper ?mac ?a tha ?a) lo sz s') (\<lambda>(r, s'). Done s')"
    if "lo_up s' lo nic" "dst = ?mac \<or> dst = ETHERNET_BROADCAST_MAC" "length tha = 6" for s' j dst oper tha
    using lo_deliver [OF that(1,2) _ h, of "arp_bytes oper ?mac ?a tha ?a" j] arp_bytes_fields(6) [OF up(5) that(3), of oper ?a ?a]
    by (simp add: eth_call_def)
  from deliver [OF assms(1), of ETHERNET_BROADCAST_MAC "replicate 6 0" "Suc k" ARP_OPERATION_REQUEST] obtain sz where
    d1: "nic_fs_write (net_ops_at n) s lo (eth_frame ETHERNET_BROADCAST_MAC ?mac ARP_PACKET_TYPE (arp_bytes ARP_OPERATION_REQUEST ?mac ?a (replicate 6 0) ?a)) =
      and_then (arp_handle_packet (net_ops_at (Suc k)) (arp_bytes ARP_OPERATION_REQUEST ?mac ?a (replicate 6 0) ?a) lo sz s) (\<lambda>(r, s'). Done s')"
    unfolding n by auto
  from h1 [of sz] up(7) obtain m1 where
    m1: "arp_handle_packet (net_ops_at (Suc k)) (arp_bytes ARP_OPERATION_REQUEST ?mac ?a (replicate 6 0) ?a) lo sz s =
        and_then (nic_fs_write (net_ops_at (Suc k)) (s\<lparr>arp_map := m1\<rparr>) lo (eth_frame ?mac ?mac ARP_PACKET_TYPE
          (arp_bytes ARP_OPERATION_REPLY ?mac ?a ?mac ?a))) (\<lambda>s'. Done (0, s'))"
      "arp_ok (s\<lparr>arp_map := m1\<rparr>)" "arp_view (s\<lparr>arp_map := m1\<rparr>) = (arp_view s)(?a \<mapsto> ?e)" by auto
  let ?s1 = "s\<lparr>arp_map := m1\<rparr>"
  have up1: "lo_up ?s1 lo nic" using keep [OF m1(2,3)] .
  from deliver [OF up1, of ?mac ?mac k ARP_OPERATION_REPLY] up(5) obtain sz2 where
    d2: "nic_fs_write (net_ops_at (Suc k)) ?s1 lo (eth_frame ?mac ?mac ARP_PACKET_TYPE (arp_bytes ARP_OPERATION_REPLY ?mac ?a ?mac ?a)) =
      and_then (arp_handle_packet (net_ops_at k) (arp_bytes ARP_OPERATION_REPLY ?mac ?a ?mac ?a) lo sz2 ?s1) (\<lambda>(r, s'). Done s')" by auto
  have "ARP_OPERATION_REPLY \<noteq> ARP_OPERATION_REQUEST" by (simp add: arp_constants)
  with arp_handle_packet_spec [OF m1(2) _ up(3) up(5) up(5) up(5), of "net_ops_at k" ARP_OPERATION_REPLY ?a ?a sz2] up(4) obtain m2 where
    m2: "arp_handle_packet (net_ops_at k) (arp_bytes ARP_OPERATION_REPLY ?mac ?a ?mac ?a) lo sz2 ?s1 = Done (0, s\<lparr>arp_map := m2\<rparr>)"
      "arp_ok (s\<lparr>arp_map := m2\<rparr>)" "arp_view (s\<lparr>arp_map := m2\<rparr>) = (arp_view ?s1)(?a \<mapsto> ?e)" by auto
  let ?s2 = "s\<lparr>arp_map := m2\<rparr>"
  have "arp_map s \<noteq> None" using up(2) by (auto simp: arp_ok_def split: option.splits)
  from arp_request_frame [OF up(4,3,5,7) this, of "net_ops_at n" ?a] have "arp_request (net_ops_at n) s lo ?a = Done (0, ?s2)"
    unfolding d1 m1(1) d2 m2(1) by simp
  moreover have "op_sleep (net_ops_at n) ?s2 = Done ?s2" using up(8) unfolding n by (intro op_sleep_quiet) simp
  ultimately have "arp_search (net_ops_at n) s lo ?a = Done (0, ?s2)"
    using arp_get_entry_spec [OF m2(2), of ?a] m2(3) by (simp add: arp_search_def)
  with keep [OF m2(2,3)] m2(3) show ?thesis by auto
qed


definition lo_known :: "net_state \<Rightarrow> nic_t \<Rightarrow> bool" where
  "lo_known s nic \<longleftrightarrow> (\<exists>e. arp_view s (nic_ipv4_address nic) = Some e \<and> ae_hwmac e = nic_mac nic)"

lemma lo_send_entry:
  assumes "lo_up s lo nic" "unat (ntohs len) = 20 + length body" "arp_view s a = Some e" "ae_hwmac e = nic_mac nic"
    and pkt: "pkt = ipv4_bytes len ident off protocol c src a body"
  shows "\<exists>sz. and_then (get16 pkt 2) (\<lambda>len. and_then (ethernet_send (net_ops_at (Suc k)) s lo pkt IPV4_PACKET_TYPE (ae_hwmac e) (unat (ntohs len)))
             (\<lambda>s4. Done (0 :: cint, s4))) =
           and_then (ipv4_handle (ip_call (net_ops_at k)) pkt lo sz s) (\<lambda>(r, s'). Done (0, s'))"
proof -
  note up = lo_upD [OF assms(1)]
  have h: "handler_of IPV4_PACKET_TYPE = Some h_ipv4_handle" by (simp add: handler_of_def arp_constants)
  have len: "length pkt = unat (ntohs len)" using assms(2) by (simp add: pkt ipv4_bytes_fields)
  have "length pkt < 2 ^ 16" unfolding len using unat_16_le [of "ntohs len"] by simp
  from lo_deliver [OF assms(1) _ this h, of "nic_mac nic" k] obtain sz where
    "nic_fs_write (net_ops_at (Suc k)) s lo (eth_frame (nic_mac nic) (nic_mac nic) IPV4_PACKET_TYPE pkt) =
      and_then (ipv4_handle (ip_call (net_ops_at k)) pkt lo sz s) (\<lambda>(r, s'). Done s')" by (auto simp: eth_call_def)
  moreover have "ethernet_send (net_ops_at (Suc k)) s lo pkt IPV4_PACKET_TYPE (nic_mac nic) (unat (ntohs len)) =
      nic_fs_write (net_ops_at (Suc k)) s lo (eth_frame (nic_mac nic) (nic_mac nic) IPV4_PACKET_TYPE pkt)"
    using ethernet_send_frame [OF up(4,5,5), of "unat (ntohs len)" pkt] len by (simp)
  moreover have "get16 pkt 2 = Done len" by (simp add: pkt ipv4_bytes_fields)
  ultimately show ?thesis using assms(4) by (auto simp: case_prod_unfold intro!: exI [of _ sz])
qed

lemma lo_send_known:
  assumes "lo_up s lo nic" "lo_known s nic" "unat (ntohs len) = 20 + length body"
    and pkt: "pkt = ipv4_bytes len ident off protocol c src (nic_ipv4_address nic) body"
  shows "\<exists>sz. ipv4_sendPacket (net_ops_at (Suc k)) s lo pkt =
           and_then (ipv4_handle (ip_call (net_ops_at k)) pkt lo sz s) (\<lambda>(r, s'). Done (0, s'))"
proof -
  note up = lo_upD [OF assms(1)]
  let ?a = "nic_ipv4_address nic"
  from assms(2) obtain e where e: "arp_view s ?a = Some e" "ae_hwmac e = nic_mac nic" by (auto simp: lo_known_def)
  have "get32 pkt 16 = Done ?a" by (simp add: pkt ipv4_bytes_fields)
  then have "ipv4_sendPacket (net_ops_at (Suc k)) s lo pkt =
      and_then (get16 pkt 2) (\<lambda>len. and_then (ethernet_send (net_ops_at (Suc k)) s lo pkt IPV4_PACKET_TYPE (ae_hwmac e) (unat (ntohs len)))
             (\<lambda>s4. Done (0, s4)))"
    using up(4) arp_get_entry_spec [OF up(2), of ?a] e(1) by (simp add: ipv4_sendPacket_def NIC_def)
  with lo_send_entry [OF assms(1,3) e pkt, of k] show ?thesis by simp
qed

lemma lo_send:
  assumes "lo_up s lo nic" "unat (ntohs len) = 20 + length body" "n = Suc (Suc k)"
    and pkt: "pkt = ipv4_bytes len ident off protocol c src (nic_ipv4_address nic) body"
  shows "\<exists>m sz. lo_up (s\<lparr>arp_map := m\<rparr>) lo nic \<and> lo_known (s\<lparr>arp_map := m\<rparr>) nic \<and>
           ipv4_sendPacket (net_ops_at n) s lo pkt =
             and_then (ipv4_handle (ip_call (net_ops_at (Suc k))) pkt lo sz (s\<lparr>arp_map := m\<rparr>)) (\<lambda>(r, s'). Done (0, s'))"
proof (cases "arp_view s (nic_ipv4_address nic)")
  case (Some e)
  with assms(1) have known: "lo_known s nic" by (simp add: lo_up_def lo_known_def)
  have "s\<lparr>arp_map := arp_map s\<rparr> = s" by simp
  with lo_send_known [OF assms(1) known assms(2) pkt, of "Suc k"] assms(1,3) known show ?thesis by metis
next
  case None
  note up = lo_upD [OF assms(1)]
  let ?a = "nic_ipv4_address nic"
  from lo_arp_search [OF assms(1), of n] assms(3) obtain m e where
    m: "arp_search (net_ops_at n) s lo ?a = Done (0, s\<lparr>arp_map := m\<rparr>)" "lo_up (s\<lparr>arp_map := m\<rparr>) lo nic"
      "arp_view (s\<lparr>arp_map := m\<rparr>) ?a = Some e" "ae_hwmac e = nic_mac nic" by auto
  have "get32 pkt 16 = Done ?a" by (simp add: pkt ipv4_bytes_fields)
  then have "ipv4_sendPacket (net_ops_at n) s lo pkt =
      and_then (get16 pkt 2) (\<lambda>len. and_then (ethernet_send (net_ops_at n) (s\<lparr>arp_map := m\<rparr>) lo pkt IPV4_PACKET_TYPE (ae_hwmac e) (unat (ntohs len)))
             (\<lambda>s4. Done (0, s4)))"
    using up(4) arp_get_entry_spec [OF up(2), of ?a] arp_get_entry_spec [OF lo_upD(2) [OF m(2)], of ?a] m(1,3) None
    by (simp add: ipv4_sendPacket_def NIC_def)
  moreover from lo_send_entry [OF m(2) assms(2) m(3,4) pkt, of "Suc k"] obtain sz where
    "and_then (get16 pkt 2) (\<lambda>len. and_then (ethernet_send (net_ops_at n) (s\<lparr>arp_map := m\<rparr>) lo pkt IPV4_PACKET_TYPE (ae_hwmac e) (unat (ntohs len)))
             (\<lambda>s4. Done (0 :: cint, s4))) =
      and_then (ipv4_handle (ip_call (net_ops_at (Suc k))) pkt lo sz (s\<lparr>arp_map := m\<rparr>)) (\<lambda>(r, s'). Done (0, s'))"
    unfolding assms(3) by blast
  ultimately show ?thesis using m(2-4) unfolding lo_known_def
    by (intro exI [of _ m] exI [of _ sz] conjI) auto
qed


lemma up_ipv4_handle:
  assumes "net_up s" "net_nics s lo = Some nic"
  shows "ipv4_handle (ip_call ops) (ipv4_bytes len ident off IPV4_PROTOCOL_ICMP c src dst body) lo sz s =
    icmp_handle ops lo (ipv4_bytes len ident off IPV4_PROTOCOL_ICMP c src dst body) sz s"
proof -
  from assms(1) obtain h where "ipv4_handler_hashmap s = Some h" "int_map h"
    "hm_view h (IntKey (ucast IPV4_PROTOCOL_ICMP)) = Some h_icmp_handle" by (auto simp: net_up_def split: option.splits)
  with assms(2) show ?thesis by (simp add: ipv4_handle_def NIC_def ipv4_bytes_fields int_map_get ip_call_def)
qed

lemma icmp_handle_reply:
  "icmp_handle ops lo (ipv4_bytes len ident off p c src dst (icmp_bytes ICMP_ECHO_REPLY 0 ck varies data)) sz s =
   Done (0, s\<lparr>ping_packet := Some (icmp_bytes ICMP_ECHO_REPLY 0 ck varies data)\<rparr>)"
  by (simp add: icmp_handle_def Let_def ipv4_bytes_fields icmp_bytes_fields [simplified] ICMP_ECHO_REPLY_def ICMP_ECHO_REQUEST_def)

lemma lo_echo:
  assumes "lo_up s lo nic" "data \<noteq> []" "28 + length data < 2 ^ 16" "n = Suc (Suc k)"
  shows "\<exists>m c. icmp_send (net_ops_at n) s lo (nic_ipv4_address nic) ICMP_ECHO_REQUEST 0 varies (Some data) (length data) =
             Done (0, s\<lparr>arp_map := m, ping_packet := Some (icmp_bytes ICMP_ECHO_REPLY 0 c varies data)\<rparr>) \<and>
           lo_up (s\<lparr>arp_map := m\<rparr>) lo nic"
proof -
  note up = lo_upD [OF assms(1)]
  let ?a = "nic_ipv4_address nic" and ?len = "htons (of_nat (20 + (8 + length data))) :: u16"
  let ?off = "htons 0x4000 :: u16"
  have len: "unat (ntohs ?len) = 28 + length data"
    unfolding ntohs_def htons_involution using unat_of_nat_less [where 'a = 16, of "20 + (8 + length data)"] assms(3) by simp
  from icmp_send_is_ipv4_send [OF assms(2)] obtain ck where
    ck: "icmp_send (net_ops_at n) s lo ?a ICMP_ECHO_REQUEST 0 varies (Some data) (length data) =
      ipv4_send (net_ops_at n) s lo ?a IPV4_PROTOCOL_ICMP (Some (icmp_bytes ICMP_ECHO_REQUEST 0 ck varies data)) (8 + length data)" by blast
  let ?body = "icmp_bytes ICMP_ECHO_REQUEST 0 ck varies data"
  from ipv4_send_builds [OF up(4,3), of "8 + length data" ?body IPV4_PROTOCOL_ICMP ?a "net_ops_at n"] obtain c where
    c: "ipv4_send (net_ops_at n) s lo ?a IPV4_PROTOCOL_ICMP (Some ?body) (8 + length data) =
      ipv4_sendPacket (net_ops_at n) s lo (ipv4_bytes ?len (htons 0) ?off IPV4_PROTOCOL_ICMP c ?a ?a ?body)"
    by (auto simp: Let_def)
  from lo_send [OF assms(1) _ assms(4) refl, where len = ?len and body = ?body and ident = "htons 0" and off = ?off and
      protocol = IPV4_PROTOCOL_ICMP and c = c and src = ?a] len obtain m sz where
    m: "lo_up (s\<lparr>arp_map := m\<rparr>) lo nic" "lo_known (s\<lparr>arp_map := m\<rparr>) nic"
    "ipv4_sendPacket (net_ops_at n) s lo (ipv4_bytes ?len (htons 0) ?off IPV4_PROTOCOL_ICMP c ?a ?a ?body) =
       and_then (icmp_handle (net_ops_at (Suc k)) lo (ipv4_bytes ?len (htons 0) ?off IPV4_PROTOCOL_ICMP c ?a ?a ?body) sz (s\<lparr>arp_map := m\<rparr>))
         (\<lambda>(r, s'). Done (0, s'))"
    using up(1,4) by (auto simp: up_ipv4_handle)
  let ?s1 = "s\<lparr>arp_map := m\<rparr>"
  from icmp_handle_echo [OF len refl, where ident = "htons 0" and off = ?off and c = c and src = ?a and dst = ?a and ck = ck and
      varies = varies and ops = "net_ops_at (Suc k)" and node = lo and sz = sz and s = ?s1] obtain c1 c2 where
    h: "icmp_handle (net_ops_at (Suc k)) lo (ipv4_bytes ?len (htons 0) ?off IPV4_PROTOCOL_ICMP c ?a ?a ?body) sz ?s1 =
      and_then (ipv4_sendPacket (net_ops_at (Suc k)) ?s1 lo (ipv4_bytes ?len (htons 0) ?off IPV4_PROTOCOL_ICMP c1 ?a ?a
        (icmp_bytes ICMP_ECHO_REPLY 0 c2 varies data))) (\<lambda>(r, s'). Done (0, s'))" by (auto simp: Let_def)
  from lo_send_known [OF m(1,2) _ refl, where len = ?len and body = "icmp_bytes ICMP_ECHO_REPLY 0 c2 varies data" and k = k and
      ident = "htons 0" and off = ?off and protocol = IPV4_PROTOCOL_ICMP and c = c1 and src = ?a] len
  have "ipv4_sendPacket (net_ops_at (Suc k)) ?s1 lo (ipv4_bytes ?len (htons 0) ?off IPV4_PROTOCOL_ICMP c1 ?a ?a
        (icmp_bytes ICMP_ECHO_REPLY 0 c2 varies data)) = Done (0, ?s1\<lparr>ping_packet := Some (icmp_bytes ICMP_ECHO_REPLY 0 c2 varies data)\<rparr>)"
    using up(1,4) by (auto simp: up_ipv4_handle icmp_handle_reply)
  with ck c m(3) h have "icmp_send (net_ops_at n) s lo ?a ICMP_ECHO_REQUEST 0 varies (Some data) (length data) =
      Done (0, ?s1\<lparr>ping_packet := Some (icmp_bytes ICMP_ECHO_REPLY 0 c2 varies data)\<rparr>)" by simp
  with m(1) show ?thesis by blast
qed


lemma lo_up_ping [simp]: "lo_up (s\<lparr>ping_packet := q\<rparr>) lo nic = lo_up s lo nic"
  by (simp add: lo_up_def)

lemma lo_up_ping_arp [simp]: "lo_up (s\<lparr>ping_packet := q, arp_map := m\<rparr>) lo nic = lo_up (s\<lparr>arp_map := m\<rparr>) lo nic"
proof -
  have "s\<lparr>ping_packet := q, arp_map := m\<rparr> = s\<lparr>arp_map := m\<rparr>\<lparr>ping_packet := q\<rparr>" by simp
  then show ?thesis by (simp only: lo_up_ping)
qed

text \<open>The responses to the requests from sequence number \<open>i\<close> on: echo replies with the data that was sent.\<close>

definition echo_replies :: "nat \<Rightarrow> bytes \<Rightarrow> (nat \<times> bytes option) list \<Rightarrow> bool" where
  "echo_replies i payload rs \<longleftrightarrow> (\<forall>j < length rs. \<exists>c. rs ! j =
     (i + j, Some (icmp_bytes ICMP_ECHO_REPLY 0 c (varies_dword (i + j)) payload)))"

lemma echo_replies_Cons:
  assumes "echo_replies (Suc i) payload rs"
  shows "echo_replies i payload ((i, Some (icmp_bytes ICMP_ECHO_REPLY 0 c (varies_dword i) payload)) # rs)"
  using assms by (auto simp: echo_replies_def nth_Cons split: nat.splits)

lemma lo_ping_loop:
  assumes "n = Suc (Suc k)" "length payload = 48"
  shows "lo_up s lo nic \<Longrightarrow> \<exists>m rs. icmp_ping_loop (net_ops_at n) lo (nic_ipv4_address nic) payload i r (s\<lparr>ping_packet := None\<rparr>) =
           Done (rs, s\<lparr>arp_map := m, ping_packet := None\<rparr>) \<and> lo_up (s\<lparr>arp_map := m\<rparr>) lo nic \<and> length rs = r \<and> echo_replies i payload rs"
proof (induction r arbitrary: i s)
  case 0
  have "s\<lparr>arp_map := arp_map s, ping_packet := None\<rparr> = s\<lparr>ping_packet := None\<rparr>" "s\<lparr>arp_map := arp_map s\<rparr> = s" by simp_all
  moreover have "echo_replies i payload []" by (simp add: echo_replies_def)
  ultimately show ?case using 0 unfolding icmp_ping_loop.simps(1) by (metis list.size(3))
next
  case (Suc r)
  let ?v = "varies_dword i"
  have up: "lo_up (s\<lparr>ping_packet := None\<rparr>) lo nic" using Suc.prems by simp
  have "payload \<noteq> []" "28 + length payload < 2 ^ 16" using assms(2) by auto
  from lo_echo [OF up this assms(1), of ?v] assms(2) obtain m c where
    e: "icmp_send (net_ops_at n) (s\<lparr>ping_packet := None\<rparr>) lo (nic_ipv4_address nic) ICMP_ECHO_REQUEST 0 ?v (Some payload) 48 =
        Done (0, s\<lparr>arp_map := m, ping_packet := Some (icmp_bytes ICMP_ECHO_REPLY 0 c ?v payload)\<rparr>)"
      "lo_up (s\<lparr>arp_map := m\<rparr>) lo nic" by (auto simp del: of_nat_add)
  have w: "icmp_wait ops j s' = Done s'" if "ping_packet s' \<noteq> None" for ops j s' using that by (cases j) auto
  from Suc.IH [OF e(2), of "Suc i"] obtain m' rs where
    l: "icmp_ping_loop (net_ops_at n) lo (nic_ipv4_address nic) payload (Suc i) r (s\<lparr>arp_map := m, ping_packet := None\<rparr>) =
      Done (rs, s\<lparr>arp_map := m', ping_packet := None\<rparr>)" "lo_up (s\<lparr>arp_map := m'\<rparr>) lo nic" "length rs = r" "echo_replies (Suc i) payload rs" by auto
  with echo_replies_Cons [OF l(4), of c] show ?case unfolding icmp_ping_loop.simps(2) e(1) by (auto simp: w)
qed

section \<open>Hostile lengths\<close>

text \<open>A store either stays inside the buffer and keeps its size, or faults.\<close>

definition store_in :: "(bytes \<Rightarrow> bytes outcome) \<Rightarrow> bool" where
  "store_in f \<longleftrightarrow> (\<forall>b. f b = Fault OutOfBounds \<or> (\<exists>b'. f b = Done b' \<and> length b' = length b))"

lemma store_in_puts:
  "store_in (put8 off w)" "store_in (put16 off v)" "store_in (put32 off u)"
  "store_in (\<lambda>b. and_then (get8 b i) (\<lambda>w. put8 j (g w) b))"
  by (auto simp: store_in_def put_defs get8_def array_get_def array_set_def)

lemma store_in_stores: "\<forall>f\<in>set fs. store_in f \<Longrightarrow> store_in (stores fs)"
proof (induction fs)
  case Nil
  then show ?case by (simp add: store_in_def)
next
  case (Cons f fs)
  then have f: "store_in f" "store_in (stores fs)" by auto
  show ?case unfolding store_in_def
  proof
    fix b
    from f(1) consider "f b = Fault OutOfBounds" | b' where "f b = Done b'" "length b' = length b" by (auto simp: store_in_def)
    then show "stores (f # fs) b = Fault OutOfBounds \<or> (\<exists>b'. stores (f # fs) b = Done b' \<and> length b' = length b)"
      by cases (use f(2) in \<open>force simp: store_in_def\<close>)+
  qed
qed

lemma stores_fault:
  assumes "f \<in> set fs" "\<forall>f\<in>set fs. store_in f" "\<And>b'. length b' = length b \<Longrightarrow> f b' = Fault OutOfBounds"
  shows "stores fs b = Fault OutOfBounds"
  using assms
proof (induction fs arbitrary: b)
  case (Cons g fs)
  then have g: "store_in g" by simp
  from g consider "g b = Fault OutOfBounds" | b' where "g b = Done b'" "length b' = length b" by (auto simp: store_in_def)
  then show ?case
  proof cases
    case 2
    have "f \<noteq> g" using Cons.prems(3) [of b] 2(1) by auto
    with Cons.prems(1) have "f \<in> set fs" by simp
    then have "stores fs b' = Fault OutOfBounds" using Cons.prems(2,3) 2(2) by (intro Cons.IH) auto
    with 2 show ?thesis by simp
  qed simp
qed simp

text \<open>The response written into a buffer of fewer than 24 bytes.\<close>

definition respond :: "bytes \<Rightarrow> u16 \<Rightarrow> u16 \<Rightarrow> u32 \<Rightarrow> u32 \<Rightarrow> bytes outcome" where
  "respond copy len ident src_addr dest_addr =
     and_then (stores
       [put16 2 len, put32 12 dest_addr, put32 16 src_addr, put8 8 64, put8 9 1, put16 4 ident,
        put16 6 (htons 0x4000), put8 0 0x45,
        (\<lambda>b. and_then (get8 b 1) (\<lambda>w. put8 1 (w AND 0xC0) b)), put16 10 0] copy) (\<lambda>resp.
     and_then (ipv4_checksum resp) (\<lambda>c.
     and_then (put16 10 (htons c) resp) (\<lambda>resp1.
     stores [put8 20 ICMP_ECHO_REPLY, put8 21 0, put16 22 0] resp1)))"

lemma respond_short:
  assumes "length copy < 24"
  shows "respond copy len ident src_addr dest_addr = Fault OutOfBounds"
proof -
  let ?fs = "[put16 2 len, put32 12 dest_addr, put32 16 src_addr, put8 8 64, put8 9 1, put16 4 ident,
        put16 6 (htons 0x4000), put8 0 0x45, (\<lambda>b. and_then (get8 b 1) (\<lambda>w. put8 1 (w AND 0xC0) b)), put16 10 0]"
  have fs: "\<forall>f\<in>set ?fs. store_in f" using store_in_puts by auto
  show ?thesis
  proof (cases "length copy < 20")
    case True
    have "stores ?fs copy = Fault OutOfBounds"
      by (rule stores_fault [OF _ fs, of "put32 16 src_addr"]) (use True in \<open>simp_all add: put_defs\<close>)
    then show ?thesis unfolding respond_def by (simp only: and_then.simps)
  next
    case False
    from store_in_stores [OF fs] consider "stores ?fs copy = Fault OutOfBounds" | r where "stores ?fs copy = Done r" "length r = length copy"
      by (auto simp: store_in_def)
    then show ?thesis
    proof cases
      case 1
      then show ?thesis unfolding respond_def by (simp only: and_then.simps)
    next
      case 2
      from ipv4_checksum_spec [of r] False 2(2) obtain c where c: "ipv4_checksum r = Done c" by auto
      from put16_word_at [of 5 r "htons c"] False 2(2) obtain r1 where r1: "put16 10 (htons c) r = Done r1" "length r1 = length r" by auto
      have "stores [put8 20 ICMP_ECHO_REPLY, put8 21 0, put16 22 0] r1 = Fault OutOfBounds"
        by (rule stores_fault [of "put16 22 0"]) (use assms 2(2) r1(2) store_in_puts in \<open>auto simp: put_defs\<close>)
      with 2(1) c r1(1) show ?thesis unfolding respond_def by (simp only: and_then.simps)
    qed
  qed
qed


lemma icmp_handle_as_respond:
  assumes "get8 (drop 20 p) 0 = Done ICMP_ECHO_REQUEST" "get8 (drop 20 p) 1 = Done 0" "get16 p 2 = Done len"
    "unat (ntohs len) > length p \<or> unat (ntohs len) < 24"
  shows "icmp_handle ops node p sz s = Fault OutOfBounds"
proof -
  have "22 \<le> length p" using assms(2) by (auto simp: get8_def array_get_def split: if_splits)
  then have f: "get32 p 12 = Done (of_le32 (take 4 (drop 12 p)))" "get32 p 16 = Done (of_le32 (take 4 (drop 16 p)))"
    "get16 p 4 = Done (of_le16 (take 2 (drop 4 p)))"
    by (simp_all add: get32_def get16_def get_bytes_def)
  show ?thesis
  proof (cases "unat (ntohs len) > length p")
    case True
    then have "get_bytes p 0 (unat (ntohs len)) = Fault OutOfBounds" by (simp add: get_bytes_def)
    with assms(1-3) f show ?thesis by (simp add: icmp_handle_def)
  next
    case False
    with assms(4) have short: "unat (ntohs len) < 24" by simp
    let ?copy = "take (unat (ntohs len)) p"
    have "get_bytes p 0 (unat (ntohs len)) = Done ?copy" using False by (simp add: get_bytes_def)
    moreover have "respond ?copy len (of_le16 (take 2 (drop 4 p))) (of_le32 (take 4 (drop 12 p))) (of_le32 (take 4 (drop 16 p))) = Fault OutOfBounds"
      by (rule respond_short) (use short in simp)
    ultimately show ?thesis
      using assms(1-3) f unfolding icmp_handle_def Let_def respond_def
      by (simp del: stores.simps add: and_then_assoc [symmetric] del: and_then_assoc)
  qed
qed

section \<open>Properties\<close>

text \<open>
  The machine can ping itself. With the stack initialised and the loopback interface up, an echo
  request of any nonempty data that fits a packet, sent to the interface's own address, goes down through
  ICMP, IPv4, ARP (which first resolves the address by a broadcast the interface answers itself) and
  Ethernet, comes back up, is answered, and the answer arrives before \<open>icmp_send\<close> returns 0: it is an echo
  reply with the same identifier, sequence number and data. So \<open>icmp_ping\<close> never waits, gets the reply of each
  of its ten rounds and returns 0 with no reply left over. Two nested deliveries are enough.
\<close>

lemma loopback_ping:
  assumes "lo_up s lo nic" "data \<noteq> []" "28 + length data < 2 ^ 16" "2 \<le> n"
  shows "(\<exists>m c. icmp_send (net_ops_at n) s lo (nic_ipv4_address nic) ICMP_ECHO_REQUEST 0 varies (Some data) (length data) =
            Done (0, s\<lparr>arp_map := m, ping_packet := Some (icmp_bytes ICMP_ECHO_REPLY 0 c varies data)\<rparr>)) \<and>
         (\<exists>m rs. icmp_ping (net_ops_at n) (s\<lparr>ping_packet := None\<rparr>) lo (nic_ipv4_address nic) =
            Done (0, rs, s\<lparr>arp_map := m, ping_packet := None\<rparr>) \<and> lo_up (s\<lparr>arp_map := m\<rparr>) lo nic \<and>
            length rs = 10 \<and> echo_replies 0 (map of_nat [0..<48]) rs)"
proof -
  from assms(4) obtain k where n: "n = Suc (Suc k)" by (metis add_2_eq_Suc le_Suc_ex)
  have len: "length (map of_nat [0..<48] :: bytes) = 48" by simp
  from lo_echo [OF assms(1-3) n, of varies] lo_ping_loop [OF n len assms(1), of 0 10] show ?thesis
    by (auto simp: icmp_ping_def simp del: icmp_ping_loop.simps)
qed

text \<open>The loopback interface as \<open>loopback_install\<close> sets it up, before the stack is initialised.\<close>

definition lo_nic :: nic_t where
  "lo_nic = \<lparr>nic_name = ''loopback interface'', nic_type = 0, nic_mac = replicate 6 0, nic_driver = NULL,
     nic_ipv4_address = 0x0100007F, nic_ipv4_subnet = 0x000000FF, nic_ipv4_gateway = 0, nic_write = w_loopback_write\<rparr>"

definition lo_machine :: net_state where
  "lo_machine = \<lparr>ethertype_handler_map = None, ipv4_handler_hashmap = None, arp_map = None, arp_lock = False,
     ping_packet = None, net_nics = [1 \<mapsto> lo_nic], net_sent = [], net_incoming = []\<rparr>"

text \<open>
  \<open>icmp_handle\<close> believes the length field of the packet. An echo request whose length field is larger
  than the packet that was received, or smaller than the 24 bytes the answer patches, makes it read or
  write outside its buffers, whatever else the packet holds.
\<close>

lemma icmp_handle_trusts_length:
  assumes "get8 p 20 = Done ICMP_ECHO_REQUEST" "get8 p 21 = Done 0" "get16 p 2 = Done len"
    "unat (ntohs len) > length p \<or> unat (ntohs len) < 24"
  shows "icmp_handle ops node p sz s = Fault OutOfBounds"
proof -
  have "22 \<le> length p" using assms(2) by (auto simp: get8_def array_get_def split: if_splits)
  then have "get8 (drop 20 p) 0 = Done ICMP_ECHO_REQUEST" "get8 (drop 20 p) 1 = Done 0"
    using assms(1,2) by (auto simp: get8_def array_get_def split: if_splits)
  then show ?thesis using icmp_handle_as_respond assms(3,4) by blast
qed


end
