(* ===== verification/Circbuf.thy ===== *)
theory Circbuf
  imports Spinlock
begin

text \<open>
  \<open>libkstructures/circbuf/circbuf.c\<close>: the byte ring behind pipes, sockets and keyboards. \<open>head\<close> and
  \<open>tail\<close> are ints, compared with the 64-bit size after sign extension.
\<close>

section \<open>Operations\<close>

record circbuf_t =
  cb_name :: string
  cb_lock :: bool
  cb_buffer :: "u8 list"
  cb_buffer_size :: u64
  cb_head :: cint
  cb_tail :: cint

definition circbuf_create :: "string \<Rightarrow> u64 \<Rightarrow> circbuf_t" where
  "circbuf_create name sz = \<lparr>cb_name = name, cb_lock = False, cb_buffer = replicate (unat sz) 0,
     cb_buffer_size = sz, cb_head = 0, cb_tail = 0\<rparr>"

text \<open>An index of \<open>circbuf->buffer\<close>: a negative one is before its start.\<close>

definition cb_index :: "cint \<Rightarrow> nat outcome" where
  "cb_index i = (if sint i < 0 then Fault OutOfBounds else Done (unat i))"

text \<open>\<^verbatim>\<open>i++; if ((size_t)i >= buffer_size) i = 0;\<close>\<close>

definition cb_advance :: "circbuf_t \<Rightarrow> cint \<Rightarrow> cint" where
  "cb_advance cb i = (if (scast (i + 1) :: u64) \<ge> cb_buffer_size cb then 0 else i + 1)"

text \<open>The loop of \<open>circbuf_read\<close>: the bytes stored into \<open>buffer\<close> and whether all were there.\<close>

primrec circbuf_read_loop :: "circbuf_t \<Rightarrow> nat \<Rightarrow> u8 list \<Rightarrow> (bool \<times> u8 list \<times> circbuf_t) outcome" where
  "circbuf_read_loop cb 0 out = Done (True, out, cb)"
| "circbuf_read_loop cb (Suc n) out =
     (if cb_tail cb = cb_head cb then Done (False, out, cb)
      else
        and_then (cb_index (cb_tail cb)) (\<lambda>i.
        and_then (array_get (cb_buffer cb) i) (\<lambda>b.
        circbuf_read_loop (cb\<lparr>cb_tail := cb_advance cb (cb_tail cb)\<rparr>) n (out @ [b]))))"

text \<open>
  The result is the return value (0 or 1), the bytes written to the caller's buffer, and the ring.
  A NULL ring is \<open>None\<close>; \<open>buf\<close> says whether the caller's buffer is not NULL.
\<close>

definition circbuf_read :: "circbuf_t option \<Rightarrow> nat \<Rightarrow> bool \<Rightarrow> (cint \<times> u8 list \<times> circbuf_t option) outcome" where
  "circbuf_read circbuf n buf = (case circbuf of
     None \<Rightarrow> Done (1, [], None)
   | Some cb \<Rightarrow>
       if \<not> buf then Done (1, [], Some cb)
       else
         and_then (lock_acquire (cb_lock cb)) (\<lambda>l.
         and_then (circbuf_read_loop (cb\<lparr>cb_lock := l\<rparr>) n []) (\<lambda>(all, out, cb').
         Done (if all then 0 else 1, out, Some (cb'\<lparr>cb_lock := lock_release (cb_lock cb')\<rparr>)))))"

primrec circbuf_write_loop :: "circbuf_t \<Rightarrow> u8 list \<Rightarrow> circbuf_t outcome" where
  "circbuf_write_loop cb [] = Done cb"
| "circbuf_write_loop cb (b # bs) =
     and_then (cb_index (cb_head cb)) (\<lambda>i.
     and_then (array_set (cb_buffer cb) i b) (\<lambda>buf.
     circbuf_write_loop (cb\<lparr>cb_buffer := buf, cb_head := cb_advance cb (cb_head cb)\<rparr>) bs))"

definition circbuf_write :: "circbuf_t option \<Rightarrow> u8 list option \<Rightarrow> (cint \<times> circbuf_t option) outcome" where
  "circbuf_write circbuf buffer = (case (circbuf, buffer) of
     (Some cb, Some bs) \<Rightarrow>
       and_then (lock_acquire (cb_lock cb)) (\<lambda>l.
       and_then (circbuf_write_loop (cb\<lparr>cb_lock := l\<rparr>) bs) (\<lambda>cb'.
       Done (0, Some (cb'\<lparr>cb_lock := lock_release (cb_lock cb')\<rparr>))))
   | _ \<Rightarrow> Done (1, circbuf))"

section \<open>Contents\<close>

text \<open>
  Rings whose positions fit an int. The unread bytes run from \<open>tail\<close> to \<open>head\<close>, around the end.
\<close>

definition cb_wf :: "circbuf_t \<Rightarrow> bool" where
  "cb_wf cb \<longleftrightarrow> 0 < unat (cb_buffer_size cb) \<and> unat (cb_buffer_size cb) < 2 ^ 31 \<and>
     length (cb_buffer cb) = unat (cb_buffer_size cb) \<and>
     unat (cb_head cb) < unat (cb_buffer_size cb) \<and> unat (cb_tail cb) < unat (cb_buffer_size cb)"

definition cb_used :: "circbuf_t \<Rightarrow> nat" where
  "cb_used cb = (unat (cb_head cb) + unat (cb_buffer_size cb) - unat (cb_tail cb)) mod unat (cb_buffer_size cb)"

definition cb_contents :: "circbuf_t \<Rightarrow> u8 list" where
  "cb_contents cb = map (\<lambda>i. cb_buffer cb ! ((unat (cb_tail cb) + i) mod unat (cb_buffer_size cb))) [0..<cb_used cb]"

lemma ring_mod: "a < 2 * N \<Longrightarrow> a mod N = (if a < N then a else a - (N :: nat))"
  by (simp add: mod_if)

lemma ring_used:
  assumes "h < N" "t < (N :: nat)"
  shows "(h + N - t) mod N = (if t \<le> h then h - t else h + N - t)"
  using assms ring_mod [of "h + N - t" N] by auto

lemma ring_step: "h < N \<Longrightarrow> Suc h mod N = (if Suc h < N then Suc h else (0 :: nat))"
  using ring_mod [of "Suc h" N] by auto

lemma ring_used_grow:
  assumes "h < N" "t < (N :: nat)" "Suc ((h + N - t) mod N) < N"
  shows "(Suc h mod N + N - t) mod N = Suc ((h + N - t) mod N)"
proof (cases "Suc h < N")
  case True
  then show ?thesis using assms by (simp only: ring_step ring_used if_True) (auto simp: ring_used)
next
  case False
  then have N: "N = Suc h" using assms(1) by simp
  with assms(2) have "t \<le> h" by simp
  then have u: "(h + N - t) mod N = h - t" using ring_used [OF assms(1,2)] by simp
  with assms(3) N have "0 < t" by simp
  with \<open>t \<le> h\<close> show ?thesis unfolding u by (simp add: N)
qed

lemma ring_used_shrink:
  assumes "h < N" "t < (N :: nat)" "0 < (h + N - t) mod N"
  shows "(h + N - Suc t mod N) mod N = (h + N - t) mod N - 1"
proof (cases "Suc t < N")
  case True
  have "h \<noteq> t" using assms(3) by auto
  with True assms show ?thesis by (simp only: ring_step ring_used if_True) (auto simp: ring_used)
next
  case False
  then have N: "N = Suc t" using assms(2) by simp
  have "h \<noteq> t" using assms(3) by auto
  with assms(1) N have "h < t" by simp
  then have "(h + N - t) mod N = Suc h" using ring_used [OF assms(1,2)] N by simp
  with \<open>h < t\<close> mod_add_self2 [of h "Suc t"] show ?thesis by (simp add: N)
qed

lemma cb_index_in: "unat i < 2 ^ 31 \<Longrightarrow> cb_index i = Done (unat i)"
  by (simp add: cb_index_def sint_unat_31)

lemma cb_advance_unat:
  assumes "cb_wf cb" "unat i < unat (cb_buffer_size cb)"
  shows "unat (cb_advance cb i) = Suc (unat i) mod unat (cb_buffer_size cb)"
proof -
  have "Suc (unat i) < 2 ^ 32" using assms by (simp add: cb_wf_def)
  then have s: "unat (i + 1) = Suc (unat i)" by (intro unat_add_one) simp
  have le: "unat (i + 1) \<le> unat (cb_buffer_size cb)" using assms s by simp
  then have "unat (i + 1) < 2 ^ 31" using assms(1) by (simp add: cb_wf_def)
  from scast_unat_31 [OF this] have u: "unat (scast (i + 1) :: u64) = Suc (unat i)" by (simp only: s)
  show ?thesis
  proof (cases "Suc (unat i) = unat (cb_buffer_size cb)")
    case True
    then have "cb_buffer_size cb \<le> (scast (i + 1) :: u64)" by (simp add: word_le_nat_alt u)
    with True show ?thesis by (simp add: cb_advance_def)
  next
    case False
    then have lt: "Suc (unat i) < unat (cb_buffer_size cb)" using assms(2) by simp
    then have "\<not> cb_buffer_size cb \<le> (scast (i + 1) :: u64)" by (simp add: word_le_nat_alt u)
    with lt s show ?thesis by (simp add: cb_advance_def)
  qed
qed

lemma cb_write_byte:
  fixes b :: u8
  assumes wf: "cb_wf cb" and room: "Suc (cb_used cb) < unat (cb_buffer_size cb)"
  defines "cb' \<equiv> cb\<lparr>cb_buffer := (cb_buffer cb)[unat (cb_head cb) := b], cb_head := cb_advance cb (cb_head cb)\<rparr>"
  shows "cb_wf cb'" "cb_used cb' = Suc (cb_used cb)" "cb_contents cb' = cb_contents cb @ [b]"
proof -
  let ?N = "unat (cb_buffer_size cb)" and ?h = "unat (cb_head cb)" and ?t = "unat (cb_tail cb)"
  have bounds: "?h < ?N" "?t < ?N" "length (cb_buffer cb) = ?N" using wf by (auto simp: cb_wf_def)
  have adv: "unat (cb_advance cb (cb_head cb)) = Suc ?h mod ?N" using wf bounds(1) by (rule cb_advance_unat)
  show "cb_wf cb'" using wf adv bounds by (simp add: cb_wf_def cb'_def)
  have used: "cb_used cb = (if ?t \<le> ?h then ?h - ?t else ?h + ?N - ?t)"
    using bounds ring_used by (simp add: cb_used_def)
  have "cb_used cb' = (Suc ?h mod ?N + ?N - ?t) mod ?N" using adv by (simp add: cb_used_def cb'_def)
  also have "\<dots> = Suc (cb_used cb)"
    using bounds(1,2) room unfolding cb_used_def by (rule ring_used_grow)
  finally show used': "cb_used cb' = Suc (cb_used cb)" .
  have at: "(?t + cb_used cb) mod ?N = ?h" using bounds used ring_mod [of "?t + cb_used cb" ?N] by auto
  have other: "(?t + i) mod ?N \<noteq> ?h" if "i < cb_used cb" for i
    using that bounds used ring_mod [of "?t + i" ?N] by (auto split: if_splits)
  have "cb_buffer cb' ! ((?t + i) mod ?N) = cb_buffer cb ! ((?t + i) mod ?N)" if "i < cb_used cb" for i
    using other [OF that] by (simp add: cb'_def)
  then have "map (\<lambda>i. cb_buffer cb' ! ((?t + i) mod ?N)) [0..<cb_used cb] = cb_contents cb"
    by (simp add: cb_contents_def)
  moreover have "cb_buffer cb' ! ((?t + cb_used cb) mod ?N) = b" using at bounds by (simp add: cb'_def)
  moreover have "cb_tail cb' = cb_tail cb" "cb_buffer_size cb' = cb_buffer_size cb" by (simp_all add: cb'_def)
  ultimately show "cb_contents cb' = cb_contents cb @ [b]" by (simp add: cb_contents_def [of cb'] used')
qed

lemma cb_read_byte:
  assumes wf: "cb_wf cb" and some: "cb_contents cb = b # bs"
  defines "cb' \<equiv> cb\<lparr>cb_tail := cb_advance cb (cb_tail cb)\<rparr>"
  shows "cb_wf cb'" "cb_contents cb' = bs" "cb_tail cb \<noteq> cb_head cb" "cb_buffer cb ! unat (cb_tail cb) = b"
proof -
  let ?N = "unat (cb_buffer_size cb)" and ?h = "unat (cb_head cb)" and ?t = "unat (cb_tail cb)"
  have bounds: "?h < ?N" "?t < ?N" "length (cb_buffer cb) = ?N" using wf by (auto simp: cb_wf_def)
  have adv: "unat (cb_advance cb (cb_tail cb)) = Suc ?t mod ?N" using wf bounds(2) by (rule cb_advance_unat)
  show "cb_wf cb'" using wf adv bounds by (simp add: cb_wf_def cb'_def)
  have used: "cb_used cb = (if ?t \<le> ?h then ?h - ?t else ?h + ?N - ?t)"
    using bounds ring_used by (simp add: cb_used_def)
  have pos: "0 < cb_used cb" using some by (cases "cb_used cb") (auto simp: cb_contents_def)
  then show "cb_tail cb \<noteq> cb_head cb" using used by auto
  have split: "[0..<cb_used cb] = 0 # map Suc [0..<cb_used cb - 1]"
    using pos by (metis Suc_pred' map_Suc_upt upt_conv_Cons)
  from some split have parts: "cb_buffer cb ! (?t mod ?N) = b"
    "map (\<lambda>i. cb_buffer cb ! ((?t + Suc i) mod ?N)) [0..<cb_used cb - 1] = bs"
    by (simp_all add: cb_contents_def o_def)
  then show "cb_buffer cb ! ?t = b" using bounds by simp
  have "cb_used cb' = (?h + ?N - Suc ?t mod ?N) mod ?N" using adv by (simp add: cb_used_def cb'_def)
  also have "\<dots> = cb_used cb - 1"
    using bounds(1,2) pos unfolding cb_used_def by (rule ring_used_shrink)
  finally have "cb_used cb' = cb_used cb - 1" .
  moreover have "(Suc ?t mod ?N + i) mod ?N = (?t + Suc i) mod ?N" for i by (simp add: mod_simps)
  ultimately show "cb_contents cb' = bs" using parts(2) adv by (simp add: cb_contents_def cb'_def)
qed

lemma length_cb_contents: "length (cb_contents cb) = cb_used cb"
  by (simp add: cb_contents_def)

lemma cb_write_loop_spec:
  "cb_wf cb \<Longrightarrow> cb_used cb + length bs < unat (cb_buffer_size cb) \<Longrightarrow>
   \<exists>cb'. circbuf_write_loop cb bs = Done cb' \<and> cb_wf cb' \<and> cb_contents cb' = cb_contents cb @ bs \<and>
         cb_buffer_size cb' = cb_buffer_size cb \<and> cb_lock cb' = cb_lock cb"
proof (induction bs arbitrary: cb)
  case Nil
  then show ?case by simp
next
  case (Cons b bs)
  let ?cb = "cb\<lparr>cb_buffer := (cb_buffer cb)[unat (cb_head cb) := b], cb_head := cb_advance cb (cb_head cb)\<rparr>"
  have bounds: "unat (cb_head cb) < length (cb_buffer cb)" "unat (cb_head cb) < 2 ^ 31"
    using Cons.prems(1) by (auto simp: cb_wf_def)
  note byte = cb_write_byte [OF Cons.prems(1), of b]
  have "circbuf_write_loop cb (b # bs) = circbuf_write_loop ?cb bs" using bounds by (simp add: cb_index_in)
  moreover from Cons.IH [of ?cb] Cons.prems byte obtain cb' where "circbuf_write_loop ?cb bs = Done cb'" "cb_wf cb'"
    "cb_contents cb' = (cb_contents cb @ [b]) @ bs" "cb_buffer_size cb' = cb_buffer_size cb" "cb_lock cb' = cb_lock cb"
    by auto
  ultimately show ?case by auto
qed

lemma cb_read_loop_spec:
  "cb_wf cb \<Longrightarrow> \<exists>cb'. circbuf_read_loop cb n out =
     Done (n \<le> length (cb_contents cb), out @ take n (cb_contents cb), cb') \<and> cb_wf cb' \<and>
     cb_contents cb' = drop n (cb_contents cb) \<and> cb_buffer_size cb' = cb_buffer_size cb \<and> cb_lock cb' = cb_lock cb"
proof (induction n arbitrary: cb out)
  case 0
  then show ?case by simp
next
  case (Suc n)
  show ?case
  proof (cases "cb_contents cb")
    case Nil
    then have "cb_used cb = 0" by (simp add: cb_contents_def)
    moreover have "unat (cb_head cb) < unat (cb_buffer_size cb)" "unat (cb_tail cb) < unat (cb_buffer_size cb)"
      using Suc.prems by (auto simp: cb_wf_def)
    ultimately have "unat (cb_head cb) = unat (cb_tail cb)"
      using ring_used [of "unat (cb_head cb)" "unat (cb_buffer_size cb)" "unat (cb_tail cb)"]
      by (auto simp: cb_used_def split: if_splits)
    then have "cb_tail cb = cb_head cb" by (simp add: word_unat_eq_iff)
    with Nil Suc.prems show ?thesis by simp
  next
    case (Cons b bs)
    let ?cb = "cb\<lparr>cb_tail := cb_advance cb (cb_tail cb)\<rparr>"
    note byte = cb_read_byte [OF Suc.prems Cons]
    have bounds: "unat (cb_tail cb) < length (cb_buffer cb)" "unat (cb_tail cb) < 2 ^ 31"
      using Suc.prems by (auto simp: cb_wf_def)
    have "circbuf_read_loop cb (Suc n) out = circbuf_read_loop ?cb n (out @ [b])"
      using bounds byte(3,4) by (simp add: cb_index_in)
    with Suc.IH [OF byte(1), of "out @ [b]"] byte(2) Cons show ?thesis by auto
  qed
qed

lemma cb_create_wf:
  "0 < unat sz \<Longrightarrow> unat sz < 2 ^ 31 \<Longrightarrow> cb_wf (circbuf_create name sz) \<and> cb_contents (circbuf_create name sz) = []"
  by (simp add: cb_wf_def circbuf_create_def cb_contents_def cb_used_def)

lemma cb_lock_irrelevant [simp]:
  "cb_wf (c\<lparr>cb_lock := l\<rparr>) = cb_wf c" "cb_contents (c\<lparr>cb_lock := l\<rparr>) = cb_contents c" "cb_used (c\<lparr>cb_lock := l\<rparr>) = cb_used c"
  by (simp_all add: cb_wf_def cb_contents_def cb_used_def)

lemma circbuf_write_spec:
  assumes "cb_wf cb" "\<not> cb_lock cb" "length (cb_contents cb) + length bs < unat (cb_buffer_size cb)"
  shows "\<exists>cb'. circbuf_write (Some cb) (Some bs) = Done (0, Some cb') \<and> cb_wf cb' \<and> \<not> cb_lock cb' \<and>
     cb_buffer_size cb' = cb_buffer_size cb \<and> cb_contents cb' = cb_contents cb @ bs"
proof -
  from cb_write_loop_spec [of "cb\<lparr>cb_lock := True\<rparr>" bs] assms obtain c where
    "circbuf_write_loop (cb\<lparr>cb_lock := True\<rparr>) bs = Done c" "cb_wf c" "cb_contents c = cb_contents cb @ bs" "cb_buffer_size c = cb_buffer_size cb"
    by (auto simp: length_cb_contents)
  then show ?thesis using assms(2) by (intro exI [of _ "c\<lparr>cb_lock := False\<rparr>"]) (simp add: circbuf_write_def)
qed

lemma circbuf_read_spec:
  assumes "cb_wf cb" "\<not> cb_lock cb"
  shows "\<exists>cb'. circbuf_read (Some cb) n True = Done (if n \<le> length (cb_contents cb) then 0 else 1, take n (cb_contents cb), Some cb') \<and>
     cb_wf cb' \<and> \<not> cb_lock cb' \<and> cb_buffer_size cb' = cb_buffer_size cb \<and> cb_contents cb' = drop n (cb_contents cb)"
proof -
  from cb_read_loop_spec [of "cb\<lparr>cb_lock := True\<rparr>" n "[]"] assms obtain c where
    "circbuf_read_loop (cb\<lparr>cb_lock := True\<rparr>) n [] = Done (n \<le> length (cb_contents cb), take n (cb_contents cb), c)"
    "cb_wf c" "cb_contents c = drop n (cb_contents cb)" "cb_buffer_size c = cb_buffer_size cb" by auto
  then show ?thesis using assms(2) by (intro exI [of _ "c\<lparr>cb_lock := False\<rparr>"]) (simp add: circbuf_read_def)
qed

section \<open>Properties\<close>

text \<open>
  C15: The ring is a bounded first-in first-out byte queue: while fewer bytes than its size are
  pending, \<open>circbuf_write\<close> appends its bytes to the unread contents and returns 0, and \<open>circbuf_read\<close>
  then returns the oldest bytes and removes them, with 0 exactly when there were enough; a short
  read has taken everything that was there.
\<close>

theorem circbuf_bounded_fifo:
  assumes "cb_wf cb" "\<not> cb_lock cb" "length (cb_contents cb) + length bs < unat (cb_buffer_size cb)"
  shows "\<exists>cb1 cb2. circbuf_write (Some cb) (Some bs) = Done (0, Some cb1) \<and> cb_wf cb1 \<and> \<not> cb_lock cb1 \<and>
           cb_contents cb1 = cb_contents cb @ bs \<and>
           circbuf_read (Some cb1) n True =
             Done (if n \<le> length (cb_contents cb @ bs) then 0 else 1, take n (cb_contents cb @ bs), Some cb2) \<and>
           cb_wf cb2 \<and> \<not> cb_lock cb2 \<and> cb_contents cb2 = drop n (cb_contents cb @ bs)"
proof -
  from circbuf_write_spec [OF assms] obtain cb1 where
    cb1: "circbuf_write (Some cb) (Some bs) = Done (0, Some cb1)" "cb_wf cb1" "\<not> cb_lock cb1" "cb_contents cb1 = cb_contents cb @ bs"
    by blast
  with circbuf_read_spec [OF cb1(2,3), of n] show ?thesis by auto
qed

theorem circbuf_bounded_fifo_witness:
  "\<exists>cb1 cb2. circbuf_write (Some (circbuf_create ''tty'' 4)) (Some [7, 8, 9]) = Done (0, Some cb1) \<and>
     circbuf_read (Some cb1) 2 True = Done (0, [7, 8], Some cb2) \<and> cb_contents cb2 = [9]"
proof -
  have wf: "cb_wf (circbuf_create ''tty'' 4)" and empty: "cb_contents (circbuf_create ''tty'' 4) = []"
    using cb_create_wf [of 4 "''tty''"] by simp_all
  have "\<not> cb_lock (circbuf_create ''tty'' 4)"
    "length (cb_contents (circbuf_create ''tty'' 4)) + length [7, 8, 9 :: u8] < unat (cb_buffer_size (circbuf_create ''tty'' 4))"
    unfolding empty by (simp_all add: circbuf_create_def)
  from circbuf_bounded_fifo [OF wf this, of 2] show ?thesis unfolding empty by auto
qed

end
