(* ===== verification/Periphfs.thy ===== *)
theory Periphfs
  imports Devices Circbuf Bytes
begin

text \<open>
  \<open>hexahedron/fs/periphfs.c\<close>: the ring of key events behind \<open>/device/keyboard\<close> and \<open>/device/stdin\<close>. The
  readers busy-wait for the keyboard interrupt. The interrupts are an argument: the events that arrive, one
  for each time that a reader finds the ring empty and waits; when they are used up, it waits for ever.
\<close>

section \<open>Events\<close>

text \<open>The structure takes 8 bytes. The three after the scancode are padding that nobody assigns.\<close>

record key_event_t =
  event_type :: cint
  scancode :: u8
  event_pad :: "u8 \<times> u8 \<times> u8"

definition EVENT_KEY_PRESS :: cint where "EVENT_KEY_PRESS = 0x01"

definition event_bytes :: "key_event_t \<Rightarrow> u8 list" where
  "event_bytes e = (case event_pad e of (x, y, z) \<Rightarrow> le32 (event_type e) @ [scancode e, x, y, z])"

definition event_of :: "u8 list \<Rightarrow> key_event_t" where
  "event_of b = \<lparr>event_type = of_le32 (take 4 b), scancode = b ! 4, event_pad = (b ! 5, b ! 6, b ! 7)\<rparr>"

abbreviation (input) EVENT_SIZE :: nat where "EVENT_SIZE \<equiv> 8"

section \<open>Operations\<close>

definition periphfs_sendKeyboardEvent :: "circbuf_t \<Rightarrow> key_event_t \<Rightarrow> circbuf_t outcome" where
  "periphfs_sendKeyboardEvent cb event =
     and_then (circbuf_write (Some cb) (Some (event_bytes event))) (\<lambda>(r, c).
     case c of Some cb' \<Rightarrow> Done cb' | None \<Rightarrow> Fault BadPointer)"

text \<open>\<^verbatim>\<open>while (buf->head == buf->tail) arch_pause();\<close>\<close>

fun wait_event :: "circbuf_t \<Rightarrow> key_event_t list \<Rightarrow> (circbuf_t \<times> key_event_t list) outcome" where
  "wait_event cb arr =
     (if cb_head cb \<noteq> cb_tail cb then Done (cb, arr)
      else case arr of
        [] \<Rightarrow> Hang
      | e # arr' \<Rightarrow> and_then (periphfs_sendKeyboardEvent cb e) (\<lambda>cb'. wait_event cb' arr'))"

declare wait_event.simps [simp del]

lemma wait_event_length: "wait_event cb arr = Done (cb', arr') \<Longrightarrow> cb_head cb = cb_tail cb \<Longrightarrow> length arr' < length arr"
proof (induction arr arbitrary: cb)
  case Nil
  then show ?case by (simp add: wait_event.simps)
next
  case (Cons e arr)
  then obtain c where c: "wait_event c arr = Done (cb', arr')" by (auto simp: wait_event.simps [of cb] outcome_iff)
  show ?case
  proof (cases "cb_head c = cb_tail c")
    case True
    then show ?thesis using Cons.IH [OF c] by simp
  next
    case False
    then show ?thesis using c by (simp add: wait_event.simps [of c])
  qed
qed

lemma read_loop_short: "circbuf_read_loop cb n out = Done (False, out', cb') \<Longrightarrow> cb_tail cb' = cb_head cb'"
  by (induction n arbitrary: cb out) (auto simp: outcome_iff split: if_splits)

lemma circbuf_read_short:
  "circbuf_read (Some cb) n True = Done (r, out, Some cb') \<Longrightarrow> r \<noteq> 0 \<Longrightarrow> cb_tail cb' = cb_head cb'"
  by (auto simp: circbuf_read_def outcome_iff dest!: read_loop_short split: if_splits)

text \<open>\<^verbatim>\<open>while (circbuf_read(buf, n, buffer)) { while (buf->head == buf->tail) arch_pause(); }\<close>\<close>

function read_waiting :: "nat \<Rightarrow> circbuf_t \<Rightarrow> key_event_t list \<Rightarrow> (u8 list \<times> circbuf_t \<times> key_event_t list) outcome" where
  "read_waiting n cb arr =
     and_then (circbuf_read (Some cb) n True) (\<lambda>(r, out, c).
     case c of
       None \<Rightarrow> Fault BadPointer
     | Some cb' \<Rightarrow>
         if r = 0 then Done (out, cb', arr)
         else and_then (wait_event cb' arr) (\<lambda>(cb'', arr'). read_waiting n cb'' arr'))"
  by pat_completeness auto
termination
  by (relation "measure (\<lambda>(n, cb, arr). length arr)") (auto dest!: circbuf_read_short wait_event_length)

declare read_waiting.simps [simp del]

definition keyboard_read :: "circbuf_t \<Rightarrow> key_event_t list \<Rightarrow> u64 \<Rightarrow> (u8 list \<times> u64 \<times> circbuf_t \<times> key_event_t list) outcome" where
  "keyboard_read cb arr sz =
     (if sz = 0 then Done ([], 0, cb, arr)
      else if unat sz mod EVENT_SIZE \<noteq> 0 then Done ([], 0, cb, arr)
      else and_then (read_waiting (unat sz) cb arr) (\<lambda>(out, cb', arr'). Done (out, sz, cb', arr')))"

text \<open>
  The inner loop of \<open>stdin_read\<close>, up to the next key press. Each round takes an event from the ring or the
  arrivals, so the rounds that \<open>stdin_read\<close> allows are never used up.
\<close>

primrec next_press :: "nat \<Rightarrow> circbuf_t \<Rightarrow> key_event_t list \<Rightarrow> (u8 \<times> circbuf_t \<times> key_event_t list) outcome" where
  "next_press 0 cb arr = Hang"
| "next_press (Suc rounds) cb arr =
     and_then (read_waiting EVENT_SIZE cb arr) (\<lambda>(b, cb', arr').
     if event_type (event_of b) \<noteq> EVENT_KEY_PRESS then next_press rounds cb' arr'
     else Done (scancode (event_of b), cb', arr'))"

primrec stdin_loop :: "nat \<Rightarrow> circbuf_t \<Rightarrow> key_event_t list \<Rightarrow> (u8 list \<times> circbuf_t \<times> key_event_t list) outcome" where
  "stdin_loop 0 cb arr = Done ([], cb, arr)"
| "stdin_loop (Suc n) cb arr =
     and_then (next_press (Suc (cb_used cb + length arr)) cb arr) (\<lambda>(c, cb', arr').
     and_then (stdin_loop n cb' arr') (\<lambda>(cs, cb'', arr''). Done (c # cs, cb'', arr'')))"

definition stdin_read :: "circbuf_t \<Rightarrow> key_event_t list \<Rightarrow> u64 \<Rightarrow> (u8 list \<times> u64 \<times> circbuf_t \<times> key_event_t list) outcome" where
  "stdin_read cb arr sz =
     (if sz = 0 then Done ([], 0, cb, arr)
      else and_then (stdin_loop (unat sz) cb arr) (\<lambda>(out, cb', arr'). Done (out, sz, cb', arr')))"

text \<open>The result of \<open>periphfs_init\<close>: the keyboard node, the node of stdin, the ring behind both, the file system.\<close>

abbreviation (input) KEYBOARD :: nat where "KEYBOARD \<equiv> 3"
abbreviation (input) STDIN :: nat where "STDIN \<equiv> 4"

definition periphfs_init :: "addr \<Rightarrow> vfs_state \<Rightarrow> (addr \<times> addr \<times> circbuf_t \<times> vfs_state) outcome" where
  "periphfs_init ring s =
     (let kbd_buffer = circbuf_create ''kbd buffer'' (of_nat EVENT_SIZE * 512) in
      and_then (mount_new s (fs_node_zero\<lparr>fn_name := ''keyboard'', fn_flags := VFS_CHARDEVICE, fn_dev := Dev ring,
                                         fn_read := M_driver KEYBOARD\<rparr>) ''/device/keyboard'') (\<lambda>(kbd_node, r, s1).
      and_then (mount_new s1 (fs_node_zero\<lparr>fn_name := ''stdin'', fn_flags := VFS_CHARDEVICE, fn_dev := Dev ring,
                                         fn_read := M_driver STDIN\<rparr>) ''/device/stdin'') (\<lambda>(stdin_node, r, s2).
      Done (kbd_node, stdin_node, kbd_buffer, s2))))"

section \<open>The ring as a queue of events\<close>

lemma length_event_bytes [simp]: "length (event_bytes e) = 8"
  by (simp add: event_bytes_def split: prod.splits)

lemma event_of_bytes [simp]: "event_of (event_bytes e) = e"
  by (cases e) (simp add: event_bytes_def event_of_def nth_append split: prod.splits)

definition ring_ok :: "circbuf_t \<Rightarrow> key_event_t list \<Rightarrow> bool" where
  "ring_ok cb es \<longleftrightarrow> cb_wf cb \<and> \<not> cb_lock cb \<and> cb_buffer_size cb = 4096 \<and> cb_contents cb = concat (map event_bytes es)"

lemma length_concat_events: "length (concat (map event_bytes es)) = 8 * length es"
  by (induction es) simp_all

lemma ring_ok_init: "ring_ok (circbuf_create ''kbd buffer'' (of_nat EVENT_SIZE * 512)) []"
  using cb_create_wf [of 4096 "''kbd buffer''"] by (simp add: ring_ok_def) (simp add: circbuf_create_def)

lemma cb_empty_iff:
  assumes "cb_wf cb"
  shows "cb_head cb = cb_tail cb \<longleftrightarrow> cb_contents cb = []"
proof
  assume "cb_contents cb = []"
  then obtain c where "circbuf_read_loop cb (Suc 0) [] = Done (False, [], c)" using cb_read_loop_spec [OF assms, of "Suc 0" "[]"] by auto
  then show "cb_head cb = cb_tail cb" by (cases "cb_tail cb = cb_head cb") (simp_all add: and_then_Done_iff)
next
  assume "cb_head cb = cb_tail cb"
  then show "cb_contents cb = []" by (simp add: cb_contents_def cb_used_def)
qed

lemma ring_send:
  assumes "ring_ok cb es" "length es < 511"
  shows "\<exists>cb'. periphfs_sendKeyboardEvent cb e = Done cb' \<and> ring_ok cb' (es @ [e])"
  using circbuf_write_spec [of cb "event_bytes e"] assms by (auto simp: ring_ok_def periphfs_sendKeyboardEvent_def length_concat_events)

lemma ring_empty: "ring_ok cb [] \<Longrightarrow> cb_head cb = cb_tail cb"
  by (simp add: ring_ok_def cb_empty_iff)

text \<open>Reading events: what the ring holds and what arrives later is one stream.\<close>

lemma ring_read_some:
  assumes "ring_ok cb es" "k \<le> length es"
  shows "\<exists>cb'. read_waiting (8 * k) cb arr = Done (concat (map event_bytes (take k es)), cb', arr) \<and> ring_ok cb' (drop k es)"
proof -
  have split: "concat (map event_bytes es) = concat (map event_bytes (take k es)) @ concat (map event_bytes (drop k es))"
    by (metis append_take_drop_id concat_append map_append)
  have len: "length (concat (map event_bytes (take k es))) = 8 * k" using assms(2) by (simp add: length_concat_events)
  from circbuf_read_spec [of cb "8 * k"] assms obtain cb' where
    "circbuf_read (Some cb) (8 * k) True = Done (0, concat (map event_bytes (take k es)), Some cb')" "ring_ok cb' (drop k es)"
    using split len by (auto simp: ring_ok_def length_concat_events)
  then show ?thesis by (simp add: read_waiting.simps [of "8 * k" cb])
qed

lemma ring_read_short:
  assumes "ring_ok cb es" "length es < k"
  shows "\<exists>cb'. ring_ok cb' [] \<and> read_waiting (8 * k) cb arr = (case arr of [] \<Rightarrow> Hang
     | e # arr' \<Rightarrow> and_then (periphfs_sendKeyboardEvent cb' e) (\<lambda>c. read_waiting (8 * k) c arr'))"
proof -
  from circbuf_read_spec [of cb "8 * k"] assms obtain r out cb' where
    r: "circbuf_read (Some cb) (8 * k) True = Done (1, out, Some cb')" "ring_ok cb' []"
    by (auto simp: ring_ok_def length_concat_events)
  have "wait_event c arr' = Done (c, arr')" if "periphfs_sendKeyboardEvent cb' e = Done c" for c e arr'
  proof -
    from ring_send [OF r(2), of e] that have "ring_ok c [e]" by auto
    then have "cb_contents c \<noteq> []" by (simp add: ring_ok_def) (metis length_event_bytes list.size(3) zero_neq_numeral)
    then have "cb_head c \<noteq> cb_tail c" using \<open>ring_ok c [e]\<close> by (simp add: cb_empty_iff ring_ok_def)
    then show ?thesis by (simp add: wait_event.simps [of c])
  qed
  then have "wait_event cb' arr = (case arr of [] \<Rightarrow> Hang | e # arr' \<Rightarrow> and_then (periphfs_sendKeyboardEvent cb' e) (\<lambda>c. Done (c, arr')))"
    by (auto simp: wait_event.simps [of cb'] ring_empty [OF r(2)] split: list.splits intro!: and_then_cong)
  then have "read_waiting (8 * k) cb arr = (case arr of [] \<Rightarrow> Hang
     | e # arr' \<Rightarrow> and_then (periphfs_sendKeyboardEvent cb' e) (\<lambda>c. read_waiting (8 * k) c arr'))"
    by (simp add: read_waiting.simps [of "8 * k" cb] r(1) split: list.splits)
  then show ?thesis using r(2) by blast
qed

lemma read_one_event:
  assumes "ring_ok cb es"
  shows "case es @ arr of [] \<Rightarrow> read_waiting EVENT_SIZE cb arr = Hang
     | e # rest \<Rightarrow> \<exists>cb' es' arr'. read_waiting EVENT_SIZE cb arr = Done (event_bytes e, cb', arr') \<and> ring_ok cb' es' \<and> es' @ arr' = rest"
proof (cases es)
  case (Cons e es')
  then show ?thesis using ring_read_some [OF assms, of 1 arr] by auto
next
  case Nil
  from ring_read_short [where k = 1, unfolded mult_1_right, OF assms, of arr] Nil obtain cb' where
    cb': "ring_ok cb' []" "read_waiting EVENT_SIZE cb arr = (case arr of [] \<Rightarrow> Hang
     | e # arr' \<Rightarrow> and_then (periphfs_sendKeyboardEvent cb' e) (\<lambda>c. read_waiting EVENT_SIZE c arr'))" by auto
  show ?thesis
  proof (cases arr)
    case (Cons e arr')
    from ring_send [OF cb'(1), of e] obtain c where c: "periphfs_sendKeyboardEvent cb' e = Done c" "ring_ok c [e]" by auto
    from ring_read_some [OF c(2), of 1 arr'] c(1) cb'(2) Cons Nil show ?thesis by auto
  qed (use cb'(2) Nil in simp)
qed

section \<open>Readers\<close>

abbreviation (input) is_press :: "key_event_t \<Rightarrow> bool" where
  "is_press e \<equiv> event_type e = EVENT_KEY_PRESS"

lemma next_press_spec:
  "ring_ok cb es \<Longrightarrow> length (es @ arr) < rounds \<Longrightarrow>
   case dropWhile (\<lambda>e. \<not> is_press e) (es @ arr) of
     [] \<Rightarrow> next_press rounds cb arr = Hang
   | e # rest \<Rightarrow> \<exists>cb' es' arr'. next_press rounds cb arr = Done (scancode e, cb', arr') \<and> ring_ok cb' es' \<and> es' @ arr' = rest"
proof (induction rounds arbitrary: cb es arr)
  case (Suc rounds)
  note one = read_one_event [OF Suc.prems(1), of arr]
  show ?case
  proof (cases "es @ arr")
    case Nil
    then show ?thesis using one by simp
  next
    case (Cons e rest)
    with one obtain cb' es' arr' where r: "read_waiting EVENT_SIZE cb arr = Done (event_bytes e, cb', arr')"
      "ring_ok cb' es'" "es' @ arr' = rest" by auto
    show ?thesis
    proof (cases "is_press e")
      case True
      then show ?thesis using Cons r by auto
    next
      case False
      have "length (es' @ arr') < rounds" using Suc.prems(2) Cons r(3) by simp
      have "next_press (Suc rounds) cb arr = next_press rounds cb' arr'" using r(1) False by simp
      moreover have "dropWhile (\<lambda>e. \<not> is_press e) (es @ arr) = dropWhile (\<lambda>e. \<not> is_press e) (es' @ arr')" using Cons r(3) False by simp
      ultimately show ?thesis using Suc.IH [OF r(2) \<open>length (es' @ arr') < rounds\<close>] by (simp only:)
    qed
  qed
qed simp

lemma filter_press_dropWhile: "filter is_press S = filter is_press (dropWhile (\<lambda>e. \<not> is_press e) S)"
  by (induction S) simp_all

lemma stdin_loop_spec:
  "ring_ok cb es \<Longrightarrow>
   if n \<le> length (filter is_press (es @ arr)) then
     \<exists>cb' es' arr'. stdin_loop n cb arr = Done (map scancode (take n (filter is_press (es @ arr))), cb', arr') \<and> ring_ok cb' es' \<and>
       filter is_press (es' @ arr') = drop n (filter is_press (es @ arr))
   else stdin_loop n cb arr = Hang"
proof (induction n arbitrary: cb es arr)
  case 0
  then show ?case by auto
next
  case (Suc n)
  have "cb_used cb = 8 * length es" using Suc.prems length_cb_contents [of cb] by (simp add: ring_ok_def length_concat_events)
  then have "length (es @ arr) < Suc (cb_used cb + length arr)" by simp
  note press = next_press_spec [OF Suc.prems this]
  show ?case
  proof (cases "dropWhile (\<lambda>e. \<not> is_press e) (es @ arr)")
    case Nil
    then have "filter is_press (es @ arr) = []" using filter_press_dropWhile [of "es @ arr"] by (simp del: filter_append)
    then show ?thesis using press Nil by simp
  next
    case (Cons e rest)
    then have p: "is_press e" using hd_dropWhile [of "\<lambda>e. \<not> is_press e" "es @ arr"] by simp
    have S: "filter is_press (es @ arr) = e # filter is_press rest"
      by (subst filter_press_dropWhile) (simp add: Cons p)
    from press Cons obtain cb' es' arr' where
      r: "next_press (Suc (cb_used cb + length arr)) cb arr = Done (scancode e, cb', arr')" "ring_ok cb' es'" "es' @ arr' = rest" by auto
    from Suc.IH [OF r(2), of arr'] show ?thesis unfolding r(3) S by (auto simp: r(1) simp del: filter_append next_press.simps) blast
  qed
qed

lemma read_several_starves:
  "ring_ok cb es \<Longrightarrow> length es < k \<Longrightarrow> 2 \<le> k \<Longrightarrow> read_waiting (8 * k) cb arr = Hang"
proof (induction arr arbitrary: cb es)
  case Nil
  then show ?case using ring_read_short [OF Nil.prems(1,2), of "[]"] by simp
next
  case (Cons e arr)
  from ring_read_short [OF Cons.prems(1,2), of "e # arr"] obtain cb' where
    cb': "ring_ok cb' []" "read_waiting (8 * k) cb (e # arr) = and_then (periphfs_sendKeyboardEvent cb' e) (\<lambda>c. read_waiting (8 * k) c arr)"
    by auto
  from ring_send [OF cb'(1), of e] obtain c where "periphfs_sendKeyboardEvent cb' e = Done c" "ring_ok c [e]" by auto
  then show ?case using cb'(2) Cons.IH [of c "[e]"] Cons.prems(3) by simp
qed

section \<open>Properties\<close>

text \<open> C30: \<open>stdin_read\<close> delivers the key presses. Taking the events in the ring and those that arrive while it
  waits as one stream, a read of \<open>n\<close> bytes returns the scancodes of the first \<open>n\<close> presses, in order, skips the
  other events, and leaves the presses after them; with fewer presses it waits for ever.\<close>

theorem stdin_read_delivers_presses:
  assumes "ring_ok cb es" "n \<noteq> 0"
  shows "if unat n \<le> length (filter is_press (es @ arr)) then
      \<exists>cb' es' arr'. stdin_read cb arr n = Done (map scancode (take (unat n) (filter is_press (es @ arr))), n, cb', arr') \<and>
        ring_ok cb' es' \<and> filter is_press (es' @ arr') = drop (unat n) (filter is_press (es @ arr))
    else stdin_read cb arr n = Hang"
  using stdin_loop_spec [OF assms(1), of "unat n" arr] assms(2)
  by (auto simp: stdin_read_def simp del: filter_append split: if_splits)

definition key :: "cint \<Rightarrow> u8 \<Rightarrow> key_event_t" where
  "key ty c = \<lparr>event_type = ty, scancode = c, event_pad = (0, 0, 0)\<rparr>"

theorem stdin_read_delivers_presses_witness:
  "\<exists>cb' arr'. stdin_read (circbuf_create ''kbd buffer'' 4096) [key 1 104, key 0 104, key 1 105] 2 = Done ([104, 105], 2, cb', arr')"
proof -
  have "ring_ok (circbuf_create ''kbd buffer'' 4096) []" using ring_ok_init by simp
  from stdin_read_delivers_presses [OF this, of 2 "[key 1 104, key 0 104, key 1 105]"] show ?thesis
    by (auto simp: key_def EVENT_KEY_PRESS_def)
qed

text \<open>
  A read of several events from \<open>/device/keyboard\<close> that are not all there already loses events and never
  ends: the part that was there is taken from the ring and dropped, and so is every event that ends the wait,
  because the loop starts again with the full size.
\<close>

lemma keyboard_read_starves:
  assumes "ring_ok cb es" "length es < k" "2 \<le> k" "k < 2 ^ 60"
  shows "keyboard_read cb arr (of_nat (8 * k)) = Hang"
proof -
  have "unat (of_nat (8 * k) :: u64) = 8 * k" by (rule unat_of_nat_less) (use assms(4) in simp)
  moreover from this have "(of_nat (8 * k) :: u64) \<noteq> 0" using assms(3) by (metis mult_eq_0_iff not_numeral_le_zero unat_0 zero_neq_numeral)
  ultimately show ?thesis using read_several_starves [OF assms(1-3), of arr] by (simp add: keyboard_read_def)
qed

end
