(* ===== verification/Nic.thy ===== *)
theory Nic
  imports Icmp Periphfs
begin

text \<open>
  \<open>hexahedron/drivers/net/nic.c\<close> and the installation of the loopback interface: the place where the network
  stack and the file system meet. The network node of an interface is a file node; \<open>net_nics\<close> has the
  \<open>nic_t\<close> behind its \<open>dev\<close> pointer, under the address of the node. \<open>nic_list\<close> is left out: it is created
  and nothing is ever entered in it.
\<close>

section \<open>Operations\<close>

record machine =
  mc_vfs :: vfs_state
  mc_net :: net_state
  net_ethernet_index :: cint
  net_wireless_index :: cint

definition NIC_TYPE_ETHERNET :: cint where "NIC_TYPE_ETHERNET = 0"
definition NIC_TYPE_WIRELESS :: cint where "NIC_TYPE_WIRELESS = 1"

text \<open>\<open>time\<close> is the value of \<open>now()\<close>.\<close>

definition nic_create :: "u64 \<Rightarrow> machine \<Rightarrow> string option \<Rightarrow> bytes option \<Rightarrow> cint \<Rightarrow> addr \<Rightarrow> (addr \<times> machine) outcome" where
  "nic_create time s name mac type driver = (case (name, mac) of
     (Some nm, Some m) \<Rightarrow>
       if sint type > sint NIC_TYPE_WIRELESS then Done (NULL, s)
       else if type = NIC_TYPE_WIRELESS then Done (NULL, s)
       else
         and_then (get_bytes m 0 6) (\<lambda>mac6.
         let node = vfs_brk (mc_vfs s);
             (a, v) = new_fs_node (mc_vfs s) (fs_node_zero\<lparr>fn_name := ''*BADNIC*'', fn_dev := Dev node, fn_ctime := time,
                                                          fn_flags := VFS_BLOCKDEVICE, fn_mask := 438\<rparr>);
             nic = \<lparr>nic_name = take 128 nm, nic_type = type, nic_mac = mac6, nic_driver = driver, nic_ipv4_address = 0,
                    nic_ipv4_subnet = 0, nic_ipv4_gateway = 0, nic_write = w_NULL\<rparr> in
         Done (a, s\<lparr>mc_vfs := v, mc_net := (mc_net s)\<lparr>net_nics := (net_nics (mc_net s))(a \<mapsto> nic)\<rparr>\<rparr>))
   | _ \<Rightarrow> Done (NULL, s))"

text \<open>The part of \<open>nic_register\<close> that chooses the name (None: the type is not valid).\<close>

definition nic_register_name :: "machine \<Rightarrow> cint \<Rightarrow> string option \<Rightarrow> (string \<times> machine) option outcome" where
  "nic_register_name s type interface_name = (case interface_name of
     Some nm \<Rightarrow> Done (Some (take 128 nm, s))
   | None \<Rightarrow>
       if type = NIC_TYPE_ETHERNET then
         and_then (print_name 256 128 ''eth%d'' [VInt (scast (net_ethernet_index s))]) (\<lambda>nm.
         Done (Some (nm, s\<lparr>net_ethernet_index := net_ethernet_index s + 1\<rparr>)))
       else if type = NIC_TYPE_WIRELESS then
         and_then (print_name 256 128 ''wifi%d'' [VInt (scast (net_wireless_index s))]) (\<lambda>nm.
         Done (Some (nm, s\<lparr>net_wireless_index := net_wireless_index s + 1\<rparr>)))
       else Done None)"

definition nic_register :: "machine \<Rightarrow> addr \<Rightarrow> string option \<Rightarrow> (cint \<times> machine) outcome" where
  "nic_register s nic_device interface_name =
     (if nic_device = NULL then Done (1, s)
      else
        and_then (fs_node_at (mc_vfs s) nic_device) (\<lambda>n.
        if fn_dev n = Dev_NULL then Done (1, s)
        else
          and_then (NIC (mc_net s) nic_device) (\<lambda>nic.
          and_then (nic_register_name s (nic_type nic) interface_name) (\<lambda>r.
          case r of
            None \<Rightarrow> Done (1, s)
          | Some (nm, s1) \<Rightarrow>
              and_then (set_fs_node (mc_vfs s1) nic_device (\<lambda>n. n\<lparr>fn_name := nm\<rparr>)) (\<lambda>v1.
              and_then (print_name 256 256 ''/device/%s'' [VStr (Some nm)]) (\<lambda>fullpath.
              and_then (vfs_mount v1 nic_device (Some fullpath)) (\<lambda>(tnode, v2).
              Done (if tnode = None then 1 else 0, s1\<lparr>mc_vfs := v2\<rparr>))))))))"

text \<open>\<open>NIC(node)\<close> changed.\<close>

definition set_NIC :: "machine \<Rightarrow> addr \<Rightarrow> (nic_t \<Rightarrow> nic_t) \<Rightarrow> machine outcome" where
  "set_NIC s node f = and_then (NIC (mc_net s) node) (\<lambda>nic.
     Done (s\<lparr>mc_net := (mc_net s)\<lparr>net_nics := (net_nics (mc_net s))(node \<mapsto> f nic)\<rparr>\<rparr>))"

abbreviation (input) LOOPBACK :: nat where "LOOPBACK \<equiv> 5"

text \<open>
  \<open>rodata\<close> is what the image has after the two address literals: \<open>inet_addr\<close> copies 17 bytes from where
  they start.
\<close>

definition loopback_install :: "u64 \<Rightarrow> mem \<Rightarrow> machine \<Rightarrow> machine outcome" where
  "loopback_install time rodata s =
     and_then (nic_create time s (Some ''loopback interface'') (Some (replicate 6 0)) NIC_TYPE_ETHERNET NULL) (\<lambda>(nic_node, s1).
     and_then (inet_addr (''127.0.0.1'' @ NUL # rodata) (Some 0)) (\<lambda>address.
     and_then (set_NIC s1 nic_node (\<lambda>n. n\<lparr>nic_ipv4_address := address\<rparr>)) (\<lambda>s2.
     and_then (inet_addr (''255.0.0.0'' @ NUL # rodata) (Some 0)) (\<lambda>subnet.
     and_then (set_NIC s2 nic_node (\<lambda>n. n\<lparr>nic_ipv4_subnet := subnet\<rparr>)) (\<lambda>s3.
     and_then (set_fs_node (mc_vfs s3) nic_node (\<lambda>n. n\<lparr>fn_write := M_driver LOOPBACK\<rparr>)) (\<lambda>v.
     and_then (set_NIC (s3\<lparr>mc_vfs := v\<rparr>) nic_node (\<lambda>n. n\<lparr>nic_write := w_loopback_write\<rparr>)) (\<lambda>s4.
     and_then (nic_register s4 nic_node (Some ''lo'')) (\<lambda>(r, s5). Done s5))))))))"

section \<open>The loopback interface in the file system\<close>

lemma lo_addresses:
  assumes "16 \<le> length rodata"
  shows "inet_addr (''127.0.0.1'' @ NUL # rodata) (Some 0) = Done 0x0100007F"
    "inet_addr (''255.0.0.0'' @ NUL # rodata) (Some 0) = Done 0x000000FF"
proof -
  have d: "dotted 0x7F000001 = ''127.0.0.1''" "dotted 0xFF000000 = ''255.0.0.0''" by code_simp+
  have h: "htonl 0x7F000001 = 0x0100007F" "htonl 0xFF000000 = 0x000000FF" by code_simp+
  have c: "cstr_at (''127.0.0.1'' @ NUL # rodata) 0 (dotted 0x7F000001)" "cstr_at (''255.0.0.0'' @ NUL # rodata) 0 (dotted 0xFF000000)"
    unfolding d by (simp_all add: cstr_at_def)
  show "inet_addr (''127.0.0.1'' @ NUL # rodata) (Some 0) = Done 0x0100007F"
    using inet_addr_dotted [OF c(1)] assms by (simp add: h)
  show "inet_addr (''255.0.0.0'' @ NUL # rodata) (Some 0) = Done 0x000000FF"
    using inet_addr_dotted [OF c(2)] assms by (simp add: h)
qed

definition lo_node :: "u64 \<Rightarrow> addr \<Rightarrow> fs_node_t" where
  "lo_node time lo = fs_node_zero\<lparr>fn_name := ''lo'', fn_dev := Dev lo, fn_ctime := time, fn_flags := VFS_BLOCKDEVICE,
     fn_mask := 438, fn_write := M_driver LOOPBACK\<rparr>"

lemma lo_path: "path_ok [''device'', ''lo'']" "path_of [''device'', ''lo''] = ''/device/lo''"
  by (auto simp: path_ok_def component_def path_of_def)

lemma print_lo_path: "print_name 256 256 ''/device/%s'' [VStr (Some ''lo'')] = Done ''/device/lo''"
  by (rule print_name_spec) (simp_all add: xvasprintf_def print_formats del: xvasprintf_loop.simps(2))

lemma machine_update_order:
  "(v :: vfs_state)\<lparr>vfs_brk := b, vfs_nodes := n\<rparr> = v\<lparr>vfs_nodes := n, vfs_brk := b\<rparr>"
  "(s :: machine)\<lparr>mc_net := m, mc_vfs := v\<rparr> = s\<lparr>mc_vfs := v, mc_net := m\<rparr>"
  by simp_all

lemma loopback_install_spec:
  assumes "vfs_ok (mc_vfs s)" "16 \<le> length rodata"
  defines "lo \<equiv> vfs_brk (mc_vfs s)"
  shows "\<exists>v. loopback_install time rodata s =
       Done (s\<lparr>mc_vfs := v, mc_net := (mc_net s)\<lparr>net_nics := (net_nics (mc_net s))(lo \<mapsto> lo_nic)\<rparr>\<rparr>) \<and> vfs_ok v \<and>
     kopen ops v (Some ''/device/lo'') flags =
       Done (vfs_brk v, v\<lparr>vfs_nodes := (vfs_nodes v)(vfs_brk v \<mapsto> (lo_node time lo)\<lparr>fn_refcount := 1\<rparr>), vfs_brk := vfs_brk v + 1\<rparr>)"
proof -
  have "\<forall>k. fn_open (lo_node time lo) \<noteq> M_driver k" "fn_refcount (lo_node time lo) = 0" by (simp_all add: lo_node_def fs_node_zero_def)
  from mount_new_kopen [OF assms(1) lo_path(1) this(1), of ops flags] this(2) obtain v where
    v: "mount_new (mc_vfs s) (lo_node time lo) ''/device/lo'' = Done (lo, Some [''device'', ''lo''], v)" "vfs_ok v"
      "kopen ops v (Some ''/device/lo'') flags =
       Done (vfs_brk v, v\<lparr>vfs_nodes := (vfs_nodes v)(vfs_brk v \<mapsto> (lo_node time lo)\<lparr>fn_refcount := 1\<rparr>), vfs_brk := vfs_brk v + 1\<rparr>)"
    unfolding lo_path(2) by (auto simp: lo_def)
  have "lo \<noteq> NULL" using assms(1) by (simp add: lo_def vfs_ok_def nodes_ok_def)
  moreover have "vfs_mount ((mc_vfs s)\<lparr>vfs_nodes := (vfs_nodes (mc_vfs s))(lo \<mapsto> lo_node time lo), vfs_brk := lo + 1\<rparr>) lo (Some ''/device/lo'') =
      Done (Some [''device'', ''lo''], v)"
    using v(1) by (simp add: mount_new_def new_fs_node_def lo_def outcome_iff split_def)
  ultimately have "loopback_install time rodata s =
       Done (s\<lparr>mc_vfs := v, mc_net := (mc_net s)\<lparr>net_nics := (net_nics (mc_net s))(lo \<mapsto> lo_nic)\<rparr>\<rparr>)"
    unfolding loopback_install_def lo_addresses [OF assms(2)]
    by (simp add: nic_create_def nic_register_def nic_register_name_def set_NIC_def NIC_def get_bytes_def Let_def
        NIC_TYPE_ETHERNET_def NIC_TYPE_WIRELESS_def new_fs_node_def set_fs_node_def fs_node_at_def
        print_lo_path lo_def [symmetric] lo_nic_def lo_node_def fs_node_zero_def machine_update_order)
  then show ?thesis using v(2,3) by blast
qed

end
