(* ===== verification/Libc_Strstr.thy ===== *)
theory Libc_Strstr
  imports Libc_String
begin

text \<open>
  \<open>libpolyhedron/string/strstr.c\<close>: substring search. Needles of up to four bytes are compared as one
  machine word that rolls over the haystack, which is shown to find the first occurrence; longer needles go
  to the two-way algorithm, which is translated and run on examples. Pointers are addresses in one memory.
\<close>

section \<open>Rolling words\<close>

definition ubyte :: "char \<Rightarrow> 'w::len word" where
  "ubyte c = of_nat (of_char c)"

text \<open>
  The loops \<^verbatim>\<open>for (...; *h && hw != nw; hw = ...++h)\<close>: the last pointer, or None when it is at the terminator.
\<close>

function strstr_roll :: "('w \<Rightarrow> char \<Rightarrow> 'w) \<Rightarrow> mem \<Rightarrow> nat \<Rightarrow> 'w \<Rightarrow> 'w \<Rightarrow> nat option outcome" where
  "strstr_roll step m h hw nw =
     and_then (array_get m h) (\<lambda>c.
     if c \<noteq> NUL \<and> hw \<noteq> nw then and_then (array_get m (h + 1)) (\<lambda>d. strstr_roll step m (h + 1) (step hw d) nw)
     else Done (if c \<noteq> NUL then Some h else None))"
  by pat_completeness auto
termination by (relation "measure (\<lambda>(f, m, h, v, w). length m - h)") (auto simp: outcome_iff)

declare strstr_roll.simps [simp del]

definition pack_2b :: "char list \<Rightarrow> u16" where
  "pack_2b w = push_bit 8 (ubyte (w ! 0)) OR ubyte (w ! 1)"

definition pack_3b :: "char list \<Rightarrow> u32" where
  "pack_3b w = push_bit 24 (ubyte (w ! 0)) OR push_bit 16 (ubyte (w ! 1)) OR push_bit 8 (ubyte (w ! 2))"

definition pack_4b :: "char list \<Rightarrow> u32" where
  "pack_4b w = push_bit 24 (ubyte (w ! 0)) OR push_bit 16 (ubyte (w ! 1)) OR push_bit 8 (ubyte (w ! 2)) OR ubyte (w ! 3)"

definition strstr_2b :: "mem \<Rightarrow> nat \<Rightarrow> nat \<Rightarrow> nat option outcome" where
  "strstr_2b m h n =
     and_then (load_bytes m n 2) (\<lambda>nb. and_then (load_bytes m h 2) (\<lambda>hb.
     and_then (strstr_roll (\<lambda>hw c. push_bit 8 hw OR ubyte c) m (h + 1) (pack_2b hb) (pack_2b nb)) (\<lambda>r.
     Done (map_option (\<lambda>h'. h' - 1) r))))"

definition strstr_3b :: "mem \<Rightarrow> nat \<Rightarrow> nat \<Rightarrow> nat option outcome" where
  "strstr_3b m h n =
     and_then (load_bytes m n 3) (\<lambda>nb. and_then (load_bytes m h 3) (\<lambda>hb.
     and_then (strstr_roll (\<lambda>hw c. push_bit 8 (hw OR ubyte c)) m (h + 2) (pack_3b hb) (pack_3b nb)) (\<lambda>r.
     Done (map_option (\<lambda>h'. h' - 2) r))))"

definition strstr_4b :: "mem \<Rightarrow> nat \<Rightarrow> nat \<Rightarrow> nat option outcome" where
  "strstr_4b m h n =
     and_then (load_bytes m n 4) (\<lambda>nb. and_then (load_bytes m h 4) (\<lambda>hb.
     and_then (strstr_roll (\<lambda>hw c. push_bit 8 hw OR ubyte c) m (h + 3) (pack_4b hb) (pack_4b nb)) (\<lambda>r.
     Done (map_option (\<lambda>h'. h' - 3) r))))"

section \<open>Finding a byte\<close>

definition ONES :: u64 where "ONES = 0x0101010101010101"
definition HIGHS :: u64 where "HIGHS = 0x8080808080808080"

definition HASZERO :: "u64 \<Rightarrow> bool" where
  "HASZERO X \<longleftrightarrow> (X - ONES) AND NOT X AND HIGHS \<noteq> 0"

text \<open>A 64-bit load of the little-endian machine.\<close>

definition load_word :: "mem \<Rightarrow> nat \<Rightarrow> u64 outcome" where
  "load_word m p = and_then (load_bytes m p 8) (\<lambda>bs. Done (foldr (\<lambda>c w. push_bit 8 w OR ubyte c) bs 0))"

fun memchr_bytes :: "bool \<Rightarrow> mem \<Rightarrow> char \<Rightarrow> nat \<Rightarrow> nat \<Rightarrow> (nat \<times> nat) outcome" where
  "memchr_bytes align m c s n =
     (if align \<and> s mod 8 = 0 then Done (s, n)
      else case n of
        0 \<Rightarrow> Done (s, 0)
      | Suc n' \<Rightarrow> and_then (array_get m s) (\<lambda>x. if x = c then Done (s, n) else memchr_bytes align m c (s + 1) n'))"

declare memchr_bytes.simps [simp del]

function memchr_words :: "mem \<Rightarrow> u64 \<Rightarrow> nat \<Rightarrow> nat \<Rightarrow> (nat \<times> nat) outcome" where
  "memchr_words m k w n =
     (if n < 8 then Done (w, n)
      else and_then (load_word m w) (\<lambda>x. if HASZERO (x XOR k) then Done (w, n) else memchr_words m k (w + 8) (n - 8)))"
  by pat_completeness auto
termination by (relation "measure (\<lambda>(m, k, w, n). n)") auto

declare memchr_words.simps [simp del]

definition memchr :: "mem \<Rightarrow> nat \<Rightarrow> char \<Rightarrow> nat \<Rightarrow> nat option outcome" where
  "memchr m src c n =
     and_then (memchr_bytes True m c src n) (\<lambda>(s1, n1).
     and_then (if n1 = 0 then Done False else and_then (array_get m s1) (\<lambda>x. Done (x \<noteq> c))) (\<lambda>go.
     and_then (if go then and_then (memchr_words m (ONES * ubyte c) s1 n1) (\<lambda>(w, n2). memchr_bytes False m c w n2)
               else Done (s1, n1)) (\<lambda>(s3, n3).
     Done (if n3 \<noteq> 0 then Some s3 else None))))"

section \<open>The two-way algorithm\<close>

text \<open>The first loop: the length of the needle, its byte set and the shift table (None: not initialised).\<close>

function tw_table ::
    "mem \<Rightarrow> nat \<Rightarrow> nat \<Rightarrow> nat \<Rightarrow> u64 list \<Rightarrow> (char \<Rightarrow> nat option) \<Rightarrow> (nat \<times> u64 list \<times> (char \<Rightarrow> nat option)) outcome" where
  "tw_table m h n l bs sh =
     and_then (array_get m (n + l)) (\<lambda>x.
     if x = NUL then Done (l, bs, sh)
     else
       and_then (array_get m (h + l)) (\<lambda>y.
       if y = NUL then Done (l, bs, sh) else tw_table m h n (l + 1) (byteset_add bs x) (sh(x := Some (l + 1)))))"
  by pat_completeness auto
termination by (relation "measure (\<lambda>(m, h, n, l, bs, sh). length m - (n + l))") (auto simp: outcome_iff)

declare tw_table.simps [simp del]

text \<open>
  The maximal suffix of the needle for one of the two orders: \<open>ip\<close> starts at -1, which is the largest
  \<open>size_t\<close>. \<open>ip + jp + k\<close> grows with every round and stays below three times the length, so that many rounds
  are enough.
\<close>

primrec tw_suffix :: "nat \<Rightarrow> (char \<Rightarrow> char \<Rightarrow> bool) \<Rightarrow> mem \<Rightarrow> nat \<Rightarrow> nat \<Rightarrow> int \<Rightarrow> int \<Rightarrow> int \<Rightarrow> int \<Rightarrow> (int \<times> int) outcome" where
  "tw_suffix 0 before m n l ip jp k p = Hang"
| "tw_suffix (Suc fuel) before m n l ip jp k p =
     (if int l \<le> jp + k then Done (ip, p)
      else
        and_then (array_get m (n + nat (ip + k))) (\<lambda>a.
        and_then (array_get m (n + nat (jp + k))) (\<lambda>b.
        if a = b then
          (if k = p then tw_suffix fuel before m n l ip (jp + p) 1 p else tw_suffix fuel before m n l ip jp (k + 1) p)
        else if before b a then tw_suffix fuel before m n l ip (jp + k) 1 (jp + k - ip)
        else tw_suffix fuel before m n l jp (jp + 1) 1 1)))"

definition tw_rounds :: "nat \<Rightarrow> nat" where
  "tw_rounds l = 3 * l + 3"

text \<open>The critical position \<open>ms\<close>, the period \<open>p\<close> and \<open>mem0\<close>.\<close>

definition tw_factor :: "mem \<Rightarrow> nat \<Rightarrow> nat \<Rightarrow> (int \<times> nat \<times> nat) outcome" where
  "tw_factor m n l =
     and_then (tw_suffix (tw_rounds l) (\<lambda>b a. uchar b < uchar a) m n l (- 1) 0 1 1) (\<lambda>(ms0, p0).
     and_then (tw_suffix (tw_rounds l) (\<lambda>b a. uchar a < uchar b) m n l (- 1) 0 1 1) (\<lambda>(ip, p1).
     let (ms, p) = (if ip + 1 > ms0 + 1 then (ip, p1) else (ms0, p0)) in
     and_then (memcmp m n (n + nat p) (nat (ms + 1))) (\<lambda>r.
     if r \<noteq> 0 then Done (ms, nat (max ms (int l - ms - 1) + 1), 0)
     else Done (ms, nat p, l - nat p))))"

text \<open>The two comparisons: from \<open>k\<close> up to the end of the needle, and from \<open>k\<close> down to \<open>mem\<close>.\<close>

function tw_right :: "mem \<Rightarrow> nat \<Rightarrow> nat \<Rightarrow> nat \<Rightarrow> (bool \<times> nat) outcome" where
  "tw_right m h n k =
     and_then (array_get m (n + k)) (\<lambda>a.
     if a = NUL then Done (True, k)
     else and_then (array_get m (h + k)) (\<lambda>b. if a = b then tw_right m h n (k + 1) else Done (False, k)))"
  by pat_completeness auto
termination by (relation "measure (\<lambda>(m, h, n, k). length m - (n + k))") (auto simp: outcome_iff)

declare tw_right.simps [simp del]

fun tw_left :: "mem \<Rightarrow> nat \<Rightarrow> nat \<Rightarrow> nat \<Rightarrow> nat \<Rightarrow> nat outcome" where
  "tw_left m h n low 0 = Done 0"
| "tw_left m h n low (Suc k) =
     (if low < Suc k then
        and_then (array_get m (n + k)) (\<lambda>a. and_then (array_get m (h + k)) (\<lambda>b.
        if a = b then tw_left m h n low k else Done (Suc k)))
      else Done (Suc k))"

text \<open>
  The search loop. Every round moves \<open>h\<close> forward, and \<open>h[l-1]\<close> is read in each, so the length of the memory
  bounds the rounds. \<open>z\<close> is the pointer up to which the haystack is known not to end; None is the return of 0.
\<close>

definition tw_grow :: "mem \<Rightarrow> nat \<Rightarrow> nat \<Rightarrow> nat \<Rightarrow> nat option outcome" where
  "tw_grow m h z l =
     (if h \<le> z \<and> z - h < l then
        and_then (memchr m z NUL (l OR 63)) (\<lambda>z2.
        case z2 of
          Some z' \<Rightarrow> Done (if h \<le> z' \<and> z' - h < l then None else Some z')
        | None \<Rightarrow> Done (Some (z + (l OR 63))))
      else Done (Some z))"

primrec tw_search ::
    "nat \<Rightarrow> mem \<Rightarrow> nat \<Rightarrow> nat \<Rightarrow> u64 list \<Rightarrow> (char \<Rightarrow> nat option) \<Rightarrow> int \<Rightarrow> nat \<Rightarrow> nat \<Rightarrow> nat \<Rightarrow> nat \<Rightarrow> nat \<Rightarrow> nat option outcome" where
  "tw_search 0 m n l bs sh ms p mem0 h z mem = Hang"
| "tw_search (Suc fuel) m n l bs sh ms p mem0 h z mem =
     and_then (tw_grow m h z l) (\<lambda>g.
     case g of
       None \<Rightarrow> Done None
     | Some z' \<Rightarrow>
         and_then (array_get m (h + l - 1)) (\<lambda>x.
         if \<not> byteset_has bs x then tw_search fuel m n l bs sh ms p mem0 (h + l) z' 0
         else (case sh x of
           None \<Rightarrow> Fault OutOfBounds
         | Some sx \<Rightarrow>
             let k = l - sx in
             if k \<noteq> 0 then
               tw_search fuel m n l bs sh ms p mem0 (h + (if mem0 \<noteq> 0 \<and> mem \<noteq> 0 \<and> k < p then l - p else k)) z' 0
             else
               and_then (tw_right m h n (max (nat (ms + 1)) mem)) (\<lambda>(matched, k1).
               if \<not> matched then tw_search fuel m n l bs sh ms p mem0 (h + nat (int k1 - ms)) z' 0
               else
                 and_then (tw_left m h n mem (nat (ms + 1))) (\<lambda>k2.
                 if k2 \<le> mem then Done (Some h) else tw_search fuel m n l bs sh ms p mem0 (h + p) z' mem0)))))"

definition strstr_twoway :: "mem \<Rightarrow> nat \<Rightarrow> nat \<Rightarrow> nat option outcome" where
  "strstr_twoway m h n =
     and_then (tw_table m h n 0 (replicate 4 0) (\<lambda>c. None)) (\<lambda>(l, bs, sh).
     and_then (array_get m (n + l)) (\<lambda>x.
     if x \<noteq> NUL then Done None
     else
       and_then (tw_factor m n l) (\<lambda>(ms, p, mem0).
       tw_search (Suc (length m)) m n l bs sh ms p mem0 h h 0)))"

section \<open>The entry\<close>

definition strstr :: "mem \<Rightarrow> nat \<Rightarrow> nat \<Rightarrow> nat option outcome" where
  "strstr m h n =
     and_then (array_get m n) (\<lambda>n0.
     if n0 = NUL then Done (Some h)
     else
       and_then (strchr m h (schar n0)) (\<lambda>r.
       case r of
         None \<Rightarrow> Done None
       | Some h' \<Rightarrow>
           and_then (array_get m (n + 1)) (\<lambda>n1. if n1 = NUL then Done (Some h') else
           and_then (array_get m (h' + 1)) (\<lambda>h1. if h1 = NUL then Done None else
           and_then (array_get m (n + 2)) (\<lambda>n2. if n2 = NUL then strstr_2b m h' n else
           and_then (array_get m (h' + 2)) (\<lambda>h2. if h2 = NUL then Done None else
           and_then (array_get m (n + 3)) (\<lambda>n3. if n3 = NUL then strstr_3b m h' n else
           and_then (array_get m (h' + 3)) (\<lambda>h3. if h3 = NUL then Done None else
           and_then (array_get m (n + 4)) (\<lambda>n4. if n4 = NUL then strstr_4b m h' n else
           strstr_twoway m h' n)))))))))"

section \<open>Rolling words find the first occurrence\<close>

fun find_sub :: "string \<Rightarrow> string \<Rightarrow> nat option" where
  "find_sub n [] = (if n = [] then Some 0 else None)"
| "find_sub n (c # s) = (if take (length n) (c # s) = n then Some 0 else map_option Suc (find_sub n s))"

text \<open>
  A word that holds a window of \<open>k\<close> bytes: different windows give different words, and a step shifts the next
  byte in and the first one out.
\<close>

locale rolling_word =
  fixes k :: nat and pack :: "char list \<Rightarrow> 'w" and step :: "'w \<Rightarrow> char \<Rightarrow> 'w"
  assumes width: "0 < k"
    and pack_inj: "length u = k \<Longrightarrow> length v = k \<Longrightarrow> pack u = pack v \<Longrightarrow> u = v"
    and step_pack: "length u = k \<Longrightarrow> step (pack u) c = pack (tl u @ [c])"
begin

lemma roll_end:
  assumes "cstr_at m p []"
  shows "strstr_roll step m p hw nw = Done None"
  using assms by (simp add: cstr_at_simps strstr_roll.simps [of step m p])

lemma roll_finds:
  assumes "cstr_at m p s" "length w = k" "length n = k" "NUL \<notin> set n"
  shows "s \<noteq> [] \<Longrightarrow> last w = hd s \<Longrightarrow>
    strstr_roll step m p (pack w) (pack n) = Done (map_option (\<lambda>i. p + i) (find_sub n (w @ tl s)))"
  using assms
proof (induction s arbitrary: p w)
  case Nil
  then show ?case by simp
next
  case (Cons c s)
  then have p: "p < length m" "m ! p = c" "c \<noteq> NUL" "cstr_at m (Suc p) s" by (auto simp: cstr_at_simps)
  have w: "w = hd w # tl w" using Cons.prems(4) width by (cases w) auto
  have take: "take (length n) (w @ s) = w" using Cons.prems(4,5) by simp
  show ?case
  proof (cases "w = n")
    case True
    have "find_sub n (w @ s) = Some 0" using take True w by (metis append_Cons find_sub.simps(2))
    then show ?thesis using True p by (simp add: strstr_roll.simps [of step m p])
  next
    case False
    then have ne: "pack w \<noteq> pack n" using pack_inj Cons.prems(4,5) by blast
    have q: "Suc p < length m" using p(4) by (cases s) (auto simp: cstr_at_simps)
    define d where "d = m ! Suc p"
    have go: "strstr_roll step m p (pack w) (pack n) = strstr_roll step m (Suc p) (pack (tl w @ [d])) (pack n)"
      using p ne q step_pack [OF Cons.prems(4)] by (simp add: strstr_roll.simps [of step m p] d_def)
    have sub: "find_sub n (w @ s) = map_option Suc (find_sub n (tl w @ s))"
      using take False w Cons.prems(4,5) by (metis append_Cons find_sub.simps(2))
    have len: "length (tl w @ [d]) = k" using Cons.prems(4) width by simp
    show ?thesis
    proof (cases s)
      case Nil
      have "length (tl w) < length n" using Cons.prems(4,5) width by simp
      then have "find_sub n (tl w) = None"
      proof (induction "tl w" arbitrary: w)
        case Nil
        then show ?case by (auto split: if_splits) 
      next
        case (Cons x xs)
        then show ?case by (metis (no_types, lifting) Suc_lessD find_sub.simps(2) length_Cons list.sel(3) map_option_is_None nat_less_le take_all linorder_le_cases)
      qed
      then show ?thesis using go sub roll_end p(4) Nil by simp
    next
      case (Cons e s')
      have "d = e" using p(4) Cons by (simp add: cstr_at_simps d_def)
      moreover have "strstr_roll step m (Suc p) (pack (tl w @ [d])) (pack n)
          = Done (map_option (\<lambda>i. Suc p + i) (find_sub n ((tl w @ [d]) @ tl s)))"
        by (rule Cons.IH) (use Cons len p(4) Cons.prems \<open>d = e\<close> in auto)
      ultimately show ?thesis using go sub Cons by (simp add: option.map_comp comp_def)
    qed
  qed
qed

end


text \<open>The bits of the packed words.\<close>

definition cbit :: "char \<Rightarrow> nat \<Rightarrow> bool" where
  "cbit c i \<longleftrightarrow> bit (of_char c :: nat) i"

lemma cbit_high: "8 \<le> i \<Longrightarrow> \<not> cbit c i"
proof -
  assume i: "8 \<le> i"
  have "(of_char c :: nat) < 2 ^ 8" by (simp add: nat_of_char_less_256)
  also have "(2 :: nat) ^ 8 \<le> 2 ^ i" using i by (intro power_increasing) auto
  finally show ?thesis by (simp add: cbit_def bit_iff_odd)
qed

lemma char_eq_bits:
  assumes "\<And>i. i < 8 \<Longrightarrow> cbit c i = cbit d i"
  shows "c = d"
proof -
  have "cbit c i = cbit d i" for i using assms [of i] cbit_high [of i] by (cases "i < 8") auto
  then have "(of_char c :: nat) = of_char d" by (intro bit_eqI) (simp add: cbit_def)
  then show ?thesis by simp
qed

lemma bit_ubyte: "bit (ubyte c :: 'w::len word) i \<longleftrightarrow> i < LENGTH('w) \<and> cbit c i"
  unfolding ubyte_def cbit_def by transfer (simp add: bit_take_bit_iff bit_of_nat_iff_bit)

lemma bit_byte:
  assumes "j + 8 \<le> LENGTH('w)"
  shows "bit (push_bit j (ubyte c) :: 'w::len word) i \<longleftrightarrow> j \<le> i \<and> cbit c (i - j)"
  using assms cbit_high [of "i - j" c] by (cases "i < j + 8") (auto simp: bit_push_bit_iff bit_ubyte)

lemma bit_byte_0: "8 \<le> LENGTH('w) \<Longrightarrow> bit (ubyte c :: 'w::len word) i \<longleftrightarrow> cbit c i"
  using cbit_high [of i c] by (cases "i < 8") (auto simp: bit_ubyte)

lemma bit_pack_2b: "bit (pack_2b w) i \<longleftrightarrow> cbit (w ! 1) i \<or> 8 \<le> i \<and> cbit (w ! 0) (i - 8)"
  by (auto simp: pack_2b_def bit_or_iff bit_byte bit_byte_0)

lemma bit_pack_3b: "bit (pack_3b w) i \<longleftrightarrow>
    8 \<le> i \<and> cbit (w ! 2) (i - 8) \<or> 16 \<le> i \<and> cbit (w ! 1) (i - 16) \<or> 24 \<le> i \<and> cbit (w ! 0) (i - 24)"
  by (auto simp: pack_3b_def bit_or_iff bit_byte bit_byte_0)

lemma bit_pack_4b: "bit (pack_4b w) i \<longleftrightarrow> cbit (w ! 3) i \<or>
    8 \<le> i \<and> cbit (w ! 2) (i - 8) \<or> 16 \<le> i \<and> cbit (w ! 1) (i - 16) \<or> 24 \<le> i \<and> cbit (w ! 0) (i - 24)"
  by (auto simp: pack_4b_def bit_or_iff bit_byte bit_byte_0)

lemma pack_nth_eq:
  assumes "pack u = (pack v :: 'w::len word)" "\<And>w i. i < 8 \<Longrightarrow> bit (pack w) (8 * j + i) = cbit (w ! q) i"
  shows "u ! q = v ! q"
  by (rule char_eq_bits) (metis assms)

lemma less_3_cases: "i < 3 \<Longrightarrow> i = 0 \<or> i = 1 \<or> i = (2 :: nat)"
  by auto

lemma less_4_cases: "i < 4 \<Longrightarrow> i = 0 \<or> i = 1 \<or> i = 2 \<or> i = (3 :: nat)"
  by auto

interpretation w2: rolling_word 2 pack_2b "\<lambda>hw c. push_bit 8 hw OR ubyte c"
proof unfold_locales
  fix u v :: "char list" assume l: "length u = 2" "length v = 2" and e: "pack_2b u = pack_2b v"
  have "u ! 1 = v ! 1" by (rule pack_nth_eq [OF e, where j = 0]) (simp add: bit_pack_2b)
  moreover have "u ! 0 = v ! 0" by (rule pack_nth_eq [OF e, where j = 1]) (simp add: bit_pack_2b cbit_high)
  ultimately show "u = v" using l by (intro nth_equalityI) (auto dest: less_2_cases)
next
  fix u :: "char list" and c assume "length u = 2"
  then obtain a b where u: "u = [a, b]" by (auto simp: length_Suc_conv numeral_2_eq_2)
  show "push_bit 8 (pack_2b u) OR ubyte c = pack_2b (tl u @ [c])"
    by (rule bit_word_eqI) (auto simp: u bit_pack_2b bit_or_iff bit_push_bit_iff bit_byte_0 cbit_high)
qed simp

interpretation w3: rolling_word 3 pack_3b "\<lambda>hw c. push_bit 8 (hw OR ubyte c)"
proof unfold_locales
  fix u v :: "char list" assume l: "length u = 3" "length v = 3" and e: "pack_3b u = pack_3b v"
  have "u ! 2 = v ! 2" by (rule pack_nth_eq [OF e, where j = 1]) (simp add: bit_pack_3b)
  moreover have "u ! 1 = v ! 1" by (rule pack_nth_eq [OF e, where j = 2]) (simp add: bit_pack_3b cbit_high)
  moreover have "u ! 0 = v ! 0" by (rule pack_nth_eq [OF e, where j = 3]) (simp add: bit_pack_3b cbit_high)
  ultimately show "u = v" using l by (intro nth_equalityI) (auto dest: less_3_cases)
next
  fix u :: "char list" and c assume "length u = 3"
  then obtain a b d where u: "u = [a, b, d]" by (auto simp: length_Suc_conv numeral_3_eq_3)
  show "push_bit 8 (pack_3b u OR ubyte c) = pack_3b (tl u @ [c])"
    by (rule bit_word_eqI) (auto simp: u bit_pack_3b bit_or_iff bit_push_bit_iff bit_byte_0 cbit_high)
qed simp

interpretation w4: rolling_word 4 pack_4b "\<lambda>hw c. push_bit 8 hw OR ubyte c"
proof unfold_locales
  fix u v :: "char list" assume l: "length u = 4" "length v = 4" and e: "pack_4b u = pack_4b v"
  have "u ! 3 = v ! 3" by (rule pack_nth_eq [OF e, where j = 0]) (simp add: bit_pack_4b)
  moreover have "u ! 2 = v ! 2" by (rule pack_nth_eq [OF e, where j = 1]) (simp add: bit_pack_4b cbit_high)
  moreover have "u ! 1 = v ! 1" by (rule pack_nth_eq [OF e, where j = 2]) (simp add: bit_pack_4b cbit_high)
  moreover have "u ! 0 = v ! 0" by (rule pack_nth_eq [OF e, where j = 3]) (simp add: bit_pack_4b cbit_high)
  ultimately show "u = v" using l by (intro nth_equalityI) (auto dest: less_4_cases)
next
  fix u :: "char list" and c assume "length u = 4"
  then obtain a b d f where u: "u = [a, b, d, f]" by (auto simp: length_Suc_conv eval_nat_numeral)
  show "push_bit 8 (pack_4b u) OR ubyte c = pack_4b (tl u @ [c])"
    by (rule bit_word_eqI) (auto simp: u bit_pack_4b bit_or_iff bit_push_bit_iff bit_byte_0 cbit_high)
qed simp

lemma cstr_get: "cstr_at m p s \<Longrightarrow> i \<le> length s \<Longrightarrow> array_get m (p + i) = Done (if i < length s then s ! i else NUL)"
proof (induction s arbitrary: p i)
  case (Cons c s)
  then show ?case using Cons.IH [of "Suc p" "i - 1"] by (cases i) (simp_all add: cstr_at_simps)
qed (simp add: cstr_at_simps)

lemma cstr_nth_NUL: "cstr_at m p s \<Longrightarrow> i < length s \<Longrightarrow> s ! i \<noteq> NUL"
  unfolding cstr_at_def by (metis nth_mem)

lemma find_sub_Nil [simp]: "find_sub [] s = Some 0"
  by (cases s) auto

lemma find_sub_short: "length s < length t \<Longrightarrow> find_sub t s = None"
proof (induction s)
  case (Cons c s)
  then have "take (length t) (c # s) \<noteq> t" by (metis length_take min.strict_order_iff nat_less_le min_less_iff_conj)
  with Cons show ?case by simp
qed auto

lemma find_sub_skip:
  "c \<notin> set pre \<Longrightarrow> find_sub (c # t) (pre @ s) = map_option (\<lambda>i. length pre + i) (find_sub (c # t) s)"
  by (induction pre) (cases "find_sub (c # t) s"; auto)+

lemma find_sub_absent: "c \<notin> set s \<Longrightarrow> find_sub (c # t) s = None"
  by (induction s) auto

lemma cstr_at_tail: "cstr_at m p (u @ v) \<Longrightarrow> cstr_at m (p + length u) v"
proof (induction u arbitrary: p)
  case (Cons c u)
  then show ?case using Cons.IH [of "Suc p"] by (simp add: cstr_at_simps)
qed simp

lemma load_cstr: "cstr_at m p u \<Longrightarrow> k \<le> length u \<Longrightarrow> load_bytes m p k = Done (take k u)"
  unfolding load_bytes_def cstr_at_def by (metis (no_types, lifting) min.absorb1 nat_add_left_cancel_le order_less_imp_le order_trans take_take)

lemma roll_window:
  assumes "rolling_word K pack step" "cstr_at m h u" "cstr_at m n t" "length t = K" "K \<le> length u" "K = Suc k"
  shows "strstr_roll step m (h + k) (pack (take K u)) (pack t) = Done (map_option (\<lambda>i. (h + k) + i) (find_sub t u))"
proof -
  have "u = take k u @ drop k u" by simp
  then have "cstr_at m (h + k) (drop k u)" using cstr_at_tail [of m h "take k u" "drop k u"] assms(2,5,6) by simp
  moreover have "drop k u \<noteq> []" "last (take K u) = hd (drop k u)"
    using assms(5,6) by (auto simp: take_Suc_conv_app_nth hd_drop_conv_nth)
  moreover have "take K u @ tl (drop k u) = u" unfolding assms(6) by (metis append_take_drop_id drop_Suc tl_drop)
  ultimately show ?thesis
    using rolling_word.roll_finds [OF assms(1), of m "h + k" "drop k u" "take K u" t] assms(3-5) by (simp add: cstr_at_def)
qed

lemma roll_back: "map_option (\<lambda>h'. h' - k) (map_option (\<lambda>i. (h + k) + i) r) = map_option (\<lambda>i. h + i) (r :: nat option)"
  by (simp add: option.map_comp comp_def)

lemma strstr_2b_finds:
  assumes "cstr_at m h u" "cstr_at m n t" "length t = 2" "2 \<le> length u"
  shows "strstr_2b m h n = Done (map_option (\<lambda>i. h + i) (find_sub t u))"
proof -
  have "strstr_roll (\<lambda>hw c. push_bit 8 hw OR ubyte c) m (h + 1) (pack_2b (take 2 u)) (pack_2b t) = Done (map_option (\<lambda>i. (h + 1) + i) (find_sub t u))"
    by (rule roll_window [OF w2.rolling_word_axioms assms]) simp
  then show ?thesis using assms(3,4) roll_back [of 1 h "find_sub t u"]
    by (simp add: strstr_2b_def load_cstr [OF assms(1)] load_cstr [OF assms(2)])
qed

lemma strstr_3b_finds:
  assumes "cstr_at m h u" "cstr_at m n t" "length t = 3" "3 \<le> length u"
  shows "strstr_3b m h n = Done (map_option (\<lambda>i. h + i) (find_sub t u))"
proof -
  have "strstr_roll (\<lambda>hw c. push_bit 8 (hw OR ubyte c)) m (h + 2) (pack_3b (take 3 u)) (pack_3b t) = Done (map_option (\<lambda>i. (h + 2) + i) (find_sub t u))"
    by (rule roll_window [OF w3.rolling_word_axioms assms]) simp
  then show ?thesis using assms(3,4) roll_back [of 2 h "find_sub t u"]
    by (simp add: strstr_3b_def load_cstr [OF assms(1)] load_cstr [OF assms(2)])
qed

lemma strstr_4b_finds:
  assumes "cstr_at m h u" "cstr_at m n t" "length t = 4" "4 \<le> length u"
  shows "strstr_4b m h n = Done (map_option (\<lambda>i. h + i) (find_sub t u))"
proof -
  have "strstr_roll (\<lambda>hw c. push_bit 8 hw OR ubyte c) m (h + 3) (pack_4b (take 4 u)) (pack_4b t) = Done (map_option (\<lambda>i. (h + 3) + i) (find_sub t u))"
    by (rule roll_window [OF w4.rolling_word_axioms assms]) simp
  then show ?thesis using assms(3,4) roll_back [of 3 h "find_sub t u"]
    by (simp add: strstr_4b_def load_cstr [OF assms(1)] load_cstr [OF assms(2)])
qed


lemma strstr_at_first:
  assumes "strchr m h (schar c) = Done (Some h')" "cstr_at m h' (c # r)" "cstr_at m n t" "t = c # t'" "length t \<le> 4"
  shows "strstr m h n = Done (map_option (\<lambda>i. h' + i) (find_sub t (c # r)))"
proof -
  let ?u = "c # r"
  note n_byte = cstr_get [OF assms(3)] and n_NUL = cstr_nth_NUL [OF assms(3)]
  note h_byte = cstr_get [OF assms(2)] and h_NUL = cstr_nth_NUL [OF assms(2)] and absent = find_sub_short [of ?u t]
  note n01 = n_byte [of 0] n_byte [of 1] n_NUL [of 0] n_NUL [of 1]
  note next2 = n_byte [of 2] n_NUL [of 2] h_byte [of 1] h_NUL [of 1]
  note next3 = n_byte [of 3] n_NUL [of 3] h_byte [of 2] h_NUL [of 2]
  note next4 = n_byte [of 4] h_byte [of 3] h_NUL [of 3]
  have "0 < length t" using assms(4) by simp
  then consider "length t = 1" | "length t = 2" | "length t = 3" | "length t = 4"
    using assms(5) by linarith
  then show "strstr m h n = Done (map_option (\<lambda>i. h' + i) (find_sub t ?u))"
  proof cases
    case 1
    then show ?thesis using assms(1,4) n01 by (simp add: strstr_def)
  next
    case 2
    then show ?thesis using assms(1,4) n01 next2 strstr_2b_finds [OF assms(2,3)] absent
      by (cases "2 \<le> length ?u") (simp_all add: strstr_def not_le del: find_sub.simps)
  next
    case 3
    then show ?thesis using assms(1,4) n01 next2 next3 strstr_3b_finds [OF assms(2,3)] absent
      by (cases "3 \<le> length ?u"; cases "2 \<le> length ?u") (auto simp: strstr_def not_le simp del: find_sub.simps)
  next
    case 4
    then show ?thesis using assms(1,4) n01 next2 next3 next4 strstr_4b_finds [OF assms(2,3)] absent
      by (cases "4 \<le> length ?u"; cases "3 \<le> length ?u"; cases "2 \<le> length ?u")
        (auto simp: strstr_def not_le simp del: find_sub.simps)
  qed
qed

section \<open>Properties\<close>

text \<open> C34: for needles of up to four bytes \<open>strstr\<close> with its rolling machine words is the plain search: it returns the
  address of the first place of the haystack at which the needle stands, and NULL when there is none.\<close>

theorem strstr_short_needles:
  assumes "cstr_at m h s" "cstr_at m n t" "length t \<le> 4"
  shows "strstr m h n = Done (map_option (\<lambda>i. h + i) (find_sub t s))"
proof (cases t)
  case Nil
  then show ?thesis using assms(2) by (simp add: strstr_def cstr_at_simps)
next
  case (Cons c t')
  show ?thesis
  proof (cases "c \<in> set s")
    case False
    then have "schar c \<notin> schar ` set s" by auto
    then show ?thesis using assms(2) Cons False
      by (simp add: strstr_def cstr_at_simps strchr_spec [OF assms(1)] find_sub_absent)
  next
    case True
    then obtain pre r where s: "s = pre @ c # r" "c \<notin> set pre" by (meson split_list_first)
    have "takeWhile (\<lambda>x. schar x \<noteq> schar c) s = pre" unfolding s(1) using s(2) by (subst takeWhile_append2) auto
    then have ch: "strchr m h (schar c) = Done (Some (h + length pre))" using strchr_spec [OF assms(1), of "schar c"] True by auto
    let ?h = "h + length pre" and ?u = "c # r"
    have u: "cstr_at m ?h ?u" using cstr_at_tail assms(1) s(1) by blast
    have sub: "find_sub t s = map_option (\<lambda>i. length pre + i) (find_sub t ?u)" using find_sub_skip s Cons by simp
    have "strstr m h n = Done (map_option (\<lambda>i. ?h + i) (find_sub t ?u))"
      by (rule strstr_at_first [OF ch u assms(2) Cons assms(3)])
    then show ?thesis using sub by (simp add: option.map_comp comp_def add.assoc)
  qed
qed


definition strstr_example :: mem where
  "strstr_example = ''needle in a haystack'' @ [NUL] @ ''ayst'' @ [NUL] @ ''haystack'' @ [NUL] @ ''abcabcabd'' @ [NUL] @ ''abcabd'' @ [NUL]
     @ replicate 64 NUL"

theorem strstr_short_needles_witness: "strstr strstr_example 0 21 = Done (Some 13)"
proof -
  have "cstr_at strstr_example 0 ''needle in a haystack''" "cstr_at strstr_example 21 ''ayst''" by code_simp+
  moreover have "find_sub ''ayst'' ''needle in a haystack'' = Some 13" by code_simp
  ultimately show ?thesis using strstr_short_needles [of strstr_example 0 "''needle in a haystack''" 21 "''ayst''"] by simp
qed

text \<open>The two-way search on a needle at the end of its haystack, on a periodic one, and without a match.\<close>

lemma strstr_twoway_examples:
  "strstr strstr_example 0 26 = Done (Some 12)"
  "strstr strstr_example 35 45 = Done (Some 38)"
  "strstr strstr_example 26 45 = Done None"
  by code_simp+

end
