(* ===== verification/Tarfs.thy ===== *)
theory Tarfs
  imports Devices Libc_Strstr Libc_Stdlib
begin

text \<open>
  \<open>hexahedron/fs/tarfs.c\<close>: the archive file system of the initial ramdisk. A header is the block of 500 bytes
  that the code allocates for it, and the string functions run on that block: a field without terminator is
  read on into the next one, and past the block the read is a fault. The character arrays of the functions are
  their strings, with a fault where a string and its terminator do not fit.
\<close>

section \<open>Headers\<close>

text \<open>The offsets of the fields of \<open>ustar_header_t\<close>.\<close>

definition US_name :: nat where "US_name = 0"
definition US_mode :: nat where "US_mode = 100"
definition US_uid :: nat where "US_uid = 108"
definition US_gid :: nat where "US_gid = 116"
definition US_size :: nat where "US_size = 124"
definition US_type :: nat where "US_type = 156"
definition US_ustar :: nat where "US_ustar = 257"
definition US_nameprefix :: nat where "US_nameprefix = 345"
definition US_sizeof :: nat where "US_sizeof = 500"

lemmas US_defs = US_name_def US_mode_def US_uid_def US_gid_def US_size_def US_type_def US_ustar_def US_nameprefix_def US_sizeof_def

definition USTAR_HARD_LINK :: char where "USTAR_HARD_LINK = CHR ''1''"
definition USTAR_SYMLINK :: char where "USTAR_SYMLINK = CHR ''2''"
definition USTAR_CHARDEV :: char where "USTAR_CHARDEV = CHR ''3''"
definition USTAR_BLOCKDEV :: char where "USTAR_BLOCKDEV = CHR ''4''"
definition USTAR_DIRECTORY :: char where "USTAR_DIRECTORY = CHR ''5''"
definition USTAR_PIPE :: char where "USTAR_PIPE = CHR ''6''"

definition USTAR_SIZE :: "u64 \<Rightarrow> u64" where
  "USTAR_SIZE sz = (if sz mod 512 \<noteq> 0 then sz + (512 - sz mod 512) else sz)"

definition chars_of :: "u8 list \<Rightarrow> mem" where
  "chars_of bs = map (\<lambda>b. char_of (unat b)) bs"

definition tarfs_getUstar :: "fs_ops \<Rightarrow> vfs_state \<Rightarrow> fs_node_t \<Rightarrow> u64 \<Rightarrow> (mem option \<times> vfs_state) outcome" where
  "tarfs_getUstar ops s n inode = (case fn_dev n of
     Dev_NULL \<Rightarrow> Done (None, s)
   | Dev_tree p \<Rightarrow> Fault BadPointer
   | Dev dev \<Rightarrow>
       and_then (fs_read ops s dev inode (of_nat US_sizeof)) (\<lambda>(bs, r, s').
       and_then (store_bytes (replicate US_sizeof NUL) 0 (chars_of bs)) (\<lambda>header.
       if r = 0 then Done (None, s')
       else
         and_then (strncmp (header @ ''ustar'' @ [NUL]) US_ustar US_sizeof 5) (\<lambda>d.
         Done (if d = 0 then Some header else None, s')))))"

text \<open>The numeric fields.\<close>

definition ustar_number ::
    "(mem \<Rightarrow> nat \<Rightarrow> int \<Rightarrow> (u64 \<times> nat option) outcome) \<Rightarrow> mem \<Rightarrow> nat \<Rightarrow> int \<Rightarrow> u64 outcome" where
  "ustar_number conv header field base = and_then (conv header field base) (\<lambda>(v, e). Done v)"

definition ustar_flags :: "char \<Rightarrow> u64" where
  "ustar_flags t =
     (if t = USTAR_HARD_LINK then VFS_FILE
      else if t = USTAR_SYMLINK then VFS_SYMLINK
      else if t = USTAR_CHARDEV then VFS_CHARDEVICE
      else if t = USTAR_BLOCKDEV then VFS_BLOCKDEVICE
      else if t = USTAR_DIRECTORY then VFS_DIRECTORY
      else if t = USTAR_PIPE then VFS_PIPE
      else VFS_FILE)"

abbreviation (input) TARFS :: nat where "TARFS \<equiv> 6"

text \<open>The prefix and the name printed one after the other into an array of which \<open>n\<close> bytes may be used.\<close>

definition ustar_print :: "mem \<Rightarrow> nat \<Rightarrow> string outcome" where
  "ustar_print header n =
     and_then (read_str header US_nameprefix) (\<lambda>prefix.
     and_then (read_str header US_name) (\<lambda>name.
     print_name 256 n ''%s%s'' [VStr (Some prefix), VStr (Some name)]))"

definition tarfs_ustarToNode :: "mem \<Rightarrow> u64 \<Rightarrow> fs_node_t \<Rightarrow> fs_node_t outcome" where
  "tarfs_ustarToNode header inode parent_node =
     and_then (ustar_print header 255) (\<lambda>name.
     and_then (array_get header US_type) (\<lambda>t.
     and_then (ustar_number strtoull header US_size 8) (\<lambda>len.
     and_then (ustar_number strtol header US_gid 10) (\<lambda>gid.
     and_then (ustar_number strtol header US_uid 10) (\<lambda>uid.
     and_then (ustar_number strtol header US_mode 10) (\<lambda>mask.
     Done (fs_node_zero\<lparr>fn_name := name, fn_flags := ustar_flags t, fn_length := len, fn_gid := ucast gid, fn_uid := ucast uid,
       fn_mask := ucast mask, fn_inode := inode, fn_dev := fn_dev parent_node, fn_read := M_driver TARFS, fn_write := M_driver TARFS,
       fn_finddir := M_driver TARFS, fn_readdir := M_driver TARFS\<rparr>)))))))"

section \<open>Files\<close>

text \<open>The checks of \<open>tarfs_read\<close> and \<open>tarfs_write\<close>, with the 64-bit sum.\<close>

definition tarfs_clip :: "fs_node_t \<Rightarrow> u64 \<Rightarrow> u64 \<Rightarrow> u64 option" where
  "tarfs_clip n offset sz =
     (if fn_flags n \<noteq> VFS_FILE then None
      else if offset > fn_length n then None
      else Some (if offset + sz > fn_length n then fn_length n - offset else sz))"

definition tarfs_dev :: "fs_node_t \<Rightarrow> addr outcome" where
  "tarfs_dev n = (case fn_dev n of Dev d \<Rightarrow> Done d | Dev_NULL \<Rightarrow> Done NULL | Dev_tree p \<Rightarrow> Fault BadPointer)"

definition tarfs_read :: "fs_ops \<Rightarrow> addr \<Rightarrow> u64 \<Rightarrow> u64 \<Rightarrow> vfs_state \<Rightarrow> (u8 list \<times> u64 \<times> vfs_state) outcome" where
  "tarfs_read ops node offset sz s =
     and_then (fs_node_at s node) (\<lambda>n.
     case tarfs_clip n offset sz of
       None \<Rightarrow> Done ([], 0, s)
     | Some k \<Rightarrow>
         and_then (tarfs_getUstar ops s n (fn_inode n)) (\<lambda>(header, s1).
         if header = None then Done ([], 0, s1)
         else and_then (tarfs_dev n) (\<lambda>d. fs_read ops s1 d (fn_inode n + 512 + offset) k)))"

definition tarfs_write :: "fs_ops \<Rightarrow> addr \<Rightarrow> u64 \<Rightarrow> u64 \<Rightarrow> u8 list \<Rightarrow> vfs_state \<Rightarrow> (u64 \<times> vfs_state) outcome" where
  "tarfs_write ops node offset sz buffer s =
     and_then (fs_node_at s node) (\<lambda>n.
     case tarfs_clip n offset sz of
       None \<Rightarrow> Done (0, s)
     | Some k \<Rightarrow>
         and_then (tarfs_getUstar ops s n (fn_inode n)) (\<lambda>(header, s1).
         if header = None then Done (0, s1)
         else and_then (tarfs_dev n) (\<lambda>d. fs_write ops s1 d (fn_inode n + 512 + offset) k buffer)))"

section \<open>Directories\<close>

text \<open>
  \<open>strncat\<close> from a field of the header to an array of \<open>arr\<close> bytes that holds \<open>cur\<close>. The bytes it copies: the
  byte after the last is read before the bound is looked at.
\<close>

primrec strncat_source :: "mem \<Rightarrow> nat \<Rightarrow> nat \<Rightarrow> string outcome" where
  "strncat_source m p 0 = and_then (array_get m p) (\<lambda>c. Done [])"
| "strncat_source m p (Suc n) =
     and_then (array_get m p) (\<lambda>c. if c = NUL then Done [] else and_then (strncat_source m (p + 1) n) (\<lambda>t. Done (c # t)))"

definition strncat_array :: "nat \<Rightarrow> string \<Rightarrow> mem \<Rightarrow> nat \<Rightarrow> nat \<Rightarrow> string outcome" where
  "strncat_array arr cur m p n =
     and_then (strncat_source m p n) (\<lambda>t. if length (cur @ t) < arr then Done (cur @ t) else Fault OutOfBounds)"

text \<open>The start of the names to look for: empty for the root, else the full name of the directory.\<close>

definition tarfs_search :: "mem \<Rightarrow> string outcome" where
  "tarfs_search header =
     and_then (strcmp (header @ ''/'' @ [NUL]) US_name US_sizeof) (\<lambda>d.
     if d = 0 then Done []
     else and_then (strncat_array 256 [] header US_nameprefix 155) (\<lambda>t. strncat_array 256 t header US_name 100))"

text \<open>The name of an entry without its trailing slash; the last character is read at \<open>strlen - 1\<close>.\<close>

definition strip_slash :: "string \<Rightarrow> string outcome" where
  "strip_slash f = (if f = [] then Fault OutOfBounds else Done (if last f = CHR ''/'' \<and> length f > 1 then butlast f else f))"

definition tarfs_next :: "mem \<Rightarrow> u64 \<Rightarrow> u64 outcome" where
  "tarfs_next header ino = and_then (ustar_number strtoull header US_size 8) (\<lambda>filesize. Done (ino + 512 + USTAR_SIZE filesize))"

text \<open>
  The loops over the headers. A device whose contents do not change gives the same header for the same
  \<open>ino\<close>, so a loop that has not ended after \<open>2 ^ 64\<close> rounds never ends.
\<close>

primrec tarfs_find ::
    "nat \<Rightarrow> fs_ops \<Rightarrow> fs_node_t \<Rightarrow> string \<Rightarrow> u64 \<Rightarrow> mem option \<Rightarrow> vfs_state \<Rightarrow> ((u64 \<times> mem) option \<times> vfs_state) outcome" where
  "tarfs_find 0 ops n search_filename ino header s = Hang"
| "tarfs_find (Suc fuel) ops n search_filename ino header s = (case header of
     None \<Rightarrow> Done (None, s)
   | Some h \<Rightarrow>
       and_then (ustar_print h 256) (\<lambda>f.
       and_then (strip_slash f) (\<lambda>filename.
       if filename = search_filename then Done (Some (ino, h), s)
       else
         and_then (tarfs_next h ino) (\<lambda>ino'.
         and_then (tarfs_getUstar ops s n ino') (\<lambda>(header', s').
         tarfs_find fuel ops n search_filename ino' header' s')))))"

definition tarfs_rounds :: nat where "tarfs_rounds = 2 ^ 64"

definition tarfs_finddir :: "fs_ops \<Rightarrow> addr \<Rightarrow> string \<Rightarrow> vfs_state \<Rightarrow> (addr \<times> vfs_state) outcome" where
  "tarfs_finddir ops node path s =
     (if node = NULL then Done (NULL, s)
      else
        and_then (fs_node_at s node) (\<lambda>n.
        and_then (tarfs_getUstar ops s n (fn_inode n)) (\<lambda>(header, s1).
        case header of
          None \<Rightarrow> Done (NULL, s1)
        | Some h \<Rightarrow>
            and_then (array_get h US_type) (\<lambda>t.
            if t \<noteq> USTAR_DIRECTORY then Done (NULL, s1)
            else
              and_then (tarfs_search h) (\<lambda>dir.
              and_then (strncat_array 256 dir (path @ [NUL]) 0 (length path)) (\<lambda>search_filename.
              and_then (tarfs_find tarfs_rounds ops n search_filename (fn_inode n) header s1) (\<lambda>(r, s2).
              case r of
                None \<Rightarrow> Done (NULL, s2)
              | Some (ino, h') \<Rightarrow>
                  and_then (tarfs_ustarToNode h' ino n) (\<lambda>retnode. Done (new_fs_node s2 retnode)))))))))"

text \<open>\<^verbatim>\<open>for (slashes=0; s[slashes]; s[slashes]=='/' ? slashes++ : *s++);\<close>\<close>

function slash_loop :: "mem \<Rightarrow> nat \<Rightarrow> nat \<Rightarrow> nat outcome" where
  "slash_loop m s slashes =
     and_then (array_get m (s + slashes)) (\<lambda>c.
     if c = NUL then Done slashes
     else if c = CHR ''/'' then slash_loop m s (slashes + 1) else slash_loop m (s + 1) slashes)"
  by pat_completeness auto
termination by (relation "measure (\<lambda>(m, s, k). length m - (s + k))") (auto simp: outcome_iff)

declare slash_loop.simps [simp del]

text \<open>A zeroed array of 256 bytes with a string in it.\<close>

definition buf256 :: "string \<Rightarrow> mem" where
  "buf256 s = s @ replicate (256 - length s) NUL"

text \<open>
  The entry for a name: the last slash is cut off, and below the root everything up to the last slash that is
  left (without one, the pointer 1 is read).
\<close>

definition tarfs_dirent :: "nat \<Rightarrow> u64 \<Rightarrow> string \<Rightarrow> dirent outcome" where
  "tarfs_dirent slashes ino f =
     (if f = [] then Fault OutOfBounds
      else
        let path_filename = (if last f = CHR ''/'' then butlast f else f) in
        and_then (if slashes = 0 then Done (Some 0)
                  else and_then (strrchr (buf256 path_filename) 0 (schar (CHR ''/''))) (\<lambda>r. Done (map_option Suc r))) (\<lambda>p.
        case p of
          None \<Rightarrow> Fault BadPointer
        | Some p' \<Rightarrow>
            and_then (strncat_array 256 [] (buf256 path_filename) p' 256) (\<lambda>nm. Done \<lparr>d_ino = unat (ucast ino :: u32), d_name = nm\<rparr>)))"

text \<open>Whether the entry of this name is one of the directory.\<close>

definition tarfs_entry :: "nat \<Rightarrow> string \<Rightarrow> string \<Rightarrow> bool outcome" where
  "tarfs_entry slashes search_filename path_filename =
     and_then (strchr (buf256 path_filename) 0 (schar (CHR ''/''))) (\<lambda>r.
     if slashes = 0 \<and> r \<noteq> None then Done False
     else and_then (strstr (buf256 path_filename @ buf256 search_filename) 0 256) (\<lambda>p. Done (p = Some 0 \<or> slashes = 0)))"

primrec tarfs_list ::
    "nat \<Rightarrow> fs_ops \<Rightarrow> fs_node_t \<Rightarrow> string \<Rightarrow> nat \<Rightarrow> cint \<Rightarrow> cint \<Rightarrow> u64 \<Rightarrow> mem option \<Rightarrow> vfs_state \<Rightarrow> (dirent option \<times> vfs_state) outcome" where
  "tarfs_list 0 ops n search_filename slashes index fileidx ino header s = Hang"
| "tarfs_list (Suc fuel) ops n search_filename slashes index fileidx ino header s = (case header of
     None \<Rightarrow> Done (None, s)
   | Some h \<Rightarrow>
       and_then
         (if fileidx = 0 then Done (None, 1)
          else
            and_then (strncat_array 256 [] h US_nameprefix 155) (\<lambda>t.
            and_then (strncat_array 256 t h US_name 150) (\<lambda>path_filename.
            and_then (tarfs_entry slashes search_filename path_filename) (\<lambda>e.
            if \<not> e then Done (None, fileidx)
            else if fileidx = index then and_then (tarfs_dirent slashes ino path_filename) (\<lambda>d. Done (Some d, fileidx))
            else Done (None, fileidx + 1))))) (\<lambda>(out, fileidx').
       if out \<noteq> None then Done (out, s)
       else
         and_then (tarfs_next h ino) (\<lambda>ino'.
         and_then (tarfs_getUstar ops s n ino') (\<lambda>(header', s').
         tarfs_list fuel ops n search_filename slashes index fileidx' ino' header' s'))))"

definition tarfs_readdir :: "fs_ops \<Rightarrow> addr \<Rightarrow> nat \<Rightarrow> vfs_state \<Rightarrow> (dirent option \<times> vfs_state) outcome" where
  "tarfs_readdir ops node index s =
     (if index < 2 then Done (Some \<lparr>d_ino = 0, d_name = (if index = 0 then ''.'' else ''..'')\<rparr>, s)
      else if node = NULL then Done (None, s)
      else
        and_then (fs_node_at s node) (\<lambda>n.
        and_then (tarfs_getUstar ops s n (fn_inode n)) (\<lambda>(header, s1).
        case header of
          None \<Rightarrow> Done (None, s1)
        | Some h \<Rightarrow>
            and_then (tarfs_search h) (\<lambda>search_filename.
            and_then (slash_loop (buf256 search_filename) 0 0) (\<lambda>slashes.
            tarfs_list tarfs_rounds ops n search_filename slashes (of_nat (index - 1)) 0 (fn_inode n) header s1)))))"

section \<open>Mounting\<close>

definition O_RDWR :: u32 where "O_RDWR = 2"

definition tarfs_mount :: "fs_ops \<Rightarrow> string option \<Rightarrow> vfs_state \<Rightarrow> (addr \<times> vfs_state) outcome" where
  "tarfs_mount ops argp s =
     and_then (kopen ops s argp O_RDWR) (\<lambda>(tar_file, s1).
     if tar_file = NULL then Done (NULL, s1)
     else
       let n = fs_node_zero\<lparr>fn_name := ''tarfs'', fn_flags := VFS_DIRECTORY, fn_mask := 504, fn_dev := Dev tar_file\<rparr>;
           (node, s2) = new_fs_node s1 n in
       and_then (tarfs_getUstar ops s2 n 0) (\<lambda>(header, s3).
       case header of
         None \<Rightarrow> Done (NULL, free_fs_node s3 node)
       | Some h \<Rightarrow>
           and_then (tarfs_ustarToNode h 0 n) (\<lambda>r.
           let (rootnode, s4) = new_fs_node s3 r in Done (rootnode, free_fs_node s4 node))))"

definition tarfs_init :: "vfs_state \<Rightarrow> vfs_state outcome" where
  "tarfs_init s = and_then (vfs_registerFilesystem s ''tarfs'' (Some TARFS)) (\<lambda>(r, s'). Done s')"

text \<open>The methods of archive nodes on top of those of the devices that archives are read from.\<close>

definition tarfs_ops :: "fs_ops \<Rightarrow> fs_ops" where
  "tarfs_ops ops = ops\<lparr>
     call_read := \<lambda>k node offset sz s. if k = TARFS then tarfs_read ops node offset sz s else call_read ops k node offset sz s,
     call_write := \<lambda>k node offset sz buffer s.
       if k = TARFS then tarfs_write ops node offset sz buffer s else call_write ops k node offset sz buffer s,
     call_readdir := \<lambda>k node i s. if k = TARFS then tarfs_readdir ops node i s else call_readdir ops k node i s,
     call_finddir := \<lambda>k node path s. if k = TARFS then tarfs_finddir ops node path s else call_finddir ops k node path s,
     call_mount := \<lambda>k argp mountpoint s. if k = TARFS then tarfs_mount ops argp s else call_mount ops k argp mountpoint s\<rparr>"

section \<open>Archives\<close>

text \<open>
  What an archive is: entries of a header of 512 bytes, of which the code looks at the first 500, and the data of
  the file filled up to whole blocks; after the entries, two blocks of zeros.
\<close>

record tar_entry =
  te_header :: mem
  te_data :: "u8 list"

definition te_block :: "tar_entry \<Rightarrow> mem" where
  "te_block e = take 500 (te_header e)"

definition te_string :: "tar_entry \<Rightarrow> nat \<Rightarrow> string" where
  "te_string e p = takeWhile (\<lambda>c. c \<noteq> NUL) (drop p (te_block e))"

definition te_type :: "tar_entry \<Rightarrow> char" where
  "te_type e = te_header e ! 156"

definition te_path :: "tar_entry \<Rightarrow> string" where
  "te_path e = te_string e 345 @ te_string e 0"

text \<open>
  An entry the code can read: the strings are terminated, the size field is the length of the data, and
  no eighteen digits stand in a row in the numeric fields (a field of a real archive has at most
  twelve), so that \<open>strtol\<close> does not overflow on them.
\<close>

fun short_runs :: "nat \<Rightarrow> mem \<Rightarrow> bool" where
  "short_runs n [] \<longleftrightarrow> True"
| "short_runs n (c # m) \<longleftrightarrow> (if isvalid 10 (schar c) then n + 1 < 18 \<and> short_runs (n + 1) m else short_runs 0 m)"

definition short_numbers :: "tar_entry \<Rightarrow> bool" where
  "short_numbers e \<longleftrightarrow> short_runs 0 (take 175 (drop 100 (te_header e)))"

definition entry_ok :: "tar_entry \<Rightarrow> bool" where
  "entry_ok e \<longleftrightarrow> length (te_header e) = 512 \<and> NUL \<in> set (take 155 (drop 345 (te_header e))) \<and> NUL \<in> set (take 100 (te_header e)) \<and>
     take 5 (drop 257 (te_header e)) = ''ustar'' \<and> te_path e \<noteq> [] \<and> length (te_path e) < 254 \<and>
     ustar_number strtoull (te_block e) 124 8 = Done (of_nat (length (te_data e))) \<and>
     short_numbers e"

definition bytes_of :: "mem \<Rightarrow> u8 list" where
  "bytes_of m = map (\<lambda>c. of_nat (of_char c)) m"

definition padding :: "nat \<Rightarrow> nat" where
  "padding n = (if n mod 512 = 0 then 0 else 512 - n mod 512)"

definition entry_bytes :: "tar_entry \<Rightarrow> u8 list" where
  "entry_bytes e = bytes_of (te_header e) @ te_data e @ replicate (padding (length (te_data e))) 0"

definition tar_image :: "tar_entry list \<Rightarrow> u8 list" where
  "tar_image es = concat (map entry_bytes es) @ replicate 1024 0"

definition tar_off :: "tar_entry list \<Rightarrow> nat \<Rightarrow> nat" where
  "tar_off es k = length (concat (map entry_bytes (take k es)))"

lemma chars_of_bytes [simp]: "chars_of (bytes_of m) = m"
proof -
  have "unat (of_nat (of_char c) :: u8) = of_char c" for c :: char by (rule unat_of_nat_less) simp
  then have "char_of (unat (of_nat (of_char c) :: u8)) = c" for c :: char by simp
  then show ?thesis by (simp add: chars_of_def bytes_of_def comp_def map_idI)
qed

lemma length_bytes_of [simp]: "length (bytes_of m) = length m"
  by (simp add: bytes_of_def)

lemma tar_off_Suc: "k < length es \<Longrightarrow> tar_off es (Suc k) = tar_off es k + length (entry_bytes (es ! k))"
  by (simp add: tar_off_def take_Suc_conv_app_nth)

lemma tar_off_0 [simp]: "tar_off es 0 = 0"
  by (simp add: tar_off_def)

lemma tar_off_mono: "j \<le> k \<Longrightarrow> tar_off es j \<le> tar_off es k"
proof -
  assume "j \<le> k"
  then have "take j es = take j (take k es)" by (simp add: min.absorb1)
  then have "take k es = take j es @ drop j (take k es)" by (metis append_take_drop_id)
  then show ?thesis unfolding tar_off_def by (metis concat_append le_add1 length_append map_append)
qed

lemma length_tar_image: "length (tar_image es) = tar_off es (length es) + 1024"
  by (simp add: tar_image_def tar_off_def)

lemma drop_tar_image:
  assumes "k < length es"
  shows "drop (tar_off es k) (tar_image es) = entry_bytes (es ! k) @ drop (tar_off es (Suc k)) (tar_image es)"
proof -
  have "concat (map entry_bytes es) = concat (map entry_bytes (take k es)) @ entry_bytes (es ! k) @ concat (map entry_bytes (drop (Suc k) es))"
    using assms by (metis append_Cons append_Nil append_take_drop_id concat.simps(2) concat_append Cons_nth_drop_Suc list.simps(9) map_append)
  then show ?thesis
    using assms by (simp add: tar_image_def tar_off_def take_Suc_conv_app_nth)
qed


text \<open>A RAM device with the archive in it.\<close>

definition tar_dev :: "vfs_state \<Rightarrow> addr \<Rightarrow> tar_entry list \<Rightarrow> bool" where
  "tar_dev v d es \<longleftrightarrow> d \<noteq> NULL \<and> (\<exists>nd a. vfs_nodes v d = Some nd \<and> fn_read nd = M_driver RAMDEV \<and> fn_dev nd = Dev a \<and>
     vfs_ram v a = Some (tar_image es) \<and> fn_length nd = of_nat (length (tar_image es)) \<and> length (tar_image es) < 2 ^ 64)"

lemma unat_small: "n < 2 ^ 64 \<Longrightarrow> unat (of_nat n :: u64) = n"
  by (rule unat_of_nat_less) simp

lemma tar_dev_read:
  assumes "tar_dev v d es" "n \<noteq> 0" "off + n \<le> length (tar_image es)"
  shows "fs_read device_ops v d (of_nat off) (of_nat n) = Done (take n (drop off (tar_image es)), of_nat n, v)"
proof -
  obtain nd a where nd: "d \<noteq> NULL" "vfs_nodes v d = Some nd" "fn_read nd = M_driver RAMDEV" "fn_dev nd = Dev a"
     "vfs_ram v a = Some (tar_image es)" "fn_length nd = of_nat (length (tar_image es))" "length (tar_image es) < 2 ^ 64"
    using assms(1) by (auto simp: tar_dev_def)
  have u: "unat (of_nat off :: u64) = off" "unat (of_nat n :: u64) = n" "unat (fn_length nd) = length (tar_image es)"
    using assms(3) nd(7) by (simp_all add: unat_small nd(6))
  then have "(of_nat n :: u64) \<noteq> 0" using assms(2) by (metis unat_0)
  from ramdev_read_spec [OF nd(1-5) _ this, of "of_nat off"] u assms(3) show ?thesis by simp
qed

lemma entry_bytes_block:
  assumes "entry_ok e"
  shows "take 500 (entry_bytes e) = bytes_of (te_block e)" "512 \<le> length (entry_bytes e)" "length (te_block e) = 500"
  using assms by (simp_all add: entry_ok_def entry_bytes_def te_block_def bytes_of_def take_map)

lemma cstr_takeWhile:
  assumes "NUL \<in> set (drop p m)"
  shows "cstr_at m p (takeWhile (\<lambda>c. c \<noteq> NUL) (drop p m))"
proof -
  from assms obtain u w where u: "drop p m = u @ NUL # w" "NUL \<notin> set u" by (meson split_list_first)
  then have t: "takeWhile (\<lambda>c. c \<noteq> NUL) (drop p m) = u" by (simp add: takeWhile_tail) (metis (mono_tags, lifting) takeWhile_eq_all_conv)
  have "p + length u < length m" using arg_cong [OF u(1), of length] by simp
  moreover from this have "m ! (p + length u) = NUL" using arg_cong [OF u(1), of "\<lambda>x. x ! length u"] by simp
  ultimately show ?thesis unfolding t using u by (simp add: cstr_at_def)
qed

lemma takeWhile_short: "NUL \<in> set (take j xs) \<Longrightarrow> length (takeWhile (\<lambda>c. c \<noteq> NUL) xs) < j"
proof (induction xs arbitrary: j)
  case (Cons x xs)
  then show ?case by (cases j) auto
qed simp

lemma entry_strings:
  assumes "entry_ok e"
  shows "cstr_at (te_block e) 345 (te_string e 345)" "cstr_at (te_block e) 0 (te_string e 0)"
    "length (te_string e 345) < 155" "length (te_string e 0) < 100"
proof -
  have p: "NUL \<in> set (take 155 (drop 345 (te_block e)))" "NUL \<in> set (take 100 (drop 0 (te_block e)))"
    using assms by (simp_all add: entry_ok_def te_block_def drop_take min_def)
  show "cstr_at (te_block e) 345 (te_string e 345)" "cstr_at (te_block e) 0 (te_string e 0)"
    unfolding te_string_def by (rule cstr_takeWhile, rule in_set_takeD, rule p)+
  show "length (te_string e 345) < 155" "length (te_string e 0) < 100" unfolding te_string_def by (rule takeWhile_short, rule p)+
qed

lemma strncmp_loop_equal:
  "0 < n \<Longrightarrow> \<forall>i<n. a + i < length m \<and> b + i < length m \<and> m ! (a + i) = m ! (b + i) \<and> m ! (a + i) \<noteq> NUL \<Longrightarrow>
   strncmp_loop schar m a b n = Done 0"
proof (induction n arbitrary: a b)
  case (Suc n)
  have at: "a + i < length m \<and> b + i < length m \<and> m ! (a + i) = m ! (b + i) \<and> m ! (a + i) \<noteq> NUL" if "i < Suc n" for i
    using Suc.prems(2) that by blast
  have "strncmp_loop schar m (Suc a) (Suc b) n = Done 0" if "0 < n"
  proof (rule Suc.IH [OF that], intro allI impI)
    fix i assume "i < n"
    then show "Suc a + i < length m \<and> Suc b + i < length m \<and> m ! (Suc a + i) = m ! (Suc b + i) \<and> m ! (Suc a + i) \<noteq> NUL"
      using at [of "Suc i"] by auto
  qed
  then show ?case using at [of 0] by (subst strncmp_loop.simps) simp
qed simp

lemma strncmp_equal:
  assumes "\<forall>i<n. a + i < length m \<and> b + i < length m \<and> m ! (a + i) = m ! (b + i) \<and> m ! (a + i) \<noteq> NUL"
  shows "strncmp m a b n = Done 0"
proof (cases "0 < n")
  case True
  from strncmp_loop_equal [OF True assms] True show ?thesis by (simp add: strncmp_def)
qed (simp add: strncmp_def)

lemma magic_compare:
  assumes "length h = 500" "take 5 (drop 257 h) = ''ustar''"
  shows "strncmp (h @ ''ustar'' @ [NUL]) 257 500 5 = Done 0"
proof (rule strncmp_equal, intro allI impI)
  fix i :: nat assume i: "i < 5"
  have "h ! (257 + i) = take 5 (drop 257 h) ! i" using i assms(1) by simp
  also have "\<dots> = ''ustar'' ! i" unfolding assms(2) ..
  finally have h: "h ! (257 + i) = ''ustar'' ! i" .
  have "''ustar'' ! i \<in> set ''ustar''" using i by (intro nth_mem) simp
  then have "''ustar'' ! i \<noteq> NUL" by auto
  then show "257 + i < length (h @ ''ustar'' @ [NUL]) \<and> 500 + i < length (h @ ''ustar'' @ [NUL]) \<and>
     (h @ ''ustar'' @ [NUL]) ! (257 + i) = (h @ ''ustar'' @ [NUL]) ! (500 + i) \<and> (h @ ''ustar'' @ [NUL]) ! (257 + i) \<noteq> NUL"
    using h i assms(1) nth_append_left [of i "''ustar''" "[NUL]"] by (simp add: nth_append_left nth_append_right)
qed

lemma getUstar_entry:
  assumes "tar_dev v d es" "fn_dev n = Dev d" "k < length es" "entry_ok (es ! k)"
  shows "tarfs_getUstar device_ops v n (of_nat (tar_off es k)) = Done (Some (te_block (es ! k)), v)"
proof -
  let ?e = "es ! k"
  note b = entry_bytes_block [OF assms(4)]
  have "tar_off es (Suc k) \<le> tar_off es (length es)" using assms(3) by (intro tar_off_mono) simp
  then have "tar_off es k + 500 \<le> length (tar_image es)" using tar_off_Suc [OF assms(3)] b(2) by (simp add: length_tar_image)
  from tar_dev_read [OF assms(1) _ this]
  have r: "fs_read device_ops v d (of_nat (tar_off es k)) 500 = Done (bytes_of (te_block ?e), 500, v)"
    using b by (simp add: drop_tar_image [OF assms(3)])
  have "take 5 (drop 257 (te_block ?e)) = ''ustar''" using assms(4) by (simp add: entry_ok_def te_block_def drop_take min_def)
  from magic_compare [OF b(3) this] have "strncmp (te_block ?e @ ''ustar'' @ [NUL]) 257 500 5 = Done 0" .
  then show ?thesis using r assms(2) b(3) by (simp add: tarfs_getUstar_def US_defs store_bytes_def)
qed


lemma getUstar_end:
  assumes "tar_dev v d es" "fn_dev n = Dev d"
  shows "tarfs_getUstar device_ops v n (of_nat (tar_off es (length es))) = Done (None, v)"
proof -
  have d: "drop (tar_off es (length es)) (tar_image es) = replicate 1024 0" by (simp add: tar_image_def tar_off_def)
  have "tar_off es (length es) + 500 \<le> length (tar_image es)" by (simp add: length_tar_image)
  from tar_dev_read [OF assms(1) _ this]
  have r: "fs_read device_ops v d (of_nat (tar_off es (length es))) 500 = Done (replicate 500 0, 500, v)" by (simp add: d)
  have z: "char_of (0 :: nat) = NUL" by code_simp
  have u: "uchar NUL - uchar (CHR ''u'') \<noteq> 0" by code_simp
  have "strncmp (replicate 500 NUL @ ''ustar'' @ [NUL]) 257 500 5 = Done (uchar NUL - uchar (CHR ''u''))"
    by (simp add: strncmp_def strncmp_loop.simps [of _ _ 257] nth_append_left nth_append_right)
  then show ?thesis using r assms(2) u by (simp add: tarfs_getUstar_def US_defs store_bytes_def chars_of_def z)
qed

lemma USTAR_SIZE_pads:
  assumes "n < 2 ^ 64"
  shows "USTAR_SIZE (of_nat n) = of_nat (n + padding n)"
proof -
  have "unat ((of_nat n :: u64) mod 512) = n mod 512" using assms by (simp add: unat_mod unat_small)
  moreover have "n mod 512 < 2 ^ 64" using mod_less_divisor [of 512 n] by simp
  ultimately have m: "(of_nat n :: u64) mod 512 = of_nat (n mod 512)" by (metis unat_small word_unat_eq_iff)
  have z: "(of_nat (n mod 512) :: u64) = 0 \<longleftrightarrow> n mod 512 = 0"
  proof
    assume "(of_nat (n mod 512) :: u64) = 0"
    then have "unat (of_nat (n mod 512) :: u64) = 0" by (simp only: unat_0)
    then show "n mod 512 = 0" by (simp only: unat_small [OF \<open>n mod 512 < 2 ^ 64\<close>])
  qed simp
  have "(of_nat (512 - n mod 512) :: u64) = 512 - of_nat (n mod 512)" by (simp add: of_nat_diff less_imp_le)
  then show ?thesis by (simp add: USTAR_SIZE_def padding_def m z)
qed

lemma tarfs_next_entry:
  assumes "length (tar_image es) < 2 ^ 64" "k < length es" "entry_ok (es ! k)"
  shows "tarfs_next (te_block (es ! k)) (of_nat (tar_off es k)) = Done (of_nat (tar_off es (Suc k)))"
proof -
  have "tar_off es (Suc k) \<le> tar_off es (length es)" using assms(2) by (intro tar_off_mono) simp
  then have "length (te_data (es ! k)) < 2 ^ 64" using tar_off_Suc [OF assms(2)] assms(1)
    by (simp add: length_tar_image entry_bytes_def)
  from USTAR_SIZE_pads [OF this] show ?thesis
    using assms(3) tar_off_Suc [OF assms(2)] by (simp add: tarfs_next_def US_defs entry_ok_def entry_bytes_def algebra_simps)
qed

lemma ustar_print_entry:
  assumes "entry_ok e" "255 \<le> n" "n \<le> 256"
  shows "ustar_print (te_block e) n = Done (te_path e)"
proof -
  note st = entry_strings [OF assms(1)]
  have "print_name 256 n ''%s%s'' [VStr (Some (te_string e 345)), VStr (Some (te_string e 0))] = Done (te_path e)"
  proof (rule print_name_spec)
    show "xvasprintf (Some ''%s%s'') [VStr (Some (te_string e 345)), VStr (Some (te_string e 0))] = Done (te_path e)"
      by (simp add: xvasprintf_def print_formats te_path_def del: xvasprintf_loop.simps(2))
    show "NUL \<notin> set (te_path e)" using st(1,2) by (simp add: te_path_def cstr_at_def)
  qed (use assms in \<open>simp_all add: entry_ok_def\<close>)
  then show ?thesis by (simp add: ustar_print_def US_defs read_str_spec [OF st(1)] read_str_spec [OF st(2)])
qed

text \<open>The name under which an entry is looked up, and the first entry of a name from number \<open>k\<close> on.\<close>

definition te_label :: "tar_entry \<Rightarrow> string" where
  "te_label e = (if last (te_path e) = CHR ''/'' \<and> length (te_path e) > 1 then butlast (te_path e) else te_path e)"

definition tar_index :: "tar_entry list \<Rightarrow> nat \<Rightarrow> string \<Rightarrow> nat option" where
  "tar_index es k f = find (\<lambda>j. te_label (es ! j) = f) [k..<length es]"

lemma tarfs_find_entry:
  assumes "tar_dev v d es" "fn_dev n = Dev d" "\<forall>e\<in>set es. entry_ok e"
  shows "k \<le> length es \<Longrightarrow> length es - k < fuel \<Longrightarrow>
    tarfs_find fuel device_ops n f (of_nat (tar_off es k)) (if k < length es then Some (te_block (es ! k)) else None) v =
    Done (map_option (\<lambda>j. (of_nat (tar_off es j), te_block (es ! j))) (tar_index es k f), v)"
proof (induction fuel arbitrary: k)
  case (Suc fuel)
  show ?case
  proof (cases "k < length es")
    case False
    then show ?thesis by (simp add: tar_index_def)
  next
    case True
    let ?e = "es ! k"
    have e: "entry_ok ?e" using assms(3) True by simp
    have s: "strip_slash (te_path ?e) = Done (te_label ?e)" using e by (simp add: strip_slash_def te_label_def entry_ok_def)
    have small: "length (tar_image es) < 2 ^ 64" using assms(1) by (auto simp: tar_dev_def)
    have g: "tarfs_getUstar device_ops v n (of_nat (tar_off es (Suc k))) =
        Done (if Suc k < length es then Some (te_block (es ! Suc k)) else None, v)"
      using getUstar_entry [OF assms(1,2), of "Suc k"] getUstar_end [OF assms(1,2)] assms(3) True
      by (cases "Suc k = length es") simp_all
    have i: "tar_index es k f = (if te_label ?e = f then Some k else tar_index es (Suc k) f)"
      using True by (simp add: tar_index_def upt_conv_Cons)
    show ?thesis
      using True s g i Suc.IH [of "Suc k"] Suc.prems by (simp add: ustar_print_entry [OF e] tarfs_next_entry [OF small True e])
  qed
qed simp


text \<open>The numeric fields of a header end at the magic at the latest.\<close>

lemma strto_skip_bound:
  "p \<le> q \<Longrightarrow> q < length m \<Longrightarrow> \<not> isspace (schar (m ! q)) \<Longrightarrow> \<exists>r. p \<le> r \<and> r \<le> q \<and> strto_skip m p = Done r"
proof (induction "q - p" arbitrary: p)
  case 0
  then show ?case by (intro exI [of _ p]) (simp add: strto_skip.simps [of m p])
next
  case (Suc k)
  show ?case
  proof (cases "m ! p \<noteq> NUL \<and> isspace (schar (m ! p))")
    case True
    have "k = q - Suc p" "Suc p \<le> q" using Suc.hyps(2) by arith+
    from Suc.hyps(1) [OF this Suc.prems(2,3)] obtain r where "Suc p \<le> r" "r \<le> q" "strto_skip m (Suc p) = Done r" by blast
    then show ?thesis using True Suc.prems by (intro exI [of _ r]) (simp add: strto_skip.simps [of m p])
  next
    case False
    then show ?thesis using Suc.prems by (intro exI [of _ p]) (auto simp: strto_skip.simps [of m p])
  qed
qed

lemma short_runs_mono: "short_runs n m \<Longrightarrow> n' \<le> n \<Longrightarrow> short_runs n' m"
proof (induction m arbitrary: n n')
  case (Cons c m)
  from Cons.IH [of "n + 1" "n' + 1"] Cons.prems show ?case by (auto split: if_splits)
qed simp

lemma short_runs_drop: "short_runs n m \<Longrightarrow> short_runs 0 (drop i m)"
proof (induction m arbitrary: n i)
  case (Cons c m)
  show ?case
  proof (cases i)
    case 0
    then show ?thesis using short_runs_mono [OF Cons.prems, of 0] by simp
  next
    case (Suc j)
    with Cons show ?thesis by (auto split: if_splits)
  qed
qed simp

lemma short_runs_length:
  "short_runs n m \<Longrightarrow> \<forall>k<j. isvalid 10 (schar (m ! k)) \<Longrightarrow> j \<le> length m \<Longrightarrow> 0 < j \<Longrightarrow> n + j < 18"
proof (induction m arbitrary: n j)
  case (Cons c m)
  then obtain i where j: "j = Suc i" by (cases j) auto
  have c: "isvalid 10 (schar c)" "\<forall>k<i. isvalid 10 (schar (m ! k))" using Cons.prems(2) j by (auto dest: spec [of _ "Suc _"])
  with Cons.IH [of "n + 1" i] Cons.prems j show ?case by (cases "i = 0") auto
qed simp

lemma short_runs_break:
  assumes "short_runs 0 m" "i + 18 \<le> length m"
  shows "\<exists>k<18. \<not> isvalid 10 (schar (m ! (i + k)))"
proof (rule ccontr)
  assume "\<not> ?thesis"
  with short_runs_length [OF short_runs_drop [OF assms(1)], of 18 i] assms(2) show False
    by (simp add: le_diff_conv2)
qed

lemma strto_digits_bound:
  "p + k < length m \<Longrightarrow> \<not> isvalid 10 (schar (m ! (p + k))) \<Longrightarrow> k \<le> 18 \<Longrightarrow> uint v < 10 ^ (18 - k) \<Longrightarrow>
   \<exists>x r. strto_digits True m 10 p v = Done (x, r)"
proof (induction k arbitrary: p v)
  case 0
  then show ?case by (simp add: strto_digits.simps [of True m 10 p])
next
  case (Suc k)
  show ?case
  proof (cases "isvalid 10 (schar (m ! p))")
    case True
    define d where "d = schar (m ! p) - 48"
    have digit: "isdigit (schar (m ! p))" "0 \<le> d" "d \<le> 9"
      using True by (auto simp: isvalid_def isdigit_def d_def)
    have "18 - k = Suc (18 - Suc k)" using Suc.prems(3) by simp
    then have "uint v * 10 + d < 10 ^ (18 - k)" using Suc.prems(4) digit(3) by simp
    moreover have "(10 :: int) ^ (18 - k) \<le> 10 ^ 18" by (intro power_increasing) simp_all
    ultimately have small: "uint v * 10 + d < 10 ^ (18 - k)" "uint v * 10 + d < 2 ^ 63" by simp_all
    have "uint (of_int z :: u64) = z" if "0 \<le> z" "z < 2 ^ 63" for z
      using that by (simp add: uint_word_of_int)
    from this [OF _ small(2)] have "uint (of_int (uint v * 10 + d) :: u64) = uint v * 10 + d" using digit(2) by simp
    moreover have "v * 10 + of_int d = of_int (uint v * 10 + d)" by simp
    ultimately have "uint (v * 10 + of_int d) < 10 ^ (18 - k)" using small(1) by (simp only:)
    with Suc.IH [of "p + 1" "v * 10 + of_int d"] Suc.prems(1-3)
    have "\<exists>x r. strto_digits True m 10 (p + 1) (v * 10 + of_int d) = Done (x, r)" by simp
    moreover have "strto_digits True m 10 p v = strto_digits True m 10 (p + 1) (v * 10 + of_int d)"
      using True digit(1) small(2) Suc.prems(1) by (simp add: strto_digits.simps [of True m 10 p] Let_def d_def)
    ultimately show ?thesis by simp
  next
    case False
    then show ?thesis using Suc.prems by (simp add: strto_digits.simps [of True m 10 p])
  qed
qed

lemma strtol_bound:
  assumes "p \<le> q" "q + 18 < length m" "m ! q = CHR ''u''"
    and digits: "\<And>i. p \<le> i \<Longrightarrow> i < q \<Longrightarrow> \<exists>k<18. \<not> isvalid 10 (schar (m ! (i + k)))"
  shows "\<exists>x. ustar_number strtol m p 10 = Done x"
proof -
  have u: "\<not> isspace (schar (CHR ''u''))" "\<not> isvalid 10 (schar (CHR ''u''))" by code_simp+
  obtain r where r: "p \<le> r" "r \<le> q" "strto_skip m p = Done r"
    using strto_skip_bound [OF assms(1), of m] assms(2,3) u by auto
  obtain neg r2 where r2: "strto_sign m r = Done (neg, r2)" "p \<le> r2" "r2 \<le> q"
  proof (cases "r = q")
    case True
    then show ?thesis using that [of False r] assms r(1) by (simp add: strto_sign_def)
  next
    case False
    have "strto_sign m r = Done (m ! r = CHR ''-'', if m ! r = CHR ''-'' \<or> m ! r = CHR ''+'' then r + 1 else r)"
      using r(2) assms(2) by (simp add: strto_sign_def)
    then show ?thesis using that False r(1,2) by simp
  qed
  obtain k where k: "k < 18" "\<not> isvalid 10 (schar (m ! (r2 + k)))"
  proof (cases "r2 = q")
    case True
    then show ?thesis using that [of 0] assms(3) u(2) by simp
  next
    case False
    then show ?thesis using that digits [of r2] r2(2,3) by auto
  qed
  obtain x e where "strto_digits True m 10 r2 0 = Done (x, e)"
    using strto_digits_bound [of r2 k m 0] k r2(3) assms(2) by auto
  then show ?thesis using r(3) r2(1) by (simp add: ustar_number_def strtol_def strto_body_def strto_prefix_def)
qed

definition te_number :: "tar_entry \<Rightarrow> nat \<Rightarrow> u64" where
  "te_number e field = (case ustar_number strtol (te_block e) field 10 of Done x \<Rightarrow> x | _ \<Rightarrow> 0)"

lemma te_number_read:
  assumes "entry_ok e" "100 \<le> field" "field \<le> 257"
  shows "ustar_number strtol (te_block e) field 10 = Done (te_number e field)"
proof -
  have len: "length (te_header e) = 512" using assms(1) by (simp add: entry_ok_def)
  then have "te_header e ! 257 = take 5 (drop 257 (te_header e)) ! 0" by simp
  also have "take 5 (drop 257 (te_header e)) = ''ustar''" using assms(1) by (simp add: entry_ok_def)
  also have "''ustar'' ! 0 = CHR ''u''" by simp
  finally have u: "te_block e ! 257 = CHR ''u''" by (simp add: te_block_def)
  have digits: "\<exists>k<18. \<not> isvalid 10 (schar (te_block e ! (i + k)))" if "field \<le> i" "i < 257" for i
  proof -
    have "short_runs 0 (take 175 (drop 100 (te_header e)))" using assms(1) by (simp add: entry_ok_def short_numbers_def)
    moreover have "i - 100 + 18 \<le> length (take 175 (drop 100 (te_header e)))" using len that(2) by simp
    ultimately obtain k where "k < 18" "\<not> isvalid 10 (schar (take 175 (drop 100 (te_header e)) ! (i - 100 + k)))"
      using short_runs_break by blast
    with that assms(2) len show ?thesis by (intro exI [of _ k]) (simp add: te_block_def)
  qed
  from strtol_bound [OF assms(3) _ u digits] entry_bytes_block(3) [OF assms(1)] show ?thesis
    by (auto simp: te_number_def)
qed

text \<open>The file node of an entry.\<close>

definition te_node :: "tar_entry list \<Rightarrow> addr \<Rightarrow> nat \<Rightarrow> fs_node_t" where
  "te_node es d j = fs_node_zero\<lparr>fn_name := te_path (es ! j), fn_flags := ustar_flags (te_type (es ! j)),
     fn_length := of_nat (length (te_data (es ! j))), fn_gid := ucast (te_number (es ! j) 116), fn_uid := ucast (te_number (es ! j) 108),
     fn_mask := ucast (te_number (es ! j) 100), fn_inode := of_nat (tar_off es j), fn_dev := Dev d, fn_read := M_driver TARFS,
     fn_write := M_driver TARFS, fn_finddir := M_driver TARFS, fn_readdir := M_driver TARFS\<rparr>"

lemma ustarToNode_entry:
  assumes "entry_ok (es ! j)" "fn_dev n = Dev d"
  shows "tarfs_ustarToNode (te_block (es ! j)) (of_nat (tar_off es j)) n = Done (te_node es d j)"
proof -
  have "te_block (es ! j) ! 156 = te_type (es ! j)" by (simp add: te_block_def te_type_def)
  then show ?thesis using assms entry_bytes_block(3) [OF assms(1)]
    by (simp add: tarfs_ustarToNode_def ustar_print_entry te_number_read US_defs te_node_def) (simp add: entry_ok_def)
qed


section \<open>Lookup\<close>

text \<open>The start of the names in a directory.\<close>

definition te_dir :: "tar_entry \<Rightarrow> string" where
  "te_dir e = (if te_string e 0 = ''/'' then [] else te_path e)"

lemma strncat_source_cstr: "cstr_at m p s \<Longrightarrow> length s \<le> n \<Longrightarrow> strncat_source m p n = Done s"
proof (induction s arbitrary: p n)
  case Nil
  then show ?case by (cases n) (simp_all add: cstr_at_simps)
next
  case (Cons c s)
  then show ?case by (cases n) (simp_all add: cstr_at_simps)
qed

lemma cstr_at_left: "cstr_at m p s \<Longrightarrow> cstr_at (m @ w) p s"
  by (auto simp: cstr_at_def nth_append)

lemma tarfs_search_entry:
  assumes "entry_ok e"
  shows "tarfs_search (te_block e) = Done (te_dir e)"
proof -
  note st = entry_strings [OF assms]
  have "cstr_at (te_block e @ ''/'' @ [NUL]) 500 ''/''" using entry_bytes_block(3) [OF assms] by (simp add: cstr_at_def nth_append)
  from strcmp_spec [OF cstr_at_left [OF st(2)] this]
  have "\<exists>x. strcmp (te_block e @ ''/'' @ [NUL]) 0 500 = Done x \<and> (x = 0 \<longleftrightarrow> te_string e 0 = ''/'')"
    using st(2) by (auto simp: str_diff_zero cstr_at_def)
  moreover have "length (te_path e) < 256" using assms by (simp add: entry_ok_def)
  ultimately show ?thesis
    using strncat_source_cstr [OF st(1), of 155] strncat_source_cstr [OF st(2), of 100] st(3,4)
    by (auto simp: tarfs_search_def US_defs te_dir_def te_path_def strncat_array_def)
qed

lemma finddir_entry:
  assumes "tar_dev v d es" "node \<noteq> NULL" "vfs_nodes v node = Some n" "fn_dev n = Dev d" "fn_inode n = of_nat (tar_off es k)"
    "\<forall>e\<in>set es. entry_ok e" "k < length es" "te_type (es ! k) = USTAR_DIRECTORY" "NUL \<notin> set path"
    "length (te_dir (es ! k) @ path) < 256"
  shows "tarfs_finddir device_ops node path v = Done (case tar_index es k (te_dir (es ! k) @ path) of
     None \<Rightarrow> (NULL, v) | Some j \<Rightarrow> new_fs_node v (te_node es d j))"
proof -
  let ?e = "es ! k"
  have e: "entry_ok ?e" using assms(6,7) by simp
  have t: "array_get (te_block ?e) 156 = Done USTAR_DIRECTORY"
    using assms(8) entry_bytes_block(3) [OF e] by (simp add: te_block_def te_type_def)
  have "cstr_at (path @ [NUL]) 0 path" using assms(9) by (simp add: cstr_at_def)
  then have p: "strncat_array 256 (te_dir ?e) (path @ [NUL]) 0 (length path) = Done (te_dir ?e @ path)"
    using assms(10) by (simp add: strncat_array_def strncat_source_cstr)
  have "length es \<le> tar_off es (length es)"
  proof -
    have "j \<le> length es \<Longrightarrow> j \<le> tar_off es j" for j
    proof (induction j)
      case (Suc j)
      then have "512 \<le> length (entry_bytes (es ! j))" using entry_bytes_block(2) [of "es ! j"] assms(6) by simp
      then show ?case using Suc tar_off_Suc [of j es] by simp
    qed simp
    then show ?thesis by simp
  qed
  then have "length es - k < tarfs_rounds" using assms(1) by (auto simp: tar_dev_def length_tar_image tarfs_rounds_def)
  from tarfs_find_entry [OF assms(1,4,6) _ this, of "te_dir ?e @ path"]
  have f: "tarfs_find tarfs_rounds device_ops n (te_dir ?e @ path) (of_nat (tar_off es k)) (Some (te_block ?e)) v =
      Done (map_option (\<lambda>j. (of_nat (tar_off es j), te_block (es ! j))) (tar_index es k (te_dir ?e @ path)), v)"
    using assms(7) by simp
  have j: "entry_ok (es ! j)" if "tar_index es k (te_dir ?e @ path) = Some j" for j
    using that assms(6) by (auto simp: tar_index_def find_Some_iff)
  show ?thesis
    using assms(2,3,5) t p f getUstar_entry [OF assms(1,4,7) e] tarfs_search_entry [OF e] ustarToNode_entry [OF j assms(4)]
    by (auto simp: tarfs_finddir_def fs_node_at_def US_defs split: option.splits)
qed


text \<open>Reading the file of an entry.\<close>

lemma read_entry:
  assumes "tar_dev v d es" "vfs_nodes v node = Some n" "fn_dev n = Dev d" "fn_inode n = of_nat (tar_off es j)"
    "fn_flags n = VFS_FILE" "fn_length n = of_nat (length (te_data (es ! j)))" "j < length es" "entry_ok (es ! j)"
    "0 < sz" "off + sz \<le> length (te_data (es ! j))"
  shows "tarfs_read device_ops node (of_nat off) (of_nat sz) v = Done (take sz (drop off (te_data (es ! j))), of_nat sz, v)"
proof -
  let ?e = "es ! j"
  have len: "length (te_header ?e) = 512" using assms(8) by (simp add: entry_ok_def)
  have small: "length (tar_image es) < 2 ^ 64" using assms(1) by (auto simp: tar_dev_def)
  have "tar_off es (Suc j) \<le> tar_off es (length es)" using assms(7) by (intro tar_off_mono) simp
  then have fit: "tar_off es j + 512 + length (te_data ?e) \<le> length (tar_image es)"
    using tar_off_Suc [OF assms(7)] len by (simp add: length_tar_image entry_bytes_def)
  have u: "unat (of_nat off :: u64) = off" "unat (of_nat sz :: u64) = sz" "unat (fn_length n) = length (te_data ?e)"
    "unat (of_nat (off + sz) :: u64) = off + sz"
    using fit small assms(6,10) by (simp_all only: unat_small)
  have "(of_nat off + of_nat sz :: u64) = of_nat (off + sz)" by simp
  then have c: "tarfs_clip n (of_nat off) (of_nat sz) = Some (of_nat sz)"
    using u assms(5,10) by (simp add: tarfs_clip_def word_less_nat_alt)
  have "drop (tar_off es j + 512 + off) (tar_image es) = drop (512 + off) (drop (tar_off es j) (tar_image es))"
    by (simp add: ac_simps)
  also have "\<dots> = drop off (te_data ?e) @ replicate (padding (length (te_data ?e))) 0 @ drop (tar_off es (Suc j)) (tar_image es)"
    unfolding drop_tar_image [OF assms(7)] using assms(10) len by (simp add: entry_bytes_def)
  finally have d: "take sz (drop (tar_off es j + 512 + off) (tar_image es)) = take sz (drop off (te_data ?e))"
    using assms(10) by simp
  have "tar_off es j + 512 + off + sz \<le> length (tar_image es)" using fit assms(10) by simp
  from tar_dev_read [OF assms(1) _ this] assms(9) d
  have r: "fs_read device_ops v d (of_nat (tar_off es j + 512 + off)) (of_nat sz) = Done (take sz (drop off (te_data ?e)), of_nat sz, v)"
    by simp
  have "fn_inode n + 512 + of_nat off = of_nat (tar_off es j + 512 + off)" by (simp add: assms(4))
  then show ?thesis
    using c r assms(2-4) getUstar_entry [OF assms(1,3,7,8)] by (simp add: tarfs_read_def fs_node_at_def tarfs_dev_def)
qed

text \<open>
  Walking down a path from entry \<open>k\<close>: a file ends the walk, whatever is left of the path, and nothing is found
  below what is not a directory.
\<close>

fun tar_walk :: "tar_entry list \<Rightarrow> nat \<Rightarrow> string list \<Rightarrow> nat option" where
  "tar_walk es k [] = Some k"
| "tar_walk es k (c # cs) =
     (if te_type (es ! k) \<noteq> USTAR_DIRECTORY then None
      else case tar_index es k (te_dir (es ! k) @ c) of
        None \<Rightarrow> None
      | Some j \<Rightarrow> if ustar_flags (te_type (es ! j)) = VFS_FILE then Some j else tar_walk es j cs)"

lemma ustar_flags_dir: "ustar_flags t AND VFS_DIRECTORY \<noteq> 0 \<longleftrightarrow> t = USTAR_DIRECTORY"
  by (simp add: ustar_flags_def USTAR_HARD_LINK_def USTAR_SYMLINK_def USTAR_CHARDEV_def USTAR_BLOCKDEV_def USTAR_DIRECTORY_def
      USTAR_PIPE_def VFS_FILE_def VFS_SYMLINK_def VFS_CHARDEVICE_def VFS_BLOCKDEVICE_def VFS_DIRECTORY_def VFS_PIPE_def)

lemma tar_dev_new: "tar_dev v d es \<Longrightarrow> nodes_ok v \<Longrightarrow> tar_dev (snd (new_fs_node v n)) d es"
  by (auto simp: tar_dev_def new_fs_node_def nodes_ok_def)

lemma tar_index_less: "tar_index es k f = Some j \<Longrightarrow> j < length es"
  by (auto simp: tar_index_def find_Some_iff)


text \<open>What opening a file leaves behind: new file nodes, and nothing else.\<close>

lemma kopen_loop_walk:
  assumes "tar_dev v d es" "nodes_ok v" "\<forall>e\<in>set es. entry_ok e" "node \<noteq> NULL" "vfs_nodes v node = Some (te_node es d k)" "k < length es"
    "\<forall>c\<in>set cs. NUL \<notin> set c" "\<forall>e\<in>set es. \<forall>c\<in>set cs. length (te_dir e @ c) < 256"
  shows "\<exists>node' v'. kopen_loop (tarfs_ops device_ops) v node cs = Done (node', v') \<and> tar_dev v' d es \<and> nodes_ok v' \<and>
     (case tar_walk es k cs of None \<Rightarrow> node' = NULL
      | Some j \<Rightarrow> node' \<noteq> NULL \<and> node' < vfs_brk v' \<and> j < length es \<and> vfs_nodes v' node' = Some (te_node es d j))"
  using assms
proof (induction cs arbitrary: v node k)
  case Nil
  have "node < vfs_brk v" using Nil.prems(2,5) unfolding nodes_ok_def by (metis leI option.distinct(1))
  with Nil show ?case by simp
next
  case (Cons c cs)
  let ?n = "te_node es d k"
  have n: "fn_dev ?n = Dev d" "fn_inode ?n = of_nat (tar_off es k)" "fn_flags ?n = ustar_flags (te_type (es ! k))" "fn_finddir ?n = M_driver TARFS"
    by (simp_all add: te_node_def)
  have rel: "kopen_relative (tarfs_ops device_ops) v node c =
      (if te_type (es ! k) = USTAR_DIRECTORY then tarfs_finddir device_ops node c v else Done (NULL, v))"
    using Cons.prems(4,5) n(3,4) by (simp add: kopen_relative_def fs_finddir_def fs_node_at_def ustar_flags_dir tarfs_ops_def)
  show ?case
  proof (cases "te_type (es ! k) = USTAR_DIRECTORY")
    case False
    then have "kopen_loop (tarfs_ops device_ops) v node (c # cs) = Done (NULL, v)" using Cons.prems(4) rel by (cases cs) simp_all
    then show ?thesis using False Cons.prems(1,2) by simp
  next
    case True
    have f: "tarfs_finddir device_ops node c v = Done (case tar_index es k (te_dir (es ! k) @ c) of
       None \<Rightarrow> (NULL, v) | Some j \<Rightarrow> new_fs_node v (te_node es d j))"
      using Cons.prems(7,8) nth_mem [OF Cons.prems(6)]
      by (intro finddir_entry [OF Cons.prems(1,4,5) n(1,2) Cons.prems(3,6) True]) simp_all
    show ?thesis
    proof (cases "tar_index es k (te_dir (es ! k) @ c)")
      case None
      then have "kopen_loop (tarfs_ops device_ops) v node (c # cs) = Done (NULL, v)" using Cons.prems(4) rel f True by (cases cs) simp_all
      then show ?thesis using None Cons.prems(1,2) by simp
    next
      case (Some j)
      define v1 where "v1 = snd (new_fs_node v (te_node es d j))"
      have brk: "vfs_brk v \<noteq> NULL" using Cons.prems(2) by (simp add: nodes_ok_def)
      have v1: "new_fs_node v (te_node es d j) = (vfs_brk v, v1)" "vfs_nodes v1 (vfs_brk v) = Some (te_node es d j)" "vfs_brk v < vfs_brk v1"
        by (simp_all add: v1_def new_fs_node_def)
      have ok: "tar_dev v1 d es" "nodes_ok v1"
        using tar_dev_new [OF Cons.prems(1,2)] Cons.prems(2) by (auto simp: v1_def nodes_ok_def new_fs_node_def)
      have step: "kopen_loop (tarfs_ops device_ops) v node (c # cs) =
          (if ustar_flags (te_type (es ! j)) = VFS_FILE then Done (vfs_brk v, v1) else kopen_loop (tarfs_ops device_ops) v1 (vfs_brk v) cs)"
        using Cons.prems(4) rel f True Some v1 brk by (simp add: fs_node_at_def) (simp add: te_node_def)
      show ?thesis
      proof (cases "ustar_flags (te_type (es ! j)) = VFS_FILE")
        case True
        then show ?thesis using step ok v1(2,3) brk Some \<open>te_type (es ! k) = USTAR_DIRECTORY\<close> tar_index_less by simp
      next
        case False
        from Cons.IH [OF ok Cons.prems(3) brk v1(2) tar_index_less [OF Some]] Cons.prems(7,8) show ?thesis
          using step False Some \<open>te_type (es ! k) = USTAR_DIRECTORY\<close> by simp
      qed
    qed
  qed
qed


text \<open>
  \<open>strtoull\<close> takes a sign: a header with the size \<open>-1000\<close> (octal) is its own successor, and a search that does not
  stop at it goes on for ever.
\<close>

lemma strtoull_negative: "strtoull (''-1000'' @ [NUL]) 0 8 = Done (- 512, Some 5)"
  by code_simp

lemma tarfs_find_hangs:
  assumes "tarfs_getUstar ops s n ino = Done (Some h, s)" "ustar_number strtoull h US_size 8 = Done (- 512)"
    "ustar_print h 256 = Done f" "strip_slash f = Done g" "g \<noteq> search_filename"
  shows "tarfs_find fuel ops n search_filename ino (Some h) s = Hang"
proof -
  have "USTAR_SIZE (- 512) = - 512" by code_simp
  then have "tarfs_next h ino = Done ino" using assms(2) by (simp add: tarfs_next_def)
  then show ?thesis using assms by (induction fuel) simp_all
qed

text \<open>The first two entries of every directory, and the listing of the root of a small archive.\<close>

lemma tarfs_readdir_dots:
  "tarfs_readdir ops node 0 s = Done (Some \<lparr>d_ino = 0, d_name = ''.''\<rparr>, s)"
  "tarfs_readdir ops node 1 s = Done (Some \<lparr>d_ino = 0, d_name = ''..''\<rparr>, s)"
  by (simp_all add: tarfs_readdir_def)

definition example_header :: "string \<Rightarrow> string \<Rightarrow> char \<Rightarrow> mem" where
  "example_header nm sz t = nm @ replicate (100 - length nm) NUL @ ''0000644'' @ [NUL] @ ''0000000'' @ [NUL] @ ''0000000'' @ [NUL] @
     sz @ [NUL] @ replicate 20 NUL @ [t] @ replicate 100 NUL @ ''ustar'' @ [NUL] @ ''00'' @ replicate 80 NUL @ replicate 155 NUL @ replicate 12 NUL"

definition example_archive :: "tar_entry list" where
  "example_archive =
     [\<lparr>te_header = example_header ''/'' ''00000000000'' (CHR ''5''), te_data = []\<rparr>,
      \<lparr>te_header = example_header ''a'' ''00000000003'' (CHR ''0''), te_data = [7, 8, 9]\<rparr>]"

lemma example_entries_ok: "entry_ok (example_archive ! 0)" "entry_ok (example_archive ! 1)"
  by code_simp+

lemma example_archive_ok: "\<forall>e\<in>set example_archive. entry_ok e" "example_archive \<noteq> []"
proof -
  have "example_archive = [example_archive ! 0, example_archive ! 1]" by (simp add: example_archive_def)
  then have "set example_archive = {example_archive ! 0, example_archive ! 1}" by (metis list.simps(15) set_empty)
  then show "\<forall>e\<in>set example_archive. entry_ok e" using example_entries_ok by simp
  show "example_archive \<noteq> []" by (simp add: example_archive_def)
qed

lemma te_dir_short: "entry_ok e \<Longrightarrow> length (te_dir e) < 254"
  by (simp add: te_dir_def entry_ok_def)

lemma example_image_length: "length (tar_image example_archive) = 2560"
  by code_simp

lemma example_walk: "tar_walk example_archive 0 [''a''] = Some 1"
  by code_simp

end
