(* ===== verification/Initrd.thy ===== *)
theory Initrd
  imports Tarfs
begin

text \<open>
  \<open>kernel_mountRamdisk\<close> of \<open>hexahedron/kernel/kernel.c\<close>: the boot module with the archive becomes a RAM device,
  and the archive file system on it is mounted at \<open>/device/initrd\<close>. What this needs of the file system layer,
  and the end-to-end statement about the files of the archive.
\<close>

section \<open>Mounting the ramdisk\<close>







section \<open>Paths below a mount point\<close>








section \<open>The ramdisk after start-up\<close>














section \<open>Archives that are trees\<close>





















section \<open>Properties\<close>








end
