(* ===== verification/Paging.thy ===== *)
theory Paging
  imports Pmm Pool
begin

text \<open>
  \<open>hexahedron/arch/x86_64/mem.c\<close>: page tables, copy on write, and the allocation of virtual memory. Physical
  memory is the contents of its frames, 512 words each, by frame number. The kernel reaches page tables
  through the window at \<open>MEM_PHYSMEM_MAP_REGION\<close>, so a pointer to a table is an address there, and a pointer to
  an entry is that address and the index. The TLB is not part of the state.
\<close>

section \<open>Entries\<close>

text \<open>The bits of \<open>page_t\<close>. The word is \<open>data\<close>.\<close>

type_synonym page_t = u64

definition pg_present :: "page_t \<Rightarrow> bool" where "pg_present p \<longleftrightarrow> bit p 0"
definition pg_rw :: "page_t \<Rightarrow> bool" where "pg_rw p \<longleftrightarrow> bit p 1"
definition pg_usermode :: "page_t \<Rightarrow> bool" where "pg_usermode p \<longleftrightarrow> bit p 2"
definition pg_size :: "page_t \<Rightarrow> bool" where "pg_size p \<longleftrightarrow> bit p 7"
definition pg_cow :: "page_t \<Rightarrow> bool" where "pg_cow p \<longleftrightarrow> bit p 52"
definition pg_address :: "page_t \<Rightarrow> u64" where "pg_address p = take_bit 28 (drop_bit 12 p)"

definition pg_set :: "nat \<Rightarrow> bool \<Rightarrow> page_t \<Rightarrow> page_t" where
  "pg_set n b p = (if b then set_bit n p else unset_bit n p)"

abbreviation (input) PRESENT :: nat where "PRESENT \<equiv> 0"
abbreviation (input) RW :: nat where "RW \<equiv> 1"
abbreviation (input) USERMODE :: nat where "USERMODE \<equiv> 2"
abbreviation (input) WRITETHROUGH :: nat where "WRITETHROUGH \<equiv> 3"
abbreviation (input) CACHE_DISABLE :: nat where "CACHE_DISABLE \<equiv> 4"
abbreviation (input) SIZE :: nat where "SIZE \<equiv> 7"
abbreviation (input) COW :: nat where "COW \<equiv> 52"

definition MEM_SET_FRAME :: "page_t \<Rightarrow> u64 \<Rightarrow> page_t" where
  "MEM_SET_FRAME p frame = (p AND NOT (push_bit 12 (mask 28))) OR push_bit 12 (take_bit 28 (drop_bit 12 frame))"

text \<open>
  A bit field of 28 bits is promoted to \<open>int\<close>, so the shift is one of 32 bits and its result is sign extended.
\<close>

definition MEM_GET_FRAME :: "page_t \<Rightarrow> u64" where
  "MEM_GET_FRAME p = scast (push_bit 12 (ucast (pg_address p) :: cint))"

definition MEM_PHYSMEM_MAP_REGION :: u64 where "MEM_PHYSMEM_MAP_REGION = 0xFFFFFF8000000000"
definition MEM_PHYSMEM_MAP_SIZE :: u64 where "MEM_PHYSMEM_MAP_SIZE = 0x1000000000"

definition MEM_IS_CANONICAL :: "u64 \<Rightarrow> bool" where
  "MEM_IS_CANONICAL addr \<longleftrightarrow> addr AND 0xFFFF000000000000 = 0xFFFF000000000000 \<or> addr AND 0xFFFF000000000000 = 0"

definition MEM_ALIGN_PAGE_DESTRUCTIVE :: "u64 \<Rightarrow> u64" where "MEM_ALIGN_PAGE_DESTRUCTIVE addr = addr AND NOT 0xFFF"

definition MEM_PML4_INDEX :: "u64 \<Rightarrow> nat" where "MEM_PML4_INDEX x = unat (drop_bit 39 x AND 0x1FF)"
definition MEM_PDPT_INDEX :: "u64 \<Rightarrow> nat" where "MEM_PDPT_INDEX x = unat (drop_bit 30 x AND 0x1FF)"
definition MEM_PAGEDIR_INDEX :: "u64 \<Rightarrow> nat" where "MEM_PAGEDIR_INDEX x = unat (drop_bit 21 x AND 0x1FF)"
definition MEM_PAGETBL_INDEX :: "u64 \<Rightarrow> nat" where "MEM_PAGETBL_INDEX x = unat (drop_bit 12 x AND 0x1FF)"

definition MEM_DEFAULT :: u64 where "MEM_DEFAULT = 0"
definition MEM_CREATE :: u64 where "MEM_CREATE = 0x01"
definition MEM_PAGE_KERNEL :: u64 where "MEM_PAGE_KERNEL = 0x02"
definition MEM_PAGE_READONLY :: u64 where "MEM_PAGE_READONLY = 0x04"
definition MEM_PAGE_WRITETHROUGH :: u64 where "MEM_PAGE_WRITETHROUGH = 0x08"
definition MEM_PAGE_NOT_CACHEABLE :: u64 where "MEM_PAGE_NOT_CACHEABLE = 0x10"
definition MEM_PAGE_NOT_PRESENT :: u64 where "MEM_PAGE_NOT_PRESENT = 0x20"
definition MEM_PAGE_NOALLOC :: u64 where "MEM_PAGE_NOALLOC = 0x40"
definition MEM_PAGE_FREE :: u64 where "MEM_PAGE_FREE = 0x80"
definition MEM_PAGE_WRITE_COMBINE :: u64 where "MEM_PAGE_WRITE_COMBINE = 0x200"
definition MEM_ALLOC_CONTIGUOUS :: u64 where "MEM_ALLOC_CONTIGUOUS = 0x01"
definition MEM_ALLOC_FRAGILE :: u64 where "MEM_ALLOC_FRAGILE = 0x02"
definition MEM_ALLOC_HEAP :: u64 where "MEM_ALLOC_HEAP = 0x04"
definition MEM_ALLOC_CRITICAL :: u64 where "MEM_ALLOC_CRITICAL = 0x08"
definition PTR_USER :: u32 where "PTR_USER = 0x01"
definition PTR_READONLY :: u32 where "PTR_READONLY = 0x02"
definition PTR_STRICT :: u32 where "PTR_STRICT = 0x04"

definition has_flag :: "'w::len word \<Rightarrow> 'w word \<Rightarrow> bool" where
  "has_flag flags f \<longleftrightarrow> flags AND f \<noteq> 0"

section \<open>Physical memory\<close>

record mem_state =
  ms_pmm :: pmm_t
  ms_frames :: "nat \<rightharpoonup> u64 list"
  mem_pageReferences :: "u8 list"
  ref_lock :: bool
  cow_lock :: bool
  heap_lock :: bool
  current_dir :: u64
  mem_kernelHeap :: u64

type_synonym page_ptr = "u64 \<times> nat"

definition mem_remapPhys :: "u64 \<Rightarrow> u64 \<Rightarrow> u64 outcome" where
  "mem_remapPhys frame sz =
     (if sz > MEM_PHYSMEM_MAP_SIZE then Panic KERNEL_BAD_ARGUMENT_ERROR else Done (frame OR MEM_PHYSMEM_MAP_REGION))"

text \<open>The frame behind an address of the window. Outside the window, and inside a frame, there is no table.\<close>

definition window_frame :: "u64 \<Rightarrow> nat outcome" where
  "window_frame v =
     (if v AND NOT (MEM_PHYSMEM_MAP_SIZE - 1) = MEM_PHYSMEM_MAP_REGION \<and> v AND 0xFFF = 0
      then Done (unat (drop_bit 12 (v AND (MEM_PHYSMEM_MAP_SIZE - 1)))) else Fault BadPointer)"

definition load_frame :: "mem_state \<Rightarrow> u64 \<Rightarrow> u64 list outcome" where
  "load_frame ms v = and_then (window_frame v) (\<lambda>f. case ms_frames ms f of Some ws \<Rightarrow> Done ws | None \<Rightarrow> Fault BadPointer)"

definition store_frame :: "mem_state \<Rightarrow> u64 \<Rightarrow> u64 list \<Rightarrow> mem_state outcome" where
  "store_frame ms v ws =
     and_then (window_frame v) (\<lambda>f. if ms_frames ms f = None then Fault BadPointer else Done (ms\<lparr>ms_frames := (ms_frames ms)(f \<mapsto> ws)\<rparr>))"

definition read_page :: "mem_state \<Rightarrow> page_ptr \<Rightarrow> page_t outcome" where
  "read_page ms e = and_then (load_frame ms (fst e)) (\<lambda>ws. array_get ws (snd e))"

definition write_page :: "mem_state \<Rightarrow> page_ptr \<Rightarrow> page_t \<Rightarrow> mem_state outcome" where
  "write_page ms e w =
     and_then (load_frame ms (fst e)) (\<lambda>ws. and_then (array_set ws (snd e) w) (\<lambda>ws'. store_frame ms (fst e) ws'))"

definition mem_pmm :: "mem_state \<Rightarrow> (u64 \<times> mem_state) outcome" where
  "mem_pmm ms = and_then (pmm_allocateBlock (ms_pmm ms)) (\<lambda>(block, p). Done (block, ms\<lparr>ms_pmm := p\<rparr>))"

definition mem_pmm_free :: "u64 \<Rightarrow> mem_state \<Rightarrow> mem_state outcome" where
  "mem_pmm_free block ms = and_then (pmm_freeBlock block (ms_pmm ms)) (\<lambda>p. Done (ms\<lparr>ms_pmm := p\<rparr>))"

text \<open>A new frame filled with zeros, as page tables are made.\<close>

definition new_table :: "mem_state \<Rightarrow> (u64 \<times> u64 \<times> mem_state) outcome" where
  "new_table ms =
     and_then (mem_pmm ms) (\<lambda>(block, ms1).
     and_then (mem_remapPhys block PMM_BLOCK_SIZE) (\<lambda>block_remap.
     and_then (store_frame ms1 block_remap (replicate 512 0)) (\<lambda>ms2. Done (block, block_remap, ms2))))"

section \<open>The page walk\<close>

text \<open>
  The block that \<open>mem_getPage\<close> repeats for three levels: an entry that is not present gets a table, unless the
  flags are 0 (\<^verbatim>\<open>!flags & MEM_CREATE\<close> is \<^verbatim>\<open>(!flags) & 1\<close>). False is the jump to \<open>bad_page\<close>.
\<close>

definition walk_entry :: "mem_state \<Rightarrow> u64 \<Rightarrow> page_ptr \<Rightarrow> (bool \<times> mem_state) outcome" where
  "walk_entry ms flags e =
     and_then (read_page ms e) (\<lambda>w.
     if pg_present w then Done (True, ms)
     else if flags = 0 then Done (False, ms)
     else
       and_then (new_table ms) (\<lambda>(block, block_remap, ms1).
       and_then (read_page ms1 e) (\<lambda>w1.
       and_then (write_page ms1 e (MEM_SET_FRAME (pg_set USERMODE True (pg_set RW True (pg_set PRESENT True w1))) block)) (\<lambda>ms2.
       Done (True, ms2)))))"

text \<open>The table an entry points to.\<close>

definition next_table :: "mem_state \<Rightarrow> page_ptr \<Rightarrow> (page_t \<times> u64) outcome" where
  "next_table ms e =
     and_then (read_page ms e) (\<lambda>w. and_then (mem_remapPhys (MEM_GET_FRAME w) PMM_BLOCK_SIZE) (\<lambda>t. Done (w, t)))"

definition mem_getPage :: "mem_state \<Rightarrow> u64 \<Rightarrow> u64 \<Rightarrow> u64 \<Rightarrow> (page_ptr option \<times> mem_state) outcome" where
  "mem_getPage ms dir address flags =
     (if \<not> MEM_IS_CANONICAL address then Done (None, ms)
      else
        let addr = (if address mod 0x1000 \<noteq> 0 then MEM_ALIGN_PAGE_DESTRUCTIVE address else address);
            directory = (if dir = 0 then current_dir ms else dir);
            pml4_entry = (directory, MEM_PML4_INDEX addr) in
        and_then (walk_entry ms flags pml4_entry) (\<lambda>(ok4, ms1).
        if \<not> ok4 then Done (None, ms1)
        else
          and_then (next_table ms1 pml4_entry) (\<lambda>(w4, pdpt).
          let pdpt_entry = (pdpt, MEM_PDPT_INDEX addr) in
          and_then (walk_entry ms1 flags pdpt_entry) (\<lambda>(ok3, ms2).
          if \<not> ok3 then Done (None, ms2)
          else
            and_then (next_table ms2 pdpt_entry) (\<lambda>(w3, pd).
            if pg_size w3 then Done (None, ms2)
            else
              let pde = (pd, MEM_PAGEDIR_INDEX addr) in
              and_then (walk_entry ms2 flags pde) (\<lambda>(ok2, ms3).
              if \<not> ok2 then Done (None, ms3)
              else
                and_then (next_table ms3 pde) (\<lambda>(w2, table).
                if pg_size w2 then Done (None, ms3)
                else Done (Some (table, MEM_PAGETBL_INDEX addr), ms3)))))))) "

section \<open>Reference counts\<close>

definition mem_incrementPageReference :: "mem_state \<Rightarrow> page_ptr option \<Rightarrow> (int \<times> mem_state) outcome" where
  "mem_incrementPageReference ms page = (case page of
     None \<Rightarrow> Done (0, ms)
   | Some e \<Rightarrow>
       and_then (read_page ms e) (\<lambda>w.
       if \<not> pg_present w then Done (0, ms)
       else
         and_then (lock_acquire (ref_lock ms)) (\<lambda>l.
         let idx = unat (pg_address w) in
         and_then (array_get (mem_pageReferences ms) idx) (\<lambda>r.
         if r = 255 then Done (0, ms\<lparr>ref_lock := lock_release l\<rparr>)
         else
           and_then (array_set (mem_pageReferences ms) idx (r + 1)) (\<lambda>rs.
           Done (uint (r + 1), ms\<lparr>mem_pageReferences := rs, ref_lock := lock_release l\<rparr>))))))"

definition mem_decrementPageReference :: "mem_state \<Rightarrow> page_ptr option \<Rightarrow> (int \<times> mem_state) outcome" where
  "mem_decrementPageReference ms page = (case page of
     None \<Rightarrow> Done (0, ms)
   | Some e \<Rightarrow>
       and_then (read_page ms e) (\<lambda>w.
       if \<not> pg_present w then Done (0, ms)
       else
         and_then (lock_acquire (ref_lock ms)) (\<lambda>l.
         let idx = unat (pg_address w) in
         and_then (array_get (mem_pageReferences ms) idx) (\<lambda>r.
         if r = 0 then Panic MEMORY_MANAGEMENT_ERROR
         else
           and_then (array_set (mem_pageReferences ms) idx (r - 1)) (\<lambda>rs.
           Done (uint (r - 1), ms\<lparr>mem_pageReferences := rs, ref_lock := lock_release l\<rparr>))))))"

section \<open>Single pages\<close>

definition mem_freePage :: "mem_state \<Rightarrow> page_ptr option \<Rightarrow> mem_state outcome" where
  "mem_freePage ms page = (case page of
     None \<Rightarrow> Done ms
   | Some e \<Rightarrow>
       and_then (read_page ms e) (\<lambda>w.
       and_then (array_get (mem_pageReferences ms) (unat (pg_address w))) (\<lambda>r.
       and_then (if r \<noteq> 0 then mem_decrementPageReference ms page else Done (0, ms)) (\<lambda>(left, ms1).
       if left \<noteq> 0 then Done ms1
       else
         let w1 = pg_set USERMODE False (pg_set RW False (pg_set PRESENT False w)) in
         and_then (mem_pmm_free (MEM_GET_FRAME w1) ms1) (\<lambda>ms2.
         write_page ms2 e (MEM_SET_FRAME w1 0))))))"

definition mem_allocatePage :: "mem_state \<Rightarrow> page_ptr option \<Rightarrow> u64 \<Rightarrow> mem_state outcome" where
  "mem_allocatePage ms page flags = (case page of
     None \<Rightarrow> Done ms
   | Some e \<Rightarrow>
       if has_flag flags MEM_PAGE_FREE then mem_freePage ms page
       else
         and_then (if has_flag flags MEM_PAGE_NOALLOC then Done (None, ms)
                   else and_then (mem_pmm ms) (\<lambda>(block, ms1). Done (Some block, ms1))) (\<lambda>(block, ms1).
         and_then (read_page ms1 e) (\<lambda>w.
         let w0 = (case block of Some b \<Rightarrow> MEM_SET_FRAME w b | None \<Rightarrow> w);
             w1 = pg_set PRESENT (\<not> has_flag flags MEM_PAGE_NOT_PRESENT) w0;
             w2 = pg_set RW (\<not> has_flag flags MEM_PAGE_READONLY) w1;
             w3 = pg_set USERMODE (\<not> has_flag flags MEM_PAGE_KERNEL) w2;
             w4 = pg_set WRITETHROUGH (has_flag flags MEM_PAGE_WRITETHROUGH) w3;
             w5 = pg_set CACHE_DISABLE (has_flag flags MEM_PAGE_NOT_CACHEABLE) w4;
             w6 = (if has_flag flags MEM_PAGE_WRITE_COMBINE
                   then pg_set WRITETHROUGH False (pg_set CACHE_DISABLE True (pg_set SIZE True w5)) else w5) in
         write_page ms1 e w6)))"

definition mem_mapAddress :: "mem_state \<Rightarrow> u64 \<Rightarrow> u64 \<Rightarrow> u64 \<Rightarrow> u64 \<Rightarrow> mem_state outcome" where
  "mem_mapAddress ms dir phys virt flags =
     (if \<not> MEM_IS_CANONICAL virt then Done ms
      else
        and_then (mem_getPage ms dir virt MEM_CREATE) (\<lambda>(pg, ms1).
        case pg of
          None \<Rightarrow> Done ms1
        | Some e \<Rightarrow>
            and_then (mem_allocatePage ms1 pg (MEM_PAGE_NOALLOC OR flags)) (\<lambda>ms2.
            and_then (read_page ms2 e) (\<lambda>w. write_page ms2 e (MEM_SET_FRAME w phys)))))"

definition mem_getPhysicalAddress :: "mem_state \<Rightarrow> u64 \<Rightarrow> u64 \<Rightarrow> (u64 \<times> mem_state) outcome" where
  "mem_getPhysicalAddress ms dir virtaddr =
     (if \<not> MEM_IS_CANONICAL virtaddr then Done (0, ms)
      else
        let offset = virtaddr AND 0xFFF in
        and_then (mem_getPage ms dir (virtaddr AND NOT 0xFFF) MEM_DEFAULT) (\<lambda>(pg, ms1).
        case pg of
          None \<Rightarrow> Done (0, ms1)
        | Some e \<Rightarrow> and_then (read_page ms1 e) (\<lambda>w. Done (MEM_GET_FRAME w + offset, ms1))))"

text \<open>
  \<open>mem_switchDirectory\<close> with the address of the kernel's directory: what is loaded into CR3, if anything.
\<close>

definition mem_switchDirectory_cr3 :: "mem_state \<Rightarrow> u64 \<Rightarrow> u64 \<Rightarrow> (u64 option \<times> mem_state) outcome" where
  "mem_switchDirectory_cr3 ms kernel_dir pagedir0 =
     (let pagedir = (if pagedir0 = 0 then kernel_dir else pagedir0) in
      if current_dir ms = pagedir then Done (None, ms)
      else
        and_then (mem_getPhysicalAddress ms 0 pagedir) (\<lambda>(phys0, ms1).
        let phys = (if phys0 = 0 then pagedir AND NOT MEM_PHYSMEM_MAP_REGION else phys0) in
        Done (Some (phys AND NOT 0xFFF), ms1\<lparr>current_dir := pagedir\<rparr>)))"

definition mem_validate :: "mem_state \<Rightarrow> u64 \<Rightarrow> u32 \<Rightarrow> (bool \<times> mem_state) outcome" where
  "mem_validate ms ptr flags =
     and_then (mem_getPage ms 0 ptr MEM_DEFAULT) (\<lambda>(pg, ms1).
     case pg of
       None \<Rightarrow> Done (False, ms1)
     | Some e \<Rightarrow>
         and_then (read_page ms1 e) (\<lambda>w.
         Done (if has_flag flags PTR_STRICT
               then \<not> (has_flag flags PTR_USER \<and> \<not> pg_usermode w) \<and> \<not> (has_flag flags PTR_READONLY \<and> pg_rw w)
               else \<not> (pg_usermode w \<and> \<not> has_flag flags PTR_USER) \<and> \<not> (\<not> pg_rw w \<and> \<not> has_flag flags PTR_READONLY), ms1)))"


section \<open>Copy on write\<close>

text \<open>A private copy of the frame of \<open>w\<close>, and the entry for it: \<open>w\<close> with the new frame, writable.\<close>

definition copy_frame :: "mem_state \<Rightarrow> page_t \<Rightarrow> (page_t \<times> mem_state) outcome" where
  "copy_frame ms w =
     and_then (mem_remapPhys (MEM_GET_FRAME w) 0x1000) (\<lambda>src_frame.
     and_then (mem_pmm ms) (\<lambda>(dest_frame_block, ms1).
     and_then (mem_remapPhys dest_frame_block 0x1000) (\<lambda>dest_frame.
     and_then (load_frame ms1 src_frame) (\<lambda>ws.
     and_then (store_frame ms1 dest_frame ws) (\<lambda>ms2.
     Done (pg_set RW True (pg_set COW False (MEM_SET_FRAME w dest_frame_block)), ms2))))))"

definition mem_copyOnWrite :: "mem_state \<Rightarrow> page_ptr option \<Rightarrow> mem_state outcome" where
  "mem_copyOnWrite ms page = (case page of
     None \<Rightarrow> Done ms
   | Some e \<Rightarrow>
       and_then (read_page ms e) (\<lambda>w.
       if \<not> pg_cow w then Done ms
       else
         and_then (lock_acquire (cow_lock ms)) (\<lambda>l.
         and_then (mem_decrementPageReference (ms\<lparr>cow_lock := l\<rparr>) page) (\<lambda>(refs, ms1).
         if refs = 0 then
           and_then (write_page ms1 e (pg_set COW False (pg_set RW True w))) (\<lambda>ms2. Done (ms2\<lparr>cow_lock := lock_release l\<rparr>))
         else
           and_then (copy_frame ms1 w) (\<lambda>(w', ms2).
           and_then (write_page ms2 e w') (\<lambda>ms3. Done (ms3\<lparr>cow_lock := lock_release l\<rparr>)))))))"

definition mem_copyUserPage :: "mem_state \<Rightarrow> page_ptr \<Rightarrow> page_ptr \<Rightarrow> bool \<Rightarrow> mem_state outcome" where
  "mem_copyUserPage ms src_page dest_page force_no_cow =
     and_then (read_page ms src_page) (\<lambda>w.
     if force_no_cow then
       and_then (copy_frame ms w) (\<lambda>(w', ms1). write_page ms1 dest_page w')
     else
       and_then (lock_acquire (cow_lock ms)) (\<lambda>l.
       if pg_rw w then
         and_then (array_get (mem_pageReferences ms) (unat (pg_address w))) (\<lambda>r.
         if r \<noteq> 0 then Panic MEMORY_MANAGEMENT_ERROR
         else
           and_then (array_set (mem_pageReferences ms) (unat (pg_address w)) 2) (\<lambda>rs.
           let w' = pg_set COW True (pg_set RW False w) in
           and_then (write_page (ms\<lparr>mem_pageReferences := rs\<rparr>) src_page w') (\<lambda>ms1. write_page ms1 dest_page w')))
       else
         and_then (mem_incrementPageReference (ms\<lparr>cow_lock := l\<rparr>) (Some src_page)) (\<lambda>(refs, ms1).
         if refs = 0 then
           and_then (copy_frame ms1 w) (\<lambda>(w', ms2).
           and_then (write_page ms2 dest_page w') (\<lambda>ms3. Done (ms3\<lparr>cow_lock := lock_release l\<rparr>)))
         else and_then (write_page ms1 dest_page w) (\<lambda>ms2. Done (ms2\<lparr>cow_lock := lock_release l\<rparr>)))))"

section \<open>Address spaces\<close>

primrec for_each :: "('a \<Rightarrow> 's \<Rightarrow> 's outcome) \<Rightarrow> 'a list \<Rightarrow> 's \<Rightarrow> 's outcome" where
  "for_each f [] s = Done s"
| "for_each f (x # xs) s = and_then (f x s) (for_each f xs)"

definition mem_createVAS :: "mem_state \<Rightarrow> (u64 \<times> mem_state) outcome" where
  "mem_createVAS ms = and_then (new_table ms) (\<lambda>(block, vas, ms1). Done (vas, ms1))"

text \<open>
  One level of the nest of loops of \<open>mem_clone\<close>. The number counts the levels of tables below: at 0 the entries are
  pages, whose virtual address is put together from the indices on the way (\<open>base\<close>).
\<close>

primrec clone_level :: "nat \<Rightarrow> nat list \<Rightarrow> u64 \<Rightarrow> u64 \<Rightarrow> u64 \<Rightarrow> mem_state \<Rightarrow> mem_state outcome" where
  "clone_level 0 is base src dest ms =
     for_each (\<lambda>i ms.
       and_then (read_page ms (src, i)) (\<lambda>w.
       if \<not> pg_present w then Done ms
       else if pg_usermode w then
         mem_copyUserPage ms (src, i) (dest, i) ((base OR push_bit 12 (of_nat i)) \<ge> MEM_USERMODE_STACK_REGION)
       else write_page ms (dest, i) w)) is ms"
| "clone_level (Suc n) is base src dest ms =
     for_each (\<lambda>i ms.
       and_then (read_page ms (src, i)) (\<lambda>w.
       if \<not> pg_present w then Done ms
       else
         and_then (new_table ms) (\<lambda>(block, t_dest, ms1).
         and_then (write_page ms1 (dest, i) (MEM_SET_FRAME w block)) (\<lambda>ms2.
         and_then (mem_remapPhys (MEM_GET_FRAME w) 0x1000) (\<lambda>t_src.
         clone_level n [0..<512] (base OR push_bit (9 * Suc n + 12) (of_nat i)) t_src t_dest ms2))))) is ms"

definition mem_clone :: "mem_state \<Rightarrow> u64 \<Rightarrow> (u64 \<times> mem_state) outcome" where
  "mem_clone ms dir =
     (let d = (if dir = 0 then current_dir ms else dir) in
      and_then (mem_createVAS ms) (\<lambda>(dest, ms1).
      and_then (load_frame ms1 d) (\<lambda>src_ws.
      and_then (load_frame ms1 dest) (\<lambda>dest_ws.
      and_then (store_frame ms1 dest (take 256 dest_ws @ drop 256 src_ws)) (\<lambda>ms2.
      and_then (clone_level 3 [0..<256] 0 d dest ms2) (\<lambda>ms3. Done (dest, ms3)))))))"

text \<open>One level of the nest of loops of \<open>mem_destroyVAS\<close>.\<close>

primrec destroy_level :: "nat \<Rightarrow> nat list \<Rightarrow> u64 \<Rightarrow> mem_state \<Rightarrow> mem_state outcome" where
  "destroy_level 0 is t ms =
     for_each (\<lambda>i ms.
       and_then (read_page ms (t, i)) (\<lambda>w.
       if pg_usermode w \<and> pg_present w then
         (if pg_rw w then mem_freePage ms (Some (t, i))
          else
            and_then (mem_decrementPageReference ms (Some (t, i))) (\<lambda>(refs, ms1).
            if refs = 0 then mem_pmm_free (MEM_GET_FRAME w) ms1 else Done ms1))
       else Done ms)) is ms"
| "destroy_level (Suc n) is t ms =
     for_each (\<lambda>i ms.
       and_then (read_page ms (t, i)) (\<lambda>w.
       if pg_present w then
         and_then (mem_remapPhys (MEM_GET_FRAME w) 0) (\<lambda>below.
         and_then (destroy_level n [0..<512] below ms) (\<lambda>ms1.
         and_then (read_page ms1 (t, i)) (\<lambda>w1.
         and_then (write_page ms1 (t, i) (pg_set PRESENT False w1)) (\<lambda>ms2.
         mem_pmm_free (MEM_GET_FRAME w1) ms2))))
       else Done ms)) is ms"

definition mem_destroyVAS :: "mem_state \<Rightarrow> u64 \<Rightarrow> mem_state outcome" where
  "mem_destroyVAS ms vas =
     and_then (destroy_level 3 [0..<256] vas ms) (\<lambda>ms1. mem_pmm_free (vas AND NOT MEM_PHYSMEM_MAP_REGION) ms1)"

section \<open>Regions of virtual memory\<close>

text \<open>
  The loops \<^verbatim>\<open>for (i = start; i < end; i += PAGE_SIZE)\<close>: the addresses they visit, or None when the counter wraps around
  before it reaches the end: then the loop never reaches its end, and does not return.
\<close>

definition pages_between :: "u64 \<Rightarrow> u64 \<Rightarrow> u64 list option" where
  "pages_between start end_addr =
     (let n = (unat end_addr - unat start + 4095) div 4096 in
      if unat start + n * 4096 < 2 ^ 64 then Some (map (\<lambda>k. start + of_nat k * 0x1000) [0..<n]) else None)"

definition for_pages :: "(u64 \<Rightarrow> 's \<Rightarrow> 's outcome) \<Rightarrow> u64 \<Rightarrow> u64 \<Rightarrow> 's \<Rightarrow> 's outcome" where
  "for_pages f start end_addr s = (case pages_between start end_addr of Some is \<Rightarrow> for_each f is s | None \<Rightarrow> Hang)"

text \<open>The mapping loop: False when a page could not be had, where the jump to \<open>_error\<close> leaves the loop.\<close>

definition allocate_page :: "u64 \<Rightarrow> u64 \<Rightarrow> u64 \<Rightarrow> u64 \<Rightarrow> u64 \<Rightarrow> bool \<times> mem_state \<Rightarrow> (bool \<times> mem_state) outcome" where
  "allocate_page flags page_flags contig start i r = (case r of (ok, ms) \<Rightarrow>
     if \<not> ok then Done (False, ms)
     else
       and_then (mem_getPage ms 0 i MEM_CREATE) (\<lambda>(pg, ms1).
       case pg of
         None \<Rightarrow> Done (False, ms1)
       | Some e \<Rightarrow>
           if has_flag flags MEM_ALLOC_CONTIGUOUS then
             and_then (mem_allocatePage ms1 pg (page_flags OR MEM_PAGE_NOALLOC)) (\<lambda>ms2.
             and_then (read_page ms2 e) (\<lambda>w.
             and_then (write_page ms2 e (MEM_SET_FRAME w (contig + (i - start)))) (\<lambda>ms3. Done (True, ms3))))
           else and_then (mem_allocatePage ms1 pg page_flags) (\<lambda>ms2. Done (True, ms2))))"

definition fragile_page :: "u64 \<Rightarrow> bool \<times> mem_state \<Rightarrow> (bool \<times> mem_state) outcome" where
  "fragile_page i r = (case r of (ok, ms) \<Rightarrow>
     if \<not> ok then Done (False, ms)
     else and_then (mem_getPage ms 0 i MEM_DEFAULT) (\<lambda>(pg, ms1). Done (pg = None, ms1)))"

definition allocate_error :: "u64 \<Rightarrow> mem_state \<Rightarrow> (u64 \<times> mem_state) outcome" where
  "allocate_error flags ms = (if has_flag flags MEM_ALLOC_CRITICAL then Panic MEMORY_MANAGEMENT_ERROR else Done (0, ms))"

definition mem_allocate :: "mem_state \<Rightarrow> u64 \<Rightarrow> u64 \<Rightarrow> u64 \<Rightarrow> u64 \<Rightarrow> (u64 \<times> mem_state) outcome" where
  "mem_allocate ms start sz flags page_flags =
     (if sz = 0 then Done (start, ms)
      else if \<not> MEM_IS_CANONICAL start then allocate_error flags ms
      else if start = 0 \<and> \<not> has_flag flags MEM_ALLOC_HEAP then allocate_error flags ms
      else
        let heap = has_flag flags MEM_ALLOC_HEAP;
            start_original = (if heap then mem_kernelHeap ms else start);
            page_flags' = (if heap then page_flags OR MEM_PAGE_KERNEL else page_flags);
            size0 = sz + (start_original AND 0xFFF);
            start' = start_original AND NOT 0xFFF;
            size_actual = (if size0 AND 0xFFF \<noteq> 0 then MEM_ALIGN_PAGE size0 else size0) in
        and_then (if has_flag flags MEM_ALLOC_FRAGILE then for_pages fragile_page start' (start' + size_actual) (True, ms)
                  else Done (True, ms)) (\<lambda>(fresh, ms1).
        if \<not> fresh then allocate_error flags ms1
        else
          and_then (if heap then lock_acquire (heap_lock ms1) else Done (heap_lock ms1)) (\<lambda>l.
          and_then (if has_flag flags MEM_ALLOC_CONTIGUOUS
                    then and_then (pmm_allocateBlocks (size_actual div PMM_BLOCK_SIZE) (ms_pmm ms1)) (\<lambda>(c, p). Done (c, ms1\<lparr>heap_lock := l, ms_pmm := p\<rparr>))
                    else Done (0, ms1\<lparr>heap_lock := l\<rparr>)) (\<lambda>(contig, ms2).
          and_then (for_pages (allocate_page flags page_flags' contig start') start' (start' + size_actual) (True, ms2)) (\<lambda>(ok, ms3).
          if \<not> ok then allocate_error flags ms3
          else Done (start_original,
            if heap then ms3\<lparr>mem_kernelHeap := mem_kernelHeap ms3 + size_actual, heap_lock := lock_release l\<rparr> else ms3)))))) "

definition free_page :: "u64 \<Rightarrow> mem_state \<Rightarrow> mem_state outcome" where
  "free_page i ms = and_then (mem_getPage ms 0 i MEM_DEFAULT) (\<lambda>(pg, ms1). mem_allocatePage ms1 pg MEM_PAGE_FREE)"

definition mem_free :: "mem_state \<Rightarrow> u64 \<Rightarrow> u64 \<Rightarrow> u64 \<Rightarrow> mem_state outcome" where
  "mem_free ms start sz flags =
     (if \<not> MEM_IS_CANONICAL start then Done ms
      else if start = 0 \<or> sz = 0 then Done ms
      else
        let start' = start AND NOT 0xFFF; heap = has_flag flags MEM_ALLOC_HEAP in
        and_then (if heap then lock_acquire (heap_lock ms) else Done (heap_lock ms)) (\<lambda>l.
        and_then (for_pages free_page start' (start' + sz) (ms\<lparr>heap_lock := l\<rparr>)) (\<lambda>ms1.
        Done (if heap then ms1\<lparr>mem_kernelHeap := mem_kernelHeap ms1 - sz, heap_lock := lock_release l\<rparr> else ms1))))"

text \<open>
  \<open>b % PAGE_SIZE\<close> and \<open>b < 0\<close> are on a signed int; \<open>PAGE_SIZE\<close> is an int too.
\<close>

definition mem_sbrk :: "mem_state \<Rightarrow> cint \<Rightarrow> (u64 \<times> mem_state) outcome" where
  "mem_sbrk ms b =
     (if mem_kernelHeap ms = 0 then Panic KERNEL_BAD_ARGUMENT_ERROR
      else if b = 0 then Done (mem_kernelHeap ms, ms)
      else if sint b mod 0x1000 \<noteq> 0 then Panic KERNEL_BAD_ARGUMENT_ERROR
      else if sint b < 0 then
        let positive = scast (- b) :: u64; ret = mem_kernelHeap ms in
        and_then (mem_free ms (ret - positive) positive MEM_ALLOC_HEAP) (\<lambda>ms1. Done (ret, ms1))
      else mem_allocate ms 0 (scast b) MEM_ALLOC_HEAP MEM_PAGE_KERNEL)"

section \<open>Page faults\<close>

text \<open>
  \<open>mem_pageFault\<close> with the code segment, the fault address and the heap of the current process: whether the process
  goes on or is shut down. A fault of the kernel itself halts the machine.
\<close>

definition mem_pageFault :: "mem_state \<Rightarrow> u64 \<Rightarrow> u64 \<Rightarrow> u64 \<Rightarrow> u64 \<Rightarrow> (bool \<times> mem_state) outcome" where
  "mem_pageFault ms cs cr2 heap_base heap =
     (if cs \<noteq> 0x08 then
        and_then (mem_getPage ms 0 cr2 MEM_DEFAULT) (\<lambda>(pg, ms1).
        and_then (case pg of Some e \<Rightarrow> and_then (read_page ms1 e) (\<lambda>w. Done (pg_cow w)) | None \<Rightarrow> Done False) (\<lambda>cow.
        if cow then and_then (mem_copyOnWrite ms1 pg) (\<lambda>ms2. Done (True, ms2))
        else if cr2 \<ge> heap_base \<and> cr2 < heap then
          and_then (mem_getPage ms1 0 cr2 MEM_CREATE) (\<lambda>(pg', ms2).
          and_then (mem_allocatePage ms2 pg' MEM_DEFAULT) (\<lambda>ms3. Done (True, ms3)))
        else Done (False, ms1)))
      else Panic CPU_EXCEPTION_UNHANDLED)"


section \<open>Frames and entries\<close>

lemma bit_pg_set: "n < 64 \<Longrightarrow> bit (pg_set n b p) m \<longleftrightarrow> (if m = n then b else bit p m)"
  by (auto simp: pg_set_def bit_set_bit_iff bit_unset_bit_iff)

lemma bit_MEM_SET_FRAME: "bit (MEM_SET_FRAME p f) m \<longleftrightarrow> (if 12 \<le> m \<and> m < 40 then bit f m else bit p m)"
proof -
  have "m < 64" if "bit p m \<or> bit f m" using that by (auto dest: bit_imp_le_length)
  then show ?thesis
    by (cases "m < 64") (auto simp: MEM_SET_FRAME_def bit_or_iff bit_and_iff bit_not_iff bit_push_bit_iff bit_mask_iff bit_take_bit_iff bit_drop_bit_eq)
qed

lemmas pg_defs = pg_present_def pg_rw_def pg_usermode_def pg_size_def pg_cow_def

lemma pg_set_simps [simp]:
  "pg_present (pg_set PRESENT b p) = b" "pg_rw (pg_set RW b p) = b" "pg_rw (pg_set (Suc 0) b p) = b" "pg_usermode (pg_set USERMODE b p) = b" "pg_cow (pg_set COW b p) = b"
  "pg_size (pg_set SIZE b p) = b"
  "n \<noteq> 0 \<Longrightarrow> n < 64 \<Longrightarrow> pg_present (pg_set n b p) = pg_present p" "n \<noteq> 1 \<Longrightarrow> n < 64 \<Longrightarrow> pg_rw (pg_set n b p) = pg_rw p"
  "n \<noteq> 2 \<Longrightarrow> n < 64 \<Longrightarrow> pg_usermode (pg_set n b p) = pg_usermode p" "n \<noteq> 52 \<Longrightarrow> n < 64 \<Longrightarrow> pg_cow (pg_set n b p) = pg_cow p"
  "n \<noteq> 7 \<Longrightarrow> n < 64 \<Longrightarrow> pg_size (pg_set n b p) = pg_size p"
  by (auto simp: pg_defs bit_pg_set)

lemma pg_frame_simps [simp]:
  "pg_present (MEM_SET_FRAME p f) = pg_present p" "pg_rw (MEM_SET_FRAME p f) = pg_rw p" "pg_usermode (MEM_SET_FRAME p f) = pg_usermode p"
  "pg_cow (MEM_SET_FRAME p f) = pg_cow p" "pg_size (MEM_SET_FRAME p f) = pg_size p"
  by (auto simp: pg_defs bit_MEM_SET_FRAME)

lemma pg_address_set [simp]: "n < 64 \<Longrightarrow> n < 12 \<or> 40 \<le> n \<Longrightarrow> pg_address (pg_set n b p) = pg_address p"
  by (rule bit_word_eqI) (auto simp: pg_address_def bit_take_bit_iff bit_drop_bit_eq bit_pg_set)

text \<open>The number of the frame of an entry. Frames below 2 GiB have numbers below \<open>2 ^ 19\<close>.\<close>

definition pg_frame :: "page_t \<Rightarrow> nat" where
  "pg_frame p = unat (pg_address p)"

lemma pg_frame_pg_set [simp]: "n < 64 \<Longrightarrow> n < 12 \<or> 40 \<le> n \<Longrightarrow> pg_frame (pg_set n b p) = pg_frame p"
  by (simp add: pg_frame_def)

lemma of_nat_4096: "(of_nat (f * 4096) :: u64) = push_bit 12 (of_nat f)"
  by (simp add: push_bit_eq_mult mult.commute)

lemma bit_of_nat_small:
  assumes "f < 2 ^ k" "bit (of_nat f :: 'w::len word) m"
  shows "m < k"
proof (rule ccontr)
  assume "\<not> m < k"
  then have "(2 :: nat) ^ k \<le> 2 ^ m" by (intro power_increasing) auto
  then have "f < 2 ^ m" using assms(1) by linarith
  then have "\<not> bit f m" by (simp add: bit_iff_odd)
  moreover have "bit (int f) m" using assms(2) by transfer (simp add: bit_take_bit_iff)
  ultimately show False by (simp add: bit_of_nat_iff_bit)
qed

lemma pg_address_SET_FRAME:
  assumes "f < 2 ^ 28"
  shows "pg_address (MEM_SET_FRAME p (of_nat (f * 4096))) = of_nat f"
proof (rule bit_word_eqI)
  fix m assume "m < LENGTH(64)"
  have "bit (of_nat f :: u64) m \<Longrightarrow> m < 28" using assms by (rule bit_of_nat_small)
  then show "bit (pg_address (MEM_SET_FRAME p (of_nat (f * 4096)))) m = bit (of_nat f :: u64) m"
    unfolding of_nat_4096 by (auto simp: pg_address_def bit_take_bit_iff bit_drop_bit_eq bit_MEM_SET_FRAME bit_push_bit_iff)
qed

lemma pg_frame_SET_FRAME [simp]:
  assumes "f < 2 ^ 28"
  shows "pg_frame (MEM_SET_FRAME p (of_nat (f * 4096))) = f"
proof -
  have "f < 2 ^ 64" using assms by simp
  then show ?thesis unfolding pg_frame_def pg_address_SET_FRAME [OF assms] by (intro unat_of_nat_less) simp
qed

lemma GET_FRAME_low:
  assumes "pg_frame p < 2 ^ 19"
  shows "MEM_GET_FRAME p = of_nat (pg_frame p * 4096)"
proof -
  have a: "pg_address p = of_nat (pg_frame p)" by (simp add: pg_frame_def)
  have "(ucast (pg_address p) :: cint) = of_nat (pg_frame p)"
    unfolding a using assms by (simp add: unsigned_of_nat take_bit_nat_eq_self)
  then have "MEM_GET_FRAME p = frame_address (of_nat (pg_frame p))"
    by (simp add: MEM_GET_FRAME_def frame_address_def push_bit_eq_mult mult.commute)
  then show ?thesis using frame_address_low [OF assms] by simp
qed

definition window :: "nat \<Rightarrow> u64" where
  "window f = of_nat (f * 4096) OR MEM_PHYSMEM_MAP_REGION"

lemma region_bits: "MEM_PHYSMEM_MAP_REGION = push_bit 39 (mask 25)" "MEM_PHYSMEM_MAP_SIZE - 1 = mask 36" "(0xFFF :: u64) = mask 12"
  by (simp_all add: MEM_PHYSMEM_MAP_REGION_def MEM_PHYSMEM_MAP_SIZE_def mask_eq_exp_minus_1 push_bit_eq_mult)

lemma window_frame_window [simp]:
  assumes "f < 2 ^ 24"
  shows "window_frame (window f) = Done f"
proof -
  have f: "m < 24" if "bit (of_nat f :: u64) m" for m using bit_of_nat_small [OF assms that] .
  have w: "bit (window f) m \<longleftrightarrow> m < 64 \<and> (12 \<le> m \<and> bit (of_nat f :: u64) (m - 12) \<or> 39 \<le> m)" for m
    unfolding window_def of_nat_4096 region_bits by (auto simp: bit_or_iff bit_push_bit_iff bit_mask_iff)
  have "window f AND NOT (mask 36) = push_bit 39 (mask 25)"
    by (rule bit_word_eqI) (use f in \<open>fastforce simp: w bit_and_iff bit_not_iff bit_push_bit_iff bit_mask_iff\<close>)
  moreover have "window f AND mask 12 = 0"
    by (rule bit_word_eqI) (auto simp: w bit_and_iff bit_mask_iff)
  moreover have "drop_bit 12 (window f AND mask 36) = of_nat f"
    by (rule bit_word_eqI) (use f in \<open>fastforce simp: w bit_and_iff bit_drop_bit_eq bit_mask_iff\<close>)
  moreover have "f < 2 ^ 64" using assms by simp
  then have "unat (of_nat f :: u64) = f" by (intro unat_of_nat_less) simp
  ultimately show ?thesis by (simp add: window_frame_def region_bits)
qed

lemma remap_window:
  assumes "sz \<le> MEM_PHYSMEM_MAP_SIZE"
  shows "mem_remapPhys (of_nat (f * 4096)) sz = Done (window f)"
  using assms by (simp add: mem_remapPhys_def window_def not_less [symmetric])

end
