(* ===== verification/Page_Tables.thy ===== *)
theory Page_Tables
  imports Paging
begin

text \<open>
  Page tables as a tree: what the walk of \<open>mem_getPage\<close> finds and makes, and mapping as the update of a map from
  virtual pages to entries.
\<close>

section \<open>The tree of tables\<close>

definition tab :: "mem_state \<Rightarrow> nat \<Rightarrow> page_t list" where
  "tab ms f = the (ms_frames ms f)"

text \<open>The table below entry \<open>i\<close> of the table in frame \<open>f\<close>, and below a list of indices.\<close>

definition sub_table :: "mem_state \<Rightarrow> nat \<Rightarrow> nat \<Rightarrow> nat option" where
  "sub_table ms f i = (let w = tab ms f ! i in if pg_present w \<and> \<not> pg_size w then Some (pg_frame w) else None)"

fun ptable_at :: "mem_state \<Rightarrow> nat \<Rightarrow> nat list \<Rightarrow> nat option" where
  "ptable_at ms f [] = Some f"
| "ptable_at ms f (i # p) = (case sub_table ms f i of None \<Rightarrow> None | Some g \<Rightarrow> ptable_at ms g p)"

lemma ptable_at_snoc: "ptable_at ms f (p @ [i]) = (case ptable_at ms f p of None \<Rightarrow> None | Some g \<Rightarrow> sub_table ms g i)"
  by (induction p arbitrary: f) (auto split: option.splits)

definition table_path :: "nat list \<Rightarrow> bool" where
  "table_path p \<longleftrightarrow> length p \<le> 3 \<and> (\<forall>i\<in>set p. i < 512)"

text \<open>
  Physical memory below 2 GiB behind the frame allocator; every table of the tree is an allocated frame of its own; the top
  level has no large pages.
\<close>

definition phys_ok :: "mem_state \<Rightarrow> bool" where
  "phys_ok ms \<longleftrightarrow> pmm_wf (ms_pmm ms) \<and> pmm_capacity (ms_pmm ms) \<le> 2 ^ 19 \<and>
     (\<forall>f < pmm_capacity (ms_pmm ms). \<exists>ws. ms_frames ms f = Some ws \<and> length ws = 512)"

definition vas_ok :: "mem_state \<Rightarrow> nat \<Rightarrow> bool" where
  "vas_ok ms r \<longleftrightarrow> phys_ok ms \<and>
     (\<forall>p f. table_path p \<longrightarrow> ptable_at ms r p = Some f \<longrightarrow> pmm_in_use (ms_pmm ms) f) \<and>
     (\<forall>p q f. table_path p \<longrightarrow> table_path q \<longrightarrow> ptable_at ms r p = Some f \<longrightarrow> ptable_at ms r q = Some f \<longrightarrow> p = q) \<and>
     (\<forall>i < 512. \<not> pg_size (tab ms r ! i))"

text \<open>The page the processor finds: the last entry, when it is present.\<close>

definition leaf :: "mem_state \<Rightarrow> nat \<Rightarrow> nat list \<Rightarrow> nat \<Rightarrow> page_t option" where
  "leaf ms r p i = (case ptable_at ms r p of None \<Rightarrow> None | Some f \<Rightarrow> let w = tab ms f ! i in if pg_present w then Some w else None)"

text \<open>The frames left for the allocator.\<close>

definition room :: "nat \<Rightarrow> mem_state \<Rightarrow> bool" where
  "room n ms \<longleftrightarrow> n \<le> card {f. f < pmm_limit (ms_pmm ms) \<and> \<not> pmm_in_use (ms_pmm ms) f} \<and>
     n \<le> unat (pmm_maxBlocks (ms_pmm ms) - pmm_usedBlocks (ms_pmm ms))"

section \<open>Access to frames\<close>

lemma in_use_capacity: "pmm_in_use st f \<Longrightarrow> f < pmm_capacity st"
  by (simp add: pmm_in_use_def)

lemma frame_low:
  assumes "phys_ok ms" "f < pmm_capacity (ms_pmm ms)"
  shows "f < 2 ^ 19" "f < 2 ^ 24" "f < 2 ^ 28"
proof -
  show "f < 2 ^ 19" using assms unfolding phys_ok_def by linarith
  then show "f < 2 ^ 24" "f < 2 ^ 28" by simp_all
qed

lemma load_frame_tab:
  assumes "phys_ok ms" "f < pmm_capacity (ms_pmm ms)"
  shows "load_frame ms (window f) = Done (tab ms f)" "length (tab ms f) = 512" "ms_frames ms f = Some (tab ms f)"
  using assms frame_low [OF assms] by (auto simp: phys_ok_def load_frame_def tab_def)

lemma read_page_tab:
  "phys_ok ms \<Longrightarrow> f < pmm_capacity (ms_pmm ms) \<Longrightarrow> i < 512 \<Longrightarrow> read_page ms (window f, i) = Done (tab ms f ! i)"
  by (simp add: read_page_def load_frame_tab)

lemma write_page_tab:
  "phys_ok ms \<Longrightarrow> f < pmm_capacity (ms_pmm ms) \<Longrightarrow> i < 512 \<Longrightarrow>
   write_page ms (window f, i) w = Done (ms\<lparr>ms_frames := (ms_frames ms)(f \<mapsto> (tab ms f)[i := w])\<rparr>)"
  using frame_low [of ms f] by (simp add: write_page_def load_frame_tab store_frame_def)

lemma store_frame_tab:
  "phys_ok ms \<Longrightarrow> f < pmm_capacity (ms_pmm ms) \<Longrightarrow> store_frame ms (window f) ws = Done (ms\<lparr>ms_frames := (ms_frames ms)(f \<mapsto> ws)\<rparr>)"
  using frame_low [of ms f] by (simp add: load_frame_tab store_frame_def)

lemma phys_ok_store: "phys_ok ms \<Longrightarrow> length ws = 512 \<Longrightarrow> phys_ok (ms\<lparr>ms_frames := (ms_frames ms)(f \<mapsto> ws)\<rparr>)"
  by (auto simp: phys_ok_def)

text \<open>Taking a frame.\<close>

lemma mem_pmm_spec:
  assumes "phys_ok ms" "room (Suc n) ms"
  shows "\<exists>b p. mem_pmm ms = Done (of_nat (b * 4096), ms\<lparr>ms_pmm := p\<rparr>) \<and> b < pmm_capacity (ms_pmm ms) \<and> \<not> pmm_in_use (ms_pmm ms) b \<and>
     (\<forall>g. pmm_in_use p g \<longleftrightarrow> g = b \<or> pmm_in_use (ms_pmm ms) g) \<and> pmm_capacity p = pmm_capacity (ms_pmm ms) \<and>
     phys_ok (ms\<lparr>ms_pmm := p\<rparr>) \<and> room n (ms\<lparr>ms_pmm := p\<rparr>)"
proof -
  let ?st = "ms_pmm ms" and ?free = "\<lambda>st. {f. f < pmm_limit st \<and> \<not> pmm_in_use st f}"
  have wf: "pmm_wf ?st" using assms(1) by (simp add: phys_ok_def)
  have "?free ?st \<noteq> {}"
  proof
    assume "?free ?st = {}"
    then have "card (?free ?st) = 0" by (simp only: card.empty)
    moreover have "Suc n \<le> card (?free ?st)" using assms(2) unfolding room_def by blast
    ultimately show False by linarith
  qed
  then have free: "\<exists>f < pmm_limit ?st. \<not> pmm_in_use ?st f" by auto
  have avail: "pmm_usedBlocks ?st \<noteq> pmm_maxBlocks ?st" using assms(2) by (auto simp: room_def)
  define b where "b = (LEAST f. \<not> pmm_in_use ?st f)"
  from pmm_allocateBlock_spec [OF wf avail free] obtain p where
    p: "pmm_allocateBlock ?st = Done (frame_address (of_nat b), p)" "\<forall>g. pmm_in_use p g \<longleftrightarrow> g = b \<or> pmm_in_use ?st g"
      "pmm_usedBlocks p = pmm_usedBlocks ?st + 1" "pmm_maxBlocks p = pmm_maxBlocks ?st" "pmm_nframes p = pmm_nframes ?st"
      "pmm_capacity p = pmm_capacity ?st" "pmm_wf p" unfolding b_def by blast
  have b: "b < pmm_limit ?st" "\<not> pmm_in_use ?st b" using least_free_below [OF free] by (simp_all add: b_def)
  then have cap: "b < pmm_capacity ?st" using pmm_wf_limits(1) [OF wf] by simp
  have "frame_address (of_nat b) = of_nat (b * 4096)" using frame_address_low [OF frame_low(1) [OF assms(1) cap]] by simp
  moreover have "?free p = ?free ?st - {b}" using p(2,5) by (auto simp: pmm_limit_def)
  then have "card (?free p) = card (?free ?st) - 1" using b by (simp add: card_Diff_singleton)
  moreover have "unat (pmm_maxBlocks ?st - pmm_usedBlocks ?st - 1) = unat (pmm_maxBlocks ?st - pmm_usedBlocks ?st) - 1"
    using avail by (simp add: unat_minus_one)
  moreover have "pmm_maxBlocks p - pmm_usedBlocks p = pmm_maxBlocks ?st - pmm_usedBlocks ?st - 1" by (simp add: p(3,4))
  ultimately have "room n (ms\<lparr>ms_pmm := p\<rparr>)" using assms(2) by (simp add: room_def) linarith
  moreover have "phys_ok (ms\<lparr>ms_pmm := p\<rparr>)" using assms(1) p(6,7) by (simp add: phys_ok_def)
  ultimately show ?thesis
    using p(1,2,6) b(2) cap \<open>frame_address (of_nat b) = of_nat (b * 4096)\<close> by (auto simp: mem_pmm_def)
qed

lemma room_less: "room (Suc n) ms \<Longrightarrow> room n ms"
  by (simp add: room_def)

lemma room_frames [simp]: "room n (ms\<lparr>ms_frames := fr\<rparr>) = room n ms"
  by (simp add: room_def)

lemma new_table_spec:
  assumes "phys_ok ms" "room (Suc n) ms"
  obtains b p ms' where "ms' = ms\<lparr>ms_pmm := p, ms_frames := (ms_frames ms)(b \<mapsto> replicate 512 0)\<rparr>"
    "new_table ms = Done (of_nat (b * 4096), window b, ms')" "b < pmm_capacity (ms_pmm ms)" "\<not> pmm_in_use (ms_pmm ms) b"
    "\<forall>g. pmm_in_use p g \<longleftrightarrow> g = b \<or> pmm_in_use (ms_pmm ms) g" "pmm_capacity p = pmm_capacity (ms_pmm ms)" "phys_ok ms'" "room n ms'"
proof -
  from mem_pmm_spec [OF assms] obtain b p where
    b: "mem_pmm ms = Done (of_nat (b * 4096), ms\<lparr>ms_pmm := p\<rparr>)" "b < pmm_capacity (ms_pmm ms)" "\<not> pmm_in_use (ms_pmm ms) b"
      "\<forall>g. pmm_in_use p g \<longleftrightarrow> g = b \<or> pmm_in_use (ms_pmm ms) g" "pmm_capacity p = pmm_capacity (ms_pmm ms)"
      "phys_ok (ms\<lparr>ms_pmm := p\<rparr>)" "room n (ms\<lparr>ms_pmm := p\<rparr>)" by blast
  let ?ms = "ms\<lparr>ms_pmm := p, ms_frames := (ms_frames ms)(b \<mapsto> replicate 512 0)\<rparr>"
  have "PMM_BLOCK_SIZE \<le> MEM_PHYSMEM_MAP_SIZE" by (simp add: PMM_BLOCK_SIZE_def MEM_PHYSMEM_MAP_SIZE_def)
  moreover have "store_frame (ms\<lparr>ms_pmm := p\<rparr>) (window b) (replicate 512 0) = Done ?ms"
    using store_frame_tab [OF b(6), of b] b(2,5) by simp
  ultimately have "new_table ms = Done (of_nat (b * 4096), window b, ?ms)"
    using b(1) by (simp add: new_table_def remap_window del: of_nat_mult)
  moreover have "phys_ok ?ms" "room n ?ms"
    using phys_ok_store [OF b(6), of "replicate 512 0" b] b(7) by simp_all
  ultimately show thesis using that [of ?ms b p] b(2-5) by blast
qed

section \<open>A new table\<close>

lemma tab_update: "tab (ms\<lparr>ms_frames := (ms_frames ms)(f \<mapsto> ws)\<rparr>) g = (if g = f then ws else tab ms g)"
  by (simp add: tab_def)

text \<open>
  No entry of the walk along a path is a large page.
\<close>

definition clear_path :: "mem_state \<Rightarrow> nat \<Rightarrow> nat list \<Rightarrow> bool" where
  "clear_path ms r p \<longleftrightarrow> (\<forall>k < length p. \<forall>f. ptable_at ms r (take k p) = Some f \<longrightarrow> \<not> pg_size (tab ms f ! (p ! k)))"

text \<open>A frame in use that is no table of the tree.\<close>

definition data_frame :: "mem_state \<Rightarrow> nat \<Rightarrow> nat \<Rightarrow> bool" where
  "data_frame ms r g \<longleftrightarrow> pmm_in_use (ms_pmm ms) g \<and> (\<forall>p. table_path p \<longrightarrow> ptable_at ms r p \<noteq> Some g)"

text \<open>The state \<open>ms'\<close> has the tables, the pages and the data of \<open>ms\<close>, and maybe more tables.\<close>

definition vas_grown :: "nat \<Rightarrow> mem_state \<Rightarrow> mem_state \<Rightarrow> bool" where
  "vas_grown r ms ms' \<longleftrightarrow> vas_ok ms' r \<and> current_dir ms' = current_dir ms \<and>
     (\<forall>q f. table_path q \<longrightarrow> ptable_at ms r q = Some f \<longrightarrow> ptable_at ms' r q = Some f) \<and>
     (\<forall>q. table_path q \<longrightarrow> clear_path ms r q \<longrightarrow> clear_path ms' r q) \<and>
     (\<forall>q j. table_path q \<longrightarrow> length q = 3 \<longrightarrow> j < 512 \<longrightarrow> leaf ms' r q j = leaf ms r q j) \<and>
     (\<forall>g. pmm_in_use (ms_pmm ms) g \<longrightarrow> pmm_in_use (ms_pmm ms') g) \<and>
     (\<forall>g. data_frame ms r g \<longrightarrow> data_frame ms' r g \<and> tab ms' g = tab ms g)"

lemma vas_grown_refl: "vas_ok ms r \<Longrightarrow> vas_grown r ms ms"
  by (simp add: vas_grown_def)

lemma vas_grown_trans: "vas_grown r a b \<Longrightarrow> vas_grown r b c \<Longrightarrow> vas_grown r a c"
  by (simp add: vas_grown_def)

lemma vas_grown_at: "vas_grown r a b \<Longrightarrow> table_path q \<Longrightarrow> ptable_at a r q = Some f \<Longrightarrow> ptable_at b r q = Some f"
  by (simp add: vas_grown_def)

lemma vas_okD:
  assumes "vas_ok ms r"
  shows "phys_ok ms" "table_path p \<Longrightarrow> ptable_at ms r p = Some f \<Longrightarrow> pmm_in_use (ms_pmm ms) f"
    "table_path p \<Longrightarrow> table_path q \<Longrightarrow> ptable_at ms r p = Some f \<Longrightarrow> ptable_at ms r q = Some f \<Longrightarrow> p = q"
    "i < 512 \<Longrightarrow> \<not> pg_size (tab ms r ! i)"
  using assms unfolding vas_ok_def by blast+

lemma table_path_snoc: "table_path (p @ [i]) \<longleftrightarrow> length p < 3 \<and> table_path p \<and> i < 512"
  by (auto simp: table_path_def)

text \<open>The entry \<open>i\<close> of the table \<open>f\<close> at \<open>p\<close> gets the empty table \<open>b\<close>.\<close>

definition added :: "mem_state \<Rightarrow> nat \<Rightarrow> nat list \<Rightarrow> nat \<Rightarrow> nat \<Rightarrow> nat \<Rightarrow> page_t \<Rightarrow> mem_state \<Rightarrow> bool" where
  "added ms r p i f b w ms' \<longleftrightarrow>
     vas_ok ms r \<and> table_path (p @ [i]) \<and> ptable_at ms r p = Some f \<and> \<not> pg_present (tab ms f ! i) \<and> \<not> pg_size (tab ms f ! i) \<and>
     \<not> pmm_in_use (ms_pmm ms) b \<and> pg_present w \<and> \<not> pg_size w \<and> pg_frame w = b \<and> phys_ok ms' \<and> current_dir ms' = current_dir ms \<and>
     (\<forall>g. pmm_in_use (ms_pmm ms') g \<longleftrightarrow> g = b \<or> pmm_in_use (ms_pmm ms) g) \<and>
     (\<forall>g. tab ms' g = (if g = f then (tab ms f)[i := w] else if g = b then replicate 512 0 else tab ms g))"

lemma added_sub_table:
  assumes "added ms r p i f b w ms'" "j < 512"
  shows "sub_table ms' f j = (if j = i then Some b else sub_table ms f j)" "sub_table ms' b j = None" "sub_table ms f i = None"
    "g \<noteq> f \<Longrightarrow> g \<noteq> b \<Longrightarrow> sub_table ms' g j = sub_table ms g j" "f \<noteq> b"
proof -
  have f: "pmm_in_use (ms_pmm ms) f" "table_path p" "i < 512"
    using assms(1) vas_okD(2) [of ms r p f] by (auto simp: added_def table_path_snoc)
  then have len: "length (tab ms f) = 512"
    using assms(1) load_frame_tab(2) [OF vas_okD(1) [of ms r] in_use_capacity] by (simp add: added_def)
  show fb: "f \<noteq> b" using f(1) assms(1) by (auto simp: added_def)
  show "sub_table ms' f j = (if j = i then Some b else sub_table ms f j)" "sub_table ms f i = None"
    "g \<noteq> f \<Longrightarrow> g \<noteq> b \<Longrightarrow> sub_table ms' g j = sub_table ms g j"
    using assms f len by (simp_all add: added_def sub_table_def)
  show "sub_table ms' b j = None" using assms fb by (simp add: added_def sub_table_def pg_present_def)
qed

lemma added_table_at:
  assumes "added ms r p i f b w ms'" "table_path q"
  shows "ptable_at ms' r q = (if q = p @ [i] then Some b else ptable_at ms r q)"
  using assms(2)
proof (induction q rule: rev_induct)
  case Nil
  then show ?case by simp
next
  case (snoc j q)
  then have q: "table_path q" "j < 512" by (simp_all add: table_path_snoc)
  have a: "vas_ok ms r" "table_path p" "ptable_at ms r p = Some f" "\<not> pmm_in_use (ms_pmm ms) b"
    using assms(1) by (simp_all add: added_def table_path_snoc)
  note sub = added_sub_table [OF assms(1) q(2)]
  show ?case
  proof (cases "q = p @ [i]")
    case True
    then show ?thesis using snoc.IH [OF q(1)] a(3) sub by (simp add: ptable_at_snoc del: append_assoc)
  next
    case new: False
    then have IH: "ptable_at ms' r q = ptable_at ms r q" using snoc.IH [OF q(1)] by simp
    show ?thesis
    proof (cases "ptable_at ms r q")
      case None
      then have "q \<noteq> p" using a(3) by auto
      then show ?thesis using IH None by (simp add: ptable_at_snoc)
    next
      case (Some g)
      have "g \<noteq> b" using vas_okD(2) [OF a(1) q(1) Some] a(4) by auto
      moreover have "q = p" if "g = f" using vas_okD(3) [OF a(1) q(1) a(2)] Some a(3) that by simp
      ultimately show ?thesis using IH Some sub(1) sub(4) [of g] a(3) by (cases "g = f") (auto simp: ptable_at_snoc)
    qed
  qed
qed

text \<open>What a page of the tree, and the size bits, become.\<close>

lemma added_entry:
  assumes "added ms r p i f b w ms'" "table_path q" "ptable_at ms r q = Some g" "j < 512"
  shows "ptable_at ms' r q = Some g" "tab ms' g ! j = (if q = p \<and> j = i then w else tab ms g ! j)"
proof -
  have a: "vas_ok ms r" "table_path p" "ptable_at ms r p = Some f" "\<not> pmm_in_use (ms_pmm ms) b"
    using assms(1) by (simp_all add: added_def table_path_snoc)
  have "q \<noteq> p @ [i]" using assms(3) added_sub_table(3) [OF assms(1,4)] a(3) by (auto simp: ptable_at_snoc)
  then show "ptable_at ms' r q = Some g" using added_table_at [OF assms(1,2)] assms(3) by simp
  have "g \<noteq> b" using vas_okD(2) [OF a(1) assms(2,3)] a(4) by auto
  moreover have "g = f \<longleftrightarrow> q = p" using vas_okD(3) [OF a(1) assms(2) a(2) assms(3)] a(3) assms(3) by auto
  moreover have "length (tab ms f) = 512"
    using load_frame_tab(2) [OF vas_okD(1) [OF a(1)] in_use_capacity [OF vas_okD(2) [OF a(1,2,3)]]] .
  ultimately show "tab ms' g ! j = (if q = p \<and> j = i then w else tab ms g ! j)"
    using assms(1,4) by (auto simp: added_def nth_list_update)
qed

lemma added_vas_ok:
  assumes "added ms r p i f b w ms'"
  shows "vas_ok ms' r"
proof -
  have a: "vas_ok ms r" "\<not> pmm_in_use (ms_pmm ms) b" "phys_ok ms'" "\<not> pg_size w"
    "\<And>g. pmm_in_use (ms_pmm ms') g \<longleftrightarrow> g = b \<or> pmm_in_use (ms_pmm ms) g"
    using assms by (simp_all add: added_def)
  note at = added_table_at [OF assms]
  have "\<not> pg_size (tab ms' r ! j)" if "j < 512" for j
    using added_entry(2) [OF assms, of "[]" r j] vas_okD(4) [OF a(1) that] a(4) that by (simp add: table_path_def)
  moreover have "pmm_in_use (ms_pmm ms') g" if "table_path q" "ptable_at ms' r q = Some g" for q g
    using that at vas_okD(2) [OF a(1) that(1)] by (auto simp: a(5) split: if_splits)
  moreover have "q = q'" if "table_path q" "table_path q'" "ptable_at ms' r q = Some g" "ptable_at ms' r q' = Some g" for q q' g
    using that at vas_okD(2,3) [OF a(1)] a(2) by (auto split: if_splits)
  ultimately show ?thesis unfolding vas_ok_def using a(3) by blast
qed

lemma added_leaf:
  assumes "added ms r p i f b w ms'" "table_path q" "length q = 3" "j < 512"
  shows "leaf ms' r q j = leaf ms r q j"
proof (cases "ptable_at ms r q")
  case None
  have "tab ms' b ! j = 0" using assms(1,4) added_sub_table(5) [OF assms(1,4)] by (simp add: added_def)
  then show ?thesis using None added_table_at [OF assms(1,2)] by (simp add: leaf_def pg_present_def)
next
  case (Some g)
  have "q \<noteq> p" using assms(1,3) by (auto simp: added_def table_path_snoc)
  then show ?thesis using added_entry [OF assms(1,2) Some assms(4)] Some by (simp add: leaf_def)
qed

lemma added_clear:
  assumes "added ms r p i f b w ms'" "table_path q" "clear_path ms r q"
  shows "clear_path ms' r q"
proof -
  have "\<not> pg_size (tab ms' g ! (q ! k))" if k: "k < length q" "ptable_at ms' r (take k q) = Some g" for k g
  proof -
    have q: "table_path (take k q)" "q ! k < 512"
      using assms(2) k(1) by (auto simp: table_path_def dest: in_set_takeD)
    show ?thesis
    proof (cases "ptable_at ms r (take k q)")
      case None
      then have "g = b" using added_table_at [OF assms(1) q(1)] k(2) by (auto split: if_splits)
      then show ?thesis using assms(1) q(2) added_sub_table(5) [OF assms(1) q(2)] by (simp add: added_def pg_size_def)
    next
      case (Some h)
      then have "\<not> pg_size (tab ms h ! (q ! k))" using assms(3) k(1) by (auto simp: clear_path_def)
      then show ?thesis using added_entry [OF assms(1) q(1) Some q(2)] k(2) assms(1) by (simp add: added_def)
    qed
  qed
  then show ?thesis by (simp add: clear_path_def)
qed

lemma added_data:
  assumes "added ms r p i f b w ms'" "data_frame ms r g"
  shows "data_frame ms' r g \<and> tab ms' g = tab ms g"
proof -
  have a: "table_path p" "ptable_at ms r p = Some f" "\<not> pmm_in_use (ms_pmm ms) b" using assms(1) by (simp_all add: added_def table_path_snoc)
  have g: "g \<noteq> f" "g \<noteq> b" "pmm_in_use (ms_pmm ms) g" using assms(2) a by (auto simp: data_frame_def)
  have "ptable_at ms' r q \<noteq> Some g" if "table_path q" for q
    using added_table_at [OF assms(1) that] g(2) assms(2) that by (auto simp: data_frame_def)
  then show ?thesis using assms(1) g by (simp add: added_def data_frame_def)
qed

lemma added_grown:
  assumes "added ms r p i f b w ms'"
  shows "vas_grown r ms ms'"
proof -
  have "current_dir ms' = current_dir ms" "\<forall>g. pmm_in_use (ms_pmm ms) g \<longrightarrow> pmm_in_use (ms_pmm ms') g"
    using assms by (simp_all add: added_def)
  then show ?thesis
    unfolding vas_grown_def using added_vas_ok [OF assms] added_leaf [OF assms] added_clear [OF assms] added_entry(1) [OF assms, where j = 0] added_data [OF assms] by simp
qed

section \<open>The walk\<close>

lemma next_table_spec:
  assumes "vas_ok ms r" "table_path (p @ [i])" "ptable_at ms r p = Some f" "ptable_at ms r (p @ [i]) = Some g"
  shows "next_table ms (window f, i) = Done (tab ms f ! i, window g)" "\<not> pg_size (tab ms f ! i)" "pg_present (tab ms f ! i)"
proof -
  have p: "table_path p" "i < 512" using assms(2) by (simp_all add: table_path_snoc)
  have w: "pg_frame (tab ms f ! i) = g" "\<not> pg_size (tab ms f ! i)" "pg_present (tab ms f ! i)"
    using assms(3,4) by (auto simp: ptable_at_snoc sub_table_def Let_def split: if_splits)
  then show "\<not> pg_size (tab ms f ! i)" "pg_present (tab ms f ! i)" by simp_all
  note ok = vas_okD(1) [OF assms(1)]
  have "g < 2 ^ 19" using frame_low(1) [OF ok in_use_capacity [OF vas_okD(2) [OF assms(1,2,4)]]] .
  then have "MEM_GET_FRAME (tab ms f ! i) = of_nat (g * 4096)" using GET_FRAME_low w(1) by simp
  moreover have "PMM_BLOCK_SIZE \<le> MEM_PHYSMEM_MAP_SIZE" by (simp add: PMM_BLOCK_SIZE_def MEM_PHYSMEM_MAP_SIZE_def)
  moreover have "read_page ms (window f, i) = Done (tab ms f ! i)"
    using read_page_tab [OF ok in_use_capacity [OF vas_okD(2) [OF assms(1) p(1) assms(3)]] p(2)] .
  ultimately show "next_table ms (window f, i) = Done (tab ms f ! i, window g)"
    by (simp add: next_table_def remap_window del: of_nat_mult)
qed

lemma walk_entry_spec:
  assumes "vas_ok ms r" "table_path (p @ [i])" "ptable_at ms r p = Some f" "\<not> pg_size (tab ms f ! i)" "room (Suc n) ms" "flags \<noteq> 0"
  shows "\<exists>ms' g. walk_entry ms flags (window f, i) = Done (True, ms') \<and> vas_grown r ms ms' \<and> room n ms' \<and> ptable_at ms' r (p @ [i]) = Some g"
proof -
  let ?w = "tab ms f ! i"
  note ok = vas_okD(1) [OF assms(1)]
  have p: "table_path p" "i < 512" using assms(2) by (simp_all add: table_path_snoc)
  have f: "pmm_in_use (ms_pmm ms) f" using vas_okD(2) [OF assms(1) p(1) assms(3)] .
  note rd = read_page_tab [OF ok in_use_capacity [OF f] p(2)]
  show ?thesis
  proof (cases "pg_present ?w")
    case True
    then have "ptable_at ms r (p @ [i]) = Some (pg_frame ?w)" using assms(3,4) by (simp add: ptable_at_snoc sub_table_def)
    then show ?thesis using True rd vas_grown_refl [OF assms(1)] room_less [OF assms(5)] by (auto simp: walk_entry_def)
  next
    case False
    obtain b q ms1 where
      ms1: "ms1 = ms\<lparr>ms_pmm := q, ms_frames := (ms_frames ms)(b \<mapsto> replicate 512 0)\<rparr>"
        "new_table ms = Done (of_nat (b * 4096), window b, ms1)" "b < pmm_capacity (ms_pmm ms)" "\<not> pmm_in_use (ms_pmm ms) b"
        "\<forall>g. pmm_in_use q g \<longleftrightarrow> g = b \<or> pmm_in_use (ms_pmm ms) g" "pmm_capacity q = pmm_capacity (ms_pmm ms)" "phys_ok ms1" "room n ms1"
      by (rule new_table_spec [OF ok assms(5)])
    have fb: "f \<noteq> b" using f ms1(4) by auto
    then have tab1: "tab ms1 f = tab ms f" "f < pmm_capacity (ms_pmm ms1)"
      using ms1(1,6) in_use_capacity [OF f] by (simp_all add: tab_def)
    define w where "w = MEM_SET_FRAME (pg_set USERMODE True (pg_set RW True (pg_set PRESENT True ?w))) (of_nat (b * 4096))"
    define ms2 where "ms2 = ms1\<lparr>ms_frames := (ms_frames ms1)(f \<mapsto> (tab ms f)[i := w])\<rparr>"
    have "walk_entry ms flags (window f, i) = Done (True, ms2)"
      using rd False assms(6) ms1(2) read_page_tab [OF ms1(7) tab1(2) p(2)] write_page_tab [OF ms1(7) tab1(2) p(2)]
      by (simp add: walk_entry_def tab1(1) ms2_def w_def del: of_nat_mult)
    moreover have "current_dir ms2 = current_dir ms" by (simp add: ms2_def ms1(1))
    moreover have "pg_present w" "\<not> pg_size w" "pg_frame w = b"
      unfolding w_def using assms(4) frame_low(3) [OF ok ms1(3)] by (simp_all del: of_nat_mult)
    moreover have "tab ms2 g = (if g = f then (tab ms f)[i := w] else if g = b then replicate 512 0 else tab ms g)" for g
      by (simp add: ms2_def ms1(1) tab_def)
    moreover have "length ((tab ms f)[i := w]) = 512" using load_frame_tab(2) [OF ok in_use_capacity [OF f]] by simp
    then have "phys_ok ms2" unfolding ms2_def by (rule phys_ok_store [OF ms1(7)])
    moreover have "pmm_in_use (ms_pmm ms2) g \<longleftrightarrow> g = b \<or> pmm_in_use (ms_pmm ms) g" for g
      using ms1(5) by (simp add: ms2_def ms1(1))
    ultimately have "walk_entry ms flags (window f, i) = Done (True, ms2)" "added ms r p i f b w ms2"
      using assms(1-4) False ms1(4) unfolding added_def by blast+
    moreover have "room n ms2" using ms1(8) by (simp add: ms2_def)
    ultimately show ?thesis using added_grown added_table_at [OF _ assms(2)] by fastforce
  qed
qed

text \<open>The indices of an address.\<close>

definition vpath :: "u64 \<Rightarrow> nat list" where
  "vpath a = [MEM_PML4_INDEX a, MEM_PDPT_INDEX a, MEM_PAGEDIR_INDEX a]"

lemma and_511: "unat (w AND 0x1FF :: u64) < 512"
proof -
  have "w AND 0x1FF \<le> 0x1FF" by (rule word_and_le1)
  then have "unat (w AND 0x1FF) \<le> unat (0x1FF :: u64)" by (rule iffD1 [OF word_le_nat_alt])
  then show ?thesis by simp
qed

lemma index_bounds [simp]: "MEM_PML4_INDEX a < 512" "MEM_PDPT_INDEX a < 512" "MEM_PAGEDIR_INDEX a < 512" "MEM_PAGETBL_INDEX a < 512"
  unfolding MEM_PML4_INDEX_def MEM_PDPT_INDEX_def MEM_PAGEDIR_INDEX_def MEM_PAGETBL_INDEX_def by (rule and_511)+

lemma table_path_vpath [simp]:
  "table_path (vpath a)" "table_path [MEM_PML4_INDEX a, MEM_PDPT_INDEX a]" "table_path [MEM_PML4_INDEX a]" "table_path []"
  "length (vpath a) = 3"
  by (simp_all add: table_path_def vpath_def)

lemma drop_bit_align: "12 \<le> n \<Longrightarrow> drop_bit n (a AND NOT 0xFFF :: u64) = drop_bit n a"
  unfolding region_bits(3) by (rule bit_word_eqI) (auto simp: bit_and_iff bit_not_iff bit_drop_bit_eq bit_mask_iff dest: bit_imp_le_length)

lemma index_align:
  "MEM_PML4_INDEX (a AND NOT 0xFFF) = MEM_PML4_INDEX a" "MEM_PDPT_INDEX (a AND NOT 0xFFF) = MEM_PDPT_INDEX a"
  "MEM_PAGEDIR_INDEX (a AND NOT 0xFFF) = MEM_PAGEDIR_INDEX a" "MEM_PAGETBL_INDEX (a AND NOT 0xFFF) = MEM_PAGETBL_INDEX a"
  unfolding MEM_PML4_INDEX_def MEM_PDPT_INDEX_def MEM_PAGEDIR_INDEX_def MEM_PAGETBL_INDEX_def by (subst drop_bit_align; simp)+

lemma not_4095: "NOT (0xFFF :: u64) = - 4096"
  by simp

lemmas index_align_minus [simp] = index_align [unfolded not_4095]

lemma window_nonzero [simp]: "window f \<noteq> 0"
proof -
  have "bit (window f) 63" by (simp add: window_def bit_or_iff region_bits(1) bit_push_bit_iff bit_mask_iff)
  then show ?thesis by (metis bit_0_eq bot_apply bot_bool_def)
qed

lemma aligned_if: "(if a mod 0x1000 \<noteq> 0 then MEM_ALIGN_PAGE_DESTRUCTIVE a else a) = a AND NOT (0xFFF :: u64)"
proof (cases "a mod 0x1000 = 0")
  case True
  then have "take_bit 12 a = 0" by (simp add: take_bit_eq_mod)
  then have "\<not> bit a m" if "m < 12" for m using that by (metis bit_0_eq bit_take_bit_iff bot_apply bot_bool_def)
  then have "a = a AND NOT 0xFFF"
    unfolding region_bits(3) by (intro bit_word_eqI) (auto simp: bit_and_iff bit_not_iff bit_mask_iff)
  then show ?thesis using True by simp
qed (simp add: MEM_ALIGN_PAGE_DESTRUCTIVE_def)

lemma clear_path_step:
  assumes "clear_path ms r p" "k < length p" "ptable_at ms r (take k p) = Some f"
  shows "\<not> pg_size (tab ms f ! (p ! k))"
  using assms by (auto simp: clear_path_def)

lemma mem_getPage_create:
  assumes "vas_ok ms r" "MEM_IS_CANONICAL a" "clear_path ms r (vpath a)" "room (n + 3) ms" "flags \<noteq> 0"
  shows "\<exists>ms' t. mem_getPage ms (window r) a flags = Done (Some (window t, MEM_PAGETBL_INDEX a), ms') \<and> vas_grown r ms ms' \<and> room n ms' \<and>
     ptable_at ms' r (vpath a) = Some t"
proof -
  let ?i4 = "MEM_PML4_INDEX a" and ?i3 = "MEM_PDPT_INDEX a" and ?i2 = "MEM_PAGEDIR_INDEX a"
  have paths: "table_path ([] @ [?i4])" "table_path ([?i4] @ [?i3])" "table_path ([?i4, ?i3] @ [?i2])" "vpath a = [?i4, ?i3] @ [?i2]"
    by (simp_all add: table_path_def vpath_def)
  have room: "room (Suc (Suc (Suc n))) ms" using assms(4) by (simp add: numeral_3_eq_3)
  have r: "ptable_at ms r [] = Some r" by simp
  obtain ms1 f3 where s1: "walk_entry ms flags (window r, ?i4) = Done (True, ms1)" "vas_grown r ms ms1" "room (Suc (Suc n)) ms1" "ptable_at ms1 r ([] @ [?i4]) = Some f3"
    using walk_entry_spec [OF assms(1) paths(1) r _ room assms(5)] vas_okD(4) [OF assms(1)] by auto
  have g1: "vas_ok ms1 r" "clear_path ms1 r (vpath a)" using s1(2) assms(3) by (simp_all add: vas_grown_def)
  have n1: "\<not> pg_size (tab ms1 f3 ! ?i3)" using clear_path_step [OF g1(2), of 1 f3] s1(4) by (simp add: vpath_def)
  obtain ms2 f2 where s2: "walk_entry ms1 flags (window f3, ?i3) = Done (True, ms2)" "vas_grown r ms1 ms2" "room (Suc n) ms2" "ptable_at ms2 r ([?i4] @ [?i3]) = Some f2"
    using walk_entry_spec [OF g1(1) paths(2) _ n1 s1(3) assms(5)] s1(4) by auto
  have g2: "vas_ok ms2 r" "clear_path ms2 r (vpath a)" using s2(2) g1(2) by (simp_all add: vas_grown_def)
  have n2: "\<not> pg_size (tab ms2 f2 ! ?i2)" using clear_path_step [OF g2(2), of 2 f2] s2(4) by (simp add: vpath_def)
  obtain ms3 f1 where s3: "walk_entry ms2 flags (window f2, ?i2) = Done (True, ms3)" "vas_grown r ms2 ms3" "room n ms3" "ptable_at ms3 r ([?i4, ?i3] @ [?i2]) = Some f1"
    using walk_entry_spec [OF g2(1) paths(3) _ n2 s2(3) assms(5)] s2(4) by auto
  have g3: "vas_ok ms3 r" using s3(2) by (simp add: vas_grown_def)
  have t2: "ptable_at ms2 r [?i4] = Some f3" using vas_grown_at [OF s2(2), of "[?i4]"] s1(4) by (simp del: ptable_at.simps)
  have t3: "ptable_at ms3 r [?i4, ?i3] = Some f2" using vas_grown_at [OF s3(2), of "[?i4, ?i3]"] s2(4) by (simp del: ptable_at.simps)
  note n = next_table_spec [OF g1(1) paths(1) _ s1(4), of r] next_table_spec [OF g2(1) paths(2) t2 s2(4)] next_table_spec [OF g3 paths(3) t3 s3(4)]
  have "mem_getPage ms (window r) a flags = Done (Some (window f1, MEM_PAGETBL_INDEX a), ms3)"
    unfolding mem_getPage_def aligned_if using assms(2) s1(1) s2(1) s3(1) n by (simp add: Let_def)
  then show ?thesis using s3(3,4) vas_grown_trans [OF s1(2) vas_grown_trans [OF s2(2) s3(2)]] paths(4) by auto
qed

text \<open>Without a flag the walk only looks.\<close>

lemma walk_entry_default:
  assumes "vas_ok ms r" "table_path (p @ [i])" "ptable_at ms r p = Some f"
  shows "walk_entry ms 0 (window f, i) = Done (pg_present (tab ms f ! i), ms)"
    "\<exists>t. next_table ms (window f, i) = Done (tab ms f ! i, t) \<and> (\<forall>g. ptable_at ms r (p @ [i]) = Some g \<longrightarrow> t = window g)"
proof -
  have p: "table_path p" "i < 512" using assms(2) by (simp_all add: table_path_snoc)
  have rd: "read_page ms (window f, i) = Done (tab ms f ! i)"
    using read_page_tab [OF vas_okD(1) [OF assms(1)] in_use_capacity [OF vas_okD(2) [OF assms(1) p(1) assms(3)]] p(2)] .
  then show "walk_entry ms 0 (window f, i) = Done (pg_present (tab ms f ! i), ms)" by (simp add: walk_entry_def)
  have "\<not> MEM_PHYSMEM_MAP_SIZE < PMM_BLOCK_SIZE" by (simp add: PMM_BLOCK_SIZE_def MEM_PHYSMEM_MAP_SIZE_def)
  then obtain t where t: "next_table ms (window f, i) = Done (tab ms f ! i, t)" using rd by (simp add: next_table_def mem_remapPhys_def)
  moreover have "t = window g" if "ptable_at ms r (p @ [i]) = Some g" for g using next_table_spec(1) [OF assms that] t by simp
  ultimately show "\<exists>t. next_table ms (window f, i) = Done (tab ms f ! i, t) \<and> (\<forall>g. ptable_at ms r (p @ [i]) = Some g \<longrightarrow> t = window g)" by blast
qed

lemma ptable_at_step:
  assumes "ptable_at ms r p = Some f"
  shows "ptable_at ms r (p @ [i]) = (if pg_present (tab ms f ! i) \<and> \<not> pg_size (tab ms f ! i) then Some (pg_frame (tab ms f ! i)) else None)"
  using assms by (simp add: ptable_at_snoc sub_table_def Let_def)

lemma mem_getPage_default:
  assumes "vas_ok ms r" "MEM_IS_CANONICAL a"
  shows "mem_getPage ms (window r) a 0 = Done (map_option (\<lambda>t. (window t, MEM_PAGETBL_INDEX a)) (ptable_at ms r (vpath a)), ms)"
proof -
  let ?i4 = "MEM_PML4_INDEX a" and ?i3 = "MEM_PDPT_INDEX a" and ?i2 = "MEM_PAGEDIR_INDEX a"
  have paths: "table_path ([] @ [?i4])" "table_path ([?i4] @ [?i3])" "table_path ([?i4, ?i3] @ [?i2])" "vpath a = [?i4, ?i3] @ [?i2]"
    by (simp_all add: table_path_def vpath_def)
  have r: "ptable_at ms r [] = Some r" by simp
  note w1 = walk_entry_default [OF assms(1) paths(1) r] and st1 = ptable_at_step [OF r, of ?i4]
  show ?thesis
  proof (cases "ptable_at ms r [?i4]")
    case None
    then have "\<not> pg_present (tab ms r ! ?i4)" using st1 vas_okD(4) [OF assms(1)] by (auto split: if_splits)
    then show ?thesis using None w1(1) assms(2) unfolding mem_getPage_def aligned_if vpath_def by (auto simp: Let_def split: option.splits)
  next
    case (Some f3)
    note w2 = walk_entry_default [OF assms(1) paths(2) Some] and st2 = ptable_at_step [OF Some, of ?i3]
    have p3: "pg_present (tab ms r ! ?i4)" "next_table ms (window r, ?i4) = Done (tab ms r ! ?i4, window f3)"
      using next_table_spec [OF assms(1) paths(1) r] Some by (simp_all del: ptable_at.simps(2))
    show ?thesis
    proof (cases "ptable_at ms r ([?i4] @ [?i3])")
      case None
      then have "\<not> pg_present (tab ms f3 ! ?i3) \<or> pg_size (tab ms f3 ! ?i3)" using st2 by (auto split: if_splits)
      moreover have "ptable_at ms r (vpath a) = None" using ptable_at_snoc [of ms r "[?i4, ?i3]" ?i2] None paths(4) by (simp del: ptable_at.simps)
      ultimately show ?thesis using w1(1) p3 w2 assms(2) unfolding mem_getPage_def aligned_if by (auto simp: Let_def)
    next
      case s3: (Some f2)
      note w3 = walk_entry_default [OF assms(1) paths(3) s3 [unfolded append_Cons append_Nil]]
        and st3 = ptable_at_step [OF s3 [unfolded append_Cons append_Nil], of ?i2]
      note p2 = next_table_spec [OF assms(1) paths(2) Some s3]
      show ?thesis
      proof (cases "ptable_at ms r ([?i4, ?i3] @ [?i2])")
        case None
        then have "\<not> pg_present (tab ms f2 ! ?i2) \<or> pg_size (tab ms f2 ! ?i2)" using st3 by (auto split: if_splits)
        then show ?thesis using None paths(4) w1(1) p3 w2(1) p2 w3 assms(2) unfolding mem_getPage_def aligned_if by (auto simp: Let_def)
      next
        case s2: (Some f1)
        show ?thesis using next_table_spec [OF assms(1) paths(3) s3 [unfolded append_Cons append_Nil] s2] s2 paths(4) w1(1) p3 w2(1) p2 w3(1) assms(2)
          unfolding mem_getPage_def aligned_if by (simp add: Let_def)
      qed
    qed
  qed
qed

section \<open>Pages\<close>

text \<open>The 36 bits of an address that choose its page, and the address space as a function of the address.\<close>

definition page_no :: "u64 \<Rightarrow> u64" where
  "page_no a = take_bit 36 (drop_bit 12 a)"

definition pages :: "mem_state \<Rightarrow> nat \<Rightarrow> u64 \<Rightarrow> page_t option" where
  "pages ms r a = leaf ms r (vpath a) (MEM_PAGETBL_INDEX a)"

lemma take_drop_eq:
  fixes a b :: u64
  shows "take_bit k (drop_bit n a) = take_bit k (drop_bit n b) \<longleftrightarrow> (\<forall>m. n \<le> m \<and> m < n + k \<longrightarrow> bit a m = bit b m)"
proof
  assume eq: "take_bit k (drop_bit n a) = take_bit k (drop_bit n b)"
  have "bit (take_bit k (drop_bit n w)) (m - n) = bit w m" if "n \<le> m" "m < n + k" for m and w :: u64
    using that by (auto simp: bit_take_bit_iff bit_drop_bit_eq)
  then show "\<forall>m. n \<le> m \<and> m < n + k \<longrightarrow> bit a m = bit b m" using eq by metis
next
  assume "\<forall>m. n \<le> m \<and> m < n + k \<longrightarrow> bit a m = bit b m"
  then show "take_bit k (drop_bit n a) = take_bit k (drop_bit n b)"
    by (intro bit_word_eqI) (auto simp: bit_take_bit_iff bit_drop_bit_eq)
qed

lemma index_eq: "unat (drop_bit n a AND 0x1FF :: u64) = unat (drop_bit n b AND 0x1FF :: u64) \<longleftrightarrow> (\<forall>m. n \<le> m \<and> m < n + 9 \<longrightarrow> bit a m = bit b m)"
proof -
  have "(0x1FF :: u64) = mask 9" by (simp add: mask_eq_exp_minus_1)
  then have "drop_bit n w AND 0x1FF = take_bit 9 (drop_bit n w)" for w :: u64 by (simp add: take_bit_eq_mask)
  then show ?thesis using take_drop_eq [of 9 n a b] by (simp flip: word_unat_eq_iff)
qed

lemma page_no_eq: "page_no a = page_no b \<longleftrightarrow> (\<forall>m. 12 \<le> m \<and> m < 48 \<longrightarrow> bit a m = bit b m)"
  using take_drop_eq [of 36 12 a b] by (simp add: page_no_def)

lemma same_page: "vpath a = vpath b \<and> MEM_PAGETBL_INDEX a = MEM_PAGETBL_INDEX b \<longleftrightarrow> page_no a = page_no b"
proof -
  have "(\<forall>m. 39 \<le> m \<and> m < 48 \<longrightarrow> P m) \<and> (\<forall>m. 30 \<le> m \<and> m < 39 \<longrightarrow> P m) \<and> (\<forall>m. 21 \<le> m \<and> m < 30 \<longrightarrow> P m) \<and>
      (\<forall>m. 12 \<le> m \<and> m < 21 \<longrightarrow> P m) \<longleftrightarrow> (\<forall>m. 12 \<le> m \<and> m < 48 \<longrightarrow> P m)" for P :: "nat \<Rightarrow> bool"
    by (auto; meson leI less_le_trans numeral_le_iff order_trans)
  from this [of "\<lambda>m. bit a m = bit b m"] show ?thesis
    by (simp add: vpath_def MEM_PML4_INDEX_def MEM_PDPT_INDEX_def MEM_PAGEDIR_INDEX_def MEM_PAGETBL_INDEX_def index_eq page_no_eq)
qed

text \<open>Writing a page's entry changes that page and no table.\<close>

lemma write_leaf:
  assumes "vas_ok ms r" "table_path p" "length p = 3" "ptable_at ms r p = Some t" "i < 512"
  defines "ms' \<equiv> \<lambda>w. ms\<lparr>ms_frames := (ms_frames ms)(t \<mapsto> (tab ms t)[i := w])\<rparr>"
  shows "write_page ms (window t, i) w = Done (ms' w)" "read_page (ms' w) (window t, i) = Done w" "vas_ok (ms' w) r"
    "\<And>q. table_path q \<Longrightarrow> ptable_at (ms' w) r q = ptable_at ms r q"
    "\<And>q. table_path q \<Longrightarrow> clear_path ms r q \<Longrightarrow> clear_path (ms' w) r q"
    "\<And>q j. table_path q \<Longrightarrow> length q = 3 \<Longrightarrow> j < 512 \<Longrightarrow>
       leaf (ms' w) r q j = (if q = p \<and> j = i then (if pg_present w then Some w else None) else leaf ms r q j)"
proof -
  note ok = vas_okD(1) [OF assms(1)]
  have t: "t < pmm_capacity (ms_pmm ms)" using in_use_capacity [OF vas_okD(2) [OF assms(1,2,4)]] .
  have len: "length (tab ms t) = 512" using load_frame_tab(2) [OF ok t] .
  show "write_page ms (window t, i) w = Done (ms' w)" using write_page_tab [OF ok t assms(5)] by (simp add: ms'_def)
  have ok': "phys_ok (ms' w)" using phys_ok_store [OF ok] len by (simp add: ms'_def)
  have tab': "tab (ms' w) g = (if g = t then (tab ms t)[i := w] else tab ms g)" for g by (simp add: ms'_def tab_def)
  have p': "ms_pmm (ms' w) = ms_pmm ms" by (simp add: ms'_def)
  show "read_page (ms' w) (window t, i) = Done w" using read_page_tab [OF ok' _ assms(5), of t] t len assms(5) by (simp add: p' tab')
  have at_t: "q = p" if "table_path q" "ptable_at ms r q = Some t" for q using vas_okD(3) [OF assms(1) that(1) assms(2) that(2) assms(4)] .
  show at: "ptable_at (ms' w) r q = ptable_at ms r q" if "table_path q" for q
    using that
  proof (induction q rule: rev_induct)
    case (snoc j q)
    then have "table_path q" "length q < 3" by (simp_all add: table_path_snoc)
    then have "ptable_at ms r q \<noteq> Some t" using at_t assms(3) by auto
    then show ?case using snoc.IH \<open>table_path q\<close> by (auto simp: ptable_at_snoc sub_table_def tab' split: option.splits)
  qed simp
  show "clear_path (ms' w) r q" if "table_path q" "clear_path ms r q" for q
    unfolding clear_path_def
  proof (intro allI impI)
    fix k f assume k: "k < length q" "ptable_at (ms' w) r (take k q) = Some f"
    have path: "table_path (take k q)" "length (take k q) < 3" using that(1) k(1) by (auto simp: table_path_def dest: in_set_takeD)
    then have f: "ptable_at ms r (take k q) = Some f" using at k(2) by simp
    then have "f \<noteq> t" using at_t [OF path(1)] path(2) assms(3) by auto
    then show "\<not> pg_size (tab (ms' w) f ! (q ! k))" using clear_path_step [OF that(2) k(1) f] by (simp add: tab')
  qed
  have "r \<noteq> t" using at_t [of "[]"] assms(3) by auto
  then have "\<not> pg_size (tab (ms' w) r ! j)" if "j < 512" for j using vas_okD(4) [OF assms(1) that] by (simp add: tab')
  moreover have "pmm_in_use (ms_pmm (ms' w)) g" if "table_path q" "ptable_at (ms' w) r q = Some g" for q g
    using vas_okD(2) [OF assms(1) that(1)] that(2) at [OF that(1)] by (simp add: p')
  moreover have "q = q'" if "table_path q" "table_path q'" "ptable_at (ms' w) r q = Some g" "ptable_at (ms' w) r q' = Some g" for q q' g
    using vas_okD(3) [OF assms(1) that(1,2)] that(3,4) at [OF that(1)] at [OF that(2)] by simp
  ultimately show "vas_ok (ms' w) r" unfolding vas_ok_def using ok' by blast
  show "leaf (ms' w) r q j = (if q = p \<and> j = i then (if pg_present w then Some w else None) else leaf ms r q j)"
    if "table_path q" "length q = 3" "j < 512" for q j
  proof (cases "ptable_at ms r q")
    case None
    then show ?thesis using at [OF that(1)] assms(4) by (auto simp: leaf_def)
  next
    case (Some g)
    have "g = t \<longleftrightarrow> q = p" using at_t [OF that(1)] Some assms(4) by auto
    then show ?thesis using Some at [OF that(1)] assms(5) len that(3) by (auto simp: leaf_def tab' nth_list_update Let_def)
  qed
qed

section \<open>Mapping a page\<close>

text \<open>The entry \<open>mem_allocatePage\<close> makes of \<open>w\<close> when it takes no frame.\<close>

definition flagged :: "u64 \<Rightarrow> page_t \<Rightarrow> page_t" where
  "flagged flags w =
     (let w1 = pg_set PRESENT (\<not> has_flag flags MEM_PAGE_NOT_PRESENT) w;
          w2 = pg_set RW (\<not> has_flag flags MEM_PAGE_READONLY) w1;
          w3 = pg_set USERMODE (\<not> has_flag flags MEM_PAGE_KERNEL) w2;
          w4 = pg_set WRITETHROUGH (has_flag flags MEM_PAGE_WRITETHROUGH) w3;
          w5 = pg_set CACHE_DISABLE (has_flag flags MEM_PAGE_NOT_CACHEABLE) w4 in
      if has_flag flags MEM_PAGE_WRITE_COMBINE then pg_set WRITETHROUGH False (pg_set CACHE_DISABLE True (pg_set SIZE True w5)) else w5)"

lemma flagged_simps [simp]:
  "pg_present (flagged flags w) \<longleftrightarrow> \<not> has_flag flags MEM_PAGE_NOT_PRESENT" "pg_rw (flagged flags w) \<longleftrightarrow> \<not> has_flag flags MEM_PAGE_READONLY"
  "pg_usermode (flagged flags w) \<longleftrightarrow> \<not> has_flag flags MEM_PAGE_KERNEL" "pg_frame (flagged flags w) = pg_frame w"
  by (simp_all add: flagged_def Let_def)

lemma has_flag_noalloc:
  "has_flag (MEM_PAGE_NOALLOC OR flags) MEM_PAGE_NOALLOC" "has_flag (MEM_PAGE_NOALLOC OR flags) MEM_PAGE_FREE = has_flag flags MEM_PAGE_FREE"
  "flagged (MEM_PAGE_NOALLOC OR flags) w = flagged flags w"
  by (simp_all add: has_flag_def flagged_def MEM_PAGE_NOALLOC_def MEM_PAGE_FREE_def MEM_PAGE_NOT_PRESENT_def MEM_PAGE_READONLY_def
      MEM_PAGE_KERNEL_def MEM_PAGE_WRITETHROUGH_def MEM_PAGE_NOT_CACHEABLE_def MEM_PAGE_WRITE_COMBINE_def bit.conj_disj_distrib2)

lemma mem_allocatePage_noalloc:
  assumes "\<not> has_flag flags MEM_PAGE_FREE"
  shows "mem_allocatePage ms (Some e) (MEM_PAGE_NOALLOC OR flags) = and_then (read_page ms e) (\<lambda>w. write_page ms e (flagged flags w))"
proof -
  let ?f = "MEM_PAGE_NOALLOC OR flags"
  have "mem_allocatePage ms (Some e) ?f = and_then (read_page ms e) (\<lambda>w. write_page ms e (flagged ?f w))"
    using assms has_flag_noalloc(1,2) by (simp add: mem_allocatePage_def flagged_def Let_def cong: if_cong)
  then show ?thesis by (simp only: has_flag_noalloc(3))
qed

lemma mem_mapAddress_entry:
  assumes "vas_ok ms r" "room (n + 3) ms" "MEM_IS_CANONICAL virt" "clear_path ms r (vpath virt)"
    "\<not> has_flag flags MEM_PAGE_FREE" "\<not> has_flag flags MEM_PAGE_NOT_PRESENT"
  shows "\<exists>ms' w t. mem_mapAddress ms (window r) phys virt flags = Done ms' \<and> vas_ok ms' r \<and> room n ms' \<and> current_dir ms' = current_dir ms \<and>
     (\<forall>q. table_path q \<longrightarrow> clear_path ms r q \<longrightarrow> clear_path ms' r q) \<and> ptable_at ms' r (vpath virt) = Some t \<and>
     read_page ms' (window t, MEM_PAGETBL_INDEX virt) = Done (MEM_SET_FRAME (flagged flags w) phys) \<and>
     (\<forall>q j. table_path q \<longrightarrow> length q = 3 \<longrightarrow> j < 512 \<longrightarrow> leaf ms' r q j =
        (if q = vpath virt \<and> j = MEM_PAGETBL_INDEX virt then Some (MEM_SET_FRAME (flagged flags w) phys) else leaf ms r q j))"
proof -
  let ?i = "MEM_PAGETBL_INDEX virt"
  have "MEM_CREATE \<noteq> 0" by (simp add: MEM_CREATE_def)
  then obtain ms1 t where g: "mem_getPage ms (window r) virt MEM_CREATE = Done (Some (window t, ?i), ms1)" "vas_grown r ms ms1" "room n ms1" "ptable_at ms1 r (vpath virt) = Some t"
    using mem_getPage_create [OF assms(1,3,4,2)] by blast
  have ok1: "vas_ok ms1 r" using g(2) by (simp add: vas_grown_def)
  note rd = read_page_tab [OF vas_okD(1) [OF ok1] in_use_capacity [OF vas_okD(2) [OF ok1 _ g(4)]], of ?i]
  define w where "w = tab ms1 t ! ?i"
  note s1 = write_leaf [OF ok1 table_path_vpath(1,5) g(4) index_bounds(4), where w = "flagged flags w"]
  define ms2 where "ms2 = ms1\<lparr>ms_frames := (ms_frames ms1)(t \<mapsto> (tab ms1 t)[?i := flagged flags w])\<rparr>"
  have s1: "write_page ms1 (window t, ?i) (flagged flags w) = Done ms2" "read_page ms2 (window t, ?i) = Done (flagged flags w)" "vas_ok ms2 r"
    "ptable_at ms2 r (vpath virt) = Some t" using s1(1-3) s1(4) [OF table_path_vpath(1)] g(4) by (simp_all add: ms2_def)
  note s2 = write_leaf [OF s1(3) table_path_vpath(1,5) s1(4) index_bounds(4), where w = "MEM_SET_FRAME (flagged flags w) phys"]
  define ms3 where "ms3 = ms2\<lparr>ms_frames := (ms_frames ms2)(t \<mapsto> (tab ms2 t)[?i := MEM_SET_FRAME (flagged flags w) phys])\<rparr>"
  have s3: "write_page ms2 (window t, ?i) (MEM_SET_FRAME (flagged flags w) phys) = Done ms3"
      "read_page ms3 (window t, ?i) = Done (MEM_SET_FRAME (flagged flags w) phys)" "vas_ok ms3 r" "ptable_at ms3 r (vpath virt) = Some t"
      "room n ms3" "current_dir ms3 = current_dir ms"
    using s2(1-3) s2(4) [OF table_path_vpath(1)] s1(4) g(2,3) by (simp_all add: ms3_def) (simp_all add: ms2_def vas_grown_def)
  have clear: "clear_path ms3 r q" if "table_path q" "clear_path ms r q" for q
    using s2(5) [OF that(1)] write_leaf(5) [OF ok1 table_path_vpath(1,5) g(4) index_bounds(4) that(1), of virt "flagged flags w"] that g(2)
    by (simp add: ms3_def) (simp add: ms2_def vas_grown_def)
  have leaf3: "leaf ms3 r q j = (if q = vpath virt \<and> j = ?i then Some (MEM_SET_FRAME (flagged flags w) phys) else leaf ms2 r q j)"
    if "table_path q" "length q = 3" "j < 512" for q j using s2(6) [OF that] assms(6) by (simp add: ms3_def)
  have "mem_allocatePage ms1 (Some (window t, ?i)) (MEM_PAGE_NOALLOC OR flags) = Done ms2"
    using s1(1) rd mem_allocatePage_noalloc [OF assms(5)] by (simp add: w_def)
  then have "mem_mapAddress ms (window r) phys virt flags = Done ms3"
    using g(1) s1(2) s3(1) assms(3) by (simp add: mem_mapAddress_def)
  moreover have "leaf ms2 r q j = leaf ms r q j" if "table_path q" "length q = 3" "j < 512" "\<not> (q = vpath virt \<and> j = ?i)" for q j
    using write_leaf(6) [OF ok1 table_path_vpath(1,5) g(4) index_bounds(4) that(1-3), where w = "flagged flags w"] that g(2)
    by (auto simp: ms2_def vas_grown_def)
  ultimately show ?thesis using s3 clear leaf3 by (intro exI [of _ ms3] exI [of _ w] exI [of _ t]) simp
qed

lemma canonical_align: "MEM_IS_CANONICAL (a AND NOT 0xFFF) = MEM_IS_CANONICAL a"
proof -
  have "(NOT 0xFFF :: u64) AND 0xFFFF000000000000 = 0xFFFF000000000000" by simp
  then have "(a AND NOT 0xFFF) AND 0xFFFF000000000000 = a AND 0xFFFF000000000000" by (simp only: and.assoc)
  then show ?thesis by (simp only: MEM_IS_CANONICAL_def)
qed

lemma vpath_align: "vpath (a AND NOT 0xFFF) = vpath a"
  unfolding vpath_def index_align ..

lemma getPhysicalAddress_of:
  assumes "vas_ok ms r" "MEM_IS_CANONICAL a" "ptable_at ms r (vpath a) = Some t"
    "read_page ms (window t, MEM_PAGETBL_INDEX a) = Done w" "pg_frame w < 2 ^ 19"
  shows "mem_getPhysicalAddress ms (window r) a = Done (of_nat (pg_frame w * 4096) + (a AND 0xFFF), ms)"
proof -
  have can: "MEM_IS_CANONICAL (a AND NOT 0xFFF)" using assms(2) by (simp only: canonical_align)
  have "mem_getPage ms (window r) (a AND NOT 0xFFF) 0 = Done (Some (window t, MEM_PAGETBL_INDEX a), ms)"
    using mem_getPage_default [OF assms(1) can] unfolding vpath_align index_align assms(3) option.map(2) .
  then have "mem_getPhysicalAddress ms (window r) a = Done (MEM_GET_FRAME w + (a AND 0xFFF), ms)"
    unfolding mem_getPhysicalAddress_def MEM_DEFAULT_def Let_def using assms(2,4) by simp
  then show ?thesis using GET_FRAME_low [OF assms(5)] by simp
qed

text \<open>
  Switching to a directory that is reached through the window, which is mapped with large pages, loads its frame:
  \<open>mem_getPhysicalAddress\<close> finds no page there and gives 0, and the bits of the window are taken off.
\<close>

lemma window_bits: "f < 2 ^ 24 \<Longrightarrow> window f AND NOT MEM_PHYSMEM_MAP_REGION = of_nat (f * 4096)"
proof (rule bit_word_eqI)
  fix m assume f: "f < 2 ^ 24" and "m < LENGTH(64)"
  have "m < 36" if "12 \<le> m" "bit (of_nat f :: u64) (m - 12)" using bit_of_nat_small [OF f that(2)] that(1) by linarith
  then show "bit (window f AND NOT MEM_PHYSMEM_MAP_REGION) m = bit (of_nat (f * 4096) :: u64) m"
    unfolding window_def of_nat_4096 region_bits(1) using \<open>m < LENGTH(64)\<close>
    by (auto simp: bit_and_iff bit_or_iff bit_not_iff bit_push_bit_iff bit_mask_iff)
qed

lemma frame_aligned: "(of_nat (f * 4096) :: u64) AND NOT 0xFFF = of_nat (f * 4096)"
  unfolding of_nat_4096 region_bits(3) by (rule bit_word_eqI) (auto simp: bit_and_iff bit_not_iff bit_push_bit_iff bit_mask_iff)

lemma mem_switchDirectory_cr3_window:
  assumes "vas_ok ms r" "current_dir ms = window r" "b \<noteq> r" "b < 2 ^ 24" "r < 2 ^ 24" "MEM_IS_CANONICAL (window b)"
    "ptable_at ms r (vpath (window b)) = None"
  shows "mem_switchDirectory_cr3 ms kernel_dir (window b) = Done (Some (of_nat (b * 4096)), ms\<lparr>current_dir := window b\<rparr>)"
proof -
  have neq: "window r \<noteq> window b" using window_frame_window [OF assms(4)] window_frame_window [OF assms(5)] assms(3) by auto
  have can: "MEM_IS_CANONICAL (window b AND NOT 0xFFF)" using assms(6) by (simp only: canonical_align)
  have "mem_getPage ms (window r) (window b AND NOT 0xFFF) 0 = Done (None, ms)"
    using mem_getPage_default [OF assms(1) can] unfolding vpath_align index_align assms(7) option.map(1) .
  moreover have "mem_getPage ms 0 a fl = mem_getPage ms (window r) a fl" for a fl using assms(2) by (simp add: mem_getPage_def)
  ultimately have "mem_getPhysicalAddress ms 0 (window b) = Done (0, ms)"
    unfolding mem_getPhysicalAddress_def MEM_DEFAULT_def Let_def using assms(6) by simp
  then show ?thesis unfolding mem_switchDirectory_cr3_def Let_def using neq assms(2)
    by (simp only: window_nonzero if_False and_then.simps prod.case simp_thms if_True window_bits [OF assms(4)] frame_aligned)
qed

text \<open>An empty table is an address space without pages.\<close>

lemma vas_ok_empty:
  assumes "phys_ok ms" "pmm_in_use (ms_pmm ms) r" "tab ms r = replicate 512 0"
  shows "vas_ok ms r" "table_path p \<Longrightarrow> clear_path ms r p" "pages ms r a = None"
proof -
  have no: "sub_table ms r i = None" if "i < 512" for i
    using that by (simp add: sub_table_def assms(3) pg_present_def)
  then have at: "ptable_at ms r p = (if p = [] then Some r else None)" if "table_path p" for p
    using that by (cases p) (auto simp: table_path_def)
  have size: "\<not> pg_size (tab ms r ! i)" if "i < 512" for i using that by (simp add: assms(3) pg_size_def)
  show "vas_ok ms r" using assms(1,2) size by (auto simp: vas_ok_def at split: if_splits)
  show "clear_path ms r p" if "table_path p"
    unfolding clear_path_def
  proof (intro allI impI)
    fix k f assume k: "k < length p" "ptable_at ms r (take k p) = Some f"
    moreover have "table_path (take k p)" using that by (auto simp: table_path_def dest: in_set_takeD)
    moreover have "p ! k < 512" using that k(1) by (simp add: table_path_def)
    ultimately show "\<not> pg_size (tab ms f ! (p ! k))" using at [of "take k p"] size by (auto split: if_splits)
  qed
  show "pages ms r a = None" using at [of "vpath a"] by (simp add: pages_def leaf_def) (simp add: vpath_def)
qed

text \<open>
  C36: \<open>mem_mapAddress\<close> refines the update of a map from pages to entries. In an address space whose tables are
  frames of their own, with three frames left for tables and no large page in the way, mapping a frame of
  physical memory at a virtual address changes the entry of that page and of no other, whatever tables had to be
  made on the way; the entry is writable and open to user mode as the flags say, the tables are again well
  formed, and \<open>mem_getPhysicalAddress\<close> translates every address of the page to the frame and the offset.
\<close>

theorem mem_mapAddress_refines:
  assumes "vas_ok ms r" "room 3 ms" "MEM_IS_CANONICAL virt" "clear_path ms r (vpath virt)"
    "\<not> has_flag flags MEM_PAGE_FREE" "\<not> has_flag flags MEM_PAGE_NOT_PRESENT" "f < 2 ^ 19"
  shows "\<exists>ms' w. mem_mapAddress ms (window r) (of_nat (f * 4096)) virt flags = Done ms' \<and> vas_ok ms' r \<and>
     pages ms' r = (\<lambda>a. if page_no a = page_no virt then Some w else pages ms r a) \<and>
     pg_frame w = f \<and> (pg_rw w \<longleftrightarrow> \<not> has_flag flags MEM_PAGE_READONLY) \<and> (pg_usermode w \<longleftrightarrow> \<not> has_flag flags MEM_PAGE_KERNEL) \<and>
     (\<forall>a. MEM_IS_CANONICAL a \<and> page_no a = page_no virt \<longrightarrow>
        mem_getPhysicalAddress ms' (window r) a = Done (of_nat (f * 4096) + (a AND 0xFFF), ms'))"
proof -
  have "room (0 + 3) ms" using assms(2) by simp
  from mem_mapAddress_entry [OF assms(1) this assms(3-6)] obtain ms' w t where
    m: "mem_mapAddress ms (window r) (of_nat (f * 4096)) virt flags = Done ms'" "vas_ok ms' r" "ptable_at ms' r (vpath virt) = Some t"
      "read_page ms' (window t, MEM_PAGETBL_INDEX virt) = Done (MEM_SET_FRAME (flagged flags w) (of_nat (f * 4096)))"
      "\<forall>q j. table_path q \<longrightarrow> length q = 3 \<longrightarrow> j < 512 \<longrightarrow> leaf ms' r q j =
        (if q = vpath virt \<and> j = MEM_PAGETBL_INDEX virt then Some (MEM_SET_FRAME (flagged flags w) (of_nat (f * 4096))) else leaf ms r q j)"
    by blast
  let ?w = "MEM_SET_FRAME (flagged flags w) (of_nat (f * 4096))"
  have fr: "pg_frame ?w = f" using assms(7) by (intro pg_frame_SET_FRAME) simp
  have "pages ms' r a = (if page_no a = page_no virt then Some ?w else pages ms r a)" for a
    using m(5) same_page [of a virt] unfolding pages_def by (simp del: of_nat_mult)
  moreover have "mem_getPhysicalAddress ms' (window r) a = Done (of_nat (f * 4096) + (a AND 0xFFF), ms')"
    if a: "MEM_IS_CANONICAL a" "page_no a = page_no virt" for a
  proof -
    have "vpath a = vpath virt" "MEM_PAGETBL_INDEX a = MEM_PAGETBL_INDEX virt" using same_page a(2) by blast+
    then show ?thesis using getPhysicalAddress_of [OF m(2) a(1), of t ?w] m(3,4) fr assms(7) by (simp del: of_nat_mult)
  qed
  moreover have "pg_rw ?w \<longleftrightarrow> \<not> has_flag flags MEM_PAGE_READONLY" "pg_usermode ?w \<longleftrightarrow> \<not> has_flag flags MEM_PAGE_KERNEL" by simp_all
  ultimately show ?thesis using m(1,2) fr by blast
qed

text \<open>A machine of 64 frames, three of them in use, with an empty address space in the first.\<close>

definition small_memory :: mem_state where
  "small_memory = \<lparr>ms_pmm = pmm_small, ms_frames = (\<lambda>f. if f < pmm_capacity pmm_small then Some (replicate 512 0) else None),
     mem_pageReferences = replicate 64 0, ref_lock = False, cow_lock = False, heap_lock = False, current_dir = window 0, mem_kernelHeap = 0\<rparr>"

lemma small_memory_ok: "phys_ok small_memory" "vas_ok small_memory 0" "clear_path small_memory 0 (vpath a)" "room 3 small_memory"
  "pages small_memory 0 a = None"
proof -
  show ok: "phys_ok small_memory" using pmm_small_wf by (simp add: phys_ok_def small_memory_def pmm_small_view)
  have "pmm_in_use (ms_pmm small_memory) 0" "tab small_memory 0 = replicate 512 0"
    by (simp_all add: small_memory_def pmm_small_view tab_def)
  note vas_ok_empty [OF ok this]
  then show "vas_ok small_memory 0" "clear_path small_memory 0 (vpath a)" "pages small_memory 0 a = None" by simp_all
  have "{f. f < 64 \<and> \<not> f < (3 :: nat)} = {3..<64}" by auto
  then show "room 3 small_memory"
    by (simp add: room_def small_memory_def pmm_small_view) (simp add: pmm_small_def)
qed

theorem mem_mapAddress_refines_witness:
  "\<exists>ms' w. mem_mapAddress small_memory (window 0) (of_nat (2 * 4096)) 0x400123 MEM_DEFAULT = Done ms' \<and>
     pages ms' 0 0x400000 = Some w \<and> pg_rw w \<and> pages ms' 0 0x401000 = None \<and>
     mem_getPhysicalAddress ms' (window 0) 0x400FFF = Done (0x2FFF, ms')"
proof -
  have pre: "MEM_IS_CANONICAL 0x400123" "\<not> has_flag MEM_DEFAULT MEM_PAGE_FREE" "\<not> has_flag MEM_DEFAULT MEM_PAGE_NOT_PRESENT" "(2 :: nat) < 2 ^ 19"
    "\<not> has_flag MEM_DEFAULT MEM_PAGE_READONLY" by (simp_all add: MEM_IS_CANONICAL_def has_flag_def MEM_DEFAULT_def)
  have pg: "page_no 0x400000 = page_no 0x400123" "page_no 0x400FFF = page_no 0x400123" "page_no 0x401000 \<noteq> page_no 0x400123" "MEM_IS_CANONICAL 0x400FFF"
    by (simp_all add: page_no_def MEM_IS_CANONICAL_def drop_bit_eq_div take_bit_eq_mod)
  from mem_mapAddress_refines [OF small_memory_ok(2,4) pre(1) small_memory_ok(3) pre(2-4)] obtain ms' w where
    m: "mem_mapAddress small_memory (window 0) (of_nat (2 * 4096)) 0x400123 MEM_DEFAULT = Done ms'" "pg_rw w"
      "pages ms' 0 = (\<lambda>a. if page_no a = page_no 0x400123 then Some w else pages small_memory 0 a)"
      "mem_getPhysicalAddress ms' (window 0) 0x400FFF = Done (of_nat (2 * 4096) + (0x400FFF AND 0xFFF), ms')"
    using pre(5) pg(2,4) by blast
  have "of_nat (2 * 4096) + (0x400FFF AND 0xFFF) = (0x2FFF :: u64)" by simp
  moreover have "pages ms' 0 0x400000 = Some w" "pages ms' 0 0x401000 = None"
    unfolding m(3) using pg(1,3) small_memory_ok(5) by simp_all
  ultimately show ?thesis using m(1,2,4) by metis
qed

end
