(* ===== verification/Copy_On_Write.thy ===== *)
theory Copy_On_Write
  imports Page_Tables
begin

text \<open>
  Copy on write: a page shared by \<open>mem_copyUserPage\<close> and then written on both sides.
\<close>

section \<open>Entries\<close>

definition put :: "mem_state \<Rightarrow> nat \<Rightarrow> nat \<Rightarrow> page_t \<Rightarrow> mem_state" where
  "put ms t i w = ms\<lparr>ms_frames := (ms_frames ms)(t \<mapsto> (tab ms t)[i := w])\<rparr>"

text \<open>An entry of a table that is a frame in use.\<close>

definition entry_at :: "mem_state \<Rightarrow> nat \<times> nat \<Rightarrow> bool" where
  "entry_at ms e \<longleftrightarrow> pmm_in_use (ms_pmm ms) (fst e) \<and> snd e < 512"

definition page_of :: "nat \<times> nat \<Rightarrow> page_ptr" where
  "page_of e = (window (fst e), snd e)"

lemma put_simps [simp]:
  "ms_pmm (put ms t i w) = ms_pmm ms" "mem_pageReferences (put ms t i w) = mem_pageReferences ms" "ref_lock (put ms t i w) = ref_lock ms"
  "cow_lock (put ms t i w) = cow_lock ms" "room n (put ms t i w) = room n ms"
  by (simp_all add: put_def)

lemma phys_ok_fields [simp]:
  "phys_ok (ms\<lparr>mem_pageReferences := rs\<rparr>) = phys_ok ms" "phys_ok (ms\<lparr>ref_lock := l\<rparr>) = phys_ok ms" "phys_ok (ms\<lparr>cow_lock := l\<rparr>) = phys_ok ms"
  "room n (ms\<lparr>mem_pageReferences := rs\<rparr>) = room n ms" "room n (ms\<lparr>ref_lock := l\<rparr>) = room n ms" "room n (ms\<lparr>cow_lock := l\<rparr>) = room n ms"
  "tab (ms\<lparr>mem_pageReferences := rs\<rparr>) = tab ms" "tab (ms\<lparr>ref_lock := l\<rparr>) = tab ms" "tab (ms\<lparr>cow_lock := l\<rparr>) = tab ms" "tab (ms\<lparr>ms_pmm := p\<rparr>) = tab ms"
  by (simp_all add: phys_ok_def room_def tab_def fun_eq_iff)

lemma entry_at_fields [simp]:
  "entry_at (ms\<lparr>mem_pageReferences := rs\<rparr>) e = entry_at ms e" "entry_at (ms\<lparr>ref_lock := l\<rparr>) e = entry_at ms e"
  "entry_at (ms\<lparr>cow_lock := l\<rparr>) e = entry_at ms e" "entry_at (put ms t i w) e = entry_at ms e"
  by (simp_all add: entry_at_def)

lemma read_cow_entry: "phys_ok ms \<Longrightarrow> entry_at ms e \<Longrightarrow> read_page ms (page_of e) = Done (tab ms (fst e) ! snd e)"
  by (simp add: page_of_def entry_at_def read_page_tab in_use_capacity)

lemma write_entry: "phys_ok ms \<Longrightarrow> entry_at ms e \<Longrightarrow> write_page ms (page_of e) w = Done (put ms (fst e) (snd e) w)"
  by (simp add: page_of_def entry_at_def write_page_tab in_use_capacity put_def)

lemma put_ok:
  assumes "phys_ok ms" "entry_at ms e"
  shows "phys_ok (put ms (fst e) (snd e) w)"
    "tab (put ms (fst e) (snd e) w) g = (if g = fst e then (tab ms g)[snd e := w] else tab ms g)" "length (tab ms (fst e)) = 512"
proof -
  show len: "length (tab ms (fst e)) = 512" using assms by (simp add: entry_at_def load_frame_tab in_use_capacity)
  show "phys_ok (put ms (fst e) (snd e) w)" unfolding put_def by (rule phys_ok_store [OF assms(1)]) (simp add: len)
  show "tab (put ms (fst e) (snd e) w) g = (if g = fst e then (tab ms g)[snd e := w] else tab ms g)" by (simp add: put_def tab_def)
qed

lemma put_entry:
  assumes "phys_ok ms" "entry_at ms e"
  shows "tab (put ms (fst e) (snd e) w) (fst e') ! snd e' = (if e' = e then w else tab ms (fst e') ! snd e')"
  using put_ok [OF assms] assms(2) by (cases e; cases e') (auto simp: nth_list_update entry_at_def)

section \<open>Sharing\<close>

text \<open>
  Two different entries, in tables other than the frame \<open>s\<close> itself, and locks that are free; and the frame has its
  place in the array of reference counts, which covers only a part of the machine's frames.
\<close>

definition two_entries :: "mem_state \<Rightarrow> nat \<times> nat \<Rightarrow> nat \<times> nat \<Rightarrow> nat \<Rightarrow> bool" where
  "two_entries ms e e' s \<longleftrightarrow> phys_ok ms \<and> entry_at ms e \<and> entry_at ms e' \<and> e \<noteq> e' \<and> pmm_in_use (ms_pmm ms) s \<and> fst e \<noteq> s \<and> fst e' \<noteq> s \<and>
     s < length (mem_pageReferences ms) \<and> \<not> ref_lock ms \<and> \<not> cow_lock ms"

lemma two_entries_sym: "two_entries ms e e' s \<Longrightarrow> two_entries ms e' e s"
  by (auto simp: two_entries_def)

text \<open>Both entries are the page \<open>w\<close>, counted twice.\<close>

definition shared :: "mem_state \<Rightarrow> nat \<times> nat \<Rightarrow> nat \<times> nat \<Rightarrow> nat \<Rightarrow> page_t \<Rightarrow> bool" where
  "shared ms e e' s w \<longleftrightarrow> two_entries ms e e' s \<and> tab ms (fst e) ! snd e = w \<and> tab ms (fst e') ! snd e' = w \<and>
     pg_present w \<and> pg_cow w \<and> pg_frame w = s \<and> mem_pageReferences ms ! s = 2"

lemma shared_sym: "shared ms e e' s w \<Longrightarrow> shared ms e' e s w"
  using two_entries_sym by (simp add: shared_def)

lemma copyUserPage_shares:
  assumes "two_entries ms e e' s" "tab ms (fst e) ! snd e = w" "pg_present w" "pg_rw w" "pg_frame w = s" "mem_pageReferences ms ! s = 0"
  shows "\<exists>ms'. mem_copyUserPage ms (page_of e) (page_of e') False = Done ms' \<and> shared ms' e e' s (pg_set COW True (pg_set RW False w)) \<and>
     tab ms' s = tab ms s \<and> ms_pmm ms' = ms_pmm ms"
proof -
  have a: "phys_ok ms" "entry_at ms e" "entry_at ms e'" "e \<noteq> e'" "s < length (mem_pageReferences ms)" "\<not> ref_lock ms" "\<not> cow_lock ms" "fst e \<noteq> s" "fst e' \<noteq> s"
    using assms(1) by (simp_all add: two_entries_def)
  let ?w = "pg_set COW True (pg_set RW False w)"
  define ms1 where "ms1 = ms\<lparr>mem_pageReferences := (mem_pageReferences ms)[s := 2]\<rparr>"
  define ms2 where "ms2 = put ms1 (fst e) (snd e) ?w"
  define ms3 where "ms3 = put ms2 (fst e') (snd e') ?w"
  have ok1: "phys_ok ms1" "entry_at ms1 e" "entry_at ms1 e'" using a by (simp_all add: ms1_def)
  have ok2: "phys_ok ms2" "entry_at ms2 e'" using put_ok(1) [OF ok1(1,2)] ok1(3) by (simp_all add: ms2_def)
  have "mem_copyUserPage ms (page_of e) (page_of e') False = Done ms3"
    using read_cow_entry [OF a(1,2)] assms(2,4,5,6) a(5-7) write_entry [OF ok1(1,2)] write_entry [OF ok2, of ?w, folded ms3_def, unfolded ms2_def]
    by (simp add: mem_copyUserPage_def pg_frame_def Let_def flip: ms1_def)
  moreover have "tab ms3 (fst x) ! snd x = ?w" if "x = e \<or> x = e'" for x
    using that put_entry [OF ok1(1,2)] put_entry [OF ok2] by (auto simp: ms2_def ms3_def)
  moreover have "tab ms3 s = tab ms s" using put_ok(2) [OF ok1(1,2)] put_ok(2) [OF ok2] a(8,9) by (simp add: ms2_def ms3_def) (simp add: ms1_def)
  moreover have "two_entries ms3 e e' s" "mem_pageReferences ms3 ! s = 2" "ms_pmm ms3 = ms_pmm ms"
    using assms(1) put_ok(1) [OF ok2] by (simp_all add: two_entries_def ms3_def ms2_def ms1_def)
  ultimately show ?thesis using assms(3,5) by (auto simp: shared_def)
qed

section \<open>The first write and the last\<close>

lemma decrement_reference:
  assumes "phys_ok ms" "entry_at ms e" "pg_present (tab ms (fst e) ! snd e)" "\<not> ref_lock ms"
    "pg_frame (tab ms (fst e) ! snd e) = s" "s < length (mem_pageReferences ms)" "mem_pageReferences ms ! s = r" "r \<noteq> 0"
  shows "mem_decrementPageReference ms (Some (page_of e)) = Done (uint (r - 1), ms\<lparr>mem_pageReferences := (mem_pageReferences ms)[s := r - 1]\<rparr>)"
  using assms read_cow_entry [OF assms(1,2)] by (simp add: mem_decrementPageReference_def pg_frame_def)

lemma copy_frame_spec:
  assumes "phys_ok ms" "room 1 ms" "pmm_in_use (ms_pmm ms) (pg_frame w)"
  obtains b p where "copy_frame ms w = Done (pg_set RW True (pg_set COW False (MEM_SET_FRAME w (of_nat (b * 4096)))),
      ms\<lparr>ms_pmm := p, ms_frames := (ms_frames ms)(b \<mapsto> tab ms (pg_frame w))\<rparr>)"
    "\<not> pmm_in_use (ms_pmm ms) b" "b < 2 ^ 28" "\<forall>g. pmm_in_use p g \<longleftrightarrow> g = b \<or> pmm_in_use (ms_pmm ms) g" "phys_ok (ms\<lparr>ms_pmm := p\<rparr>)"
proof -
  have room: "room (Suc 0) ms" using assms(2) by simp
  from mem_pmm_spec [OF assms(1) room] obtain b p where
    b: "mem_pmm ms = Done (of_nat (b * 4096), ms\<lparr>ms_pmm := p\<rparr>)" "b < pmm_capacity (ms_pmm ms)" "\<not> pmm_in_use (ms_pmm ms) b"
      "\<forall>g. pmm_in_use p g \<longleftrightarrow> g = b \<or> pmm_in_use (ms_pmm ms) g" "pmm_capacity p = pmm_capacity (ms_pmm ms)" "phys_ok (ms\<lparr>ms_pmm := p\<rparr>)" by blast
  have s: "pg_frame w < pmm_capacity (ms_pmm ms)" using in_use_capacity [OF assms(3)] .
  have get: "MEM_GET_FRAME w = of_nat (pg_frame w * 4096)" using GET_FRAME_low [OF frame_low(1) [OF assms(1) s]] .
  have sz: "(0x1000 :: u64) \<le> MEM_PHYSMEM_MAP_SIZE" by (simp add: MEM_PHYSMEM_MAP_SIZE_def)
  have ld: "load_frame (ms\<lparr>ms_pmm := p\<rparr>) (window (pg_frame w)) = Done (tab ms (pg_frame w))"
    using load_frame_tab(1) [OF b(6)] s b(5) by simp
  have st: "store_frame (ms\<lparr>ms_pmm := p\<rparr>) (window b) (tab ms (pg_frame w)) = Done (ms\<lparr>ms_pmm := p, ms_frames := (ms_frames ms)(b \<mapsto> tab ms (pg_frame w))\<rparr>)"
    using store_frame_tab [OF b(6)] b(2,5) by simp
  have "copy_frame ms w = Done (pg_set RW True (pg_set COW False (MEM_SET_FRAME w (of_nat (b * 4096)))),
      ms\<lparr>ms_pmm := p, ms_frames := (ms_frames ms)(b \<mapsto> tab ms (pg_frame w))\<rparr>)"
    unfolding copy_frame_def get remap_window [OF sz] b(1) and_then.simps prod.case ld st ..
  then show thesis using that b(3,4,6) frame_low(3) [OF assms(1) b(2)] by blast
qed

text \<open>The first to write gets a copy in a frame that was free.\<close>

lemma copyOnWrite_first:
  assumes "shared ms e e' s w" "room 1 ms"
  shows "\<exists>ms' b. mem_copyOnWrite ms (Some (page_of e)) = Done ms' \<and> two_entries ms' e e' s \<and> \<not> pmm_in_use (ms_pmm ms) b \<and>
     (\<exists>w1. tab ms' (fst e) ! snd e = w1 \<and> pg_present w1 \<and> pg_rw w1 \<and> \<not> pg_cow w1 \<and> pg_frame w1 = b) \<and> tab ms' (fst e') ! snd e' = w \<and>
     mem_pageReferences ms' ! s = 1 \<and> tab ms' b = tab ms s \<and> tab ms' s = tab ms s \<and> fst e \<noteq> b \<and> fst e' \<noteq> b"
proof -
  have a: "phys_ok ms" "entry_at ms e" "entry_at ms e'" "e \<noteq> e'" "pmm_in_use (ms_pmm ms) s" "fst e \<noteq> s" "fst e' \<noteq> s"
      "s < length (mem_pageReferences ms)" "\<not> ref_lock ms" "\<not> cow_lock ms" "tab ms (fst e) ! snd e = w" "tab ms (fst e') ! snd e' = w"
      "pg_present w" "pg_cow w" "pg_frame w = s" "mem_pageReferences ms ! s = 2" using assms(1) by (auto simp: shared_def two_entries_def)
  define ms1 where "ms1 = ms\<lparr>cow_lock := True, mem_pageReferences := (mem_pageReferences ms)[s := 1]\<rparr>"
  have dec: "mem_decrementPageReference (ms\<lparr>cow_lock := True\<rparr>) (Some (page_of e)) = Done (1, ms1)"
    using decrement_reference [of "ms\<lparr>cow_lock := True\<rparr>" e s 2] a by (simp add: ms1_def)
  have ok1: "phys_ok ms1" "room 1 ms1" "pmm_in_use (ms_pmm ms1) (pg_frame w)" "entry_at ms1 e" using a assms(2) by (simp_all add: ms1_def)
  obtain b p where c: "copy_frame ms1 w = Done (pg_set RW True (pg_set COW False (MEM_SET_FRAME w (of_nat (b * 4096)))),
      ms1\<lparr>ms_pmm := p, ms_frames := (ms_frames ms1)(b \<mapsto> tab ms1 (pg_frame w))\<rparr>)"
    "\<not> pmm_in_use (ms_pmm ms1) b" "b < 2 ^ 28" "\<forall>g. pmm_in_use p g \<longleftrightarrow> g = b \<or> pmm_in_use (ms_pmm ms1) g" "phys_ok (ms1\<lparr>ms_pmm := p\<rparr>)"
    by (rule copy_frame_spec [OF ok1(1-3)])
  define w1 where "w1 = pg_set RW True (pg_set COW False (MEM_SET_FRAME w (of_nat (b * 4096))))"
  define ms2 where "ms2 = ms1\<lparr>ms_pmm := p, ms_frames := (ms_frames ms1)(b \<mapsto> tab ms1 (pg_frame w))\<rparr>"
  have len: "length (tab ms1 s) = 512" using load_frame_tab(2) [OF a(1) in_use_capacity [OF a(5)]] by (simp add: ms1_def)
  have ok2: "phys_ok ms2" using phys_ok_store [OF c(5) len, of b] a(15) by (simp add: ms2_def)
  have e2: "entry_at ms2 x" if "entry_at ms x" for x using that c(4) by (simp add: entry_at_def ms2_def) (simp add: ms1_def)
  define ms3 where "ms3 = (put ms2 (fst e) (snd e) w1)\<lparr>cow_lock := False\<rparr>"
  have "mem_copyOnWrite ms (Some (page_of e)) = Done ms3"
    unfolding mem_copyOnWrite_def
    using read_cow_entry [OF a(1,2)] a(10,11,14) dec c(1) [folded w1_def ms2_def] write_entry [OF ok2 e2 [OF a(2)], of w1] by (simp add: ms3_def)
  moreover have b: "fst e \<noteq> b" "fst e' \<noteq> b" "s \<noteq> b" "\<not> pmm_in_use (ms_pmm ms) b" using a(2,3,5) c(2) by (auto simp: entry_at_def ms1_def)
  moreover have tab2: "tab ms2 g = (if g = b then tab ms s else tab ms g)" for g using a(15) by (simp add: ms2_def ms1_def tab_def)
  then have "tab ms3 b = tab ms s" "tab ms3 s = tab ms s" using put_ok(2) [OF ok2 e2 [OF a(2)]] b a(6) by (simp_all add: ms3_def)
  moreover have "tab ms3 (fst x) ! snd x = (if x = e then w1 else tab ms2 (fst x) ! snd x)" for x
    using put_entry [OF ok2 e2 [OF a(2)]] by (simp add: ms3_def)
  then have "tab ms3 (fst e) ! snd e = w1" "tab ms3 (fst e') ! snd e' = w" using a(4,12) tab2 b(2) by simp_all
  moreover have "mem_pageReferences ms3 ! s = 1" "two_entries ms3 e e' s"
    using a put_ok(1) [OF ok2 e2 [OF a(2)]] e2 c(4) by (simp_all add: two_entries_def ms3_def) (simp_all add: ms2_def ms1_def)
  moreover have "pg_present w1" "pg_rw w1" "\<not> pg_cow w1" "pg_frame w1 = b"
    unfolding w1_def using a(13) pg_frame_SET_FRAME [OF c(3), of w] by (simp_all del: of_nat_mult)
  ultimately show ?thesis by blast
qed

text \<open>The last to write gets the frame itself.\<close>

lemma copyOnWrite_last:
  assumes "two_entries ms e e' s" "tab ms (fst e) ! snd e = w" "pg_present w" "pg_cow w" "pg_frame w = s" "mem_pageReferences ms ! s = 1"
  shows "\<exists>ms'. mem_copyOnWrite ms (Some (page_of e)) = Done ms' \<and> phys_ok ms' \<and> entry_at ms' e \<and> entry_at ms' e' \<and>
     (\<exists>w1. tab ms' (fst e) ! snd e = w1 \<and> pg_present w1 \<and> pg_rw w1 \<and> \<not> pg_cow w1 \<and> pg_frame w1 = s) \<and>
     tab ms' (fst e') ! snd e' = tab ms (fst e') ! snd e' \<and> (\<forall>g. g \<noteq> fst e \<longrightarrow> tab ms' g = tab ms g) \<and>
     mem_pageReferences ms' ! s = 0 \<and> \<not> cow_lock ms' \<and> \<not> ref_lock ms'"
proof -
  have a: "phys_ok ms" "entry_at ms e" "entry_at ms e'" "e \<noteq> e'" "s < length (mem_pageReferences ms)" "\<not> ref_lock ms" "\<not> cow_lock ms"
    using assms(1) by (simp_all add: two_entries_def)
  define ms1 where "ms1 = ms\<lparr>cow_lock := True, mem_pageReferences := (mem_pageReferences ms)[s := 0]\<rparr>"
  have dec: "mem_decrementPageReference (ms\<lparr>cow_lock := True\<rparr>) (Some (page_of e)) = Done (0, ms1)"
    using decrement_reference [of "ms\<lparr>cow_lock := True\<rparr>" e s 1] a assms by (simp add: ms1_def)
  have ok1: "phys_ok ms1" "entry_at ms1 e" using a by (simp_all add: ms1_def)
  define w1 where "w1 = pg_set COW False (pg_set RW True w)"
  define ms2 where "ms2 = (put ms1 (fst e) (snd e) w1)\<lparr>cow_lock := False\<rparr>"
  have "mem_copyOnWrite ms (Some (page_of e)) = Done ms2"
    unfolding mem_copyOnWrite_def
    using read_cow_entry [OF a(1,2)] a(7) assms(2,4) dec write_entry [OF ok1, of w1] by (simp add: ms2_def) (simp add: w1_def)
  moreover have "tab ms2 (fst x) ! snd x = (if x = e then w1 else tab ms (fst x) ! snd x)" for x
    using put_entry [OF ok1, of w1 x] by (simp add: ms2_def) (simp add: ms1_def)
  moreover have "tab ms2 g = tab ms g" if "g \<noteq> fst e" for g using put_ok(2) [OF ok1, of w1 g] that by (simp add: ms2_def) (simp add: ms1_def)
  moreover have "phys_ok ms2" "entry_at ms2 e" "entry_at ms2 e'" "mem_pageReferences ms2 ! s = 0" "\<not> cow_lock ms2" "\<not> ref_lock ms2"
    using a put_ok(1) [OF ok1, of w1] by (simp_all add: ms2_def) (simp_all add: ms1_def)
  moreover have "pg_present w1" "pg_rw w1" "\<not> pg_cow w1" "pg_frame w1 = s" unfolding w1_def using assms(3,5) by simp_all
  ultimately show ?thesis using a(4) by auto
qed

text \<open>
  C37: Copy on write keeps the two sides of a shared page apart. A writable page that nobody else counts, with a frame
  inside the array of reference counts (\<open>two_entries\<close>), is shared
  by \<open>mem_copyUserPage\<close> as \<open>mem_clone\<close> does; then, in whichever order the two sides write,
  \<open>mem_copyOnWrite\<close> ends with both entries present, writable and no longer marked, in different frames with the
  contents the page had when it was shared, the second writer in the original frame, and the count of
  references back at 0.
\<close>

theorem copy_on_write_isolates:
  assumes "two_entries ms e e' s" "tab ms (fst e) ! snd e = w" "pg_present w" "pg_rw w" "pg_frame w = s" "mem_pageReferences ms ! s = 0"
    "room 1 ms" "(x, y) = (e, e') \<or> (x, y) = (e', e)"
  shows "\<exists>ms1 ms2 ms3 wx wy.
     mem_copyUserPage ms (page_of e) (page_of e') False = Done ms1 \<and> mem_copyOnWrite ms1 (Some (page_of x)) = Done ms2 \<and>
     mem_copyOnWrite ms2 (Some (page_of y)) = Done ms3 \<and> read_page ms3 (page_of x) = Done wx \<and> read_page ms3 (page_of y) = Done wy \<and>
     pg_present wx \<and> pg_rw wx \<and> \<not> pg_cow wx \<and> pg_present wy \<and> pg_rw wy \<and> \<not> pg_cow wy \<and>
     pg_frame wy = s \<and> \<not> pmm_in_use (ms_pmm ms) (pg_frame wx) \<and> tab ms3 (pg_frame wx) = tab ms s \<and> tab ms3 s = tab ms s \<and>
     mem_pageReferences ms3 ! s = 0 \<and> \<not> cow_lock ms3 \<and> \<not> ref_lock ms3"
proof -
  from copyUserPage_shares [OF assms(1-6)] obtain ms1 v where
    1: "mem_copyUserPage ms (page_of e) (page_of e') False = Done ms1" "shared ms1 e e' s v" "tab ms1 s = tab ms s" "ms_pmm ms1 = ms_pmm ms" by blast
  have "shared ms1 x y s v" using 1(2) shared_sym [OF 1(2)] assms(8) by auto
  moreover have "room 1 ms1" using assms(7) 1(4) by (simp add: room_def)
  ultimately obtain ms2 b wx where
    2: "mem_copyOnWrite ms1 (Some (page_of x)) = Done ms2" "two_entries ms2 x y s" "\<not> pmm_in_use (ms_pmm ms) b" "tab ms2 (fst x) ! snd x = wx"
      "pg_present wx" "pg_rw wx" "\<not> pg_cow wx" "pg_frame wx = b" "tab ms2 (fst y) ! snd y = v" "mem_pageReferences ms2 ! s = 1"
      "tab ms2 b = tab ms1 s" "tab ms2 s = tab ms1 s" "fst x \<noteq> b" "fst y \<noteq> b"
    using copyOnWrite_first [of ms1 x y s v] 1(4) by auto
  have v: "pg_present v" "pg_cow v" "pg_frame v = s" "fst y \<noteq> s" using 1(2) assms(8) by (auto simp: shared_def two_entries_def)
  obtain ms3 wy where
    3: "mem_copyOnWrite ms2 (Some (page_of y)) = Done ms3" "phys_ok ms3" "entry_at ms3 y" "entry_at ms3 x" "tab ms3 (fst y) ! snd y = wy"
      "pg_present wy" "pg_rw wy" "\<not> pg_cow wy" "pg_frame wy = s" "tab ms3 (fst x) ! snd x = wx" "\<forall>g. g \<noteq> fst y \<longrightarrow> tab ms3 g = tab ms2 g"
      "mem_pageReferences ms3 ! s = 0" "\<not> cow_lock ms3" "\<not> ref_lock ms3"
    using copyOnWrite_last [OF two_entries_sym [OF 2(2)] 2(9) v(1-3) 2(10)] 2(4) by auto
  have "read_page ms3 (page_of x) = Done wx" "read_page ms3 (page_of y) = Done wy"
    using read_cow_entry [OF 3(2,4)] read_cow_entry [OF 3(2,3)] 3(5,10) by simp_all
  moreover have "tab ms3 b = tab ms s" "tab ms3 s = tab ms s" using 3(11) 2(11,12,14) v(4) 1(3) by simp_all
  ultimately show ?thesis using 1(1) 2(1,3,5-8) 3(1,6-9,12-14) by blast
qed

text \<open>A page in frame 2 at entry 5 of the table in frame 0, shared with entry 7 of the table in frame 1.\<close>

definition one_page :: mem_state where
  "one_page = small_memory\<lparr>ms_frames := (ms_frames small_memory)(0 \<mapsto> (replicate 512 0)[5 := 0x2007], 2 \<mapsto> (replicate 512 0)[0 := 42])\<rparr>"

lemma one_page_ok:
  "two_entries one_page (0, 5) (1, 7) 2" "tab one_page 0 ! 5 = 0x2007" "tab one_page 2 ! 0 = 42" "room 1 one_page"
  "mem_pageReferences one_page ! 2 = 0"
proof -
  have "phys_ok one_page" unfolding one_page_def fun_upd_twist
    using phys_ok_store [OF phys_ok_store [OF small_memory_ok(1)], of "(replicate 512 0)[5 := 0x2007]" "(replicate 512 0)[0 := 42]" 0 2] by simp
  then show "two_entries one_page (0, 5) (1, 7) 2"
    by (simp add: two_entries_def entry_at_def one_page_def small_memory_def pmm_small_view)
  show "tab one_page 0 ! 5 = 0x2007" "tab one_page 2 ! 0 = 42" by (simp_all add: tab_def one_page_def)
  have "room 1 small_memory" using small_memory_ok(4) by (simp add: room_def)
  then show "room 1 one_page" by (simp add: one_page_def)
  show "mem_pageReferences one_page ! 2 = 0" by (simp add: one_page_def small_memory_def)
qed

theorem copy_on_write_isolates_witness:
  "\<exists>ms1 ms2 ms3 wx wy.
     mem_copyUserPage one_page (page_of (0, 5)) (page_of (1, 7)) False = Done ms1 \<and> mem_copyOnWrite ms1 (Some (page_of (1, 7))) = Done ms2 \<and>
     mem_copyOnWrite ms2 (Some (page_of (0, 5))) = Done ms3 \<and> read_page ms3 (page_of (1, 7)) = Done wx \<and> read_page ms3 (page_of (0, 5)) = Done wy \<and>
     pg_rw wx \<and> pg_rw wy \<and> pg_frame wy = 2 \<and> pg_frame wx \<noteq> 2 \<and> tab ms3 (pg_frame wx) ! 0 = 42 \<and> tab ms3 2 ! 0 = 42"
proof -
  have w: "tab one_page (fst (0, 5)) ! snd (0, 5) = 0x2007" using one_page_ok(2) by simp
  have bits: "pg_present 0x2007" "pg_rw 0x2007" "pg_frame 0x2007 = 2"
    by (simp_all add: pg_present_def pg_rw_def pg_frame_def pg_address_def bit_iff_odd drop_bit_eq_div take_bit_eq_mod)
  have "pmm_in_use (ms_pmm one_page) 2" using one_page_ok(1) by (simp add: two_entries_def)
  moreover have "((1, 7), (0, 5)) = ((0, 5), (1, 7)) \<or> ((1, 7), (0, 5)) = ((1 :: nat, 7 :: nat), (0 :: nat, 5 :: nat))" by simp
  note copy_on_write_isolates [OF one_page_ok(1) w bits one_page_ok(5,4) this]
  ultimately show ?thesis using one_page_ok(3) by metis
qed

end
