(* ===== verification/Ksym.thy ===== *)
theory Ksym
  imports Vfs Libc_Stdlib
begin

text \<open>
  \<open>hexahedron/misc/ksym.c\<close>: the symbols of the kernel, read from the map that \<open>nm\<close> writes, for the loader of drivers.
  The map file is read into a buffer of exactly its length; what the heap has after the buffer is an argument, since the
  tokens of the last line end there.
\<close>

section \<open>Symbols\<close>

definition EALREADY :: cint where "EALREADY = 120"

type_synonym ksym_map = "u64 hashmap_t option"

definition ksym_bind_symbol :: "ksym_map \<Rightarrow> string \<Rightarrow> u64 \<Rightarrow> ksym_map outcome" where
  "ksym_bind_symbol hm symname address = (case hm of
     None \<Rightarrow> Fault BadPointer
   | Some h \<Rightarrow>
       and_then (hashmap_has h (StrKey symname)) (\<lambda>has.
       if has then Done hm else hashmap_set hm (StrKey symname) address))"

definition ksym_resolve :: "ksym_map \<Rightarrow> string \<Rightarrow> u64 outcome" where
  "ksym_resolve hm symname = (case hm of
     None \<Rightarrow> Fault BadPointer
   | Some h \<Rightarrow> and_then (hashmap_get h (StrKey symname)) (\<lambda>r. Done (case r of Some a \<Rightarrow> a | None \<Rightarrow> 0)))"

text \<open>A line: its first three words, split off a copy. \<open>None\<close> is the jump to \<open>_next_token\<close>.\<close>

definition ksym_line :: "string \<Rightarrow> (u64 \<times> string) option outcome" where
  "ksym_line token =
     and_then (strtok_loop (length token + 1) (token @ NUL # '' '' @ [NUL]) (Some 0) (length token + 1) None) (\<lambda>words.
     case words of
       address # type # symname # _ \<Rightarrow>
         and_then (strtoull (address @ [NUL]) 0 16) (\<lambda>(addr, _). Done (Some (addr, symname)))
     | _ \<Rightarrow> Done None)"

text \<open>The loop over the lines: the symbols bound and their number.\<close>

primrec ksym_lines :: "string list \<Rightarrow> ksym_map \<Rightarrow> cint \<Rightarrow> (ksym_map \<times> cint) outcome" where
  "ksym_lines [] hm symbols = Done (hm, symbols)"
| "ksym_lines (token # ts) hm symbols =
     and_then (ksym_line token) (\<lambda>r.
     case r of
       None \<Rightarrow> ksym_lines ts hm symbols
     | Some (addr, symname) \<Rightarrow> and_then (ksym_bind_symbol hm symname addr) (\<lambda>hm'. ksym_lines ts hm' (symbols + 1)))"

text \<open>
  The first token is read before the loop, whose first statement reads the next: the first line is not parsed. The
  memory is the separator string, the buffer and what follows it.
\<close>

definition ksym_load :: "fs_ops \<Rightarrow> string \<Rightarrow> vfs_state \<Rightarrow> addr \<Rightarrow> ksym_map \<Rightarrow> (cint \<times> ksym_map \<times> vfs_state) outcome" where
  "ksym_load ops after s file hm =
     (if file = NULL then Done (- EINVAL, hm, s)
      else if hm \<noteq> None then Done (- EALREADY, hm, s)
      else
        let hm0 = Some (hashmap_create ''ksym'' 20) in
        and_then (fs_node_at s file) (\<lambda>n.
        and_then (fs_read ops s file 0 (fn_length n)) (\<lambda>(bytes, b, s1).
        if b \<noteq> fn_length n then Done (- EINVAL, hm0, s1)
        else
          let symbuf = map (\<lambda>x. char_of (unat x)) bytes @ replicate (unat (fn_length n) - length bytes) NUL;
              m = [CHR 10, NUL] @ symbuf @ after in
          and_then (strtok_loop (length m + 1) m (Some 2) 0 None) (\<lambda>lines.
          and_then (ksym_lines (tl lines) hm0 0) (\<lambda>(hm1, symbols). Done (symbols, hm1, s1))))))"

text \<open>The best match so far, and the name stored for the caller.\<close>

definition better_symbol :: "u64 \<Rightarrow> u64 \<times> hm_key option \<Rightarrow> hm_key \<times> u64 \<Rightarrow> u64 \<times> hm_key option" where
  "better_symbol address best node =
     (if snd node < address \<and> snd node > fst best then (snd node, Some (fst node)) else best)"

definition ksym_find_best_symbol :: "ksym_map \<Rightarrow> u64 \<Rightarrow> u64 \<times> hm_key option" where
  "ksym_find_best_symbol hm address = (case hm of
     None \<Rightarrow> (0, None)
   | Some h \<Rightarrow> foldl (foldl (better_symbol address)) (0, None) (hm_entries h))"

section \<open>Lemmas\<close>

text \<open>A map of symbols: the first binding of a name is the one that stays.\<close>

definition ksym_ok :: "ksym_map \<Rightarrow> bool" where
  "ksym_ok hm \<longleftrightarrow> (\<exists>h. hm = Some h \<and> hm_ok h \<and> hm_type h = HASHMAP_PTR)"

definition symbol_name :: "string \<Rightarrow> bool" where
  "symbol_name s \<longleftrightarrow> NUL \<notin> set s \<and> length s \<le> 256"

definition ksym_view :: "ksym_map \<Rightarrow> string \<Rightarrow> u64 option" where
  "ksym_view hm s = (case hm of None \<Rightarrow> None | Some h \<Rightarrow> hm_view h (StrKey s))"

lemma ksym_bind_spec:
  assumes "ksym_ok hm" "symbol_name s"
  shows "\<exists>hm'. ksym_bind_symbol hm s a = Done hm' \<and> ksym_ok hm' \<and> (\<forall>t. ksym_view hm' t = (if t = s \<and> ksym_view hm s = None then Some a else ksym_view hm t))"
proof -
  from assms(1) obtain h where h: "hm = Some h" "hm_ok h" "hm_type h = HASHMAP_PTR" by (auto simp: ksym_ok_def)
  have key: "hm_key_ok (hm_type h) (StrKey s)" using assms(2) h(3) by (simp add: hm_key_ok_def symbol_name_def)
  note has = hashmap.has [OF h(2) key]
  show ?thesis
  proof (cases "hm_view h (StrKey s) = None")
    case True
    from hashmap.put [OF h(2) key, of a] obtain h' where
      h': "hashmap_put h (StrKey s) a = Done h'" "hm_ok h'" "(\<lambda>k. hm_key_ok (hm_type h') k) = (\<lambda>k. hm_key_ok (hm_type h) k)" "hm_view h' = (hm_view h)(StrKey s \<mapsto> a)" by blast
    have "hm_type h' = HASHMAP_PTR" using fun_cong [OF h'(3), of "IntKey 0"] h(3) by (cases "hm_type h'") (simp_all add: hm_key_ok_def)
    moreover have "hashmap_set (Some h) (StrKey s) a = Done (Some h')"
      using h'(1) by (auto simp: hashmap_put_def outcome_iff split: option.splits)
    ultimately show ?thesis using h h'(2,4) has True by (simp add: ksym_bind_symbol_def ksym_ok_def ksym_view_def)
  next
    case False
    then show ?thesis using h has by (auto simp: ksym_bind_symbol_def ksym_ok_def ksym_view_def)
  qed
qed

text \<open>Lines that are well formed, as \<open>ksym_line\<close> reads them, bind their names in order.\<close>

primrec bindings :: "(u64 \<times> string) option list \<Rightarrow> (string \<times> u64) list" where
  "bindings [] = []"
| "bindings (r # rs) = (case r of None \<Rightarrow> bindings rs | Some (a, s) \<Rightarrow> (s, a) # bindings rs)"

lemma ksym_lines_spec:
  assumes "ksym_ok hm" "\<forall>(l, r)\<in>set lrs. ksym_line l = Done r \<and> (\<forall>a s. r = Some (a, s) \<longrightarrow> symbol_name s)"
  shows "\<exists>hm'. ksym_lines (map fst lrs) hm k = Done (hm', k + of_nat (length (bindings (map snd lrs)))) \<and> ksym_ok hm' \<and>
     (\<forall>t. ksym_view hm' t = (case ksym_view hm t of Some a \<Rightarrow> Some a | None \<Rightarrow> map_of (bindings (map snd lrs)) t))"
  using assms
proof (induction lrs arbitrary: hm k)
  case Nil
  then show ?case by (auto split: option.splits)
next
  case (Cons lr lrs)
  obtain l r where lr: "lr = (l, r)" by (cases lr)
  have l: "ksym_line l = Done r" "\<forall>(l, r)\<in>set lrs. ksym_line l = Done r \<and> (\<forall>a s. r = Some (a, s) \<longrightarrow> symbol_name s)"
    using Cons.prems(2) lr by auto
  show ?case
  proof (cases r)
    case None
    then show ?thesis using Cons.IH [OF Cons.prems(1) l(2), of k] l(1) lr by (simp cong: option.case_cong)
  next
    case (Some p)
    obtain a s where p: "p = (a, s)" by (cases p)
    have "symbol_name s" using Cons.prems(2) lr Some p by auto
    from ksym_bind_spec [OF Cons.prems(1) this, of a] obtain hm1 where
      hm1: "ksym_bind_symbol hm s a = Done hm1" "ksym_ok hm1"
        "\<forall>t. ksym_view hm1 t = (if t = s \<and> ksym_view hm s = None then Some a else ksym_view hm t)" by blast
    from Cons.IH [OF hm1(2) l(2), of "k + 1"] obtain hm' where
      hm': "ksym_lines (map fst lrs) hm1 (k + 1) = Done (hm', (k + 1) + of_nat (length (bindings (map snd lrs))))" "ksym_ok hm'"
        "\<forall>t. ksym_view hm' t = (case ksym_view hm1 t of Some a \<Rightarrow> Some a | None \<Rightarrow> map_of (bindings (map snd lrs)) t)" by blast
    have "ksym_view hm' t = (case ksym_view hm t of Some a \<Rightarrow> Some a | None \<Rightarrow> map_of (bindings (map snd (lr # lrs))) t)" for t
      using hm1(3) hm'(3) lr Some p by (cases "t = s"; cases "ksym_view hm t") simp_all
    moreover have "ksym_lines (map fst (lr # lrs)) hm k = Done (hm', k + of_nat (length (bindings (map snd (lr # lrs)))))"
      using hm'(1) hm1(1) l(1) lr Some p by (simp add: add.assoc)
    ultimately show ?thesis using hm'(2) by blast
  qed
qed

text \<open>An example: the first line is skipped, the others are bound.\<close>

lemma ksym_lines_example:
  "case ksym_lines (tl [''0000000000100000 T _start'', ''0000000000100040 T kmain'', ''00000000001000a0 D kargs'']) (Some (hashmap_create ''ksym'' 20)) 0 of
     Done (hm, n) \<Rightarrow> n = 2 \<and> ksym_resolve hm ''kmain'' = Done 0x100040 \<and> ksym_resolve hm ''_start'' = Done 0 \<and>
       ksym_find_best_symbol hm 0x100042 = (0x100040, Some (StrKey ''kmain''))
   | _ \<Rightarrow> False"
  by code_simp

end
