(* ===== verification/Regions.thy ===== *)
theory Regions
  imports Page_Tables
begin

text \<open>
  \<open>hexahedron/mem/regions.c\<close>: the regions of virtual memory for DMA, for device memory and for drivers. Each has a pool
  of pages that gives the addresses; the pages are mapped in the page tables of the current directory.
\<close>

section \<open>Regions\<close>

definition PAGE_SIZE :: u64 where "PAGE_SIZE = 4096"
definition MEM_DMA_REGION :: u64 where "MEM_DMA_REGION = 0x00000000A0000000"
definition MEM_MMIO_REGION :: u64 where "MEM_MMIO_REGION = 0xFFFFFFF000000000"
definition MEM_DRIVER_REGION :: u64 where "MEM_DRIVER_REGION = 0xFFFFFFFF00000000"
definition MEM_MMIO_REGION_SIZE :: u64 where "MEM_MMIO_REGION_SIZE = 0x0000000100000000"
definition MEM_DMA_REGION_SIZE :: u64 where "MEM_DMA_REGION_SIZE = 0x0000000050000000"
definition MEM_DRIVER_REGION_SIZE :: u64 where "MEM_DRIVER_REGION_SIZE = 0x0000000080000000"

record regions =
  dma_pool :: "pool_t option"
  mmio_pool :: "pool_t option"
  driver_pool :: "pool_t option"

text \<open>The functions \<open>pool_create\<close> would ask for memory are arguments; all three pools have an address, so it does not.\<close>

definition mem_regionsInitialize :: "(u64 \<Rightarrow> u64 outcome) \<Rightarrow> (u64 \<Rightarrow> u64 outcome) \<Rightarrow> regions outcome" where
  "mem_regionsInitialize alloc_dma sbrk =
     and_then (pool_create alloc_dma sbrk ''dma pool'' PAGE_SIZE MEM_DMA_REGION_SIZE MEM_DMA_REGION 0) (\<lambda>dma.
     and_then (pool_create alloc_dma sbrk ''mmio pool'' PAGE_SIZE MEM_MMIO_REGION_SIZE MEM_MMIO_REGION 0) (\<lambda>mmio.
     and_then (pool_create alloc_dma sbrk ''driver pool'' PAGE_SIZE MEM_DRIVER_REGION_SIZE MEM_DRIVER_REGION 0) (\<lambda>driver.
     Done \<lparr>dma_pool = Some dma, mmio_pool = Some mmio, driver_pool = Some driver\<rparr>)))"

definition align_size :: "u64 \<Rightarrow> u64" where
  "align_size sz = (if sz mod PAGE_SIZE \<noteq> 0 then MEM_ALIGN_PAGE sz else sz)"

text \<open>The loop that maps a range of physical memory page by page.\<close>

definition map_range :: "u64 \<Rightarrow> u64 \<Rightarrow> u64 \<Rightarrow> mem_state \<Rightarrow> mem_state outcome" where
  "map_range phys virt sz ms =
     for_pages (\<lambda>i ms. mem_mapAddress ms 0 (phys + i) (virt + i) (MEM_PAGE_KERNEL OR MEM_PAGE_NOT_CACHEABLE)) 0 sz ms"

definition mem_allocateDMA :: "regions \<Rightarrow> mem_state \<Rightarrow> u64 \<Rightarrow> (u64 \<times> regions \<times> mem_state) outcome" where
  "mem_allocateDMA rg ms sz0 =
     (if sz0 = 0 then Done (0, rg, ms)
      else case dma_pool rg of
        None \<Rightarrow> Done (0, rg, ms)
      | Some p \<Rightarrow>
          let sz = align_size sz0 in
          and_then (pool_allocateChunks p (sz div PAGE_SIZE)) (\<lambda>(virt, p').
          if virt = 0 then Panic OUT_OF_MEMORY
          else
            and_then (pmm_allocateBlocks (sz div PMM_BLOCK_SIZE) (ms_pmm ms)) (\<lambda>(phys, pm).
            and_then (map_range phys virt sz (ms\<lparr>ms_pmm := pm\<rparr>)) (\<lambda>ms'.
            Done (virt, rg\<lparr>dma_pool := Some p'\<rparr>, ms')))))"

text \<open>\<open>pool_freeChunks\<close> on one of the pools, which it follows before it looks whether there is one.\<close>

definition free_region :: "pool_t option \<Rightarrow> u64 \<Rightarrow> u64 \<Rightarrow> pool_t option outcome" where
  "free_region pl base sz0 =
     (if base = 0 then Done pl
      else
        let chunks = align_size sz0 div PAGE_SIZE in
        if chunks = 0 then Done pl
        else case pl of
          None \<Rightarrow> Fault BadPointer
        | Some p \<Rightarrow> and_then (pool_freeChunks p base chunks) (\<lambda>p'. Done (Some p')))"

definition mem_freeDMA :: "regions \<Rightarrow> u64 \<Rightarrow> u64 \<Rightarrow> regions outcome" where
  "mem_freeDMA rg base sz = and_then (free_region (dma_pool rg) base sz) (\<lambda>p. Done (rg\<lparr>dma_pool := p\<rparr>))"

definition mem_mapMMIO :: "regions \<Rightarrow> mem_state \<Rightarrow> u64 \<Rightarrow> u64 \<Rightarrow> (u64 \<times> regions \<times> mem_state) outcome" where
  "mem_mapMMIO rg ms phys sz0 =
     (if sz0 = 0 \<or> phys = 0 then Done (0, rg, ms)
      else case mmio_pool rg of
        None \<Rightarrow> Done (0, rg, ms)
      | Some p \<Rightarrow>
          let sz = align_size sz0 in
          and_then (pool_allocateChunks p (sz div PAGE_SIZE)) (\<lambda>(virt, p').
          if virt = 0 then Panic OUT_OF_MEMORY
          else and_then (map_range phys virt sz ms) (\<lambda>ms'. Done (virt, rg\<lparr>mmio_pool := Some p'\<rparr>, ms'))))"

definition mem_unmapMMIO :: "regions \<Rightarrow> u64 \<Rightarrow> u64 \<Rightarrow> regions outcome" where
  "mem_unmapMMIO rg virt sz = and_then (free_region (mmio_pool rg) virt sz) (\<lambda>p. Done (rg\<lparr>mmio_pool := p\<rparr>))"

definition mem_mapDriver :: "regions \<Rightarrow> mem_state \<Rightarrow> u64 \<Rightarrow> (u64 \<times> regions \<times> mem_state) outcome" where
  "mem_mapDriver rg ms sz0 =
     (if sz0 = 0 then Done (0, rg, ms)
      else case driver_pool rg of
        None \<Rightarrow> Done (0, rg, ms)
      | Some p \<Rightarrow>
          let sz = align_size sz0 in
          and_then (pool_allocateChunks p (sz div PAGE_SIZE)) (\<lambda>(virt, p').
          if virt = 0 then Panic OUT_OF_MEMORY
          else
            and_then (mem_allocate ms virt sz MEM_ALLOC_CRITICAL MEM_PAGE_KERNEL) (\<lambda>(start, ms').
            Done (virt, rg\<lparr>driver_pool := Some p'\<rparr>, ms'))))"

definition mem_unmapDriver :: "regions \<Rightarrow> u64 \<Rightarrow> u64 \<Rightarrow> regions outcome" where
  "mem_unmapDriver rg base sz = and_then (free_region (driver_pool rg) base sz) (\<lambda>p. Done (rg\<lparr>driver_pool := p\<rparr>))"

section \<open>A range of pages\<close>

lemma mem_mapAddress_current: "current_dir ms \<noteq> 0 \<Longrightarrow> mem_mapAddress ms 0 phys virt flags = mem_mapAddress ms (current_dir ms) phys virt flags"
  by (simp add: mem_mapAddress_def mem_getPage_def)

lemma for_each_append: "for_each f (xs @ ys) s = and_then (for_each f xs s) (for_each f ys)"
proof (induction xs arbitrary: s)
  case (Cons x xs)
  then show ?case by (cases "f x s") simp_all
qed simp

lemma getPhysicalAddress_pages:
  assumes "vas_ok ms r" "MEM_IS_CANONICAL a" "pages ms r a = Some w" "pg_frame w < 2 ^ 19"
  shows "mem_getPhysicalAddress ms (window r) a = Done (of_nat (pg_frame w * 4096) + (a AND 0xFFF), ms)"
proof -
  from assms(3) obtain t where t: "ptable_at ms r (vpath a) = Some t" "tab ms t ! MEM_PAGETBL_INDEX a = w"
    by (auto simp: pages_def leaf_def Let_def split: option.splits if_splits)
  have "read_page ms (window t, MEM_PAGETBL_INDEX a) = Done w"
    using read_page_tab [OF vas_okD(1) [OF assms(1)] in_use_capacity [OF vas_okD(2) [OF assms(1) _ t(1)]], of "MEM_PAGETBL_INDEX a"] t(2) by simp
  then show ?thesis by (rule getPhysicalAddress_of [OF assms(1,2) t(1) _ assms(4)])
qed

text \<open>Mapping one page of the current directory, as a step of the loop.\<close>

lemma map_page_step:
  assumes "vas_ok ms r" "current_dir ms = window r" "room (n + 3) ms" "MEM_IS_CANONICAL virt" "clear_path ms r (vpath virt)"
    "\<not> has_flag flags MEM_PAGE_FREE" "\<not> has_flag flags MEM_PAGE_NOT_PRESENT" "f < 2 ^ 28"
  shows "\<exists>ms' w. mem_mapAddress ms 0 (of_nat (f * 4096)) virt flags = Done ms' \<and> vas_ok ms' r \<and> current_dir ms' = window r \<and> room n ms' \<and>
     (\<forall>q. table_path q \<longrightarrow> clear_path ms r q \<longrightarrow> clear_path ms' r q) \<and> pg_frame w = f \<and> pg_usermode w = (\<not> has_flag flags MEM_PAGE_KERNEL) \<and>
     pages ms' r = (\<lambda>a. if page_no a = page_no virt then Some w else pages ms r a)"
proof -
  from mem_mapAddress_entry [OF assms(1,3-7), where phys = "of_nat (f * 4096)"] obtain ms' w where
    m: "mem_mapAddress ms (window r) (of_nat (f * 4096)) virt flags = Done ms'" "vas_ok ms' r" "room n ms'" "current_dir ms' = current_dir ms"
      "\<forall>q. table_path q \<longrightarrow> clear_path ms r q \<longrightarrow> clear_path ms' r q"
      "\<forall>q j. table_path q \<longrightarrow> length q = 3 \<longrightarrow> j < 512 \<longrightarrow> leaf ms' r q j =
        (if q = vpath virt \<and> j = MEM_PAGETBL_INDEX virt then Some (MEM_SET_FRAME (flagged flags w) (of_nat (f * 4096))) else leaf ms r q j)"
    by blast
  let ?w = "MEM_SET_FRAME (flagged flags w) (of_nat (f * 4096))"
  have "pages ms' r = (\<lambda>a. if page_no a = page_no virt then Some ?w else pages ms r a)"
    using m(6) same_page [of _ virt] unfolding pages_def by (intro ext) (simp del: of_nat_mult)
  moreover have "pg_frame ?w = f" "pg_usermode ?w = (\<not> has_flag flags MEM_PAGE_KERNEL)" using pg_frame_SET_FRAME [OF assms(8)] by (simp_all del: of_nat_mult)
  moreover have "mem_mapAddress ms 0 (of_nat (f * 4096)) virt flags = Done ms'"
    using m(1) mem_mapAddress_current [of ms] assms(2) by simp
  ultimately show ?thesis using m(2-5) assms(2) by (intro exI [of _ ms'] exI [of _ ?w]) simp
qed

text \<open>The pages of a range, and what the loop leaves: the page \<open>k\<close> has the frame \<open>f + k\<close>, the others are as they were.\<close>

definition nth_page :: "u64 \<Rightarrow> nat \<Rightarrow> u64" where
  "nth_page virt k = virt + of_nat (k * 4096)"

definition range_mapped :: "nat \<Rightarrow> nat \<Rightarrow> u64 \<Rightarrow> nat \<Rightarrow> mem_state \<Rightarrow> mem_state \<Rightarrow> bool" where
  "range_mapped r f virt n ms ms' \<longleftrightarrow>
     (\<forall>a k. k < n \<and> page_no a = page_no (nth_page virt k) \<longrightarrow> (\<exists>w. pages ms' r a = Some w \<and> pg_frame w = f + k \<and> \<not> pg_usermode w)) \<and>
     (\<forall>a. (\<forall>k < n. page_no a \<noteq> page_no (nth_page virt k)) \<longrightarrow> pages ms' r a = pages ms r a)"

lemma range_mapped_Suc:
  assumes "range_mapped r f virt n ms ms1" "pages ms2 r = (\<lambda>a. if page_no a = page_no (nth_page virt n) then Some w else pages ms1 r a)"
    "pg_frame w = f + n" "\<not> pg_usermode w" "\<And>k. k < n \<Longrightarrow> page_no (nth_page virt k) \<noteq> page_no (nth_page virt n)"
  shows "range_mapped r f virt (Suc n) ms ms2"
  using assms by (auto simp: range_mapped_def less_Suc_eq)

definition can_map :: "nat \<Rightarrow> u64 \<Rightarrow> nat \<Rightarrow> mem_state \<Rightarrow> bool" where
  "can_map r virt n ms \<longleftrightarrow> vas_ok ms r \<and> current_dir ms = window r \<and> (\<forall>k < n. MEM_IS_CANONICAL (nth_page virt k) \<and> clear_path ms r (vpath (nth_page virt k)))"

lemma mapping_loop:
  assumes "can_map r virt n ms" "room (3 * n + c) ms" "f + n \<le> 2 ^ 28" "inj_on (\<lambda>k. page_no (nth_page virt k)) {..<n}"
    "\<not> has_flag flags MEM_PAGE_FREE" "\<not> has_flag flags MEM_PAGE_NOT_PRESENT" "has_flag flags MEM_PAGE_KERNEL"
  shows "\<exists>ms'. for_each (\<lambda>i ms. mem_mapAddress ms 0 (of_nat (f * 4096) + i) (virt + i) flags) (map (\<lambda>k. of_nat (k * 4096)) [0..<n]) ms = Done ms' \<and>
     vas_ok ms' r \<and> current_dir ms' = window r \<and> room c ms' \<and> (\<forall>q. table_path q \<longrightarrow> clear_path ms r q \<longrightarrow> clear_path ms' r q) \<and> range_mapped r f virt n ms ms'"
  using assms(1-4)
proof (induction n arbitrary: c)
  case 0
  then show ?case by (simp add: can_map_def range_mapped_def)
next
  case (Suc n)
  let ?step = "\<lambda>i ms. mem_mapAddress ms 0 (of_nat (f * 4096) + i) (virt + i) flags"
  have prem: "can_map r virt n ms" "room (3 * n + (c + 3)) ms" "f + n \<le> 2 ^ 28" "inj_on (\<lambda>k. page_no (nth_page virt k)) {..<n}"
    using Suc.prems by (auto simp: can_map_def inj_on_def add.assoc add.commute)
  from Suc.IH [OF prem] obtain ms1 where
    1: "for_each ?step (map (\<lambda>k. of_nat (k * 4096)) [0..<n]) ms = Done ms1" "vas_ok ms1 r" "current_dir ms1 = window r" "room (c + 3) ms1"
      "\<forall>q. table_path q \<longrightarrow> clear_path ms r q \<longrightarrow> clear_path ms1 r q" "range_mapped r f virt n ms ms1" by blast
  have v: "MEM_IS_CANONICAL (nth_page virt n)" "clear_path ms1 r (vpath (nth_page virt n))" "f + n < 2 ^ 28"
    using Suc.prems(1,3) 1(5) by (simp_all add: can_map_def)
  from map_page_step [OF 1(2-4) v(1,2) assms(5,6) v(3)] obtain ms2 w where
    2: "mem_mapAddress ms1 0 (of_nat ((f + n) * 4096)) (nth_page virt n) flags = Done ms2" "vas_ok ms2 r" "current_dir ms2 = window r" "room c ms2"
      "\<forall>q. table_path q \<longrightarrow> clear_path ms1 r q \<longrightarrow> clear_path ms2 r q" "pg_frame w = f + n" "pg_usermode w = (\<not> has_flag flags MEM_PAGE_KERNEL)"
      "pages ms2 r = (\<lambda>a. if page_no a = page_no (nth_page virt n) then Some w else pages ms1 r a)" by blast
  have "?step (of_nat (n * 4096)) ms1 = Done ms2"
    using 2(1) by (simp add: nth_page_def add_mult_distrib distrib_right)
  then have "for_each ?step (map (\<lambda>k. of_nat (k * 4096)) [0..<Suc n]) ms = Done ms2" using 1(1) by (simp add: for_each_append)
  moreover have "page_no (nth_page virt k) \<noteq> page_no (nth_page virt n)" if "k < n" for k
    using inj_onD [OF Suc.prems(4), of k n] that by auto
  then have "range_mapped r f virt (Suc n) ms ms2" using range_mapped_Suc [OF 1(6) 2(8,6)] 2(7) assms(7) by simp
  ultimately show ?case using 2(2-5) 1(5) by blast
qed

text \<open>Pages of a range that does not wrap around are different pages.\<close>

lemma unat_page_no: "unat (page_no a) = unat a div 4096 mod 2 ^ 36"
  by (simp add: page_no_def take_bit_eq_mod drop_bit_eq_div unat_mod unat_div)

lemma unat_nth_page:
  assumes "unat virt + k * 4096 < 2 ^ 64"
  shows "unat (nth_page virt k) = unat virt + k * 4096"
proof -
  have "unat (of_nat (k * 4096) :: u64) = k * 4096" using assms by (intro unat_of_nat_less) simp
  then show ?thesis unfolding nth_page_def using assms by (subst unat_add_lem [THEN iffD1]) simp_all
qed

lemma pages_differ:
  assumes "unat virt + n * 4096 \<le> 2 ^ 64" "n \<le> 2 ^ 36"
  shows "inj_on (\<lambda>k. page_no (nth_page virt k)) {..<n}"
proof (rule inj_onI)
  fix j k assume jk: "j \<in> {..<n}" "k \<in> {..<n}" and eq: "page_no (nth_page virt j) = page_no (nth_page virt k)"
  have u: "unat (page_no (nth_page virt i)) = (unat virt div 4096 + i) mod 2 ^ 36" if "i < n" for i
  proof -
    have "unat virt + i * 4096 < 2 ^ 64" using that assms(1) by linarith
    then show ?thesis by (simp add: unat_page_no unat_nth_page add.commute)
  qed
  then have "(unat virt div 4096 + j) mod 2 ^ 36 = (unat virt div 4096 + k) mod 2 ^ 36" using eq jk by (metis lessThan_iff)
  then have "j mod 2 ^ 36 = k mod 2 ^ 36" by (simp add: nat_mod_eq_iff mod_eq_dvd_iff_nat)
  moreover have "j < 2 ^ 36" "k < 2 ^ 36" using jk assms(2) by auto
  ultimately show "j = k" by simp
qed

lemma pages_between_0:
  assumes "unat sz = n * 4096"
  shows "pages_between 0 sz = Some (map (\<lambda>k. of_nat (k * 4096)) [0..<n])"
proof -
  have "unat sz < 2 ^ 64" using unsigned_less [of sz, where ?'a = nat] by simp
  then have "n * 4096 < 2 ^ 64" using assms by simp
  then show ?thesis by (simp add: pages_between_def assms)
qed

lemma align_size_pages: "unat sz = n * 4096 \<Longrightarrow> align_size sz = sz" "unat sz = n * 4096 \<Longrightarrow> sz div PAGE_SIZE = of_nat n"
proof -
  assume n: "unat sz = n * 4096"
  then have "unat (sz mod 4096) = 0" by (simp add: unat_mod)
  then show "align_size sz = sz" by (simp add: align_size_def PAGE_SIZE_def unat_eq_0)
  have "unat (sz div 4096) = n" by (simp add: unat_div n)
  then show "sz div PAGE_SIZE = of_nat n" unfolding PAGE_SIZE_def by (metis of_nat_unat ucast_id)
qed

section \<open>Properties\<close>

text \<open>
  C38: \<open>mem_mapMMIO\<close> makes device memory visible at the addresses its pool gives. For device memory anywhere
  below the 1 TiB that the frame field of an entry can name, the entry of every page of the range holds the frame of
  the physical page the caller named, page by page, for the kernel only; all other pages of the address space, and
  the tables' shape, stay as they were. For the pages below 2 GiB \<open>mem_getPhysicalAddress\<close> also gives the physical
  address back (above, the frame macro it uses overflows an int, although the entry is right).
\<close>

theorem mem_mapMMIO_maps:
  assumes "mmio_pool rg = Some p" "unat sz = n * 4096" "n \<noteq> 0" "pool_allocateChunks p (of_nat n) = Done (virt, p')" "virt \<noteq> 0"
    "can_map r virt n ms" "room (3 * n) ms" "0 < f" "f + n \<le> 2 ^ 28" "unat virt + n * 4096 \<le> 2 ^ 64"
  shows "\<exists>ms'. mem_mapMMIO rg ms (of_nat (f * 4096)) sz = Done (virt, rg\<lparr>mmio_pool := Some p'\<rparr>, ms') \<and> vas_ok ms' r \<and>
     (\<forall>a k. k < n \<and> page_no a = page_no (nth_page virt k) \<longrightarrow>
        (\<exists>w. pages ms' r a = Some w \<and> pg_frame w = f + k \<and> \<not> pg_usermode w) \<and>
        (MEM_IS_CANONICAL a \<and> f + k < 2 ^ 19 \<longrightarrow> mem_getPhysicalAddress ms' (window r) a = Done (of_nat ((f + k) * 4096) + (a AND 0xFFF), ms'))) \<and>
     (\<forall>a. (\<forall>k < n. page_no a \<noteq> page_no (nth_page virt k)) \<longrightarrow> pages ms' r a = pages ms r a)"
proof -
  let ?flags = "MEM_PAGE_KERNEL OR MEM_PAGE_NOT_CACHEABLE"
  have flags: "\<not> has_flag ?flags MEM_PAGE_FREE" "\<not> has_flag ?flags MEM_PAGE_NOT_PRESENT" "has_flag ?flags MEM_PAGE_KERNEL"
    by (simp_all add: has_flag_def MEM_PAGE_KERNEL_def MEM_PAGE_NOT_CACHEABLE_def MEM_PAGE_FREE_def MEM_PAGE_NOT_PRESENT_def)
  have "n \<le> 2 ^ 36" "f + n \<le> 2 ^ 28" "room (3 * n + 0) ms" using assms(7,9) by simp_all
  from mapping_loop [OF assms(6) this(3,2) pages_differ [OF assms(10) this(1)] flags] obtain ms' where
    m: "for_each (\<lambda>i ms. mem_mapAddress ms 0 (of_nat (f * 4096) + i) (virt + i) ?flags) (map (\<lambda>k. of_nat (k * 4096)) [0..<n]) ms = Done ms'"
      "vas_ok ms' r" "range_mapped r f virt n ms ms'" by blast
  have "f * 4096 < 2 ^ 64" using assms(9) by simp
  then have "unat (of_nat (f * 4096) :: u64) = f * 4096" by (intro unat_of_nat_less) simp
  then have "of_nat (f * 4096) \<noteq> (0 :: u64)" using assms(8) by (metis mult_is_0 neq0_conv unat_0 zero_neq_numeral)
  moreover have "sz \<noteq> 0" using assms(2,3) by auto
  moreover have "map_range (of_nat (f * 4096)) virt sz ms = Done ms'"
    unfolding map_range_def for_pages_def pages_between_0 [OF assms(2)] option.case(2) by (rule m(1))
  ultimately have "mem_mapMMIO rg ms (of_nat (f * 4096)) sz = Done (virt, rg\<lparr>mmio_pool := Some p'\<rparr>, ms')"
    using assms(1,4,5) align_size_pages [OF assms(2)] by (simp add: mem_mapMMIO_def del: of_nat_mult)
  moreover have "(\<exists>w. pages ms' r a = Some w \<and> pg_frame w = f + k \<and> \<not> pg_usermode w) \<and>
      (MEM_IS_CANONICAL a \<and> f + k < 2 ^ 19 \<longrightarrow> mem_getPhysicalAddress ms' (window r) a = Done (of_nat ((f + k) * 4096) + (a AND 0xFFF), ms'))"
    if k: "k < n" "page_no a = page_no (nth_page virt k)" for a k
  proof -
    obtain w where w: "pages ms' r a = Some w" "pg_frame w = f + k" "\<not> pg_usermode w" using m(3) k unfolding range_mapped_def by blast
    then show ?thesis using getPhysicalAddress_pages [OF m(2) _ w(1)] by (auto simp del: of_nat_mult)
  qed
  ultimately show ?thesis using m(2,3) unfolding range_mapped_def by blast
qed

text \<open>Two pages of device memory on the small machine, at the physical address of the local APIC, from a pool of 64 pages.\<close>

definition small_mmio :: pool_t where
  "small_mmio = \<lparr>pool_name = ''mmio pool'', pool_lock = Some False, pool_bitmap = [1, 0],
     pool_chunk_size = 4096, pool_starting_addr = MEM_MMIO_REGION, pool_allocated = 0x40000, pool_used = 4096\<rparr>"

definition small_regions :: regions where
  "small_regions = \<lparr>dma_pool = None, mmio_pool = Some small_mmio, driver_pool = None\<rparr>"

lemma small_mmio_chunks: "case pool_allocateChunks small_mmio 2 of Done (v, p') \<Rightarrow> v = 0xFFFFFFF000001000 | _ \<Rightarrow> False"
  by code_simp

theorem mem_mapMMIO_maps_witness:
  "\<exists>rg' ms' w. mem_mapMMIO small_regions small_memory (of_nat (0xFEE00 * 4096)) 0x2000 = Done (0xFFFFFFF000001000, rg', ms') \<and>
     pages ms' 0 0xFFFFFFF000002010 = Some w \<and> pg_frame w = 0xFEE01 \<and> pages ms' 0 0x400000 = None"
proof -
  let ?v = "0xFFFFFFF000001000 :: u64"
  have p: "mmio_pool small_regions = Some small_mmio" by (simp add: small_regions_def)
  obtain p' where p': "pool_allocateChunks small_mmio (of_nat 2) = Done (?v, p')"
    using small_mmio_chunks by (auto split: outcome.splits)
  have "{f. f < 64 \<and> \<not> f < (3 :: nat)} = {3..<64}" by auto
  then have room: "room (3 * 2) small_memory" by (simp add: room_def small_memory_def pmm_small_view) (simp add: pmm_small_def)
  have can: "can_map 0 ?v 2 small_memory"
    using small_memory_ok by (simp add: can_map_def less_2_cases_iff nth_page_def MEM_IS_CANONICAL_def) (simp add: small_memory_def)
  have pre: "unat (0x2000 :: u64) = 2 * 4096" "(2 :: nat) \<noteq> 0" "?v \<noteq> 0" "(0 :: nat) < 0xFEE00" "0xFEE00 + 2 \<le> (2 :: nat) ^ 28" "unat ?v + 2 * 4096 \<le> 2 ^ 64" by simp_all
  have pg: "page_no 0xFFFFFFF000002010 = page_no (nth_page ?v 1)" "\<forall>k < 2. page_no 0x400000 \<noteq> page_no (nth_page ?v k)" "MEM_IS_CANONICAL 0xFFFFFFF000002010"
    by (simp_all add: less_2_cases_iff nth_page_def page_no_def MEM_IS_CANONICAL_def drop_bit_eq_div take_bit_eq_mod)
  from mem_mapMMIO_maps [OF p pre(1,2) p' pre(3) can room pre(4-6)] obtain ms' w where
    m: "mem_mapMMIO small_regions small_memory (of_nat (0xFEE00 * 4096)) 0x2000 = Done (?v, small_regions\<lparr>mmio_pool := Some p'\<rparr>, ms')"
      "pages ms' 0 0xFFFFFFF000002010 = Some w" "pg_frame w = 0xFEE00 + 1"
      "pages ms' 0 0x400000 = pages small_memory 0 0x400000" using pg one_less_numeral_iff semiring_norm(76) by blast
  have "pg_frame w = 0xFEE01" using m(3) by simp
  then show ?thesis using m(1,2,4) small_memory_ok(5) by metis
qed

end
