(* ===== verification/User_Memory.thy ===== *)
theory User_Memory
  imports Regions
begin

text \<open>
  The memory of a process as bytes: loads and stores through the page tables of the current directory, mapping a page of
  it (\<open>mem_getPage\<close> with \<open>MEM_CREATE\<close> and then \<open>mem_allocatePage\<close>, as the loader, the page fault handler and the
  system calls do), and what these do to each other.
\<close>

section \<open>Bytes of a page\<close>

definition word_byte :: "u64 \<Rightarrow> nat \<Rightarrow> u8" where
  "word_byte w k = ucast (drop_bit (8 * k) w)"

definition set_byte :: "u64 \<Rightarrow> nat \<Rightarrow> u8 \<Rightarrow> u64" where
  "set_byte w k b = (w AND NOT (push_bit (8 * k) (mask 8))) OR push_bit (8 * k) (ucast b)"

definition page_byte :: "u64 list \<Rightarrow> nat \<Rightarrow> u8" where
  "page_byte ws k = word_byte (ws ! (k div 8)) (k mod 8)"

definition page_set :: "u64 list \<Rightarrow> nat \<Rightarrow> u8 \<Rightarrow> u64 list" where
  "page_set ws k b = ws[k div 8 := set_byte (ws ! (k div 8)) (k mod 8) b]"

lemma bit_set_byte: "n < 64 \<Longrightarrow> bit (set_byte w k b) n = (if 8 * k \<le> n \<and> n < 8 * k + 8 then bit b (n - 8 * k) else bit w n)"
  by (auto simp: set_byte_def bit_or_iff bit_and_iff bit_not_iff bit_push_bit_iff bit_mask_iff bit_ucast_iff dest: bit_imp_le_length)

lemma word_byte_set_byte: "j < 8 \<Longrightarrow> k < 8 \<Longrightarrow> word_byte (set_byte w k b) j = (if j = k then b else word_byte w j)"
  by (rule bit_word_eqI) (auto simp: word_byte_def bit_ucast_iff bit_drop_bit_eq bit_set_byte)

lemma page_byte_set:
  assumes "length ws = 512" "j < 4096" "k < 4096"
  shows "page_byte (page_set ws k b) j = (if j = k then b else page_byte ws j)" "length (page_set ws k b) = 512"
proof -
  have "j div 8 < 512" "k div 8 < 512" "j = k \<longleftrightarrow> j div 8 = k div 8 \<and> j mod 8 = k mod 8" using assms(2,3) by (auto, metis div_mult_mod_eq)
  then show "page_byte (page_set ws k b) j = (if j = k then b else page_byte ws j)"
    using assms(1) by (auto simp: page_byte_def page_set_def word_byte_set_byte nth_list_update)
  show "length (page_set ws k b) = 512" using assms(1) by (simp add: page_set_def)
qed

section \<open>Access\<close>

definition page_offset :: "u64 \<Rightarrow> nat" where
  "page_offset a = unat (a AND 0xFFF)"

text \<open>
  The frame of an address, as the processor finds it in the tables of the current directory; pages of 4 KiB only. These are
  accesses of the kernel: of the flags of an entry only the present bit is looked at, not who may read or write the page, and
  there is no TLB.
\<close>

definition user_frame :: "mem_state \<Rightarrow> u64 \<Rightarrow> nat outcome" where
  "user_frame ms a =
     and_then (mem_getPage ms 0 a MEM_DEFAULT) (\<lambda>(pg, ms').
     case pg of
       None \<Rightarrow> Fault BadPointer
     | Some e \<Rightarrow> and_then (read_page ms e) (\<lambda>w. if pg_present w then Done (pg_frame w) else Fault BadPointer))"

definition user_load :: "mem_state \<Rightarrow> u64 \<Rightarrow> u8 outcome" where
  "user_load ms a =
     and_then (user_frame ms a) (\<lambda>f. case ms_frames ms f of None \<Rightarrow> Fault BadPointer | Some ws \<Rightarrow> Done (page_byte ws (page_offset a)))"

definition user_store :: "u64 \<Rightarrow> u8 \<Rightarrow> mem_state \<Rightarrow> mem_state outcome" where
  "user_store a b ms =
     and_then (user_frame ms a) (\<lambda>f. case ms_frames ms f of
       None \<Rightarrow> Fault BadPointer
     | Some ws \<Rightarrow> Done (ms\<lparr>ms_frames := (ms_frames ms)(f \<mapsto> page_set ws (page_offset a) b)\<rparr>))"

primrec user_write :: "u64 \<Rightarrow> u8 list \<Rightarrow> mem_state \<Rightarrow> mem_state outcome" where
  "user_write a [] ms = Done ms"
| "user_write a (b # bs) ms = and_then (user_store a b ms) (user_write (a + 1) bs)"

text \<open>Mapping the page of an address; an address without a page entry is passed over.\<close>

definition user_map :: "u64 \<Rightarrow> u64 \<Rightarrow> mem_state \<Rightarrow> mem_state outcome" where
  "user_map flags a ms = and_then (mem_getPage ms 0 a MEM_CREATE) (\<lambda>(pg, ms1). mem_allocatePage ms1 pg flags)"

section \<open>Pages that hold data\<close>

text \<open>Every page of the set has a data frame of its own.\<close>

definition page_frame :: "mem_state \<Rightarrow> nat \<Rightarrow> u64 \<Rightarrow> nat option" where
  "page_frame ms r a = map_option pg_frame (pages ms r a)"

definition mapped :: "mem_state \<Rightarrow> nat \<Rightarrow> u64 set \<Rightarrow> bool" where
  "mapped ms r A \<longleftrightarrow>
     (\<forall>a. page_no a \<in> A \<longrightarrow> (\<exists>f. page_frame ms r a = Some f \<and> data_frame ms r f)) \<and>
     (\<forall>a b f. page_no a \<in> A \<longrightarrow> page_no b \<in> A \<longrightarrow> page_frame ms r a = Some f \<longrightarrow> page_frame ms r b = Some f \<longrightarrow> page_no a = page_no b)"

definition user_byte :: "mem_state \<Rightarrow> nat \<Rightarrow> u64 \<Rightarrow> u8" where
  "user_byte ms r a = page_byte (tab ms (the (page_frame ms r a))) (page_offset a)"

lemma pages_same_page: "page_no a = page_no b \<Longrightarrow> pages ms r a = pages ms r b"
  using same_page [of a b] by (simp add: pages_def)

lemma page_frame_same_page: "page_no a = page_no b \<Longrightarrow> page_frame ms r a = page_frame ms r b"
  by (simp add: page_frame_def pages_same_page [of a b])

lemma page_offset_less [simp]: "page_offset a < 4096"
proof -
  have "a AND 0xFFF \<le> 0xFFF" by (rule word_and_le1)
  then have "unat (a AND 0xFFF) \<le> unat (0xFFF :: u64)" by (rule iffD1 [OF word_le_nat_alt])
  then show ?thesis by (simp add: page_offset_def)
qed

text \<open>The state of a process at work: its tables are current.\<close>

definition running :: "mem_state \<Rightarrow> nat \<Rightarrow> bool" where
  "running ms r \<longleftrightarrow> vas_ok ms r \<and> current_dir ms = window r"

lemma getPage_current: "running ms r \<Longrightarrow> mem_getPage ms 0 a fl = mem_getPage ms (window r) a fl"
  by (simp add: mem_getPage_def running_def)

lemma user_frame_spec:
  assumes "running ms r" "MEM_IS_CANONICAL a" "page_frame ms r a = Some f"
  shows "user_frame ms a = Done f"
proof -
  from assms(3) obtain w t where w: "ptable_at ms r (vpath a) = Some t" "tab ms t ! MEM_PAGETBL_INDEX a = w" "pg_present w" "pg_frame w = f"
    by (auto simp: page_frame_def pages_def leaf_def Let_def split: option.splits if_splits)
  have ok: "vas_ok ms r" using assms(1) by (simp add: running_def)
  have "read_page ms (window t, MEM_PAGETBL_INDEX a) = Done w"
    using read_page_tab [OF vas_okD(1) [OF ok] in_use_capacity [OF vas_okD(2) [OF ok _ w(1)]], of "MEM_PAGETBL_INDEX a"] w(2) by simp
  then show ?thesis using mem_getPage_default [OF ok assms(2)] w getPage_current [OF assms(1)] by (simp add: user_frame_def MEM_DEFAULT_def)
qed

lemma data_frame_tab: "running ms r \<Longrightarrow> data_frame ms r f \<Longrightarrow> ms_frames ms f = Some (tab ms f) \<and> length (tab ms f) = 512"
  using load_frame_tab [OF vas_okD(1) [of ms r] in_use_capacity] by (simp add: running_def data_frame_def)

lemma user_load_spec:
  assumes "running ms r" "mapped ms r A" "page_no a \<in> A" "MEM_IS_CANONICAL a"
  shows "user_load ms a = Done (user_byte ms r a)"
proof -
  obtain f where f: "page_frame ms r a = Some f" "data_frame ms r f" using assms(2,3) by (auto simp: mapped_def)
  then show ?thesis using user_frame_spec [OF assms(1,4) f(1)] data_frame_tab [OF assms(1) f(2)] by (simp add: user_load_def user_byte_def)
qed

text \<open>Storing into a data frame changes no table.\<close>

lemma store_data:
  assumes "vas_ok ms r" "data_frame ms r f" "length ws = 512"
  defines "ms' \<equiv> ms\<lparr>ms_frames := (ms_frames ms)(f \<mapsto> ws)\<rparr>"
  shows "vas_ok ms' r" "table_path p \<Longrightarrow> ptable_at ms' r p = ptable_at ms r p" "pages ms' r = pages ms r" "data_frame ms' r = data_frame ms r"
    "table_path p \<Longrightarrow> clear_path ms r p \<Longrightarrow> clear_path ms' r p" "tab ms' g = (if g = f then ws else tab ms g)"
proof -
  show tab': "tab ms' g = (if g = f then ws else tab ms g)" for g by (simp add: ms'_def tab_def)
  have pmm: "ms_pmm ms' = ms_pmm ms" by (simp add: ms'_def)
  show at: "ptable_at ms' r p = ptable_at ms r p" if "table_path p" for p
    using that
  proof (induction p rule: rev_induct)
    case (snoc j q)
    then have q: "table_path q" by (simp add: table_path_snoc)
    then have "ptable_at ms r q \<noteq> Some f" using assms(2) by (simp add: data_frame_def)
    then show ?case using snoc.IH [OF q] by (auto simp: ptable_at_snoc sub_table_def tab' split: option.splits)
  qed simp
  have no: "ptable_at ms r q \<noteq> Some f" if "table_path q" for q using assms(2) that by (simp add: data_frame_def)
  show "data_frame ms' r = data_frame ms r" by (auto simp: fun_eq_iff data_frame_def pmm at)
  have "r \<noteq> f" using no [of "[]"] by auto
  moreover have "phys_ok ms'" using phys_ok_store [OF vas_okD(1) [OF assms(1)] assms(3)] by (simp add: ms'_def)
  ultimately show "vas_ok ms' r" unfolding vas_ok_def pmm using at vas_okD(2,3,4) [OF assms(1)] by (auto simp: tab')
  show "pages ms' r = pages ms r"
  proof
    fix a
    have "ptable_at ms r (vpath a) \<noteq> Some f" using no by simp
    then show "pages ms' r a = pages ms r a" by (auto simp: pages_def leaf_def at tab' split: option.splits)
  qed
  show "clear_path ms' r p" if p: "table_path p" "clear_path ms r p"
    unfolding clear_path_def
  proof (intro allI impI)
    fix k g assume k: "k < length p" "ptable_at ms' r (take k p) = Some g"
    have path: "table_path (take k p)" using p(1) by (auto simp: table_path_def dest: in_set_takeD)
    then have "ptable_at ms r (take k p) = Some g" "g \<noteq> f" using at k(2) no by auto
    then show "\<not> pg_size (tab ms' g ! (p ! k))" using clear_path_step [OF p(2) k(1)] by (simp add: tab')
  qed
qed

section \<open>Stores\<close>

text \<open>The 48 bits of an address that count.\<close>

definition loc :: "u64 \<Rightarrow> u64" where
  "loc a = take_bit 48 a"

lemma loc_eq: "loc a = loc b \<longleftrightarrow> page_no a = page_no b \<and> page_offset a = page_offset b"
proof -
  have off: "page_offset a = page_offset b \<longleftrightarrow> (\<forall>m. 0 \<le> m \<and> m < 0 + 12 \<longrightarrow> bit a m = bit b m)"
    using take_drop_eq [of 12 0 a b] unfolding page_offset_def region_bits(3) by (simp add: take_bit_eq_mask flip: word_unat_eq_iff)
  have "loc a = loc b \<longleftrightarrow> (\<forall>m. m < 48 \<longrightarrow> bit a m = bit b m)" using take_drop_eq [of 48 0 a b] by (simp add: loc_def)
  also have "\<dots> \<longleftrightarrow> (\<forall>m. 12 \<le> m \<and> m < 48 \<longrightarrow> bit a m = bit b m) \<and> (\<forall>m. m < 12 \<longrightarrow> bit a m = bit b m)"
    by (auto simp: not_le [symmetric])
  finally show ?thesis using off by (simp add: page_no_eq)
qed

lemma loc_add: "loc (a + of_nat j) = loc (a + of_nat k) \<Longrightarrow> j < 2 ^ 48 \<Longrightarrow> k < 2 ^ 48 \<Longrightarrow> j = k"
proof -
  assume eq: "loc (a + of_nat j) = loc (a + of_nat k)" and jk: "j < 2 ^ 48" "k < 2 ^ 48"
  have "unat (loc (a + of_nat i)) = (unat a + i) mod 2 ^ 48" for i
    by (simp add: loc_def take_bit_eq_mod unat_mod unat_word_ariths unat_of_nat mod_mod_cancel mod_add_right_eq)
  then have "(unat a + j) mod 2 ^ 48 = (unat a + k) mod 2 ^ 48" using eq by metis
  then have "j mod 2 ^ 48 = k mod 2 ^ 48" by (simp add: nat_mod_eq_iff mod_eq_dvd_iff_nat)
  then show "j = k" using jk by simp
qed

text \<open>What a store leaves of the state.\<close>

definition kept :: "nat \<Rightarrow> u64 set \<Rightarrow> mem_state \<Rightarrow> mem_state \<Rightarrow> bool" where
  "kept r A ms ms' \<longleftrightarrow> running ms' r \<and> mapped ms' r A \<and> ms_pmm ms' = ms_pmm ms \<and> pages ms' r = pages ms r \<and>
     (\<forall>p. table_path p \<longrightarrow> clear_path ms r p \<longrightarrow> clear_path ms' r p)"

lemma user_store_spec:
  assumes "running ms r" "mapped ms r A" "page_no a \<in> A" "MEM_IS_CANONICAL a"
  shows "\<exists>ms'. user_store a b ms = Done ms' \<and> kept r A ms ms' \<and>
     (\<forall>x. page_no x \<in> A \<longrightarrow> user_byte ms' r x = (if loc x = loc a then b else user_byte ms r x))"
proof -
  obtain f where f: "page_frame ms r a = Some f" "data_frame ms r f" using assms(2,3) by (auto simp: mapped_def)
  have ok: "vas_ok ms r" using assms(1) by (simp add: running_def)
  have tab: "ms_frames ms f = Some (tab ms f)" "length (tab ms f) = 512" using data_frame_tab [OF assms(1) f(2)] by simp_all
  let ?ws = "page_set (tab ms f) (page_offset a) b" and ?k = "page_offset a"
  define ms' where "ms' = ms\<lparr>ms_frames := (ms_frames ms)(f \<mapsto> ?ws)\<rparr>"
  have len: "length ?ws = 512" using page_byte_set(2) [OF tab(2), of ?k ?k b] by simp
  note s = store_data [OF ok f(2) len, folded ms'_def]
  have "user_store a b ms = Done ms'" using user_frame_spec [OF assms(1,4) f(1)] tab(1) by (simp add: user_store_def ms'_def)
  moreover have pf: "page_frame ms' r = page_frame ms r" by (simp add: fun_eq_iff page_frame_def s(3))
  then have "mapped ms' r A" using assms(2) by (simp add: mapped_def s(4))
  then have "kept r A ms ms'" using s(1,3,5) assms(1) by (simp add: kept_def running_def ms'_def)
  moreover have "user_byte ms' r x = (if loc x = loc a then b else user_byte ms r x)" if x: "page_no x \<in> A" for x
  proof -
    obtain g where g: "page_frame ms r x = Some g" using assms(2) x by (auto simp: mapped_def)
    have "page_no x = page_no a" if "g = f" using assms(2,3) x g f(1) that unfolding mapped_def by blast
    then have "g = f \<longleftrightarrow> page_no x = page_no a" using page_frame_same_page [of x a ms r] g f(1) by auto
    then show ?thesis using g pf page_byte_set(1) [OF tab(2), of "page_offset x" ?k b] by (auto simp: user_byte_def s(6) loc_eq)
  qed
  ultimately show ?thesis by blast
qed

text \<open>Writing a range: the bytes are there, the others are as before.\<close>

lemma user_write_spec:
  assumes "running ms r" "mapped ms r A" "\<forall>k < length bs. page_no (a + of_nat k) \<in> A \<and> MEM_IS_CANONICAL (a + of_nat k)" "length bs \<le> 2 ^ 48"
  shows "\<exists>ms'. user_write a bs ms = Done ms' \<and> kept r A ms ms' \<and> (\<forall>k < length bs. user_byte ms' r (a + of_nat k) = bs ! k) \<and>
     (\<forall>x. page_no x \<in> A \<longrightarrow> (\<forall>k < length bs. loc x \<noteq> loc (a + of_nat k)) \<longrightarrow> user_byte ms' r x = user_byte ms r x)"
  using assms
proof (induction bs arbitrary: a ms)
  case Nil
  then show ?case by (simp add: kept_def)
next
  case (Cons b bs)
  have a: "page_no a \<in> A" "MEM_IS_CANONICAL a" using Cons.prems(3) by fastforce+
  have shift: "a + 1 + of_nat k = a + of_nat (Suc k)" for k by (simp add: add.assoc)
  from user_store_spec [OF Cons.prems(1,2) a, of b] obtain ms1 where
    1: "user_store a b ms = Done ms1" "kept r A ms ms1" "\<forall>x. page_no x \<in> A \<longrightarrow> user_byte ms1 r x = (if loc x = loc a then b else user_byte ms r x)" by blast
  have r1: "running ms1 r" "mapped ms1 r A" using 1(2) by (simp_all add: kept_def)
  have "\<forall>k < length bs. page_no (a + 1 + of_nat k) \<in> A \<and> MEM_IS_CANONICAL (a + 1 + of_nat k)"
    unfolding shift using Cons.prems(3) by (metis Suc_less_eq length_Cons)
  from Cons.IH [OF r1 this] Cons.prems(4) obtain ms2 where
    2: "user_write (a + 1) bs ms1 = Done ms2" "kept r A ms1 ms2" "\<forall>k < length bs. user_byte ms2 r (a + of_nat (Suc k)) = bs ! k"
      "\<forall>x. page_no x \<in> A \<longrightarrow> (\<forall>k < length bs. loc x \<noteq> loc (a + of_nat (Suc k))) \<longrightarrow> user_byte ms2 r x = user_byte ms1 r x"
    unfolding shift by auto
  have "kept r A ms ms2" using 1(2) 2(2) by (auto simp: kept_def)
  moreover have "user_byte ms2 r (a + of_nat k) = (b # bs) ! k" if k: "k < length (b # bs)" for k
  proof (cases k)
    case 0
    have "loc a \<noteq> loc (a + of_nat (Suc j))" if "j < length bs" for j
      using loc_add [of a 0 "Suc j"] that Cons.prems(4) by auto
    then show ?thesis using 2(4) 1(3) a(1) 0 by simp
  next
    case (Suc j)
    then show ?thesis using 2(3) k by simp
  qed
  moreover have "user_byte ms2 r x = user_byte ms r x" if x: "page_no x \<in> A" "\<forall>k < length (b # bs). loc x \<noteq> loc (a + of_nat k)" for x
  proof -
    have "\<forall>k < length bs. loc x \<noteq> loc (a + of_nat (Suc k))" "loc x \<noteq> loc a" using x(2) by fastforce+
    then show ?thesis using 2(4) 1(3) x(1) by simp
  qed
  ultimately show ?case using 1(1) 2(1) by auto
qed

section \<open>Mapping\<close>

lemma mem_allocatePage_alloc:
  assumes "\<not> has_flag flags MEM_PAGE_FREE" "\<not> has_flag flags MEM_PAGE_NOALLOC"
  shows "mem_allocatePage ms (Some e) flags =
     and_then (mem_pmm ms) (\<lambda>(b, ms1). and_then (read_page ms1 e) (\<lambda>w. write_page ms1 e (flagged flags (MEM_SET_FRAME w b))))"
  using assms by (cases "mem_pmm ms") (auto simp: mem_allocatePage_def flagged_def Let_def cong: if_cong)

text \<open>Taking a frame leaves the tables as they are.\<close>

lemma tables_pmm [simp]:
  "ptable_at (ms\<lparr>ms_pmm := p\<rparr>) r = ptable_at ms r" "leaf (ms\<lparr>ms_pmm := p\<rparr>) = leaf ms" "clear_path (ms\<lparr>ms_pmm := p\<rparr>) = clear_path ms"
  "tab (ms\<lparr>ms_pmm := p\<rparr>) = tab ms"
proof -
  show t: "tab (ms\<lparr>ms_pmm := p\<rparr>) = tab ms" for ms by (simp add: fun_eq_iff tab_def)
  have s: "sub_table (ms\<lparr>ms_pmm := p\<rparr>) = sub_table ms" by (simp add: fun_eq_iff sub_table_def t)
  have at: "ptable_at (ms\<lparr>ms_pmm := p\<rparr>) f q = ptable_at ms f q" for f q
    by (induction q arbitrary: f) (auto simp: s split: option.splits)
  then show "ptable_at (ms\<lparr>ms_pmm := p\<rparr>) r = ptable_at ms r" "leaf (ms\<lparr>ms_pmm := p\<rparr>) = leaf ms" "clear_path (ms\<lparr>ms_pmm := p\<rparr>) = clear_path ms"
    by (auto simp: fun_eq_iff leaf_def clear_path_def t split: option.splits)
qed

lemma write_leaf_data:
  assumes "vas_ok ms r" "table_path p" "length p = 3" "ptable_at ms r p = Some t" "i < 512"
  defines "ms' \<equiv> \<lambda>w. ms\<lparr>ms_frames := (ms_frames ms)(t \<mapsto> (tab ms t)[i := w])\<rparr>"
  shows "data_frame (ms' w) r = data_frame ms r" "data_frame ms r g \<Longrightarrow> tab (ms' w) g = tab ms g"
proof -
  show "data_frame (ms' w) r = data_frame ms r"
    using write_leaf(4) [OF assms(1-5), where w = w] by (auto simp: fun_eq_iff data_frame_def ms'_def)
  assume "data_frame ms r g"
  then have "g \<noteq> t" using assms(2,4) by (auto simp: data_frame_def)
  then show "tab (ms' w) g = tab ms g" by (simp add: ms'_def tab_def)
qed

lemma user_map_entry:
  assumes "running ms r" "MEM_IS_CANONICAL a" "clear_path ms r (vpath a)" "room (n + 4) ms"
    "\<not> has_flag flags MEM_PAGE_FREE" "\<not> has_flag flags MEM_PAGE_NOALLOC" "\<not> has_flag flags MEM_PAGE_NOT_PRESENT"
  shows "\<exists>ms' w b. user_map flags a ms = Done ms' \<and> running ms' r \<and> room n ms' \<and> pg_frame w = b \<and> \<not> pmm_in_use (ms_pmm ms) b \<and> data_frame ms' r b \<and>
     (\<forall>x. pages ms' r x = (if page_no x = page_no a then Some w else pages ms r x)) \<and>
     (\<forall>g. data_frame ms r g \<longrightarrow> data_frame ms' r g \<and> tab ms' g = tab ms g) \<and> (\<forall>q. table_path q \<longrightarrow> clear_path ms r q \<longrightarrow> clear_path ms' r q)"
proof -
  let ?i = "MEM_PAGETBL_INDEX a"
  have ok: "vas_ok ms r" "current_dir ms = window r" using assms(1) by (simp_all add: running_def)
  have "room (Suc n + 3) ms" "MEM_CREATE \<noteq> 0" using assms(4) by (simp_all add: MEM_CREATE_def numeral_eq_Suc)
  from mem_getPage_create [OF ok(1) assms(2,3) this] obtain ms1 t where
    1: "mem_getPage ms (window r) a MEM_CREATE = Done (Some (window t, ?i), ms1)" "vas_grown r ms ms1" "room (Suc n) ms1" "ptable_at ms1 r (vpath a) = Some t" by blast
  have ok1: "vas_ok ms1 r" "current_dir ms1 = window r" "\<forall>g. data_frame ms r g \<longrightarrow> data_frame ms1 r g \<and> tab ms1 g = tab ms g"
    "\<forall>q. table_path q \<longrightarrow> clear_path ms r q \<longrightarrow> clear_path ms1 r q" using 1(2) ok(2) by (simp_all add: vas_grown_def)
  from mem_pmm_spec [OF vas_okD(1) [OF ok1(1)] 1(3)] obtain b p where
    2: "mem_pmm ms1 = Done (of_nat (b * 4096), ms1\<lparr>ms_pmm := p\<rparr>)" "b < pmm_capacity (ms_pmm ms1)" "\<not> pmm_in_use (ms_pmm ms1) b"
      "\<forall>g. pmm_in_use p g \<longleftrightarrow> g = b \<or> pmm_in_use (ms_pmm ms1) g" "pmm_capacity p = pmm_capacity (ms_pmm ms1)" "phys_ok (ms1\<lparr>ms_pmm := p\<rparr>)" "room n (ms1\<lparr>ms_pmm := p\<rparr>)" by blast
  define ms2 where "ms2 = ms1\<lparr>ms_pmm := p\<rparr>"
  have ok2: "vas_ok ms2 r" using ok1(1) 2(4,6) unfolding vas_ok_def ms2_def by auto
  have t2: "ptable_at ms2 r (vpath a) = Some t" using 1(4) by (simp add: ms2_def)
  have data2: "data_frame ms2 r g \<longleftrightarrow> g = b \<or> data_frame ms1 r g" for g
    using 2(3,4) vas_okD(2) [OF ok1(1)] by (auto simp: data_frame_def ms2_def)
  define w where "w = flagged flags (MEM_SET_FRAME (tab ms2 t ! ?i) (of_nat (b * 4096)))"
  define ms3 where "ms3 = ms2\<lparr>ms_frames := (ms_frames ms2)(t \<mapsto> (tab ms2 t)[?i := w])\<rparr>"
  note leaf3 = write_leaf [OF ok2 table_path_vpath(1,5) t2 index_bounds(4) [of a], where w = w, folded ms3_def]
    and data3 = write_leaf_data [OF ok2 table_path_vpath(1,5) t2 index_bounds(4) [of a], where w = w, folded ms3_def]
  have rd: "read_page ms2 (window t, ?i) = Done (tab ms2 t ! ?i)"
    using read_page_tab [OF vas_okD(1) [OF ok2] in_use_capacity [OF vas_okD(2) [OF ok2 _ t2]], of ?i] by simp
  have "user_map flags a ms = Done ms3"
    unfolding user_map_def getPage_current [OF assms(1)] 1(1)
    using mem_allocatePage_alloc [OF assms(5,6)] 2(1) [folded ms2_def] rd leaf3(1) by (simp add: w_def del: of_nat_mult)
  moreover have w: "pg_present w" "pg_frame w = b"
    unfolding w_def using assms(7) pg_frame_SET_FRAME [OF frame_low(3) [OF vas_okD(1) [OF ok1(1)] 2(2)]] by (simp_all del: of_nat_mult)
  moreover have "pages ms3 r x = (if page_no x = page_no a then Some w else pages ms r x)" for x
    using leaf3(6) [of "vpath x" "MEM_PAGETBL_INDEX x"] same_page [of x a] 1(2) w(1) by (auto simp: pages_def ms2_def vas_grown_def)
  moreover have "running ms3 r" "room n ms3" using leaf3(3) ok1(2) 2(7) by (simp_all add: running_def ms3_def) (simp_all add: ms2_def)
  moreover have "\<not> pmm_in_use (ms_pmm ms) b" using 1(2) 2(3) by (auto simp: vas_grown_def)
  moreover have "data_frame ms3 r b" "\<forall>g. data_frame ms r g \<longrightarrow> data_frame ms3 r g \<and> tab ms3 g = tab ms g"
    using data3 data2 ok1(3) by (simp_all add: ms2_def)
  moreover have "\<forall>q. table_path q \<longrightarrow> clear_path ms r q \<longrightarrow> clear_path ms3 r q" using leaf3(5) ok1(4) by (simp add: ms2_def)
  ultimately show ?thesis by blast
qed

lemma user_map_spec:
  assumes "running ms r" "mapped ms r A" "MEM_IS_CANONICAL a" "clear_path ms r (vpath a)" "room (n + 4) ms" "page_no a \<notin> A"
    "\<not> has_flag flags MEM_PAGE_FREE" "\<not> has_flag flags MEM_PAGE_NOALLOC" "\<not> has_flag flags MEM_PAGE_NOT_PRESENT"
  shows "\<exists>ms'. user_map flags a ms = Done ms' \<and> running ms' r \<and> room n ms' \<and> mapped ms' r (insert (page_no a) A) \<and>
     (\<forall>x. page_no x \<in> A \<longrightarrow> user_byte ms' r x = user_byte ms r x) \<and> (\<forall>q. table_path q \<longrightarrow> clear_path ms r q \<longrightarrow> clear_path ms' r q)"
proof -
  from user_map_entry [OF assms(1,3-5,7-9)] obtain ms' w b where
    m: "user_map flags a ms = Done ms'" "running ms' r" "room n ms'" "pg_frame w = b" "\<not> pmm_in_use (ms_pmm ms) b" "data_frame ms' r b"
      "\<forall>x. pages ms' r x = (if page_no x = page_no a then Some w else pages ms r x)" "\<forall>g. data_frame ms r g \<longrightarrow> data_frame ms' r g \<and> tab ms' g = tab ms g"
      "\<forall>q. table_path q \<longrightarrow> clear_path ms r q \<longrightarrow> clear_path ms' r q" by blast
  have new: "page_frame ms' r x = Some b" if "page_no x = page_no a" for x using m(4,7) that by (simp add: page_frame_def)
  have old: "\<exists>f. page_frame ms' r x = Some f \<and> page_frame ms r x = Some f \<and> data_frame ms r f \<and> f \<noteq> b" if "page_no x \<in> A" for x
  proof -
    obtain f where f: "page_frame ms r x = Some f" "data_frame ms r f" using assms(2) \<open>page_no x \<in> A\<close> by (auto simp: mapped_def)
    have "page_no x \<noteq> page_no a" using \<open>page_no x \<in> A\<close> assms(6) by auto
    then have "page_frame ms' r x = page_frame ms r x" using m(7) by (simp add: page_frame_def)
    moreover have "f \<noteq> b" using f(2) m(5) by (auto simp: data_frame_def)
    ultimately show ?thesis using f by simp
  qed
  have "mapped ms' r (insert (page_no a) A)"
    unfolding mapped_def
  proof (intro conjI allI impI)
    fix x assume "page_no x \<in> insert (page_no a) A"
    then show "\<exists>f. page_frame ms' r x = Some f \<and> data_frame ms' r f" using new old m(6,8) by (metis insertE)
  next
    fix x y f assume xy: "page_no x \<in> insert (page_no a) A" "page_no y \<in> insert (page_no a) A" "page_frame ms' r x = Some f" "page_frame ms' r y = Some f"
    show "page_no x = page_no y"
    proof (cases "page_no x = page_no a \<or> page_no y = page_no a")
      case True
      then have "f = b" using new xy(3,4) by auto
      then show ?thesis using xy old by (metis insertE option.inject)
    next
      case False
      then have A: "page_no x \<in> A" "page_no y \<in> A" using xy(1,2) by auto
      then have "page_frame ms r x = Some f" "page_frame ms r y = Some f" using old xy(3,4) by fastforce+
      then show ?thesis using A assms(2) unfolding mapped_def by blast
    qed
  qed
  moreover have "user_byte ms' r x = user_byte ms r x" if "page_no x \<in> A" for x using old [OF that] m(8) by (auto simp: user_byte_def)
  ultimately show ?thesis using m(1-3,9) by blast
qed

text \<open>The pages of a range.\<close>

definition range_pages :: "u64 \<Rightarrow> nat \<Rightarrow> u64 set" where
  "range_pages virt n = (\<lambda>k. page_no (nth_page virt k)) ` {..<n}"

lemma user_map_loop:
  assumes "running ms r" "mapped ms r A" "\<forall>k < n. MEM_IS_CANONICAL (nth_page virt k) \<and> clear_path ms r (vpath (nth_page virt k))"
    "room (4 * n + c) ms" "range_pages virt n \<inter> A = {}" "inj_on (\<lambda>k. page_no (nth_page virt k)) {..<n}"
    "\<not> has_flag flags MEM_PAGE_FREE" "\<not> has_flag flags MEM_PAGE_NOALLOC" "\<not> has_flag flags MEM_PAGE_NOT_PRESENT"
  shows "\<exists>ms'. for_each (\<lambda>i. user_map flags (i + virt)) (map (\<lambda>k. of_nat (k * 4096)) [0..<n]) ms = Done ms' \<and> running ms' r \<and> room c ms' \<and>
     mapped ms' r (range_pages virt n \<union> A) \<and> (\<forall>x. page_no x \<in> A \<longrightarrow> user_byte ms' r x = user_byte ms r x) \<and>
     (\<forall>q. table_path q \<longrightarrow> clear_path ms r q \<longrightarrow> clear_path ms' r q)"
  using assms(1-6)
proof (induction n arbitrary: c)
  case 0
  then show ?case by (simp add: range_pages_def)
next
  case (Suc n)
  have R: "range_pages virt (Suc n) = insert (page_no (nth_page virt n)) (range_pages virt n)" by (simp add: range_pages_def lessThan_Suc)
  have prem: "\<forall>k < n. MEM_IS_CANONICAL (nth_page virt k) \<and> clear_path ms r (vpath (nth_page virt k))" "room (4 * n + (c + 4)) ms"
    "range_pages virt n \<inter> A = {}" "inj_on (\<lambda>k. page_no (nth_page virt k)) {..<n}"
    using Suc.prems(3-6) R by (auto simp: inj_on_def add.assoc add.commute)
  from Suc.IH [OF Suc.prems(1,2) prem] obtain ms1 where
    1: "for_each (\<lambda>i. user_map flags (i + virt)) (map (\<lambda>k. of_nat (k * 4096)) [0..<n]) ms = Done ms1" "running ms1 r" "room (c + 4) ms1"
      "mapped ms1 r (range_pages virt n \<union> A)" "\<forall>x. page_no x \<in> A \<longrightarrow> user_byte ms1 r x = user_byte ms r x"
      "\<forall>q. table_path q \<longrightarrow> clear_path ms r q \<longrightarrow> clear_path ms1 r q" by blast
  have v: "MEM_IS_CANONICAL (nth_page virt n)" "clear_path ms1 r (vpath (nth_page virt n))" using Suc.prems(3) 1(6) by simp_all
  have "page_no (nth_page virt n) \<noteq> page_no (nth_page virt k)" if "k < n" for k using inj_onD [OF Suc.prems(6), of n k] that by auto
  then have "page_no (nth_page virt n) \<notin> range_pages virt n \<union> A" using Suc.prems(5) R by (auto simp: range_pages_def)
  from user_map_spec [OF 1(2,4) v 1(3) this assms(7-9)] obtain ms2 where
    2: "user_map flags (nth_page virt n) ms1 = Done ms2" "running ms2 r" "room c ms2" "mapped ms2 r (insert (page_no (nth_page virt n)) (range_pages virt n \<union> A))"
      "\<forall>x. page_no x \<in> range_pages virt n \<union> A \<longrightarrow> user_byte ms2 r x = user_byte ms1 r x" "\<forall>q. table_path q \<longrightarrow> clear_path ms1 r q \<longrightarrow> clear_path ms2 r q" by blast
  have "user_map flags (of_nat (n * 4096) + virt) ms1 = Done ms2" using 2(1) by (simp add: nth_page_def add.commute)
  then have "for_each (\<lambda>i. user_map flags (i + virt)) (map (\<lambda>k. of_nat (k * 4096)) [0..<Suc n]) ms = Done ms2" using 1(1) by (simp add: for_each_append)
  moreover have "mapped ms2 r (range_pages virt (Suc n) \<union> A)" using 2(4) R by simp
  ultimately show ?case using 1(5,6) 2(2,3,5,6) by (intro exI [of _ ms2]) simp
qed

end
