(* ===== verification/Elf.thy ===== *)
theory Elf
  imports Ksym User_Memory
begin

text \<open>
  \<open>hexahedron/loader/elf64_loader.c\<close>: relocatable files (drivers) and executables. The file is in the kernel's memory, which is a
  partial function from addresses to bytes, and a header is the address of its bytes: every field is a load from there. The
  segments of an executable go to the memory of the process, through its page tables (\<open>User_Memory\<close>). \<open>kmalloc\<close> gives the
  next unused address.
\<close>

section \<open>Kernel memory\<close>

type_synonym kmem = "u64 \<Rightarrow> u8 option"

definition ld8 :: "kmem \<Rightarrow> u64 \<Rightarrow> u8 outcome" where
  "ld8 m a = (case m a of Some b \<Rightarrow> Done b | None \<Rightarrow> Fault BadPointer)"

primrec ld_bytes :: "nat \<Rightarrow> kmem \<Rightarrow> u64 \<Rightarrow> u8 list outcome" where
  "ld_bytes 0 m a = Done []"
| "ld_bytes (Suc n) m a = and_then (ld8 m a) (\<lambda>b. and_then (ld_bytes n m (a + 1)) (\<lambda>bs. Done (b # bs)))"

primrec st_bytes :: "u64 \<Rightarrow> u8 list \<Rightarrow> kmem \<Rightarrow> kmem outcome" where
  "st_bytes a [] m = Done m"
| "st_bytes a (b # bs) m = and_then (ld8 m a) (\<lambda>_. st_bytes (a + 1) bs (m(a \<mapsto> b)))"

primrec le_value :: "u8 list \<Rightarrow> 'w::len word" where
  "le_value [] = 0"
| "le_value (b # bs) = ucast b OR push_bit 8 (le_value bs)"

primrec le_bytes :: "nat \<Rightarrow> 'w::len word \<Rightarrow> u8 list" where
  "le_bytes 0 w = []"
| "le_bytes (Suc n) w = ucast w # le_bytes n (drop_bit 8 w)"

definition ld16 :: "kmem \<Rightarrow> u64 \<Rightarrow> u16 outcome" where
  "ld16 m a = and_then (ld_bytes 2 m a) (\<lambda>bs. Done (le_value bs))"

definition ld32 :: "kmem \<Rightarrow> u64 \<Rightarrow> u32 outcome" where
  "ld32 m a = and_then (ld_bytes 4 m a) (\<lambda>bs. Done (le_value bs))"

definition ld64 :: "kmem \<Rightarrow> u64 \<Rightarrow> u64 outcome" where
  "ld64 m a = and_then (ld_bytes 8 m a) (\<lambda>bs. Done (le_value bs))"

text \<open>A string ends at its terminator; \<open>n\<close> bounds the search by the size of the address space.\<close>

fun kstring :: "nat \<Rightarrow> kmem \<Rightarrow> u64 \<Rightarrow> string outcome" where
  "kstring n m a = (if n = 0 then Hang
     else and_then (ld8 m a) (\<lambda>b. if b = 0 then Done [] else and_then (kstring (n - 1) m (a + 1)) (\<lambda>s. Done (char_of (unat b) # s))))"

declare kstring.simps [simp del]

section \<open>The format\<close>

definition ET_REL :: u16 where "ET_REL = 1"
definition ET_EXEC :: u16 where "ET_EXEC = 2"
definition EM_X86_64 :: u16 where "EM_X86_64 = 62"
definition ELFCLASS64 :: u8 where "ELFCLASS64 = 2"
definition ELFDATA2LSB :: u8 where "ELFDATA2LSB = 1"
definition EV_CURRENT :: u8 where "EV_CURRENT = 1"
definition SHN_ABS :: u16 where "SHN_ABS = 0xFFF1"
definition SHF_ALLOC :: u64 where "SHF_ALLOC = 2"
definition SHT_SYMTAB :: u32 where "SHT_SYMTAB = 2"
definition SHT_RELA :: u32 where "SHT_RELA = 4"
definition SHT_NOBITS :: u32 where "SHT_NOBITS = 8"
definition SHT_REL :: u32 where "SHT_REL = 9"
definition STB_WEAK :: u8 where "STB_WEAK = 2"
definition PT_NULL :: u32 where "PT_NULL = 0"
definition PT_LOAD :: u32 where "PT_LOAD = 1"
definition R_X86_64_NONE :: u64 where "R_X86_64_NONE = 0"
definition R_X86_64_64 :: u64 where "R_X86_64_64 = 1"
definition R_X86_64_PC32 :: u64 where "R_X86_64_PC32 = 2"
definition R_X86_64_PLT32 :: u64 where "R_X86_64_PLT32 = 4"
definition R_X86_64_32 :: u64 where "R_X86_64_32 = 10"
definition ELF_KERNEL :: cint where "ELF_KERNEL = 0"
definition ELF_USER :: cint where "ELF_USER = 1"
definition ELF_DRIVER :: cint where "ELF_DRIVER = 2"
definition ELF_FAIL :: u64 where "ELF_FAIL = 1"
definition ELF_EXEC :: cint where "ELF_EXEC = 0"
definition ELF_RELOC :: cint where "ELF_RELOC = 1"
definition ELF_ANY :: cint where "ELF_ANY = 2"

definition e_type :: "kmem \<Rightarrow> u64 \<Rightarrow> u16 outcome" where "e_type m ehdr = ld16 m (ehdr + 16)"
definition e_machine :: "kmem \<Rightarrow> u64 \<Rightarrow> u16 outcome" where "e_machine m ehdr = ld16 m (ehdr + 18)"
definition e_entry :: "kmem \<Rightarrow> u64 \<Rightarrow> u64 outcome" where "e_entry m ehdr = ld64 m (ehdr + 24)"
definition e_phoff :: "kmem \<Rightarrow> u64 \<Rightarrow> u64 outcome" where "e_phoff m ehdr = ld64 m (ehdr + 32)"
definition e_shoff :: "kmem \<Rightarrow> u64 \<Rightarrow> u64 outcome" where "e_shoff m ehdr = ld64 m (ehdr + 40)"
definition e_phentsize :: "kmem \<Rightarrow> u64 \<Rightarrow> u16 outcome" where "e_phentsize m ehdr = ld16 m (ehdr + 54)"
definition e_phnum :: "kmem \<Rightarrow> u64 \<Rightarrow> u16 outcome" where "e_phnum m ehdr = ld16 m (ehdr + 56)"
definition e_shnum :: "kmem \<Rightarrow> u64 \<Rightarrow> u16 outcome" where "e_shnum m ehdr = ld16 m (ehdr + 60)"

definition sh_type :: "kmem \<Rightarrow> u64 \<Rightarrow> u32 outcome" where "sh_type m s = ld32 m (s + 4)"
definition sh_flags :: "kmem \<Rightarrow> u64 \<Rightarrow> u64 outcome" where "sh_flags m s = ld64 m (s + 8)"
definition sh_addr :: "kmem \<Rightarrow> u64 \<Rightarrow> u64 outcome" where "sh_addr m s = ld64 m (s + 16)"
definition sh_offset :: "kmem \<Rightarrow> u64 \<Rightarrow> u64 outcome" where "sh_offset m s = ld64 m (s + 24)"
definition sh_size :: "kmem \<Rightarrow> u64 \<Rightarrow> u64 outcome" where "sh_size m s = ld64 m (s + 32)"
definition sh_link :: "kmem \<Rightarrow> u64 \<Rightarrow> u32 outcome" where "sh_link m s = ld32 m (s + 40)"
definition sh_info :: "kmem \<Rightarrow> u64 \<Rightarrow> u32 outcome" where "sh_info m s = ld32 m (s + 44)"
definition sh_entsize :: "kmem \<Rightarrow> u64 \<Rightarrow> u64 outcome" where "sh_entsize m s = ld64 m (s + 56)"

definition st_name :: "kmem \<Rightarrow> u64 \<Rightarrow> u32 outcome" where "st_name m s = ld32 m s"
definition st_info :: "kmem \<Rightarrow> u64 \<Rightarrow> u8 outcome" where "st_info m s = ld8 m (s + 4)"
definition st_shndx :: "kmem \<Rightarrow> u64 \<Rightarrow> u16 outcome" where "st_shndx m s = ld16 m (s + 6)"
definition st_value :: "kmem \<Rightarrow> u64 \<Rightarrow> u64 outcome" where "st_value m s = ld64 m (s + 8)"

definition r_offset :: "kmem \<Rightarrow> u64 \<Rightarrow> u64 outcome" where "r_offset m r = ld64 m r"
definition r_info :: "kmem \<Rightarrow> u64 \<Rightarrow> u64 outcome" where "r_info m r = ld64 m (r + 8)"
definition r_addend :: "kmem \<Rightarrow> u64 \<Rightarrow> u64 outcome" where "r_addend m r = ld64 m (r + 16)"

definition p_type :: "kmem \<Rightarrow> u64 \<Rightarrow> u32 outcome" where "p_type m p = ld32 m p"
definition p_offset :: "kmem \<Rightarrow> u64 \<Rightarrow> u64 outcome" where "p_offset m p = ld64 m (p + 8)"
definition p_vaddr :: "kmem \<Rightarrow> u64 \<Rightarrow> u64 outcome" where "p_vaddr m p = ld64 m (p + 16)"
definition p_filesz :: "kmem \<Rightarrow> u64 \<Rightarrow> u64 outcome" where "p_filesz m p = ld64 m (p + 32)"
definition p_memsz :: "kmem \<Rightarrow> u64 \<Rightarrow> u64 outcome" where "p_memsz m p = ld64 m (p + 40)"

definition ELF64_ST_BIND :: "u8 \<Rightarrow> u8" where "ELF64_ST_BIND i = drop_bit 4 i"
definition ELF64_R_SYM :: "u64 \<Rightarrow> u64" where "ELF64_R_SYM i = drop_bit 32 i"
definition ELF64_R_TYPE :: "u64 \<Rightarrow> u64" where "ELF64_R_TYPE i = i AND 0xFFFFFFFF"

definition ELF_SHDR :: "kmem \<Rightarrow> u64 \<Rightarrow> u64 outcome" where
  "ELF_SHDR m ehdr = and_then (e_shoff m ehdr) (\<lambda>off. Done (ehdr + off))"

definition ELF_SECTION :: "kmem \<Rightarrow> u64 \<Rightarrow> u64 \<Rightarrow> u64 outcome" where
  "ELF_SECTION m ehdr idx = and_then (ELF_SHDR m ehdr) (\<lambda>shdr. Done (shdr + 64 * idx))"

text \<open>
  The index is an \<open>int\<close> in the loops that load and clean up, where its product with the promoted \<open>e_phentsize\<close> is an \<open>int\<close> too.
\<close>

definition ELF_PHDR :: "kmem \<Rightarrow> u64 \<Rightarrow> cint \<Rightarrow> u64 outcome" where
  "ELF_PHDR m ehdr idx =
     and_then (e_phoff m ehdr) (\<lambda>off. and_then (e_phentsize m ehdr) (\<lambda>sz. Done (ehdr + off + scast (ucast sz * idx))))"

definition ELF_PHDR_wide :: "kmem \<Rightarrow> u64 \<Rightarrow> u64 \<Rightarrow> u64 outcome" where
  "ELF_PHDR_wide m ehdr idx =
     and_then (e_phoff m ehdr) (\<lambda>off. and_then (e_phentsize m ehdr) (\<lambda>sz. Done (ehdr + off + ucast sz * idx)))"

section \<open>Checks\<close>

text \<open>The comparison of the magic bytes stops at the first that differs.\<close>

primrec match_bytes :: "u8 list \<Rightarrow> kmem \<Rightarrow> u64 \<Rightarrow> bool outcome" where
  "match_bytes [] m a = Done True"
| "match_bytes (b # bs) m a = and_then (ld8 m a) (\<lambda>c. if c \<noteq> b then Done False else match_bytes bs m (a + 1))"

definition elf_checkSupported :: "kmem \<Rightarrow> u64 \<Rightarrow> bool outcome" where
  "elf_checkSupported m ehdr =
     and_then (match_bytes [0x7F, 0x45, 0x4C, 0x46] m ehdr) (\<lambda>mag.
     if \<not> mag then Done False
     else
       and_then (ld8 m (ehdr + 4)) (\<lambda>cls.
       if cls \<noteq> ELFCLASS64 then Done False
       else
         and_then (ld8 m (ehdr + 5)) (\<lambda>dat.
         if dat \<noteq> ELFDATA2LSB then Done False
         else
           and_then (e_machine m ehdr) (\<lambda>mach.
           if mach \<noteq> EM_X86_64 then Done False
           else
             and_then (ld8 m (ehdr + 6)) (\<lambda>ver.
             if ver \<noteq> EV_CURRENT then Done False
             else and_then (e_type m ehdr) (\<lambda>ty. Done (ty = ET_REL \<or> ty = ET_EXEC)))))))"

section \<open>Symbols\<close>

text \<open>
  \<open>table\<close> is an \<open>int\<close>, so as an index it is sign extended.
\<close>

definition elf_getSymbolAddress :: "ksym_map \<Rightarrow> kmem \<Rightarrow> u64 \<Rightarrow> cint \<Rightarrow> u64 \<Rightarrow> cint \<Rightarrow> u64 outcome" where
  "elf_getSymbolAddress hm m ehdr table idx flags =
     (if table = 0 \<or> idx = 0 \<or> sint flags > sint ELF_DRIVER then Done ELF_FAIL
      else
        and_then (ELF_SECTION m ehdr (scast table)) (\<lambda>symtab.
        and_then (sh_size m symtab) (\<lambda>size.
        and_then (sh_entsize m symtab) (\<lambda>entsize.
        if entsize = 0 then Fault DivideByZero
        else if idx \<ge> size div entsize then Done ELF_FAIL
        else
          and_then (sh_offset m symtab) (\<lambda>symoff.
          let symbol = ehdr + symoff + 24 * idx in
          and_then (st_shndx m symbol) (\<lambda>shndx.
          if shndx = 0 then
            and_then (sh_link m symtab) (\<lambda>link.
            and_then (ELF_SECTION m ehdr (ucast link)) (\<lambda>strtab.
            and_then (sh_offset m strtab) (\<lambda>stroff.
            and_then (st_name m symbol) (\<lambda>nm.
            if flags \<noteq> ELF_KERNEL \<and> flags \<noteq> ELF_DRIVER then Done ELF_FAIL
            else
              and_then (kstring (2 ^ 64) m (ehdr + stroff + ucast nm)) (\<lambda>name.
              and_then (ksym_resolve hm name) (\<lambda>addr.
              if addr \<noteq> 0 then Done addr
              else
                and_then (st_info m symbol) (\<lambda>info.
                Done (if ELF64_ST_BIND info AND STB_WEAK \<noteq> 0 then 0 else ELF_FAIL))))))))
          else if shndx = SHN_ABS then st_value m symbol
          else
            and_then (ELF_SECTION m ehdr (ucast shndx)) (\<lambda>target.
            and_then (st_value m symbol) (\<lambda>value.
            and_then (sh_offset m target) (\<lambda>off. Done (ehdr + value + off)))))))))) "

section \<open>Relocation\<close>

text \<open>
  The switch of both relocation functions; \<open>addend\<close> is where they differ. The result is the value returned and the memory.
\<close>

definition apply_relocation :: "u64 \<Rightarrow> u64 \<Rightarrow> u64 \<Rightarrow> (kmem \<Rightarrow> u64 outcome) \<Rightarrow> kmem \<Rightarrow> (u64 \<times> kmem) outcome" where
  "apply_relocation ty reference symval addend m =
     (if ty = R_X86_64_NONE then Done (symval, m)
      else if ty = R_X86_64_64 then
        and_then (addend m) (\<lambda>a. and_then (st_bytes reference (le_bytes 8 (symval + a)) m) (\<lambda>m'. Done (symval, m')))
      else if ty = R_X86_64_32 then
        and_then (addend m) (\<lambda>a. and_then (st_bytes reference (le_bytes 4 (symval + a)) m) (\<lambda>m'. Done (symval, m')))
      else if ty = R_X86_64_PC32 then
        and_then (addend m) (\<lambda>a. and_then (st_bytes reference (le_bytes 4 (symval + a - reference)) m) (\<lambda>m'. Done (symval, m')))
      else if ty = R_X86_64_PLT32 then Done (ELF_FAIL, m)
      else Done (ELF_FAIL, m))"

text \<open>
  The reference and the symbol of an entry, for both functions. A symbol that cannot be had gives -1, which is not \<open>ELF_FAIL\<close>.
\<close>

definition relocate_entry :: "ksym_map \<Rightarrow> u64 \<Rightarrow> u64 \<Rightarrow> u64 \<Rightarrow> cint \<Rightarrow> (u64 \<Rightarrow> kmem \<Rightarrow> u64 outcome) \<Rightarrow> kmem \<Rightarrow> (u64 \<times> kmem) outcome" where
  "relocate_entry hm ehdr rel reltab flags addend m =
     and_then (sh_info m reltab) (\<lambda>info.
     and_then (ELF_SECTION m ehdr (ucast info)) (\<lambda>shdr.
     and_then (sh_offset m shdr) (\<lambda>off.
     and_then (r_offset m rel) (\<lambda>ro.
     and_then (r_info m rel) (\<lambda>ri.
     let reference = ehdr + off + ro in
     and_then (if ELF64_R_SYM ri = 0 then Done (Some 0)
               else
                 and_then (sh_link m reltab) (\<lambda>link.
                 and_then (elf_getSymbolAddress hm m ehdr (ucast link) (ELF64_R_SYM ri) flags) (\<lambda>v. Done (if v = ELF_FAIL then None else Some v)))) (\<lambda>symval.
     case symval of
       None \<Rightarrow> Done (- 1, m)
     | Some v \<Rightarrow> apply_relocation (ELF64_R_TYPE ri) reference v (addend reference) m))))))"

definition elf_relocateSymbol :: "ksym_map \<Rightarrow> u64 \<Rightarrow> u64 \<Rightarrow> u64 \<Rightarrow> cint \<Rightarrow> kmem \<Rightarrow> (u64 \<times> kmem) outcome" where
  "elf_relocateSymbol hm ehdr rel reltab flags m = relocate_entry hm ehdr rel reltab flags (\<lambda>reference m. ld64 m reference) m"

definition elf_relocateSymbolAddend :: "ksym_map \<Rightarrow> u64 \<Rightarrow> u64 \<Rightarrow> u64 \<Rightarrow> cint \<Rightarrow> kmem \<Rightarrow> (u64 \<times> kmem) outcome" where
  "elf_relocateSymbolAddend hm ehdr rel reltab flags m =
     relocate_entry hm ehdr rel reltab flags (\<lambda>_ m. and_then (r_addend m rel) (\<lambda>a. Done (scast (ucast a :: cint)))) m"

section \<open>Loading\<close>

record elf_state =
  es_km :: kmem
  es_brk :: u64
  es_regions :: regions
  es_mem :: mem_state

text \<open>
  The loops \<^verbatim>\<open>for (i = 0; i < bound; i++)\<close>, whose bound is read again in every round; a body that gives a result returns it.
  \<open>n\<close> is more rounds than the type of the counter has values: \<open>e_shnum\<close> and \<open>e_phnum\<close> have 16 bits, the index of a table
  entry 32.
\<close>

fun count_loop :: "nat \<Rightarrow> ('s \<Rightarrow> u64 outcome) \<Rightarrow> (u64 \<Rightarrow> 's \<Rightarrow> ('r option \<times> 's) outcome) \<Rightarrow> u64 \<Rightarrow> 's \<Rightarrow> ('r option \<times> 's) outcome" where
  "count_loop n bound body i s = (if n = 0 then Hang
     else and_then (bound s) (\<lambda>b.
       if i < b then
         and_then (body i s) (\<lambda>(r, s'). if r = None then count_loop (n - 1) bound body (i + 1) s' else Done (r, s'))
       else Done (None, s)))"

declare count_loop.simps [simp del]

text \<open>Zeroed memory for a section: driver memory, or the heap.\<close>

definition section_memory :: "cint \<Rightarrow> u64 \<Rightarrow> elf_state \<Rightarrow> (u64 \<times> elf_state) outcome" where
  "section_memory flags sz st =
     and_then (if flags = ELF_DRIVER
               then and_then (mem_mapDriver (es_regions st) (es_mem st) sz) (\<lambda>(a, rg, ms). Done (a, st\<lparr>es_regions := rg, es_mem := ms\<rparr>))
               else Done (es_brk st, st\<lparr>es_brk := es_brk st + sz\<rparr>)) (\<lambda>(a, st1).
     if a = 0 then Fault BadPointer else Done (a, st1\<lparr>es_km := (\<lambda>x. if x - a < sz then Some 0 else es_km st1 x)\<rparr>))"

definition load_section :: "u64 \<Rightarrow> u64 \<Rightarrow> cint \<Rightarrow> u64 \<Rightarrow> elf_state \<Rightarrow> (cint option \<times> elf_state) outcome" where
  "load_section ehdr shdr flags i st =
     (let sec = shdr + 64 * i; m = es_km st in
      and_then (sh_flags m sec) (\<lambda>fl.
      and_then (sh_size m sec) (\<lambda>sz.
      and_then (sh_type m sec) (\<lambda>ty.
      if fl AND SHF_ALLOC \<noteq> 0 \<and> sz \<noteq> 0 \<and> ty = SHT_NOBITS then
        and_then (section_memory flags sz st) (\<lambda>(a, st1).
        and_then (st_bytes (sec + 16) (le_bytes 8 a) (es_km st1)) (\<lambda>m1.
        and_then (st_bytes (sec + 24) (le_bytes 8 (a - ehdr)) m1) (\<lambda>m2. Done (None, st1\<lparr>es_km := m2\<rparr>))))
      else
        and_then (sh_offset m sec) (\<lambda>off.
        and_then (st_bytes (sec + 16) (le_bytes 8 (ehdr + off)) m) (\<lambda>m1. Done (None, st\<lparr>es_km := m1\<rparr>)))))))"

text \<open>The entries of a relocation table of entries of \<open>sz\<close> bytes.\<close>

definition relocate_table :: "(u64 \<Rightarrow> kmem \<Rightarrow> (u64 \<times> kmem) outcome) \<Rightarrow> u64 \<Rightarrow> u64 \<Rightarrow> u64 \<Rightarrow> elf_state \<Rightarrow> (cint option \<times> elf_state) outcome" where
  "relocate_table reloc sz ehdr sec st =
     count_loop (2 ^ 32)
       (\<lambda>st. and_then (sh_size (es_km st) sec) (\<lambda>size. and_then (sh_entsize (es_km st) sec) (\<lambda>ent.
          if ent = 0 then Fault DivideByZero else Done (size div ent))))
       (\<lambda>idx st. and_then (sh_offset (es_km st) sec) (\<lambda>off.
          and_then (reloc (ehdr + off + sz * idx) (es_km st)) (\<lambda>(result, m').
          Done (if result = ELF_FAIL then Some (- 1) else None, st\<lparr>es_km := m'\<rparr>)))) 0 st"

definition relocate_section :: "ksym_map \<Rightarrow> u64 \<Rightarrow> u64 \<Rightarrow> cint \<Rightarrow> u64 \<Rightarrow> elf_state \<Rightarrow> (cint option \<times> elf_state) outcome" where
  "relocate_section hm ehdr shdr flags i st =
     (let sec = shdr + 64 * i in
      and_then (sh_type (es_km st) sec) (\<lambda>ty.
      if ty = SHT_REL then relocate_table (\<lambda>rel. elf_relocateSymbol hm ehdr rel sec flags) 16 ehdr sec st
      else if ty = SHT_RELA then relocate_table (\<lambda>rel. elf_relocateSymbolAddend hm ehdr rel sec flags) 24 ehdr sec st
      else Done (None, st)))"

definition elf_loadRelocatable :: "ksym_map \<Rightarrow> u64 \<Rightarrow> cint \<Rightarrow> elf_state \<Rightarrow> (cint \<times> elf_state) outcome" where
  "elf_loadRelocatable hm ehdr flags st =
     (if ehdr = 0 \<or> sint flags > sint ELF_DRIVER then Done (- 1, st)
      else
        let shnum = (\<lambda>st. and_then (e_shnum (es_km st) ehdr) (\<lambda>n. Done (ucast n))) in
        and_then (ELF_SHDR (es_km st) ehdr) (\<lambda>shdr.
        and_then (count_loop (2 ^ 16) shnum (load_section ehdr shdr flags) 0 st) (\<lambda>(_, st1).
        and_then (count_loop (2 ^ 16) shnum (relocate_section hm ehdr shdr flags) 0 st1) (\<lambda>(r, st2).
        Done (case r of Some e \<Rightarrow> e | None \<Rightarrow> 0, st2)))))"

section \<open>Executables\<close>

text \<open>A segment of type \<open>PT_LOAD\<close>: its pages, its bytes from the file, zeros for the rest.\<close>

definition load_segment :: "u64 \<Rightarrow> u64 \<Rightarrow> elf_state \<Rightarrow> elf_state outcome" where
  "load_segment ehdr phdr st =
     (let m = es_km st in
      and_then (p_memsz m phdr) (\<lambda>memsz.
      and_then (p_vaddr m phdr) (\<lambda>vaddr.
      and_then (for_pages (\<lambda>i. user_map MEM_DEFAULT (i + vaddr)) 0 memsz (es_mem st)) (\<lambda>ms1.
      and_then (p_offset m phdr) (\<lambda>off.
      and_then (p_filesz m phdr) (\<lambda>filesz.
      and_then (ld_bytes (unat filesz) m (ehdr + off)) (\<lambda>bs.
      and_then (user_write vaddr bs ms1) (\<lambda>ms2.
      and_then (if memsz > filesz then user_write (vaddr + filesz) (replicate (unat (memsz - filesz)) 0) ms2 else Done ms2) (\<lambda>ms3.
      Done (st\<lparr>es_mem := ms3\<rparr>))))))))))"

definition load_phdr :: "u64 \<Rightarrow> u64 \<Rightarrow> elf_state \<Rightarrow> (cint option \<times> elf_state) outcome" where
  "load_phdr ehdr i st =
     and_then (ELF_PHDR (es_km st) ehdr (ucast i)) (\<lambda>phdr.
     and_then (p_type (es_km st) phdr) (\<lambda>ty.
     if ty = PT_NULL then Done (None, st)
     else if ty = PT_LOAD then and_then (load_segment ehdr phdr st) (\<lambda>st'. Done (None, st'))
     else Done (Some (ucast ELF_FAIL), st)))"

definition phnum :: "u64 \<Rightarrow> elf_state \<Rightarrow> u64 outcome" where
  "phnum ehdr st = and_then (e_phnum (es_km st) ehdr) (\<lambda>n. Done (ucast n))"

definition elf_loadExecutable :: "u64 \<Rightarrow> elf_state \<Rightarrow> (cint \<times> elf_state) outcome" where
  "elf_loadExecutable ehdr st =
     (if ehdr = 0 then Done (ucast ELF_FAIL, st)
      else and_then (count_loop (2 ^ 16) (phnum ehdr) (load_phdr ehdr) 0 st) (\<lambda>(r, st'). Done (case r of Some e \<Rightarrow> e | None \<Rightarrow> 0, st')))"

section \<open>The loaded file\<close>

text \<open>\<open>strcmp\<close> of a name with a string in memory, which stops at the first character that differs.\<close>

primrec same_string :: "string \<Rightarrow> kmem \<Rightarrow> u64 \<Rightarrow> bool outcome" where
  "same_string [] m a = and_then (ld8 m a) (\<lambda>b. Done (b = 0))"
| "same_string (c # cs) m a = and_then (ld8 m a) (\<lambda>b. if b \<noteq> of_char c then Done False else same_string cs m (a + 1))"

definition find_in_table :: "ksym_map \<Rightarrow> u64 \<Rightarrow> string \<Rightarrow> u64 \<Rightarrow> u64 \<Rightarrow> kmem \<Rightarrow> (u64 option \<times> kmem) outcome" where
  "find_in_table hm ehdr name i shdr m =
     and_then (sh_link m shdr) (\<lambda>link.
     and_then (ELF_SECTION m ehdr (ucast link)) (\<lambda>strtab.
     if strtab = 0 then Done (Some 0, m)
     else
       and_then (sh_addr m shdr) (\<lambda>symtable.
       count_loop (2 ^ 32)
         (\<lambda>m. and_then (sh_size m shdr) (\<lambda>size. and_then (sh_entsize m shdr) (\<lambda>ent. if ent = 0 then Fault DivideByZero else Done (size div ent))))
         (\<lambda>sym m.
            and_then (sh_offset m strtab) (\<lambda>off.
            and_then (st_name m (symtable + 24 * sym)) (\<lambda>nm.
            and_then (same_string name m (ehdr + off + ucast nm)) (\<lambda>same.
            if same then and_then (elf_getSymbolAddress hm m ehdr (ucast i) sym ELF_KERNEL) (\<lambda>a. Done (Some a, m))
            else Done (None, m))))) 0 m)))"

definition elf_findSymbol :: "ksym_map \<Rightarrow> kmem \<Rightarrow> u64 \<Rightarrow> string \<Rightarrow> u64 outcome" where
  "elf_findSymbol hm m ehdr name =
     (if ehdr = 0 then Done 0
      else
        and_then (count_loop (2 ^ 16) (\<lambda>m. and_then (e_shnum m ehdr) (\<lambda>n. Done (ucast n)))
          (\<lambda>i m. and_then (ELF_SECTION m ehdr i) (\<lambda>shdr.
             and_then (sh_type m shdr) (\<lambda>ty. if ty \<noteq> SHT_SYMTAB then Done (None, m) else find_in_table hm ehdr name i shdr m))) 0 m) (\<lambda>(r, _).
        Done (case r of Some a \<Rightarrow> a | None \<Rightarrow> 0)))"

definition elf_getEntrypoint :: "kmem \<Rightarrow> u64 \<Rightarrow> u64 outcome" where
  "elf_getEntrypoint m ehdr =
     (if ehdr = 0 then Done 0 else and_then (e_type m ehdr) (\<lambda>ty. if ty \<noteq> ET_EXEC then Done 0 else e_entry m ehdr))"

definition elf_loadBuffer :: "ksym_map \<Rightarrow> u64 \<Rightarrow> cint \<Rightarrow> elf_state \<Rightarrow> (u64 \<times> elf_state) outcome" where
  "elf_loadBuffer hm fbuf flags st =
     and_then (elf_checkSupported (es_km st) fbuf) (\<lambda>ok.
     if \<not> ok then Done (0, st)
     else
       and_then (e_type (es_km st) fbuf) (\<lambda>ty.
       and_then (if ty = ET_REL then elf_loadRelocatable hm fbuf flags st
                 else if ty = ET_EXEC then elf_loadExecutable fbuf st
                 else Done (- 1, st)) (\<lambda>(r, st').
       Done (if r \<noteq> 0 then 0 else fbuf, st'))))"

text \<open>The header in the local variable is what was read; the rest of it is not initialised.\<close>

definition local_memory :: "u8 list \<Rightarrow> kmem" where
  "local_memory bs a = (if unat a < length bs then Some (bs ! unat a) else None)"

definition elf_check :: "fs_ops \<Rightarrow> vfs_state \<Rightarrow> addr \<Rightarrow> cint \<Rightarrow> (bool \<times> vfs_state) outcome" where
  "elf_check ops s file type =
     (if file = NULL then Done (False, s)
      else
        and_then (fs_read ops s file 0 64) (\<lambda>(bs, n, s').
        if n \<noteq> 64 then Done (False, s')
        else
          let m = local_memory bs in
          and_then (elf_checkSupported m 0) (\<lambda>ok.
          if \<not> ok then Done (False, s')
          else
            and_then (e_type m 0) (\<lambda>ty.
            Done (\<not> (type = ELF_EXEC \<and> ty \<noteq> ET_EXEC) \<and> \<not> (type = ELF_RELOC \<and> ty \<noteq> ET_REL), s')))))"

text \<open>The buffer of the file: zeros, then what was read.\<close>

definition file_buffer :: "u64 \<Rightarrow> u64 \<Rightarrow> u8 list \<Rightarrow> kmem \<Rightarrow> kmem" where
  "file_buffer fbuf len bs m x =
     (if x - fbuf < len then Some (if unat (x - fbuf) < length bs then bs ! unat (x - fbuf) else 0) else m x)"

definition elf_load :: "ksym_map \<Rightarrow> fs_ops \<Rightarrow> vfs_state \<Rightarrow> addr \<Rightarrow> cint \<Rightarrow> elf_state \<Rightarrow> (u64 \<times> vfs_state \<times> elf_state) outcome" where
  "elf_load hm ops s node flags st =
     (if node = NULL then Done (0, s, st)
      else
        and_then (elf_check ops s node ELF_ANY) (\<lambda>(ok, s1).
        if \<not> ok then Done (0, s1, st)
        else
          and_then (fs_node_at s1 node) (\<lambda>n.
          let len = fn_length n; fbuf = es_brk st in
          and_then (fs_read ops s1 node 0 len) (\<lambda>(bs, k, s2).
          let st1 = st\<lparr>es_brk := es_brk st + len, es_km := file_buffer fbuf len bs (es_km st)\<rparr> in
          if k \<noteq> len then Done (0, s2, st1)
          else and_then (elf_loadBuffer hm fbuf flags st1) (\<lambda>(r, st2). Done (r, s2, st2))))))"

text \<open>\<open>kfree\<close> is an argument: the allocator is not part of the model.\<close>

definition free_segment :: "u64 \<Rightarrow> elf_state \<Rightarrow> elf_state outcome" where
  "free_segment phdr st =
     and_then (p_memsz (es_km st) phdr) (\<lambda>memsz.
     and_then (p_vaddr (es_km st) phdr) (\<lambda>vaddr.
     and_then (for_pages (\<lambda>i ms. and_then (mem_getPage ms 0 (i + vaddr) MEM_CREATE) (\<lambda>(pg, ms1). mem_freePage ms1 pg)) 0 (MEM_ALIGN_PAGE memsz) (es_mem st)) (\<lambda>ms'.
     Done (st\<lparr>es_mem := ms'\<rparr>))))"

definition elf_cleanup :: "(u64 \<Rightarrow> elf_state \<Rightarrow> elf_state outcome) \<Rightarrow> u64 \<Rightarrow> elf_state \<Rightarrow> (cint \<times> elf_state) outcome" where
  "elf_cleanup kfree ehdr st =
     (if ehdr = 0 then Done (ucast ELF_FAIL, st)
      else
        and_then (elf_checkSupported (es_km st) ehdr) (\<lambda>ok.
        if \<not> ok then Done (ucast ELF_FAIL, st)
        else
          and_then (e_type (es_km st) ehdr) (\<lambda>ty.
          if ty = ET_REL then
            and_then (ELF_SHDR (es_km st) ehdr) (\<lambda>shdr.
            and_then (count_loop (2 ^ 16) (\<lambda>st. and_then (e_shnum (es_km st) ehdr) (\<lambda>n. Done (ucast n)))
              (\<lambda>i st. let sec = shdr + 64 * i in
                 and_then (sh_flags (es_km st) sec) (\<lambda>fl.
                 and_then (sh_size (es_km st) sec) (\<lambda>sz.
                 if fl AND SHF_ALLOC \<noteq> 0 \<and> sz \<noteq> 0
                 then and_then (sh_addr (es_km st) sec) (\<lambda>a. and_then (kfree a st) (\<lambda>st'. Done (None :: cint option, st')))
                 else Done (None, st)))) 0 st) (\<lambda>(_, st'). Done (0, st')))
          else if ty = ET_EXEC then
            and_then (count_loop (2 ^ 16) (phnum ehdr)
              (\<lambda>i st. and_then (ELF_PHDR (es_km st) ehdr (ucast i)) (\<lambda>phdr.
                 and_then (p_type (es_km st) phdr) (\<lambda>ty.
                 if ty = PT_LOAD then and_then (free_segment phdr st) (\<lambda>st'. Done (None :: cint option, st')) else Done (None, st)))) 0 st) (\<lambda>(_, st').
            Done (0, st'))
          else Done (0, st))))"

definition heap_above :: "u64 \<Rightarrow> u64 \<Rightarrow> kmem \<times> u64 \<Rightarrow> (cint option \<times> kmem \<times> u64) outcome" where
  "heap_above ehdr i s = (case s of (m, heap_base) \<Rightarrow>
     and_then (ELF_PHDR_wide m ehdr i) (\<lambda>phdr.
     and_then (p_vaddr m phdr) (\<lambda>vaddr.
     and_then (p_memsz m phdr) (\<lambda>memsz. Done (None, m, if vaddr + memsz > heap_base then vaddr + memsz else heap_base)))))"

definition elf_getHeapLocation :: "kmem \<Rightarrow> u64 \<Rightarrow> u64 outcome" where
  "elf_getHeapLocation m ehdr =
     (if ehdr = 0 then Done 0
      else
        and_then (elf_checkSupported m ehdr) (\<lambda>ok.
        if \<not> ok then Done 0
        else
          and_then (e_type m ehdr) (\<lambda>ty.
          if ty = ET_REL then Done 0
          else if ty = ET_EXEC then
            and_then (count_loop (2 ^ 16) (\<lambda>s. and_then (e_phnum (fst s) ehdr) (\<lambda>n. Done (ucast n))) (heap_above ehdr) 0 (m, 0)) (\<lambda>(_, _, heap_base).
            Done (MEM_ALIGN_PAGE heap_base))
          else Done 0)))"

end
