(* ===== verification/Elf_Load.thy ===== *)
theory Elf_Load
  imports Elf
begin

text \<open>
  What loading an executable does: the segments of the file in the memory of the process.
\<close>

section \<open>Segments\<close>

record phdr_t =
  ph_type :: u32
  ph_offset :: u64
  ph_vaddr :: u64
  ph_filesz :: u64
  ph_memsz :: u64

definition phdr_at :: "kmem \<Rightarrow> u64 \<Rightarrow> phdr_t \<Rightarrow> bool" where
  "phdr_at m a h \<longleftrightarrow> p_type m a = Done (ph_type h) \<and> p_offset m a = Done (ph_offset h) \<and> p_vaddr m a = Done (ph_vaddr h) \<and>
     p_filesz m a = Done (ph_filesz h) \<and> p_memsz m a = Done (ph_memsz h)"

text \<open>The file at \<open>ehdr\<close> has the program headers \<open>hs\<close>.\<close>

definition has_phdrs :: "kmem \<Rightarrow> u64 \<Rightarrow> phdr_t list \<Rightarrow> bool" where
  "has_phdrs m ehdr hs \<longleftrightarrow> ehdr \<noteq> 0 \<and> length hs < 2 ^ 16 \<and> e_phnum m ehdr = Done (of_nat (length hs)) \<and>
     (\<forall>i < length hs. \<exists>a. ELF_PHDR m ehdr (of_nat i) = Done a \<and> phdr_at m a (hs ! i))"

definition seg_len :: "phdr_t \<Rightarrow> nat" where
  "seg_len h = (unat (ph_memsz h) + 4095) div 4096"

definition seg_pages :: "phdr_t \<Rightarrow> u64 set" where
  "seg_pages h = range_pages (ph_vaddr h) (seg_len h)"

text \<open>A segment that starts on a page, lies in the lower half and whose bytes are in the file.\<close>

definition segment_ok :: "kmem \<Rightarrow> u64 \<Rightarrow> phdr_t \<Rightarrow> bool" where
  "segment_ok m ehdr h \<longleftrightarrow> unat (ph_vaddr h) mod 4096 = 0 \<and> unat (ph_vaddr h) + unat (ph_memsz h) \<le> 2 ^ 47 \<and> ph_filesz h \<le> ph_memsz h \<and>
     (\<exists>bs. ld_bytes (unat (ph_filesz h)) m (ehdr + ph_offset h) = Done bs)"

text \<open>What the format says of byte \<open>k\<close> of a segment.\<close>

definition segment_byte :: "kmem \<Rightarrow> u64 \<Rightarrow> phdr_t \<Rightarrow> nat \<Rightarrow> u8" where
  "segment_byte m ehdr h k = (if k < unat (ph_filesz h) then the (m (ehdr + ph_offset h + of_nat k)) else 0)"

lemma ld_bytes_nth: "ld_bytes n m a = Done bs \<Longrightarrow> length bs = n \<and> (\<forall>k < n. bs ! k = the (m (a + of_nat k)))"
proof (induction n arbitrary: a bs)
  case (Suc n)
  then obtain b cs where b: "m a = Some b" "ld_bytes n m (a + 1) = Done cs" "bs = b # cs"
    by (auto simp: ld8_def outcome_iff split: option.splits)
  have "bs ! k = the (m (a + of_nat k))" if "k < Suc n" for k
    using Suc.IH [OF b(2)] b(1,3) that by (cases k) (simp_all add: add.assoc)
  then show ?case using Suc.IH [OF b(2)] b(3) by simp
qed simp

lemma canonical_low: "unat a < 2 ^ 48 \<Longrightarrow> MEM_IS_CANONICAL a"
proof -
  assume "unat a < 2 ^ 48"
  then have low: "m < 48" if "bit a m" for m using bit_of_nat_small [of "unat a" 48 m, where ?'w = 64] that by simp
  have eq: "(0xFFFF000000000000 :: u64) = push_bit 48 (mask 16)" by (simp add: mask_eq_exp_minus_1 push_bit_eq_mult)
  have "a AND 0xFFFF000000000000 = 0"
    unfolding eq by (rule bit_word_eqI) (use low in \<open>fastforce simp: bit_and_iff bit_push_bit_iff\<close>)
  then show ?thesis by (simp add: MEM_IS_CANONICAL_def)
qed

lemma unat_add_of_nat: "unat a + k < 2 ^ 64 \<Longrightarrow> unat (a + of_nat k :: u64) = unat a + k"
proof -
  assume "unat a + k < 2 ^ 64"
  moreover then have "unat (of_nat k :: u64) = k" by (intro unat_of_nat_less) simp
  ultimately show ?thesis by (subst unat_add_lem [THEN iffD1]) simp_all
qed

text \<open>The bytes of a segment are on its pages.\<close>

lemma segment_address:
  assumes "segment_ok m ehdr h" "k < unat (ph_memsz h)"
  shows "page_no (ph_vaddr h + of_nat k) \<in> seg_pages h" "MEM_IS_CANONICAL (ph_vaddr h + of_nat k)"
proof -
  let ?v = "unat (ph_vaddr h)"
  have v: "?v mod 4096 = 0" "?v + k < 2 ^ 47" using assms by (auto simp: segment_ok_def)
  have u: "unat (ph_vaddr h + of_nat k) = ?v + k" using v(2) by (intro unat_add_of_nat) simp
  show "MEM_IS_CANONICAL (ph_vaddr h + of_nat k)" using u v(2) by (intro canonical_low) simp
  have "?v + (k div 4096) * 4096 \<le> ?v + k" by simp
  then have "?v + (k div 4096) * 4096 < 2 ^ 47" using v(2) by linarith
  then have "?v + (k div 4096) * 4096 < 2 ^ 64" by simp
  then have "unat (nth_page (ph_vaddr h) (k div 4096)) = ?v + (k div 4096) * 4096" by (rule unat_nth_page)
  moreover obtain c where "?v = 4096 * c" using v(1) by (metis mod_0_imp_dvd dvdE)
  then have "(?v + (k div 4096) * 4096) div 4096 = (?v + k) div 4096" by simp
  ultimately have "page_no (ph_vaddr h + of_nat k) = page_no (nth_page (ph_vaddr h) (k div 4096))"
    using u by (simp add: word_unat_eq_iff unat_page_no)
  moreover have "(k + 4096) div 4096 \<le> seg_len h" unfolding seg_len_def using assms(2) by (intro div_le_mono) simp
  then have "k div 4096 < seg_len h" by simp
  ultimately show "page_no (ph_vaddr h + of_nat k) \<in> seg_pages h" by (auto simp: seg_pages_def range_pages_def)
qed

lemma pages_between_up: "unat sz \<le> 2 ^ 47 \<Longrightarrow> pages_between 0 sz = Some (map (\<lambda>k. of_nat (k * 4096)) [0..<(unat sz + 4095) div 4096])"
proof -
  assume "unat sz \<le> 2 ^ 47"
  then have "(unat sz + 4095) div 4096 * 4096 < 2 ^ 64" by simp
  then show ?thesis by (simp add: pages_between_def)
qed

definition can_load :: "nat \<Rightarrow> mem_state \<Rightarrow> phdr_t \<Rightarrow> bool" where
  "can_load r ms h \<longleftrightarrow> (\<forall>k < seg_len h. clear_path ms r (vpath (nth_page (ph_vaddr h) k)))"

text \<open>The two writes of a segment.\<close>

lemma write_segment:
  assumes "running ms r" "mapped ms r B" "\<forall>k < M. page_no (v + of_nat k) \<in> B \<and> MEM_IS_CANONICAL (v + of_nat k)" "length bs \<le> M" "M \<le> 2 ^ 48"
  shows "\<exists>ms'. and_then (user_write v bs ms) (user_write (v + of_nat (length bs)) (replicate (M - length bs) 0)) = Done ms' \<and> kept r B ms ms' \<and>
     (\<forall>k < M. user_byte ms' r (v + of_nat k) = (if k < length bs then bs ! k else 0)) \<and>
     (\<forall>x. page_no x \<in> B \<longrightarrow> (\<forall>k < M. loc x \<noteq> loc (v + of_nat k)) \<longrightarrow> user_byte ms' r x = user_byte ms r x)"
proof -
  let ?F = "length bs" and ?z = "replicate (M - length bs) (0 :: u8)"
  have shift: "v + of_nat ?F + of_nat k = v + of_nat (?F + k)" for k by (simp add: add.assoc)
  obtain ms2 where 2: "user_write v bs ms = Done ms2" "kept r B ms ms2" "\<forall>k < ?F. user_byte ms2 r (v + of_nat k) = bs ! k"
    "\<forall>x. page_no x \<in> B \<longrightarrow> (\<forall>k < ?F. loc x \<noteq> loc (v + of_nat k)) \<longrightarrow> user_byte ms2 r x = user_byte ms r x"
    using user_write_spec [OF assms(1,2), of bs v] assms(3-5) by auto
  have k2: "running ms2 r" "mapped ms2 r B" using 2(2) by (simp_all add: kept_def)
  have z: "\<forall>k < length ?z. page_no (v + of_nat ?F + of_nat k) \<in> B \<and> MEM_IS_CANONICAL (v + of_nat ?F + of_nat k)" "length ?z \<le> 2 ^ 48"
    unfolding shift using assms(3-5) by (simp_all del: of_nat_add)
  obtain ms3 where 3: "user_write (v + of_nat ?F) ?z ms2 = Done ms3" "kept r B ms2 ms3" "\<forall>k < M - ?F. user_byte ms3 r (v + of_nat (?F + k)) = 0"
    "\<forall>x. page_no x \<in> B \<longrightarrow> (\<forall>k < M - ?F. loc x \<noteq> loc (v + of_nat (?F + k))) \<longrightarrow> user_byte ms3 r x = user_byte ms2 r x"
    using user_write_spec [OF k2 z] unfolding shift by auto
  have "user_byte ms3 r (v + of_nat k) = (if k < ?F then bs ! k else 0)" if k: "k < M" for k
  proof (cases "k < ?F")
    case True
    have "loc (v + of_nat k) \<noteq> loc (v + of_nat (?F + j))" if "j < M - ?F" for j
    proof
      assume "loc (v + of_nat k) = loc (v + of_nat (?F + j))"
      moreover have "k < 2 ^ 48" "?F + j < 2 ^ 48" using k that assms(5) by linarith+
      ultimately have "k = ?F + j" by (rule loc_add)
      then show False using True by simp
    qed
    then show ?thesis using 3(4) 2(3) assms(3) k True by simp
  next
    case False
    then show ?thesis using 3(3) [rule_format, of "k - ?F"] k by simp
  qed
  moreover have "user_byte ms3 r x = user_byte ms r x" if x: "page_no x \<in> B" "\<forall>k < M. loc x \<noteq> loc (v + of_nat k)" for x
  proof -
    have "\<forall>k < M - ?F. loc x \<noteq> loc (v + of_nat (?F + k))" "\<forall>k < ?F. loc x \<noteq> loc (v + of_nat k)" using x(2) assms(4) by (simp_all del: of_nat_add)
    then show ?thesis using 3(4) 2(4) x(1) by metis
  qed
  moreover have "kept r B ms ms3" using 2(2) 3(2) by (auto simp: kept_def)
  ultimately show ?thesis using 2(1) 3(1) by auto
qed

lemma segment_pages:
  assumes "segment_ok m ehdr h"
  shows "\<forall>k < seg_len h. MEM_IS_CANONICAL (nth_page (ph_vaddr h) k)" "inj_on (\<lambda>k. page_no (nth_page (ph_vaddr h) k)) {..<seg_len h}"
proof -
  let ?v = "unat (ph_vaddr h)" and ?M = "unat (ph_memsz h)"
  have v: "?v + ?M \<le> 2 ^ 47" using assms by (simp add: segment_ok_def)
  have n: "seg_len h * 4096 \<le> ?M + 4095" by (simp add: seg_len_def)
  show "\<forall>k < seg_len h. MEM_IS_CANONICAL (nth_page (ph_vaddr h) k)"
  proof (intro allI impI)
    fix k assume "k < seg_len h"
    then have "?v + k * 4096 < 2 ^ 48" using n v by simp
    moreover from this have "?v + k * 4096 < 2 ^ 64" by simp
    ultimately show "MEM_IS_CANONICAL (nth_page (ph_vaddr h) k)" using unat_nth_page [of "ph_vaddr h" k] by (intro canonical_low) simp
  qed
  show "inj_on (\<lambda>k. page_no (nth_page (ph_vaddr h) k)) {..<seg_len h}" using n v by (intro pages_differ) simp_all
qed

lemma load_segment_spec:
  assumes "phdr_at m a h" "segment_ok m ehdr h" "m = es_km st" "running (es_mem st) r" "mapped (es_mem st) r A" "seg_pages h \<inter> A = {}"
    "can_load r (es_mem st) h" "room (4 * seg_len h + c) (es_mem st)"
  shows "\<exists>ms'. load_segment ehdr a st = Done (st\<lparr>es_mem := ms'\<rparr>) \<and> running ms' r \<and> mapped ms' r (seg_pages h \<union> A) \<and> room c ms' \<and>
     (\<forall>k < unat (ph_memsz h). user_byte ms' r (ph_vaddr h + of_nat k) = segment_byte m ehdr h k) \<and>
     (\<forall>x. page_no x \<in> A \<longrightarrow> user_byte ms' r x = user_byte (es_mem st) r x) \<and>
     (\<forall>q. table_path q \<longrightarrow> clear_path (es_mem st) r q \<longrightarrow> clear_path ms' r q)"
proof -
  let ?v = "ph_vaddr h" and ?n = "seg_len h" and ?F = "unat (ph_filesz h)" and ?M = "unat (ph_memsz h)" and ?B = "seg_pages h \<union> A"
  have s: "unat ?v + ?M \<le> 2 ^ 47" "?F \<le> ?M" using assms(2) by (simp_all add: segment_ok_def word_le_nat_alt)
  obtain bs where bs: "ld_bytes ?F m (ehdr + ph_offset h) = Done bs" using assms(2) by (auto simp: segment_ok_def)
  have len: "length bs = ?F" "\<And>k. k < ?F \<Longrightarrow> bs ! k = segment_byte m ehdr h k" using ld_bytes_nth [OF bs] by (simp_all add: segment_byte_def)
  have flags: "\<not> has_flag MEM_DEFAULT MEM_PAGE_FREE" "\<not> has_flag MEM_DEFAULT MEM_PAGE_NOALLOC" "\<not> has_flag MEM_DEFAULT MEM_PAGE_NOT_PRESENT"
    by (simp_all add: has_flag_def MEM_DEFAULT_def)
  have "\<forall>k < ?n. MEM_IS_CANONICAL (nth_page ?v k) \<and> clear_path (es_mem st) r (vpath (nth_page ?v k))"
    using segment_pages(1) [OF assms(2)] assms(7) by (simp add: can_load_def)
  from user_map_loop [OF assms(4,5) this assms(8) assms(6) [unfolded seg_pages_def] segment_pages(2) [OF assms(2)] flags] obtain ms1 where
    1: "for_each (\<lambda>i. user_map MEM_DEFAULT (i + ?v)) (map (\<lambda>k. of_nat (k * 4096)) [0..<?n]) (es_mem st) = Done ms1" "running ms1 r" "room c ms1"
      "mapped ms1 r ?B" "\<forall>x. page_no x \<in> A \<longrightarrow> user_byte ms1 r x = user_byte (es_mem st) r x"
      "\<forall>q. table_path q \<longrightarrow> clear_path (es_mem st) r q \<longrightarrow> clear_path ms1 r q" unfolding seg_pages_def by blast
  have addr: "\<forall>k < ?M. page_no (?v + of_nat k) \<in> ?B \<and> MEM_IS_CANONICAL (?v + of_nat k)" using segment_address [OF assms(2)] by blast
  have "?M \<le> 2 ^ 48" "length bs \<le> ?M" using s len(1) by simp_all
  from write_segment [OF 1(2,4) addr this(2,1)] obtain ms2 where
    2: "and_then (user_write ?v bs ms1) (user_write (?v + of_nat (length bs)) (replicate (?M - length bs) 0)) = Done ms2" "kept r ?B ms1 ms2"
      "\<forall>k < ?M. user_byte ms2 r (?v + of_nat k) = (if k < length bs then bs ! k else 0)"
      "\<forall>x. page_no x \<in> ?B \<longrightarrow> (\<forall>k < ?M. loc x \<noteq> loc (?v + of_nat k)) \<longrightarrow> user_byte ms2 r x = user_byte ms1 r x" by blast
  have z: "(if ph_memsz h > ph_filesz h then user_write (?v + ph_filesz h) (replicate (unat (ph_memsz h - ph_filesz h)) 0) ms3 else Done ms3) =
      user_write (?v + of_nat (length bs)) (replicate (?M - length bs) 0) ms3" for ms3
  proof (cases "ph_memsz h > ph_filesz h")
    case True
    then have "unat (ph_memsz h - ph_filesz h) = ?M - ?F" by (intro unat_sub) simp
    then show ?thesis using True len(1) by simp
  next
    case False
    then have "?M \<le> ?F" by (simp add: not_less word_le_nat_alt)
    then show ?thesis using False len(1) by simp
  qed
  have "for_pages (\<lambda>i. user_map MEM_DEFAULT (i + ?v)) 0 (ph_memsz h) (es_mem st) = Done ms1"
    using 1(1) s(1) by (simp add: for_pages_def pages_between_up seg_len_def)
  moreover have "load_segment ehdr a st = and_then (for_pages (\<lambda>i. user_map MEM_DEFAULT (i + ?v)) 0 (ph_memsz h) (es_mem st)) (\<lambda>ms1.
      and_then (and_then (user_write ?v bs ms1) (user_write (?v + of_nat (length bs)) (replicate (?M - length bs) 0))) (\<lambda>ms3. Done (st\<lparr>es_mem := ms3\<rparr>)))"
    using assms(1) [unfolded phdr_at_def] assms(3) bs z by (simp add: load_segment_def Let_def and_then_assoc)
  ultimately have "load_segment ehdr a st = Done (st\<lparr>es_mem := ms2\<rparr>)" using 2(1) by (simp del: and_then_assoc)
  moreover have "user_byte ms2 r x = user_byte (es_mem st) r x" if x: "page_no x \<in> A" for x
  proof -
    have "loc x \<noteq> loc (?v + of_nat k)" if "k < ?M" for k
      using x assms(6) segment_address(1) [OF assms(2) that] by (auto simp: loc_eq)
    then show ?thesis using 2(4) 1(5) x by simp
  qed
  moreover have "\<forall>k < ?M. user_byte ms2 r (?v + of_nat k) = segment_byte m ehdr h k" using 2(3) len by (simp add: segment_byte_def)
  moreover have "room c ms2" using 1(3) 2(2) by (simp add: kept_def room_def)
  ultimately show ?thesis using 2(2) 1(6) by (intro exI [of _ ms2]) (simp add: kept_def)
qed

section \<open>All segments\<close>

text \<open>
  Headers of the types \<open>PT_NULL\<close> and \<open>PT_LOAD\<close>; the segments to load are in order and share no page with each other or with \<open>A\<close>.
\<close>

definition loads :: "phdr_t list \<Rightarrow> phdr_t list" where
  "loads hs = filter (\<lambda>h. ph_type h = PT_LOAD) hs"

primrec layout_ok :: "kmem \<Rightarrow> u64 \<Rightarrow> nat \<Rightarrow> mem_state \<Rightarrow> u64 set \<Rightarrow> phdr_t list \<Rightarrow> bool" where
  "layout_ok m ehdr r ms A [] \<longleftrightarrow> True"
| "layout_ok m ehdr r ms A (h # hs) \<longleftrightarrow>
     (if ph_type h = PT_LOAD then segment_ok m ehdr h \<and> can_load r ms h \<and> seg_pages h \<inter> A = {} \<and> layout_ok m ehdr r ms (seg_pages h \<union> A) hs
      else ph_type h = PT_NULL \<and> layout_ok m ehdr r ms A hs)"

lemma layout_ok_mono:
  assumes "\<forall>q. table_path q \<longrightarrow> clear_path ms r q \<longrightarrow> clear_path ms' r q"
  shows "layout_ok m ehdr r ms A hs \<Longrightarrow> layout_ok m ehdr r ms' A hs"
  using assms by (induction hs arbitrary: A) (auto simp: can_load_def split: if_splits)

lemma layout_ok_disjoint: "layout_ok m ehdr r ms A hs \<Longrightarrow> h \<in> set (loads hs) \<Longrightarrow> segment_ok m ehdr h \<and> seg_pages h \<inter> A = {}"
  by (induction hs arbitrary: A) (auto simp: loads_def split: if_splits)

lemma load_loop_step:
  assumes "has_phdrs (es_km st) ehdr hs" "i < length hs" "0 < n"
  shows "count_loop n (phnum ehdr) (load_phdr ehdr) (of_nat i) st =
     and_then (load_phdr ehdr (of_nat i) st) (\<lambda>(r, st'). if r = None then count_loop (n - 1) (phnum ehdr) (load_phdr ehdr) (of_nat (Suc i)) st' else Done (r, st'))"
proof -
  have len: "length hs < 2 ^ 16" using assms(1) by (simp add: has_phdrs_def)
  have "phnum ehdr st = Done (of_nat (length hs))" using assms(1) len by (simp add: phnum_def has_phdrs_def unsigned_of_nat take_bit_nat_eq_self)
  moreover have "(of_nat i :: u64) < of_nat (length hs)" using assms(2) len by (simp add: word_less_nat_alt unat_of_nat_less)
  ultimately show ?thesis using assms(3) by (subst count_loop.simps) (simp add: add.commute cong: if_cong)
qed

lemma load_phdr_at:
  assumes "has_phdrs (es_km st) ehdr hs" "i < length hs"
  obtains a where "phdr_at (es_km st) a (hs ! i)"
    "load_phdr ehdr (of_nat i) st = (if ph_type (hs ! i) = PT_NULL then Done (None, st)
       else if ph_type (hs ! i) = PT_LOAD then and_then (load_segment ehdr a st) (\<lambda>st'. Done (None, st')) else Done (Some (ucast ELF_FAIL), st))"
proof -
  from assms obtain a where a: "ELF_PHDR (es_km st) ehdr (of_nat i) = Done a" "phdr_at (es_km st) a (hs ! i)" by (auto simp: has_phdrs_def)
  have "i < 2 ^ 16" using assms by (simp add: has_phdrs_def)
  then have "(ucast (of_nat i :: u64) :: cint) = of_nat i" by (simp add: unsigned_of_nat take_bit_nat_eq_self)
  then show thesis using that [OF a(2)] a by (simp add: load_phdr_def phdr_at_def)
qed

lemma load_loop:
  assumes "has_phdrs m ehdr hs" "m = es_km st" "layout_ok m ehdr r (es_mem st) A ts" "running (es_mem st) r" "mapped (es_mem st) r A"
    "room (4 * (\<Sum>h\<leftarrow>loads ts. seg_len h)) (es_mem st)" "ts = drop i hs" "i \<le> length hs" "length ts < n"
  shows "\<exists>ms'. count_loop n (phnum ehdr) (load_phdr ehdr) (of_nat i) st = Done (None, st\<lparr>es_mem := ms'\<rparr>) \<and> running ms' r \<and>
     (\<exists>B. A \<subseteq> B \<and> mapped ms' r B \<and> (\<forall>h \<in> set (loads ts). seg_pages h \<subseteq> B)) \<and>
     (\<forall>h \<in> set (loads ts). \<forall>k < unat (ph_memsz h). user_byte ms' r (ph_vaddr h + of_nat k) = segment_byte m ehdr h k) \<and>
     (\<forall>x. page_no x \<in> A \<longrightarrow> user_byte ms' r x = user_byte (es_mem st) r x)"
  using assms(2-9)
proof (induction ts arbitrary: i st A n)
  case Nil
  then have "i = length hs" by simp
  then have "count_loop n (phnum ehdr) (load_phdr ehdr) (of_nat i) st = Done (None, st)"
    using assms(1) Nil.prems(1,8) by (subst count_loop.simps) (simp add: phnum_def has_phdrs_def unsigned_of_nat take_bit_nat_eq_self)
  then show ?case using Nil.prems(3,4) by (intro exI [of _ "es_mem st"]) (auto simp: loads_def)
next
  case (Cons h ts)
  let ?T = "\<lambda>ms' ts A st. running ms' r \<and> (\<exists>B. A \<subseteq> B \<and> mapped ms' r B \<and> (\<forall>h \<in> set (loads ts). seg_pages h \<subseteq> B)) \<and>
     (\<forall>h \<in> set (loads ts). \<forall>k < unat (ph_memsz h). user_byte ms' r (ph_vaddr h + of_nat k) = segment_byte m ehdr h k) \<and>
     (\<forall>x. page_no x \<in> A \<longrightarrow> user_byte ms' r x = user_byte (es_mem st) r x)"
  have i: "i < length hs" using Cons.prems(6) by (metis drop_all list.distinct(1) not_less)
  have d: "hs ! i = h" "ts = drop (Suc i) hs" using Cons.prems(6) Cons_nth_drop_Suc [OF i] by (metis list.inject)+
  have img: "has_phdrs (es_km st) ehdr hs" using assms(1) Cons.prems(1) by simp
  have n: "0 < n" "length ts < n - 1" using Cons.prems(8) by simp_all
  note step = load_loop_step [OF img i n(1)]
  obtain a where a: "phdr_at (es_km st) a h" "load_phdr ehdr (of_nat i) st = (if ph_type h = PT_NULL then Done (None, st)
       else if ph_type h = PT_LOAD then and_then (load_segment ehdr a st) (\<lambda>st'. Done (None, st')) else Done (Some (ucast ELF_FAIL), st))"
    by (rule load_phdr_at [OF img i, unfolded d])
  show ?case
  proof (cases "ph_type h = PT_LOAD")
    case True
    then have nn: "ph_type h \<noteq> PT_NULL" by (simp add: PT_LOAD_def PT_NULL_def)
    have lay: "segment_ok m ehdr h" "can_load r (es_mem st) h" "seg_pages h \<inter> A = {}" "layout_ok m ehdr r (es_mem st) (seg_pages h \<union> A) ts"
      using Cons.prems(2) True by simp_all
    have room: "room (4 * seg_len h + 4 * (\<Sum>h\<leftarrow>loads ts. seg_len h)) (es_mem st)" using Cons.prems(5) True by (simp add: loads_def algebra_simps)
    from load_segment_spec [OF a(1) [folded Cons.prems(1)] lay(1) Cons.prems(1,3,4) lay(3,2) room] obtain ms1 where
      1: "load_segment ehdr a st = Done (st\<lparr>es_mem := ms1\<rparr>)" "running ms1 r" "mapped ms1 r (seg_pages h \<union> A)" "room (4 * (\<Sum>h\<leftarrow>loads ts. seg_len h)) ms1"
        "\<forall>k < unat (ph_memsz h). user_byte ms1 r (ph_vaddr h + of_nat k) = segment_byte m ehdr h k"
        "\<forall>x. page_no x \<in> A \<longrightarrow> user_byte ms1 r x = user_byte (es_mem st) r x" "\<forall>q. table_path q \<longrightarrow> clear_path (es_mem st) r q \<longrightarrow> clear_path ms1 r q" by blast
    let ?st = "st\<lparr>es_mem := ms1\<rparr>"
    have "layout_ok m ehdr r (es_mem ?st) (seg_pages h \<union> A) ts" using layout_ok_mono [OF 1(7) lay(4)] by simp
    from Cons.IH [of ?st "seg_pages h \<union> A" "Suc i" "n - 1"] this Cons.prems(1) 1(2-4) d(2) i n(2) obtain ms2 where
      2: "count_loop (n - 1) (phnum ehdr) (load_phdr ehdr) (of_nat (Suc i)) ?st = Done (None, ?st\<lparr>es_mem := ms2\<rparr>)" "?T ms2 ts (seg_pages h \<union> A) ?st" by auto
    have "user_byte ms2 r (ph_vaddr h + of_nat k) = segment_byte m ehdr h k" if "k < unat (ph_memsz h)" for k
      using 2(2) 1(5) segment_address(1) [OF lay(1) that] that by simp
    then have "?T ms2 (h # ts) A st" using 2(2) 1(6) True by (auto simp: loads_def)
    moreover have "count_loop n (phnum ehdr) (load_phdr ehdr) (of_nat i) st = Done (None, st\<lparr>es_mem := ms2\<rparr>)"
      using step a(2) True nn 1(1) 2(1) by simp
    ultimately show ?thesis by blast
  next
    case False
    then have null: "ph_type h = PT_NULL" "layout_ok m ehdr r (es_mem st) A ts" using Cons.prems(2) by simp_all
    have l: "loads (h # ts) = loads ts" using False by (simp add: loads_def)
    from Cons.IH [of st A "Suc i" "n - 1"] null(2) Cons.prems(1,3,4) Cons.prems(5) [unfolded l] d(2) i n(2) obtain ms2 where
      2: "count_loop (n - 1) (phnum ehdr) (load_phdr ehdr) (of_nat (Suc i)) st = Done (None, st\<lparr>es_mem := ms2\<rparr>)" "?T ms2 ts A st" by auto
    then show ?thesis using step a(2) null(1) unfolding l by auto
  qed
qed

section \<open>Properties\<close>

text \<open>
  C39: \<open>elf_loadBuffer\<close> loads an executable as its format says. When the file is one the loader supports, its program headers
  are of the types \<open>PT_NULL\<close> and \<open>PT_LOAD\<close>, the file holds the bytes its headers name, and the segments start on pages of the
  lower half that they do not share, then with enough frames the call returns the file, and every byte of every segment can be read at its virtual address: the bytes of
  the file as far as they go, and zeros after them.
\<close>

theorem elf_loadBuffer_loads:
  assumes "elf_checkSupported (es_km st) fbuf = Done True" "e_type (es_km st) fbuf = Done ET_EXEC" "has_phdrs (es_km st) fbuf hs"
    "layout_ok (es_km st) fbuf r (es_mem st) {} hs" "running (es_mem st) r" "room (4 * (\<Sum>h\<leftarrow>loads hs. seg_len h)) (es_mem st)"
  shows "\<exists>ms'. elf_loadBuffer hm fbuf flags st = Done (fbuf, st\<lparr>es_mem := ms'\<rparr>) \<and> running ms' r \<and>
     (\<forall>h \<in> set (loads hs). \<forall>k < unat (ph_memsz h). user_load ms' (ph_vaddr h + of_nat k) = Done (segment_byte (es_km st) fbuf h k))"
proof -
  have len: "length hs < 2 ^ 16" "fbuf \<noteq> 0" using assms(3) by (simp_all add: has_phdrs_def)
  have "mapped (es_mem st) r {}" by (simp add: mapped_def)
  from load_loop [OF assms(3) refl assms(4,5) this assms(6), of 0 "2 ^ 16"] len(1) obtain ms' B where
    l: "count_loop (2 ^ 16) (phnum fbuf) (load_phdr fbuf) 0 st = Done (None, st\<lparr>es_mem := ms'\<rparr>)" "running ms' r" "mapped ms' r B"
      "\<forall>h \<in> set (loads hs). seg_pages h \<subseteq> B"
      "\<forall>h \<in> set (loads hs). \<forall>k < unat (ph_memsz h). user_byte ms' r (ph_vaddr h + of_nat k) = segment_byte (es_km st) fbuf h k"
    by auto
  have "elf_loadExecutable fbuf st = Done (0, st\<lparr>es_mem := ms'\<rparr>)" using l(1) len(2) by (simp add: elf_loadExecutable_def)
  then have "elf_loadBuffer hm fbuf flags st = Done (fbuf, st\<lparr>es_mem := ms'\<rparr>)"
    using assms(1,2) by (simp add: elf_loadBuffer_def ET_EXEC_def ET_REL_def)
  moreover have "user_load ms' (ph_vaddr h + of_nat k) = Done (segment_byte (es_km st) fbuf h k)" if h: "h \<in> set (loads hs)" "k < unat (ph_memsz h)" for h k
  proof -
    have "segment_ok (es_km st) fbuf h" using layout_ok_disjoint [OF assms(4) h(1)] by simp
    note adr = segment_address [OF this h(2)]
    then have "page_no (ph_vaddr h + of_nat k) \<in> B" using l(4) h(1) by blast
    then show ?thesis using user_load_spec [OF l(2,3) _ adr(2)] l(5) h by simp
  qed
  ultimately show ?thesis using l(2) by blast
qed

text \<open>
  An example: a file of 124 bytes at address \<open>0x1000\<close> with one segment, four bytes and four zeros at \<open>0x400000\<close>.
\<close>

definition tiny_elf :: "u8 list" where
  "tiny_elf = [0x7F, 0x45, 0x4C, 0x46, 2, 1, 1, 0] @ replicate 8 0 @ [2, 0, 62, 0, 1, 0, 0, 0] @ [0, 0, 0x40, 0, 0, 0, 0, 0] @ [64, 0, 0, 0, 0, 0, 0, 0] @
     replicate 8 0 @ [0, 0, 0, 0, 64, 0, 56, 0, 1, 0, 64, 0, 0, 0, 0, 0] @
     [1, 0, 0, 0, 7, 0, 0, 0] @ [120, 0, 0, 0, 0, 0, 0, 0] @ [0, 0, 0x40, 0, 0, 0, 0, 0] @ replicate 8 0 @
     [4, 0, 0, 0, 0, 0, 0, 0] @ [8, 0, 0, 0, 0, 0, 0, 0] @ replicate 8 0 @ [0xB8, 1, 2, 3]"

definition tiny_state :: elf_state where
  "tiny_state = \<lparr>es_km = file_buffer 0x1000 124 tiny_elf (\<lambda>_. None), es_brk = 0x2000, es_regions = small_regions, es_mem = small_memory\<rparr>"

definition tiny_phdr :: phdr_t where
  "tiny_phdr = \<lparr>ph_type = PT_LOAD, ph_offset = 120, ph_vaddr = 0x400000, ph_filesz = 4, ph_memsz = 8\<rparr>"

lemma tiny_elf_header:
  "elf_checkSupported (es_km tiny_state) 0x1000 = Done True" "e_type (es_km tiny_state) 0x1000 = Done ET_EXEC"
  "e_phnum (es_km tiny_state) 0x1000 = Done 1" "ELF_PHDR (es_km tiny_state) 0x1000 0 = Done 0x1040"
  "phdr_at (es_km tiny_state) 0x1040 tiny_phdr" "ld_bytes 4 (es_km tiny_state) (0x1000 + 120) = Done [0xB8, 1, 2, 3]"
  by code_simp+

lemma tiny_layout: "layout_ok (es_km tiny_state) 0x1000 0 small_memory {} [tiny_phdr]"
proof -
  have "segment_ok (es_km tiny_state) 0x1000 tiny_phdr" using tiny_elf_header(6) by (simp add: segment_ok_def tiny_phdr_def)
  moreover have "can_load 0 small_memory tiny_phdr" using small_memory_ok by (simp add: can_load_def seg_len_def tiny_phdr_def)
  ultimately show ?thesis by (simp add: tiny_phdr_def)
qed

theorem elf_loadBuffer_loads_witness:
  "\<exists>ms'. elf_loadBuffer None 0x1000 ELF_USER tiny_state = Done (0x1000, tiny_state\<lparr>es_mem := ms'\<rparr>) \<and>
     user_load ms' 0x400000 = Done 0xB8 \<and> user_load ms' 0x400006 = Done 0"
proof -
  have ms: "es_mem tiny_state = small_memory" by (simp add: tiny_state_def)
  have phdrs: "has_phdrs (es_km tiny_state) 0x1000 [tiny_phdr]" using tiny_elf_header(3-5) by (auto simp: has_phdrs_def)
  have run: "running (es_mem tiny_state) 0" using small_memory_ok ms by (simp add: running_def) (simp add: small_memory_def)
  have "{f. f < 64 \<and> \<not> f < (3 :: nat)} = {3..<64}" by auto
  then have "room 4 small_memory" by (simp add: room_def small_memory_def pmm_small_view) (simp add: pmm_small_def)
  moreover have loads: "loads [tiny_phdr] = [tiny_phdr]" "seg_len tiny_phdr = 1" by (simp_all add: loads_def seg_len_def tiny_phdr_def)
  ultimately have room: "room (4 * (\<Sum>h\<leftarrow>loads [tiny_phdr]. seg_len h)) (es_mem tiny_state)" using ms by simp
  from elf_loadBuffer_loads [OF tiny_elf_header(1,2) phdrs tiny_layout [folded ms] run room, where hm = None and flags = ELF_USER] obtain ms' where
    m: "elf_loadBuffer None 0x1000 ELF_USER tiny_state = Done (0x1000, tiny_state\<lparr>es_mem := ms'\<rparr>)"
      "\<forall>k < 8. user_load ms' (0x400000 + of_nat k) = Done (segment_byte (es_km tiny_state) 0x1000 tiny_phdr k)"
    unfolding loads by (auto simp: tiny_phdr_def)
  have "segment_byte (es_km tiny_state) 0x1000 tiny_phdr 0 = 0xB8" "segment_byte (es_km tiny_state) 0x1000 tiny_phdr 6 = 0" by code_simp+
  then show ?thesis using m(1) m(2) [rule_format, of 0] m(2) [rule_format, of 6] by auto
qed

end
