(* ===== verification/Elf_Reloc.thy ===== *)
theory Elf_Reloc
  imports Elf
begin

text \<open>
  The relocation of driver files: what an entry with an addend writes (\<open>elf_relocateSymbolAddend\<close> of
  \<open>hexahedron/loader/elf64_loader.c\<close>), and what becomes of one whose symbol is not found.
\<close>

unbundle bit_operations_syntax

section \<open>Stores and loads\<close>

lemma st_bytes_spec:
  assumes "\<forall>k < length bs. m (a + of_nat k) \<noteq> None" "length bs < 2 ^ 64"
  shows "\<exists>m'. st_bytes a bs m = Done m' \<and> (\<forall>k < length bs. m' (a + of_nat k) = Some (bs ! k)) \<and> (\<forall>x. length bs \<le> unat (x - a) \<longrightarrow> m' x = m x)"
  using assms
proof (induction bs arbitrary: a m)
  case (Cons b bs)
  have shift: "a + 1 + of_nat k = a + of_nat (Suc k)" for k by (simp add: add.assoc)
  have "m a \<noteq> None" using Cons.prems(1) by (auto simp: All_less_Suc2)
  moreover have "\<forall>k < length bs. (m(a \<mapsto> b)) (a + 1 + of_nat k) \<noteq> None" unfolding shift using Cons.prems(1) by (auto simp: All_less_Suc2)
  moreover have "length bs < 2 ^ 64" using Cons.prems(2) by simp
  ultimately have "m a \<noteq> None" "\<exists>m'. st_bytes (a + 1) bs (m(a \<mapsto> b)) = Done m' \<and> (\<forall>k < length bs. m' (a + 1 + of_nat k) = Some (bs ! k)) \<and>
      (\<forall>x. length bs \<le> unat (x - (a + 1)) \<longrightarrow> m' x = (m(a \<mapsto> b)) x)" using Cons.IH by blast+
  then obtain m' where
    m': "st_bytes (a + 1) bs (m(a \<mapsto> b)) = Done m'" "\<forall>k < length bs. m' (a + of_nat (Suc k)) = Some (bs ! k)"
      "\<forall>x. length bs \<le> unat (x - (a + 1)) \<longrightarrow> m' x = (m(a \<mapsto> b)) x" unfolding shift by blast
  have "m' a = Some b"
  proof -
    have "unat (a - (a + 1)) = 2 ^ 64 - 1" by (simp add: unsigned_minus_1_eq_mask mask_eq_exp_minus_1)
    then show ?thesis using m'(3) Cons.prems(2) by simp
  qed
  moreover have "m' x = m x" if x: "Suc (length bs) \<le> unat (x - a)" for x
  proof -
    have "x \<noteq> a" using x by auto
    moreover have "unat (x - a - 1) = unat (x - a) - 1" using x by (intro unat_minus_one) auto
    then have "length bs \<le> unat (x - (a + 1))" using x by (simp add: diff_diff_eq)
    ultimately show ?thesis using m'(3) by simp
  qed
  ultimately have "st_bytes a (b # bs) m = Done m' \<and> (\<forall>k < length (b # bs). m' (a + of_nat k) = Some ((b # bs) ! k)) \<and>
      (\<forall>x. length (b # bs) \<le> unat (x - a) \<longrightarrow> m' x = m x)"
    using m'(1,2) \<open>m a \<noteq> None\<close> by (auto simp: ld8_def nth_Cons split: nat.splits)
  then show ?case by blast
qed simp

lemma ld_bytes_all: "\<forall>k < length bs. m (a + of_nat k) = Some (bs ! k) \<Longrightarrow> ld_bytes (length bs) m a = Done bs"
proof (induction bs arbitrary: a)
  case (Cons b bs)
  have "m a = Some b" "\<forall>k < length bs. m (a + 1 + of_nat k) = Some (bs ! k)" using Cons.prems by (simp_all add: All_less_Suc2 add.assoc)
  then show ?case using Cons.IH by (simp add: ld8_def)
qed simp

lemma length_le_bytes [simp]: "length (le_bytes n w) = n"
  by (induction n arbitrary: w) simp_all

lemma le_value_le_bytes: "(le_value (le_bytes n (w :: 'w::len word)) :: 'v::len word) = ucast (take_bit (8 * n) w)"
proof (induction n arbitrary: w)
  case (Suc n)
  show ?case
    by (rule bit_word_eqI)
      (auto simp: Suc.IH bit_or_iff bit_push_bit_iff bit_ucast_iff bit_take_bit_iff bit_drop_bit_eq dest: bit_imp_le_length)
qed simp


lemmas reloc_types = R_X86_64_NONE_def R_X86_64_64_def R_X86_64_32_def R_X86_64_PC32_def

lemma ucast_low32: "(ucast (take_bit 32 (w :: u64)) :: u32) = ucast w" "take_bit 64 (w :: u64) = w"
  by (rule bit_word_eqI, simp add: bit_ucast_iff bit_take_bit_iff) (rule bit_word_eqI, simp add: bit_take_bit_iff)

lemma st_bytes_load:
  assumes "\<forall>k < n. m (a + of_nat k) \<noteq> None" "n < 2 ^ 64"
  shows "\<exists>m'. st_bytes a (le_bytes n w) m = Done m' \<and> ld_bytes n m' a = Done (le_bytes n w) \<and> (\<forall>x. n \<le> unat (x - a) \<longrightarrow> m' x = m x)"
proof -
  from st_bytes_spec [of "le_bytes n w" m a] assms obtain m' where
    m': "st_bytes a (le_bytes n w) m = Done m'" "\<forall>k < length (le_bytes n w). m' (a + of_nat k) = Some (le_bytes n w ! k)" "\<forall>x. n \<le> unat (x - a) \<longrightarrow> m' x = m x" by auto
  show ?thesis using m'(1,3) ld_bytes_all [OF m'(2)] by auto
qed

section \<open>Entries\<close>

text \<open>
  An entry of a relocation table with addends: the place it refers to, its type, the value of its symbol and its addend.
\<close>

definition rela_entry :: "ksym_map \<Rightarrow> kmem \<Rightarrow> u64 \<Rightarrow> u64 \<Rightarrow> u64 \<Rightarrow> cint \<Rightarrow> u64 \<Rightarrow> u64 \<Rightarrow> u64 \<Rightarrow> u64 \<Rightarrow> bool" where
  "rela_entry hm m ehdr rel reltab flags ref ty v a \<longleftrightarrow> (\<exists>info target off ro ri link.
     sh_info m reltab = Done info \<and> ELF_SECTION m ehdr (ucast info) = Done target \<and> sh_offset m target = Done off \<and> r_offset m rel = Done ro \<and>
     ref = ehdr + off + ro \<and> r_info m rel = Done ri \<and> ty = ELF64_R_TYPE ri \<and> ELF64_R_SYM ri \<noteq> 0 \<and> sh_link m reltab = Done link \<and>
     elf_getSymbolAddress hm m ehdr (ucast link) (ELF64_R_SYM ri) flags = Done v \<and> r_addend m rel = Done a)"

lemma relocate_entry_at:
  assumes "rela_entry hm m ehdr rel reltab flags ref ty v a"
  shows "elf_relocateSymbolAddend hm ehdr rel reltab flags m =
     (if v = ELF_FAIL then Done (- 1, m) else apply_relocation ty ref v (\<lambda>_. Done (scast (ucast a :: cint))) m)"
  using assms by (auto simp: rela_entry_def elf_relocateSymbolAddend_def relocate_entry_def apply_relocation_def)

text \<open>An addend of 32 bits is taken as it is.\<close>

lemma addend_small: "- (2 ^ 31) \<le> sint a \<Longrightarrow> sint a < 2 ^ 31 \<Longrightarrow> (scast (ucast (a :: u64) :: cint) :: u64) = a"
proof -
  assume "- (2 ^ 31) \<le> sint a" "sint a < 2 ^ 31"
  then have "signed_take_bit 31 (sint a) = sint a" by (intro signed_take_bit_int_eq_self) simp_all
  moreover have "sint (ucast a :: cint) = signed_take_bit 31 (sint a)"
    by (simp add: sint_uint signed_take_bit_take_bit unsigned_ucast_eq)
  ultimately have "sint (ucast a :: cint) = sint a" by simp
  then show ?thesis by (simp add: scast_eq)
qed

text \<open>
  C40: A relocation with an addend is applied. At an entry whose symbol has a value and whose addend fits in 32 bits,
  \<open>elf_relocateSymbolAddend\<close> returns the value and writes, for the three types it supports, the value plus the addend as 64 or
  as 32 bits, or the distance to it from the place written; it needs only those eight or four bytes there, and no byte
  besides them changes. A distance that fits in 32 bits leads from the place to the value plus the addend when the processor extends and adds it.
\<close>

definition reloc_width :: "u64 \<Rightarrow> nat" where
  "reloc_width ty = (if ty = R_X86_64_64 then 8 else 4)"

theorem elf_relocateSymbolAddend_applies:
  assumes "rela_entry hm m ehdr rel reltab flags ref ty v a" "v \<noteq> ELF_FAIL" "ty \<in> {R_X86_64_64, R_X86_64_32, R_X86_64_PC32}"
    "\<forall>k < reloc_width ty. m (ref + of_nat k) \<noteq> None" "- (2 ^ 31) \<le> sint a" "sint a < 2 ^ 31"
  shows "\<exists>m'. elf_relocateSymbolAddend hm ehdr rel reltab flags m = Done (v, m') \<and>
     (\<forall>x. reloc_width ty \<le> unat (x - ref) \<longrightarrow> m' x = m x) \<and>
     (ty = R_X86_64_64 \<longrightarrow> ld64 m' ref = Done (v + a)) \<and>
     (ty = R_X86_64_32 \<longrightarrow> ld32 m' ref = Done (ucast (v + a))) \<and>
     (ty = R_X86_64_PC32 \<longrightarrow> (\<exists>d. ld32 m' ref = Done d \<and> (- (2 ^ 31) \<le> sint (v + a - ref) \<longrightarrow> sint (v + a - ref) < 2 ^ 31 \<longrightarrow> ref + scast d = v + a)))"
proof -
  note st = st_bytes_load [OF assms(4)]
  note eq = relocate_entry_at [OF assms(1), unfolded addend_small [OF assms(5,6)]]
  consider "ty = R_X86_64_64" | "ty = R_X86_64_32" | "ty = R_X86_64_PC32" using assms(3) by blast
  then show ?thesis
  proof cases
    case 1
    then have w: "reloc_width ty = 8" by (simp add: reloc_width_def)
    from st [unfolded w, of "v + a"] obtain m' where "st_bytes ref (le_bytes 8 (v + a)) m = Done m'" "ld_bytes 8 m' ref = Done (le_bytes 8 (v + a))"
      "\<forall>x. 8 \<le> unat (x - ref) \<longrightarrow> m' x = m x" by auto
    then show ?thesis using 1 eq assms(2) unfolding w by (auto simp: apply_relocation_def reloc_types ld64_def le_value_le_bytes ucast_low32)
  next
    case 2
    then have w: "reloc_width ty = 4" by (simp add: reloc_width_def reloc_types)
    from st [unfolded w, of "v + a"] obtain m' where "st_bytes ref (le_bytes 4 (v + a)) m = Done m'" "ld_bytes 4 m' ref = Done (le_bytes 4 (v + a))"
      "\<forall>x. 4 \<le> unat (x - ref) \<longrightarrow> m' x = m x" by auto
    then show ?thesis using 2 eq assms(2) unfolding w by (auto simp: apply_relocation_def reloc_types ld32_def le_value_le_bytes ucast_low32)
  next
    case 3
    then have w: "reloc_width ty = 4" by (simp add: reloc_width_def reloc_types)
    from st [unfolded w, of "v + a - ref"] obtain m' where "st_bytes ref (le_bytes 4 (v + a - ref)) m = Done m'"
      "ld_bytes 4 m' ref = Done (le_bytes 4 (v + a - ref))" "\<forall>x. 4 \<le> unat (x - ref) \<longrightarrow> m' x = m x" by auto
    then show ?thesis using 3 eq assms(2) addend_small [of "v + a - ref"] unfolding w by (auto simp: apply_relocation_def reloc_types ld32_def le_value_le_bytes ucast_low32)
  qed
qed

text \<open>A symbol that is not found makes no difference to the file, and the loop over the table goes on: -1 is not \<open>ELF_FAIL\<close>.\<close>

lemma unresolved_symbol_ignored:
  assumes "rela_entry hm m ehdr rel reltab flags ref ty ELF_FAIL a"
  shows "elf_relocateSymbolAddend hm ehdr rel reltab flags m = Done (- 1, m)" "(- 1 :: u64) \<noteq> ELF_FAIL"
  using relocate_entry_at [OF assms] by (simp_all add: ELF_FAIL_def)

text \<open>
  An example: a file with one section of text at offset 0x180, a symbol at 0x10 in it and an entry that wants the symbol's address
  plus 4 at 8.
\<close>

definition tiny_rel :: kmem where
  "tiny_rel x = (if x - 0x1000 < 0x200 then
     Some (case map_of [(40, 64), (152, 0x80), (153, 1), (216, 0x40), (217, 1), (224, 48), (248, 24), (296, 2), (300, 1), (350, 1), (352, 0x10),
                        (448, 8), (456, 1), (460, 1), (464, 4)] (x - 0x1000) of Some b \<Rightarrow> b | None \<Rightarrow> 0)
     else None)"

lemma tiny_rel_entry: "rela_entry None tiny_rel 0x1000 0x11C0 0x1100 ELF_KERNEL 0x1188 R_X86_64_64 0x1190 4"
proof -
  have "sh_info tiny_rel 0x1100 = Done 1" "ELF_SECTION tiny_rel 0x1000 (ucast (1 :: u32)) = Done 0x1080" "sh_offset tiny_rel 0x1080 = Done 0x180"
    "r_offset tiny_rel 0x11C0 = Done 8" "(0x1188 :: u64) = 0x1000 + 0x180 + 8" "r_info tiny_rel 0x11C0 = Done 0x100000001"
    "R_X86_64_64 = ELF64_R_TYPE 0x100000001" "ELF64_R_SYM 0x100000001 \<noteq> 0" "sh_link tiny_rel 0x1100 = Done 2"
    "elf_getSymbolAddress None tiny_rel 0x1000 (ucast (2 :: u32)) (ELF64_R_SYM 0x100000001) ELF_KERNEL = Done 0x1190" "r_addend tiny_rel 0x11C0 = Done 4"
    by code_simp+
  then show ?thesis unfolding rela_entry_def by blast
qed

theorem elf_relocateSymbolAddend_applies_witness:
  "\<exists>m'. elf_relocateSymbolAddend None 0x1000 0x11C0 0x1100 ELF_KERNEL tiny_rel = Done (0x1190, m') \<and> ld64 m' 0x1188 = Done 0x1194 \<and> m' 0x1190 = Some 0"
proof -
  have pre: "(0x1190 :: u64) \<noteq> ELF_FAIL" "R_X86_64_64 \<in> {R_X86_64_64, R_X86_64_32, R_X86_64_PC32}" "- (2 ^ 31) \<le> sint (4 :: u64)" "sint (4 :: u64) < 2 ^ 31" by (simp_all add: ELF_FAIL_def)
  have "list_all (\<lambda>k. tiny_rel (0x1188 + of_nat k) \<noteq> None) [0..<8]" by code_simp
  then have mem: "\<forall>k < reloc_width R_X86_64_64. tiny_rel (0x1188 + of_nat k) \<noteq> None" by (simp add: list_all_iff reloc_width_def)
  from elf_relocateSymbolAddend_applies [OF tiny_rel_entry pre(1,2) mem pre(3,4)] obtain m' where
    m: "elf_relocateSymbolAddend None 0x1000 0x11C0 0x1100 ELF_KERNEL tiny_rel = Done (0x1190, m')" "ld64 m' 0x1188 = Done (0x1190 + 4)"
      "\<forall>x. 8 \<le> unat (x - 0x1188) \<longrightarrow> m' x = tiny_rel x" by (auto simp: reloc_width_def)
  have "tiny_rel 0x1190 = Some 0" by code_simp
  then show ?thesis using m(1,2) spec [OF m(3), of "0x1190"] by auto
qed

end
