(* ===== verification/Spec2Isabelle.thy ===== *)
theory Spec2Isabelle
  imports Pmm Pool Semaphore Process_Life Drivefs Nic Initrd Copy_On_Write Elf_Load Elf_Reloc
begin

text \<open>
  A verification development for reduceOS: its kernel Hexahedron (\<^verbatim>\<open>src/hexahedron\<close>), the data structures of the kernel
  (\<^verbatim>\<open>src/libkstructures\<close>) and its C library (\<^verbatim>\<open>src/libpolyhedron\<close>), as they are built for x86_64.

  \<^bold>\<open>The program.\<close> The kernel starts from a boot loader's memory map and modules. The physical memory manager hands out
  frames of 4 KiB, page tables map them, pools hand out ranges of virtual addresses. Processes own threads, one queue of
  threads is scheduled in turn, threads sleep until a time or a condition. Files are nodes with methods in a tree of
  mount points, below which devices, drives and the archive of the initial ramdisk are mounted; a process reaches them
  by descriptors and system calls. Drivers and programs are ELF files. The network stack sends and receives Ethernet, ARP, IPv4 and ICMP over interfaces
  that are files as well. All of this uses lists, trees, hash maps, ring buffers, spinlocks and the C library.

  \<^bold>\<open>How code is modelled.\<close> A function of the source is a definition with the source's name. Fixed-width integers are words
  of that width, \<open>int\<close> is \<open>cint\<close>, a word of 32 bits read as signed; \<open>size_t\<close>, \<open>uintptr_t\<close> and pointers have 64 bits. A
  call returns an \<open>outcome\<close>: \<open>Done\<close> with the result and the new state, \<open>Panic\<close> with the code given to
  \<open>kernel_panic\<close>, \<open>Fault\<close> for an access the machine would not allow (outside an array, through a freed or NULL pointer,
  a division by zero) or an operation C does not define (a bad shift, the overflow of a signed value that is read from text), or \<open>Hang\<close> when it never returns (a lock that is held, a loop without end). \<open>and_then\<close> composes
  them. State is a record passed along. Where code keeps pointers, objects are in a map from addresses, with \<open>kmalloc\<close>
  as the next unused address; it never fails. Output of \<open>dprintf\<close> and \<open>printf\<close> to logs is left out.

  \<^bold>\<open>Theories.\<close> In the order of the imports:

  \<^item> \<open>Prelude\<close>: machine types, outcomes, array access, the loops all components share.
  \<^item> \<open>Spinlock\<close> (\<^verbatim>\<open>hexahedron/misc/spinlock.c\<close>): the lock as one CPU sees it, and as an inductive step relation of many
    CPUs, of which mutual exclusion is an invariant. Components carry the flag of their lock.
  \<^item> \<open>Frame_Bitmap\<close>: the contract of a bitmap of frames, locales \<open>frame_bitmap\<close> and \<open>frame_search\<close> (which extends it).
    Runs of frames, their round trip and the first fit are proved there once.
  \<^item> \<open>Pmm\<close> (\<^verbatim>\<open>hexahedron/mem/pmm.c\<close>) and \<open>Pool\<close> (\<^verbatim>\<open>hexahedron/misc/pool.c\<close>): interpret those locales on their bitmaps.
    First fit; the counter of used frames against the bitmap over all sequences of calls, with the drift that releases of free
    frames and overlapping regions cause; allocation and release as inverses.
  \<^item> \<open>Paging\<close> (\<^verbatim>\<open>hexahedron/arch/x86_64/mem.c\<close>): entries, page walks, reference counts, copy on write, cloning and
    destruction of address spaces, allocation of ranges, page faults. \<open>Page_Tables\<close>: the tables as a tree of
    frames; \<open>mem_mapAddress\<close> refines the update of a map from pages to entries. \<open>Copy_On_Write\<close>: two sides of a shared
    page never see each other's writes. \<open>Regions\<close> (\<^verbatim>\<open>hexahedron/mem/regions.c\<close>): DMA, device and driver memory over
    \<open>Pool\<close> and \<open>Page_Tables\<close>. \<open>User_Memory\<close>: loads and stores of a process through its tables, byte by byte.
  \<^item> \<open>KList\<close> (\<^verbatim>\<open>libkstructures/list/list.c\<close>): the doubly linked list on its heap, with the abstraction to HOL lists; the
    locale \<open>fifo\<close>, about interleaved sequences of calls, is interpreted on appending and taking. \<open>KTree\<close> (\<^verbatim>\<open>tree/tree.c\<close>): trees over those lists, found
    in preorder. \<open>KHashmap\<close> (\<^verbatim>\<open>hashmap/hashmap.c\<close>): the locale \<open>dictionary\<close>, interpreted on the hash map.
    \<open>Circbuf\<close> (\<^verbatim>\<open>circbuf/circbuf.c\<close>): the ring as a bounded queue. \<open>Semaphore\<close> (\<^verbatim>\<open>hexahedron/misc/semaphore.c\<close>):
    conservation of the count over all sequences of operations.
  \<^item> \<open>Libc_String\<close>, \<open>Libc_Strstr\<close>, \<open>Libc_Stdlib\<close>, \<open>Printf\<close>, \<open>Libc_Time\<close>, \<open>Inet\<close> (\<^verbatim>\<open>libpolyhedron/string\<close>, \<^verbatim>\<open>stdlib\<close>,
    \<^verbatim>\<open>stdio/printf.c\<close>, \<^verbatim>\<open>time\<close>, \<^verbatim>\<open>net/inet.c\<close>): copying against its specification with overlap, tokens, substring search
    (locale \<open>rolling_word\<close>, interpreted for needles of two, three and four bytes), numerals, printing within
    the buffer and reading back, calendar time and its inverse, dotted addresses and their inverse. \<open>Bytes\<close>: the fields of
    packed structures.
  \<^item> \<open>Clock\<close> (\<^verbatim>\<open>hexahedron/drivers/clock.c\<close>, \<^verbatim>\<open>drivers/x86/clock.c\<close>): the CMOS time is \<open>mktime\<close> of its fields.
  \<^item> \<open>Task\<close>, \<open>Scheduler\<close>, \<open>Sleep\<close>, \<open>Process\<close>, \<open>Process_Life\<close> (\<^verbatim>\<open>hexahedron/task\<close>): the structures; the queue of
    threads; sleepers and their clock callback; identifiers, yielding (no thread starves) and exit; creation, fork, wait
    and reaping.
  \<^item> \<open>Vfs_Path\<close>, \<open>Vfs\<close> (\<^verbatim>\<open>hexahedron/fs/vfs.c\<close>): normal forms of paths; mounting refines the update of a map of mount
    points; opening after mounting. \<open>Fd\<close> (\<^verbatim>\<open>task/fd.c\<close>, \<^verbatim>\<open>task/syscall.c\<close>): descriptor tables stay well formed under the
    system calls. \<open>Devices\<close> (\<^verbatim>\<open>fs/null.c\<close>, \<^verbatim>\<open>fs/ramdev.c\<close>), \<open>Periphfs\<close>, \<open>Drivefs\<close>, \<open>Tarfs\<close> (\<^verbatim>\<open>fs/periphfs.c\<close>, \<^verbatim>\<open>fs/drivefs.c\<close>,
    \<^verbatim>\<open>fs/tarfs.c\<close>), \<open>Initrd\<close> (\<open>kernel_mountRamdisk\<close> of \<^verbatim>\<open>kernel/kernel.c\<close>): devices, keys, drive names, archives; from
    boot module to the bytes of every file of the archive.
  \<^item> \<open>Ksym\<close> (\<^verbatim>\<open>hexahedron/misc/ksym.c\<close>): the symbols of the kernel, from the map file to a hash map. \<open>Elf\<close>
    (\<^verbatim>\<open>hexahedron/loader/elf64_loader.c\<close>): the loader, over the files, the symbols, driver memory and the page tables.
    \<open>Elf_Load\<close>: the process sees the bytes of every segment of an executable at its address, for segments on pages of their
    own. \<open>Elf_Reloc\<close>: what a relocation writes, and that it writes nothing else.
  \<^item> \<open>Ethernet\<close>, \<open>Arp\<close>, \<open>Ipv4\<close>, \<open>Icmp\<close>, \<open>Nic\<close> (\<^verbatim>\<open>hexahedron/drivers/net\<close>): the stack, put together in \<open>Icmp\<close>, and the
    interfaces as files. This theory has the property of the whole: the machine can reach itself after start-up.

  \<^bold>\<open>Arguments that stand for other code.\<close> \<open>page_rw\<close> says whether a page can be written, for the RAM device; \<open>fs_ops\<close> are the
  methods of file system drivers, instantiated by \<open>device_ops\<close> and the drivers that are modelled; \<open>mem_ops\<close> are the
  addresses \<open>mem_clone\<close> and \<open>mem_allocate\<close> give to the process code; the frames that arrive, the key
  events, the time-stamp counter and the CMOS bytes are inputs; \<open>rodata\<close> is what follows a string constant that is read
  past its end.

  \<^bold>\<open>Bounds.\<close> A loop that the code bounds is recursion on that bound. Walks of linked lists have as many rounds as there are
  addresses below \<open>lh_brk\<close>, more than any list has nodes; \<open>tree_fuel\<close> is more than there can be tree and list nodes; the recursion from
  sending to receiving on loopback is \<open>net_ops_at\<close> with a depth, of which two are shown enough; waiting for ARP has the 39
  rounds of the code; \<open>strtok_loop\<close> and \<open>reaper_loop\<close> have one round more than the string or list is long; the search
  in an archive has \<open>2 ^ 64\<close> rounds, after which an offset must repeat, and is then \<open>Hang\<close>; the two-way search has
  \<open>tw_rounds\<close>; the loops of the ELF loader have more rounds than their counters have values. A theorem that a loop returns states \<open>Done\<close> explicitly.

  \<^bold>\<open>Not modelled.\<close> The i386 build (its memory manager and assembly repeat the x86_64 ones); \<open>mem_init\<close>, which fills static
  tables before anything else runs; TLBs, interrupt controllers, context switches and the start of other processors, which
  are assembly and device registers; drivers for PCI, USB, disks, PS/2, graphics and serial lines, whose behaviour is that
  of the devices; ACPI, which is the ACPICA library; the loader for 32-bit ELF files, which is the i386 one;
  the list of drivers and \<open>process_execute\<close>, which jump into what the ELF loader loaded; the general-purpose allocators and the JSON parser, which are third-party code; fonts,
  terminals, the debugger and panic screens, which only draw or print; user programs and the \<open>FILE\<close> functions, which only
  issue system calls.
\<close>

section \<open>Start-up of the network\<close>

text \<open> C32: after start-up the machine can reach itself. From any file system in order and a network stack that has
  not been initialised, the steps of \<open>kmain\<close> (\<open>arp_init\<close>, \<open>ipv4_init\<close>, \<open>icmp_init\<close>, \<open>loopback_install\<close>) return;
  the interface is then in the file system, where opening \<open>/device/lo\<close> gives a node with the write method and
  the device of the loopback interface; and \<open>icmp_ping\<close> of 127.0.0.1 through it returns 0 after ten rounds, each of
  which got its own reply: an echo reply with the sequence number of that round's request and the 48 bytes sent.\<close>

theorem boot_loopback_ping:
  assumes "vfs_ok v" "ethertype_handler_map net = None" "\<not> arp_lock net" "net_incoming net = []" "16 \<le> length rodata"
  shows "\<exists>n1 m n2 r v' n rs. net_boot net = Done n1 \<and>
     loopback_install t rodata \<lparr>mc_vfs = v, mc_net = n1, net_ethernet_index = 0, net_wireless_index = 0\<rparr> = Done m \<and>
     kopen device_ops (mc_vfs m) (Some ''/device/lo'') 0 = Done (r, v') \<and> vfs_nodes v' r = Some n \<and>
     fn_dev n = Dev (vfs_brk v) \<and> fn_write n = M_driver 5 \<and>
     icmp_ping (net_ops_at 2) ((mc_net m)\<lparr>ping_packet := None\<rparr>) (vfs_brk v) 0x0100007F = Done (0, rs, n2) \<and>
     length rs = 10 \<and>
     (\<forall>i < 10. \<exists>c. rs ! i = (i, Some (icmp_bytes ICMP_ECHO_REPLY 0 c (varies_dword i) (map of_nat [0..<48]))))"
proof -
  from net_boot_up [OF assms(2,3)] obtain em im am where
    b: "net_boot net = Done (net\<lparr>arp_map := Some am, ethertype_handler_map := Some em, ipv4_handler_hashmap := Some im\<rparr>)"
      "net_up (net\<lparr>arp_map := Some am, ethertype_handler_map := Some em, ipv4_handler_hashmap := Some im\<rparr>)"
      "int_map am" "hm_view am = Map.empty" by blast
  define n1 where "n1 = net\<lparr>arp_map := Some am, ethertype_handler_map := Some em, ipv4_handler_hashmap := Some im\<rparr>"
  let ?lo = "vfs_brk v" and ?s = "\<lparr>mc_vfs = v, mc_net = n1, net_ethernet_index = 0, net_wireless_index = 0\<rparr>"
  let ?n = "n1\<lparr>net_nics := (net_nics n1)(?lo \<mapsto> lo_nic)\<rparr>"
  obtain v1 where v1: "loopback_install t rodata ?s = Done (?s\<lparr>mc_vfs := v1, mc_net := ?n\<rparr>)"
    "kopen device_ops v1 (Some ''/device/lo'') 0 =
       Done (vfs_brk v1, v1\<lparr>vfs_nodes := (vfs_nodes v1)(vfs_brk v1 \<mapsto> (lo_node t ?lo)\<lparr>fn_refcount := 1\<rparr>), vfs_brk := vfs_brk v1 + 1\<rparr>)"
    using loopback_install_spec [of ?s rodata t device_ops 0] assms(1,5) by auto
  have "?lo \<noteq> NULL" using assms(1) by (simp add: vfs_ok_def nodes_ok_def)
  then have "lo_up ?n ?lo lo_nic"
    using b(2-4) assms(3,4) unfolding lo_up_def by (simp add: n1_def lo_nic_def arp_ok_def arp_view_def net_up_def)
  then obtain n2 rs where p: "icmp_ping (net_ops_at 2) (?n\<lparr>ping_packet := None\<rparr>) ?lo (nic_ipv4_address lo_nic) = Done (0, rs, n2)"
    "length rs = 10" "echo_replies 0 (map of_nat [0..<48]) rs"
    using lo_ping_loop [of 2 0 "map of_nat [0..<48]" ?n ?lo lo_nic 0 10] by (auto simp: icmp_ping_def simp del: icmp_ping_loop.simps)
  then have "\<forall>i < 10. \<exists>c. rs ! i = (i, Some (icmp_bytes ICMP_ECHO_REPLY 0 c (varies_dword i) (map of_nat [0..<48])))"
    by (simp add: echo_replies_def)
  with p(1,2) show ?thesis using b(1) v1 by (auto simp: n1_def [symmetric] lo_node_def lo_nic_def)
qed

theorem boot_loopback_ping_witness:
  "\<exists>n1 m n2 rs. net_boot (lo_machine\<lparr>net_nics := (\<lambda>a. None)\<rparr>) = Done n1 \<and>
     loopback_install 0 (replicate 16 NUL) \<lparr>mc_vfs = vfs_example, mc_net = n1, net_ethernet_index = 0, net_wireless_index = 0\<rparr> = Done m \<and>
     icmp_ping (net_ops_at 2) ((mc_net m)\<lparr>ping_packet := None\<rparr>) 2 0x0100007F = Done (0, rs, n2) \<and> length rs = 10"
proof -
  have "vfs_brk vfs_example = 2" by (simp add: vfs_example_def vfs_init_def)
  with boot_loopback_ping [OF vfs_example_ok(1), of "lo_machine\<lparr>net_nics := (\<lambda>a. None)\<rparr>" "replicate 16 NUL" 0] show ?thesis
    by (auto simp: lo_machine_def)
qed

end
